(* ===== verification/Prelude.thy ===== *)
theory Prelude
  imports Main "HOL-Library.Word" "HOL-Library.Finite_Map"
begin

text \<open>
  What every component shares: the result type of code that can throw, association lists as the
  property lists of JavaScript objects, array splices and slices, and the collections of rewrite
  rules the component proofs use.
\<close>

named_theorems alist_simps \<open>lookup after an update of a property list\<close>
named_theorems norm_simps \<open>the abstract value of a concrete one\<close>
named_theorems bytes_simps \<open>reading back what a writer produced\<close>

unbundle bit_operations_syntax

section \<open>Results\<close>

text \<open>Code that throws returns \<open>Inl\<close> the error; \<open>rbind\<close> runs the next statement otherwise.\<close>

definition rbind :: "'e + 'a \<Rightarrow> ('a \<Rightarrow> 'e + 'b) \<Rightarrow> 'e + 'b" where
  "rbind r f = (case r of Inl e \<Rightarrow> Inl e | Inr x \<Rightarrow> f x)"

lemma rbind_simps [simp]:
  "rbind (Inl e) f = Inl e"
  "rbind (Inr x) f = f x"
  by (simp_all add: rbind_def)

lemma rbind_cong [fundef_cong]:
  "r = r' \<Longrightarrow> (\<And>x. r' = Inr x \<Longrightarrow> f x = g x) \<Longrightarrow> rbind r f = rbind r' g"
  by (simp add: rbind_def split: sum.split)

lemma rbind_Inr_conv: "rbind r f = Inr y \<longleftrightarrow> (\<exists>x. r = Inr x \<and> f x = Inr y)"
  by (cases r) auto

lemma rbind_Inl_conv: "rbind r f = Inl e \<longleftrightarrow> r = Inl e \<or> (\<exists>x. r = Inr x \<and> f x = Inl e)"
  by (cases r) auto

lemma rbindE:
  assumes "rbind r f = Inr y"
  obtains x where "r = Inr x" and "f x = Inr y"
  using assms by (auto simp: rbind_Inr_conv)

text \<open>A check that throws \<open>e\<close> unless the condition holds.\<close>

definition require :: "'e \<Rightarrow> bool \<Rightarrow> 'e + unit" where
  "require e b = (if b then Inr () else Inl e)"

lemma require_simps [simp]:
  "require e True = Inr ()"
  "require e False = Inl e"
  "require e b = Inr u \<longleftrightarrow> b"
  "require e b = Inl e' \<longleftrightarrow> \<not> b \<and> e' = e"
  by (auto simp: require_def)

text \<open>A loop over a list whose body may throw.\<close>

fun rfold :: "('s \<Rightarrow> 'a \<Rightarrow> 'e + 's) \<Rightarrow> 's \<Rightarrow> 'a list \<Rightarrow> 'e + 's" where
  "rfold f s [] = Inr s"
| "rfold f s (x # xs) = rbind (f s x) (\<lambda>s'. rfold f s' xs)"

lemma rfold_append: "rfold f s (xs @ ys) = rbind (rfold f s xs) (\<lambda>s'. rfold f s' ys)"
  by (induction xs arbitrary: s) (auto simp: rbind_def split: sum.splits)

lemma rfold_map: "rfold f s (map g xs) = rfold (\<lambda>s x. f s (g x)) s xs"
  by (induction xs arbitrary: s) (auto simp: rbind_def split: sum.splits)

lemma rfold_cong [fundef_cong]:
  "s = s' \<Longrightarrow> xs = ys \<Longrightarrow> (\<And>s x. x \<in> set ys \<Longrightarrow> f s x = g s x) \<Longrightarrow> rfold f s xs = rfold g s' ys"
  by (induction xs arbitrary: s s' ys) (auto simp: rbind_def split: sum.splits)

section \<open>Property lists\<close>

text \<open>
  A JavaScript object is the list of its own enumerable properties in enumeration order. Defining a
  property keeps the place of an existing key and appends a new one; deleting drops it.
\<close>

fun al_put :: "'k \<Rightarrow> 'v \<Rightarrow> ('k \<times> 'v) list \<Rightarrow> ('k \<times> 'v) list" where
  "al_put k v [] = [(k, v)]"
| "al_put k v ((k', v') # kvs) = (if k = k' then (k, v) # kvs else (k', v') # al_put k v kvs)"

definition al_del :: "'k \<Rightarrow> ('k \<times> 'v) list \<Rightarrow> ('k \<times> 'v) list" where
  "al_del k kvs = filter (\<lambda>(k', _). k' \<noteq> k) kvs"

lemma map_of_al_put [alist_simps]: "map_of (al_put k v kvs) = (map_of kvs)(k \<mapsto> v)"
  by (induction kvs) auto

lemma map_of_al_del [alist_simps]: "map_of (al_del k kvs) = (map_of kvs)(k := None)"
  unfolding al_del_def by (induction kvs) (auto simp: fun_eq_iff)

lemma keys_al_put [alist_simps]:
  "map fst (al_put k v kvs) = (if k \<in> fst ` set kvs then map fst kvs else map fst kvs @ [k])"
  by (induction kvs) (auto, force)

lemma set_al_put: "set (al_put k v kvs) \<subseteq> insert (k, v) (set kvs)"
  by (induction kvs) (auto split: if_splits)

lemma set_al_del: "set (al_del k kvs) \<subseteq> set kvs"
  by (auto simp: al_del_def)

lemma distinct_al_put [alist_simps]:
  "distinct (map fst kvs) \<Longrightarrow> distinct (map fst (al_put k v kvs))"
  by (auto simp: keys_al_put)

lemma distinct_al_del [alist_simps]:
  "distinct (map fst kvs) \<Longrightarrow> distinct (map fst (al_del k kvs))"
  unfolding al_del_def by (rule distinct_map_filter)

section \<open>Digits\<close>

lemma digit_div: "m < d \<Longrightarrow> (n * d + m) div d = (n :: nat)"
  by simp

lemma digit_mod: "m < d \<Longrightarrow> (n * d + m) mod d = (m :: nat)"
  by simp

section \<open>Slices and splices\<close>

text \<open>\<open>slice i j xs\<close> is \<open>xs.slice(i, j)\<close> for non-negative bounds.\<close>

definition slice :: "nat \<Rightarrow> nat \<Rightarrow> 'a list \<Rightarrow> 'a list" where
  "slice i j xs = take (j - i) (drop i xs)"

lemma slice_empty [simp]: "j \<le> i \<Longrightarrow> slice i j xs = []"
  by (simp add: slice_def)

lemma slice_full [simp]: "slice 0 (length xs) xs = xs"
  by (simp add: slice_def)

lemma length_slice: "length (slice i j xs) = min (j - i) (length xs - i)"
  by (simp add: slice_def min.commute)

lemma slice_Cons: "i < j \<Longrightarrow> i < length xs \<Longrightarrow> slice i j xs = xs ! i # slice (Suc i) j xs"
  unfolding slice_def by (subst Cons_nth_drop_Suc [symmetric]) (auto simp: Suc_diff_Suc take_Cons')

lemma slice_snoc: "i \<le> j \<Longrightarrow> j < length xs \<Longrightarrow> slice i (Suc j) xs = slice i j xs @ [xs ! j]"
  unfolding slice_def by (simp add: Suc_diff_le take_Suc_conv_app_nth)

lemma slice_split: "i \<le> k \<Longrightarrow> k \<le> j \<Longrightarrow> slice i j xs = slice i k xs @ slice k j xs"
  unfolding slice_def
  by (metis add_diff_inverse_nat diff_add_inverse2 drop_drop le_add_diff_inverse2 linorder_not_le
      ordered_cancel_comm_monoid_diff_class.add_diff_assoc2 take_add)

text \<open>
  \<open>xs.splice(start, remove, ...items)\<close> with a non-negative start: a start past the end is the end,
  and no more elements are removed than there are.
\<close>

definition splice :: "nat \<Rightarrow> nat \<Rightarrow> 'a list \<Rightarrow> 'a list \<Rightarrow> 'a list" where
  "splice start remove items xs =
     (let i = min start (length xs); n = min remove (length xs - i)
      in take i xs @ items @ drop (i + n) xs)"

lemma splice_at:
  "splice (length pre) (length mid) items (pre @ mid @ post) = pre @ items @ post"
  by (simp add: splice_def)

lemma map_splice: "map f (splice s r items xs) = splice s r (map f items) (map f xs)"
  by (simp add: splice_def Let_def take_map drop_map)

text \<open>
  \<open>index_from p t i\<close> is \<open>t.indexOf(p, i)\<close>: the first index from \<open>i\<close> on where \<open>p\<close> occurs; an empty
  \<open>p\<close> occurs at \<open>i\<close>, or at the end when \<open>i\<close> is past it.
\<close>

fun index_in :: "'a list \<Rightarrow> 'a list \<Rightarrow> nat \<Rightarrow> nat option" where
  "index_in p [] i = (if p = [] then Some i else None)"
| "index_in p (x # xs) i =
     (if take (length p) (x # xs) = p then Some i else index_in p xs (Suc i))"

definition index_from :: "'a list \<Rightarrow> 'a list \<Rightarrow> nat \<Rightarrow> nat option" where
  "index_from p t i =
     (if p = [] then Some (min i (length t))
      else if i \<le> length t then index_in p (drop i t) i else None)"

lemma index_in_bounds: "index_in p xs i = Some k \<Longrightarrow> i \<le> k \<and> k \<le> i + length xs"
  by (induction p xs i rule: index_in.induct) (auto split: if_splits)

lemma index_from_bounds: "index_from p t i = Some k \<Longrightarrow> min i (length t) \<le> k \<and> k \<le> length t"
  unfolding index_from_def by (auto split: if_splits dest: index_in_bounds)

end
