(* ===== verification/Js.thy ===== *)
theory Js
  imports Prelude
begin

text \<open>
  The JavaScript values the code computes with: strings as lists of UTF-16 code units, so that
  \<open>length\<close> and \<open>slice\<close> are the source's, and IEEE 754 doubles. A double whose value is an integer
  (other than minus zero) is kept as that integer; every other double keeps its bit pattern, so that
  each number has one representation.
\<close>

section \<open>Strings\<close>

type_synonym jsstr = "16 word list"

definition js :: "string \<Rightarrow> jsstr" where
  "js s = map of_char s"

text \<open>The decimal digits of a non-negative integer, as \<open>String(n)\<close> gives them below \<open>10 ^ 21\<close>.\<close>

fun digits :: "nat \<Rightarrow> jsstr" where
  "digits n = (if n < 10 then [of_nat (48 + n)] else digits (n div 10) @ [of_nat (48 + n mod 10)])"

declare digits.simps [simp del]

lemma digits_nonempty [simp]: "digits n \<noteq> []"
  by (subst digits.simps) simp

section \<open>Numbers\<close>

datatype jsnum =
    NInt int          \<comment> \<open>an integer value, never minus zero\<close>
  | NBits "64 word"   \<comment> \<open>any other double: minus zero, a fraction, an infinity, not-a-number\<close>

definition neg_zero :: "64 word" where
  "neg_zero = 0x8000000000000000"

definition quiet_nan :: "64 word" where
  "quiet_nan = 0x7ff8000000000000"

definition f64_exponent :: "64 word \<Rightarrow> nat" where
  "f64_exponent w = unat w div 2 ^ 52 mod 2048"

definition f64_fraction :: "64 word \<Rightarrow> nat" where
  "f64_fraction w = unat w mod 2 ^ 52"

definition f64_negative :: "64 word \<Rightarrow> bool" where
  "f64_negative w \<longleftrightarrow> 2 ^ 63 \<le> unat w"

text \<open>
  The number a double's bit pattern stands for, as \<open>DataView.getFloat64\<close> returns it: significand
  \<open>m\<close> times two to the power \<open>e - 1075\<close>.
\<close>

definition num_of_f64 :: "64 word \<Rightarrow> jsnum" where
  "num_of_f64 w =
     (let e = f64_exponent w; f = f64_fraction w;
          m = (if e = 0 then f else 2 ^ 52 + f);
          x = (if e = 0 then 1 else e);
          signed = (\<lambda>n. if f64_negative w then - int n else int n)
      in if e = 2047 then NBits w
         else if m = 0 then (if f64_negative w then NBits w else NInt 0)
         else if 1075 \<le> x then NInt (signed (m * 2 ^ (x - 1075)))
         else if m mod 2 ^ (1075 - x) = 0 then NInt (signed (m div 2 ^ (1075 - x)))
         else NBits w)"

text \<open>One representation per number: a bit pattern is kept only where the value is no integer.\<close>

definition wf_num :: "jsnum \<Rightarrow> bool" where
  "wf_num n = (case n of NInt _ \<Rightarrow> True | NBits w \<Rightarrow> num_of_f64 w = NBits w)"

fun is_nan :: "jsnum \<Rightarrow> bool" where
  "is_nan (NInt _) = False"
| "is_nan (NBits w) = (f64_exponent w = 2047 \<and> f64_fraction w \<noteq> 0)"

text \<open>\<open>Number.isFinite\<close>, \<open>Number.isInteger\<close>, \<open>Number.isSafeInteger\<close>.\<close>

fun num_is_finite :: "jsnum \<Rightarrow> bool" where
  "num_is_finite (NInt _) = True"
| "num_is_finite (NBits w) = (f64_exponent w \<noteq> 2047)"

fun num_is_integer :: "jsnum \<Rightarrow> bool" where
  "num_is_integer (NInt _) = True"
| "num_is_integer (NBits w) = (w = neg_zero)"

definition max_safe :: int where
  "max_safe = 2 ^ 53 - 1"

fun num_is_safe :: "jsnum \<Rightarrow> bool" where
  "num_is_safe (NInt i) = (- max_safe \<le> i \<and> i \<le> max_safe)"
| "num_is_safe (NBits w) = (w = neg_zero)"

text \<open>\<open>===\<close> on numbers: the two zeros are equal, not-a-number equals nothing.\<close>

fun num_eq :: "jsnum \<Rightarrow> jsnum \<Rightarrow> bool" where
  "num_eq (NInt i) (NInt j) = (i = j)"
| "num_eq (NInt i) (NBits w) = (i = 0 \<and> w = neg_zero)"
| "num_eq (NBits w) (NInt i) = (i = 0 \<and> w = neg_zero)"
| "num_eq (NBits v) (NBits w) = (v = w \<and> \<not> is_nan (NBits v))"

text \<open>The key a number has in a \<open>Map\<close>: minus zero is zero and there is one not-a-number.\<close>

definition norm_num :: "jsnum \<Rightarrow> jsnum" where
  "norm_num n =
     (if n = NBits neg_zero then NInt 0 else if is_nan n then NBits quiet_nan else n)"

lemma not_nan_neg_zero: "\<not> is_nan (NBits neg_zero)"
  by (simp add: neg_zero_def f64_fraction_def f64_exponent_def)

lemma num_eq_norm: "num_eq m n \<Longrightarrow> norm_num m = norm_num n"
  by (cases m; cases n) (auto simp: norm_num_def)

lemma num_eq_iff_norm: "\<not> is_nan m \<Longrightarrow> num_eq m n \<longleftrightarrow> norm_num m = norm_num n"
  by (cases m; cases n) (auto simp: norm_num_def not_nan_neg_zero quiet_nan_def
      f64_fraction_def f64_exponent_def neg_zero_def)

lemma num_eq_refl: "\<not> is_nan n \<Longrightarrow> num_eq n n"
  by (cases n) auto

end
