(* ===== verification/Json.thy ===== *)
theory Json
  imports Js
begin

text \<open>
  JSON values as the delta code sees them (\<open>packages/chord/src/json.ts\<close>): containers are objects of
  the heap, so each carries the address that \<open>===\<close> compares. The abstract value \<open>norm\<close> forgets
  addresses, property order and the sign of zero; equality of abstract values is equality of JSON
  values. \<open>equal_json\<close> is \<open>equalJson\<close> of \<open>packages/chord/src/delta/diff.ts\<close>, and is proved to decide
  that equality.
\<close>

section \<open>Values\<close>

type_synonym addr = nat

datatype json =
    JNull
  | JBool bool
  | JNum jsnum
  | JStr jsstr
  | JArr addr "json list"
  | JObj addr "(jsstr \<times> json) list"

text \<open>\<open>isContainer\<close> and \<open>isObj\<close>: \<open>value !== null && typeof value === "object"\<close>.\<close>

fun is_container :: "json \<Rightarrow> bool" where
  "is_container (JArr _ _) = True"
| "is_container (JObj _ _) = True"
| "is_container _ = False"

fun is_array :: "json \<Rightarrow> bool" where
  "is_array (JArr _ _) = True"
| "is_array _ = False"

text \<open>\<open>left === right\<close>: primitives by value, containers by identity.\<close>

fun strict_eq :: "json \<Rightarrow> json \<Rightarrow> bool" where
  "strict_eq JNull JNull = True"
| "strict_eq (JBool a) (JBool b) = (a = b)"
| "strict_eq (JNum m) (JNum n) = num_eq m n"
| "strict_eq (JStr s) (JStr t) = (s = t)"
| "strict_eq (JArr i _) (JArr j _) = (i = j)"
| "strict_eq (JObj i _) (JObj j _) = (i = j)"
| "strict_eq _ _ = False"

text \<open>The comparison of \<open>Map\<close> keys: as \<open>===\<close>, and not-a-number is one key.\<close>

fun same_key :: "json \<Rightarrow> json \<Rightarrow> bool" where
  "same_key (JNum m) (JNum n) = (num_eq m n \<or> is_nan m \<and> is_nan n)"
| "same_key x y = strict_eq x y"

fun equal_json :: "json \<Rightarrow> json \<Rightarrow> bool"
  and equal_elems :: "json list \<Rightarrow> json list \<Rightarrow> bool"
  and equal_fields :: "(jsstr \<times> json) list \<Rightarrow> (jsstr \<times> json) list \<Rightarrow> bool" where
  "equal_json left right =
     (if strict_eq left right then True
      else if \<not> is_container left \<or> \<not> is_container right \<or> is_array left \<noteq> is_array right then False
      else case left of
        JArr _ xs \<Rightarrow>
          (case right of
            JArr _ other \<Rightarrow> (if length xs \<noteq> length other then False else equal_elems xs other)
          | _ \<Rightarrow> False)
      | JObj _ kvs \<Rightarrow>
          (case right of
            JObj _ other \<Rightarrow> (if length kvs \<noteq> length other then False else equal_fields kvs other)
          | _ \<Rightarrow> False)
      | _ \<Rightarrow> False)"
| "equal_elems (x # xs) (y # ys) = (if equal_json x y then equal_elems xs ys else False)"
| "equal_elems _ _ = True"
| "equal_fields [] other = True"
| "equal_fields ((key, v) # kvs) other =
     (case map_of other key of
        None \<Rightarrow> False
      | Some w \<Rightarrow> (if equal_json v w then equal_fields kvs other else False))"

text \<open>\<open>sameValue\<close>.\<close>

definition same_value :: "json \<Rightarrow> json \<Rightarrow> bool" where
  "same_value left right \<longleftrightarrow> strict_eq left right \<or> equal_json left right"

declare equal_json.simps [simp del]

section \<open>Abstract values\<close>

datatype aval =
    ANull
  | ABool bool
  | ANum jsnum
  | AStr jsstr
  | AArr "aval list"
  | AObj "(jsstr, aval) fmap"

primrec norm :: "json \<Rightarrow> aval" where
  "norm JNull = ANull"
| "norm (JBool b) = ABool b"
| "norm (JNum n) = ANum (norm_num n)"
| "norm (JStr s) = AStr s"
| "norm (JArr i xs) = AArr (map norm xs)"
| "norm (JObj i kvs) = AObj (fmap_of_list (map (map_prod id norm) kvs))"

text \<open>Objects have each key once.\<close>

fun wf_json :: "json \<Rightarrow> bool" where
  "wf_json (JArr _ xs) = list_all wf_json xs"
| "wf_json (JObj _ kvs) = (distinct (map fst kvs) \<and> list_all wf_json (map snd kvs))"
| "wf_json _ = True"

text \<open>Strict JSON has no not-a-number.\<close>

fun nan_free :: "json \<Rightarrow> bool" where
  "nan_free (JArr _ xs) = list_all nan_free xs"
| "nan_free (JObj _ kvs) = list_all nan_free (map snd kvs)"
| "nan_free (JNum n) = (\<not> is_nan n)"
| "nan_free _ = True"

text \<open>A value and everything inside it.\<close>

fun subs :: "json \<Rightarrow> json list" where
  "subs (JArr i xs) = JArr i xs # concat (map subs xs)"
| "subs (JObj i kvs) = JObj i kvs # concat (map subs (map snd kvs))"
| "subs v = [v]"

text \<open>
  Two revisions taken from one heap: the same reference shows the same contents wherever it occurs
  in either of them.
\<close>

definition one_heap :: "json list \<Rightarrow> bool" where
  "one_heap vs \<longleftrightarrow>
     (\<forall>x \<in> set (concat (map subs vs)). \<forall>y \<in> set (concat (map subs vs)).
        is_container x \<longrightarrow> strict_eq x y \<longrightarrow> norm x = norm y)"

lemma subs_self [simp]: "v \<in> set (subs v)"
  by (cases v) auto

lemma subs_trans: "x \<in> set (subs v) \<Longrightarrow> set (subs x) \<subseteq> set (subs v)"
  by (induction v rule: subs.induct) (auto 4 3)

lemma subs_elem: "JArr i xs \<in> set (subs v) \<Longrightarrow> x \<in> set xs \<Longrightarrow> x \<in> set (subs v)"
  using subs_trans by fastforce

lemma subs_field: "JObj i kvs \<in> set (subs v) \<Longrightarrow> (k, x) \<in> set kvs \<Longrightarrow> x \<in> set (subs v)"
  using subs_trans by fastforce

lemma wf_subs: "wf_json v \<Longrightarrow> x \<in> set (subs v) \<Longrightarrow> wf_json x"
  by (induction v rule: subs.induct) (auto simp: list_all_iff)

lemma nan_free_subs: "nan_free v \<Longrightarrow> x \<in> set (subs v) \<Longrightarrow> nan_free x"
  by (induction v rule: subs.induct) (auto simp: list_all_iff)

lemma fmlookup_norm [norm_simps]:
  "fmlookup (fmap_of_list (map (map_prod id norm) kvs)) k = map_option norm (map_of kvs k)"
  by (induction kvs) auto

lemma norm_JObj_eqI:
  "(\<And>k. map_option norm (map_of kvs k) = map_option norm (map_of kvs' k)) \<Longrightarrow>
   norm (JObj i kvs) = norm (JObj j kvs')"
  by (simp add: fmap_ext norm_simps)

lemma norm_JObj_eqD:
  "norm (JObj i kvs) = norm (JObj j kvs') \<Longrightarrow>
   map_option norm (map_of kvs k) = map_option norm (map_of kvs' k)"
  by (metis aval.inject(5) fmlookup_norm norm.simps(6))

section \<open>\<open>equalJson\<close> decides equality of abstract values\<close>

lemma one_heapD:
  assumes "one_heap vs" "x \<in> set (concat (map subs vs))" "y \<in> set (concat (map subs vs))" "strict_eq x y"
  shows "norm x = norm y"
proof (cases "is_container x")
  case True
  with assms show ?thesis unfolding one_heap_def by blast
next
  case False
  with assms(4) show ?thesis by (cases x; cases y) (auto simp: num_eq_norm)
qed

text \<open>A property list whose keys all occur in another of the same length has the same keys.\<close>

lemma same_keys_of_subset:
  assumes "distinct (map fst kvs)" "length kvs = length other" "fst ` set kvs \<subseteq> fst ` set other"
  shows "fst ` set kvs = fst ` set other"
proof (rule card_subset_eq)
  have "card (fst ` set other) \<le> length other"
    by (metis card_length length_map set_map)
  moreover have "card (fst ` set kvs) = length kvs"
    using assms(1) by (metis distinct_card length_map set_map)
  ultimately have "card (fst ` set other) \<le> card (fst ` set kvs)"
    using assms(2) by simp
  then show "card (fst ` set kvs) = card (fst ` set other)"
    using assms(3) by (simp add: card_mono le_antisym)
qed (use assms in auto)

lemma fields_norm_eq:
  assumes d: "distinct (map fst kvs)" "distinct (map fst other)" and len: "length kvs = length other"
    and m: "\<And>k v. (k, v) \<in> set kvs \<Longrightarrow> \<exists>w. map_of other k = Some w \<and> norm v = norm w"
  shows "map_option norm (map_of kvs k) = map_option norm (map_of other k)"
proof (cases "map_of kvs k")
  case None
  have "fst ` set kvs \<subseteq> fst ` set other"
    using m by (force dest: map_of_SomeD)
  then have "fst ` set kvs = fst ` set other"
    by (rule same_keys_of_subset [OF d(1) len])
  with None have "map_of other k = None" by (metis map_of_eq_None_iff)
  with None show ?thesis by simp
next
  case (Some v)
  then obtain w where "map_of other k = Some w" "norm v = norm w"
    using m [of k v] map_of_SomeD by fastforce
  with Some show ?thesis by simp
qed

lemma equal_json_sound:
  assumes A: "\<And>x y. x \<in> A \<Longrightarrow> y \<in> A \<Longrightarrow> strict_eq x y \<Longrightarrow> norm x = norm y"
    and arr: "\<And>i xs x. JArr i xs \<in> A \<Longrightarrow> x \<in> set xs \<Longrightarrow> x \<in> A"
    and obj: "\<And>i kvs k x. JObj i kvs \<in> A \<Longrightarrow> (k, x) \<in> set kvs \<Longrightarrow> x \<in> A"
  shows "l \<in> A \<Longrightarrow> r \<in> A \<Longrightarrow> wf_json l \<Longrightarrow> wf_json r \<Longrightarrow> equal_json l r \<Longrightarrow> norm l = norm r"
    and "set xs \<subseteq> A \<Longrightarrow> set ys \<subseteq> A \<Longrightarrow> list_all wf_json xs \<Longrightarrow> list_all wf_json ys \<Longrightarrow>
       length xs = length ys \<Longrightarrow> equal_elems xs ys \<Longrightarrow> map norm xs = map norm ys"
    and "snd ` set kvs \<subseteq> A \<Longrightarrow> snd ` set other \<subseteq> A \<Longrightarrow> list_all wf_json (map snd kvs) \<Longrightarrow>
       list_all wf_json (map snd other) \<Longrightarrow> equal_fields kvs other \<Longrightarrow>
       (\<forall>(k, v) \<in> set kvs. \<exists>w. map_of other k = Some w \<and> norm v = norm w)"
proof (induction l r and xs ys and kvs other rule: equal_json_equal_elems_equal_fields.induct)
  case (1 left right)
  show ?case
  proof (cases "strict_eq left right")
    case True
    with 1 A show ?thesis by blast
  next
    case False
    with 1(7) consider (arr) i xs j ys where "left = JArr i xs" "right = JArr j ys"
      | (obj) i kvs j other where "left = JObj i kvs" "right = JObj j other"
      by (subst (asm) equal_json.simps, cases left; cases right) auto
    then show ?thesis
    proof cases
      case arr
      with False 1(7) have "length xs = length ys" "equal_elems xs ys"
        by (auto simp: equal_json.simps split: if_splits)
      with False arr 1(3-6) have "map norm xs = map norm ys"
        by (intro 1(1)) (auto intro: assms(2))
      with arr show ?thesis by simp
    next
      case obj
      with False 1(7) have len: "length kvs = length other" and eq: "equal_fields kvs other"
        by (auto simp: equal_json.simps split: if_splits)
      with False obj 1(3-6) have "\<forall>(k, v) \<in> set kvs. \<exists>w. map_of other k = Some w \<and> norm v = norm w"
        by (intro 1(2)) (auto intro: assms(3))
      with len obj 1(5,6) show ?thesis
        by (auto intro!: norm_JObj_eqI fields_norm_eq simp del: norm.simps)
    qed
  qed
next
  case (5 key v kvs other)
  have "\<And>w. map_of other key = Some w \<Longrightarrow> w \<in> A \<and> wf_json w"
    using 5(4,6) by (fastforce dest: map_of_SomeD simp: list_all_iff)
  with 5 show ?case by (auto split: option.splits if_splits)
qed (auto split: if_splits)

lemma equal_json_complete:
  shows "norm l = norm r \<Longrightarrow> nan_free l \<Longrightarrow> wf_json l \<Longrightarrow> wf_json r \<Longrightarrow> equal_json l r"
    and "map norm xs = map norm ys \<Longrightarrow> list_all nan_free xs \<Longrightarrow> list_all wf_json xs \<Longrightarrow>
       list_all wf_json ys \<Longrightarrow> equal_elems xs ys"
    and "(\<forall>(k, v) \<in> set kvs. \<exists>w. map_of other k = Some w \<and> norm v = norm w) \<Longrightarrow>
       list_all nan_free (map snd kvs) \<Longrightarrow> list_all wf_json (map snd kvs) \<Longrightarrow>
       list_all wf_json (map snd other) \<Longrightarrow> equal_fields kvs other"
proof (induction l r and xs ys and kvs other rule: equal_json_equal_elems_equal_fields.induct)
  case (1 left right)
  show ?case
  proof (cases "strict_eq left right")
    case True
    then show ?thesis by (simp add: equal_json.simps)
  next
    case False
    with 1(3,4) consider (arr) i xs j ys where "left = JArr i xs" "right = JArr j ys"
      | (obj) i kvs j other where "left = JObj i kvs" "right = JObj j other"
      by (cases left; cases right) (auto simp: num_eq_iff_norm)
    then show ?thesis
    proof cases
      case arr
      with 1(3) have "length xs = length ys" by (metis aval.inject(4) length_map norm.simps(5))
      with False arr 1 show ?thesis by (simp add: equal_json.simps)
    next
      case obj
      note lk = norm_JObj_eqD [OF 1(3) [unfolded obj]]
      have m: "\<forall>(k, v) \<in> set kvs. \<exists>w. map_of other k = Some w \<and> norm v = norm w"
      proof clarify
        fix k v assume "(k, v) \<in> set kvs"
        with 1(5) obj have "map_of kvs k = Some v" by simp
        with lk [of k] show "\<exists>w. map_of other k = Some w \<and> norm v = norm w" by (cases "map_of other k") auto
      qed
      have "fst ` set kvs = fst ` set other"
      proof (rule set_eqI)
        show "k \<in> fst ` set kvs \<longleftrightarrow> k \<in> fst ` set other" for k
          using lk [of k] by (metis map_of_eq_None_iff option.map_disc_iff)
      qed
      with obj 1(5,6) have "length kvs = length other"
        by (metis distinct_card length_map set_map wf_json.simps(2))
      with False obj 1 m show ?thesis by (simp add: equal_json.simps)
    qed
  qed
next
  case (5 key v kvs other)
  have "\<And>w. map_of other key = Some w \<Longrightarrow> wf_json w"
    using 5(6) by (fastforce dest: map_of_SomeD simp: list_all_iff)
  with 5 show ?case by (auto split: option.splits if_splits)
qed (auto split: if_splits)

lemma concat_set_mem: "x \<in> set (concat (map f vs)) \<longleftrightarrow> (\<exists>v \<in> set vs. x \<in> set (f v))"
  by auto

lemma one_heap_closed:
  assumes "one_heap vs"
  defines "A \<equiv> set (concat (map subs vs))"
  shows "x \<in> A \<Longrightarrow> y \<in> A \<Longrightarrow> strict_eq x y \<Longrightarrow> norm x = norm y"
    and "JArr i xs \<in> A \<Longrightarrow> x \<in> set xs \<Longrightarrow> x \<in> A"
    and "JObj i kvs \<in> A \<Longrightarrow> (k, x) \<in> set kvs \<Longrightarrow> x \<in> A"
proof -
  show "x \<in> A \<Longrightarrow> y \<in> A \<Longrightarrow> strict_eq x y \<Longrightarrow> norm x = norm y"
    unfolding A_def by (rule one_heapD [OF assms(1)])
  show "JArr i xs \<in> A \<Longrightarrow> x \<in> set xs \<Longrightarrow> x \<in> A"
    unfolding A_def by (metis concat_set_mem subs_elem)
  show "JObj i kvs \<in> A \<Longrightarrow> (k, x) \<in> set kvs \<Longrightarrow> x \<in> A"
    unfolding A_def by (metis concat_set_mem subs_field)
qed

lemma equal_json_norm:
  assumes "one_heap vs" "x \<in> set (concat (map subs vs))" "y \<in> set (concat (map subs vs))"
    and "wf_json x" "wf_json y" "equal_json x y"
  shows "norm x = norm y"
  by (rule equal_json_sound(1) [OF one_heap_closed [OF assms(1)]]) (use assms in auto)

text \<open>
  C30: On two strict-JSON values of one heap \<open>equalJson\<close> returns true exactly when they are the same
  JSON value: addresses, the order of properties and the sign of zero do not matter, and nothing else
  is ignored.
\<close>

theorem equal_json_decides:
  assumes "one_heap [l, r]" "wf_json l" "wf_json r" "nan_free l"
  shows "equal_json l r \<longleftrightarrow> norm l = norm r"
proof
  assume "equal_json l r"
  with assms show "norm l = norm r" by (intro equal_json_norm [of "[l, r]"]) auto
next
  assume "norm l = norm r"
  with assms show "equal_json l r" by (intro equal_json_complete(1))
qed

theorem equal_json_decides_witness:
  "equal_json (JObj 0 [([97], JNum (NInt 0)), ([98], JArr 1 [JNull])])
              (JObj 2 [([98], JArr 3 [JNull]), ([97], JNum (NBits neg_zero))])
   \<longleftrightarrow> norm (JObj 0 [([97], JNum (NInt 0)), ([98], JArr 1 [JNull])])
     = norm (JObj 2 [([98], JArr 3 [JNull]), ([97], JNum (NBits neg_zero))])"
  by (rule equal_json_decides) (simp_all add: one_heap_def)

end
