(* ===== verification/DeltaOps.thy ===== *)
theory DeltaOps
  imports Json
begin

text \<open>
  Operations over JSON values, their validation and the applier: \<open>packages/chord/src/delta/index.ts\<close>
  up to the codec. An \<open>Op\<close> tuple is read from JSON by \<open>read_op\<close> (\<open>assertValidOp\<close>); its number fields
  are integers from then on, and the typed \<open>assert_valid_op\<close> is what is left to check. The applier
  mutates its target in place, so containers keep their address.
\<close>

section \<open>Paths and operations\<close>

datatype seg = Key jsstr | Idx int

type_synonym path = "seg list"

datatype op =
    OReplace json                        \<comment> \<open>\<open>["r", value]\<close>\<close>
  | OSet path json                       \<comment> \<open>\<open>["s", path, value]\<close>\<close>
  | ODelete path                         \<comment> \<open>\<open>["d", path]\<close>\<close>
  | OAppend path jsstr                   \<comment> \<open>\<open>["a", path, text]\<close>\<close>
  | OTruncate path int                   \<comment> \<open>\<open>["t", path, count]\<close>\<close>
  | OSplice path int int "json list"     \<comment> \<open>\<open>["p", path, index, remove, items]\<close>\<close>
  | OPermute path "int list"             \<comment> \<open>\<open>["m", path, permutation]\<close>\<close>

datatype delta_error =
    TypeErr string
  | UnsafePath json       \<comment> \<open>\<open>UnsafePathError\<close> with its segment\<close>
  | PathErr path          \<comment> \<open>\<open>PathError\<close> with its path\<close>
  | PathIdErr int         \<comment> \<open>\<open>PathError\<close> with an unknown path id\<close>

fun seg_json :: "seg \<Rightarrow> json" where
  "seg_json (Key k) = JStr k"
| "seg_json (Idx i) = JNum (NInt i)"

text \<open>The property key a segment names: a number's decimal text.\<close>

fun seg_text :: "seg \<Rightarrow> jsstr" where
  "seg_text (Key k) = k"
| "seg_text (Idx i) = (if i < 0 then 45 # digits (nat (- i)) else digits (nat i))"

definition reserved_segments :: "jsstr list" where
  "reserved_segments = [js ''__proto__'', js ''constructor'', js ''prototype'']"

definition is_replace :: "op \<Rightarrow> bool" where
  "is_replace op = (case op of OReplace _ \<Rightarrow> True | _ \<Rightarrow> False)"

definition is_base :: "op list \<Rightarrow> bool" where
  "is_base ops = (case ops of [] \<Rightarrow> False | op # _ \<Rightarrow> is_replace op)"

fun op_path :: "op \<Rightarrow> path" where
  "op_path (OReplace _) = []"
| "op_path (OSet p _) = p"
| "op_path (ODelete p) = p"
| "op_path (OAppend p _) = p"
| "op_path (OTruncate p _) = p"
| "op_path (OSplice p _ _ _) = p"
| "op_path (OPermute p _) = p"

section \<open>Validation\<close>

fun assert_safe_path :: "path \<Rightarrow> delta_error + unit" where
  "assert_safe_path [] = Inr ()"
| "assert_safe_path (Key k # p) =
     (if k \<in> set reserved_segments then Inl (UnsafePath (JStr k)) else assert_safe_path p)"
| "assert_safe_path (Idx i # p) =
     (if i < 0 then Inl (UnsafePath (JNum (NInt i))) else assert_safe_path p)"

definition safe_seg :: "seg \<Rightarrow> bool" where
  "safe_seg s \<longleftrightarrow> (case s of Key k \<Rightarrow> k \<notin> set reserved_segments | Idx i \<Rightarrow> 0 \<le> i)"

lemma assert_safe_path_iff: "assert_safe_path p = Inr () \<longleftrightarrow> (\<forall>s \<in> set p. safe_seg s)"
  by (induction p rule: assert_safe_path.induct) (auto simp: safe_seg_def)

definition assert_path_arg :: "path \<Rightarrow> bool \<Rightarrow> delta_error + unit" where
  "assert_path_arg p non_empty =
     (if non_empty \<and> p = [] then Inl (TypeErr ''path is empty'') else assert_safe_path p)"

fun permutation_loop :: "nat \<Rightarrow> bool list \<Rightarrow> int list \<Rightarrow> delta_error + unit" where
  "permutation_loop n seen [] = Inr ()"
| "permutation_loop n seen (i # is) =
     (if i < 0 \<or> int n \<le> i \<or> seen ! nat i
      then Inl (TypeErr ''m permutation is not a bijection'')
      else permutation_loop n (seen[nat i := True]) is)"

definition assert_permutation :: "int list \<Rightarrow> delta_error + unit" where
  "assert_permutation p = permutation_loop (length p) (replicate (length p) False) p"

lemma permutation_loop_iff:
  assumes "length seen = n"
  shows "permutation_loop n seen p = Inr () \<longleftrightarrow>
    distinct p \<and> (\<forall>i \<in> set p. 0 \<le> i \<and> i < int n \<and> \<not> seen ! nat i)"
  using assms
proof (induction n seen p rule: permutation_loop.induct)
  case (2 n seen i ix)
  show ?case
  proof (cases "i < 0 \<or> int n \<le> i \<or> seen ! nat i")
    case False
    then have i: "0 \<le> i" "nat i < length seen" using 2(2) by auto
    have "(\<not> seen[nat i := True] ! nat j) = (j \<noteq> i \<and> \<not> seen ! nat j)" if "0 \<le> j" for j
      using i that by (cases "j = i") (auto simp: nth_list_update nat_eq_iff)
    with False 2 show ?thesis by (auto simp: not_le)
  qed auto
qed simp

lemma assert_permutation_iff:
  "assert_permutation p = Inr () \<longleftrightarrow> distinct p \<and> (\<forall>i \<in> set p. 0 \<le> i \<and> i < int (length p))"
  unfolding assert_permutation_def by (subst permutation_loop_iff) (auto simp: nat_less_iff)

text \<open>\<open>assertValidOp\<close> on a typed operation: arity and field types hold by typing.\<close>

fun assert_valid_op :: "op \<Rightarrow> delta_error + unit" where
  "assert_valid_op (OReplace _) = Inr ()"
| "assert_valid_op (OSet p _) = assert_path_arg p True"
| "assert_valid_op (ODelete p) = assert_path_arg p True"
| "assert_valid_op (OAppend p _) = assert_path_arg p True"
| "assert_valid_op (OTruncate p n) =
     (if n < 0 then Inl (TypeErr ''t shape'') else assert_path_arg p True)"
| "assert_valid_op (OSplice p i r _) =
     rbind (assert_path_arg p False) (\<lambda>_.
       if i < 0 then Inl (TypeErr ''p index'')
       else if r < 0 then Inl (TypeErr ''p remove'') else Inr ())"
| "assert_valid_op (OPermute p perm) =
     rbind (assert_path_arg p False) (\<lambda>_. assert_permutation perm)"

definition valid_op :: "op \<Rightarrow> bool" where
  "valid_op op \<longleftrightarrow> assert_valid_op op = Inr ()"

text \<open>
  The same on an unknown JSON value. \<open>Number.isInteger\<close> holds of minus zero, which names index zero.
\<close>

fun json_int :: "json \<Rightarrow> int option" where
  "json_int (JNum (NInt i)) = Some i"
| "json_int (JNum (NBits w)) = (if w = neg_zero then Some 0 else None)"
| "json_int _ = None"

definition json_nat :: "string \<Rightarrow> json \<Rightarrow> delta_error + int" where
  "json_nat msg v =
     (case json_int v of
        None \<Rightarrow> Inl (TypeErr msg)
      | Some i \<Rightarrow> if i < 0 then Inl (TypeErr msg) else Inr i)"

fun read_seg :: "json \<Rightarrow> delta_error + seg" where
  "read_seg (JStr k) =
     (if k \<in> set reserved_segments then Inl (UnsafePath (JStr k)) else Inr (Key k))"
| "read_seg v =
     (case json_int v of
        None \<Rightarrow> Inl (UnsafePath v)
      | Some i \<Rightarrow> if i < 0 then Inl (UnsafePath v) else Inr (Idx i))"

fun read_safe_path :: "json list \<Rightarrow> delta_error + path" where
  "read_safe_path [] = Inr []"
| "read_safe_path (s # ss) =
     rbind (read_seg s) (\<lambda>x. rbind (read_safe_path ss) (\<lambda>xs. Inr (x # xs)))"

fun read_path_arg :: "json \<Rightarrow> bool \<Rightarrow> delta_error + path" where
  "read_path_arg (JArr _ p) non_empty =
     (if non_empty \<and> p = [] then Inl (TypeErr ''path is empty'') else read_safe_path p)"
| "read_path_arg _ _ = Inl (TypeErr ''path is not an array'')"

fun read_permutation_loop :: "nat \<Rightarrow> bool list \<Rightarrow> json list \<Rightarrow> delta_error + int list" where
  "read_permutation_loop n seen [] = Inr []"
| "read_permutation_loop n seen (v # vs) =
     (case json_int v of
        None \<Rightarrow> Inl (TypeErr ''m permutation is not a bijection'')
      | Some i \<Rightarrow>
          if i < 0 \<or> int n \<le> i \<or> seen ! nat i
          then Inl (TypeErr ''m permutation is not a bijection'')
          else rbind (read_permutation_loop n (seen[nat i := True]) vs) (\<lambda>is. Inr (i # is)))"

fun read_permutation :: "json \<Rightarrow> delta_error + int list" where
  "read_permutation (JArr _ p) = read_permutation_loop (length p) (replicate (length p) False) p"
| "read_permutation _ = Inl (TypeErr ''m permutation is not an array'')"

definition verb :: "json \<Rightarrow> string \<Rightarrow> bool" where
  "verb v c \<longleftrightarrow> v = JStr (js c)"

definition read_op :: "json \<Rightarrow> delta_error + op" where
  "read_op op =
     (case op of
        JArr _ (v # args) \<Rightarrow>
          (if verb v ''r'' then
             (case args of [x] \<Rightarrow> Inr (OReplace x) | _ \<Rightarrow> Inl (TypeErr ''r arity''))
           else if verb v ''s'' then
             (case args of
                [p, x] \<Rightarrow> rbind (read_path_arg p True) (\<lambda>p. Inr (OSet p x))
              | _ \<Rightarrow> Inl (TypeErr ''s arity''))
           else if verb v ''d'' then
             (case args of
                [p] \<Rightarrow> rbind (read_path_arg p True) (\<lambda>p. Inr (ODelete p))
              | _ \<Rightarrow> Inl (TypeErr ''d arity''))
           else if verb v ''a'' then
             (case args of
                [p, JStr s] \<Rightarrow> rbind (read_path_arg p True) (\<lambda>p. Inr (OAppend p s))
              | _ \<Rightarrow> Inl (TypeErr ''a shape''))
           else if verb v ''t'' then
             (case args of
                [p, n] \<Rightarrow> rbind (json_nat ''t shape'' n) (\<lambda>n.
                  rbind (read_path_arg p True) (\<lambda>p. Inr (OTruncate p n)))
              | _ \<Rightarrow> Inl (TypeErr ''t shape''))
           else if verb v ''p'' then
             (case args of
                [p, i, r, items] \<Rightarrow>
                  rbind (read_path_arg p False) (\<lambda>p.
                  rbind (json_nat ''p index'' i) (\<lambda>i.
                  rbind (json_nat ''p remove'' r) (\<lambda>r.
                    case items of
                      JArr _ xs \<Rightarrow> Inr (OSplice p i r xs)
                    | _ \<Rightarrow> Inl (TypeErr ''p items''))))
              | _ \<Rightarrow> Inl (TypeErr ''p arity''))
           else if verb v ''m'' then
             (case args of
                [p, perm] \<Rightarrow> rbind (read_path_arg p False) (\<lambda>p.
                  rbind (read_permutation perm) (\<lambda>is. Inr (OPermute p is)))
              | _ \<Rightarrow> Inl (TypeErr ''m arity''))
           else Inl (TypeErr ''unknown op verb''))
      | _ \<Rightarrow> Inl (TypeErr ''op is not a tuple''))"

end
