(* ===== verification/DeltaApply.thy ===== *)
theory DeltaApply
  imports DeltaOps
begin

text \<open>
  The applier \<open>applyOps\<close> of \<open>packages/chord/src/delta/index.ts\<close>: resolving a path over own
  properties, and the mutation of the container it names.
\<close>

section \<open>Own properties\<close>

text \<open>
  The own property of a container under a segment (\<open>Object.hasOwn\<close> and the read that follows it). An
  array also owns its indices' decimal texts and \<open>length\<close>.
\<close>

fun own_prop :: "json \<Rightarrow> seg \<Rightarrow> json option" where
  "own_prop (JArr _ xs) (Idx i) = (if 0 \<le> i \<and> i < int (length xs) then Some (xs ! nat i) else None)"
| "own_prop (JArr _ xs) (Key k) =
     (case find (\<lambda>i. digits i = k) [0..<length xs] of
        Some i \<Rightarrow> Some (xs ! i)
      | None \<Rightarrow> if k = js ''length'' then Some (JNum (NInt (int (length xs)))) else None)"
| "own_prop (JObj _ kvs) s = map_of kvs (seg_text s)"
| "own_prop _ _ = None"

text \<open>\<open>Object.defineProperty\<close> of a data property: in an array, at an index up to its length.\<close>

fun define_prop :: "json \<Rightarrow> seg \<Rightarrow> json \<Rightarrow> json" where
  "define_prop (JArr a xs) (Idx i) v =
     (if nat i < length xs then JArr a (xs[nat i := v]) else JArr a (xs @ [v]))"
| "define_prop (JObj a kvs) s v = JObj a (al_put (seg_text s) v kvs)"
| "define_prop c _ _ = c"

fun is_index :: "seg \<Rightarrow> bool" where
  "is_index (Idx _) = True"
| "is_index (Key _) = False"

text \<open>\<open>resolveValue(root, path)\<close>; \<open>full\<close> is the path the error names.\<close>

fun resolve_value :: "path \<Rightarrow> json \<Rightarrow> path \<Rightarrow> delta_error + json" where
  "resolve_value full node [] = Inr node"
| "resolve_value full node (s # p) =
     (if \<not> is_container node then Inl (PathErr full)
      else if is_array node \<and> \<not> is_index s then Inl (UnsafePath (seg_json s))
      else case own_prop node s of
        None \<Rightarrow> Inl (PathErr full)
      | Some child \<Rightarrow> resolve_value full child p)"

definition resolve :: "json \<Rightarrow> path \<Rightarrow> delta_error + json" where
  "resolve root p =
     rbind (resolve_value p root p) (\<lambda>node. if is_container node then Inr node else Inl (PathErr p))"

text \<open>
  The value after the container that \<open>path\<close> resolves to was mutated by \<open>f\<close>: the same walk, then the
  containers on the way hold the mutated one.
\<close>

fun mutate_at :: "path \<Rightarrow> (json \<Rightarrow> delta_error + json) \<Rightarrow> json \<Rightarrow> path \<Rightarrow> delta_error + json" where
  "mutate_at full f node [] = (if is_container node then f node else Inl (PathErr full))"
| "mutate_at full f node (s # p) =
     (if \<not> is_container node then Inl (PathErr full)
      else if is_array node \<and> \<not> is_index s then Inl (UnsafePath (seg_json s))
      else case own_prop node s of
        None \<Rightarrow> Inl (PathErr full)
      | Some child \<Rightarrow> rbind (mutate_at full f child p) (\<lambda>c. Inr (define_prop node s c)))"

section \<open>The operations\<close>

text \<open>
  A splice inserts its items in chunks of 10000, since the items are spread into the arguments of a
  call.
\<close>

definition chunk_size :: nat where
  "chunk_size = 10000"

function splice_chunks :: "nat \<Rightarrow> nat \<Rightarrow> json list \<Rightarrow> json list \<Rightarrow> json list" where
  "splice_chunks i offset items xs =
     (if offset < length items
      then splice_chunks i (offset + chunk_size) items
             (splice (i + offset) 0 (slice offset (offset + chunk_size) items) xs)
      else xs)"
  by pat_completeness auto
termination
  by (relation "measure (\<lambda>(i, offset, items, xs). length items - offset)") (auto simp: chunk_size_def)

declare splice_chunks.simps [simp del]

fun splice_target :: "path \<Rightarrow> int \<Rightarrow> int \<Rightarrow> json list \<Rightarrow> json \<Rightarrow> delta_error + json" where
  "splice_target path i r items (JArr a xs) =
     Inr (JArr a (splice_chunks (nat i) 0 items (splice (nat i) (nat r) [] xs)))"
| "splice_target path i r items _ = Inl (PathErr path)"

fun permute_target :: "path \<Rightarrow> int list \<Rightarrow> json \<Rightarrow> delta_error + json" where
  "permute_target path perm (JArr a xs) =
     (if length xs \<noteq> length perm then Inl (PathErr path)
      else Inr (JArr a (map (\<lambda>i. xs ! nat i) perm)))"
| "permute_target path perm _ = Inl (PathErr path)"

text \<open>The last segment of a leaf operation against its parent, before anything is written.\<close>

fun check_leaf_key :: "seg \<Rightarrow> json \<Rightarrow> delta_error + unit" where
  "check_leaf_key (Key k) (JArr _ _) = Inl (UnsafePath (JStr k))"
| "check_leaf_key (Idx i) (JArr _ xs) =
     (if int (length xs) < i then Inl (UnsafePath (JNum (NInt i))) else Inr ())"
| "check_leaf_key _ _ = Inr ()"

fun delete_prop :: "path \<Rightarrow> seg \<Rightarrow> json \<Rightarrow> delta_error + json" where
  "delete_prop path (Idx i) (JArr a xs) =
     (if int (length xs) \<le> i then Inl (PathErr path) else Inr (JArr a (splice (nat i) 1 [] xs)))"
| "delete_prop path (Key k) (JArr a xs) = Inl (PathErr path)"
| "delete_prop path s (JObj a kvs) = Inr (JObj a (al_del (seg_text s) kvs))"
| "delete_prop path s c = Inr c"

fun leaf_write :: "op \<Rightarrow> path \<Rightarrow> seg \<Rightarrow> json \<Rightarrow> delta_error + json" where
  "leaf_write (OSet _ v) path key parent = Inr (define_prop parent key v)"
| "leaf_write (ODelete _) path key parent = delete_prop path key parent"
| "leaf_write (OAppend _ s) path key parent =
     (case own_prop parent key of
        Some (JStr current) \<Rightarrow> Inr (define_prop parent key (JStr (current @ s)))
      | _ \<Rightarrow> Inl (PathErr path))"
| "leaf_write (OTruncate _ n) path key parent =
     (case own_prop parent key of
        Some (JStr current) \<Rightarrow> Inr (define_prop parent key (JStr (drop (nat n) current)))
      | _ \<Rightarrow> Inl (PathErr path))"
| "leaf_write _ path key parent = Inr parent"

definition leaf_target :: "op \<Rightarrow> path \<Rightarrow> seg \<Rightarrow> json \<Rightarrow> delta_error + json" where
  "leaf_target op path key parent =
     rbind (check_leaf_key key parent) (\<lambda>_. leaf_write op path key parent)"

text \<open>An absent target (\<open>undefined\<close>) is \<open>None\<close>: only a replacement applies to it.\<close>

definition on_root :: "json option \<Rightarrow> path \<Rightarrow> (json \<Rightarrow> delta_error + json) \<Rightarrow> delta_error + json" where
  "on_root target p f = (case target of None \<Rightarrow> Inl (PathErr p) | Some root \<Rightarrow> f root)"

definition apply_op :: "json option \<Rightarrow> op \<Rightarrow> delta_error + json" where
  "apply_op target op =
     rbind (assert_valid_op op) (\<lambda>_.
       case op of
         OReplace v \<Rightarrow> Inr v
       | OSplice p i r items \<Rightarrow>
           rbind (assert_safe_path p) (\<lambda>_. on_root target p (\<lambda>root.
             if p = [] then splice_target p i r items root
             else mutate_at p (splice_target p i r items) root p))
       | OPermute p perm \<Rightarrow>
           rbind (assert_safe_path p) (\<lambda>_. on_root target p (\<lambda>root.
             if p = [] then permute_target p perm root
             else mutate_at p (permute_target p perm) root p))
       | _ \<Rightarrow>
           rbind (assert_safe_path (op_path op)) (\<lambda>_. on_root target (butlast (op_path op)) (\<lambda>root.
             mutate_at (butlast (op_path op)) (leaf_target op (op_path op) (last (op_path op)))
               root (butlast (op_path op)))))"

definition apply_ops :: "json option \<Rightarrow> op list \<Rightarrow> delta_error + json option" where
  "apply_ops target ops = rfold (\<lambda>t op. rbind (apply_op t op) (\<lambda>v. Inr (Some v))) target ops"

section \<open>Resolving and mutating agree\<close>

text \<open>Mutating at a path is resolving it, mutating what was found and holding it on the way up.\<close>

fun hold_at :: "json \<Rightarrow> path \<Rightarrow> json \<Rightarrow> json" where
  "hold_at node [] c = c"
| "hold_at node (s # p) c =
     (case own_prop node s of None \<Rightarrow> node | Some child \<Rightarrow> define_prop node s (hold_at child p c))"

lemma mutate_at_resolve:
  "mutate_at full f root p =
     rbind (resolve_value full root p) (\<lambda>node.
       if is_container node then rbind (f node) (\<lambda>c. Inr (hold_at root p c)) else Inl (PathErr full))"
proof (induction full f root p rule: mutate_at.induct)
  case (1 full f node)
  then show ?case by (cases "f node") auto
next
  case (2 full f node s p)
  then show ?case
    by (auto split: option.splits simp: rbind_def split: sum.splits)
qed

section \<open>Chunked insertion is one splice\<close>

lemma splice_step:
  assumes "offset \<le> length items"
  shows "splice (i + offset) 0 (slice offset (offset + n) items) (splice i 0 (take offset items) xs)
       = splice i 0 (take (offset + n) items) xs"
proof -
  have "take (offset + n) items = take offset items @ slice offset (offset + n) items"
    by (simp add: slice_def take_add)
  then show ?thesis
    using assms by (simp add: splice_def Let_def min_def)
qed

lemma splice_chunks_from:
  assumes "offset \<le> length items + chunk_size"
  shows "splice_chunks i offset items (splice i 0 (take offset items) xs) = splice i 0 items xs"
  using assms
proof (induction "length items - offset" arbitrary: offset rule: less_induct)
  case less
  show ?case
  proof (cases "offset < length items")
    case True
    then have "splice_chunks i offset items (splice i 0 (take offset items) xs)
      = splice_chunks i (offset + chunk_size) items (splice i 0 (take (offset + chunk_size) items) xs)"
      by (subst splice_chunks.simps) (simp add: splice_step)
    also have "\<dots> = splice i 0 items xs"
      using True by (intro less.hyps) (auto simp: chunk_size_def)
    finally show ?thesis .
  next
    case False
    then show ?thesis by (subst splice_chunks.simps) simp
  qed
qed

lemma splice_splice: "splice i 0 items (splice i r [] xs) = splice i r items xs"
  by (simp add: splice_def Let_def min_def)

lemma splice_chunks_eq: "splice_chunks i 0 items (splice i r [] xs) = splice i r items xs"
proof -
  have "splice i 0 [] ys = ys" for ys :: "json list"
    by (simp add: splice_def)
  then show ?thesis
    using splice_chunks_from [of 0 items i "splice i r [] xs"] by (simp add: splice_splice)
qed

end
