(* ===== verification/DeltaMatch.thy ===== *)
theory DeltaMatch
  imports DeltaSpec "HOL-Library.Multiset"
begin

text \<open>
  How the differ pairs up elements of two arrays, and overlaps of two strings
  (\<open>packages/chord/src/delta/diff.ts\<close> and \<open>overlap\<close> of \<open>index.ts\<close>). Every search is proved to give
  valid matches: strictly increasing on both sides and inside the two regions. Nothing more is needed
  for the differ to be right, since it diffs the pairs and the gaps between them.
\<close>

section \<open>Overlap of two strings\<close>

text \<open>
  The candidate loop for one head: \<open>left\<close> counts the candidates that may still be tried, and the next
  one is looked for from \<open>k\<close> on.
\<close>

fun overlap_scan :: "jsstr \<Rightarrow> jsstr \<Rightarrow> jsstr \<Rightarrow> nat \<Rightarrow> nat \<Rightarrow> nat option" where
  "overlap_scan tail b head 0 k = None"
| "overlap_scan tail b head (Suc left) k =
     (case index_from head tail k of
        None \<Rightarrow> None
      | Some k' \<Rightarrow>
          (let n = length tail - k'
           in if n \<le> length b \<and> drop k' tail = take n b then Some n
              else overlap_scan tail b head left (Suc k')))"

definition overlap :: "jsstr \<Rightarrow> jsstr \<Rightarrow> nat \<Rightarrow> nat \<Rightarrow> nat \<Rightarrow> nat" where
  "overlap a b scan probe max_candidates =
     (if a = [] \<or> b = [] \<or> scan = 0 then 0
      else let tail = (if scan < length a then drop (length a - scan) a else a);
               h = min probe (length b)
        in case overlap_scan tail b (take h b) max_candidates 0 of
             Some n \<Rightarrow> n
           | None \<Rightarrow>
               if h = 1 then 0
               else (case overlap_scan tail b (take 1 b) max_candidates 0 of
                       Some n \<Rightarrow> n
                     | None \<Rightarrow> 0))"

text \<open>\<open>`${text.slice(start, end)} `.slice(0, -1)\<close>.\<close>

definition owned_slice :: "jsstr \<Rightarrow> nat \<Rightarrow> nat \<Rightarrow> jsstr" where
  "owned_slice txt start stop = butlast (slice start stop txt @ [32])"

lemma owned_slice_eq [simp]: "owned_slice txt start stop = slice start stop txt"
  by (simp add: owned_slice_def)

lemma overlap_scan_sound:
  "overlap_scan tail b head left k = Some n \<Longrightarrow>
   n \<le> length b \<and> n \<le> length tail \<and> drop (length tail - n) tail = take n b"
  by (induction tail b head left k rule: overlap_scan.induct)
    (auto simp: Let_def split: option.splits if_splits dest: index_from_bounds)

lemma overlap_sound:
  "overlap a b scan probe max_candidates = n \<Longrightarrow>
   n \<le> length a \<and> n \<le> length b \<and> drop (length a - n) a = take n b"
  unfolding overlap_def Let_def
  by (auto split: option.splits if_splits dest!: overlap_scan_sound)

section \<open>Aligned values\<close>

text \<open>\<open>value === right[index]\<close> for some index, among containers.\<close>

fun some_shared_elem :: "json list \<Rightarrow> json list \<Rightarrow> bool" where
  "some_shared_elem (v # vs) (w # ws) =
     (if is_container v \<and> strict_eq v w then True else some_shared_elem vs ws)"
| "some_shared_elem _ _ = False"

fun some_shared_field :: "(jsstr \<times> json) list \<Rightarrow> (jsstr \<times> json) list \<Rightarrow> bool" where
  "some_shared_field [] other = False"
| "some_shared_field ((k, v) # kvs) other =
     (case map_of other k of
        Some w \<Rightarrow> (if is_container v \<and> strict_eq v w then True else some_shared_field kvs other)
      | None \<Rightarrow> some_shared_field kvs other)"

definition semantically_aligned :: "json \<Rightarrow> json \<Rightarrow> bool" where
  "semantically_aligned left right =
     (if same_value left right then True
      else case (left, right) of
        (JArr _ xs, JArr _ ys) \<Rightarrow> (if length xs \<noteq> length ys then False else some_shared_elem xs ys)
      | (JObj _ kvs, JObj _ kvs') \<Rightarrow> some_shared_field kvs kvs'
      | _ \<Rightarrow> False)"

section \<open>Permutations\<close>

text \<open>
  The positions of each value: a \<open>Map\<close> from vals (compared by identity) to their indices and how many
  of them are used.
\<close>

type_synonym position = "json \<times> nat list \<times> nat"

fun add_position :: "nat \<Rightarrow> json \<Rightarrow> position list \<Rightarrow> position list" where
  "add_position i v [] = [(v, [i], 0)]"
| "add_position i v ((k, is, used) # ps) =
     (if same_key k v then (k, is @ [i], used) # ps else (k, is, used) # add_position i v ps)"

fun positions_of :: "nat \<Rightarrow> json list \<Rightarrow> position list \<Rightarrow> position list" where
  "positions_of i [] ps = ps"
| "positions_of i (v # vs) ps = positions_of (Suc i) vs (add_position i v ps)"

fun take_position :: "json \<Rightarrow> position list \<Rightarrow> (nat \<times> position list) option" where
  "take_position v [] = None"
| "take_position v ((k, is, used) # ps) =
     (if same_key k v
      then (if used = length is then None else Some (is ! used, (k, is, Suc used) # ps))
      else map_option (\<lambda>(i, ps'). (i, (k, is, used) # ps')) (take_position v ps))"

fun take_positions :: "json list \<Rightarrow> position list \<Rightarrow> nat list option" where
  "take_positions [] ps = Some []"
| "take_positions (v # vs) ps =
     (case take_position v ps of
        None \<Rightarrow> None
      | Some (i, ps') \<Rightarrow> map_option ((#) i) (take_positions vs ps'))"

definition permutation :: "json list \<Rightarrow> json list \<Rightarrow> nat list option" where
  "permutation before after =
     (if length before \<noteq> length after then None
      else take_positions after (positions_of 0 before []))"

text \<open>
  What is still to be used: every position once, under a key equal to the value at that position.
\<close>

definition remaining :: "position list \<Rightarrow> nat list" where
  "remaining ps = concat (map (\<lambda>(k, ix, used). drop used ix) ps)"

definition keyed :: "json set \<Rightarrow> json list \<Rightarrow> position list \<Rightarrow> bool" where
  "keyed A before ps \<longleftrightarrow>
     (\<forall>(k, ix, used) \<in> set ps. k \<in> A \<and> used \<le> length ix \<and> (\<forall>i \<in> set ix. norm (before ! i) = norm k))"

lemma keyed_Cons [simp]:
  "keyed A before ((k, ix, used) # ps) \<longleftrightarrow>
   k \<in> A \<and> used \<le> length ix \<and> (\<forall>i \<in> set ix. norm (before ! i) = norm k) \<and> keyed A before ps"
  by (auto simp: keyed_def)

lemma remaining_Cons [simp]: "remaining ((k, ix, used) # ps) = drop used ix @ remaining ps"
  by (simp add: remaining_def)

lemma add_position_keyed:
  assumes "\<And>x y. x \<in> A \<Longrightarrow> y \<in> A \<Longrightarrow> same_key x y \<Longrightarrow> norm x = norm y" "before ! i \<in> A"
  shows "keyed A before ps \<Longrightarrow> keyed A before (add_position i (before ! i) ps) \<and>
    mset (remaining (add_position i (before ! i) ps)) = add_mset i (mset (remaining ps))"
proof (induction ps)
  case (Cons p ps)
  then show ?case using assms by (cases p) force
qed (use assms(2) in \<open>simp add: keyed_def remaining_def\<close>)

lemma positions_of_keyed:
  assumes same: "\<And>x y. x \<in> A \<Longrightarrow> y \<in> A \<Longrightarrow> same_key x y \<Longrightarrow> norm x = norm y" and "set vs \<subseteq> A"
    and "vs = drop i before" "keyed A before ps"
  shows "keyed A before (positions_of i vs ps) \<and>
    mset (remaining (positions_of i vs ps)) = mset (remaining ps) + mset [i..<i + length vs]"
  using assms(2-)
proof (induction vs arbitrary: i ps)
  case (Cons v vs)
  from Cons.prems(2) have v: "before ! i = v" "drop (Suc i) before = vs"
    by (metis nth_via_drop, metis drop_Suc list.sel(3) tl_drop)
  have "v \<in> A" "set vs \<subseteq> A" using Cons.prems(1) by auto
  with v Cons.prems(3) have ps: "keyed A before (add_position i v ps)"
      "mset (remaining (add_position i v ps)) = add_mset i (mset (remaining ps))"
    using add_position_keyed [OF same, of A before i ps] by auto
  have "[i..<i + length (v # vs)] = i # [Suc i..<Suc i + length vs]"
    by (simp add: upt_conv_Cons del: upt_Suc)
  then show ?case
    using Cons.IH [OF \<open>set vs \<subseteq> A\<close> v(2) [symmetric] ps(1)] ps(2)
    by (simp del: upt_Suc mset_upt)
qed simp

lemma take_position_keyed:
  assumes same: "\<And>x y. x \<in> A \<Longrightarrow> y \<in> A \<Longrightarrow> same_key x y \<Longrightarrow> norm x = norm y" and "v \<in> A"
  shows "keyed A before ps \<Longrightarrow> take_position v ps = Some (i, ps') \<Longrightarrow>
    keyed A before ps' \<and> norm (before ! i) = norm v \<and> mset (remaining ps) = add_mset i (mset (remaining ps'))"
proof (induction ps arbitrary: ps')
  case (Cons p ps)
  obtain k ix used where p: "p = (k, ix, used)" by (cases p)
  show ?case
  proof (cases "same_key k v")
    case True
    with Cons.prems p have "used < length ix" "i = ix ! used" "ps' = (k, ix, Suc used) # ps"
      by (auto split: if_splits)
    moreover from calculation have "drop used ix = i # drop (Suc used) ix" by (simp add: Cons_nth_drop_Suc)
    ultimately show ?thesis using Cons.prems p True assms by (force simp: remaining_def)
  next
    case False
    with Cons p show ?thesis by auto
  qed
qed simp

lemma take_positions_keyed:
  assumes same: "\<And>x y. x \<in> A \<Longrightarrow> y \<in> A \<Longrightarrow> same_key x y \<Longrightarrow> norm x = norm y"
  shows "set vs \<subseteq> A \<Longrightarrow> keyed A before ps \<Longrightarrow> take_positions vs ps = Some ix \<Longrightarrow>
    mset ix \<subseteq># mset (remaining ps) \<and> map (\<lambda>i. norm (before ! i)) ix = map norm vs"
proof (induction vs arbitrary: ps ix)
  case (Cons v vs)
  from Cons.prems obtain i ps' ix' where t: "take_position v ps = Some (i, ps')"
    and ix: "ix = i # ix'" "take_positions vs ps' = Some ix'"
    by (auto split: option.splits)
  note k = take_position_keyed [OF same _ Cons.prems(2) t]
  show ?case using k Cons.IH [of ps' ix'] Cons.prems(1) ix by auto
qed auto

lemma permutation_sound:
  assumes same: "\<And>x y. x \<in> A \<Longrightarrow> y \<in> A \<Longrightarrow> same_key x y \<Longrightarrow> norm x = norm y"
    and "set before \<subseteq> A" "set after \<subseteq> A" "permutation before after = Some order"
  shows "mset order = mset [0..<length before]" and "map (\<lambda>i. norm (before ! i)) order = map norm after"
proof -
  let ?ps = "positions_of 0 before []"
  from assms(4) have len: "length before = length after" and take: "take_positions after ?ps = Some order"
    by (auto simp: permutation_def split: if_splits)
  have ps: "keyed A before ?ps" "mset (remaining ?ps) = mset [0..<length before]"
    using positions_of_keyed [OF same assms(2), where i = 0 and before = before and ps = "[]"] by (auto simp: keyed_def remaining_def)
  from take_positions_keyed [OF same assms(3) ps(1) take]
  have sub: "mset order \<subseteq># mset [0..<length before]" and m: "map (\<lambda>i. norm (before ! i)) order = map norm after"
    by (auto simp: ps(2))
  have "length order = length before" using m len by (metis length_map)
  with sub show "mset order = mset [0..<length before]"
    by (metis diff_zero length_upt mset_subset_size nat_neq_iff size_mset subset_mset.le_imp_less_or_eq)
  show "map (\<lambda>i. norm (before ! i)) order = map norm after" by (rule m)
qed

lemma permutation_accepted:
  assumes "mset order = mset [0..<n]"
  shows "assert_permutation (map int order) = Inr ()"
proof -
  have "distinct order" "set order = {0..<n}" "length order = n"
    using assms by (metis distinct_upt mset_eq_imp_distinct_iff, metis atLeastLessThan_upt mset_eq_setD,
        metis diff_zero length_upt size_mset)
  then show ?thesis by (auto simp: assert_permutation_iff distinct_map)
qed

section \<open>Matches\<close>

type_synonym array_match = "nat \<times> nat"

definition valid_matches :: "nat \<Rightarrow> nat \<Rightarrow> nat \<Rightarrow> nat \<Rightarrow> array_match list \<Rightarrow> bool" where
  "valid_matches bs be as ae ms \<longleftrightarrow>
     sorted_wrt (\<lambda>(b, a) (b', a'). b < b' \<and> a < a') ms \<and>
     (\<forall>(b, a) \<in> set ms. bs \<le> b \<and> b < be \<and> as \<le> a \<and> a < ae)"

lemma valid_matches_Nil [simp]: "valid_matches bs be as ae []"
  by (simp add: valid_matches_def)

lemma valid_matches_Cons:
  "valid_matches bs be as ae ((b, a) # ms) \<longleftrightarrow>
   bs \<le> b \<and> b < be \<and> as \<le> a \<and> a < ae \<and> valid_matches (Suc b) be (Suc a) ae ms"
  unfolding valid_matches_def by fastforce

lemma valid_matches_mono:
  "valid_matches bs be as ae ms \<Longrightarrow> bs' \<le> bs \<Longrightarrow> as' \<le> as \<Longrightarrow> be \<le> be' \<Longrightarrow> ae \<le> ae' \<Longrightarrow>
   valid_matches bs' be' as' ae' ms"
  unfolding valid_matches_def by fastforce


section \<open>Longest common subsequence\<close>

text \<open>
  The table \<open>lengths\<close> row by row from the last: \<open>lcs_row\<close> computes the row of \<open>x\<close> from the row below it.
\<close>

fun lcs_row :: "(json \<Rightarrow> json \<Rightarrow> bool) \<Rightarrow> json \<Rightarrow> json list \<Rightarrow> nat list \<Rightarrow> nat list" where
  "lcs_row eq x [] below = [0]"
| "lcs_row eq x (y # ys) below =
     (let rest = lcs_row eq x ys (tl below)
      in (if eq x y then below ! 1 + 1 else max (below ! 0) (rest ! 0)) # rest)"

fun lcs_table :: "(json \<Rightarrow> json \<Rightarrow> bool) \<Rightarrow> json list \<Rightarrow> json list \<Rightarrow> nat list list" where
  "lcs_table eq [] ys = [replicate (length ys + 1) 0]"
| "lcs_table eq (x # xs) ys = (let t = lcs_table eq xs ys in lcs_row eq x ys (hd t) # t)"

function lcs_walk ::
  "(json \<Rightarrow> json \<Rightarrow> bool) \<Rightarrow> json list \<Rightarrow> json list \<Rightarrow> nat list list \<Rightarrow> nat \<Rightarrow> nat \<Rightarrow> array_match list" where
  "lcs_walk eq before after lengths left right =
     (if left < length before \<and> right < length after then
        if eq (before ! left) (after ! right) \<and>
           lengths ! left ! right = lengths ! (left + 1) ! (right + 1) + 1
        then (left, right) # lcs_walk eq before after lengths (Suc left) (Suc right)
        else if lengths ! left ! (right + 1) \<le> lengths ! (left + 1) ! right
        then lcs_walk eq before after lengths (Suc left) right
        else lcs_walk eq before after lengths left (Suc right)
      else [])"
  by pat_completeness auto
termination
  by (relation "measure (\<lambda>(eq, b, a, t, l, r). (length b - l) + (length a - r))") auto

declare lcs_walk.simps [simp del]

definition lcs_matches ::
  "json list \<Rightarrow> json list \<Rightarrow> (json \<Rightarrow> json \<Rightarrow> bool) \<Rightarrow> nat \<Rightarrow> array_match list option" where
  "lcs_matches before after eq max_cells =
     (if before = [] \<or> after = [] then Some []
      else if max_cells < length before * length after then None
      else Some (lcs_walk eq before after (lcs_table eq before after) 0 0))"

lemma lcs_walk_valid:
  "valid_matches l (length before) r (length after) (lcs_walk eq before after t l r)"
proof (induction eq before after t l r rule: lcs_walk.induct)
  case (1 eq before after t l r)
  then show ?case
    by (subst lcs_walk.simps) (auto simp: valid_matches_Cons intro: valid_matches_mono)
qed

lemma lcs_matches_valid:
  "lcs_matches before after eq n = Some ms \<Longrightarrow> valid_matches 0 (length before) 0 (length after) ms"
  using lcs_walk_valid by (auto simp: lcs_matches_def split: if_splits)

section \<open>Subsequences by identity\<close>

text \<open>\<open>while (i < stop && p !== xs[i]) i += 1\<close>.\<close>

function skip_to :: "(nat \<Rightarrow> bool) \<Rightarrow> nat \<Rightarrow> nat \<Rightarrow> nat" where
  "skip_to found i stop = (if i < stop \<and> \<not> found i then skip_to found (Suc i) stop else i)"
  by pat_completeness auto
termination
  by (relation "measure (\<lambda>(found, i, stop). stop - i)") auto

declare skip_to.simps [simp del]

lemma skip_to_bounds: "i \<le> stop \<Longrightarrow> i \<le> skip_to found i stop \<and> skip_to found i stop \<le> stop"
proof (induction found i stop rule: skip_to.induct)
  case (1 found i stop)
  then show ?case by (subst (1 2) skip_to.simps) force
qed

text \<open>Each element of the shorter region, in order, at its next occurrence in the longer one.\<close>

function after_in_before ::
  "json list \<Rightarrow> json list \<Rightarrow> nat \<Rightarrow> nat \<Rightarrow> nat \<Rightarrow> nat \<Rightarrow> array_match list option" where
  "after_in_before before after bi be ai ae =
     (if ai < ae then
        (let b = skip_to (\<lambda>i. strict_eq (before ! i) (after ! ai)) bi be
         in if b = be then None
            else map_option ((#) (b, ai)) (after_in_before before after (Suc b) be (Suc ai) ae))
      else Some [])"
  by pat_completeness auto
termination
  by (relation "measure (\<lambda>(before, after, bi, be, ai, ae). ae - ai)") auto

function before_in_after ::
  "json list \<Rightarrow> json list \<Rightarrow> nat \<Rightarrow> nat \<Rightarrow> nat \<Rightarrow> nat \<Rightarrow> array_match list option" where
  "before_in_after before after bi be ai ae =
     (if bi < be then
        (let a = skip_to (\<lambda>i. strict_eq (before ! bi) (after ! i)) ai ae
         in if a = ae then None
            else map_option ((#) (bi, a)) (before_in_after before after (Suc bi) be (Suc a) ae))
      else Some [])"
  by pat_completeness auto
termination
  by (relation "measure (\<lambda>(before, after, bi, be, ai, ae). be - bi)") auto

declare after_in_before.simps [simp del] before_in_after.simps [simp del]

definition identity_subsequence ::
  "json list \<Rightarrow> nat \<Rightarrow> nat \<Rightarrow> json list \<Rightarrow> nat \<Rightarrow> nat \<Rightarrow> array_match list option" where
  "identity_subsequence before bs be after as ae =
     (let before_count = be - bs; after_count = ae - as
      in if after_count < before_count then after_in_before before after bs be as ae
         else if before_count < after_count then before_in_after before after bs be as ae
         else None)"

lemma after_in_before_valid:
  "after_in_before before after bi be ai ae = Some ms \<Longrightarrow> bi \<le> be \<Longrightarrow> valid_matches bi be ai ae ms"
proof (induction before after bi be ai ae arbitrary: ms rule: after_in_before.induct)
  case (1 before after bi be ai ae)
  let ?b = "skip_to (\<lambda>i. strict_eq (before ! i) (after ! ai)) bi be"
  have b: "bi \<le> ?b" "?b \<le> be" using skip_to_bounds [OF 1(3)] by auto
  show ?case
  proof (cases "ai < ae")
    case True
    with 1(2) have ne: "?b \<noteq> be" by (subst (asm) after_in_before.simps) (auto simp: Let_def)
    with True 1(2) obtain ms' where
      ms': "after_in_before before after (Suc ?b) be (Suc ai) ae = Some ms'" "ms = (?b, ai) # ms'"
      by (subst (asm) after_in_before.simps) (auto simp: Let_def)
    with 1(1) [OF True refl ne ms'(1)] b ne True show ?thesis
      by (auto simp: valid_matches_Cons)
  next
    case False
    with 1(2) show ?thesis by (subst (asm) after_in_before.simps) auto
  qed
qed

lemma before_in_after_valid:
  "before_in_after before after bi be ai ae = Some ms \<Longrightarrow> ai \<le> ae \<Longrightarrow> valid_matches bi be ai ae ms"
proof (induction before after bi be ai ae arbitrary: ms rule: before_in_after.induct)
  case (1 before after bi be ai ae)
  let ?a = "skip_to (\<lambda>i. strict_eq (before ! bi) (after ! i)) ai ae"
  have a: "ai \<le> ?a" "?a \<le> ae" using skip_to_bounds [OF 1(3)] by auto
  show ?case
  proof (cases "bi < be")
    case True
    with 1(2) have ne: "?a \<noteq> ae" by (subst (asm) before_in_after.simps) (auto simp: Let_def)
    with True 1(2) obtain ms' where
      ms': "before_in_after before after (Suc bi) be (Suc ?a) ae = Some ms'" "ms = (bi, ?a) # ms'"
      by (subst (asm) before_in_after.simps) (auto simp: Let_def)
    with 1(1) [OF True refl ne ms'(1)] a ne True show ?thesis
      by (auto simp: valid_matches_Cons)
  next
    case False
    with 1(2) show ?thesis by (subst (asm) before_in_after.simps) auto
  qed
qed

lemma identity_subsequence_valid:
  "identity_subsequence before bs be after as ae = Some ms \<Longrightarrow> bs \<le> be \<Longrightarrow> as \<le> ae \<Longrightarrow>
   valid_matches bs be as ae ms"
  by (auto simp: identity_subsequence_def Let_def after_in_before_valid before_in_after_valid
      split: if_splits)


section \<open>Anchors by identity\<close>

text \<open>
  \<open>lowerBound\<close>: the binary search keeps everything left of \<open>low\<close> below \<open>v\<close> and everything from
  \<open>high\<close> on not below it.
\<close>

function lower_bound_loop :: "nat list \<Rightarrow> nat \<Rightarrow> nat \<Rightarrow> nat \<Rightarrow> nat" where
  "lower_bound_loop vals v low high =
     (if low < high then
        (let middle = (low + high) div 2
         in if vals ! middle < v then lower_bound_loop vals v (middle + 1) high
            else lower_bound_loop vals v low middle)
      else low)"
  by pat_completeness auto
termination
  by (relation "measure (\<lambda>(vals, v, low, high). high - low)") auto

declare lower_bound_loop.simps [simp del]

definition lower_bound :: "nat list \<Rightarrow> nat \<Rightarrow> nat" where
  "lower_bound vals v = lower_bound_loop vals v 0 (length vals)"

lemma lower_bound_loop_spec:
  assumes "low \<le> high" "low = 0 \<or> vals ! (low - 1) < v"
    "high = length vals \<or> v \<le> vals ! high"
  shows "let r = lower_bound_loop vals v low high
         in low \<le> r \<and> r \<le> high \<and> (r = 0 \<or> vals ! (r - 1) < v) \<and> (r = length vals \<or> v \<le> vals ! r)"
  using assms
proof (induction vals v low high rule: lower_bound_loop.induct)
  case (1 vals v low high)
  show ?case
  proof (cases "low < high")
    case True
    let ?m = "(low + high) div 2"
    have m: "low \<le> ?m" "?m < high" using True by auto
    show ?thesis
    proof (cases "vals ! ?m < v")
      case less: True
      with m 1(1) [OF True refl less] 1(5) True show ?thesis
        by (subst lower_bound_loop.simps) (auto simp: Let_def)
    next
      case False
      with m 1(2) [OF True refl False] 1(4) True show ?thesis
        by (subst lower_bound_loop.simps) (auto simp: Let_def)
    qed
  next
    case False
    with 1(3-5) show ?thesis by (subst lower_bound_loop.simps) (auto simp: Let_def)
  qed
qed

lemma lower_bound_spec:
  "lower_bound vals v \<le> length vals"
  "0 < lower_bound vals v \<Longrightarrow> vals ! (lower_bound vals v - 1) < v"
  "lower_bound vals v < length vals \<Longrightarrow> v \<le> vals ! lower_bound vals v"
  using lower_bound_loop_spec [of 0 "length vals" vals v]
  by (auto simp: Let_def lower_bound_def)

lemma lower_bound_sorted:
  assumes "sorted_wrt (<) vals"
  shows "i < lower_bound vals v \<Longrightarrow> vals ! i < v"
    and "i < length vals \<Longrightarrow> lower_bound vals v \<le> i \<Longrightarrow> v \<le> vals ! i"
proof -
  let ?r = "lower_bound vals v"
  show "vals ! i < v" if "i < ?r"
  proof -
    have "vals ! i \<le> vals ! (?r - 1)"
      using that assms lower_bound_spec(1) [of vals v]
      by (metis One_nat_def Suc_pred bot_nat_0.not_eq_extremum less_Suc_eq_le less_nat_zero_code
          order_less_le_trans sorted_wrt_nth_less le_neq_implies_less less_imp_le lessI order_refl)
    with lower_bound_spec(2) [of vals v] that show ?thesis by fastforce
  qed
  show "v \<le> vals ! i" if "i < length vals" "?r \<le> i"
  proof -
    have "vals ! ?r \<le> vals ! i"
      using that assms by (metis le_neq_implies_less less_imp_le order_refl sorted_wrt_nth_less)
    with lower_bound_spec(3) [of vals v] that show ?thesis by force
  qed
qed

text \<open>Where each value of a region of \<open>before\<close> occurs: a \<open>Map\<close> to increasing lists of indices.\<close>

type_synonym index_map = "(json \<times> nat list) list"

fun add_index :: "nat \<Rightarrow> json \<Rightarrow> index_map \<Rightarrow> index_map" where
  "add_index i v [] = [(v, [i])]"
| "add_index i v ((k, is) # ps) =
     (if same_key k v then (k, is @ [i]) # ps else (k, is) # add_index i v ps)"

definition index_positions :: "json list \<Rightarrow> nat \<Rightarrow> nat \<Rightarrow> index_map" where
  "index_positions before bs be = fold (\<lambda>i ps. add_index i (before ! i) ps) [bs..<be] []"

definition get_index :: "index_map \<Rightarrow> json \<Rightarrow> nat list option" where
  "get_index ps v = map_option snd (find (\<lambda>(k, _). same_key k v) ps)"

definition indices_ok :: "nat \<Rightarrow> nat \<Rightarrow> index_map \<Rightarrow> bool" where
  "indices_ok bs be ps \<longleftrightarrow> (\<forall>(k, is) \<in> set ps. sorted_wrt (<) is \<and> (\<forall>i \<in> set is. bs \<le> i \<and> i < be))"

lemma add_index_ok:
  "indices_ok bs i ps \<Longrightarrow> bs \<le> i \<Longrightarrow> indices_ok bs (Suc i) (add_index i v ps)"
  by (induction ps) (fastforce simp: indices_ok_def sorted_wrt_append)+

lemma fold_add_index_ok:
  "indices_ok bs i ps \<Longrightarrow> bs \<le> i \<Longrightarrow> i \<le> be \<Longrightarrow>
   indices_ok bs be (fold (\<lambda>i ps. add_index i (before ! i) ps) [i..<be] ps)"
proof (induction "be - i" arbitrary: i ps)
  case 0
  then show ?case by simp
next
  case (Suc n)
  then have "[i..<be] = i # [Suc i..<be]" by (simp add: upt_conv_Cons)
  with Suc show ?case by (simp add: add_index_ok)
qed

lemma get_index_ok:
  assumes "bs \<le> be" "get_index (index_positions before bs be) v = Some is"
  shows "sorted_wrt (<) is" and "i \<in> set is \<Longrightarrow> bs \<le> i \<and> i < be"
proof -
  have ok: "indices_ok bs be (index_positions before bs be)"
    unfolding index_positions_def by (rule fold_add_index_ok) (use assms(1) in \<open>auto simp: indices_ok_def\<close>)
  from assms(2) obtain k where "(k, is) \<in> set (index_positions before bs be)"
    unfolding get_index_def by (auto simp: find_Some_iff) (metis nth_mem)
  with ok show "sorted_wrt (<) is" and "i \<in> set is \<Longrightarrow> bs \<le> i \<and> i < be"
    unfolding indices_ok_def by fastforce+
qed

text \<open>
  \<open>greedyIdentityAnchors\<close>: \<open>next\<close> is \<open>previous + 1\<close>, and the last argument the indices of \<open>after\<close> still
  to visit.
\<close>

fun greedy_anchors :: "index_map \<Rightarrow> json list \<Rightarrow> nat \<Rightarrow> nat list \<Rightarrow> array_match list" where
  "greedy_anchors ps after nxt [] = []"
| "greedy_anchors ps after nxt (ai # ais) =
     (case get_index ps (after ! ai) of
        None \<Rightarrow> greedy_anchors ps after nxt ais
      | Some candidates \<Rightarrow>
          (let at = lower_bound candidates nxt
           in if at < length candidates
              then (candidates ! at, ai) # greedy_anchors ps after (Suc (candidates ! at)) ais
              else greedy_anchors ps after nxt ais))"

text \<open>
  The patience sort: \<open>tails ! k\<close> is the chain of matches, newest first, that the back pointers from
  candidate \<open>tails[k]\<close> denote (candidates are only ever appended, so a pointer names a fixed chain).
\<close>

definition put_at :: "nat \<Rightarrow> 'a \<Rightarrow> 'a list \<Rightarrow> 'a list" where
  "put_at i x xs = (if i < length xs then xs[i := x] else xs @ [x])"

type_synonym patience = "array_match list list \<times> nat list"

fun add_candidate :: "nat \<Rightarrow> nat \<Rightarrow> patience \<Rightarrow> patience" where
  "add_candidate ai bi (tails, vals) =
     (let at = lower_bound vals bi;
          chain = (bi, ai) # (if at = 0 then [] else tails ! (at - 1))
      in (put_at at chain tails, put_at at bi vals))"

definition add_candidates :: "index_map \<Rightarrow> json list \<Rightarrow> nat \<Rightarrow> patience \<Rightarrow> patience" where
  "add_candidates ps after ai st =
     (case get_index ps (after ! ai) of
        None \<Rightarrow> st
      | Some is \<Rightarrow> fold (add_candidate ai) (rev is) st)"

text \<open>The number of candidates, \<open>None\<close> once it passes the limit.\<close>

definition max_identity_candidates :: nat where
  "max_identity_candidates = 200000"

fun count_candidates :: "index_map \<Rightarrow> json list \<Rightarrow> nat list \<Rightarrow> nat \<Rightarrow> nat option" where
  "count_candidates ps after [] n = Some n"
| "count_candidates ps after (ai # ais) n =
     (let n' = n + (case get_index ps (after ! ai) of None \<Rightarrow> 0 | Some is \<Rightarrow> length is)
      in if max_identity_candidates < n' then None else count_candidates ps after ais n')"

definition identity_anchors ::
  "json list \<Rightarrow> nat \<Rightarrow> nat \<Rightarrow> json list \<Rightarrow> nat \<Rightarrow> nat \<Rightarrow> array_match list" where
  "identity_anchors before bs be after as ae =
     (let ps = index_positions before bs be
      in case count_candidates ps after [as..<ae] 0 of
           None \<Rightarrow> greedy_anchors ps after 0 [as..<ae]
         | Some n \<Rightarrow>
             if n = 0 then []
             else (let (tails, vals) = fold (add_candidates ps after) [as..<ae] ([], [])
                   in if tails = [] then [] else rev (last tails)))"


lemma greedy_anchors_valid:
  assumes "bs \<le> be"
  shows "ae = as + n \<Longrightarrow> nxt \<le> be \<Longrightarrow>
    valid_matches (max bs nxt) be as ae (greedy_anchors (index_positions before bs be) after nxt [as..<ae])"
proof (induction n arbitrary: as nxt)
  case 0
  then show ?case by simp
next
  case (Suc n)
  let ?ps = "index_positions before bs be"
  have upt: "[as..<ae] = as # [Suc as..<ae]" using Suc.prems by (simp add: upt_conv_Cons)
  have skip: "valid_matches (max bs nxt) be as ae (greedy_anchors ?ps after nxt [Suc as..<ae])"
    using Suc.IH [of "Suc as" nxt] Suc.prems by (auto intro: valid_matches_mono)
  show ?case
  proof (cases "get_index ?ps (after ! as)")
    case None
    with skip show ?thesis by (simp add: upt)
  next
    case (Some ix)
    let ?at = "lower_bound ix nxt"
    show ?thesis
    proof (cases "?at < length ix")
      case True
      let ?b = "ix ! ?at"
      have b: "bs \<le> ?b" "?b < be" "nxt \<le> ?b"
        using get_index_ok(2) [OF assms Some] True lower_bound_spec(3) [OF True] by auto
      then have "valid_matches (Suc ?b) be (Suc as) ae (greedy_anchors ?ps after (Suc ?b) [Suc as..<ae])"
        using Suc.IH [of "Suc as" "Suc ?b"] Suc.prems by (auto intro: valid_matches_mono)
      with Some True b Suc.prems show ?thesis
        unfolding upt by (simp add: Let_def valid_matches_Cons del: upt_Suc)
    next
      case False
      with Some skip show ?thesis by (simp add: upt Let_def)
    qed
  qed
qed

lemma valid_matches_snoc:
  "valid_matches bs b as a ms \<Longrightarrow> bs \<le> b \<Longrightarrow> b < be \<Longrightarrow> as \<le> a \<Longrightarrow> a < ae \<Longrightarrow>
   valid_matches bs be as ae (ms @ [(b, a)])"
  unfolding valid_matches_def by (fastforce simp: sorted_wrt_append)

text \<open>A chain whose newest match is at \<open>b\<close>, with every match below \<open>bound\<close> in \<open>after\<close>.\<close>

definition chain_ok :: "nat \<Rightarrow> nat \<Rightarrow> nat \<Rightarrow> nat \<Rightarrow> nat \<Rightarrow> array_match list \<Rightarrow> bool" where
  "chain_ok bs be as bound b c \<longleftrightarrow>
     (\<exists>a rest. c = (b, a) # rest \<and> bs \<le> b \<and> b < be \<and> as \<le> a \<and> a < bound \<and>
        valid_matches bs b as a (rev rest))"

text \<open>
  While the candidates of one index \<open>ai\<close> of \<open>after\<close> are added, from the greatest down, the chains
  before place \<open>hi\<close> have not used \<open>ai\<close> yet.
\<close>

definition patience_inv :: "nat \<Rightarrow> nat \<Rightarrow> nat \<Rightarrow> nat \<Rightarrow> nat \<Rightarrow> patience \<Rightarrow> bool" where
  "patience_inv bs be as ai hi st \<longleftrightarrow>
     (case st of (tails, vals) \<Rightarrow>
        length tails = length vals \<and> sorted_wrt (<) vals \<and>
        (\<forall>k < length vals. chain_ok bs be as (Suc ai) (vals ! k) (tails ! k)) \<and>
        (\<forall>k < length vals. k < hi \<longrightarrow> chain_ok bs be as ai (vals ! k) (tails ! k)))"

lemma sorted_put_at:
  assumes "sorted_wrt (<) vals"
  shows "sorted_wrt (<) (put_at (lower_bound vals v) v vals)"
proof -
  note lb = lower_bound_sorted [OF assms, where v = v] and le = lower_bound_spec(1) [of vals v]
  show ?thesis
  proof (cases "lower_bound vals v < length vals")
    case True
    have "vals[lower_bound vals v := v] ! i < vals[lower_bound vals v := v] ! j"
      if ij: "i < j" "j < length vals" for i j
    proof -
      have "vals ! i < vals ! j" using assms ij by (simp add: sorted_wrt_nth_less)
      moreover have "v < vals ! j" if "i = lower_bound vals v"
        using lb(2) [of i] calculation that ij by simp
      moreover have "i < length vals" using ij by simp
      ultimately show ?thesis using lb(1) [of i] ij
        by (cases "i = lower_bound vals v"; cases "j = lower_bound vals v") auto
    qed
    with True show ?thesis by (simp add: put_at_def sorted_wrt_iff_nth_less)
  next
    case False
    with le lb(1) assms show ?thesis
      by (auto simp: put_at_def sorted_wrt_append in_set_conv_nth)
  qed
qed

lemma nth_put_at: "k \<le> length xs \<Longrightarrow> put_at k x xs ! i = (if i = k then x else xs ! i)" if "i < length xs \<or> i = k"
  using that by (auto simp: put_at_def nth_append)

lemma length_put_at: "k \<le> length xs \<Longrightarrow> length (put_at k x xs) = (if k < length xs then length xs else Suc (length xs))"
  by (simp add: put_at_def)


lemma chain_ok_mono: "chain_ok bs be as m b c \<Longrightarrow> m \<le> n \<Longrightarrow> chain_ok bs be as n b c"
  by (force simp: chain_ok_def)

lemma chain_ok_extend:
  assumes "chain_ok bs be as ai b' c" "b' < b" "b < be"
  shows "chain_ok bs be as (Suc ai) b ((b, ai) # c)"
proof -
  from assms(1) obtain a rest where c: "c = (b', a) # rest" "bs \<le> b'" "as \<le> a" "a < ai"
    and v: "valid_matches bs b' as a (rev rest)" by (auto simp: chain_ok_def)
  have "valid_matches bs b as ai (rev rest @ [(b', a)])"
    by (rule valid_matches_snoc [OF v]) (use c assms in auto)
  with c assms(2,3) show ?thesis by (simp add: chain_ok_def)
qed

lemma add_candidate_inv:
  assumes inv: "patience_inv bs be as ai hi (tails, vals)" and hi: "hi < length vals \<Longrightarrow> bi < vals ! hi"
    and b: "bs \<le> bi" "bi < be" and a: "as \<le> ai"
  shows "\<exists>at tails' vals'. add_candidate ai bi (tails, vals) = (tails', vals') \<and>
     patience_inv bs be as ai at (tails', vals') \<and> at < length vals' \<and> vals' ! at = bi"
proof -
  let ?at = "lower_bound vals bi"
  let ?chain = "(bi, ai) # (if ?at = 0 then [] else tails ! (?at - 1))"
  from inv have len: "length tails = length vals" and sorted: "sorted_wrt (<) vals"
    and ok: "\<And>k. k < length vals \<Longrightarrow> chain_ok bs be as (Suc ai) (vals ! k) (tails ! k)"
    and low: "\<And>k. k < length vals \<Longrightarrow> k < hi \<Longrightarrow> chain_ok bs be as ai (vals ! k) (tails ! k)"
    by (auto simp: patience_inv_def)
  note le = lower_bound_spec(1) [of vals bi]
  have at_hi: "?at \<le> hi \<or> length vals \<le> hi"
    using lower_bound_sorted(1) [OF sorted, of hi bi] hi by (meson not_less_iff_gr_or_eq not_le)
  have lowk: "chain_ok bs be as ai (vals ! k) (tails ! k)" if "k < ?at" for k
    using low [of k] that at_hi le by auto
  have chain: "chain_ok bs be as (Suc ai) bi ?chain"
  proof (cases "?at = 0")
    case True
    with b a show ?thesis by (simp add: chain_ok_def)
  next
    case False
    have "chain_ok bs be as ai (vals ! (?at - 1)) (tails ! (?at - 1))"
      using lowk [of "?at - 1"] False by simp
    with False show ?thesis
      using chain_ok_extend [OF _ lower_bound_spec(2) b(2)] by simp
  qed
  have nth: "put_at ?at x xs ! k = (if k = ?at then x else xs ! k)"
    if "length xs = length vals" "k < length (put_at ?at x xs)" for k and x :: 'z and xs
    using that le by (subst nth_put_at) (auto simp: length_put_at split: if_splits)
  have "patience_inv bs be as ai ?at (put_at ?at ?chain tails, put_at ?at bi vals)"
    unfolding patience_inv_def prod.case
  proof (intro conjI allI impI)
    show "sorted_wrt (<) (put_at ?at bi vals)" by (rule sorted_put_at [OF sorted])
    fix k assume k: "k < length (put_at ?at bi vals)"
    then have k': "k < length (put_at ?at ?chain tails)" using len le by (auto simp: length_put_at split: if_splits)
    show "chain_ok bs be as (Suc ai) (put_at ?at bi vals ! k) (put_at ?at ?chain tails ! k)"
      using chain ok [of k] k le nth [OF refl k] nth [OF len k'] by (auto simp: length_put_at split: if_splits)
    show "k < ?at \<Longrightarrow> chain_ok bs be as ai (put_at ?at bi vals ! k) (put_at ?at ?chain tails ! k)"
      using lowk [of k] nth [OF refl k] nth [OF len k'] by simp
  qed (use len le in \<open>simp add: length_put_at\<close>)
  moreover have "?at < length (put_at ?at bi vals)" using le by (simp add: length_put_at)
  moreover have "put_at ?at bi vals ! ?at = bi" using nth [OF refl calculation(2)] by simp
  ultimately show ?thesis unfolding add_candidate.simps Let_def by blast
qed

declare add_candidate.simps [simp del]

lemma add_candidate_fold_inv:
  assumes "sorted_wrt (>) is" "\<forall>i \<in> set is. bs \<le> i \<and> i < be" "as \<le> ai"
    and "patience_inv bs be as ai hi (tails, vals)" "is \<noteq> [] \<Longrightarrow> hi < length vals \<Longrightarrow> hd is < vals ! hi"
  shows "\<exists>hi'. patience_inv bs be as ai hi' (fold (add_candidate ai) is (tails, vals))"
  using assms
proof (induction "is" arbitrary: hi tails vals)
  case Nil
  then show ?case by auto
next
  case (Cons bi ix)
  obtain at tails' vals' where st: "add_candidate ai bi (tails, vals) = (tails', vals')"
    and inv: "patience_inv bs be as ai at (tails', vals')" and at: "vals' ! at = bi"
    using add_candidate_inv [OF Cons.prems(4) _ _ _ Cons.prems(3), of bi] Cons.prems(2,5)
    by fastforce
  have "\<exists>hi'. patience_inv bs be as ai hi' (fold (add_candidate ai) ix (tails', vals'))"
    by (rule Cons.IH [OF _ _ _ inv]) (use Cons.prems at in \<open>auto simp: neq_Nil_conv\<close>)
  with st show ?case by simp
qed

lemma patience_inv_next: "patience_inv bs be as ai hi st \<Longrightarrow> patience_inv bs be as (Suc ai) (length (snd st)) st"
  by (auto simp: patience_inv_def intro: chain_ok_mono)

lemma add_candidates_inv:
  assumes "bs \<le> be" "as \<le> ai" "patience_inv bs be as ai (length (snd st)) st"
  shows "\<exists>hi. patience_inv bs be as ai hi (add_candidates (index_positions before bs be) after ai st)"
proof (cases "get_index (index_positions before bs be) (after ! ai)")
  case None
  with assms show ?thesis by (auto simp: add_candidates_def)
next
  case (Some ix)
  obtain tails vals where st: "st = (tails, vals)" by force
  have "\<exists>hi. patience_inv bs be as ai hi (fold (add_candidate ai) (rev ix) (tails, vals))"
    by (rule add_candidate_fold_inv [where hi = "length vals"])
      (use get_index_ok [OF assms(1) Some] assms st in \<open>auto simp: sorted_wrt_rev\<close>)
  with Some st show ?thesis by (simp add: add_candidates_def)
qed

lemma add_candidates_fold_inv:
  assumes "bs \<le> be"
  shows "as \<le> ai \<Longrightarrow> patience_inv bs be as ai (length (snd st)) st \<Longrightarrow> ae = ai + n \<Longrightarrow>
    patience_inv bs be as ae (length (snd (fold (add_candidates (index_positions before bs be) after) [ai..<ae] st)))
      (fold (add_candidates (index_positions before bs be) after) [ai..<ae] st)"
proof (induction n arbitrary: ai st)
  case 0
  then show ?case by auto
next
  case (Suc n)
  let ?st = "add_candidates (index_positions before bs be) after ai st"
  have upt: "[ai..<ae] = ai # [Suc ai..<ae]" using Suc.prems by (simp add: upt_conv_Cons)
  have "patience_inv bs be as (Suc ai) (length (snd ?st)) ?st"
    using add_candidates_inv [OF assms Suc.prems(1,2)] patience_inv_next by blast
  then show ?case
    unfolding upt using Suc.IH [of "Suc ai" ?st] Suc.prems by (simp del: upt_Suc)
qed

lemma identity_anchors_valid:
  assumes "bs \<le> be" "as \<le> ae"
  shows "valid_matches bs be as ae (identity_anchors before bs be after as ae)"
proof -
  let ?ps = "index_positions before bs be"
  obtain n where ae: "ae = as + n" using assms(2) le_Suc_ex by blast
  have greedy: "valid_matches bs be as ae (greedy_anchors ?ps after 0 [as..<ae])"
    using greedy_anchors_valid [OF assms(1) ae, of 0] by simp
  have "patience_inv bs be as as (length (snd ([], []))) ([], [])"
    by (simp add: patience_inv_def)
  note fin = add_candidates_fold_inv [OF assms(1) order_refl this ae, of before after]
  obtain tails vals where st: "fold (add_candidates ?ps after) [as..<ae] ([], []) = (tails, vals)"
    by force
  with fin have inv: "patience_inv bs be as ae (length vals) (tails, vals)" by simp
  have "valid_matches bs be as ae (rev (last tails))" if "tails \<noteq> []"
  proof -
    have len: "length tails = length vals" using inv by (simp add: patience_inv_def)
    with that have "length tails - 1 < length vals" by (cases vals) auto
    with inv that len have "chain_ok bs be as ae (vals ! (length tails - 1)) (last tails)"
      by (simp add: patience_inv_def last_conv_nth)
    then show ?thesis by (auto simp: chain_ok_def intro: valid_matches_snoc)
  qed
  with greedy st show ?thesis
    by (auto simp: identity_anchors_def Let_def split: option.split)
qed

end
