(* ===== verification/DeltaDiff.thy ===== *)
theory DeltaDiff
  imports DeltaMatch
begin

text \<open>
  The differ of \<open>packages/chord/src/delta/diff.ts\<close>: the operations that turn one revision of a value
  into the next. The batch under construction is a record; a batch that outgrew
  \<open>MAX_DELTA_OPERATIONS\<close> (the set \<open>overflowedBatches\<close> of the code) takes nothing more.
\<close>

section \<open>Emitting\<close>

record batch =
  batch_ops :: "op list"
  overflowed :: bool

definition max_delta_operations :: nat where
  "max_delta_operations = 4096"

definition default_overlap_scan :: nat where
  "default_overlap_scan = 65536"

definition overlap_probe :: nat where
  "overlap_probe = 64"

definition overlap_candidates :: nat where
  "overlap_candidates = 8"

definition max_semantic_cells :: nat where
  "max_semantic_cells = 65536"

definition emit_operation :: "op \<Rightarrow> batch \<Rightarrow> batch" where
  "emit_operation op b =
     (if overflowed b then b
      else if max_delta_operations \<le> length (batch_ops b) then b\<lparr>overflowed := True\<rparr>
      else b\<lparr>batch_ops := batch_ops b @ [op]\<rparr>)"

definition emit_set :: "path \<Rightarrow> json \<Rightarrow> batch \<Rightarrow> batch" where
  "emit_set path v b = (if path = [] then emit_operation (OReplace v) b else emit_operation (OSet path v) b)"

definition emit_string :: "jsstr \<Rightarrow> jsstr \<Rightarrow> path \<Rightarrow> batch \<Rightarrow> batch" where
  "emit_string before after path b =
     (if before = after then b
      else if length before < length after \<and> slice 0 (length before) after = before
      then emit_operation (OAppend path (owned_slice after (length before) (length after))) b
      else let shared = overlap before after default_overlap_scan overlap_probe overlap_candidates
           in if shared = 0 then emit_operation (OSet path (JStr after)) b
              else let b' = emit_operation (OTruncate path (int (length before - shared))) b
                   in if shared < length after
                      then emit_operation (OAppend path (owned_slice after shared (length after))) b'
                      else b')"

section \<open>Trimming a region\<close>

function trim_prefix :: "json list \<Rightarrow> json list \<Rightarrow> nat \<Rightarrow> nat \<Rightarrow> nat \<Rightarrow> nat \<Rightarrow> nat \<Rightarrow> nat \<times> nat \<times> nat" where
  "trim_prefix before after bs be as ae out =
     (if bs < be \<and> as < ae \<and> same_value (before ! bs) (after ! as)
      then trim_prefix before after (Suc bs) be (Suc as) ae (Suc out)
      else (bs, as, out))"
  by pat_completeness auto
termination
  by (relation "measure (\<lambda>(before, after, bs, be, as, ae, out). be - bs)") auto

fun trim_suffix :: "json list \<Rightarrow> json list \<Rightarrow> nat \<Rightarrow> nat \<Rightarrow> nat \<Rightarrow> nat \<Rightarrow> nat \<times> nat" where
  "trim_suffix before after bs be as ae =
     (if bs < be \<and> as < ae \<and> same_value (before ! (be - 1)) (after ! (ae - 1))
      then trim_suffix before after bs (be - 1) as (ae - 1)
      else (be, ae))"

declare trim_prefix.simps [simp del] trim_suffix.simps [simp del]

lemma trim_prefix_bounds:
  "trim_prefix before after bs be as ae out = (bs', as', out') \<Longrightarrow>
   bs \<le> bs' \<and> as \<le> as' \<and> bs' - bs = as' - as \<and> out' - out = bs' - bs \<and> out \<le> out' \<and>
   (bs \<le> be \<longrightarrow> bs' \<le> be) \<and> (as \<le> ae \<longrightarrow> as' \<le> ae)"
proof (induction before after bs be as ae out rule: trim_prefix.induct)
  case (1 before after bs be as ae out)
  then show ?case
    by (subst (asm) (2) trim_prefix.simps) (force split: if_splits)
qed

lemma trim_suffix_bounds:
  "trim_suffix before after bs be as ae = (be', ae') \<Longrightarrow>
   be' \<le> be \<and> ae' \<le> ae \<and> be - be' = ae - ae' \<and> (bs \<le> be \<longrightarrow> bs \<le> be') \<and> (as \<le> ae \<longrightarrow> as \<le> ae')"
proof (induction before after bs be as ae rule: trim_suffix.induct)
  case (1 before after bs be as ae)
  show ?case
  proof (cases "bs < be \<and> as < ae \<and> same_value (before ! (be - 1)) (after ! (ae - 1))")
    case True
    with 1 show ?thesis by (subst (asm) (2) trim_suffix.simps) force
  next
    case False
    with 1(2) show ?thesis by (subst (asm) trim_suffix.simps) auto
  qed
qed

definition positional_matches :: "json list \<Rightarrow> json list \<Rightarrow> nat \<Rightarrow> nat \<Rightarrow> nat \<Rightarrow> array_match list" where
  "positional_matches before after bs as n =
     map (\<lambda>offset. (bs + offset, as + offset))
       (filter (\<lambda>offset. same_value (before ! (bs + offset)) (after ! (as + offset))) [0..<n])"

lemma positional_matches_valid:
  "n \<le> be - bs \<Longrightarrow> n \<le> ae - as \<Longrightarrow> valid_matches bs be as ae (positional_matches before after bs as n)"
  unfolding positional_matches_def valid_matches_def
  by (auto simp: sorted_wrt_map intro!: sorted_wrt_filter)

text \<open>
  The matches a trimmed region is split at: equal elements at equal offsets, one side as a
  subsequence of the other by identity, the longest chain of identical elements, and elements that
  share a container. No match at all is the empty list.
\<close>

definition region_matches ::
  "json list \<Rightarrow> json list \<Rightarrow> nat \<Rightarrow> nat \<Rightarrow> nat \<Rightarrow> nat \<Rightarrow> array_match list" where
  "region_matches before after bs be as ae =
     (let positional = (if be - bs = ae - as then positional_matches before after bs as (be - bs) else [])
      in if positional \<noteq> [] then positional
      else case identity_subsequence before bs be after as ae of
        Some (m # ms) \<Rightarrow> m # ms
      | _ \<Rightarrow>
        (let identity = identity_anchors before bs be after as ae
         in if identity \<noteq> [] then identity
         else case lcs_matches (slice bs be before) (slice as ae after) semantically_aligned max_semantic_cells of
           Some semantic \<Rightarrow> map (\<lambda>(b, a). (bs + b, as + a)) semantic
         | None \<Rightarrow> []))"

lemma valid_matches_shift:
  "valid_matches 0 n 0 m ms \<Longrightarrow> n \<le> be - bs \<Longrightarrow> m \<le> ae - as \<Longrightarrow>
   valid_matches bs be as ae (map (\<lambda>(b, a). (bs + b, as + a)) ms)"
  by (auto simp: valid_matches_def sorted_wrt_map split_beta elim!: sorted_wrt_mono_rel [rotated])

lemma region_matches_valid:
  assumes "bs \<le> be" "as \<le> ae"
  shows "valid_matches bs be as ae (region_matches before after bs be as ae)"
proof -
  have p: "valid_matches bs be as ae (positional_matches before after bs as (be - bs))"
    if "be - bs = ae - as"
    using that positional_matches_valid [of "be - bs" be bs ae as] by simp
  have i: "valid_matches bs be as ae (identity_anchors before bs be after as ae)"
    by (rule identity_anchors_valid [OF assms])
  have l: "valid_matches bs be as ae (map (\<lambda>(b, a). (bs + b, as + a)) ms)"
    if "lcs_matches (slice bs be before) (slice as ae after) eq n = Some ms" for eq n ms
    using lcs_matches_valid [OF that] by (rule valid_matches_shift) (simp_all add: length_slice)
  show ?thesis
    unfolding region_matches_def Let_def
    using p i l identity_subsequence_valid [OF _ assms, of before after]
    by (auto split: option.split list.split)
qed

section \<open>Diffing values\<close>

fun elements :: "json \<Rightarrow> json list" where
  "elements (JArr _ xs) = xs"
| "elements _ = []"

fun props :: "json \<Rightarrow> (jsstr \<times> json) list" where
  "props (JObj _ kvs) = kvs"
| "props _ = []"

fun is_string :: "json \<Rightarrow> bool" where
  "is_string (JStr _) = True"
| "is_string _ = False"

fun text_of :: "json \<Rightarrow> jsstr" where
  "text_of (JStr s) = s"
| "text_of _ = []"

fun emit_deletes :: "jsstr list \<Rightarrow> (jsstr \<times> json) list \<Rightarrow> path \<Rightarrow> batch \<Rightarrow> batch" where
  "emit_deletes [] after path b = b"
| "emit_deletes (key # keys) after path b =
     (if overflowed b then b
      else emit_deletes keys after path
        (if map_of after key = None then emit_operation (ODelete (path @ [Key key])) b else b))"

definition array_order :: "json list \<Rightarrow> json list \<Rightarrow> nat list option" where
  "array_order before after =
     (if length before = length after \<and> 1 < length before \<and>
         \<not> same_value (before ! 0) (after ! 0) \<and>
         \<not> same_value (before ! (length before - 1)) (after ! (length after - 1))
      then permutation before after else None)"

text \<open>The weight of a value: how many values it is made of. It drives the termination proof only.\<close>

fun weight :: "json \<Rightarrow> nat" where
  "weight (JArr _ xs) = Suc (sum_list (map weight xs))"
| "weight (JObj _ kvs) = Suc (sum_list (map (\<lambda>kv. weight (snd kv)) kvs))"
| "weight _ = 1"

definition region_weight :: "json list \<Rightarrow> nat \<Rightarrow> nat \<Rightarrow> nat" where
  "region_weight before bs be = (\<Sum>i \<in> {bs..<be}. weight (before ! i))"

fun matches_weight :: "json list \<Rightarrow> nat \<Rightarrow> nat \<Rightarrow> array_match list \<Rightarrow> nat" where
  "matches_weight before bs be [] = 8 * region_weight before bs be + 8"
| "matches_weight before bs be ((b, a) # ms) =
     Suc (max (8 * region_weight before bs b + 7)
       (max (8 * weight (before ! b) + 2) (matches_weight before (Suc b) be ms)))"

lemma weight_pos [simp]: "0 < weight v"
  by (cases v) auto

lemma region_weight_split:
  "bs \<le> b \<Longrightarrow> b < be \<Longrightarrow>
   region_weight before bs be = region_weight before bs b + weight (before ! b) + region_weight before (Suc b) be"
  unfolding region_weight_def
  using sum.atLeastLessThan_concat [of bs b be "\<lambda>i. weight (before ! i)"]
    sum.atLeast_Suc_lessThan [of b be "\<lambda>i. weight (before ! i)"] by simp

lemma region_weight_mono: "bs \<le> bs' \<Longrightarrow> be' \<le> be \<Longrightarrow> region_weight before bs' be' \<le> region_weight before bs be"
  unfolding region_weight_def by (rule sum_mono2) auto

lemma matches_weight_less:
  "valid_matches bs be as ae ms \<Longrightarrow> ms \<noteq> [] \<Longrightarrow>
   matches_weight before bs be ms < 8 * region_weight before bs be + 7"
proof (induction ms arbitrary: bs as)
  case (Cons m ms)
  obtain b a where m: "m = (b, a)" by force
  with Cons.prems have v: "bs \<le> b" "b < be" "valid_matches (Suc b) be (Suc a) ae ms"
    by (auto simp: valid_matches_Cons)
  note w = region_weight_split [OF v(1,2), of before]
  obtain n where n: "weight (before ! b) = Suc n" using weight_pos [of "before ! b"] by (cases "weight (before ! b)") auto
  show ?case
  proof (cases "ms = []")
    case True
    with m w n show ?thesis by simp
  next
    case False
    with Cons.IH [OF v(3)] m w n show ?thesis by simp
  qed
qed simp

lemma region_weight_elements: "8 * region_weight (elements v) 0 (length (elements v)) + 7 < 8 * weight v + 1"
proof (cases v)
  case (JArr i xs)
  have "region_weight xs 0 (length xs) = sum_list (map weight xs)"
    by (simp add: region_weight_def sum_list_sum_nth)
  with JArr show ?thesis by simp
qed (auto simp: region_weight_def)

lemma weight_field: "map_of kvs key = Some v \<Longrightarrow> weight v \<le> sum_list (map (\<lambda>kv. weight (snd kv)) kvs)"
  by (induction kvs) (auto split: if_splits)

lemma weight_fields: "sum_list (map (\<lambda>kv. weight (snd kv)) (props v)) < weight v"
  by (cases v) auto

lemma region_weight_single: "bs < be \<Longrightarrow> weight (before ! bs) \<le> region_weight before bs be"
  unfolding region_weight_def by (rule member_le_sum) auto

lemma region_value_less:
  assumes "trim_prefix before after bs be as ae out = (bs', as', out')"
    and "trim_suffix before after bs' be as' ae = (be', ae')" and "be' - bs' \<noteq> 0"
  shows "8 * weight (before ! bs') + 2 < 8 * region_weight before bs be + 7"
proof -
  have "region_weight before bs' be' \<le> region_weight before bs be"
    using trim_prefix_bounds [OF assms(1)] trim_suffix_bounds [OF assms(2)] by (simp add: region_weight_mono)
  with region_weight_single [of bs' be' before] assms(3) show ?thesis by simp
qed

lemma region_matches_less:
  assumes "trim_prefix before after bs be as ae out = (bs', as', out')"
    and "trim_suffix before after bs' be as' ae = (be', ae')"
    and "be' - bs' \<noteq> 0" "ae' - as' \<noteq> 0" "region_matches before after bs' be' as' ae' = m # ms"
  shows "matches_weight before bs' be' (m # ms) < 8 * region_weight before bs be + 7"
proof -
  have "region_weight before bs' be' \<le> region_weight before bs be"
    using trim_prefix_bounds [OF assms(1)] trim_suffix_bounds [OF assms(2)] by (simp add: region_weight_mono)
  moreover have "valid_matches bs' be' as' ae' (m # ms)"
    using region_matches_valid [of bs' be' as' ae' before after] assms(3-5) by simp
  ultimately show ?thesis using matches_weight_less [of bs' be' as' ae' "m # ms" before] by simp
qed

text \<open>
  \<open>diffValue\<close>, \<open>diffArray\<close>, \<open>diffObject\<close> with its loop over the new properties, \<open>diffArrayRegion\<close> and
  \<open>processArrayMatches\<close>.
\<close>

function diff_value :: "json \<Rightarrow> json \<Rightarrow> path \<Rightarrow> batch \<Rightarrow> batch"
  and diff_array :: "json \<Rightarrow> json \<Rightarrow> path \<Rightarrow> batch \<Rightarrow> batch"
  and diff_object :: "json \<Rightarrow> json \<Rightarrow> path \<Rightarrow> batch \<Rightarrow> batch"
  and diff_fields :: "(jsstr \<times> json) list \<Rightarrow> (jsstr \<times> json) list \<Rightarrow> path \<Rightarrow> batch \<Rightarrow> batch"
  and diff_region ::
    "json list \<Rightarrow> json list \<Rightarrow> path \<Rightarrow> batch \<Rightarrow> nat \<Rightarrow> nat \<Rightarrow> nat \<Rightarrow> nat \<Rightarrow> nat \<Rightarrow> batch"
  and process_matches ::
    "json list \<Rightarrow> json list \<Rightarrow> path \<Rightarrow> batch \<Rightarrow> nat \<Rightarrow> nat \<Rightarrow> nat \<Rightarrow> nat \<Rightarrow> nat \<Rightarrow> array_match list \<Rightarrow> batch"
  where
  "diff_value before after path b =
     (if strict_eq before after \<or> overflowed b then b
      else if is_string before \<and> is_string after \<and> path \<noteq> []
      then emit_string (text_of before) (text_of after) path b
      else if is_array before \<and> is_array after then diff_array before after path b
      else if is_container before \<and> is_container after \<and> \<not> is_array before \<and> \<not> is_array after
      then diff_object before after path b
      else emit_set path after b)"
| "diff_array before after path b =
     (if strict_eq before after \<or> equal_json before after then b
      else case array_order (elements before) (elements after) of
        Some order \<Rightarrow> emit_operation (OPermute path (map int order)) b
      | None \<Rightarrow>
          diff_region (elements before) (elements after) path b
            0 (length (elements before)) 0 (length (elements after)) 0)"
| "diff_object before after path b =
     (if list_ex (\<lambda>key. key \<in> set reserved_segments) (map fst (props before) @ map fst (props after))
      then (if equal_json before after then b else emit_set path after b)
      else emit_deletes (map fst (props before)) (props after) path
        (diff_fields (props before) (props after) path b))"
| "diff_fields before [] path b = b"
| "diff_fields before ((key, v) # kvs) path b =
     (if overflowed b then b
      else case map_of before key of
        Some w \<Rightarrow> diff_fields before kvs path (diff_value w v (path @ [Key key]) b)
      | None \<Rightarrow> diff_fields before kvs path (emit_set (path @ [Key key]) v b))"
| "diff_region before after path b bs be as ae out =
     (if overflowed b then b
      else case trim_prefix before after bs be as ae out of (bs', as', out') \<Rightarrow>
        (case trim_suffix before after bs' be as' ae of (be', ae') \<Rightarrow>
          (if be' - bs' = 0 \<and> ae' - as' = 0 then b
           else if be' - bs' = 0 \<or> ae' - as' = 0
           then emit_operation (OSplice path (int out') (int (be' - bs')) (slice as' ae' after)) b
           else
             (case region_matches before after bs' be' as' ae' of
                m # ms \<Rightarrow> process_matches before after path b bs' be' as' ae' out' (m # ms)
              | [] \<Rightarrow>
                  (if be' - bs' = 1 \<and> ae' - as' = 1
                   then diff_value (before ! bs') (after ! as') (path @ [Idx (int out')]) b
                   else emit_operation (OSplice path (int out') (int (be' - bs')) (slice as' ae' after)) b)))))"
| "process_matches before after path b bs be as ae out [] =
     (if overflowed b then b else diff_region before after path b bs be as ae out)"
| "process_matches before after path b bs be as ae out ((bm, am) # ms) =
     (if overflowed b then b
      else let b1 = diff_region before after path b bs bm as am out;
               out1 = out + (am - as);
               b2 = (if same_value (before ! bm) (after ! am) then b1
                     else diff_value (before ! bm) (after ! am) (path @ [Idx (int out1)]) b1)
           in process_matches before after path b2 (bm + 1) be (am + 1) ae (out1 + 1) ms)"
  by pat_completeness auto

termination
  apply (relation "measures
    [case_sum
      (case_sum (\<lambda>(before, _). 8 * weight before + 2)
        (case_sum (\<lambda>(before, _). 8 * weight before + 1) (\<lambda>(before, _). 8 * weight before + 1)))
      (case_sum (\<lambda>(before, _). 8 * sum_list (map (\<lambda>kv. weight (snd kv)) before) + 3)
        (case_sum (\<lambda>(before, _, _, _, bs, be, _). 8 * region_weight before bs be + 7)
          (\<lambda>(before, _, _, _, bs, be, _, _, _, ms). matches_weight before bs be ms))),
     case_sum (\<lambda>_. 0) (case_sum (\<lambda>(_, after, _). length after) (\<lambda>_. 0))]")
  apply (auto simp del: matches_weight.simps)
  subgoal for before after using region_weight_elements [of before] by simp
  subgoal for before after using weight_fields [of before] by simp
  subgoal for before key b v using weight_field [of before key v] by simp
  subgoal for before after b bs be as ae out bs' as' out' be' ae'
    using region_value_less [of before after bs be as ae out bs' as' out' be' ae'] by simp
  subgoal for before after b bs be as ae out bs' as' out' be' ae' bm am ms
    using region_matches_less [of before after bs be as ae out bs' as' out' be' ae' "(bm, am)" ms] by simp
     apply simp_all
  done

declare diff_value.simps [simp del] diff_array.simps [simp del] diff_object.simps [simp del]
  diff_region.simps [simp del]

section \<open>The size of a batch\<close>

text \<open>
  The text of a number, \<open>String(value)\<close>, is the decimal digits of an integer below \<open>10 ^ 21\<close>;
  \<open>len\<close> is the length the runtime's shortest text has for any other number.
\<close>

definition number_length :: "(jsnum \<Rightarrow> nat) \<Rightarrow> jsnum \<Rightarrow> nat" where
  "number_length len n =
     (case n of
        NInt i \<Rightarrow> (if \<bar>i\<bar> < 10 ^ 21 then length (seg_text (Idx i)) else len n)
      | NBits w \<Rightarrow> (if w = neg_zero then 1 else len n))"

fun json_cost :: "(jsnum \<Rightarrow> nat) \<Rightarrow> json \<Rightarrow> nat"
  and elements_cost :: "(jsnum \<Rightarrow> nat) \<Rightarrow> bool \<Rightarrow> json list \<Rightarrow> nat"
  and fields_cost :: "(jsnum \<Rightarrow> nat) \<Rightarrow> bool \<Rightarrow> (jsstr \<times> json) list \<Rightarrow> nat" where
  "json_cost len JNull = 4"
| "json_cost len (JStr s) = length s + 2"
| "json_cost len (JNum n) = number_length len n"
| "json_cost len (JBool b) = (if b then 4 else 5)"
| "json_cost len (JArr _ xs) = 2 + elements_cost len True xs"
| "json_cost len (JObj _ kvs) = 2 + fields_cost len True kvs"
| "elements_cost len first [] = 0"
| "elements_cost len first (v # vs) =
     json_cost len v + (if first then 0 else 1) + elements_cost len False vs"
| "fields_cost len first [] = 0"
| "fields_cost len first ((key, v) # kvs) =
     length key + 3 + json_cost len v + (if first then 0 else 1) + fields_cost len False kvs"

definition segment_cost :: "(jsnum \<Rightarrow> nat) \<Rightarrow> seg \<Rightarrow> nat" where
  "segment_cost len s = (case s of Key k \<Rightarrow> length k + 2 | Idx i \<Rightarrow> number_length len (NInt i))"

fun segments_cost :: "(jsnum \<Rightarrow> nat) \<Rightarrow> bool \<Rightarrow> path \<Rightarrow> nat" where
  "segments_cost len first [] = 0"
| "segments_cost len first (s # p) =
     segment_cost len s + (if first then 0 else 1) + segments_cost len False p"

definition path_cost :: "(jsnum \<Rightarrow> nat) \<Rightarrow> path \<Rightarrow> nat" where
  "path_cost len p = 2 + segments_cost len True p"

fun operation_cost :: "(jsnum \<Rightarrow> nat) \<Rightarrow> op \<Rightarrow> nat" where
  "operation_cost len (OReplace v) = 6 + json_cost len v"
| "operation_cost len (OSet p v) = 7 + path_cost len p + json_cost len v"
| "operation_cost len (ODelete p) = 6 + path_cost len p"
| "operation_cost len (OAppend p s) = 7 + path_cost len p + length s + 2"
| "operation_cost len (OTruncate p n) = 7 + path_cost len p + number_length len (NInt n)"
| "operation_cost len (OSplice p i r items) =
     10 + path_cost len p + number_length len (NInt i) + number_length len (NInt r) +
     (2 + elements_cost len True items)"
| "operation_cost len (OPermute p perm) =
     7 + path_cost len p + (2 + elements_cost len True (map (\<lambda>i. JNum (NInt i)) perm))"

definition snapshot_limit :: nat where
  "snapshot_limit = 65536"

definition diff_revisions :: "(jsnum \<Rightarrow> nat) \<Rightarrow> json \<Rightarrow> json \<Rightarrow> op list" where
  "diff_revisions len before after =
     (let b = diff_value before after [] \<lparr>batch_ops = [], overflowed = False\<rparr>;
          operations = batch_ops b
      in if overflowed b then [OReplace after]
         else if operations = [] \<or> is_replace (hd operations) then operations
         else let delta_cost = 2 + sum_list (map (\<lambda>op. operation_cost len op + 1) operations)
              in if delta_cost < snapshot_limit then operations
                 else let snapshot_cost = json_cost len after + 6
                      in if snapshot_cost \<le> delta_cost then [OReplace after] else operations)"

end
