(* ===== verification/Places.thy ===== *)
theory Places
  imports Prelude
begin

text \<open>
  Places inside a nested value. A container type gives its children by segment and can hold another
  child in an occupied place; the laws of that interface carry over to whole paths, for every
  container type that has them.
\<close>

section \<open>Paths\<close>

fun lookup_path :: "('s \<Rightarrow> 'a \<Rightarrow> 'a option) \<Rightarrow> 's list \<Rightarrow> 'a \<Rightarrow> 'a option" where
  "lookup_path get [] x = Some x"
| "lookup_path get (s # p) x = (case get s x of None \<Rightarrow> None | Some c \<Rightarrow> lookup_path get p c)"

fun put_path :: "('s \<Rightarrow> 'a \<Rightarrow> 'a option) \<Rightarrow> ('s \<Rightarrow> 'a \<Rightarrow> 'a \<Rightarrow> 'a) \<Rightarrow> 's list \<Rightarrow> 'a \<Rightarrow> 'a \<Rightarrow> 'a" where
  "put_path get put [] y x = y"
| "put_path get put (s # p) y x =
     (case get s x of None \<Rightarrow> x | Some c \<Rightarrow> put s (put_path get put p y c) x)"

lemma lookup_path_append:
  "lookup_path get (p @ q) x =
   (case lookup_path get p x of None \<Rightarrow> None | Some c \<Rightarrow> lookup_path get q c)"
  by (induction p arbitrary: x) (auto split: option.split)

lemma put_path_append:
  "lookup_path get p x = Some c \<Longrightarrow>
   put_path get put (p @ q) y x = put_path get put p (put_path get put q y c) x"
  by (induction p arbitrary: x) (auto split: option.splits)

section \<open>The interface\<close>

locale places =
  fixes get :: "'s \<Rightarrow> 'a \<Rightarrow> 'a option"
    and put :: "'s \<Rightarrow> 'a \<Rightarrow> 'a \<Rightarrow> 'a"
  assumes get_put: "get s x = Some c \<Longrightarrow> get s (put s d x) = Some d"
    and put_put: "get s x = Some c \<Longrightarrow> put s e (put s d x) = put s e x"
    and put_get: "get s x = Some c \<Longrightarrow> put s c x = x"
begin

lemma lookup_put: "lookup_path get p x = Some c \<Longrightarrow> lookup_path get p (put_path get put p d x) = Some d"
  by (induction p arbitrary: x) (auto simp: get_put split: option.splits)

lemma put_put_path:
  "lookup_path get p x = Some c \<Longrightarrow>
   put_path get put p e (put_path get put p d x) = put_path get put p e x"
  by (induction p arbitrary: x) (auto simp: get_put put_put split: option.splits)

lemma put_lookup: "lookup_path get p x = Some c \<Longrightarrow> put_path get put p c x = x"
  by (induction p arbitrary: x) (auto simp: put_get split: option.splits)

end

end
