(* ===== verification/Kinds.thy ===== *)
theory Kinds
  imports DeltaSpec Places
begin

text \<open>
  Paths that fit the value they are applied to: an index names an element of an array, a string a
  property of an object. The tracker and the differ only make such paths. On them two different
  segments of one container are two different places, which the pending queue relies on when it moves
  a write over others. The runs below are those of \<open>DeltaSpec\<close> in which every path fits.
\<close>

section \<open>Children of abstract values\<close>

fun child :: "seg \<Rightarrow> aval \<Rightarrow> aval option" where
  "child (Idx i) (AArr xs) = (if 0 \<le> i \<and> i < int (length xs) then Some (xs ! nat i) else None)"
| "child s (AObj m) = fmlookup m (seg_text s)"
| "child _ _ = None"

fun put_child :: "seg \<Rightarrow> aval \<Rightarrow> aval \<Rightarrow> aval" where
  "put_child (Idx i) v (AArr xs) = AArr (xs[nat i := v])"
| "put_child s v (AObj m) = AObj (fmupd (seg_text s) v m)"
| "put_child _ _ x = x"

interpretation aval_places: places child put_child
proof
  fix s x c d e
  assume c: "child s x = Some c"
  show "child s (put_child s d x) = Some d"
    using c by (cases x; cases s) (auto split: if_splits)
  show "put_child s e (put_child s d x) = put_child s e x"
    using c by (cases x; cases s) (auto simp: fmap_ext)
  show "put_child s c x = x"
    using c by (cases x; cases s) (auto split: if_splits intro!: fmap_ext)
qed

lemma alter_child:
  assumes "child s x = Some c" "f (Some c) = Some (Some d)"
  shows "alter s f x = Some (put_child s d x)"
  using assms by (cases x; cases s) (auto simp: alter_array_def alter_object_def split: if_splits)

section \<open>Fitting paths\<close>

fun kinded :: "seg \<Rightarrow> aval \<Rightarrow> bool" where
  "kinded (Idx _) (AArr _) = True"
| "kinded (Key _) (AObj _) = True"
| "kinded _ _ = False"

definition kinded_child :: "seg \<Rightarrow> aval \<Rightarrow> aval option" where
  "kinded_child s x = (if kinded s x then child s x else None)"

fun kinded_path :: "path \<Rightarrow> (aval option \<Rightarrow> aval option option) \<Rightarrow> aval option \<Rightarrow> aval option option" where
  "kinded_path [] f = f"
| "kinded_path (s # p) f =
     (\<lambda>x. case x of
        None \<Rightarrow> None
      | Some c \<Rightarrow> if kinded s c then map_option Some (alter s (kinded_path p f) c) else None)"

definition kinded_meaning :: "op \<Rightarrow> aval option \<Rightarrow> aval option option" where
  "kinded_meaning op x = (if valid_op op then kinded_path (op_path op) (effect op) x else None)"

fun kinded_run :: "op list \<Rightarrow> aval option \<Rightarrow> aval option option" where
  "kinded_run [] x = Some x"
| "kinded_run (op # ops) x = (case kinded_meaning op x of None \<Rightarrow> None | Some y \<Rightarrow> kinded_run ops y)"

abbreviation kinded_at :: "path \<Rightarrow> aval \<Rightarrow> aval option" where
  "kinded_at \<equiv> lookup_path kinded_child"

abbreviation kinded_put :: "path \<Rightarrow> aval \<Rightarrow> aval \<Rightarrow> aval" where
  "kinded_put \<equiv> put_path kinded_child put_child"

lemma kinded_put_child [simp]: "kinded s (put_child t v x) = kinded s x"
  by (cases x; cases t; cases s) auto

interpretation kinded_places: places kinded_child put_child
  using aval_places.get_put aval_places.put_put aval_places.put_get
  by unfold_locales (auto simp: kinded_child_def split: if_splits)

lemma kinded_run_append:
  "kinded_run (ops @ ops') x = (case kinded_run ops x of None \<Rightarrow> None | Some y \<Rightarrow> kinded_run ops' y)"
  by (induction ops arbitrary: x) (auto split: option.splits)

lemma kinded_path_at:
  "kinded_at p x = Some v \<Longrightarrow> f (Some v) = Some (Some w) \<Longrightarrow>
   kinded_path p f (Some x) = Some (Some (kinded_put p w x))"
proof (induction p arbitrary: x)
  case (Cons s p)
  then obtain c where c: "kinded_child s x = Some c" "kinded_at p c = Some v" by (auto split: option.splits)
  with alter_child [of s x c "kinded_path p f"] Cons.IH [OF c(2) Cons.prems(2)] show ?case
    by (simp add: kinded_child_def split: if_splits)
qed simp

lemma kinded_path_append: "kinded_path (p @ q) f = kinded_path p (kinded_path q f)"
  by (induction p) (auto intro!: ext split: option.split)

section \<open>Such runs are runs\<close>

lemma alter_parts_mono:
  assumes "\<And>x y. F x = Some y \<Longrightarrow> G x = Some y"
  shows "alter_array F xs n = Some ys \<Longrightarrow> alter_array G xs n = Some ys"
    and "alter_object F m k = Some m' \<Longrightarrow> alter_object G m k = Some m'"
proof -
  show "alter_array F xs n = Some ys \<Longrightarrow> alter_array G xs n = Some ys"
    using assms [of "Some (xs ! n)"] assms [of None]
    by (cases "F (Some (xs ! n))"; cases "F None") (auto simp: alter_array_def split: if_splits)
  show "alter_object F m k = Some m' \<Longrightarrow> alter_object G m k = Some m'"
    using assms [of "fmlookup m k"] by (cases "F (fmlookup m k)") (auto simp: alter_object_def)
qed

lemma alter_mono:
  assumes "\<And>x y. F x = Some y \<Longrightarrow> G x = Some y" "alter s F c = Some d"
  shows "alter s G c = Some d"
  using assms(2) alter_parts_mono [of F G, OF assms(1)]
  by (cases c; cases s) (auto split: if_splits)

lemma kinded_path_alter: "kinded_path p f x = Some y \<Longrightarrow> alter_path p f x = Some y"
proof (induction p arbitrary: x y)
  case (Cons s p)
  then obtain c d where c: "x = Some c" "alter s (kinded_path p f) c = Some d" "y = Some d"
    by (auto split: option.splits if_splits)
  from alter_mono [OF Cons.IH c(2)] c show ?case by simp
qed simp

lemma kinded_run_ops: "kinded_run ops x = Some y \<Longrightarrow> run_ops ops x = Some y"
  by (induction ops arbitrary: x) (auto simp: kinded_meaning_def meaning_def dest: kinded_path_alter split: option.splits if_splits)

lemma kinded_run_valid: "kinded_run ops x = Some y \<Longrightarrow> list_all valid_op ops"
  by (induction ops arbitrary: x) (auto simp: kinded_meaning_def split: option.splits if_splits)

section \<open>Places are independent\<close>

fun primitive :: "aval \<Rightarrow> bool" where
  "primitive (AArr _) = False"
| "primitive (AObj _) = False"
| "primitive _ = True"

lemma kinded_primitive: "primitive x \<Longrightarrow> \<not> kinded s x"
  by (cases x; cases s) auto

text \<open>Altering one place of a container, without removing it, leaves its other children alone.\<close>

lemma alter_array_other:
  assumes "alter_array F xs n = Some ys" "m \<noteq> n" "m < length xs" "\<And>o'. F o' \<noteq> Some None"
  shows "m < length ys" "ys ! m = xs ! m" "alter_array F (xs[m := w]) n = Some (ys[m := w])"
  using assms
  by (auto simp: alter_array_def nth_append list_update_append list_update_swap split: if_splits option.splits)

lemma alter_object_other:
  assumes "alter_object F m l = Some m'" "k \<noteq> l" "\<And>o'. F o' \<noteq> Some None"
  shows "fmlookup m' k = fmlookup m k" "alter_object F (fmupd k w m) l = Some (fmupd k w m')"
  using assms by (auto simp: alter_object_def fmupd_reorder_neq split: option.splits)

lemma alter_other_child:
  assumes "kinded t x" "s \<noteq> t" "kinded_child s x = Some c"
    and "alter t F x = Some y" "\<And>o'. F o' \<noteq> Some None"
  shows "kinded_child s y = Some c \<and> alter t F (put_child s w x) = Some (put_child s w y)"
proof (cases x)
  case (AArr xs)
  with assms(1,3) obtain i j where ij: "s = Idx i" "t = Idx j"
    by (cases s; cases t) (auto simp: kinded_child_def)
  with AArr assms(2-4) have "0 \<le> i" "nat i < length xs" "xs ! nat i = c" "0 \<le> j" "nat i \<noteq> nat j"
    by (auto simp: kinded_child_def split: if_splits)
  moreover obtain ys where "alter_array F xs (nat j) = Some ys" "y = AArr ys"
    using assms(4) AArr ij by (auto split: if_splits)
  ultimately show ?thesis
    using AArr ij alter_array_other [of F xs "nat j" ys "nat i", OF _ _ _ assms(5)]
    by (simp add: kinded_child_def)
next
  case (AObj m)
  with assms(1,3) obtain k l where kl: "s = Key k" "t = Key l"
    by (cases s; cases t) (auto simp: kinded_child_def)
  with AObj assms(4) obtain m' where "alter_object F m l = Some m'" "y = AObj m'" by auto
  with AObj kl assms(2,3) alter_object_other [of F m l m' k, OF _ _ assms(5)] show ?thesis
    by (simp add: kinded_child_def)
qed (use assms(1) in \<open>cases t; simp\<close>)+

lemma alter_kinded:
  assumes "kinded s x" "alter s F x = Some y" "\<And>o'. F o' \<noteq> Some None"
  obtains d where "F (kinded_child s x) = Some (Some d)" "kinded_child s y = Some d"
    "\<And>G d'. G (kinded_child s x) = Some (Some d') \<Longrightarrow> alter s G x = Some (put_child s d' y)"
proof (cases x)
  case (AArr xs)
  with assms(1) obtain i where s: "s = Idx i" by (cases s) auto
  with AArr assms(2) obtain ys where i: "0 \<le> i" "alter_array F xs (nat i) = Some ys" "y = AArr ys"
    by (auto split: if_splits)
  let ?n = "nat i"
  obtain d where d: "F (if ?n < length xs then Some (xs ! ?n) else None) = Some (Some d)" "?n \<le> length xs"
      "ys = (if ?n < length xs then xs[?n := d] else xs @ [d])"
    using i(2) assms(3) by (auto simp: alter_array_def split: if_splits option.splits)
  have c: "kinded_child s x = (if ?n < length xs then Some (xs ! ?n) else None)"
    using AArr s i(1) by (auto simp: kinded_child_def)
  have "alter s G x = Some (put_child s d' y)" if "G (kinded_child s x) = Some (Some d')" for G d'
    using that AArr s i(1,3) d(2,3) unfolding c by (auto simp: alter_array_def list_update_append split: if_splits)
  moreover have "kinded_child s y = Some d"
    using s i(1,3) d(2,3) by (auto simp: kinded_child_def nth_append)
  ultimately show ?thesis using that d(1) c by simp
next
  case (AObj m)
  with assms(1) obtain k where s: "s = Key k" by (cases s) auto
  with AObj assms(2,3) obtain d where d: "F (fmlookup m k) = Some (Some d)" "y = AObj (fmupd k d m)"
    by (auto simp: alter_object_def split: option.splits)
  with AObj s that [of d] show ?thesis by (simp add: kinded_child_def alter_object_def)
qed (use assms(1) in \<open>cases s; simp\<close>)+

section \<open>Writes of primitives\<close>

text \<open>A leaf write puts a primitive, or refuses.\<close>

definition leaf_effect :: "(aval option \<Rightarrow> aval option option) \<Rightarrow> bool" where
  "leaf_effect f \<longleftrightarrow> (\<forall>x y. f x = Some y \<longrightarrow> (\<exists>v. y = Some v \<and> primitive v))"

lemma kinded_path_keeps: "leaf_effect f \<Longrightarrow> kinded_path p f x \<noteq> Some None"
  by (cases p) (auto simp: leaf_effect_def split: option.split)

lemma kinded_path_Cons:
  assumes "leaf_effect f" "kinded_path (s # p) f (Some x) = Some (Some y)"
  obtains d where "kinded s x" "kinded_path p f (kinded_child s x) = Some (Some d)" "kinded_child s y = Some d"
    "\<And>G d'. G (kinded_child s x) = Some (Some d') \<Longrightarrow> alter s G x = Some (put_child s d' y)"
proof -
  from assms(2) have k: "kinded s x" "alter s (kinded_path p f) x = Some y" by (auto split: if_splits)
  from alter_kinded [OF k kinded_path_keeps [OF assms(1)]] that k(1) show ?thesis by blast
qed

text \<open>A place is blocked when a primitive sits on the way to it; leaf writes never unblock it.\<close>

fun blocked :: "path \<Rightarrow> aval \<Rightarrow> bool" where
  "blocked [] x = False"
| "blocked (s # p) x \<longleftrightarrow>
     primitive x \<or> (case kinded_child s x of None \<Rightarrow> False | Some c \<Rightarrow> blocked p c)"

lemma blocked_fails: "blocked p x \<Longrightarrow> leaf_effect f \<Longrightarrow> kinded_path p f (Some x) = None"
proof (induction p arbitrary: x)
  case (Cons s p)
  show ?case
  proof (rule ccontr)
    assume "kinded_path (s # p) f (Some x) \<noteq> None"
    then obtain y where "kinded_path (s # p) f (Some x) = Some (Some y)"
      using kinded_path_keeps [OF Cons.prems(2)] by (metis not_Some_eq)
    then show False
      using Cons kinded_primitive [of x s] by (elim kinded_path_Cons [OF Cons.prems(2)]) (auto split: option.splits)
  qed
qed simp

lemma blocked_stays:
  assumes "leaf_effect f"
  shows "blocked p x \<Longrightarrow> kinded_path q f (Some x) = Some (Some y) \<Longrightarrow> blocked p y"
proof (induction p arbitrary: q x y)
  case (Cons s p)
  show ?case
  proof (cases q)
    case Nil
    with Cons.prems(2) assms show ?thesis by (auto simp: leaf_effect_def)
  next
    case (Cons t q')
    from Cons.prems(2) [unfolded Cons] obtain d where d: "kinded t x"
        "kinded_path q' f (kinded_child t x) = Some (Some d)" "kinded_child t y = Some d"
      by (rule kinded_path_Cons [OF assms])
    with Cons.prems(1) kinded_primitive [of x t] obtain c where c: "kinded_child s x = Some c" "blocked p c"
      by (auto split: option.splits)
    show ?thesis
    proof (cases "s = t")
      case True
      with c d Cons.IH [of c q' d] show ?thesis by simp
    next
      case False
      have "alter t (kinded_path q' f) x = Some y" using Cons.prems(2) Cons d(1) by simp
      from alter_other_child [OF d(1) False c(1) this kinded_path_keeps [OF assms]] c(2) show ?thesis by simp
    qed
  qed
qed simp

lemma leaf_commutes:
  assumes "leaf_effect f"
  shows "p \<noteq> q \<Longrightarrow> kinded_at p x = Some v \<Longrightarrow> primitive v \<Longrightarrow> kinded_path q f (Some x) = Some (Some y) \<Longrightarrow>
    \<not> blocked p y \<Longrightarrow>
    kinded_at p y = Some v \<and> kinded_path q f (Some (kinded_put p w x)) = Some (Some (kinded_put p w y))"
proof (induction p arbitrary: q x y)
  case Nil
  then obtain t q' where "q = t # q'" by (cases q) auto
  with Nil kinded_primitive [of x t] show ?case by simp
next
  case (Cons s p)
  then obtain t q' where q: "q = t # q'"
    using assms by (cases q) (auto simp: leaf_effect_def)
  from Cons.prems(2) obtain c where c: "kinded_child s x = Some c" "kinded_at p c = Some v"
    by (auto split: option.splits)
  from Cons.prems(4) [unfolded q] obtain d where d: "kinded t x"
      "kinded_path q' f (kinded_child t x) = Some (Some d)" "kinded_child t y = Some d"
    by (rule kinded_path_Cons [OF assms])
  show ?case
  proof (cases "s = t")
    case True
    with Cons.prems c d q have IH: "kinded_at p d = Some v"
      "kinded_path q' f (Some (kinded_put p w c)) = Some (Some (kinded_put p w d))"
      using Cons.IH [of q' c d] by auto
    let ?c = "kinded_put p w c" and ?d = "kinded_put p w d"
    have x: "kinded_child t (put_child t ?c x) = Some ?c" using c True kinded_places.get_put by simp
    have "alter t (kinded_path q' f) (put_child t ?c x) = Some (put_child t ?d (put_child t ?c x))"
      using alter_child [of t "put_child t ?c x" ?c] x IH(2) by (simp add: kinded_child_def split: if_splits)
    moreover have "put_child t ?d (put_child t ?c x) = put_child t ?d y"
    proof -
      have "y = put_child t d x"
        using alter_child [of t x c "kinded_path q' f" d] c d(1,2) True Cons.prems(4) q
        by (simp add: kinded_child_def split: if_splits)
      then show ?thesis using c True kinded_places.put_put by simp
    qed
    ultimately show ?thesis using IH(1) True c d q by simp
  next
    case False
    have "alter t (kinded_path q' f) x = Some y" using Cons.prems(4) q d(1) by simp
    note other = alter_other_child [OF d(1) False c(1) this kinded_path_keeps [OF assms]]
    from other [of "kinded_put p w c"] c d(1) q show ?thesis by simp
  qed
qed

text \<open>Two writes at one place are one write there.\<close>

lemma leaf_composes:
  assumes "leaf_effect f" "\<And>z v. f z = Some (Some v) \<Longrightarrow> g z = Some (Some (h v))"
  shows "kinded_path p f (Some x) = Some (Some y) \<Longrightarrow>
    \<exists>z v. f z = Some (Some v) \<and> primitive v \<and> kinded_at p y = Some v \<and> kinded_path p g (Some x) = Some (Some (kinded_put p (h v) y))"
proof -
  have gen: "kinded_path p f z0 = Some (Some y) \<Longrightarrow>
    \<exists>z v. f z = Some (Some v) \<and> primitive v \<and> kinded_at p y = Some v \<and> kinded_path p g z0 = Some (Some (kinded_put p (h v) y))" for z0
  proof (induction p arbitrary: z0 y)
    case Nil
    with assms show ?case by (auto simp: leaf_effect_def)
  next
    case (Cons s p)
    then obtain x where z: "z0 = Some x" by (cases z0) auto
    from Cons.prems [unfolded z] obtain d where d: "kinded s x"
        "kinded_path p f (kinded_child s x) = Some (Some d)" "kinded_child s y = Some d"
      and put: "\<And>G d'. G (kinded_child s x) = Some (Some d') \<Longrightarrow> alter s G x = Some (put_child s d' y)"
      using kinded_path_Cons [OF assms(1)] by metis
    from Cons.IH [OF d(2)] d put z show ?case by fastforce
  qed
  then show "kinded_path p f (Some x) = Some (Some y) \<Longrightarrow>
    \<exists>z v. f z = Some (Some v) \<and> primitive v \<and> kinded_at p y = Some v \<and> kinded_path p g (Some x) = Some (Some (kinded_put p (h v) y))" .
qed

end
