(* ===== verification/DeltaTurns.thy ===== *)
theory DeltaTurns
  imports DeltaMatch Kinds
begin

text \<open>
  What a run of operations does at one place of a value: \<open>turns path new x y\<close> says that the operations
  \<open>new\<close>, whose paths fit, turn the value \<open>x\<close> at \<open>path\<close> into \<open>y\<close> and touch nothing else, whatever the
  value around it.
\<close>

section \<open>Turning the value at a place\<close>

definition turns :: "path \<Rightarrow> op list \<Rightarrow> aval \<Rightarrow> aval \<Rightarrow> bool" where
  "turns p new x y \<longleftrightarrow>
     (\<forall>root. kinded_at p root = Some x \<longrightarrow> kinded_run new (Some root) = Some (Some (kinded_put p y root)))"

lemma turns_Nil [simp]: "turns p [] x x"
  by (simp add: turns_def kinded_places.put_lookup)

lemma turns_append:
  assumes "turns p new x y" "turns p new' y z"
  shows "turns p (new @ new') x z"
  unfolding turns_def
proof (intro allI impI)
  fix root assume r: "kinded_at p root = Some x"
  have "kinded_at p (kinded_put p y root) = Some y" by (rule kinded_places.lookup_put [OF r])
  with assms r show "kinded_run (new @ new') (Some root) = Some (Some (kinded_put p z root))"
    by (simp add: turns_def kinded_run_append kinded_places.put_put_path)
qed

text \<open>One operation whose path is \<open>p\<close> followed by \<open>q\<close> alters the value at \<open>p\<close>.\<close>

lemma turns_op:
  assumes "valid_op op" "op_path op = p @ q" "kinded_path q (effect op) (Some x) = Some (Some y)"
  shows "turns p [op] x y"
  using assms by (simp add: turns_def kinded_meaning_def kinded_path_append kinded_path_at)

lemma turns_child:
  assumes "kinded_child s x = Some c" "turns (p @ [s]) new c d"
  shows "turns p new x (put_child s d x)"
  unfolding turns_def
proof (intro allI impI)
  fix root assume r: "kinded_at p root = Some x"
  have "kinded_at (p @ [s]) root = Some c" using r assms(1) by (simp add: lookup_path_append)
  with assms r show "kinded_run new (Some root) = Some (Some (kinded_put p (put_child s d x) root))"
    by (simp add: turns_def put_path_append)
qed

lemma turns_element:
  assumes "turns (p @ [Idx (int n)]) new x y" "length pre = n"
  shows "turns p new (AArr (pre @ x # post)) (AArr (pre @ y # post))"
  using turns_child [of "Idx (int n)" "AArr (pre @ x # post)" x p new y] assms
  by (auto simp: kinded_child_def nth_append list_update_append)

lemma turns_field:
  assumes "turns (p @ [Key k]) new x y" "fmlookup m k = Some x"
  shows "turns p new (AObj m) (AObj (fmupd k y m))"
  using turns_child [of "Key k" "AObj m" x p new y] assms
  by (simp add: kinded_child_def)

section \<open>Operations on safe paths\<close>

lemma safe_snoc [simp]:
  "(\<forall>s \<in> set (p @ [s']). safe_seg s) \<longleftrightarrow> (\<forall>s \<in> set p. safe_seg s) \<and> safe_seg s'"
  by auto

lemma valid_op_path_op:
  assumes "\<forall>s \<in> set p. safe_seg s" "p \<noteq> []"
  shows "valid_op (OSet p v)" "valid_op (ODelete p)" "valid_op (OAppend p t)"
    "0 \<le> n \<Longrightarrow> valid_op (OTruncate p n)"
  using assms by (auto simp: valid_op_def assert_path_arg_def assert_safe_path_iff)

lemma valid_op_array:
  assumes "\<forall>s \<in> set p. safe_seg s"
  shows "0 \<le> i \<Longrightarrow> 0 \<le> r \<Longrightarrow> valid_op (OSplice p i r items)"
    "assert_permutation perm = Inr () \<Longrightarrow> valid_op (OPermute p perm)"
  using assms [folded assert_safe_path_iff] by (auto simp: valid_op_def assert_path_arg_def)

lemma turns_set:
  assumes "\<forall>s \<in> set p. safe_seg s"
  shows "turns p [if p = [] then OReplace v else OSet p v] x (norm v)"
  using assms by (intro turns_op [where q = "[]"]) (auto simp: valid_op_path_op, simp add: valid_op_def)

lemma turns_field_set:
  assumes "\<forall>s \<in> set p. safe_seg s" "safe_seg (Key k)"
  shows "turns p [OSet (p @ [Key k]) v] (AObj m) (AObj (fmupd k (norm v) m))"
  using assms by (intro turns_op [where q = "[Key k]"]) (auto simp: valid_op_path_op alter_object_def)

lemma turns_field_delete:
  assumes "\<forall>s \<in> set p. safe_seg s" "safe_seg (Key k)"
  shows "turns p [ODelete (p @ [Key k])] (AObj m) (AObj (fmdrop k m))"
  using assms by (intro turns_op [where q = "[Key k]"]) (auto simp: valid_op_path_op alter_object_def)

lemma turns_splice:
  assumes "\<forall>s \<in> set p. safe_seg s"
  shows "turns p [OSplice p (int (length pre)) (int (length mid)) items]
    (AArr (pre @ mid @ post)) (AArr (pre @ map norm items @ post))"
  using assms by (intro turns_op [where q = "[]"]) (auto simp: valid_op_array splice_at)

lemma turns_permute:
  assumes "\<forall>s \<in> set p. safe_seg s" "mset order = mset [0..<length xs]"
  shows "turns p [OPermute p (map int order)] (AArr xs) (AArr (map (\<lambda>i. xs ! i) order))"
proof -
  have "length order = length xs" using arg_cong [OF assms(2), of size] by simp
  with assms show ?thesis
    by (intro turns_op [where q = "[]"]) (auto simp: valid_op_array permutation_accepted)
qed

lemma turns_append_text:
  assumes "\<forall>s \<in> set p. safe_seg s" "p \<noteq> []"
  shows "turns p [OAppend p t] (AStr s) (AStr (s @ t))"
  using assms by (intro turns_op [where q = "[]"]) (auto simp: valid_op_path_op)

lemma turns_truncate:
  assumes "\<forall>s \<in> set p. safe_seg s" "p \<noteq> []"
  shows "turns p [OTruncate p (int n)] (AStr s) (AStr (drop n s))"
  using assms by (intro turns_op [where q = "[]"]) (auto simp: valid_op_path_op)

end
