(* ===== verification/DeltaRevisions.thy ===== *)
theory DeltaRevisions
  imports DeltaDiff DeltaTurns
begin

text \<open>
  The differ is right: the batch it computes from two revisions of one heap turns the first into the
  second, on every path through the search for matches, the overflow of a batch and the fallback to a
  replacement.
\<close>

section \<open>What a batch gained\<close>

text \<open>Unless it overflowed, \<open>b'\<close> is \<open>b\<close> followed by operations with the property \<open>P\<close>.\<close>

definition emits :: "batch \<Rightarrow> batch \<Rightarrow> (op list \<Rightarrow> bool) \<Rightarrow> bool" where
  "emits b b' P \<longleftrightarrow>
     (length (batch_ops b) \<le> max_delta_operations \<longrightarrow> length (batch_ops b') \<le> max_delta_operations) \<and>
     (\<not> overflowed b' \<longrightarrow> \<not> overflowed b \<and> (\<exists>new. batch_ops b' = batch_ops b @ new \<and> P new))"

lemma emits_none: "P [] \<Longrightarrow> emits b b P"
  by (simp add: emits_def)

lemma emits_overflowed: "overflowed b \<Longrightarrow> emits b b P"
  by (simp add: emits_def)

lemma emits_operation: "P [op] \<Longrightarrow> emits b (emit_operation op b) P"
  by (simp add: emits_def emit_operation_def)

lemma emits_then:
  assumes "emits b b1 P" "emits b1 b2 Q" "\<And>new new'. P new \<Longrightarrow> Q new' \<Longrightarrow> R (new @ new')"
  shows "emits b b2 R"
  using assms unfolding emits_def by fastforce

lemma emits_mono: "emits b b' P \<Longrightarrow> (\<And>new. P new \<Longrightarrow> Q new) \<Longrightarrow> emits b b' Q"
  unfolding emits_def by blast

text \<open>The operations gained turn \<open>x\<close> at \<open>path\<close> into \<open>y\<close>.\<close>

abbreviation emits_turn :: "path \<Rightarrow> batch \<Rightarrow> batch \<Rightarrow> aval \<Rightarrow> aval \<Rightarrow> bool" where
  "emits_turn path b b' x y \<equiv> emits b b' (\<lambda>new. turns path new x y)"

lemma emits_turn_then:
  "emits_turn path b b1 x y \<Longrightarrow> emits_turn path b1 b2 y z \<Longrightarrow> emits_turn path b b2 x z"
  by (erule (1) emits_then) (rule turns_append)

lemma emits_set:
  "\<forall>s \<in> set path. safe_seg s \<Longrightarrow> emits_turn path b (emit_set path v b) x (norm v)"
  using turns_set [of path v x] by (auto simp: emit_set_def intro: emits_operation)

lemma emits_string:
  assumes "\<forall>s \<in> set path. safe_seg s" "path \<noteq> []"
  shows "emits_turn path b (emit_string s t path b) (AStr s) (AStr t)"
proof -
  let ?n = "overlap s t default_overlap_scan overlap_probe overlap_candidates"
  note ov = overlap_sound [of s t default_overlap_scan overlap_probe overlap_candidates, OF refl]
  consider "s = t" | "s \<noteq> t" "length s < length t \<and> slice 0 (length s) t = s"
    | "s \<noteq> t" "\<not> (length s < length t \<and> slice 0 (length s) t = s)" "?n = 0"
    | "s \<noteq> t" "\<not> (length s < length t \<and> slice 0 (length s) t = s)" "?n \<noteq> 0"
    by blast
  then show ?thesis
  proof cases
    case 1
    then show ?thesis by (simp add: emit_string_def emits_none)
  next
    case 2
    then have "t = s @ slice (length s) (length t) t" by (simp add: slice_def) (metis append_take_drop_id)
    with turns_append_text [OF assms, of "slice (length s) (length t) t" s] 2 show ?thesis
      by (simp add: emit_string_def emits_operation)
  next
    case 3
    with turns_set [OF assms(1), of "JStr t" "AStr s"] assms(2) show ?thesis
      by (auto simp: emit_string_def intro: emits_operation)
  next
    case 4
    have trunc: "emits_turn path b (emit_operation (OTruncate path (int (length s - ?n))) b) (AStr s) (AStr (take ?n t))"
      using turns_truncate [OF assms, of "length s - ?n" s] ov by (auto intro: emits_operation)
    show ?thesis
    proof (cases "?n < length t")
      case True
      have "take ?n t @ slice ?n (length t) t = t" by (simp add: slice_def)
      with turns_append_text [OF assms, of "slice ?n (length t) t" "take ?n t"]
      have "emits_turn path b' (emit_operation (OAppend path (slice ?n (length t) t)) b') (AStr (take ?n t)) (AStr t)" for b'
        by (auto intro: emits_operation)
      from emits_turn_then [OF trunc this] True 4 show ?thesis
        by (auto simp: emit_string_def Let_def)
    next
      case False
      with ov trunc 4 show ?thesis by (auto simp: emit_string_def Let_def)
    qed
  qed
qed

section \<open>Two revisions of one heap\<close>

text \<open>
  The values inside the two revisions: closed under parts, with distinct keys, and equal as JSON
  values where the code takes them to be the same.
\<close>

definition revisions :: "json set \<Rightarrow> bool" where
  "revisions A \<longleftrightarrow>
     (\<forall>x \<in> A. \<forall>y \<in> A. same_value x y \<or> same_key x y \<longrightarrow> norm x = norm y) \<and>
     (\<forall>x \<in> A. set (elements x) \<subseteq> A \<and> snd ` set (props x) \<subseteq> A \<and> distinct (map fst (props x)))"

lemma revisionsD:
  assumes "revisions A"
  shows "x \<in> A \<Longrightarrow> y \<in> A \<Longrightarrow> same_value x y \<Longrightarrow> norm x = norm y"
    and "x \<in> A \<Longrightarrow> y \<in> A \<Longrightarrow> same_key x y \<Longrightarrow> norm x = norm y"
    and "x \<in> A \<Longrightarrow> y \<in> A \<Longrightarrow> strict_eq x y \<Longrightarrow> norm x = norm y"
    and "x \<in> A \<Longrightarrow> y \<in> A \<Longrightarrow> equal_json x y \<Longrightarrow> norm x = norm y"
    and "x \<in> A \<Longrightarrow> set (elements x) \<subseteq> A" "x \<in> A \<Longrightarrow> snd ` set (props x) \<subseteq> A"
    and "x \<in> A \<Longrightarrow> distinct (map fst (props x))"
  using assms unfolding revisions_def same_value_def by auto

lemma nan_norm: "is_nan m \<Longrightarrow> norm_num m = NBits quiet_nan"
  using not_nan_neg_zero by (auto simp: norm_num_def)

lemma same_key_norm: "(strict_eq x y \<Longrightarrow> norm x = norm y) \<Longrightarrow> same_key x y \<Longrightarrow> norm x = norm y"
  by (cases "(x, y)" rule: same_key.cases) (auto simp: nan_norm dest: num_eq_norm)

lemma revisions_subs:
  assumes "one_heap vs" "\<And>v. v \<in> set vs \<Longrightarrow> wf_json v"
  shows "revisions (set (concat (map subs vs)))" (is "revisions ?A")
proof -
  note heap = one_heap_closed [OF assms(1)]
  have wf: "wf_json x" if "x \<in> ?A" for x
    using that assms(2) wf_subs by (metis concat_set_mem)
  have "norm x = norm y" if "x \<in> ?A" "y \<in> ?A" "same_value x y \<or> same_key x y" for x y
    using that heap(1) same_key_norm equal_json_norm [OF assms(1)] wf unfolding same_value_def by metis
  moreover have "set (elements x) \<subseteq> ?A \<and> snd ` set (props x) \<subseteq> ?A \<and> distinct (map fst (props x))"
    if x: "x \<in> ?A" for x
  proof (cases x)
    case (JArr i xs)
    with x heap(2) show ?thesis by (auto simp del: set_concat)
  next
    case (JObj i kvs)
    with x heap(3) have "snd ` set kvs \<subseteq> ?A" by (auto simp del: set_concat)
    with wf [OF x] JObj show ?thesis by simp
  qed auto
  ultimately show ?thesis unfolding revisions_def by blast
qed

lemma nth_within: "set xs \<subseteq> A \<Longrightarrow> i < length xs \<Longrightarrow> xs ! i \<in> A"
  by auto

lemma trim_prefix_sound:
  assumes "revisions A"
  shows "trim_prefix before after bs be as ae out = (bs', as', out') \<Longrightarrow>
    be \<le> length before \<Longrightarrow> ae \<le> length after \<Longrightarrow> set before \<subseteq> A \<Longrightarrow> set after \<subseteq> A \<Longrightarrow>
    map norm (slice bs bs' before) = map norm (slice as as' after)"
proof (induction before after bs be as ae out rule: trim_prefix.induct)
  case (1 before after bs be as ae out)
  show ?case
  proof (cases "bs < be \<and> as < ae \<and> same_value (before ! bs) (after ! as)")
    case True
    with 1(2) have rec: "trim_prefix before after (Suc bs) be (Suc as) ae (Suc out) = (bs', as', out')"
      by (subst (asm) trim_prefix.simps) simp
    have lt: "bs < bs'" "as < as'" using trim_prefix_bounds [OF rec] by auto
    have "norm (before ! bs) = norm (after ! as)"
      using True 1(3,4) assms by (intro revisionsD(1) [OF assms] nth_within [OF 1(5)] nth_within [OF 1(6)]) auto
    with 1(1) [OF True rec 1(3-6)] True lt 1(3,4) show ?thesis by (simp add: slice_Cons)
  next
    case False
    with 1(2) show ?thesis by (subst (asm) trim_prefix.simps) auto
  qed
qed

lemma trim_suffix_sound:
  assumes "revisions A"
  shows "trim_suffix before after bs be as ae = (be', ae') \<Longrightarrow>
    be \<le> length before \<Longrightarrow> ae \<le> length after \<Longrightarrow> set before \<subseteq> A \<Longrightarrow> set after \<subseteq> A \<Longrightarrow>
    map norm (slice be' be before) = map norm (slice ae' ae after)"
proof (induction before after bs be as ae rule: trim_suffix.induct)
  case (1 before after bs be as ae)
  show ?case
  proof (cases "bs < be \<and> as < ae \<and> same_value (before ! (be - 1)) (after ! (ae - 1))")
    case True
    with 1(2) have rec: "trim_suffix before after bs (be - 1) as (ae - 1) = (be', ae')"
      by (subst (asm) trim_suffix.simps) simp
    have lt: "be' \<le> be - 1" "ae' \<le> ae - 1" using trim_suffix_bounds [OF rec] by auto
    have "norm (before ! (be - 1)) = norm (after ! (ae - 1))"
      using True 1(3,4) assms by (intro revisionsD(1) [OF assms] nth_within [OF 1(5)] nth_within [OF 1(6)]) auto
    moreover have "map norm (slice be' (be - 1) before) = map norm (slice ae' (ae - 1) after)"
      using 1(1) [OF True rec] 1(3-6) by simp
    moreover have "be - 1 < length before" "ae - 1 < length after" "Suc (be - 1) = be" "Suc (ae - 1) = ae"
      using True 1(3,4) by auto
    ultimately show ?thesis
      using slice_snoc [OF lt(1)] slice_snoc [OF lt(2)] by (metis list.simps(8,9) map_append)
  next
    case False
    with 1(2) show ?thesis by (subst (asm) trim_suffix.simps) auto
  qed
qed

section \<open>Properties of objects\<close>

definition fields_map :: "(jsstr \<times> json) list \<Rightarrow> (jsstr, aval) fmap" where
  "fields_map kvs = fmap_of_list (map (map_prod id norm) kvs)"

lemma fields_map_lookup: "fmlookup (fields_map kvs) k = map_option norm (map_of kvs k)"
  unfolding fields_map_def by (rule fmlookup_norm)

lemma fields_map_Cons:
  "map_of kvs k = None \<Longrightarrow> fmupd k (norm v) m ++\<^sub>f fields_map kvs = m ++\<^sub>f fields_map ((k, v) # kvs)"
  by (rule fmap_ext) (auto simp: fmlookup_add fields_map_lookup fmlookup_dom_iff split: if_splits)

lemma fields_merge:
  assumes "\<And>k. fmlookup m k = map_option norm (map_of before k)"
  shows "fmfilter (\<lambda>k. \<not> (k \<in> fst ` set before \<and> map_of after k = None)) (m ++\<^sub>f fields_map after) = fields_map after"
proof (rule fmap_ext)
  fix k
  have "map_of before k = None" if "k \<notin> fst ` set before" using that by (simp add: map_of_eq_None_iff)
  then show "fmlookup (fmfilter (\<lambda>k. \<not> (k \<in> fst ` set before \<and> map_of after k = None)) (m ++\<^sub>f fields_map after)) k
    = fmlookup (fields_map after) k"
    by (auto simp: fields_map_lookup assms fmlookup_dom_iff)
qed

lemma emit_deletes_turns:
  assumes "\<forall>s \<in> set path. safe_seg s"
  shows "\<forall>k \<in> set keys. safe_seg (Key k) \<Longrightarrow>
    emits b (emit_deletes keys after path b) (\<lambda>new. \<forall>m. turns path new (AObj m)
      (AObj (fmfilter (\<lambda>k. \<not> (k \<in> set keys \<and> map_of after k = None)) m)))"
proof (induction keys arbitrary: b)
  case Nil
  then show ?case by (simp add: emits_none)
next
  case (Cons key keys)
  let ?b = "if map_of after key = None then emit_operation (ODelete (path @ [Key key])) b else b"
  let ?drop = "\<lambda>m. if map_of after key = None then fmdrop key m else m"
  have first: "emits b ?b (\<lambda>new. \<forall>m. turns path new (AObj m) (AObj (?drop m)))"
    using turns_field_delete [OF assms] Cons.prems by (auto intro: emits_operation emits_none)
  have merge: "fmfilter (\<lambda>k. \<not> (k \<in> set keys \<and> map_of after k = None)) (?drop m)
      = fmfilter (\<lambda>k. \<not> (k \<in> set (key # keys) \<and> map_of after k = None)) m" for m
    by (rule fmap_ext) auto
  have rest: "emits ?b (emit_deletes keys after path ?b) (\<lambda>new. \<forall>m. turns path new (AObj m)
      (AObj (fmfilter (\<lambda>k. \<not> (k \<in> set keys \<and> map_of after k = None)) m)))"
    using Cons by simp
  have "emits b (emit_deletes keys after path ?b) (\<lambda>new. \<forall>m. turns path new (AObj m)
      (AObj (fmfilter (\<lambda>k. \<not> (k \<in> set (key # keys) \<and> map_of after k = None)) m)))"
  proof (rule emits_then [OF first rest], intro allI)
    fix new new' m
    assume n: "\<forall>m. turns path new (AObj m) (AObj (?drop m))"
      and n': "\<forall>m. turns path new' (AObj m) (AObj (fmfilter (\<lambda>k. \<not> (k \<in> set keys \<and> map_of after k = None)) m))"
    show "turns path (new @ new') (AObj m)
        (AObj (fmfilter (\<lambda>k. \<not> (k \<in> set (key # keys) \<and> map_of after k = None)) m))"
      using turns_append [OF n [rule_format, of m] n' [rule_format, of "?drop m"]] unfolding merge .
  qed
  then show ?case by (simp add: emits_overflowed)
qed

section \<open>Regions of arrays\<close>

text \<open>
  The operations gained turn one region of the array at \<open>path\<close>, from \<open>out\<close> on, into the new one,
  whatever surrounds it.
\<close>

definition emits_region ::
  "path \<Rightarrow> batch \<Rightarrow> batch \<Rightarrow> nat \<Rightarrow> aval list \<Rightarrow> aval list \<Rightarrow> bool" where
  "emits_region path b b' out xs ys \<longleftrightarrow>
     emits b b' (\<lambda>new. \<forall>pre post. length pre = out \<longrightarrow>
       turns path new (AArr (pre @ xs @ post)) (AArr (pre @ ys @ post)))"

lemma emits_region_same: "emits_region path b b out xs xs"
  by (simp add: emits_region_def emits_none)

lemma emits_region_overflowed: "overflowed b \<Longrightarrow> emits_region path b b out xs ys"
  by (simp add: emits_region_def emits_overflowed)

lemma emits_region_splice:
  assumes "\<forall>s \<in> set path. safe_seg s" "length xs = n"
  shows "emits_region path b (emit_operation (OSplice path (int out) (int n) items) b) out xs (map norm items)"
  unfolding emits_region_def using turns_splice [OF assms(1)] assms(2) by (auto intro!: emits_operation)

lemma emits_region_element:
  "emits_turn (path @ [Idx (int out)]) b b' x y \<Longrightarrow> emits_region path b b' out [x] [y]"
  unfolding emits_region_def by (erule emits_mono) (auto intro: turns_element)

lemma emits_region_append:
  assumes "emits_region path b b1 out xs ys" "emits_region path b1 b2 (out + length ys) xs' ys'"
  shows "emits_region path b b2 out (xs @ xs') (ys @ ys')"
  unfolding emits_region_def
proof (rule emits_then [OF assms [unfolded emits_region_def]], intro allI impI)
  fix new new' and pre post :: "aval list"
  assume n: "\<forall>pre post. length pre = out \<longrightarrow> turns path new (AArr (pre @ xs @ post)) (AArr (pre @ ys @ post))"
    and n': "\<forall>pre post. length pre = out + length ys \<longrightarrow>
      turns path new' (AArr (pre @ xs' @ post)) (AArr (pre @ ys' @ post))"
    and l: "length pre = out"
  from n l have "turns path new (AArr (pre @ xs @ xs' @ post)) (AArr (pre @ ys @ xs' @ post))" by blast
  moreover from n' l have "turns path new' (AArr ((pre @ ys) @ xs' @ post)) (AArr ((pre @ ys) @ ys' @ post))"
    by (metis length_append)
  ultimately show "turns path (new @ new') (AArr (pre @ (xs @ xs') @ post)) (AArr (pre @ (ys @ ys') @ post))"
    by (simp add: turns_append)
qed

lemma emits_region_trim:
  assumes "emits_region path b b' (out + length xs) ys zs"
  shows "emits_region path b b' out (xs @ ys @ post) (xs @ zs @ post)"
  using emits_region_append [OF emits_region_same
      emits_region_append [OF assms emits_region_same]] by blast

section \<open>The differ\<close>

lemma slice_single: "bs < length xs \<Longrightarrow> slice bs (Suc bs) xs = [xs ! bs]"
  using slice_snoc [of bs bs xs] by simp

lemma slice_at: "bs \<le> m \<Longrightarrow> m < be \<Longrightarrow> be \<le> length xs \<Longrightarrow>
  slice bs be xs = slice bs m xs @ xs ! m # slice (Suc m) be xs"
  by (metis Suc_leI less_le_trans slice_split slice_Cons less_imp_le)

lemma norm_array: "is_array v \<Longrightarrow> norm v = AArr (map norm (elements v))"
  by (cases v) auto

lemma norm_object: "is_container v \<Longrightarrow> \<not> is_array v \<Longrightarrow> norm v = AObj (fields_map (props v))"
  by (cases v) (auto simp: fields_map_def)

lemma norm_string: "is_string v \<Longrightarrow> norm v = AStr (text_of v)"
  by (cases v) auto

lemma emits_fields_step:
  assumes first: "emits b b1 (\<lambda>new. \<forall>m. fmlookup m key = map_option norm (map_of before key) \<longrightarrow>
      turns path new (AObj m) (AObj (fmupd key (norm v) m)))"
    and rest: "emits b1 b2 (\<lambda>new. \<forall>m. (\<forall>k \<in> fst ` set kvs. fmlookup m k = map_option norm (map_of before k)) \<longrightarrow>
      turns path new (AObj m) (AObj (m ++\<^sub>f fields_map kvs)))"
    and new_key: "key \<notin> fst ` set kvs"
  shows "emits b b2 (\<lambda>new. \<forall>m.
    (\<forall>k \<in> fst ` set ((key, v) # kvs). fmlookup m k = map_option norm (map_of before k)) \<longrightarrow>
    turns path new (AObj m) (AObj (m ++\<^sub>f fields_map ((key, v) # kvs))))"
proof (rule emits_then [OF first rest], intro allI impI)
  fix new new' m
  assume n: "\<forall>m. fmlookup m key = map_option norm (map_of before key) \<longrightarrow>
      turns path new (AObj m) (AObj (fmupd key (norm v) m))"
    and n': "\<forall>m. (\<forall>k \<in> fst ` set kvs. fmlookup m k = map_option norm (map_of before k)) \<longrightarrow>
      turns path new' (AObj m) (AObj (m ++\<^sub>f fields_map kvs))"
    and m: "\<forall>k \<in> fst ` set ((key, v) # kvs). fmlookup m k = map_option norm (map_of before k)"
  have "\<forall>k \<in> fst ` set kvs. fmlookup (fmupd key (norm v) m) k = map_option norm (map_of before k)"
    using m new_key by auto
  with n n' m have "turns path (new @ new') (AObj m) (AObj (fmupd key (norm v) m ++\<^sub>f fields_map kvs))"
    by (auto intro: turns_append)
  then show "turns path (new @ new') (AObj m) (AObj (m ++\<^sub>f fields_map ((key, v) # kvs)))"
    using fields_map_Cons [of kvs key v m] new_key by (simp add: map_of_eq_None_iff)
qed

lemma diff_region_eq:
  assumes "\<not> overflowed b" "trim_prefix before after bs be as ae out = (bs', as', out')"
    "trim_suffix before after bs' be as' ae = (be', ae')"
  shows "diff_region before after path b bs be as ae out =
    (if be' - bs' = 0 \<and> ae' - as' = 0 then b
     else if be' - bs' = 0 \<or> ae' - as' = 0
     then emit_operation (OSplice path (int out') (int (be' - bs')) (slice as' ae' after)) b
     else (case region_matches before after bs' be' as' ae' of
         m # ms \<Rightarrow> process_matches before after path b bs' be' as' ae' out' (m # ms)
       | [] \<Rightarrow>
           (if be' - bs' = 1 \<and> ae' - as' = 1
            then diff_value (before ! bs') (after ! as') (path @ [Idx (int out')]) b
            else emit_operation (OSplice path (int out') (int (be' - bs')) (slice as' ae' after)) b)))"
  using assms by (subst diff_region.simps) simp

lemma emits_region_trimmed:
  assumes A: "revisions A" "set xs \<subseteq> A" "set ys \<subseteq> A"
    and bounds: "bs \<le> be" "be \<le> length xs" "as \<le> ae" "ae \<le> length ys"
    and tp: "trim_prefix xs ys bs be as ae out = (bs', as', out')"
    and ts: "trim_suffix xs ys bs' be as' ae = (be', ae')"
    and r: "emits_region path b b' out' (map norm (slice bs' be' xs)) (map norm (slice as' ae' ys))"
  shows "emits_region path b b' out (map norm (slice bs be xs)) (map norm (slice as ae ys))"
proof -
  note p = trim_prefix_bounds [OF tp] and s = trim_suffix_bounds [OF ts]
  let ?pre = "map norm (slice bs bs' xs)" and ?post = "map norm (slice be' be xs)"
  have pre: "map norm (slice as as' ys) = ?pre"
    using trim_prefix_sound [OF A(1) tp] A bounds by simp
  have post: "map norm (slice ae' ae ys) = ?post"
    using trim_suffix_sound [OF A(1) ts] A bounds by simp
  have "length ?pre = bs' - bs" using p bounds by (auto simp: length_slice min_def)
  then have "out' = out + length ?pre" using p by linarith
  from emits_region_trim [OF r [unfolded this], of ?post]
  have "emits_region path b b' out (?pre @ map norm (slice bs' be' xs) @ ?post) (?pre @ map norm (slice as' ae' ys) @ ?post)" .
  moreover have "slice bs be xs = slice bs bs' xs @ slice bs' be' xs @ slice be' be xs"
    using p s bounds by (metis le_trans slice_split)
  moreover have "slice as ae ys = slice as as' ys @ slice as' ae' ys @ slice ae' ae ys"
    using p s bounds by (metis le_trans slice_split)
  ultimately show ?thesis by (simp add: pre post)
qed

lemma diff_sound:
  assumes A: "revisions A"
  shows "before \<in> A \<Longrightarrow> after \<in> A \<Longrightarrow> \<forall>s \<in> set path. safe_seg s \<Longrightarrow>
      emits_turn path b (diff_value before after path b) (norm before) (norm after)"
    and "before \<in> A \<Longrightarrow> after \<in> A \<Longrightarrow> \<forall>s \<in> set path. safe_seg s \<Longrightarrow> is_array before \<Longrightarrow> is_array after \<Longrightarrow>
      emits_turn path b (diff_array before after path b) (norm before) (norm after)"
    and "before \<in> A \<Longrightarrow> after \<in> A \<Longrightarrow> \<forall>s \<in> set path. safe_seg s \<Longrightarrow>
      is_container before \<Longrightarrow> \<not> is_array before \<Longrightarrow> is_container after \<Longrightarrow> \<not> is_array after \<Longrightarrow>
      emits_turn path b (diff_object before after path b) (norm before) (norm after)"
    and "snd ` set kvs \<subseteq> A \<Longrightarrow> snd ` set kvs' \<subseteq> A \<Longrightarrow> \<forall>s \<in> set path. safe_seg s \<Longrightarrow>
      distinct (map fst kvs') \<Longrightarrow> \<forall>k \<in> fst ` set kvs'. safe_seg (Key k) \<Longrightarrow>
      emits b (diff_fields kvs kvs' path b) (\<lambda>new. \<forall>m.
        (\<forall>k \<in> fst ` set kvs'. fmlookup m k = map_option norm (map_of kvs k)) \<longrightarrow>
        turns path new (AObj m) (AObj (m ++\<^sub>f fields_map kvs')))"
    and "set xs \<subseteq> A \<Longrightarrow> set ys \<subseteq> A \<Longrightarrow> \<forall>s \<in> set path. safe_seg s \<Longrightarrow>
      bs \<le> be \<Longrightarrow> be \<le> length xs \<Longrightarrow> as \<le> ae \<Longrightarrow> ae \<le> length ys \<Longrightarrow>
      emits_region path b (diff_region xs ys path b bs be as ae out) out
        (map norm (slice bs be xs)) (map norm (slice as ae ys))"
    and "set xs \<subseteq> A \<Longrightarrow> set ys \<subseteq> A \<Longrightarrow> \<forall>s \<in> set path. safe_seg s \<Longrightarrow>
      bs \<le> be \<Longrightarrow> be \<le> length xs \<Longrightarrow> as \<le> ae \<Longrightarrow> ae \<le> length ys \<Longrightarrow> valid_matches bs be as ae ms \<Longrightarrow>
      emits_region path b (process_matches xs ys path b bs be as ae out ms) out
        (map norm (slice bs be xs)) (map norm (slice as ae ys))"
proof (induction before after path b and before after path b and before after path b and kvs kvs' path b
    and xs ys path b bs be as ae out and xs ys path b bs be as ae out ms
    rule: diff_value_diff_array_diff_object_diff_fields_diff_region_process_matches.induct)
  case (1 before after path b)
  show ?case
  proof (cases "strict_eq before after \<or> overflowed b")
    case True
    with 1(3,4) revisionsD(3) [OF A] show ?thesis
      by (subst diff_value.simps) (auto intro: emits_none emits_overflowed)
  next
    case ne: False
    show ?thesis
    proof (cases "is_string before \<and> is_string after \<and> path \<noteq> []")
      case True
      with ne 1(5) show ?thesis
        by (subst diff_value.simps) (auto simp: norm_string emits_string)
    next
      case ns: False
      then show ?thesis
        using 1(1) [OF ne ns] 1(2) [OF ne ns] 1(3-5) ne
        by (subst diff_value.simps) (auto simp: emits_set)
    qed
  qed
next
  case (2 before after path b)
  show ?case
  proof (cases "strict_eq before after \<or> equal_json before after")
    case True
    with 2(2,3) revisionsD(3,4) [OF A] show ?thesis
      by (subst diff_array.simps) (auto intro: emits_none)
  next
    case ne: False
    let ?xs = "elements before" and ?ys = "elements after"
    have sub: "set ?xs \<subseteq> A" "set ?ys \<subseteq> A" using revisionsD(5) [OF A] 2(2,3) by auto
    show ?thesis
    proof (cases "array_order ?xs ?ys")
      case None
      from 2(1) [OF ne None sub 2(4)] have "emits_turn path b (diff_region ?xs ?ys path b 0 (length ?xs) 0 (length ?ys) 0)
          (AArr (map norm ?xs)) (AArr (map norm ?ys))"
        unfolding emits_region_def by (auto elim!: emits_mono dest!: spec [of _ "[]"])
      with ne None 2(5,6) show ?thesis by (subst diff_array.simps) (simp add: norm_array)
    next
      case (Some order)
      then have p: "permutation ?xs ?ys = Some order" by (simp add: array_order_def split: if_splits)
      note ps = permutation_sound [OF revisionsD(2) [OF A] sub p]
      have "map (\<lambda>i. map norm ?xs ! i) order = map norm ?ys"
        using ps mset_eq_setD [OF ps(1)] by (auto simp flip: ps(2))
      with turns_permute [OF 2(4), of order "map norm ?xs"] ps(1)
      have "turns path [OPermute path (map int order)] (norm before) (norm after)"
        using 2(5,6) by (simp add: norm_array)
      with ne Some show ?thesis by (subst diff_array.simps) (simp add: emits_operation)
    qed
  qed
next
  case (3 before after path b)
  show ?case
  proof (cases "list_ex (\<lambda>key. key \<in> set reserved_segments) (map fst (props before) @ map fst (props after))")
    case True
    with 3(2-4) revisionsD(4) [OF A] show ?thesis
      by (subst diff_object.simps) (simp add: emits_none emits_set)
  next
    case False
    then have keys: "\<forall>k \<in> fst ` set (props before). safe_seg (Key k)" "\<forall>k \<in> fst ` set (props after). safe_seg (Key k)"
      by (auto simp: list_ex_iff safe_seg_def)
    have "snd ` set (props before) \<subseteq> A" "snd ` set (props after) \<subseteq> A" "distinct (map fst (props after))"
      using revisionsD(6,7) [OF A] 3(2,3) by auto
    note fs = 3(1) [OF False this(1,2) 3(4) this(3) keys(2)]
    have "emits_turn path b (emit_deletes (map fst (props before)) (props after) path
        (diff_fields (props before) (props after) path b))
        (AObj (fields_map (props before))) (AObj (fields_map (props after)))"
    proof (rule emits_then [OF fs emit_deletes_turns [OF 3(4)]])
      fix new new'
      assume n: "\<forall>m. (\<forall>k \<in> fst ` set (props after). fmlookup m k = map_option norm (map_of (props before) k)) \<longrightarrow>
          turns path new (AObj m) (AObj (m ++\<^sub>f fields_map (props after)))"
        and n': "\<forall>m. turns path new' (AObj m)
          (AObj (fmfilter (\<lambda>k. \<not> (k \<in> set (map fst (props before)) \<and> map_of (props after) k = None)) m))"
      show "turns path (new @ new') (AObj (fields_map (props before))) (AObj (fields_map (props after)))"
        using turns_append [OF n [rule_format, OF fields_map_lookup] n' [rule_format]]
        unfolding set_map fields_merge [OF fields_map_lookup] .
    qed (use keys in simp)
    with False 3(5-8) show ?thesis by (subst diff_object.simps) (simp add: norm_object)
  qed
next
  case (4 before path b)
  show ?case by (simp add: emits_none fields_map_def)
next
  case (5 before key v kvs path b)
  have key: "safe_seg (Key key)" "key \<notin> fst ` set kvs" and path: "\<forall>s \<in> set (path @ [Key key]). safe_seg s"
    using 5(6-8) by auto
  have kvs: "snd ` set kvs \<subseteq> A" "distinct (map fst kvs)" "\<forall>k \<in> fst ` set kvs. safe_seg (Key k)" and v: "v \<in> A"
    using 5(5,7,8) by auto
  show ?case
  proof (cases "overflowed b")
    case True
    then show ?thesis by (simp add: emits_overflowed)
  next
    case ov: False
    show ?thesis
    proof (cases "map_of before key")
      case None
      have "emits b (emit_set (path @ [Key key]) v b) (\<lambda>new. \<forall>m. fmlookup m key = map_option norm (map_of before key) \<longrightarrow>
          turns path new (AObj m) (AObj (fmupd key (norm v) m)))"
        using turns_field_set [OF 5(6) key(1)] by (auto simp: emit_set_def intro!: emits_operation)
      from emits_fields_step [OF this 5(1) [OF ov None 5(4) kvs(1) 5(6) kvs(2,3)] key(2)] ov None
      show ?thesis by simp
    next
      case (Some w)
      with 5(4) have "w \<in> A" by (force dest: map_of_SomeD)
      from 5(2) [OF ov Some this v path]
      have "emits b (diff_value w v (path @ [Key key]) b) (\<lambda>new. \<forall>m. fmlookup m key = map_option norm (map_of before key) \<longrightarrow>
          turns path new (AObj m) (AObj (fmupd key (norm v) m)))"
        by (rule emits_mono) (auto intro: turns_field simp: Some)
      from emits_fields_step [OF this 5(3) [OF ov Some 5(4) kvs(1) 5(6) kvs(2,3)] key(2)] ov Some
      show ?thesis by simp
    qed
  qed
next
  case (6 before after path b bs be as ae out)
  show ?case
  proof (cases "overflowed b")
    case True
    then show ?thesis by (subst diff_region.simps) (simp add: emits_region_overflowed)
  next
    case ov: False
    obtain bs' as' out' where tp: "trim_prefix before after bs be as ae out = (bs', as', out')" by (metis prod_cases3)
    obtain be' ae' where ts: "trim_suffix before after bs' be as' ae = (be', ae')" by force
    note tb = trim_prefix_bounds [OF tp] trim_suffix_bounds [OF ts]
    have l: "bs' \<le> be'" "be' \<le> length before" "as' \<le> ae'" "ae' \<le> length after"
      using tb 6(6-9) by auto
    note ih = ov tp [symmetric] refl ts [symmetric] and eq = diff_region_eq [OF ov tp ts, of path]
    have "emits_region path b (diff_region before after path b bs be as ae out) out'
        (map norm (slice bs' be' before)) (map norm (slice as' ae' after))"
    proof (cases "be' - bs' = 0 \<or> ae' - as' = 0")
      case True
      have "length (map norm (slice bs' be' before)) = be' - bs'" using l by (simp add: length_slice)
      from emits_region_splice [OF 6(5) this] True show ?thesis
        unfolding eq by (auto simp: emits_region_same)
    next
      case ne: False
      show ?thesis
      proof (cases "region_matches before after bs' be' as' ae'")
        case (Cons m ms)
        have v: "valid_matches bs' be' as' ae' (m # ms)"
          using region_matches_valid [OF l(1,3), of before after] Cons by simp
        have "\<not> (be' - bs' = 0 \<and> ae' - as' = 0)" using ne by simp
        from 6(2) [OF ih this ne Cons 6(3-5) l v] Cons ne show ?thesis
          unfolding eq by simp
      next
        case Nil
        show ?thesis
        proof (cases "be' - bs' = 1 \<and> ae' - as' = 1")
          case one: True
          then have e: "be' = Suc bs'" "ae' = Suc as'" by auto
          have "before ! bs' \<in> A" "after ! as' \<in> A"
            using e l 6(3,4) nth_within by auto
          moreover have "\<not> (be' - bs' = 0 \<and> ae' - as' = 0)" "\<forall>s \<in> set (path @ [Idx (int out')]). safe_seg s"
            using one 6(5) by (auto simp: safe_seg_def)
          ultimately have "emits_region path b (diff_value (before ! bs') (after ! as') (path @ [Idx (int out')]) b) out'
              [norm (before ! bs')] [norm (after ! as')]"
            using 6(1) [OF ih _ ne Nil one] by (intro emits_region_element) blast
          moreover have "bs' < length before" "as' < length after" using e l by auto
          ultimately show ?thesis
            unfolding eq e using Nil e by (simp add: slice_single)
        next
          case False
          have "length (map norm (slice bs' be' before)) = be' - bs'" using l by (simp add: length_slice)
          from emits_region_splice [OF 6(5) this] False Nil ne show ?thesis
            unfolding eq by auto
        qed
      qed
    qed
    from emits_region_trimmed [OF A 6(3,4,6-9) tp ts this] show ?thesis .
  qed
next
  case (7 before after path b bs be as ae out)
  then show ?case by (simp add: emits_region_overflowed)
next
  case (8 before after path b bs be as ae out bm am ms)
  have v: "bs \<le> bm" "bm < be" "as \<le> am" "am < ae" "valid_matches (Suc bm) be (Suc am) ae ms"
    using 8(11) by (auto simp: valid_matches_Cons)
  have l: "bm \<le> length before" "am \<le> length after" "bm < length before" "am < length after"
    using v 8(8,10) by auto
  show ?case
  proof (cases "overflowed b")
    case True
    then show ?thesis by (simp add: emits_region_overflowed)
  next
    case ov: False
    define b1 where "b1 = diff_region before after path b bs bm as am out"
    define out1 where "out1 = out + (am - as)"
    define b2 where "b2 = (if same_value (before ! bm) (after ! am) then b1
      else diff_value (before ! bm) (after ! am) (path @ [Idx (int out1)]) b1)"
    have first: "emits_region path b b1 out (map norm (slice bs bm before)) (map norm (slice as am after))"
      unfolding b1_def using 8(1) [OF ov 8(4-6) v(1) l(1) v(3) l(2)] .
    have A2: "before ! bm \<in> A" "after ! am \<in> A" using 8(4,5) l nth_within by auto
    have path: "\<forall>s \<in> set (path @ [Idx (int out1)]). safe_seg s" using 8(6) by (auto simp: safe_seg_def)
    have second: "emits_region path b1 b2 out1 [norm (before ! bm)] [norm (after ! am)]"
    proof (cases "same_value (before ! bm) (after ! am)")
      case True
      then show ?thesis using revisionsD(1) [OF A A2] by (simp add: b2_def emits_region_same)
    next
      case False
      with 8(2) [OF ov b1_def out1_def False A2 path] show ?thesis
        by (simp add: b2_def emits_region_element)
    qed
    have third: "emits_region path b2 (process_matches before after path b2 (bm + 1) be (am + 1) ae (out1 + 1) ms) (out1 + 1)
        (map norm (slice (Suc bm) be before)) (map norm (slice (Suc am) ae after))"
      using 8(3) [OF ov b1_def out1_def b2_def 8(4-6)] v l 8(8,10) by simp
    have len: "out1 = out + length (map norm (slice as am after))"
      using v l by (simp add: out1_def length_slice)
    have rest: "emits_region path b1 (process_matches before after path b2 (bm + 1) be (am + 1) ae (out1 + 1) ms) out1
        ([norm (before ! bm)] @ map norm (slice (Suc bm) be before))
        ([norm (after ! am)] @ map norm (slice (Suc am) ae after))"
      by (rule emits_region_append [OF second]) (use third in simp)
    have "emits_region path b (process_matches before after path b2 (bm + 1) be (am + 1) ae (out1 + 1) ms) out
        (map norm (slice bs bm before) @ [norm (before ! bm)] @ map norm (slice (Suc bm) be before))
        (map norm (slice as am after) @ [norm (after ! am)] @ map norm (slice (Suc am) ae after))"
      by (rule emits_region_append [OF first]) (use rest in \<open>simp only: len [symmetric]\<close>)
    moreover have "process_matches before after path b bs be as ae out ((bm, am) # ms)
      = process_matches before after path b2 (bm + 1) be (am + 1) ae (out1 + 1) ms"
      using ov by (simp add: b1_def b2_def out1_def Let_def)
    ultimately show ?thesis
      using v 8(8,10) by (simp add: slice_at)
  qed
qed

section \<open>Revisions\<close>

lemma diff_value_emits:
  assumes "one_heap [before, after]" "wf_json before" "wf_json after"
  shows "emits_turn [] b (diff_value before after [] b) (norm before) (norm after)"
proof (rule diff_sound(1))
  show "revisions (set (concat (map subs [before, after])))"
    by (rule revisions_subs [OF assms(1)]) (use assms in auto)
qed auto


lemma diff_revisions_cases:
  assumes "b = diff_value before after [] \<lparr>batch_ops = [], overflowed = False\<rparr>"
  shows "diff_revisions len before after = [OReplace after] \<or>
    \<not> overflowed b \<and> diff_revisions len before after = batch_ops b"
  unfolding diff_revisions_def Let_def assms [symmetric] by simp



text \<open>
  C31: A batch that \<open>diffRevisions\<close> computes never has more than 4096 operations.
\<close>

theorem diff_revisions_bounded:
  assumes "one_heap [before, after]" "wf_json before" "wf_json after"
  shows "length (diff_revisions len before after) \<le> 4096"
proof -
  define b where "b = diff_value before after [] \<lparr>batch_ops = [], overflowed = False\<rparr>"
  have "length (batch_ops b) \<le> max_delta_operations"
    using diff_value_emits [OF assms, of "\<lparr>batch_ops = [], overflowed = False\<rparr>", folded b_def]
    by (simp add: emits_def)
  with diff_revisions_cases [OF b_def, of len] show ?thesis by (auto simp: max_delta_operations_def)
qed


theorem diff_revisions_bounded_witness:
  "length (diff_revisions (\<lambda>_. 20) (JArr 0 [JNull, JBool True]) (JArr 1 [JBool True])) \<le> 4096"
  by (rule diff_revisions_bounded) (simp_all add: one_heap_def)

end
