(* ===== verification/PathKey.thy ===== *)
theory PathKey
  imports DeltaOps
begin

text \<open>
  \<open>pathKey(path)\<close>, which is \<open>JSON.stringify(path)\<close>: the key under which the encoder and the pending
  queue look a path up. It is proved injective, so a key stands for one path: also a number and the
  string of its digits have different keys. Indices are taken below \<open>10 ^ 21\<close>, where a number's text is
  its decimal digits.
\<close>

section \<open>Quoted strings\<close>

definition is_high :: "16 word \<Rightarrow> bool" where
  "is_high c \<longleftrightarrow> 0xd800 \<le> c \<and> c < 0xdc00"

definition is_low :: "16 word \<Rightarrow> bool" where
  "is_low c \<longleftrightarrow> 0xdc00 \<le> c \<and> c < 0xe000"

definition hex_digit :: "nat \<Rightarrow> 16 word" where
  "hex_digit n = (if n < 10 then of_nat (48 + n) else of_nat (87 + n))"

definition unicode_escape :: "16 word \<Rightarrow> jsstr" where
  "unicode_escape c =
     (let n = unat c
      in [92, 117, hex_digit (n div 4096), hex_digit (n div 256 mod 16), hex_digit (n div 16 mod 16), hex_digit (n mod 16)])"

definition short_escapes :: "(16 word \<times> 16 word) list" where
  "short_escapes = [(8, 98), (9, 116), (10, 110), (12, 102), (13, 114), (34, 34), (92, 92)]"

definition escape_unit :: "16 word \<Rightarrow> jsstr" where
  "escape_unit c =
     (case map_of short_escapes c of
        Some e \<Rightarrow> [92, e]
      | None \<Rightarrow> if c < 32 \<or> is_high c \<or> is_low c then unicode_escape c else [c])"

text \<open>A surrogate pair is copied, a lone surrogate is escaped.\<close>

fun quote_units :: "jsstr \<Rightarrow> jsstr" where
  "quote_units [] = []"
| "quote_units [c] = escape_unit c"
| "quote_units (c # d # s) =
     (if is_high c \<and> is_low d then c # d # quote_units s else escape_unit c @ quote_units (d # s))"

definition quote :: "jsstr \<Rightarrow> jsstr" where
  "quote s = 34 # quote_units s @ [34]"

definition seg_key :: "seg \<Rightarrow> jsstr" where
  "seg_key s = (case s of Key k \<Rightarrow> quote k | Idx i \<Rightarrow> seg_text (Idx i))"

fun key_tail :: "path \<Rightarrow> jsstr" where
  "key_tail [] = [93]"
| "key_tail (s # p) = 44 # seg_key s @ key_tail p"

definition path_key :: "path \<Rightarrow> jsstr" where
  "path_key p =
     91 # (case p of
             [] \<Rightarrow> [93]
           | s # q \<Rightarrow> seg_key s @ key_tail q)"

section \<open>Injectivity\<close>

lemma unat_hex_digit: "m < 16 \<Longrightarrow> unat (hex_digit m) = (if m < 10 then 48 + m else 87 + m)"
  by (simp add: hex_digit_def unat_of_nat del: of_nat_add)

lemma hex_digit_inj: "m < 16 \<Longrightarrow> n < 16 \<Longrightarrow> hex_digit m = hex_digit n \<longleftrightarrow> m = n"
proof
  assume "m < 16" "n < 16" and eq: "hex_digit m = hex_digit n"
  then have "(if m < 10 then 48 + m else 87 + m) = (if n < 10 then 48 + n else 87 + n)"
    by (metis unat_hex_digit)
  then show "m = n" by (simp split: if_splits)
qed simp

lemma base_16: "k = a * 16 + r \<Longrightarrow> a = b * 16 + s \<Longrightarrow> b = c * 16 + t \<Longrightarrow>
  k = (c * 16 + t) * 256 + (s * 16 + r)" for k :: nat
  by simp

lemma four_digits_inj:
  assumes "m < 65536" "n < 65536" "m div 4096 = n div 4096" "m div 256 mod 16 = n div 256 mod 16"
    "m div 16 mod 16 = n div 16 mod 16" "m mod 16 = n mod (16 :: nat)"
  shows "m = n"
proof -
  have "k = (k div 4096 * 16 + k div 256 mod 16) * 256 + (k div 16 mod 16 * 16 + k mod 16)" if "k < 65536" for k :: nat
  proof -
    define a where "a = k div 16"
    define b where "b = a div 16"
    have "k = (b div 16 * 16 + b mod 16) * 256 + (a mod 16 * 16 + k mod 16)"
      by (rule base_16) (simp_all add: a_def b_def)
    moreover have "b = k div 256" "b div 16 = k div 4096"
      unfolding b_def a_def by (simp_all add: div_mult2_eq [symmetric])
    ultimately show ?thesis by (metis a_def)
  qed
  then show ?thesis using assms by metis
qed

lemma unicode_escape_inj:
  assumes "unicode_escape c = unicode_escape d"
  shows "c = d"
proof -
  obtain m n where mn: "m = unat c" "n = unat d" by simp
  have b: "m < 65536" "n < 65536"
    using unsigned_less [of c] unsigned_less [of d] by (simp_all add: mn)
  have h: "hex_digit (m div 4096) = hex_digit (n div 4096)" "hex_digit (m div 256 mod 16) = hex_digit (n div 256 mod 16)"
    "hex_digit (m div 16 mod 16) = hex_digit (n div 16 mod 16)" "hex_digit (m mod 16) = hex_digit (n mod 16)"
    using assms unfolding unicode_escape_def Let_def mn [symmetric] list.inject by blast+
  have "m div 4096 = n div 4096"
    by (rule hex_digit_inj [THEN iffD1, OF _ _ h(1)]; rule less_mult_imp_div_less) (use b in simp_all)
  moreover have "m div 256 mod 16 = n div 256 mod 16"
    by (rule hex_digit_inj [THEN iffD1, OF _ _ h(2)]) simp_all
  moreover have "m div 16 mod 16 = n div 16 mod 16"
    by (rule hex_digit_inj [THEN iffD1, OF _ _ h(3)]) simp_all
  moreover have "m mod 16 = n mod 16"
    by (rule hex_digit_inj [THEN iffD1, OF _ _ h(4)]) simp_all
  ultimately have "m = n" by (rule four_digits_inj [OF b])
  then show "c = d" by (simp add: mn word_unat_eq_iff)
qed

lemma length_unicode_escape: "length (unicode_escape c) = 6"
  by (simp add: unicode_escape_def Let_def)

lemma unicode_escape_head: "\<exists>r. unicode_escape c = 92 # 117 # r"
  by (simp add: unicode_escape_def Let_def)

text \<open>What was escaped can be read off the text, whatever follows.\<close>

lemma short_escapes_inj:
  "map_of short_escapes c = Some e \<Longrightarrow> map_of short_escapes d = Some e \<Longrightarrow> c = d"
  by (auto simp: short_escapes_def split: if_splits)

lemma short_escapes_range: "map_of short_escapes c = Some e \<Longrightarrow> e \<noteq> 117" "map_of short_escapes 92 \<noteq> None"
  by (auto simp: short_escapes_def split: if_splits)

lemma escape_unit_cases:
  obtains e where "map_of short_escapes c = Some e" "escape_unit c = [92, e]" "e \<noteq> 117"
  | "escape_unit c = unicode_escape c"
  | "escape_unit c = [c]" "c \<noteq> 92"
proof (cases "map_of short_escapes c")
  case None
  then have "c \<noteq> 92" using short_escapes_range(2) by blast
  with None that(2,3) show ?thesis
    by (cases "c < 32 \<or> is_high c \<or> is_low c") (auto simp: escape_unit_def)
next
  case (Some e)
  with that(1) short_escapes_range(1) show ?thesis by (auto simp: escape_unit_def)
qed

lemma escape_unit_inj: "escape_unit c @ x = escape_unit d @ y \<Longrightarrow> c = d \<and> x = y"
proof -
  assume eq: "escape_unit c @ x = escape_unit d @ y"
  have u: "unicode_escape c @ x = unicode_escape d @ y \<Longrightarrow> c = d \<and> x = y"
    using unicode_escape_inj by (metis append_eq_append_conv length_unicode_escape)
  obtain r r' where h: "unicode_escape c = 92 # 117 # r" "unicode_escape d = 92 # 117 # r'"
    using unicode_escape_head by blast
  show ?thesis
    by (rule escape_unit_cases [of c]; rule escape_unit_cases [of d])
      (use eq u h short_escapes_inj in auto)
qed

lemma escape_unit_Cons: "\<exists>a r. escape_unit c = a # r \<and> a \<noteq> 34"
proof (cases rule: escape_unit_cases [of c])
  case 3
  moreover have "escape_unit 34 \<noteq> [34]" by (simp add: escape_unit_def short_escapes_def)
  ultimately show ?thesis by auto
qed (auto simp: unicode_escape_def Let_def)

lemma escape_unit_high: "is_high c \<Longrightarrow> \<exists>r. escape_unit c = 92 # r"
  by (auto simp: escape_unit_def unicode_escape_def Let_def split: option.split)

lemma high_not_special: "is_high c \<Longrightarrow> c \<noteq> 92 \<and> c \<noteq> 34"
  by (auto simp: is_high_def)

text \<open>A pair at the head of a text is a pair of the string: nothing else starts with a bare high surrogate.\<close>

lemma escape_unit_pair: "is_high c \<Longrightarrow> escape_unit d @ x \<noteq> c # y"
  using escape_unit_high [of c] high_not_special [of c]
  by (cases rule: escape_unit_cases [of d]) (auto simp: unicode_escape_def Let_def)

text \<open>One step of the quoting: the units taken, and their text.\<close>

definition pair_head :: "jsstr \<Rightarrow> bool" where
  "pair_head s \<longleftrightarrow> (\<exists>c d r. s = c # d # r \<and> is_high c \<and> is_low d)"

definition head_length :: "jsstr \<Rightarrow> nat" where
  "head_length s = (if pair_head s then 2 else 1)"

definition head_text :: "jsstr \<Rightarrow> jsstr" where
  "head_text s = (if pair_head s then take 2 s else escape_unit (hd s))"

lemma quote_units_step: "s \<noteq> [] \<Longrightarrow> quote_units s = head_text s @ quote_units (drop (head_length s) s)"
  by (cases s rule: quote_units.cases) (auto simp: pair_head_def head_length_def head_text_def)

lemma head_text_inj:
  assumes "s \<noteq> []" "t \<noteq> []" "head_text s @ x = head_text t @ y"
  shows "take (head_length s) s = take (head_length t) t \<and> head_length s = head_length t \<and> x = y"
proof (cases "pair_head s"; cases "pair_head t")
  assume "\<not> pair_head s" "\<not> pair_head t"
  with assms escape_unit_inj [of "hd s" x "hd t" y] show ?thesis
    by (cases s; cases t) (auto simp: head_length_def head_text_def)
next
  assume p: "pair_head s" "pair_head t"
  then obtain c d r c' d' r' where "s = c # d # r" "t = c' # d' # r'" by (auto simp: pair_head_def)
  with p assms(3) show ?thesis by (simp add: head_length_def head_text_def)
next
  assume p: "pair_head s" "\<not> pair_head t"
  then obtain c d r where "s = c # d # r" "is_high c" by (auto simp: pair_head_def)
  with p assms(3) escape_unit_pair [of c "hd t" y "d # x"] show ?thesis
    by (simp add: head_text_def)
next
  assume p: "\<not> pair_head s" "pair_head t"
  then obtain c d r where "t = c # d # r" "is_high c" by (auto simp: pair_head_def)
  with p assms(3) escape_unit_pair [of c "hd s" x "d # y"] show ?thesis
    by (simp add: head_text_def)
qed

lemma head_text_Cons: "s \<noteq> [] \<Longrightarrow> \<exists>a r. head_text s = a # r \<and> a \<noteq> 34"
  using escape_unit_Cons [of "hd s"] high_not_special
  by (auto simp: head_text_def pair_head_def)

lemma quote_units_inj: "quote_units s @ 34 # x = quote_units t @ 34 # y \<Longrightarrow> s = t \<and> x = y"
proof (induction "length s" arbitrary: s t rule: less_induct)
  case less
  show ?case
  proof (cases "s = [] \<or> t = []")
    case True
    have "s = [] \<and> t = []"
      using True less.prems quote_units_step [of s] quote_units_step [of t] head_text_Cons [of s] head_text_Cons [of t]
      by (cases "s = []"; cases "t = []") auto
    with less.prems show ?thesis by simp
  next
    case False
    let ?s = "drop (head_length s) s" and ?t = "drop (head_length t) t"
    have "head_text s @ (quote_units ?s @ 34 # x) = head_text t @ (quote_units ?t @ 34 # y)"
      using less.prems False by (simp add: quote_units_step)
    from head_text_inj [OF _ _ this] False
    have h: "take (head_length s) s = take (head_length t) t" "head_length s = head_length t"
      and r: "quote_units ?s @ 34 # x = quote_units ?t @ 34 # y" by auto
    have "length ?s < length s" using False by (simp add: head_length_def)
    from less.hyps [OF this r] h show ?thesis by (metis append_take_drop_id)
  qed
qed

lemma quote_inj: "quote s @ x = quote t @ y \<Longrightarrow> s = t \<and> x = y"
  unfolding quote_def using quote_units_inj [of s x t y] by simp

section \<open>Numbers\<close>

definition digits_value :: "jsstr \<Rightarrow> nat" where
  "digits_value ds = foldl (\<lambda>n d. n * 10 + (unat d - 48)) 0 ds"

definition is_digit :: "16 word \<Rightarrow> bool" where
  "is_digit d \<longleftrightarrow> 48 \<le> unat d \<and> unat d \<le> 57"

lemma unat_digit: "n < 10 \<Longrightarrow> unat (of_nat (48 + n) :: 16 word) = 48 + n"
  by (simp add: unat_of_nat del: of_nat_add)

lemma digits_are_digits: "d \<in> set (digits n) \<Longrightarrow> is_digit d"
proof (induction n rule: digits.induct)
  case (1 n)
  show ?case
  proof (cases "n < 10")
    case True
    with 1(2) have "d = of_nat (48 + n)" by (subst (asm) digits.simps) simp
    with unat_digit [OF True] True show ?thesis by (simp add: is_digit_def)
  next
    case False
    with 1(2) have "d \<in> set (digits (n div 10)) \<or> d = of_nat (48 + n mod 10)"
      by (subst (asm) digits.simps) auto
    with 1(1) [OF False] unat_digit [of "n mod 10"] show ?thesis by (auto simp: is_digit_def)
  qed
qed

lemma digits_head: "digits n = a # r \<Longrightarrow> is_digit a"
  using digits_are_digits [of a n] by simp

lemma not_digit: "\<not> is_digit 34" "\<not> is_digit 45" "\<not> is_digit 93"
  by (simp_all add: is_digit_def)

lemma digits_value_digits: "digits_value (digits n) = n"
proof (induction n rule: digits.induct)
  case (1 n)
  show ?case
  proof (cases "n < 10")
    case True
    with unat_digit [OF True] show ?thesis by (subst digits.simps) (simp add: digits_value_def del: of_nat_add)
  next
    case False
    with 1 [OF False] unat_digit [of "n mod 10"] show ?thesis
      by (subst digits.simps) (simp add: digits_value_def del: of_nat_add)
  qed
qed

lemma digits_inj: "digits m = digits n \<Longrightarrow> m = n"
  by (metis digits_value_digits)

lemma prefix_by_class:
  assumes "xs @ a # x = ys @ b # y" "\<forall>c \<in> set xs \<union> set ys. P c" "\<not> P a" "\<not> P b"
  shows "xs = ys \<and> a # x = b # y"
proof -
  have "takeWhile P (zs @ c # z) = zs" if "\<forall>d \<in> set zs. P d" "\<not> P c" for zs c z
    using that by (simp add: takeWhile_append)
  with assms have "xs = ys" by (metis Un_iff)
  with assms(1) show ?thesis by simp
qed

definition closes :: "jsstr \<Rightarrow> bool" where
  "closes x \<longleftrightarrow> (\<exists>r. x = 44 # r \<or> x = 93 # r)"

lemma seg_text_inj:
  assumes "seg_text (Idx i) @ x = seg_text (Idx j) @ y" "closes x" "closes y"
  shows "i = j \<and> x = y"
proof -
  let ?P = "\<lambda>c. is_digit c \<or> c = 45"
  have P: "\<forall>c \<in> set (seg_text (Idx i)) \<union> set (seg_text (Idx j)). ?P c"
    by (auto dest: digits_are_digits)
  obtain a r b q where xy: "x = a # r" "y = b # q" "\<not> ?P a" "\<not> ?P b"
    using assms(2,3) by (auto simp: closes_def is_digit_def)
  with prefix_by_class [OF _ P, of a r b q] assms(1) have eq: "seg_text (Idx i) = seg_text (Idx j)" "x = y" by auto
  have "digits n \<noteq> 45 # ds" for n ds
    using digits_are_digits [of 45 n] by (auto simp: is_digit_def)
  with eq have "i = j" by (auto split: if_splits dest!: digits_inj dest: sym)
  with eq show ?thesis by simp
qed

section \<open>Keys\<close>

lemma seg_key_inj:
  assumes "seg_key s @ x = seg_key t @ y" "closes x" "closes y"
  shows "s = t \<and> x = y"
proof -
  have num: "seg_text (Idx i) @ z \<noteq> quote k @ z'" for i z k z'
    using digits_head [of "nat i" 34] not_digit by (cases "digits (nat i)") (auto simp: quote_def)
  show ?thesis
  proof (cases s; cases t)
    fix k l assume "s = Key k" "t = Key l"
    with assms(1) quote_inj [of k x l y] show ?thesis by (simp add: seg_key_def)
  next
    fix i j assume "s = Idx i" "t = Idx j"
    with assms(1) seg_text_inj [OF _ assms(2,3), of i j] show ?thesis by (simp add: seg_key_def del: seg_text.simps)
  next
    fix k i assume "s = Key k" "t = Idx i"
    with assms(1) num [of i y k x] show ?thesis by (simp add: seg_key_def del: seg_text.simps)
  next
    fix i k assume "s = Idx i" "t = Key k"
    with assms(1) num [of i x k y] show ?thesis by (simp add: seg_key_def del: seg_text.simps)
  qed
qed

lemma closes_key_tail [simp]: "closes (key_tail p)"
  by (cases p) (auto simp: closes_def)

lemma key_tail_inj: "key_tail p = key_tail q \<Longrightarrow> p = q"
proof (induction p arbitrary: q)
  case Nil
  then show ?case by (cases q) auto
next
  case (Cons s p)
  then obtain t q' where q: "q = t # q'" by (cases q) auto
  with Cons.prems have "seg_key s @ key_tail p = seg_key t @ key_tail q'" by (simp add: seg_key_def)
  from seg_key_inj [OF this] Cons.IH q show ?case by simp
qed

lemma seg_key_head: "seg_key s @ x \<noteq> 93 # y"
  using digits_head not_digit by (cases s) (auto simp: seg_key_def quote_def append_eq_Cons_conv)

lemma path_key_inj: "path_key p = path_key q \<Longrightarrow> p = q"
proof (cases p; cases q)
  fix s p' t q'
  assume eq: "path_key p = path_key q" and pq: "p = s # p'" "q = t # q'"
  then have "seg_key s @ key_tail p' = seg_key t @ key_tail q'" by (simp add: path_key_def)
  from seg_key_inj [OF this] key_tail_inj pq show "p = q" by simp
qed (use seg_key_head seg_key_head [symmetric] in \<open>simp_all add: path_key_def\<close>)

text \<open>
  The key of a path determines the path. The encoder's dictionary and the leaf index of the pending
  queue never confuse two paths; in particular the number 1 and the string "1" never share a key.
\<close>

theorem path_key_injective: "path_key p = path_key q \<longleftrightarrow> p = q"
  using path_key_inj by blast

end
