(* ===== verification/Streams.thy ===== *)
theory Streams
  imports Prelude
begin

text \<open>
  Codecs of a stream: a writer with a state that turns each item into some tokens, and a reader with a
  state that consumes tokens one by one and may refuse. The law of the interface is that the reader
  follows the writer over one item; what follows for whole streams is proved once here.
\<close>

fun write_all :: "('e \<Rightarrow> 'x \<Rightarrow> 'e \<times> 'w list) \<Rightarrow> 'e \<Rightarrow> 'x list \<Rightarrow> 'e \<times> 'w list" where
  "write_all enc e [] = (e, [])"
| "write_all enc e (x # xs) =
     (let (e', out) = enc e x; (e'', rest) = write_all enc e' xs in (e'', out @ rest))"

locale stream_codec =
  fixes enc :: "'e \<Rightarrow> 'x \<Rightarrow> 'e \<times> 'w list"
    and dec :: "'d \<Rightarrow> 'w \<Rightarrow> 'err + 'd"
    and items :: "'d \<Rightarrow> 'x list"
    and in_step :: "'e \<Rightarrow> 'd \<Rightarrow> bool"
    and ok :: "'x \<Rightarrow> bool"
  assumes follows: "in_step e d \<Longrightarrow> ok x \<Longrightarrow> enc e x = (e', ws) \<Longrightarrow>
      \<exists>d'. rfold dec d ws = Inr d' \<and> in_step e' d' \<and> items d' = items d @ [x]"
begin

lemma follows_all:
  "in_step e d \<Longrightarrow> list_all ok xs \<Longrightarrow> write_all enc e xs = (e', ws) \<Longrightarrow>
   \<exists>d'. rfold dec d ws = Inr d' \<and> in_step e' d' \<and> items d' = items d @ xs"
proof (induction xs arbitrary: e d ws)
  case (Cons x xs)
  obtain e1 out rest where enc: "enc e x = (e1, out)" and rest: "write_all enc e1 xs = (e', rest)" "ws = out @ rest"
    using Cons.prems(3) by (auto split: prod.splits)
  obtain d1 where d1: "rfold dec d out = Inr d1" "in_step e1 d1" "items d1 = items d @ [x]"
    using follows [OF Cons.prems(1) _ enc] Cons.prems(2) by auto
  from Cons.IH [OF d1(2) _ rest(1)] Cons.prems(2) d1 rest(2) show ?case
    by (auto simp: rfold_append)
qed simp

end

end
