(* ===== verification/DeltaCodec.thy ===== *)
theory DeltaCodec
  imports PathKey Streams
begin

text \<open>
  The codec between a tracker and a boundary (\<open>packages/chord/src/delta/index.ts\<close>, from
  \<open>assertValidWireOp\<close> and \<open>encoder\<close> on): path ids defined on a path's second use, and operations that
  omit the path of the one before. A wire operation is read from JSON by \<open>read_wire\<close>, which is the
  validation, and printed by \<open>wire_json\<close>.
\<close>

section \<open>Wire operations\<close>

datatype path_ref = RPath path | RId int

text \<open>The short forms, which omit the path, have no reference.\<close>

datatype wire =
    WReplace json
  | WSet "path_ref option" json
  | WDelete "path_ref option"
  | WAppend "path_ref option" jsstr
  | WTruncate "path_ref option" int
  | WSplice "path_ref option" int int "json list"
  | WPermute "path_ref option" "int list"
  | WDefine int path

text \<open>\<open>okRef\<close>.\<close>

fun read_ref :: "json \<Rightarrow> delta_error + path_ref" where
  "read_ref (JNum n) = rbind (json_nat ''bad path id'' (JNum n)) (\<lambda>i. Inr (RId i))"
| "read_ref (JArr _ p) = rbind (read_safe_path p) (\<lambda>p. Inr (RPath p))"
| "read_ref _ = Inl (TypeErr ''path is not an array'')"

definition with_ref :: "json \<Rightarrow> (path_ref option \<Rightarrow> delta_error + wire) \<Rightarrow> delta_error + wire" where
  "with_ref r f = rbind (read_ref r) (\<lambda>r. f (Some r))"

definition read_text :: "json \<Rightarrow> (jsstr \<Rightarrow> wire) \<Rightarrow> delta_error + wire" where
  "read_text v f = (case v of JStr s \<Rightarrow> Inr (f s) | _ \<Rightarrow> Inl (TypeErr ''a value''))"

definition read_splice :: "path_ref option \<Rightarrow> json \<Rightarrow> json \<Rightarrow> json \<Rightarrow> delta_error + wire" where
  "read_splice r i n items =
     rbind (json_nat ''p index'' i) (\<lambda>i. rbind (json_nat ''p remove'' n) (\<lambda>n.
       case items of JArr _ xs \<Rightarrow> Inr (WSplice r i n xs) | _ \<Rightarrow> Inl (TypeErr ''p items'')))"

definition read_wire :: "json \<Rightarrow> delta_error + wire" where
  "read_wire op =
     (case op of
        JArr _ (v # args) \<Rightarrow>
          (if verb v ''r'' then
             (case args of [x] \<Rightarrow> Inr (WReplace x) | _ \<Rightarrow> Inl (TypeErr ''r arity''))
           else if verb v ''s'' then
             (case args of
                [r, x] \<Rightarrow> with_ref r (\<lambda>r. Inr (WSet r x))
              | [x] \<Rightarrow> Inr (WSet None x)
              | _ \<Rightarrow> Inl (TypeErr ''s arity''))
           else if verb v ''d'' then
             (case args of
                [r] \<Rightarrow> with_ref r (\<lambda>r. Inr (WDelete r))
              | [] \<Rightarrow> Inr (WDelete None)
              | _ \<Rightarrow> Inl (TypeErr ''d arity''))
           else if verb v ''a'' then
             (case args of
                [r, x] \<Rightarrow> with_ref r (\<lambda>r. read_text x (WAppend r))
              | [x] \<Rightarrow> read_text x (WAppend None)
              | _ \<Rightarrow> Inl (TypeErr ''a arity''))
           else if verb v ''t'' then
             (case args of
                [r, n] \<Rightarrow> with_ref r (\<lambda>r. rbind (json_nat ''t count'' n) (\<lambda>n. Inr (WTruncate r n)))
              | [n] \<Rightarrow> rbind (json_nat ''t count'' n) (\<lambda>n. Inr (WTruncate None n))
              | _ \<Rightarrow> Inl (TypeErr ''t arity''))
           else if verb v ''p'' then
             (case args of
                [r, i, n, items] \<Rightarrow> with_ref r (\<lambda>r. read_splice r i n items)
              | [i, n, items] \<Rightarrow> read_splice None i n items
              | _ \<Rightarrow> Inl (TypeErr ''p arity''))
           else if verb v ''m'' then
             (case args of
                [r, p] \<Rightarrow> with_ref r (\<lambda>r. rbind (read_permutation p) (\<lambda>p. Inr (WPermute r p)))
              | [p] \<Rightarrow> rbind (read_permutation p) (\<lambda>p. Inr (WPermute None p))
              | _ \<Rightarrow> Inl (TypeErr ''m arity''))
           else if verb v ''#'' then
             (case args of
                [n, JArr _ p] \<Rightarrow> rbind (json_nat ''# shape'' n) (\<lambda>n. rbind (read_safe_path p) (\<lambda>p. Inr (WDefine n p)))
              | _ \<Rightarrow> Inl (TypeErr ''# shape''))
           else Inl (TypeErr ''unknown op verb''))
      | _ \<Rightarrow> Inl (TypeErr ''op is not a tuple''))"

section \<open>The encoder\<close>

record encoder =
  enc_seen :: "jsstr list"
  enc_ids :: "(jsstr \<times> int) list"
  enc_next :: int
  enc_previous :: "jsstr option"

definition new_encoder :: encoder where
  "new_encoder = \<lparr>enc_seen = [], enc_ids = [], enc_next = 0, enc_previous = None\<rparr>"

fun encode_with :: "path_ref option \<Rightarrow> op \<Rightarrow> wire" where
  "encode_with r (OReplace v) = WReplace v"
| "encode_with r (OSet _ v) = WSet r v"
| "encode_with r (ODelete _) = WDelete r"
| "encode_with r (OAppend _ s) = WAppend r s"
| "encode_with r (OTruncate _ n) = WTruncate r n"
| "encode_with r (OSplice _ i n items) = WSplice r i n items"
| "encode_with r (OPermute _ perm) = WPermute r perm"

definition encode_op :: "encoder \<Rightarrow> op \<Rightarrow> encoder \<times> wire list" where
  "encode_op e op =
     (if is_replace op then (new_encoder, [encode_with None op])
      else let path = op_path op; key = path_key path
        in if enc_previous e = Some key then (e, [encode_with None op])
           else case map_of (enc_ids e) key of
             Some i \<Rightarrow> (e\<lparr>enc_previous := Some key\<rparr>, [encode_with (Some (RId i)) op])
           | None \<Rightarrow>
               (if key \<in> set (enc_seen e) then
                  (e\<lparr>enc_next := enc_next e + 1, enc_ids := al_put key (enc_next e) (enc_ids e), enc_previous := Some key\<rparr>,
                   [WDefine (enc_next e) path, encode_with (Some (RId (enc_next e))) op])
                else
                  (e\<lparr>enc_seen := key # enc_seen e, enc_previous := Some key\<rparr>,
                   [encode_with (Some (RPath path)) op])))"

text \<open>Omitting paths is scoped to a batch; ids are not.\<close>

definition encode :: "encoder \<Rightarrow> op list \<Rightarrow> encoder \<times> wire list" where
  "encode e ops = write_all encode_op (e\<lparr>enc_previous := None\<rparr>) ops"

section \<open>The decoder\<close>

text \<open>The ids defined so far last; the previous path and the operations read belong to one batch.\<close>

record decoding =
  dec_paths :: "(int \<times> path) list"
  dec_previous :: "path option"
  dec_out :: "op list"

definition deref :: "decoding \<Rightarrow> path_ref option \<Rightarrow> delta_error + path" where
  "deref d r =
     (case r of
        None \<Rightarrow> (case dec_previous d of None \<Rightarrow> Inl (PathErr []) | Some p \<Rightarrow> Inr p)
      | Some (RId i) \<Rightarrow> (case map_of (dec_paths d) i of None \<Rightarrow> Inl (PathIdErr i) | Some p \<Rightarrow> Inr p)
      | Some (RPath p) \<Rightarrow> Inr p)"

definition emit_op :: "decoding \<Rightarrow> path_ref option \<Rightarrow> bool \<Rightarrow> (path \<Rightarrow> op) \<Rightarrow> delta_error + decoding" where
  "emit_op d r non_empty f =
     rbind (deref d r) (\<lambda>p.
       if non_empty \<and> p = [] then Inl (PathErr p)
       else Inr (d\<lparr>dec_previous := Some p, dec_out := dec_out d @ [f p]\<rparr>))"

fun decode_wire :: "decoding \<Rightarrow> wire \<Rightarrow> delta_error + decoding" where
  "decode_wire d (WDefine i p) = Inr (d\<lparr>dec_paths := al_put i p (dec_paths d)\<rparr>)"
| "decode_wire d (WReplace v) =
     Inr (d\<lparr>dec_paths := [], dec_previous := None, dec_out := dec_out d @ [OReplace v]\<rparr>)"
| "decode_wire d (WSet r v) = emit_op d r True (\<lambda>p. OSet p v)"
| "decode_wire d (WDelete r) = emit_op d r True ODelete"
| "decode_wire d (WAppend r s) = emit_op d r True (\<lambda>p. OAppend p s)"
| "decode_wire d (WTruncate r n) = emit_op d r True (\<lambda>p. OTruncate p n)"
| "decode_wire d (WSplice r i n items) = emit_op d r False (\<lambda>p. OSplice p i n items)"
| "decode_wire d (WPermute r perm) = emit_op d r False (\<lambda>p. OPermute p perm)"

definition decode_step :: "decoding \<Rightarrow> json \<Rightarrow> delta_error + decoding" where
  "decode_step d v = rbind (read_wire v) (decode_wire d)"

definition decode :: "(int \<times> path) list \<Rightarrow> json list \<Rightarrow> delta_error + (int \<times> path) list \<times> op list" where
  "decode paths batch =
     rbind (rfold decode_step \<lparr>dec_paths = paths, dec_previous = None, dec_out = []\<rparr> batch)
       (\<lambda>d. Inr (dec_paths d, dec_out d))"

section \<open>Wire operations as JSON\<close>

text \<open>The tuple of a wire operation, all its arrays at the address \<open>a\<close>.\<close>

definition path_json :: "addr \<Rightarrow> path \<Rightarrow> json" where
  "path_json a p = JArr a (map seg_json p)"

fun ref_json :: "addr \<Rightarrow> path_ref option \<Rightarrow> json list" where
  "ref_json a None = []"
| "ref_json a (Some (RId i)) = [JNum (NInt i)]"
| "ref_json a (Some (RPath p)) = [path_json a p]"

definition tuple :: "addr \<Rightarrow> string \<Rightarrow> json list \<Rightarrow> json" where
  "tuple a c args = JArr a (JStr (js c) # args)"

fun wire_json :: "addr \<Rightarrow> wire \<Rightarrow> json" where
  "wire_json a (WReplace v) = tuple a ''r'' [v]"
| "wire_json a (WSet r v) = tuple a ''s'' (ref_json a r @ [v])"
| "wire_json a (WDelete r) = tuple a ''d'' (ref_json a r)"
| "wire_json a (WAppend r s) = tuple a ''a'' (ref_json a r @ [JStr s])"
| "wire_json a (WTruncate r n) = tuple a ''t'' (ref_json a r @ [JNum (NInt n)])"
| "wire_json a (WSplice r i n items) =
     tuple a ''p'' (ref_json a r @ [JNum (NInt i), JNum (NInt n), JArr a items])"
| "wire_json a (WPermute r perm) = tuple a ''m'' (ref_json a r @ [JArr a (map (\<lambda>i. JNum (NInt i)) perm)])"
| "wire_json a (WDefine i p) = tuple a ''#'' [JNum (NInt i), path_json a p]"

section \<open>Reading back what was printed\<close>

lemma read_seg_json: "safe_seg s \<Longrightarrow> read_seg (seg_json s) = Inr s"
  by (cases s) (auto simp: safe_seg_def)

lemma read_safe_path_json: "\<forall>s \<in> set p. safe_seg s \<Longrightarrow> read_safe_path (map seg_json p) = Inr p"
  by (induction p) (auto simp: read_seg_json)

lemma json_nat_int: "0 \<le> i \<Longrightarrow> json_nat m (JNum (NInt i)) = Inr i"
  by (simp add: json_nat_def)

lemma read_permutation_loop_json:
  "read_permutation_loop n seen (map (\<lambda>i. JNum (NInt i)) perm) =
   rbind (permutation_loop n seen perm) (\<lambda>_. Inr perm)"
  by (induction n seen perm rule: permutation_loop.induct) (auto simp: rbind_def split: sum.split)

lemma read_permutation_json:
  "assert_permutation perm = Inr () \<Longrightarrow> read_permutation (JArr a (map (\<lambda>i. JNum (NInt i)) perm)) = Inr perm"
  by (simp add: assert_permutation_def read_permutation_loop_json)

lemma verb_js [simp]: "verb (JStr (js c)) c' \<longleftrightarrow> js c = js c'"
  by (simp add: verb_def)

lemma js_verbs [simp]:
  "js [c] = js [d] \<longleftrightarrow> (of_char c :: 16 word) = of_char d"
  by (simp add: js_def)

fun ref_ok :: "path_ref option \<Rightarrow> bool" where
  "ref_ok None = True"
| "ref_ok (Some (RId i)) = (0 \<le> i)"
| "ref_ok (Some (RPath p)) = (\<forall>s \<in> set p. safe_seg s)"

lemma read_ref_json:
  "ref_ok r \<Longrightarrow> r = None \<and> ref_json a r = [] \<or>
    (\<exists>r' v. r = Some r' \<and> ref_json a r = [v] \<and> read_ref v = Inr r')"
  by (cases r rule: ref_ok.cases) (auto simp: json_nat_int path_json_def read_safe_path_json)

lemma valid_op_path: "valid_op op \<Longrightarrow> \<forall>s \<in> set (op_path op). safe_seg s"
  by (cases op) (auto simp: valid_op_def assert_path_arg_def assert_safe_path_iff rbind_Inr_conv split: if_splits)

lemma read_wire_json:
  assumes "valid_op op" "ref_ok r"
  shows "read_wire (wire_json a (encode_with r op)) = Inr (encode_with r op)"
proof -
  have b: "assert_valid_op op = Inr ()" using assms(1) by (simp add: valid_op_def)
  show ?thesis
    using b read_ref_json [OF assms(2), of a]
    by (cases op) (auto simp: read_wire_def tuple_def with_ref_def read_text_def read_splice_def json_nat_int
        read_permutation_json rbind_Inr_conv simp del: read_permutation.simps split: if_splits)
qed

lemma read_define_json:
  "0 \<le> i \<Longrightarrow> \<forall>s \<in> set p. safe_seg s \<Longrightarrow> read_wire (wire_json a (WDefine i p)) = Inr (WDefine i p)"
  by (simp add: read_wire_def tuple_def path_json_def json_nat_int read_safe_path_json)

section \<open>The decoder follows the encoder\<close>

text \<open>
  Every id the encoder may refer to is one the decoder knows, with the same path, and where the encoder
  may omit a path it is the decoder's previous one.
\<close>

definition in_step :: "encoder \<Rightarrow> (int \<times> path) list \<Rightarrow> path option \<Rightarrow> bool" where
  "in_step e paths prev \<longleftrightarrow>
     0 \<le> enc_next e \<and>
     (\<forall>key i. map_of (enc_ids e) key = Some i \<longrightarrow>
        0 \<le> i \<and> i < enc_next e \<and> (\<exists>p. key = path_key p \<and> map_of paths i = Some p)) \<and>
     (\<forall>key. enc_previous e = Some key \<longrightarrow> (\<exists>p. key = path_key p \<and> prev = Some p))"

lemma in_step_new [simp]: "in_step new_encoder paths prev"
  by (simp add: in_step_def new_encoder_def)

lemma in_step_batch: "in_step e paths prev \<Longrightarrow> in_step (e\<lparr>enc_previous := None\<rparr>) paths prev'"
  by (simp add: in_step_def)

lemma decode_step_op:
  assumes "valid_op op" "\<not> is_replace op" "ref_ok r" "deref d r = Inr (op_path op)"
  shows "decode_step d (wire_json a (encode_with r op)) =
    Inr (d\<lparr>dec_previous := Some (op_path op), dec_out := dec_out d @ [op]\<rparr>)"
proof -
  have "decode_step d (wire_json a (encode_with r op)) = decode_wire d (encode_with r op)"
    by (simp only: decode_step_def read_wire_json [OF assms(1,3)] rbind_simps)
  then show ?thesis
    using assms(1,2,4)
    by (cases op) (simp_all add: emit_op_def is_replace_def valid_op_def assert_path_arg_def split: if_splits)
qed

lemma decode_step_replace:
  "decode_step d (wire_json a (encode_with r (OReplace v))) =
    Inr (d\<lparr>dec_paths := [], dec_previous := None, dec_out := dec_out d @ [OReplace v]\<rparr>)"
  by (simp add: decode_step_def read_wire_def tuple_def)

lemma decode_step_define:
  "0 \<le> i \<Longrightarrow> \<forall>s \<in> set p. safe_seg s \<Longrightarrow>
   decode_step d (wire_json a (WDefine i p)) = Inr (d\<lparr>dec_paths := al_put i p (dec_paths d)\<rparr>)"
  by (simp add: decode_step_def read_define_json del: wire_json.simps)

lemma encode_op_decodes:
  assumes rel: "in_step e (dec_paths d) (dec_previous d)" and v: "valid_op op"
    and enc: "encode_op e op = (e', ws)"
  shows "\<exists>d'. rfold decode_step d (map (wire_json a) ws) = Inr d' \<and>
    in_step e' (dec_paths d') (dec_previous d') \<and> dec_out d' = dec_out d @ [op]"
proof -
  let ?p = "op_path op"
  let ?key = "path_key ?p"
  consider (replace) v where "op = OReplace v"
    | (short) "\<not> is_replace op" "enc_previous e = Some ?key"
    | (known) i where "\<not> is_replace op" "enc_previous e \<noteq> Some ?key" "map_of (enc_ids e) ?key = Some i"
    | (second) "\<not> is_replace op" "enc_previous e \<noteq> Some ?key" "map_of (enc_ids e) ?key = None" "?key \<in> set (enc_seen e)"
    | (first) "\<not> is_replace op" "enc_previous e \<noteq> Some ?key" "map_of (enc_ids e) ?key = None" "?key \<notin> set (enc_seen e)"
    by (cases op) (auto simp: is_replace_def)
  then show ?thesis
  proof cases
    case replace
    with enc show ?thesis by (auto simp: encode_op_def is_replace_def decode_step_replace simp del: encode_with.simps wire_json.simps)
  next
    case short
    with rel have "dec_previous d = Some ?p" by (auto simp: in_step_def dest: path_key_inj)
    with short enc rel v show ?thesis
      by (auto simp: encode_op_def Let_def decode_step_op deref_def in_step_def)
  next
    case known
    with rel have "0 \<le> i" "map_of (dec_paths d) i = Some ?p" by (auto simp: in_step_def dest: path_key_inj)
    with known enc rel v show ?thesis
      by (auto simp: encode_op_def Let_def decode_step_op deref_def in_step_def)
  next
    case second
    let ?i = "enc_next e"
    let ?d = "d\<lparr>dec_paths := al_put ?i ?p (dec_paths d)\<rparr>"
    let ?d' = "?d\<lparr>dec_previous := Some ?p, dec_out := dec_out d @ [op]\<rparr>"
    have i: "0 \<le> ?i" using rel by (simp add: in_step_def)
    have e': "e' = e\<lparr>enc_next := ?i + 1, enc_ids := al_put ?key ?i (enc_ids e), enc_previous := Some ?key\<rparr>"
      and ws: "ws = [WDefine ?i ?p, encode_with (Some (RId ?i)) op]"
      using second enc by (simp_all add: encode_op_def Let_def)
    have "decode_step ?d (wire_json a (encode_with (Some (RId ?i)) op)) = Inr ?d'"
      using decode_step_op [OF v second(1), of "Some (RId ?i)" ?d a] i by (simp add: deref_def alist_simps)
    then have "rfold decode_step d (map (wire_json a) ws) = Inr ?d'"
      using i valid_op_path [OF v] by (simp add: ws decode_step_define del: wire_json.simps)
    moreover have "in_step e' (dec_paths ?d') (dec_previous ?d')"
      using rel unfolding e' in_step_def by (auto simp: alist_simps) force+
    ultimately show ?thesis by auto
  next
    case first
    with enc rel v show ?thesis
      by (auto simp: encode_op_def Let_def decode_step_op deref_def in_step_def valid_op_path)
  qed
qed

interpretation delta_stream: stream_codec
  encode_op "\<lambda>d w. decode_step d (wire_json a w)" dec_out
  "\<lambda>e d. in_step e (dec_paths d) (dec_previous d)" valid_op for a
  using encode_op_decodes by unfold_locales (simp add: rfold_map)

section \<open>Batches\<close>

definition encoded :: "addr \<Rightarrow> wire list \<Rightarrow> json list" where
  "encoded a ws = map (wire_json a) ws"

fun encode_batches :: "encoder \<Rightarrow> op list list \<Rightarrow> wire list list" where
  "encode_batches e [] = []"
| "encode_batches e (ops # batches) = (let (e', ws) = encode e ops in ws # encode_batches e' batches)"

fun decode_batches :: "(int \<times> path) list \<Rightarrow> json list list \<Rightarrow> delta_error + op list list" where
  "decode_batches paths [] = Inr []"
| "decode_batches paths (ws # batches) =
     rbind (decode paths ws) (\<lambda>(paths', ops). rbind (decode_batches paths' batches) (\<lambda>rest. Inr (ops # rest)))"

lemma decode_encode:
  assumes rel: "in_step e paths prev" and v: "list_all valid_op ops" and enc: "encode e ops = (e', ws)"
  shows "\<exists>paths' prev'. decode paths (encoded a ws) = Inr (paths', ops) \<and> in_step e' paths' prev'"
proof -
  let ?d = "\<lparr>dec_paths = paths, dec_previous = None, dec_out = []\<rparr>"
  have "in_step (e\<lparr>enc_previous := None\<rparr>) (dec_paths ?d) (dec_previous ?d)"
    using in_step_batch [OF rel] by simp
  from delta_stream.follows_all [OF this v enc [unfolded encode_def], of a]
  show ?thesis by (auto simp: decode_def encoded_def rfold_map)
qed

lemma decode_encode_batches:
  "in_step e paths prev \<Longrightarrow> list_all (list_all valid_op) batches \<Longrightarrow>
   decode_batches paths (map (encoded a) (encode_batches e batches)) = Inr batches"
proof (induction batches arbitrary: e paths prev)
  case (Cons ops batches)
  obtain e' ws where enc: "encode e ops = (e', ws)" by force
  obtain paths' prev' where d: "decode paths (encoded a ws) = Inr (paths', ops)" "in_step e' paths' prev'"
    using decode_encode [OF Cons.prems(1) _ enc, of a] Cons.prems(2) by auto
  with Cons.IH [OF d(2)] Cons.prems(2) enc show ?case by simp
qed simp

lemma decode_coalesced:
  "in_step e (dec_paths d) prev \<Longrightarrow> list_all (list_all valid_op) batches \<Longrightarrow>
   \<exists>d'. rfold decode_step d (encoded a (concat (encode_batches e batches))) = Inr d' \<and>
     dec_out d' = dec_out d @ concat batches"
proof (induction batches arbitrary: e d prev)
  case Nil
  then show ?case by (simp add: encoded_def)
next
  case (Cons ops batches)
  obtain e' ws where enc: "encode e ops = (e', ws)" by force
  have "in_step (e\<lparr>enc_previous := None\<rparr>) (dec_paths d) (dec_previous d)"
    using in_step_batch [OF Cons.prems(1)] .
  then obtain d1 where d1: "rfold decode_step d (encoded a ws) = Inr d1"
      "in_step e' (dec_paths d1) (dec_previous d1)" "dec_out d1 = dec_out d @ ops"
    using delta_stream.follows_all [OF _ _ enc [unfolded encode_def], of d a] Cons.prems(2)
    by (auto simp: encoded_def rfold_map)
  from Cons.IH [OF d1(2)] Cons.prems(2) d1 enc show ?case
    by (auto simp: encoded_def rfold_append)
qed

lemma encode_batches_append:
  "\<exists>e'. encode_batches e (batches @ batches') = encode_batches e batches @ encode_batches e' batches'"
  by (induction batches arbitrary: e) (auto split: prod.split)

lemma encode_base: "is_base ops \<Longrightarrow> encode e ops = encode new_encoder ops"
  by (cases ops) (auto simp: is_base_def encode_def encode_op_def)

lemma encode_batches_base:
  "is_base ops \<Longrightarrow> encode_batches e (ops # batches) = encode_batches new_encoder (ops # batches)"
  using encode_base [of ops e] by simp

text \<open>
  C4: A decoder that gets the batches of one encoder, as the JSON tuples they are on the wire, returns
  exactly the operations that were encoded, batch by batch, for every sequence of batches of valid
  operations: repeated paths, ids, omitted paths and replacements in any place included.
\<close>

theorem codec_roundtrip:
  assumes "list_all (list_all valid_op) batches"
  shows "decode_batches [] (map (encoded a) (encode_batches new_encoder batches)) = Inr batches"
  by (rule decode_encode_batches [OF in_step_new assms])


theorem codec_roundtrip_witness:
  "decode_batches [] (map (encoded 0) (encode_batches new_encoder
      [[OReplace JNull], [OSet [Key [97], Idx 1] JNull, OTruncate [Key [98]] 2],
       [OAppend [Key [98]] [99], ODelete [Key [98]], OPermute [] [1, 0]]]))
   = Inr [[OReplace JNull], [OSet [Key [97], Idx 1] JNull, OTruncate [Key [98]] 2],
       [OAppend [Key [98]] [99], ODelete [Key [98]], OPermute [] [1, 0]]]"
  by (rule codec_roundtrip)
    (simp add: valid_op_def assert_path_arg_def assert_permutation_def reserved_segments_def js_def)

text \<open>
  Consecutive batches of one encoder may be joined into one batch: a single decoder call on the
  concatenation returns the concatenation of the operations.
\<close>

theorem codec_coalesces:
  assumes "list_all (list_all valid_op) batches"
  shows "\<exists>paths. decode [] (encoded a (concat (encode_batches new_encoder batches))) = Inr (paths, concat batches)"
proof -
  let ?d = "\<lparr>dec_paths = [], dec_previous = None, dec_out = []\<rparr>"
  have "in_step new_encoder (dec_paths ?d) None" by simp
  from decode_coalesced [OF this assms, of a] show ?thesis by (auto simp: decode_def)
qed

theorem codec_coalesces_witness:
  "\<exists>paths. decode [] (encoded 0 (concat (encode_batches new_encoder
      [[OSet [Key [97]] JNull], [OSet [Key [97]] (JBool True), ODelete [Key [97]]]]))) =
    Inr (paths, concat [[OSet [Key [97]] JNull], [OSet [Key [97]] (JBool True), ODelete [Key [97]]]])"
  by (rule codec_coalesces) (simp add: valid_op_def assert_path_arg_def reserved_segments_def js_def)

text \<open>
  C5: A base batch is a recovery point: a fresh decoder that starts at a batch whose first operation is
  a replacement reads it and everything after it, whatever the encoder had encoded before.
\<close>

theorem codec_recovers:
  assumes "list_all (list_all valid_op) (base # batches)" "is_base base"
  shows "decode_batches [] (map (encoded a)
      (drop (length earlier) (encode_batches e (earlier @ base # batches)))) = Inr (base # batches)"
proof -
  obtain e' where e': "encode_batches e (earlier @ base # batches) =
      encode_batches e earlier @ encode_batches e' (base # batches)"
    using encode_batches_append by blast
  have "length (encode_batches e earlier) = length earlier"
    by (induction earlier arbitrary: e) (auto split: prod.split)
  with e' have "drop (length earlier) (encode_batches e (earlier @ base # batches)) =
      encode_batches new_encoder (base # batches)"
    using encode_batches_base [OF assms(2), of e' batches] by simp
  with decode_encode_batches [OF in_step_new assms(1)] show ?thesis by simp
qed

theorem codec_recovers_witness:
  "decode_batches [] (map (encoded 0) (drop (length [[OSet [Key [97]] JNull], [OSet [Key [97]] JNull]])
      (encode_batches new_encoder ([[OSet [Key [97]] JNull], [OSet [Key [97]] JNull]] @
        [OReplace JNull] # [[OSet [Key [97]] JNull]])))) = Inr ([OReplace JNull] # [[OSet [Key [97]] JNull]])"
  by (rule codec_recovers)
    (simp_all add: valid_op_def assert_path_arg_def reserved_segments_def js_def is_base_def is_replace_def)

section \<open>What is read is valid\<close>



















end
