(* ===== verification/Pending.thy ===== *)
theory Pending
  imports Kinds PathKey
begin

text \<open>
  The pending queue \<open>packages/chord/src/delta/pending.ts\<close>: the operations a slow consumer has not
  taken yet, folded while they wait.
\<close>

section \<open>State\<close>

definition max_pending_ops :: nat where
  "max_pending_ops = 10000"

record folding =
  fold_ops :: "op list"
  fold_leaves :: "(jsstr \<times> nat) list"

datatype pending = PEmpty | PBatch "op list" | PFolding folding | PReplace

datatype taken = TakeOps "op list" | TakeReplace

section \<open>Folding\<close>

fun merge :: "op \<Rightarrow> op \<Rightarrow> op option" where
  "merge previous (OSet p v) = Some (OSet p v)"
| "merge (OAppend q s) (OAppend p t) = Some (OAppend q (s @ t))"
| "merge (OSet q (JStr s)) (OAppend p t) = Some (OSet q (JStr (s @ t)))"
| "merge _ _ = None"

text \<open>The flag says whether the operation was merged.\<close>

definition merge_leaf :: "op \<Rightarrow> folding \<Rightarrow> bool \<times> folding" where
  "merge_leaf op f =
     (let key = path_key (op_path op);
          indexed = f\<lparr>fold_leaves := al_put key (length (fold_ops f)) (fold_leaves f)\<rparr>
      in case map_of (fold_leaves f) key of
           None \<Rightarrow> (False, indexed)
         | Some at \<Rightarrow>
             (case merge (fold_ops f ! at) op of
                None \<Rightarrow> (False, indexed)
              | Some merged \<Rightarrow> (True, f\<lparr>fold_ops := (fold_ops f)[at := merged]\<rparr>)))"

text \<open>\<open>None\<close>: the queue overflowed.\<close>

definition push_op :: "op \<Rightarrow> folding \<Rightarrow> folding option" where
  "push_op op f =
     (let f' = f\<lparr>fold_ops := fold_ops f @ [op]\<rparr>
      in if max_pending_ops < length (fold_ops f') then None else Some f')"

definition fold_leaf :: "op \<Rightarrow> folding \<Rightarrow> folding option" where
  "fold_leaf op f = (let (merged, f') = merge_leaf op f in if merged then Some f' else push_op op f')"

fun fold_op :: "op \<Rightarrow> folding \<Rightarrow> folding option" where
  "fold_op (OReplace v) f = push_op (OReplace v) \<lparr>fold_ops = [], fold_leaves = []\<rparr>"
| "fold_op (OAppend p s) f = fold_leaf (OAppend p s) f"
| "fold_op (OSet p v) f =
     (if is_container v then push_op (OSet p v) (f\<lparr>fold_leaves := []\<rparr>) else fold_leaf (OSet p v) f)"
| "fold_op op f = push_op op (f\<lparr>fold_leaves := []\<rparr>)"

fun fold_all :: "op list \<Rightarrow> folding \<Rightarrow> folding option" where
  "fold_all [] f = Some f"
| "fold_all (op # ops) f = (case fold_op op f of None \<Rightarrow> None | Some f' \<Rightarrow> fold_all ops f')"

definition folded :: "folding option \<Rightarrow> pending" where
  "folded r = (case r of None \<Rightarrow> PReplace | Some f \<Rightarrow> PFolding f)"

section \<open>The queue\<close>

definition push :: "op list \<Rightarrow> pending \<Rightarrow> pending" where
  "push ops state =
     (if ops = [] then state
      else if is_base ops then PBatch ops
      else case state of
        PEmpty \<Rightarrow> PBatch ops
      | PBatch earlier \<Rightarrow>
          (case fold_all earlier \<lparr>fold_ops = [], fold_leaves = []\<rparr> of
             None \<Rightarrow> PReplace
           | Some f \<Rightarrow> folded (fold_all ops f))
      | PFolding f \<Rightarrow> folded (fold_all ops f)
      | PReplace \<Rightarrow> PReplace)"

fun pending_size :: "pending \<Rightarrow> nat" where
  "pending_size PEmpty = 0"
| "pending_size (PBatch ops) = length ops"
| "pending_size (PFolding f) = length (fold_ops f)"
| "pending_size PReplace = 1"

fun take_pending :: "pending \<Rightarrow> taken \<times> pending" where
  "take_pending PEmpty = (TakeOps [], PEmpty)"
| "take_pending (PBatch ops) = (TakeOps ops, PEmpty)"
| "take_pending (PFolding f) = (TakeOps (fold_ops f), PEmpty)"
| "take_pending PReplace = (TakeReplace, PEmpty)"

section \<open>Leaf operations\<close>

fun is_leaf :: "op \<Rightarrow> bool" where
  "is_leaf (OAppend _ _) = True"
| "is_leaf (OSet _ v) = (\<not> is_container v)"
| "is_leaf _ = False"

lemma primitive_norm: "\<not> is_container v \<Longrightarrow> primitive (norm v)"
  by (cases v) auto

lemma leaf_effect_op: "is_leaf op \<Longrightarrow> leaf_effect (effect op)"
  unfolding leaf_effect_def
  by (cases op) (auto simp: primitive_norm elim!: effect.elims)

lemma leaf_path: "is_leaf op \<Longrightarrow> valid_op op \<Longrightarrow> op_path op \<noteq> []"
  by (cases op) (auto simp: valid_op_def assert_path_arg_def)

lemma leaf_valid: "is_leaf op \<Longrightarrow> valid_op op \<longleftrightarrow> assert_path_arg (op_path op) True = Inr ()"
  by (cases op) (auto simp: valid_op_def)

text \<open>What a merged operation does at its place is what the two did, one after the other.\<close>

lemma merge_effect:
  assumes "merge prev next = Some merged" "is_leaf prev" "is_leaf next" "op_path prev = op_path next"
  shows "is_leaf merged \<and> op_path merged = op_path next \<and>
    (\<exists>h. \<forall>z v. effect prev z = Some (Some v) \<longrightarrow>
      effect next (Some v) = Some (Some (h v)) \<and> effect merged z = Some (Some (h v)))"
  using assms
proof (cases "(prev, next)" rule: merge.cases)
  case (1 p p' v)
  with assms show ?thesis by (auto intro!: exI [of _ "\<lambda>_. norm v"])
next
  case (2 q s p t)
  have "effect (OAppend q s) z = Some (Some v) \<Longrightarrow> \<exists>u. z = Some (AStr u) \<and> v = AStr (u @ s)" for z v
    by (auto elim!: effect.elims)
  with 2 assms show ?thesis
    by (auto intro!: exI [of _ "\<lambda>v. case v of AStr u \<Rightarrow> AStr (u @ t) | _ \<Rightarrow> v"]) (fastforce+)
next
  case (3 q s p t)
  with assms show ?thesis by (auto intro!: exI [of _ "\<lambda>v. case v of AStr u \<Rightarrow> AStr (u @ t) | _ \<Rightarrow> v"])
qed auto

lemma leaf_meaning:
  assumes "is_leaf op" "kinded_meaning op x = Some y"
  obtains a b where "x = Some a" "y = Some b" "valid_op op" "kinded_path (op_path op) (effect op) (Some a) = Some (Some b)"
proof -
  from assms(2) have v: "valid_op op" "kinded_path (op_path op) (effect op) x = Some y"
    by (auto simp: kinded_meaning_def split: if_splits)
  from leaf_path [OF assms(1) v(1)] v(2) obtain a where "x = Some a"
    by (cases "op_path op"; cases x) auto
  moreover obtain b where "y = Some b"
    using kinded_path_keeps [OF leaf_effect_op [OF assms(1)]] v(2) by (cases y) auto
  ultimately show ?thesis using that v by blast
qed

definition leaves_off :: "path \<Rightarrow> op list \<Rightarrow> bool" where
  "leaves_off p ops \<longleftrightarrow> (\<forall>op \<in> set ops. is_leaf op \<and> op_path op \<noteq> p)"

lemma leaves_off_Cons [simp]: "leaves_off p (op # ops) \<longleftrightarrow> is_leaf op \<and> op_path op \<noteq> p \<and> leaves_off p ops"
  by (auto simp: leaves_off_def)

lemma blocked_run:
  "leaves_off p mid \<Longrightarrow> blocked p a \<Longrightarrow> kinded_run mid (Some a) = Some (Some b) \<Longrightarrow> blocked p b"
proof (induction mid arbitrary: a)
  case (Cons op mid)
  then obtain c where c: "kinded_path (op_path op) (effect op) (Some a) = Some (Some c)"
      "kinded_run mid (Some c) = Some (Some b)"
    by (auto elim!: leaf_meaning split: option.splits)
  from Cons.prems(1) have leaf: "is_leaf op" "leaves_off p mid" by auto
  from Cons.IH [OF leaf(2) blocked_stays [OF leaf_effect_op [OF leaf(1)] Cons.prems(2) c(1)] c(2)]
  show ?case .
qed simp

lemma leaves_commute:
  "leaves_off p mid \<Longrightarrow> kinded_run mid (Some a) = Some (Some b) \<Longrightarrow> \<not> blocked p b \<Longrightarrow>
   kinded_at p a = Some v \<Longrightarrow> primitive v \<Longrightarrow>
   kinded_at p b = Some v \<and> kinded_run mid (Some (kinded_put p w a)) = Some (Some (kinded_put p w b))"
proof (induction mid arbitrary: a)
  case (Cons op mid)
  from Cons.prems(1,2) obtain c where c: "valid_op op"
      "kinded_path (op_path op) (effect op) (Some a) = Some (Some c)" "kinded_run mid (Some c) = Some (Some b)"
    by (auto elim!: leaf_meaning split: option.splits)
  have "\<not> blocked p c" using blocked_run [OF _ _ c(3)] Cons.prems(1,3) by auto
  from leaf_commutes [OF leaf_effect_op, of op p "op_path op" a v c w] this Cons.prems c
  have "kinded_at p c = Some v"
    "kinded_path (op_path op) (effect op) (Some (kinded_put p w a)) = Some (Some (kinded_put p w c))" by auto
  with Cons.IH [OF _ c(3) Cons.prems(3)] Cons.prems(1,5) c(1) show ?case
    by (simp add: kinded_meaning_def)
qed simp

lemma merge_run:
  assumes run: "kinded_run (pre @ prev # mid) x = Some y" and next_op: "kinded_meaning next y = Some z"
    and leaf: "is_leaf prev" "is_leaf next" "op_path prev = op_path next" "leaves_off (op_path next) mid"
    and m: "merge prev next = Some merged"
  shows "kinded_run (pre @ merged # mid) x = Some z"
proof -
  let ?p = "op_path next"
  from run obtain y0 y1 where r: "kinded_run pre x = Some y0" "kinded_meaning prev y0 = Some y1" "kinded_run mid y1 = Some y"
    by (auto simp: kinded_run_append split: option.splits)
  from leaf_meaning [OF leaf(1) r(2)] obtain a b where ab: "y0 = Some a" "y1 = Some b" "valid_op prev"
      "kinded_path ?p (effect prev) (Some a) = Some (Some b)" by (metis leaf(3))
  from leaf_meaning [OF leaf(2) next_op] obtain c d where cd: "y = Some c" "z = Some d" "valid_op next"
      "kinded_path ?p (effect next) (Some c) = Some (Some d)" .
  from merge_effect [OF m leaf(1-3)] obtain h where merged: "is_leaf merged" "op_path merged = ?p"
    and h: "\<And>u v. effect prev u = Some (Some v) \<Longrightarrow> effect next (Some v) = Some (Some (h v))"
      "\<And>u v. effect prev u = Some (Some v) \<Longrightarrow> effect merged u = Some (Some (h v))" by blast
  obtain u v where v: "effect prev u = Some (Some v)" "primitive v" "kinded_at ?p b = Some v"
      "kinded_path ?p (effect merged) (Some a) = Some (Some (kinded_put ?p (h v) b))"
    using leaf_composes [where g = "effect merged" and h = h, OF leaf_effect_op [OF leaf(1)] h(2) ab(4)] by blast
  have "\<not> blocked ?p c" using blocked_fails [OF _ leaf_effect_op [OF leaf(2)], of ?p c] cd(4) by auto
  from leaves_commute [OF leaf(4) r(3) [unfolded ab(2) cd(1)] this v(3,2), of "h v"]
  have "kinded_at ?p c = Some v"
    and mid: "kinded_run mid (Some (kinded_put ?p (h v) b)) = Some (Some (kinded_put ?p (h v) c))" by auto
  with kinded_path_at [of ?p c v "effect next" "h v"] h(1) [OF v(1)] cd(4) have "d = kinded_put ?p (h v) c" by simp
  moreover have "valid_op merged"
    using cd(3) merged leaf_valid [OF leaf(2)] leaf_valid [OF merged(1)] by simp
  ultimately show ?thesis
    using r(1) v(4) merged(2) mid ab(1) cd(2) by (simp add: kinded_run_append kinded_meaning_def)
qed

section \<open>Folding keeps the meaning\<close>

text \<open>
  Each entry of the leaf index points at a leaf operation on its path, with only leaf operations on
  other paths after it.
\<close>

definition index_ok :: "folding \<Rightarrow> bool" where
  "index_ok f \<longleftrightarrow>
     (\<forall>key at. map_of (fold_leaves f) key = Some at \<longrightarrow>
        (\<exists>pre op mid. fold_ops f = pre @ op # mid \<and> length pre = at \<and> is_leaf op \<and>
           path_key (op_path op) = key \<and> leaves_off (op_path op) mid))"

text \<open>The folded operations do what the operations \<open>hist\<close> did, wherever those succeed.\<close>

definition does :: "op list \<Rightarrow> op list \<Rightarrow> bool" where
  "does ops hist \<longleftrightarrow> (\<forall>x y. kinded_run hist x = Some y \<longrightarrow> kinded_run ops x = Some y)"

lemma does_append: "does ops hist \<Longrightarrow> does (ops @ [op]) (hist @ [op])"
  unfolding does_def kinded_run_append by (auto split: option.splits)

lemma does_replace: "does [OReplace v] (hist @ [OReplace v])"
  unfolding does_def kinded_run_append
  by (auto simp: kinded_meaning_def valid_op_def split: option.splits)

lemma push_op_ok:
  assumes "does (fold_ops f) hist" "push_op op f = Some f'" "index_ok (f\<lparr>fold_ops := fold_ops f @ [op]\<rparr>)"
  shows "does (fold_ops f') (hist @ [op]) \<and> index_ok f'"
  using assms does_append by (auto simp: push_op_def Let_def split: if_splits)

lemma index_ok_cleared [simp]: "index_ok (f\<lparr>fold_leaves := []\<rparr>)" "index_ok \<lparr>fold_ops = ops, fold_leaves = []\<rparr>"
  "index_ok (f\<lparr>fold_leaves := [], fold_ops := ops\<rparr>)"
  by (simp_all add: index_ok_def)

lemma index_ok_push:
  assumes "index_ok f" "is_leaf op"
  shows "index_ok (f\<lparr>fold_leaves := al_put (path_key (op_path op)) (length (fold_ops f)) (fold_leaves f),
    fold_ops := fold_ops f @ [op]\<rparr>)"
  unfolding index_ok_def
proof (intro allI impI, goal_cases)
  case (1 key at)
  show ?case
  proof (cases "key = path_key (op_path op)")
    case True
    with 1 assms(2) show ?thesis by (auto simp: alist_simps leaves_off_def intro: exI [of _ "fold_ops f"])
  next
    case False
    with 1 have "map_of (fold_leaves f) key = Some at" by (simp add: alist_simps)
    with assms(1) obtain pre op' mid where o: "fold_ops f = pre @ op' # mid" "length pre = at" "is_leaf op'"
        "path_key (op_path op') = key" "leaves_off (op_path op') mid" unfolding index_ok_def by blast
    with False assms(2) have "leaves_off (op_path op') (mid @ [op])" by (auto simp: leaves_off_def)
    with o show ?thesis by (intro exI [of _ pre] exI [of _ op'] exI [of _ "mid @ [op]"]) simp
  qed
qed

lemma split_before:
  assumes "xs @ x # ys = us @ u # vs" "length xs < length us"
  shows "\<exists>m. us = xs @ x # m \<and> ys = m @ u # vs"
proof -
  have "take (length xs) us = xs" using arg_cong [OF assms(1), of "take (length xs)"] assms(2) by simp
  then obtain zs where zs: "us = xs @ zs" by (metis append_take_drop_id)
  with assms show ?thesis by (cases zs) auto
qed

lemma index_ok_merge:
  assumes ok: "index_ok f" and f: "fold_ops f = pre @ prev # mid" and leaf: "is_leaf merged" "op_path merged = op_path prev"
  shows "index_ok (f\<lparr>fold_ops := pre @ merged # mid\<rparr>)"
  unfolding index_ok_def
proof (intro allI impI, goal_cases)
  case (1 key at)
  with ok obtain pre' op mid' where o: "fold_ops f = pre' @ op # mid'" "length pre' = at" "is_leaf op"
      "path_key (op_path op) = key" "leaves_off (op_path op) mid'" unfolding index_ok_def by fastforce
  consider "length pre' = length pre" | "length pre' < length pre" | "length pre < length pre'" by linarith
  then show ?case
  proof cases
    case 1
    then have "pre' = pre" "op = prev" "mid' = mid"
      using o(1) [unfolded f] by (simp_all add: append_eq_append_conv)
    with o leaf show ?thesis by (intro exI [of _ pre] exI [of _ merged] exI [of _ mid]) simp
  next
    case 2
    then obtain m where m: "pre = pre' @ op # m" "mid' = m @ prev # mid"
      using split_before [of pre' op mid' pre prev mid] o(1) f by auto
    with o(5) leaf have "leaves_off (op_path op) (m @ merged # mid)" by (auto simp: leaves_off_def)
    with m o show ?thesis by (intro exI [of _ pre'] exI [of _ op] exI [of _ "m @ merged # mid"]) simp
  next
    case 3
    then obtain m where "pre' = pre @ prev # m" "mid = m @ op # mid'"
      using split_before [of pre prev mid pre' op mid'] o(1) f by auto
    with o show ?thesis by (intro exI [of _ "pre @ merged # m"] exI [of _ op] exI [of _ mid']) simp
  qed
qed

lemma fold_leaf_ok:
  assumes ok: "index_ok f" "does (fold_ops f) hist" and leaf: "is_leaf op" and r: "fold_leaf op f = Some f'"
  shows "does (fold_ops f') (hist @ [op]) \<and> index_ok f'"
proof -
  let ?key = "path_key (op_path op)"
  let ?f = "f\<lparr>fold_leaves := al_put ?key (length (fold_ops f)) (fold_leaves f)\<rparr>"
  have new: ?thesis if "push_op op ?f = Some f'"
    using push_op_ok [OF _ that] index_ok_push [OF ok(1) leaf] ok(2) by simp
  show ?thesis
  proof (cases "map_of (fold_leaves f) ?key")
    case None
    with r new show ?thesis by (simp add: fold_leaf_def merge_leaf_def)
  next
    case (Some at)
    with ok(1) obtain pre prev mid where p: "fold_ops f = pre @ prev # mid" "length pre = at" "is_leaf prev"
        "op_path prev = op_path op" "leaves_off (op_path prev) mid"
      unfolding index_ok_def using path_key_inj by blast
    show ?thesis
    proof (cases "merge prev op")
      case None
      with Some r new p show ?thesis by (simp add: fold_leaf_def merge_leaf_def nth_append)
    next
      case m: (Some merged)
      with Some r p have f': "f' = f\<lparr>fold_ops := pre @ merged # mid\<rparr>"
        by (auto simp: fold_leaf_def merge_leaf_def nth_append list_update_append)
      note me = merge_effect [OF m p(3) leaf p(4)]
      have "kinded_run (pre @ merged # mid) x = Some z" if "kinded_run (hist @ [op]) x = Some z" for x z
      proof -
        from that obtain y where "kinded_run hist x = Some y" "kinded_meaning op y = Some z"
          by (auto simp: kinded_run_append split: option.splits)
        with ok(2) p show ?thesis
          by (intro merge_run [OF _ _ p(3) leaf p(4) _ m]) (auto simp: does_def)
      qed
      with index_ok_merge [OF ok(1) p(1)] me p(4) f' show ?thesis by (auto simp: does_def)
    qed
  qed
qed

lemma fold_op_ok:
  assumes "index_ok f" "does (fold_ops f) hist" "fold_op op f = Some f'"
  shows "does (fold_ops f') (hist @ [op]) \<and> index_ok f'"
proof (cases "is_leaf op")
  case True
  then have "fold_op op f = fold_leaf op f" by (cases op) auto
  with fold_leaf_ok [OF assms(1,2) True] assms(3) show ?thesis by simp
next
  case False
  show ?thesis
  proof (cases "\<exists>v. op = OReplace v")
    case True
    with assms(3) show ?thesis using does_replace by (auto simp: push_op_def Let_def split: if_splits)
  next
    case nr: False
    with False have "fold_op op f = push_op op (f\<lparr>fold_leaves := []\<rparr>)" by (cases op) auto
    with push_op_ok [of "f\<lparr>fold_leaves := []\<rparr>" hist op f'] assms(2,3) show ?thesis by simp
  qed
qed

lemma fold_all_ok:
  "index_ok f \<Longrightarrow> does (fold_ops f) hist \<Longrightarrow> fold_all ops f = Some f' \<Longrightarrow>
   does (fold_ops f') (hist @ ops) \<and> index_ok f'"
proof (induction ops arbitrary: f hist)
  case (Cons op ops)
  then obtain f1 where f1: "fold_op op f = Some f1" "fold_all ops f1 = Some f'" by (auto split: option.splits)
  from fold_op_ok [OF Cons.prems(1,2) f1(1)] Cons.IH [of f1 "hist @ [op]"] f1(2) show ?case by simp
qed simp

lemma does_refl [simp]: "does ops ops"
  by (simp add: does_def)

lemma fold_all_new:
  "fold_all ops \<lparr>fold_ops = [], fold_leaves = []\<rparr> = Some f \<Longrightarrow> does (fold_ops f) ops \<and> index_ok f"
  using fold_all_ok [of "\<lparr>fold_ops = [], fold_leaves = []\<rparr>" "[]" ops f] by simp

text \<open>What the queue holds does what was pushed since it was last empty.\<close>

fun holds :: "op list \<Rightarrow> pending \<Rightarrow> bool" where
  "holds hist PEmpty = (hist = [])"
| "holds hist (PBatch ops) = does ops hist"
| "holds hist (PFolding f) = (does (fold_ops f) hist \<and> index_ok f \<and> length (fold_ops f) \<le> max_pending_ops)"
| "holds hist PReplace = True"

lemma does_base: "is_base ops \<Longrightarrow> does ops (hist @ ops)"
proof (cases ops)
  case (Cons op rest)
  assume "is_base ops"
  with Cons obtain v where v: "op = OReplace v" by (cases op) (auto simp: is_base_def is_replace_def)
  show ?thesis
    unfolding does_def kinded_run_append Cons v
    by (auto simp: kinded_meaning_def valid_op_def split: option.splits)
qed (simp add: is_base_def)

lemma fold_all_bound:
  "fold_all ops f = Some f' \<Longrightarrow> length (fold_ops f) \<le> max_pending_ops \<Longrightarrow> length (fold_ops f') \<le> max_pending_ops"
proof (induction ops arbitrary: f)
  case (Cons op ops)
  then obtain f1 where f1: "fold_op op f = Some f1" "fold_all ops f1 = Some f'" by (auto split: option.splits)
  have push: "push_op op g = Some f1 \<Longrightarrow> length (fold_ops f1) \<le> max_pending_ops" for op g
    by (auto simp: push_op_def Let_def split: if_splits)
  have "fold_leaf op f = Some f1 \<Longrightarrow> length (fold_ops f1) \<le> max_pending_ops" for op
    using Cons.prems(2) push by (auto simp: fold_leaf_def merge_leaf_def Let_def split: prod.splits option.splits if_splits)
  with f1(1) push have "length (fold_ops f1) \<le> max_pending_ops" by (cases op) (auto split: if_splits)
  with Cons.IH f1(2) show ?case by blast
qed simp

lemma holds_folded:
  assumes "does (fold_ops f) hist" "index_ok f" "length (fold_ops f) \<le> max_pending_ops"
  shows "holds (hist @ ops) (folded (fold_all ops f))"
  using fold_all_ok [OF assms(2,1)] fold_all_bound [OF _ assms(3)]
  by (auto simp: folded_def split: option.split)

lemma holds_push: "holds hist st \<Longrightarrow> holds (hist @ ops) (push ops st)"
proof (cases "ops = [] \<or> is_base ops")
  case True
  then show "holds hist st \<Longrightarrow> holds (hist @ ops) (push ops st)"
    using does_base by (auto simp: push_def)
next
  case False
  assume h: "holds hist st"
  show ?thesis
  proof (cases st)
    case (PBatch earlier)
    show ?thesis
    proof (cases "fold_all earlier \<lparr>fold_ops = [], fold_leaves = []\<rparr>")
      case (Some f)
      have "does (fold_ops f) hist"
        using h PBatch fold_all_new [OF Some] by (auto simp: does_def)
      with holds_folded fold_all_new [OF Some] fold_all_bound [OF Some] False PBatch Some show ?thesis
        by (simp add: push_def)
    qed (use False PBatch in \<open>simp add: push_def\<close>)
  qed (use h False holds_folded in \<open>auto simp: push_def\<close>)
qed

lemma holds_pushes: "holds hist st \<Longrightarrow> holds (hist @ concat batches) (fold push batches st)"
proof (induction batches arbitrary: hist st)
  case (Cons ops batches)
  from Cons.IH [OF holds_push [OF Cons.prems]] show ?case by simp
qed simp

section \<open>What a consumer gets\<close>

text \<open>What the owner of the queue sends for a taken value, \<open>current\<close> being the current one.\<close>

definition deliver :: "json \<Rightarrow> taken \<Rightarrow> op list" where
  "deliver current t = (case t of TakeOps ops \<Rightarrow> ops | TakeReplace \<Rightarrow> [OReplace current])"

lemma pending_delivers:
  assumes "kinded_run (concat batches) x = Some (Some (norm current))"
    and "take_pending (fold push batches PEmpty) = (t, rest)"
  shows "kinded_run (deliver current t) x = Some (Some (norm current))"
proof -
  have h: "holds (concat batches) (fold push batches PEmpty)"
    using holds_pushes [of "[]" PEmpty batches] by simp
  show ?thesis
  proof (cases "fold push batches PEmpty")
    case PReplace
    with assms(2) show ?thesis by (auto simp: deliver_def kinded_meaning_def valid_op_def)
  next
    case PEmpty
    then have "concat batches = []" using h by (simp del: concat_eq_Nil_conv)
    with assms PEmpty show ?thesis by (auto simp: deliver_def simp del: concat_eq_Nil_conv)
  qed (use h assms in \<open>auto simp: deliver_def does_def\<close>)
qed

text \<open>
  C9: A slow consumer ends where a fast one does. If batches whose paths fit the values, applied in
  order, take a consumer's value to the current one, then so does what the queue hands over for them:
  after folding, after a batch that drops what was pending, and after an overflow.
\<close>

theorem pending_converges:
  assumes "kinded_run (concat batches) x = Some (Some (norm current))"
    and "take_pending (fold push batches PEmpty) = (t, rest)"
  shows "run_ops (deliver current t) x = Some (Some (norm current))"
  by (rule kinded_run_ops [OF pending_delivers [OF assms]])

theorem pending_converges_witness:
  "run_ops (deliver (JObj 0 [([97], JStr [120, 121])])
      (fst (take_pending (fold push [[OSet [Key [97]] (JStr [120])], [OAppend [Key [97]] [121]]] PEmpty))))
     (Some (AObj fmempty)) = Some (Some (norm (JObj 0 [([97], JStr [120, 121])])))"
  by (rule pending_converges [OF _ surjective_pairing, of "[[OSet [Key [97]] (JStr [120])], [OAppend [Key [97]] [121]]]"])
    (simp add: kinded_meaning_def valid_op_def assert_path_arg_def reserved_segments_def js_def alter_object_def fmap_ext)

text \<open>
  However many batches are pushed, the queue holds at most 10000 operations, unless it holds a
  single batch as it was received.
\<close>

theorem pending_bounded:
  "pending_size (fold push batches PEmpty) \<le> 10000 \<or>
   (\<exists>ops \<in> set batches. fold push batches PEmpty = PBatch ops)"
proof (induction batches rule: rev_induct)
  case (snoc ops batches)
  define st where "st = fold push batches PEmpty"
  have step: "fold push (batches @ [ops]) PEmpty = push ops st" by (simp add: st_def)
  have "holds (concat batches) st"
    using holds_pushes [of "[]" PEmpty batches] by (simp add: st_def)
  then have h: "holds (concat batches @ ops) (push ops st)" by (rule holds_push)
  show ?case
    unfolding step
  proof (cases "push ops st")
    case (PBatch ops')
    then have "ops' = ops \<or> st = PBatch ops'"
      by (auto simp: push_def folded_def split: if_splits pending.splits option.splits)
    with PBatch snoc show "pending_size (push ops st) \<le> 10000 \<or> (\<exists>ops' \<in> set (batches @ [ops]). push ops st = PBatch ops')"
      unfolding st_def [symmetric] by auto
  qed (use h in \<open>auto simp: max_pending_ops_def\<close>)
qed simp

end
