(* ===== verification/Utf8.thy ===== *)
theory Utf8
  imports Js
begin

text \<open>
  The text encodings the codecs use: \<open>TextEncoder.encode\<close>, which writes U+FFFD for a lone surrogate,
  and a \<open>TextDecoder\<close> for utf-8 with \<open>fatal\<close> and \<open>ignoreBOM\<close>, which refuses malformed input and keeps
  a byte order mark. Both are the algorithms of the WHATWG Encoding Standard, on UTF-16 code units.
\<close>

type_synonym byte = "8 word"

section \<open>UTF-16\<close>

definition lead_unit :: "16 word \<Rightarrow> bool" where
  "lead_unit u \<longleftrightarrow> 0xD800 \<le> unat u \<and> unat u < 0xDC00"

definition trail_unit :: "16 word \<Rightarrow> bool" where
  "trail_unit u \<longleftrightarrow> 0xDC00 \<le> unat u \<and> unat u < 0xE000"

definition pair_point :: "16 word \<Rightarrow> 16 word \<Rightarrow> nat" where
  "pair_point u v = 0x10000 + (unat u - 0xD800) * 0x400 + (unat v - 0xDC00)"

text \<open>The scalar values of a string; every unpaired surrogate reads as the replacement character.\<close>

fun scalars :: "jsstr \<Rightarrow> nat list" where
  "scalars [] = []"
| "scalars (u # us) =
     (if lead_unit u then
        (case us of
           v # vs \<Rightarrow> (if trail_unit v then pair_point u v # scalars vs else 0xFFFD # scalars us)
         | [] \<Rightarrow> [0xFFFD])
      else if trail_unit u then 0xFFFD # scalars us
      else unat u # scalars us)"

definition units_of_point :: "nat \<Rightarrow> jsstr" where
  "units_of_point c =
     (if c < 0x10000 then [of_nat c]
      else [of_nat (0xD800 + (c - 0x10000) div 0x400), of_nat (0xDC00 + (c - 0x10000) mod 0x400)])"

definition units :: "nat list \<Rightarrow> jsstr" where
  "units cs = concat (map units_of_point cs)"

text \<open>A string without unpaired surrogates.\<close>

fun well_formed :: "jsstr \<Rightarrow> bool" where
  "well_formed [] = True"
| "well_formed (u # us) =
     (if lead_unit u then (case us of v # vs \<Rightarrow> trail_unit v \<and> well_formed vs | [] \<Rightarrow> False)
      else \<not> trail_unit u \<and> well_formed us)"

definition scalar_code :: "nat \<Rightarrow> bool" where
  "scalar_code c \<longleftrightarrow> c < 0xD800 \<or> 0xE000 \<le> c \<and> c < 0x110000"

section \<open>UTF-8\<close>

definition point_bytes :: "nat \<Rightarrow> byte list" where
  "point_bytes c =
     (if c < 0x80 then [of_nat c]
      else if c < 0x800 then [of_nat (0xC0 + c div 0x40), of_nat (0x80 + c mod 0x40)]
      else if c < 0x10000 then
        [of_nat (0xE0 + c div 0x1000), of_nat (0x80 + c div 0x40 mod 0x40), of_nat (0x80 + c mod 0x40)]
      else [of_nat (0xF0 + c div 0x40000), of_nat (0x80 + c div 0x1000 mod 0x40),
            of_nat (0x80 + c div 0x40 mod 0x40), of_nat (0x80 + c mod 0x40)])"

definition utf8_encode :: "jsstr \<Rightarrow> byte list" where
  "utf8_encode s = concat (map point_bytes (scalars s))"

text \<open>
  The continuation bytes of a code point: the standard narrows the range of the first one so that
  overlong forms, surrogates and values above U+10FFFF are malformed.
\<close>

definition between :: "nat \<Rightarrow> nat \<Rightarrow> byte \<Rightarrow> bool" where
  "between lo hi b \<longleftrightarrow> lo \<le> unat b \<and> unat b \<le> hi"

definition tail6 :: "byte \<Rightarrow> nat" where
  "tail6 b = unat b mod 0x40"

fun utf8_points :: "byte list \<Rightarrow> nat list option" where
  "utf8_points [] = Some []"
| "utf8_points (a # bs) =
     (if unat a < 0x80 then map_option ((#) (unat a)) (utf8_points bs)
      else if between 0xC2 0xDF a then
        (case bs of
           b # cs \<Rightarrow>
             (if between 0x80 0xBF b
              then map_option ((#) (unat a mod 0x20 * 0x40 + tail6 b)) (utf8_points cs) else None)
         | _ \<Rightarrow> None)
      else if between 0xE0 0xEF a then
        (case bs of
           b # c # ds \<Rightarrow>
             (if between (if a = 0xE0 then 0xA0 else 0x80) (if a = 0xED then 0x9F else 0xBF) b
                 \<and> between 0x80 0xBF c
              then map_option ((#) (unat a mod 0x10 * 0x1000 + tail6 b * 0x40 + tail6 c)) (utf8_points ds)
              else None)
         | _ \<Rightarrow> None)
      else if between 0xF0 0xF4 a then
        (case bs of
           b # c # d # es \<Rightarrow>
             (if between (if a = 0xF0 then 0x90 else 0x80) (if a = 0xF4 then 0x8F else 0xBF) b
                 \<and> between 0x80 0xBF c \<and> between 0x80 0xBF d
              then map_option ((#) (unat a mod 0x8 * 0x40000 + tail6 b * 0x1000 + tail6 c * 0x40 + tail6 d))
                     (utf8_points es)
              else None)
         | _ \<Rightarrow> None)
      else None)"

definition utf8_decode :: "byte list \<Rightarrow> jsstr option" where
  "utf8_decode bs = map_option units (utf8_points bs)"

section \<open>UTF-16 and scalar values\<close>

lemma unat16: "n < 0x10000 \<Longrightarrow> unat (of_nat n :: 16 word) = n"
  by (simp add: unsigned_of_nat take_bit_eq_mod)

lemma unat16_bound: "unat (u :: 16 word) < 0x10000"
  using unsigned_less [of u] by simp

lemma unat8: "n < 0x100 \<Longrightarrow> unat (of_nat n :: byte) = n"
  by (simp add: unsigned_of_nat take_bit_eq_mod)

lemma unat8_bound: "unat (b :: byte) < 0x100"
  using unsigned_less [of b] by simp

lemma pair_units: "lead_unit u \<Longrightarrow> trail_unit v \<Longrightarrow> units_of_point (pair_point u v) = [u, v]"
proof -
  assume "lead_unit u" and "trail_unit v"
  then have u: "0xD800 \<le> unat u" "unat u < 0xDC00" and v: "0xDC00 \<le> unat v" "unat v < 0xE000"
    by (auto simp: lead_unit_def trail_unit_def)
  let ?n = "(unat u - 0xD800) * 0x400 + (unat v - 0xDC00)"
  have small: "unat v - 0xDC00 < 0x400"
    using v by simp
  have "?n div 0x400 = unat u - 0xD800" "?n mod 0x400 = unat v - 0xDC00"
    using small by (rule digit_div, rule digit_mod)
  then show ?thesis
    using u v by (simp add: units_of_point_def pair_point_def)
qed

lemma units_scalars: "well_formed s \<Longrightarrow> units (scalars s) = s"
proof (induction s rule: scalars.induct)
  case (2 u us)
  show ?case
  proof (cases "lead_unit u")
    case True
    then obtain v vs where us: "us = v # vs" "trail_unit v" "well_formed vs"
      using 2 by (auto split: list.splits)
    then show ?thesis
      using True 2 by (auto simp: units_def pair_units)
  next
    case False
    then show ?thesis
      using 2 unat16_bound [of u] by (auto simp: units_def units_of_point_def)
  qed
qed (simp add: units_def)

lemma scalars_valid: "list_all scalar_code (scalars s)"
proof (induction s rule: scalars.induct)
  case (2 u us)
  have "scalar_code (unat u)" if "\<not> lead_unit u" "\<not> trail_unit u"
    using that unat16_bound [of u] by (auto simp: scalar_code_def lead_unit_def trail_unit_def)
  moreover have "scalar_code (pair_point u v)" if "lead_unit u" "trail_unit v" for v
  proof -
    have "(unat u - 0xD800) * 0x400 \<le> 0x3FF * 0x400"
      using that by (intro mult_right_mono) (auto simp: lead_unit_def)
    then show ?thesis
      using that by (auto simp: scalar_code_def pair_point_def trail_unit_def)
  qed
  moreover have "scalar_code 0xFFFD"
    by (simp add: scalar_code_def)
  ultimately show ?case
    using 2 by (auto split: list.splits)
qed simp

lemma scalar_units:
  assumes "scalar_code c"
  shows "scalars (units_of_point c @ s) = c # scalars s" "well_formed (units_of_point c @ s) = well_formed s"
proof -
  consider (one) "c < 0x10000" | (two) "0x10000 \<le> c" by linarith
  then have "scalars (units_of_point c @ s) = c # scalars s \<and> well_formed (units_of_point c @ s) = well_formed s"
  proof cases
    case one
    then show ?thesis
      using assms by (auto simp: units_of_point_def unat16 lead_unit_def trail_unit_def scalar_code_def)
  next
    case two
    let ?u = "of_nat (0xD800 + (c - 0x10000) div 0x400) :: 16 word"
    let ?v = "of_nat (0xDC00 + (c - 0x10000) mod 0x400) :: 16 word"
    have "(c - 0x10000) div 0x400 < 0x400"
      using assms by (auto simp: scalar_code_def div_less_iff_less_mult)
    then have u: "unat ?u = 0xD800 + (c - 0x10000) div 0x400" "lead_unit ?u"
      by (simp_all add: unat16 lead_unit_def del: of_nat_add)
    have v: "unat ?v = 0xDC00 + (c - 0x10000) mod 0x400" "trail_unit ?v"
      by (simp_all add: unat16 trail_unit_def del: of_nat_add)
    have "pair_point ?u ?v = c"
      using two by (simp add: pair_point_def u v del: of_nat_add)
    then show ?thesis
      using two u(2) v(2) by (simp add: units_of_point_def del: of_nat_add)
  qed
  then show "scalars (units_of_point c @ s) = c # scalars s" "well_formed (units_of_point c @ s) = well_formed s"
    by simp_all
qed

lemma scalars_units: "list_all scalar_code cs \<Longrightarrow> scalars (units cs) = cs \<and> well_formed (units cs)"
  by (induction cs) (auto simp: units_def scalar_units)

section \<open>UTF-8 and scalar values\<close>

text \<open>Reading the bytes of a code point gives the code point back, and no other bytes give it.\<close>

lemma head_mod: "h < m \<Longrightarrow> a mod m = 0 \<Longrightarrow> (a + h) mod m = (h :: nat)"
  by (metis add_0 mod_add_left_eq mod_less)

lemma digits_three:
  "c div 0x1000 * 0x1000 + c div 0x40 mod 0x40 * 0x40 + c mod 0x40 = (c :: nat)"
proof -
  have "c div 0x40 div 0x40 * 0x40 + c div 0x40 mod 0x40 = c div 0x40"
    by (rule div_mult_mod_eq)
  moreover have "c div 0x40 * 0x40 + c mod 0x40 = c"
    by (rule div_mult_mod_eq)
  moreover have "c div 0x40 div 0x40 = c div 0x1000"
    by (simp add: div_mult2_eq [symmetric])
  ultimately show ?thesis by linarith
qed

lemma digits_four:
  "c div 0x40000 * 0x40000 + c div 0x1000 mod 0x40 * 0x1000 + c div 0x40 mod 0x40 * 0x40 + c mod 0x40
     = (c :: nat)"
proof -
  have "c div 0x1000 div 0x40 * 0x40 + c div 0x1000 mod 0x40 = c div 0x1000"
    by (rule div_mult_mod_eq)
  moreover have "c div 0x1000 div 0x40 = c div 0x40000"
    by (simp add: div_mult2_eq [symmetric])
  ultimately show ?thesis
    using digits_three [of c] by linarith
qed

lemma mod_le63: "c mod 0x40 \<le> (63 :: nat)"
  using mod_less_divisor [of "0x40" c] by simp

lemma points_bytes:
  assumes "scalar_code c"
  shows "utf8_points (point_bytes c @ bs) = map_option ((#) c) (utf8_points bs)"
proof -
  consider (one) "c < 0x80" | (two) "0x80 \<le> c" "c < 0x800" | (three) "0x800 \<le> c" "c < 0x10000"
    | (four) "0x10000 \<le> c" "c < 0x110000"
    using assms unfolding scalar_code_def by linarith
  then show ?thesis
  proof cases
    case one
    then show ?thesis by (simp add: point_bytes_def unat8)
  next
    case two
    let ?a = "c div 0x40" and ?b = "c mod 0x40"
    have d: "?a < 0x20" "2 \<le> ?a"
      using two by (simp_all add: div_less_iff_less_mult less_eq_div_iff_mult_less_eq)
    have "(0xC0 + ?a) mod 0x20 = ?a" "(0x80 + ?b) mod 0x40 = ?b"
      using d by (auto intro!: head_mod)
    with two d show ?thesis
      by (simp add: mod_le63 point_bytes_def unat8 between_def tail6_def del: of_nat_add)
  next
    case three
    let ?a = "c div 0x1000" and ?b = "c div 0x40 mod 0x40" and ?c = "c mod 0x40"
    have d: "?a < 0x10"
      using three by (simp add: div_less_iff_less_mult)
    have low: "?a = 0 \<Longrightarrow> 0x20 \<le> ?b" and high: "?a = 0xD \<Longrightarrow> ?b \<le> 0x1F"
      using three assms digits_three [of c] mod_le63 [of c] unfolding scalar_code_def by linarith+
    have m: "(0xE0 + ?a) mod 0x10 = ?a" "(0x80 + ?b) mod 0x40 = ?b" "(0x80 + ?c) mod 0x40 = ?c"
      using d by (auto intro!: head_mod)
    have bytes: "unat (of_nat (0xE0 + ?a) :: byte) = 0xE0 + ?a" "unat (of_nat (0x80 + ?b) :: byte) = 0x80 + ?b"
      "unat (of_nat (0x80 + ?c) :: byte) = 0x80 + ?c"
      using d by (auto intro!: unat8 simp del: of_nat_add)
    have e: "(of_nat (0xE0 + ?a) :: byte) = 0xE0 \<longleftrightarrow> ?a = 0" "(of_nat (0xE0 + ?a) :: byte) = 0xED \<longleftrightarrow> ?a = 0xD"
      by (simp_all only: word_unat_eq_iff bytes) simp_all
    have "point_bytes c = [of_nat (0xE0 + ?a), of_nat (0x80 + ?b), of_nat (0x80 + ?c)]"
      using three by (simp add: point_bytes_def)
    then show ?thesis
      using d low high digits_three [of c] mod_le63 [of c] mod_le63 [of "c div 0x40"]
      by (simp add: between_def tail6_def bytes e m del: of_nat_add)
  next
    case four
    let ?a = "c div 0x40000" and ?b = "c div 0x1000 mod 0x40" and ?c = "c div 0x40 mod 0x40" and ?d = "c mod 0x40"
    have d: "?a < 5"
      using four by (simp add: div_less_iff_less_mult)
    have low: "?a = 0 \<Longrightarrow> 0x10 \<le> ?b" and high: "?a = 4 \<Longrightarrow> ?b \<le> 0xF"
      using four digits_four [of c] mod_le63 [of c] mod_le63 [of "c div 0x40"] by linarith+
    have m: "(0xF0 + ?a) mod 0x8 = ?a" "(0x80 + ?b) mod 0x40 = ?b" "(0x80 + ?c) mod 0x40 = ?c"
      "(0x80 + ?d) mod 0x40 = ?d"
      using d by (auto intro!: head_mod)
    have bytes: "unat (of_nat (0xF0 + ?a) :: byte) = 0xF0 + ?a" "unat (of_nat (0x80 + ?b) :: byte) = 0x80 + ?b"
      "unat (of_nat (0x80 + ?c) :: byte) = 0x80 + ?c" "unat (of_nat (0x80 + ?d) :: byte) = 0x80 + ?d"
      using d by (auto intro!: unat8 simp del: of_nat_add)
    have e: "(of_nat (0xF0 + ?a) :: byte) = 0xF0 \<longleftrightarrow> ?a = 0" "(of_nat (0xF0 + ?a) :: byte) = 0xF4 \<longleftrightarrow> ?a = 4"
      by (simp_all only: word_unat_eq_iff bytes) simp_all
    have "point_bytes c = [of_nat (0xF0 + ?a), of_nat (0x80 + ?b), of_nat (0x80 + ?c), of_nat (0x80 + ?d)]"
      using four by (simp add: point_bytes_def)
    then show ?thesis
      using d low high digits_four [of c] mod_le63 [of c] mod_le63 [of "c div 0x40"] mod_le63 [of "c div 0x1000"]
      by (simp add: between_def tail6_def bytes e m del: of_nat_add)
  qed
qed

lemma utf8_points_encode: "list_all scalar_code cs \<Longrightarrow> utf8_points (concat (map point_bytes cs)) = Some cs"
  by (induction cs) (simp_all add: points_bytes)

text \<open>What the decoder accepts are scalar values, and encoding them gives the bytes back.\<close>

lemma byte_split:
  assumes "between lo hi b" and "base \<le> lo" and "hi < base + m" and "base mod m = 0"
  obtains x where "unat b = base + x" and "x < m" and "unat b mod m = x"
proof -
  have "unat b = base + (unat b - base)" "unat b - base < m"
    using assms(1-3) by (auto simp: between_def)
  then show thesis
    using that assms(4) by (metis head_mod)
qed

lemma byte_eq: "unat b = n \<Longrightarrow> of_nat n = (b :: byte)"
  by (auto simp: word_unat_eq_iff)

lemma tail_split:
  assumes "between 0x80 0xBF b"
  obtains x where "unat b = 0x80 + x" and "x < 0x40" and "tail6 b = x"
  using byte_split [OF assms, of "0x80" "0x40"] by (auto simp: tail6_def)

lemma two_bytes:
  assumes a: "between 0xC2 0xDF a" and b: "between 0x80 0xBF b"
  shows "scalar_code (unat a mod 0x20 * 0x40 + tail6 b)"
    and "point_bytes (unat a mod 0x20 * 0x40 + tail6 b) = [a, b]"
proof -
  obtain x where x: "unat a = 0xC0 + x" "x < 0x20" "unat a mod 0x20 = x"
    using byte_split [OF a, of "0xC0" "0x20"] by auto
  obtain y where y: "unat b = 0x80 + y" "y < 0x40" "tail6 b = y"
    using tail_split [OF b] by auto
  define c where "c = x * 0x40 + y"
  have q: "c div 0x40 = x" "c mod 0x40 = y"
    unfolding c_def using y by (auto intro: digit_div digit_mod)
  have c: "0x80 \<le> c" "c < 0x800"
    using x y a unfolding c_def between_def by linarith+
  have "point_bytes c = [of_nat (unat a), of_nat (unat b)]"
    using c by (simp add: point_bytes_def q x(1) y(1))
  with c show "scalar_code (unat a mod 0x20 * 0x40 + tail6 b)"
    "point_bytes (unat a mod 0x20 * 0x40 + tail6 b) = [a, b]"
    by (simp_all add: x(3) y(3) c_def [symmetric] scalar_code_def)
qed

lemma three_bytes:
  assumes a: "between 0xE0 0xEF a"
    and b: "between (if a = 0xE0 then 0xA0 else 0x80) (if a = 0xED then 0x9F else 0xBF) b"
    and d: "between 0x80 0xBF d"
  shows "scalar_code (unat a mod 0x10 * 0x1000 + tail6 b * 0x40 + tail6 d)"
    and "point_bytes (unat a mod 0x10 * 0x1000 + tail6 b * 0x40 + tail6 d) = [a, b, d]"
proof -
  have b': "between 0x80 0xBF b"
    using b by (auto simp: between_def split: if_splits)
  obtain x where x: "unat a = 0xE0 + x" "x < 0x10" "unat a mod 0x10 = x"
    using byte_split [OF a, of "0xE0" "0x10"] by auto
  obtain y where y: "unat b = 0x80 + y" "y < 0x40" "tail6 b = y"
    using tail_split [OF b'] by auto
  obtain z where z: "unat d = 0x80 + z" "z < 0x40" "tail6 d = z"
    using tail_split [OF d] by auto
  have e: "a = 0xE0 \<longleftrightarrow> x = 0" "a = 0xED \<longleftrightarrow> x = 13"
    by (auto simp: word_unat_eq_iff x(1))
  have low: "0 < x \<or> 32 \<le> y" and high: "x < 13 \<or> 13 < x \<or> y < 32"
    using b y(1) unfolding e between_def by (auto split: if_splits)
  define c where "c = (x * 0x40 + y) * 0x40 + z"
  have q: "c div 0x40 = x * 0x40 + y" "c mod 0x40 = z"
    unfolding c_def using z(2) by (rule digit_div, rule digit_mod)
  have "c div 0x1000 = c div 0x40 div 0x40"
    by (simp add: div_mult2_eq [symmetric])
  then have r: "c div 0x1000 = x" "c div 0x40 mod 0x40 = y"
    unfolding q digit_div [OF y(2)] digit_mod [OF y(2)] by simp_all
  have flat: "c = x * 4096 + y * 64 + z"
    by (simp add: c_def)
  have "0x800 \<le> c"
    using low unfolding flat by (elim disjE) linarith+
  moreover have "c < 0x10000"
    using x(2) y(2) z(2) unfolding flat by linarith
  ultimately have c: "0x800 \<le> c" "c < 0x10000" .
  have gap: "c < 0xD800 \<or> 0xE000 \<le> c"
  proof (cases "13 < x")
    case False
    then have "x < 13 \<or> x \<le> 13 \<and> y < 32"
      using high by auto
    then have "c < 0xD800"
      using y(2) z(2) unfolding flat by (elim disjE conjE) linarith+
    then show ?thesis ..
  qed (simp add: flat)
  have "point_bytes c = [of_nat (unat a), of_nat (unat b), of_nat (unat d)]"
    using c by (simp add: point_bytes_def q(2) r x(1) y(1) z(1))
  moreover have "unat a mod 0x10 * 0x1000 + tail6 b * 0x40 + tail6 d = c"
    by (simp add: x(3) y(3) z(3) c_def)
  ultimately show "scalar_code (unat a mod 0x10 * 0x1000 + tail6 b * 0x40 + tail6 d)"
    "point_bytes (unat a mod 0x10 * 0x1000 + tail6 b * 0x40 + tail6 d) = [a, b, d]"
    using c gap by (simp_all add: scalar_code_def)
qed

lemma four_bytes:
  assumes a: "between 0xF0 0xF4 a"
    and b: "between (if a = 0xF0 then 0x90 else 0x80) (if a = 0xF4 then 0x8F else 0xBF) b"
    and d: "between 0x80 0xBF d" and f: "between 0x80 0xBF f"
  shows "scalar_code (unat a mod 0x8 * 0x40000 + tail6 b * 0x1000 + tail6 d * 0x40 + tail6 f)"
    and "point_bytes (unat a mod 0x8 * 0x40000 + tail6 b * 0x1000 + tail6 d * 0x40 + tail6 f) = [a, b, d, f]"
proof -
  have b': "between 0x80 0xBF b"
    using b by (auto simp: between_def split: if_splits)
  obtain x where x: "unat a = 0xF0 + x" "x < 5" "unat a mod 0x8 = x"
    using byte_split [OF a, of "0xF0" "0x8"] a by (auto simp: between_def)
  obtain y where y: "unat b = 0x80 + y" "y < 0x40" "tail6 b = y"
    using tail_split [OF b'] by auto
  obtain z where z: "unat d = 0x80 + z" "z < 0x40" "tail6 d = z"
    using tail_split [OF d] by auto
  obtain w where w: "unat f = 0x80 + w" "w < 0x40" "tail6 f = w"
    using tail_split [OF f] by auto
  have e: "a = 0xF0 \<longleftrightarrow> x = 0" "a = 0xF4 \<longleftrightarrow> x = 4"
    by (auto simp: word_unat_eq_iff x(1))
  have low: "0 < x \<or> 16 \<le> y" and high: "x < 4 \<or> 4 < x \<or> y < 16"
    using b y(1) unfolding e between_def by (auto split: if_splits)
  define c where "c = ((x * 0x40 + y) * 0x40 + z) * 0x40 + w"
  have q: "c div 0x40 = (x * 0x40 + y) * 0x40 + z" "c mod 0x40 = w"
    unfolding c_def using w(2) by (rule digit_div, rule digit_mod)
  have "c div 0x1000 = c div 0x40 div 0x40"
    by (simp add: div_mult2_eq [symmetric])
  then have r: "c div 0x1000 = x * 0x40 + y" "c div 0x40 mod 0x40 = z"
    unfolding q digit_div [OF z(2)] digit_mod [OF z(2)] by simp_all
  have "c div 0x40000 = c div 0x1000 div 0x40"
    by (simp add: div_mult2_eq [symmetric])
  then have s: "c div 0x40000 = x" "c div 0x1000 mod 0x40 = y"
    unfolding r digit_div [OF y(2)] digit_mod [OF y(2)] by simp_all
  have flat: "c = x * 262144 + y * 4096 + z * 64 + w"
    by (simp add: c_def)
  have "0x10000 \<le> c"
    using low unfolding flat by (elim disjE) linarith+
  have "x < 4 \<or> x \<le> 4 \<and> y < 16"
    using high x(2) by linarith
  then have "c < 0x110000"
    using x(2) y(2) z(2) w(2) unfolding flat by (elim disjE conjE) linarith+
  note c = this \<open>0x10000 \<le> c\<close>
  have "point_bytes c = [of_nat (unat a), of_nat (unat b), of_nat (unat d), of_nat (unat f)]"
    using c by (simp add: point_bytes_def q(2) r(2) s x(1) y(1) z(1) w(1))
  moreover have "unat a mod 0x8 * 0x40000 + tail6 b * 0x1000 + tail6 d * 0x40 + tail6 f = c"
    by (simp add: x(3) y(3) z(3) w(3) c_def)
  ultimately show "scalar_code (unat a mod 0x8 * 0x40000 + tail6 b * 0x1000 + tail6 d * 0x40 + tail6 f)"
    "point_bytes (unat a mod 0x8 * 0x40000 + tail6 b * 0x1000 + tail6 d * 0x40 + tail6 f) = [a, b, d, f]"
    using c by (simp_all add: scalar_code_def)
qed

lemma utf8_points_canonical:
  "utf8_points bs = Some cs \<Longrightarrow> list_all scalar_code cs \<and> concat (map point_bytes cs) = bs"
proof (induction bs arbitrary: cs rule: utf8_points.induct)
  case (2 a bs)
  have "unat a < 0x80 \<or> between 0xC2 0xDF a \<or> between 0xE0 0xEF a \<or> between 0xF0 0xF4 a"
    using "2.prems" by (rule contrapos_pp) simp
  then consider (one) "unat a < 0x80" | (two) "\<not> unat a < 0x80" "between 0xC2 0xDF a"
    | (three) "\<not> unat a < 0x80" "\<not> between 0xC2 0xDF a" "between 0xE0 0xEF a"
    | (four) "\<not> unat a < 0x80" "\<not> between 0xC2 0xDF a" "\<not> between 0xE0 0xEF a" "between 0xF0 0xF4 a"
    by blast
  then show ?case
  proof cases
    case one
    then show ?thesis
      using "2.prems" "2.IH"(1) by (auto simp: scalar_code_def point_bytes_def)
  next
    case two
    then obtain b es ds where bs: "bs = b # es" "cs = (unat a mod 0x20 * 0x40 + tail6 b) # ds"
      "between 0x80 0xBF b" "utf8_points es = Some ds"
      using "2.prems" by (auto simp del: if_split split: list.splits if_split_asm)
    then show ?thesis
      using "2.IH"(2) two two_bytes [OF two(2) bs(3)] by simp
  next
    case three
    then obtain b d es ds where bs: "bs = b # d # es" "cs = (unat a mod 0x10 * 0x1000 + tail6 b * 0x40 + tail6 d) # ds"
      "between (if a = 0xE0 then 0xA0 else 0x80) (if a = 0xED then 0x9F else 0xBF) b" "between 0x80 0xBF d"
      "utf8_points es = Some ds"
      using "2.prems" by (auto simp del: if_split split: list.splits if_split_asm)
    then show ?thesis
      using "2.IH"(3) three three_bytes [OF three(3) bs(3,4)] by simp
  next
    case four
    then obtain b d f es ds where bs: "bs = b # d # f # es"
      "cs = (unat a mod 0x8 * 0x40000 + tail6 b * 0x1000 + tail6 d * 0x40 + tail6 f) # ds"
      "between (if a = 0xF0 then 0x90 else 0x80) (if a = 0xF4 then 0x8F else 0xBF) b" "between 0x80 0xBF d"
      "between 0x80 0xBF f" "utf8_points es = Some ds"
      using "2.prems" by (auto simp del: if_split split: list.splits if_split_asm)
    then show ?thesis
      using "2.IH"(4) four four_bytes [OF four(4) bs(3-5)] by simp
  qed
qed simp

section \<open>The round trips\<close>

lemma utf8_decode_encode: "well_formed s \<Longrightarrow> utf8_decode (utf8_encode s) = Some s"
  by (simp add: utf8_decode_def utf8_encode_def utf8_points_encode scalars_valid units_scalars)

lemma utf8_encode_inj:
  assumes "utf8_decode (utf8_encode s) = Some t"
  shows "well_formed t" and "t = s \<longleftrightarrow> well_formed s"
proof -
  have t: "t = units (scalars s)"
    using assms by (simp add: utf8_decode_def utf8_encode_def utf8_points_encode scalars_valid)
  then show "well_formed t"
    using scalars_units [OF scalars_valid] by simp
  with t show "t = s \<longleftrightarrow> well_formed s"
    using units_scalars by auto
qed

end
