(* ===== verification/Objects.thy ===== *)
theory Objects
  imports Json Utf8
begin

text \<open>
  Values the code receives as \<open>unknown\<close>: primitives, and references into a heap of arrays, objects
  and byte arrays with their own properties. The heap is a list of cells, an address its index, so
  references may form cycles. A getter is a property that is not data; what it returns is part of
  its cell. The second part is \<open>packages/chord/src/json.ts\<close>.
\<close>

section \<open>The heap\<close>

datatype jsval =
    VUndef
  | VNull
  | VBool bool
  | VNum jsnum
  | VStr jsstr
  | VRef addr
  | VOther   \<comment> \<open>a function, a symbol or a bigint\<close>

datatype own_key = KStr jsstr | KSym nat

text \<open>A property descriptor: is it a data property, is it enumerable, what does reading it give.\<close>

datatype desc = Desc (is_data: bool) (enumerable: bool) (desc_value: jsval)

datatype proto = ObjectProto | ArrayProto | NullProto | OtherProto

text \<open>
  An array has a descriptor or a hole at each index, and other own keys beside \<open>length\<close>; an object
  its own keys in the order of \<open>Reflect.ownKeys\<close>.
\<close>

datatype cell =
    CArr proto "desc option list" "own_key list"
  | CObj proto "(own_key \<times> desc) list"
  | CBytes "byte list"

type_synonym heap = "cell list"

definition cell_at :: "heap \<Rightarrow> addr \<Rightarrow> cell" where
  "cell_at h a = (if a < length h then h ! a else CObj OtherProto [])"

text \<open>The addresses a traversal may still enter.\<close>

definition unvisited :: "heap \<Rightarrow> addr list \<Rightarrow> nat" where
  "unvisited h ancestors = card ({..<length h} - set ancestors)"

lemma unvisited_less:
  assumes "a \<notin> set ancestors" and "cell_at h a \<noteq> CObj OtherProto []"
  shows "unvisited h (a # ancestors) < unvisited h ancestors"
proof -
  have "a < length h"
    using assms(2) by (auto simp: cell_at_def split: if_splits)
  then show ?thesis
    using assms(1) unfolding unvisited_def by (intro psubset_card_mono) auto
qed

section \<open>Copying a value into a strict JSON tree\<close>

datatype json_error =
    NonFinite
  | NonJson
  | JsonCycle
  | NotDense
  | NotIndexed
  | NotPlain
  | SymbolKey
  | NotData

text \<open>\<open>Reflect.ownKeys(value).length\<close> of an array: the indices present, the other keys and \<open>length\<close>.\<close>

definition own_key_count :: "desc option list \<Rightarrow> own_key list \<Rightarrow> nat" where
  "own_key_count ds others = length (filter (\<lambda>d. d \<noteq> None) ds) + length others + 1"

text \<open>
  \<open>copy\<close>, with the next address to allocate: each container of the result is a new object, allocated
  before its children. Own keys are distinct, so defining one appends it.
\<close>

function (sequential) copy_value ::
    "heap \<Rightarrow> bool \<Rightarrow> jsval \<Rightarrow> addr list \<Rightarrow> addr \<Rightarrow> json_error + json \<times> addr"
  and copy_elems ::
    "heap \<Rightarrow> bool \<Rightarrow> desc option list \<Rightarrow> addr list \<Rightarrow> addr \<Rightarrow> json_error + json list \<times> addr"
  and copy_props ::
    "heap \<Rightarrow> bool \<Rightarrow> (own_key \<times> desc) list \<Rightarrow> addr list \<Rightarrow> addr \<Rightarrow> json_error + (jsstr \<times> json) list \<times> addr" where
  "copy_value h omit VNull active n = Inr (JNull, n)"
| "copy_value h omit (VStr s) active n = Inr (JStr s, n)"
| "copy_value h omit (VBool b) active n = Inr (JBool b, n)"
| "copy_value h omit (VNum x) active n = (if num_is_finite x then Inr (JNum x, n) else Inl NonFinite)"
| "copy_value h omit (VRef a) active n =
     (if a \<in> set active then Inl JsonCycle
      else case cell_at h a of
        CArr p ds others \<Rightarrow>
          (if p \<noteq> ArrayProto \<or> own_key_count ds others \<noteq> length ds + 1 then Inl NotDense
           else rbind (copy_elems h omit ds (a # active) (Suc n)) (\<lambda>(xs, m). Inr (JArr n xs, m)))
      | CObj p props \<Rightarrow>
          (if p \<noteq> ObjectProto \<and> p \<noteq> NullProto then Inl NotPlain
           else rbind (copy_props h omit props (a # active) (Suc n)) (\<lambda>(kvs, m). Inr (JObj n kvs, m)))
      | CBytes _ \<Rightarrow> Inl NotPlain)"
| "copy_value h omit _ active n = Inl NonJson"
| "copy_elems h omit [] active n = Inr ([], n)"
| "copy_elems h omit (None # ds) active n = Inl NotIndexed"
| "copy_elems h omit (Some d # ds) active n =
     (if \<not> enumerable d \<or> \<not> is_data d then Inl NotIndexed
      else rbind (copy_value h omit (desc_value d) active n) (\<lambda>(x, m).
           rbind (copy_elems h omit ds active m) (\<lambda>(xs, k). Inr (x # xs, k))))"
| "copy_props h omit [] active n = Inr ([], n)"
| "copy_props h omit ((KSym _, d) # props) active n = Inl SymbolKey"
| "copy_props h omit ((KStr key, d) # props) active n =
     (if \<not> enumerable d \<or> \<not> is_data d then Inl NotData
      else if desc_value d = VUndef \<and> omit then copy_props h omit props active n
      else rbind (copy_value h omit (desc_value d) active n) (\<lambda>(x, m).
           rbind (copy_props h omit props active m) (\<lambda>(kvs, k). Inr ((key, x) # kvs, k))))"
  by pat_completeness auto
termination
  by (relation "measures
       [\<lambda>x. case x of Inl (h, _, _, active, _) \<Rightarrow> unvisited h active
          | Inr (Inl (h, _, _, active, _)) \<Rightarrow> unvisited h active
          | Inr (Inr (h, _, _, active, _)) \<Rightarrow> unvisited h active,
        \<lambda>x. case x of Inl _ \<Rightarrow> 0 | Inr (Inl (_, _, ds, _, _)) \<Rightarrow> Suc (length ds)
          | Inr (Inr (_, _, props, _, _)) \<Rightarrow> Suc (length props)]")
     (auto intro!: unvisited_less)

definition copy_json :: "heap \<Rightarrow> jsval \<Rightarrow> bool \<Rightarrow> addr \<Rightarrow> json_error + json" where
  "copy_json h v omit n = rbind (copy_value h omit v [] n) (\<lambda>(j, _). Inr j)"

section \<open>The check without a copy\<close>

text \<open>\<open>check\<close>.\<close>

definition is_str_key :: "own_key \<Rightarrow> bool" where
  "is_str_key k = (case k of KStr _ \<Rightarrow> True | KSym _ \<Rightarrow> False)"

function (sequential) check_value :: "heap \<Rightarrow> jsval \<Rightarrow> addr list \<Rightarrow> bool"
  and check_elems :: "heap \<Rightarrow> desc option list \<Rightarrow> addr list \<Rightarrow> bool"
  and check_props :: "heap \<Rightarrow> (own_key \<times> desc) list \<Rightarrow> addr list \<Rightarrow> bool" where
  "check_value h VNull ancestors = True"
| "check_value h (VStr _) ancestors = True"
| "check_value h (VBool _) ancestors = True"
| "check_value h (VNum x) ancestors = num_is_finite x"
| "check_value h (VRef a) ancestors =
     (case cell_at h a of
        CArr p ds others \<Rightarrow>
          (if p \<noteq> ArrayProto then False
           else if own_key_count ds others \<noteq> length ds + 1 \<or> \<not> list_all is_str_key others then False
           else if a \<in> set ancestors then False
           else check_elems h ds (a # ancestors))
      | CObj p props \<Rightarrow>
          (if p \<noteq> ObjectProto \<and> p \<noteq> NullProto then False
           else if \<not> list_all is_str_key (map fst props) then False
           else if a \<in> set ancestors then False
           else check_props h props (a # ancestors))
      | CBytes _ \<Rightarrow> False)"
| "check_value h _ ancestors = False"
| "check_elems h [] ancestors = True"
| "check_elems h (None # ds) ancestors = False"
| "check_elems h (Some d # ds) ancestors =
     (if \<not> enumerable d \<or> \<not> is_data d \<or> \<not> check_value h (desc_value d) ancestors then False
      else check_elems h ds ancestors)"
| "check_props h [] ancestors = True"
| "check_props h ((_, d) # props) ancestors =
     (if \<not> enumerable d \<or> \<not> is_data d \<or> \<not> check_value h (desc_value d) ancestors then False
      else check_props h props ancestors)"
  by pat_completeness auto
termination
  by (relation "measures
       [\<lambda>x. case x of Inl (h, _, ancestors) \<Rightarrow> unvisited h ancestors
          | Inr (Inl (h, _, ancestors)) \<Rightarrow> unvisited h ancestors
          | Inr (Inr (h, _, ancestors)) \<Rightarrow> unvisited h ancestors,
        \<lambda>x. case x of Inl _ \<Rightarrow> 0 | Inr (Inl (_, ds, _)) \<Rightarrow> Suc (length ds)
          | Inr (Inr (_, props, _)) \<Rightarrow> Suc (length props)]")
     (auto intro!: unvisited_less)

definition is_json_value :: "heap \<Rightarrow> jsval \<Rightarrow> bool" where
  "is_json_value h v = check_value h v []"

end
