(* ===== verification/JsonCopy.thy ===== *)
theory JsonCopy
  imports Objects
begin

text \<open>
  \<open>copyJson\<close> and \<open>isJsonValue\<close> (\<open>packages/chord/src/json.ts\<close>) against their specification: a value is
  strict JSON when it unfolds to a finite tree of plain, dense and enumerable data.
\<close>

section \<open>Strict JSON values\<close>

text \<open>
  The specification: a value is strict JSON when it unfolds to a finite tree of plain, dense and
  enumerable data. \<open>omit\<close> lets object properties be \<open>undefined\<close>.
\<close>

abbreviation plain_data :: "desc \<Rightarrow> bool" where
  "plain_data d \<equiv> is_data d \<and> enumerable d"

inductive strict :: "heap \<Rightarrow> bool \<Rightarrow> jsval \<Rightarrow> json \<Rightarrow> bool"
  and strict_elems :: "heap \<Rightarrow> bool \<Rightarrow> desc option list \<Rightarrow> json list \<Rightarrow> bool"
  and strict_props :: "heap \<Rightarrow> bool \<Rightarrow> (own_key \<times> desc) list \<Rightarrow> (jsstr \<times> json) list \<Rightarrow> bool"
  for h :: heap and omit :: bool where
  strict_null: "strict h omit VNull JNull"
| strict_str: "strict h omit (VStr s) (JStr s)"
| strict_bool: "strict h omit (VBool b) (JBool b)"
| strict_num: "num_is_finite x \<Longrightarrow> strict h omit (VNum x) (JNum x)"
| strict_arr: "cell_at h a = CArr ArrayProto ds [] \<Longrightarrow> strict_elems h omit ds xs \<Longrightarrow>
    strict h omit (VRef a) (JArr i xs)"
| strict_obj: "cell_at h a = CObj p props \<Longrightarrow> p = ObjectProto \<or> p = NullProto \<Longrightarrow>
    strict_props h omit props kvs \<Longrightarrow> strict h omit (VRef a) (JObj i kvs)"
| strict_no_elems: "strict_elems h omit [] []"
| strict_elem: "plain_data d \<Longrightarrow> strict h omit (desc_value d) x \<Longrightarrow> strict_elems h omit ds xs \<Longrightarrow>
    strict_elems h omit (Some d # ds) (x # xs)"
| strict_no_props: "strict_props h omit [] []"
| strict_undef: "plain_data d \<Longrightarrow> omit \<Longrightarrow> desc_value d = VUndef \<Longrightarrow> strict_props h omit props kvs \<Longrightarrow>
    strict_props h omit ((KStr key, d) # props) kvs"
| strict_prop: "plain_data d \<Longrightarrow> strict h omit (desc_value d) x \<Longrightarrow> strict_props h omit props kvs \<Longrightarrow>
    strict_props h omit ((KStr key, d) # props) ((key, x) # kvs)"

inductive_cases strict_refE: "strict h omit (VRef a) j"
inductive_cases strict_elemE: "strict_elems h omit (d # ds) xs"
inductive_cases strict_no_elemsE: "strict_elems h omit [] xs"
inductive_cases strict_propsE: "strict_props h omit ((k, d) # props) kvs"
inductive_cases strict_no_propsE: "strict_props h omit [] kvs"
inductive_cases strict_nullE: "strict h omit VNull j"
inductive_cases strict_strE: "strict h omit (VStr s) j"
inductive_cases strict_boolE: "strict h omit (VBool b) j"
inductive_cases strict_numE: "strict h omit (VNum x) j"
inductive_cases strict_otherE: "strict h omit VOther j"
inductive_cases strict_undefE: "strict h omit VUndef j"

text \<open>How many values a tree holds: the unfolding of a value has one size.\<close>

fun nodes :: "json \<Rightarrow> nat" where
  "nodes (JArr _ xs) = Suc (sum_list (map nodes xs))"
| "nodes (JObj _ kvs) = Suc (sum_list (map (\<lambda>(_, x). nodes x) kvs))"
| "nodes _ = 1"

lemma strict_nodes:
  "strict h omit v j \<Longrightarrow> strict h omit v j' \<Longrightarrow> nodes j' = nodes j"
  "strict_elems h omit ds xs \<Longrightarrow> strict_elems h omit ds xs' \<Longrightarrow> map nodes xs' = map nodes xs"
  "strict_props h omit props kvs \<Longrightarrow> strict_props h omit props kvs' \<Longrightarrow>
     map (\<lambda>(_, x). nodes x) kvs' = map (\<lambda>(_, x). nodes x) kvs"
proof (induction arbitrary: j' and xs' and kvs' rule: strict_strict_elems_strict_props.inducts)
  case (strict_arr a ds xs i)
  from strict_arr.prems strict_arr.IH(1) obtain i' xs' where "j' = JArr i' xs'" "strict_elems h omit ds xs'"
    by (auto elim: strict_refE)
  with strict_arr.IH(3) show ?case by simp
next
  case (strict_obj a p props kvs i)
  from strict_obj.prems strict_obj.IH(1) obtain i' kvs' where "j' = JObj i' kvs'" "strict_props h omit props kvs'"
    by (auto elim: strict_refE)
  with strict_obj.IH(3) show ?case by simp
next
  case (strict_elem d x ds xs)
  from strict_elem.prems obtain x' ys where "xs' = x' # ys" "strict h omit (desc_value d) x'" "strict_elems h omit ds ys"
    by (auto elim: strict_elemE)
  with strict_elem.IH(2,4) show ?case by simp
next
  case (strict_undef d props kvs key)
  from strict_undef.prems have "strict_props h omit props kvs'"
    by (rule strict_propsE) (use strict_undef.hyps(2) in \<open>auto elim: strict_undefE\<close>)
  then show ?case by (rule strict_undef.IH(3))
next
  case (strict_prop d x props kvs key)
  have "desc_value d \<noteq> VUndef"
    using strict_prop.IH(1) by (auto elim: strict_undefE)
  with strict_prop.prems obtain x' rest where "kvs' = (key, x') # rest" "strict h omit (desc_value d) x'"
    "strict_props h omit props rest"
    by (auto elim: strict_propsE)
  with strict_prop.IH(2,4) show ?case by simp
qed (auto elim: strict_nullE strict_strE strict_boolE strict_numE strict_no_elemsE strict_no_propsE)

lemma nodes_pos: "0 < nodes j"
  by (cases j) auto

lemma strict_elems_dense: "strict_elems h omit ds xs \<Longrightarrow> None \<notin> set ds"
  by (induction ds arbitrary: xs) (auto elim: strict_elemE)

lemma dense_filter: "None \<notin> set ds \<Longrightarrow> filter (\<lambda>d. d \<noteq> None) ds = ds"
proof (induction ds)
  case (Cons d ds)
  then show ?case by (cases d) auto
qed simp

lemma dense_count: "None \<notin> set ds \<Longrightarrow> own_key_count ds others = length ds + length others + 1"
  unfolding own_key_count_def by (simp only: dense_filter not_False_eq_True)

lemma copy_strict:
  "copy_value h omit v active n = Inr (j, m) \<Longrightarrow> strict h omit v j"
  "copy_elems h omit ds active n = Inr (xs, m) \<Longrightarrow> strict_elems h omit ds xs"
  "copy_props h omit props active n = Inr (kvs, m) \<Longrightarrow> strict_props h omit props kvs"
proof (induction h omit v active n and h omit ds active n and h omit props active n
    arbitrary: j m and xs m and kvs m rule: copy_value_copy_elems_copy_props.induct)
  case (5 h omit a active n)
  have a: "a \<notin> set active"
    using "5.prems" by (auto split: if_splits)
  show ?case
  proof (cases "cell_at h a")
    case (CArr p ds others)
    then have ok: "\<not> (p \<noteq> ArrayProto \<or> own_key_count ds others \<noteq> length ds + 1)"
      using "5.prems" a by (auto split: if_splits)
    then obtain xs where xs: "copy_elems h omit ds (a # active) (Suc n) = Inr (xs, m)" "j = JArr n xs"
      using "5.prems" a CArr by (auto simp: rbind_Inr_conv)
    have elems: "strict_elems h omit ds xs"
      using "5.IH"(1) [OF a CArr ok xs(1)] .
    have "others = []"
      using ok dense_count [OF strict_elems_dense [OF elems], of others] by simp
    then have "cell_at h a = CArr ArrayProto ds []"
      using CArr ok by simp
    then show ?thesis
      unfolding xs(2) using elems by (rule strict_arr)
  next
    case (CObj p props)
    then have ok: "\<not> (p \<noteq> ObjectProto \<and> p \<noteq> NullProto)"
      using "5.prems" a by (auto split: if_splits)
    then obtain kvs where kvs: "copy_props h omit props (a # active) (Suc n) = Inr (kvs, m)" "j = JObj n kvs"
      using "5.prems" a CObj by (auto simp: rbind_Inr_conv)
    have "strict_props h omit props kvs"
      using "5.IH"(2) [OF a CObj ok kvs(1)] .
    moreover have "p = ObjectProto \<or> p = NullProto"
      using ok by simp
    ultimately show ?thesis
      unfolding kvs(2) using strict_obj [OF CObj] by simp
  qed (use "5.prems" a in auto)
next
  case (9 h omit d ds active n)
  have ok: "\<not> (\<not> enumerable d \<or> \<not> is_data d)"
    using "9.prems" by (auto split: if_splits)
  then obtain x k ys where x: "copy_value h omit (desc_value d) active n = Inr (x, k)"
    "copy_elems h omit ds active k = Inr (ys, m)" "xs = x # ys"
    using "9.prems" by (auto simp: rbind_Inr_conv)
  show ?case
    using ok "9.IH"(1) [OF ok x(1)] "9.IH"(2) [OF ok x(1) refl x(2)] x(3) by (auto intro: strict_elem)
next
  case (12 h omit key d props active n)
  have ok: "\<not> (\<not> enumerable d \<or> \<not> is_data d)"
    using "12.prems" by (auto split: if_splits)
  show ?case
  proof (cases "desc_value d = VUndef \<and> omit")
    case True
    then show ?thesis
      using "12.IH"(1) [OF ok True] "12.prems" ok by (auto intro: strict_undef)
  next
    case False
    then obtain x k rest where x: "copy_value h omit (desc_value d) active n = Inr (x, k)"
      "copy_props h omit props active k = Inr (rest, m)" "kvs = (key, x) # rest"
      using "12.prems" ok by (auto simp: rbind_Inr_conv)
    show ?thesis
      using ok "12.IH"(2) [OF ok False x(1)] "12.IH"(3) [OF ok False x(1) refl x(2)] x(3)
      by (auto intro: strict_prop)
  qed
qed (auto split: if_splits intro: strict_strict_elems_strict_props.intros)

section \<open>Completeness\<close>

text \<open>
  A value that unfolds to a finite tree has no ancestor among its own parts: the unfolding of an
  ancestor is larger than that of what it holds.
\<close>

definition larger :: "heap \<Rightarrow> bool \<Rightarrow> addr list \<Rightarrow> nat \<Rightarrow> bool" where
  "larger h omit active n \<longleftrightarrow> (\<forall>a \<in> set active. \<forall>j. strict h omit (VRef a) j \<longrightarrow> n < nodes j)"

lemma larger_mono: "larger h omit active n \<Longrightarrow> m \<le> n \<Longrightarrow> larger h omit active m"
  unfolding larger_def by (meson order_le_less_trans)

lemma larger_enter:
  assumes "strict h omit (VRef a) j" and "larger h omit active (nodes j)" and "n < nodes j"
  shows "larger h omit (a # active) n"
  using assms(2,3) strict_nodes(1) [OF assms(1)] unfolding larger_def by fastforce

lemma not_active: "strict h omit (VRef a) j \<Longrightarrow> larger h omit active (nodes j) \<Longrightarrow> a \<notin> set active"
  unfolding larger_def by blast

lemma strict_copies:
  "strict h omit v j \<Longrightarrow> larger h omit active (nodes j) \<Longrightarrow> \<exists>r. copy_value h omit v active n = Inr r"
  "strict_elems h omit ds xs \<Longrightarrow> larger h omit active (sum_list (map nodes xs)) \<Longrightarrow>
     \<exists>r. copy_elems h omit ds active n = Inr r"
  "strict_props h omit props kvs \<Longrightarrow> larger h omit active (sum_list (map (\<lambda>(_, x). nodes x) kvs)) \<Longrightarrow>
     \<exists>r. copy_props h omit props active n = Inr r"
proof (induction arbitrary: active n and active n and active n rule: strict_strict_elems_strict_props.inducts)
  case (strict_arr a ds xs i)
  have s: "strict h omit (VRef a) (JArr i xs)"
    using strict_arr.IH(1,2) by (rule strict_strict_elems_strict_props.strict_arr)
  have "\<exists>r. copy_elems h omit ds (a # active) (Suc n) = Inr r"
    by (rule strict_arr.IH(3)) (rule larger_enter [OF s strict_arr.prems], simp)
  moreover have "own_key_count ds [] = length ds + 1"
    by (simp add: dense_count [OF strict_elems_dense [OF strict_arr.IH(2)]])
  ultimately show ?case
    using not_active [OF s strict_arr.prems] strict_arr.IH(1) by auto
next
  case (strict_obj a p props kvs i)
  have s: "strict h omit (VRef a) (JObj i kvs)"
    using strict_obj.IH(1) strict_obj.hyps strict_obj.IH(2) by (rule strict_strict_elems_strict_props.strict_obj)
  have "\<exists>r. copy_props h omit props (a # active) (Suc n) = Inr r"
    by (rule strict_obj.IH(3)) (rule larger_enter [OF s strict_obj.prems], simp)
  then show ?case
    using not_active [OF s strict_obj.prems] strict_obj.IH(1) strict_obj.hyps by auto
next
  case (strict_elem d x ds xs)
  obtain y k where y: "copy_value h omit (desc_value d) active n = Inr (y, k)"
    using strict_elem.IH(2) [of active n] larger_mono [OF strict_elem.prems] by auto
  obtain ys l where "copy_elems h omit ds active k = Inr (ys, l)"
    using strict_elem.IH(4) [of active k] larger_mono [OF strict_elem.prems] by auto
  with y show ?case
    using strict_elem.hyps by auto
next
  case (strict_undef d props kvs key)
  obtain r where "copy_props h omit props active n = Inr r"
    using strict_undef.IH(3) [of active n] strict_undef.prems by auto
  then show ?case
    using strict_undef.hyps strict_undef.IH(1) by auto
next
  case (strict_prop d x props kvs key)
  have def: "desc_value d \<noteq> VUndef"
    using strict_prop.IH(1) by (auto elim: strict_undefE)
  obtain y k where y: "copy_value h omit (desc_value d) active n = Inr (y, k)"
    using strict_prop.IH(2) [of active n] larger_mono [OF strict_prop.prems] by auto
  obtain ys l where "copy_props h omit props active k = Inr (ys, l)"
    using strict_prop.IH(4) [of active k] larger_mono [OF strict_prop.prems] by auto
  with y show ?case
    using strict_prop.hyps def by auto
qed auto

text \<open>
  C40: \<open>copyJson\<close> succeeds exactly on the values that unfold to a finite strict JSON tree; a cycle, a
  hole, a getter, a symbol key or a foreign prototype makes it throw.\<close>

theorem copy_json_iff: "(\<exists>j. copy_json h v omit n = Inr j) \<longleftrightarrow> (\<exists>j. strict h omit v j)"
proof
  assume "\<exists>j. copy_json h v omit n = Inr j"
  then show "\<exists>j. strict h omit v j"
    by (auto simp: copy_json_def rbind_Inr_conv dest: copy_strict(1))
next
  assume "\<exists>j. strict h omit v j"
  then obtain j where "strict h omit v j" ..
  then have "\<exists>r. copy_value h omit v [] n = Inr r"
    by (rule strict_copies(1)) (simp add: larger_def)
  then show "\<exists>j. copy_json h v omit n = Inr j"
    by (auto simp: copy_json_def)
qed

section \<open>The check agrees with the copy\<close>

lemma copy_props_keys: "copy_props h omit props active n = Inr r \<Longrightarrow> list_all is_str_key (map fst props)"
proof (induction props arbitrary: n r)
  case (Cons p props)
  obtain k d where "p = (k, d)" by (cases p)
  with Cons show ?case
    by (cases k) (auto simp: rbind_Inr_conv is_str_key_def split: if_splits)
qed simp

lemma check_iff_copy:
  "check_value h v ancestors \<longleftrightarrow> (\<exists>r. copy_value h False v ancestors n = Inr r)"
  "check_elems h ds ancestors \<longleftrightarrow> (\<exists>r. copy_elems h False ds ancestors n = Inr r)"
  "list_all is_str_key (map fst props) \<Longrightarrow>
     check_props h props ancestors \<longleftrightarrow> (\<exists>r. copy_props h False props ancestors n = Inr r)"
proof (induction h v ancestors and h ds ancestors and h props ancestors
    arbitrary: n and n and n rule: check_value_check_elems_check_props.induct)
  case (5 h a ancestors)
  show ?case
  proof (cases "cell_at h a")
    case (CArr p ds others)
    show ?thesis
    proof (cases "p = ArrayProto \<and> own_key_count ds others = length ds + 1 \<and> a \<notin> set ancestors")
      case True
      have "list_all is_str_key others" if "copy_elems h False ds (a # ancestors) (Suc n) = Inr r" for r
      proof -
        have "None \<notin> set ds"
          using that copy_strict(2) strict_elems_dense by (metis prod.exhaust)
        then have "others = []"
          using True by (simp add: dense_count)
        then show ?thesis by simp
      qed
      then show ?thesis
        using True CArr "5.IH"(1) [OF CArr, of "Suc n"] by (auto simp: rbind_Inr_conv)
    qed (use CArr in auto)
  next
    case (CObj p props)
    show ?thesis
    proof (cases "(p = ObjectProto \<or> p = NullProto) \<and> list_all is_str_key (map fst props) \<and> a \<notin> set ancestors")
      case True
      then show ?thesis
        using CObj "5.IH"(2) [OF CObj, of "Suc n"] by (auto simp: rbind_Inr_conv)
    next
      case False
      then show ?thesis
        using CObj copy_props_keys [of h False props "a # ancestors" "Suc n"] by (auto simp: rbind_Inr_conv)
    qed
  qed auto
next
  case (9 h d ds ancestors)
  show ?case
  proof (cases "copy_value h False (desc_value d) ancestors n")
    case (Inr r)
    then show ?thesis
      using "9.IH"(1) [of n] "9.IH"(2) [of "snd r"] by (cases r) (auto simp: rbind_Inr_conv)
  qed (use "9.IH"(1) [of n] in auto)
next
  case (11 h k d props ancestors)
  then obtain key where k: "k = KStr key"
    by (cases k) (auto simp: is_str_key_def)
  show ?case
  proof (cases "copy_value h False (desc_value d) ancestors n")
    case (Inr r)
    then show ?thesis
      using "11.IH"(1) [of n] "11.IH"(2) [of "snd r"] "11.prems" k by (cases r) (auto simp: rbind_Inr_conv)
  qed (use "11.IH"(1) [of n] k in auto)
qed auto

text \<open>
  \<open>isJsonValue\<close> accepts exactly the values \<open>copyJson\<close> can copy.\<close>

theorem is_json_value_iff: "is_json_value h v \<longleftrightarrow> (\<exists>j. copy_json h v False n = Inr j)"
  unfolding is_json_value_def copy_json_def check_iff_copy(1) [of h v "[]" n]
  by (auto simp: rbind_Inr_conv)

section \<open>The copy shares nothing\<close>

fun addresses :: "json \<Rightarrow> addr list" where
  "addresses (JArr a xs) = a # concat (map addresses xs)"
| "addresses (JObj a kvs) = a # concat (map (\<lambda>(_, x). addresses x) kvs)"
| "addresses _ = []"

definition fresh_between :: "addr \<Rightarrow> addr \<Rightarrow> addr list \<Rightarrow> bool" where
  "fresh_between n m addrs \<longleftrightarrow> n \<le> m \<and> distinct addrs \<and> set addrs \<subseteq> {n..<m}"

lemma fresh_between_simps:
  "fresh_between n n []"
  "fresh_between (Suc n) m addrs \<Longrightarrow> fresh_between n m (n # addrs)"
  "fresh_between n m addrs \<Longrightarrow> fresh_between m k bs \<Longrightarrow> fresh_between n k (addrs @ bs)"
  unfolding fresh_between_def by force+

lemma copy_addresses:
  "copy_value h omit v active n = Inr (j, m) \<Longrightarrow> fresh_between n m (addresses j)"
  "copy_elems h omit ds active n = Inr (xs, m) \<Longrightarrow> fresh_between n m (concat (map addresses xs))"
  "copy_props h omit props active n = Inr (kvs, m) \<Longrightarrow>
     fresh_between n m (concat (map (\<lambda>(_, x). addresses x) kvs))"
proof (induction h omit v active n and h omit ds active n and h omit props active n
    arbitrary: j m and xs m and kvs m rule: copy_value_copy_elems_copy_props.induct)
  case (5 h omit a active n)
  have a: "a \<notin> set active"
    using "5.prems" by (auto split: if_splits)
  show ?case
  proof (cases "cell_at h a")
    case (CArr p ds others)
    then have ok: "\<not> (p \<noteq> ArrayProto \<or> own_key_count ds others \<noteq> length ds + 1)"
      using "5.prems" a by (auto split: if_splits)
    then obtain xs where xs: "copy_elems h omit ds (a # active) (Suc n) = Inr (xs, m)" "j = JArr n xs"
      using "5.prems" a CArr by (auto simp: rbind_Inr_conv)
    show ?thesis
      using fresh_between_simps(2) [OF "5.IH"(1) [OF a CArr ok xs(1)]] xs(2) by simp
  next
    case (CObj p props)
    then have ok: "\<not> (p \<noteq> ObjectProto \<and> p \<noteq> NullProto)"
      using "5.prems" a by (auto split: if_splits)
    then obtain kvs where kvs: "copy_props h omit props (a # active) (Suc n) = Inr (kvs, m)" "j = JObj n kvs"
      using "5.prems" a CObj by (auto simp: rbind_Inr_conv)
    show ?thesis
      using fresh_between_simps(2) [OF "5.IH"(2) [OF a CObj ok kvs(1)]] kvs(2) by simp
  qed (use "5.prems" a in auto)
next
  case (9 h omit d ds active n)
  have ok: "\<not> (\<not> enumerable d \<or> \<not> is_data d)"
    using "9.prems" by (auto split: if_splits)
  then obtain x k ys where x: "copy_value h omit (desc_value d) active n = Inr (x, k)"
    "copy_elems h omit ds active k = Inr (ys, m)" "xs = x # ys"
    using "9.prems" by (auto simp: rbind_Inr_conv)
  show ?case
    using fresh_between_simps(3) [OF "9.IH"(1) [OF ok x(1)] "9.IH"(2) [OF ok x(1) refl x(2)]] x(3) by simp
next
  case (12 h omit key d props active n)
  have ok: "\<not> (\<not> enumerable d \<or> \<not> is_data d)"
    using "12.prems" by (auto split: if_splits)
  show ?case
  proof (cases "desc_value d = VUndef \<and> omit")
    case True
    then show ?thesis
      using "12.IH"(1) [OF ok True] "12.prems" ok by auto
  next
    case False
    then obtain x k rest where x: "copy_value h omit (desc_value d) active n = Inr (x, k)"
      "copy_props h omit props active k = Inr (rest, m)" "kvs = (key, x) # rest"
      using "12.prems" ok by (auto simp: rbind_Inr_conv)
    show ?thesis
      using fresh_between_simps(3) [OF "12.IH"(2) [OF ok False x(1)] "12.IH"(3) [OF ok False x(1) refl x(2)]] x(3)
      by simp
  qed
qed (auto simp: fresh_between_simps split: if_splits)

text \<open>
  A copy is a strict JSON tree of the value whose containers are all new and pairwise distinct, so
  it shares nothing with the value or within itself.\<close>

theorem copy_json_fresh:
  assumes "copy_json h v omit n = Inr j"
  shows "strict h omit v j \<and> distinct (addresses j) \<and> (\<forall>a \<in> set (addresses j). n \<le> a)"
proof -
  obtain m where "copy_value h omit v [] n = Inr (j, m)"
    using assms by (auto simp: copy_json_def rbind_Inr_conv)
  from copy_strict(1) [OF this] copy_addresses(1) [OF this] show ?thesis
    by (auto simp: fresh_between_def)
qed

definition sample_heap :: heap where
  "sample_heap =
     [CArr ArrayProto [Some (Desc True True (VNum (NInt 1))), Some (Desc True True (VRef 1)),
                       Some (Desc True True (VRef 1))] [],
      CObj ObjectProto [(KStr (js ''k''), Desc True True (VStr (js ''v'')))]]"

theorem copy_json_fresh_witness:
  "strict sample_heap False (VRef 0)
       (JArr 9 [JNum (NInt 1), JObj 10 [(js ''k'', JStr (js ''v''))], JObj 11 [(js ''k'', JStr (js ''v''))]])
     \<and> distinct [9, 10, 11 :: addr]"
proof -
  have "copy_json sample_heap (VRef 0) False 9 =
      Inr (JArr 9 [JNum (NInt 1), JObj 10 [(js ''k'', JStr (js ''v''))], JObj 11 [(js ''k'', JStr (js ''v''))]])"
    by (simp add: copy_json_def sample_heap_def cell_at_def own_key_count_def)
  from copy_json_fresh [OF this] show ?thesis by simp
qed

end
