(* ===== verification/Bytes.thy ===== *)
theory Bytes
  imports Utf8
begin

text \<open>
  Big-endian integers and doubles as bytes, and the buffer of a writer that grows up to a limit. A
  store into a \<open>Uint8Array\<close> keeps the low eight bits of the number stored.
\<close>

section \<open>Big-endian integers\<close>

definition be16 :: "nat \<Rightarrow> byte list" where
  "be16 n = [of_nat (drop_bit 8 n), of_nat n]"

definition be32 :: "nat \<Rightarrow> byte list" where
  "be32 n = [of_nat (drop_bit 24 n), of_nat (drop_bit 16 n), of_nat (drop_bit 8 n), of_nat n]"

definition be64 :: "nat \<Rightarrow> byte list" where
  "be64 n = be32 (n div 2 ^ 32) @ be32 (n mod 2 ^ 32)"

text \<open>The number a list of bytes spells, most significant byte first.\<close>

definition big_endian :: "byte list \<Rightarrow> nat" where
  "big_endian bs = foldl (\<lambda>n b. n * 256 + unat b) 0 bs"

lemma length_be [simp]: "length (be16 n) = 2" "length (be32 n) = 4" "length (be64 n) = 8"
  by (simp_all add: be16_def be32_def be64_def)

lemma unat_of_nat8: "unat (of_nat n :: byte) = n mod 256"
  by (simp add: unsigned_of_nat take_bit_eq_mod)

lemma big_endian_be16: "n < 2 ^ 16 \<Longrightarrow> big_endian (be16 n) = n"
proof -
  assume "n < 2 ^ 16"
  then have "n div 256 mod 256 = n div 256"
    by (simp add: div_less_iff_less_mult)
  then show ?thesis
    using div_mult_mod_eq [of n 256]
    by (simp add: big_endian_def be16_def drop_bit_eq_div unat_of_nat8 del: of_nat_div)
qed

lemma big_endian_be32: "n < 2 ^ 32 \<Longrightarrow> big_endian (be32 n) = n"
proof -
  assume "n < 2 ^ 32"
  then have top: "n div 16777216 mod 256 = n div 16777216"
    by (simp add: div_less_iff_less_mult)
  have "n div 16777216 * 256 + n div 65536 mod 256 = n div 65536"
    using div_mult_mod_eq [of "n div 65536" 256] by (simp add: div_mult2_eq [symmetric])
  moreover have "n div 65536 * 256 + n div 256 mod 256 = n div 256"
    using div_mult_mod_eq [of "n div 256" 256] by (simp add: div_mult2_eq [symmetric])
  moreover have "n div 256 * 256 + n mod 256 = n"
    by (rule div_mult_mod_eq)
  ultimately have "((n div 16777216 * 256 + n div 65536 mod 256) * 256 + n div 256 mod 256) * 256 + n mod 256 = n"
    by (simp only:)
  then show ?thesis
    by (simp only: big_endian_def be32_def drop_bit_eq_div unat_of_nat8 foldl_Cons foldl_Nil) (simp add: top)
qed

lemma big_endian_from:
  "foldl (\<lambda>n b. n * 256 + unat b) m (bs :: byte list) = m * 256 ^ length bs + big_endian bs"
  unfolding big_endian_def
proof (induction bs rule: rev_induct)
  case (snoc b bs)
  then show ?case
    by (simp only: foldl_append foldl_Cons foldl_Nil length_append list.size) (simp add: distrib_right)
qed simp

lemma big_endian_append: "big_endian (xs @ ys) = big_endian xs * 256 ^ length ys + big_endian ys"
proof -
  have "big_endian (xs @ ys) = foldl (\<lambda>n b. n * 256 + unat b) (big_endian xs) ys"
    by (simp add: big_endian_def)
  then show ?thesis
    by (simp only: big_endian_from)
qed

lemma big_endian_be64: "n < 2 ^ 64 \<Longrightarrow> big_endian (be64 n) = n"
proof -
  assume "n < 2 ^ 64"
  then have "n div 2 ^ 32 < 2 ^ 32"
    by (simp add: div_less_iff_less_mult)
  then show ?thesis
    using div_mult_mod_eq [of n "2 ^ 32"]
    by (simp add: be64_def big_endian_append big_endian_be32)
qed

lemma big_endian_less: "big_endian bs < 256 ^ length bs"
proof (induction bs rule: rev_induct)
  case (snoc b bs)
  have "big_endian bs + 1 \<le> 256 ^ length bs"
    using snoc by simp
  then have "(big_endian bs + 1) * 256 \<le> 256 ^ length bs * 256"
    by (rule mult_right_mono) simp
  then show ?case
    using unat8_bound [of b] by (simp add: big_endian_append) (simp add: big_endian_def)
qed (simp add: big_endian_def)

section \<open>A buffer that grows\<close>

text \<open>
  The buffer of a writer: its bytes, how many of them are written, and the most it may hold. The
  bytes past \<open>position\<close> are whatever the allocation left there.
\<close>

record buffer =
  buffer_bytes :: "byte list"
  position :: nat
  byte_limit :: nat

definition contents :: "buffer \<Rightarrow> byte list" where
  "contents b = take (position b) (buffer_bytes b)"

definition wf_buffer :: "buffer \<Rightarrow> bool" where
  "wf_buffer b \<longleftrightarrow> position b \<le> length (buffer_bytes b) \<and> length (buffer_bytes b) \<le> byte_limit b"

text \<open>\<open>bytes.set(data, at)\<close>.\<close>

definition set_at :: "nat \<Rightarrow> byte list \<Rightarrow> byte list \<Rightarrow> byte list" where
  "set_at i data bs = take i bs @ data @ drop (i + length data) bs"

lemma length_set_at: "i + length data \<le> length bs \<Longrightarrow> length (set_at i data bs) = length bs"
  by (simp add: set_at_def)

lemma take_set_at: "i + length data \<le> length bs \<Longrightarrow> take (i + length data) (set_at i data bs) = take i bs @ data"
  by (simp add: set_at_def)

definition store :: "byte list \<Rightarrow> buffer \<Rightarrow> buffer" where
  "store data b = b\<lparr>buffer_bytes := set_at (position b) data (buffer_bytes b), position := position b + length data\<rparr>"

lemma contents_store:
  "position b + length data \<le> length (buffer_bytes b) \<Longrightarrow> contents (store data b) = contents b @ data"
  by (simp add: contents_def store_def take_set_at)

lemma wf_store:
  "wf_buffer b \<Longrightarrow> position b + length data \<le> length (buffer_bytes b) \<Longrightarrow> wf_buffer (store data b)"
  by (simp add: wf_buffer_def store_def length_set_at)

end
