(* ===== verification/CborEncode.thy ===== *)
theory CborEncode
  imports Objects Bytes
begin

text \<open>
  The CBOR encoder of the wire protocol (\<open>packages/protocol/src/cbor/options.ts\<close> and
  \<open>encoder.ts\<close>): the limits, the writer's buffer, which doubles until its limit, and the traversal of a
  value in the heap. A store of a number into the buffer keeps its low byte.
\<close>

section \<open>Limits\<close>

datatype cbor_error =
    RangeErr            \<comment> \<open>a limit in the options is no such number\<close>
  | TooManyBytes
  | TooDeep
  | TooLong             \<comment> \<open>a string, an array or a map past its limit\<close>
  | NotFinite
  | NotSafe
  | BadText
  | CborCycle
  | ArrayHole
  | KeyNotString
  | Unsupported
  | Truncated
  | TrailingData
  | DuplicateKey
  | Malformed
  | Indefinite

record limits =
  max_bytes :: nat
  max_container :: nat
  max_depth :: nat

definition max_uint32 :: nat where
  "max_uint32 = 0xFFFFFFFF"

definition max_configured_depth :: nat where
  "max_configured_depth = 512"

text \<open>\<open>resolveLimit\<close>: minus zero is the limit zero.\<close>

definition resolve_limit :: "jsnum \<Rightarrow> nat \<Rightarrow> cbor_error + nat" where
  "resolve_limit n maximum =
     (case n of
        NInt i \<Rightarrow> (if \<not> num_is_safe n \<or> i < 0 \<or> int maximum < i then Inl RangeErr else Inr (nat i))
      | NBits w \<Rightarrow> (if \<not> num_is_safe n then Inl RangeErr else Inr 0))"

record cbor_options =
  opt_bytes :: "jsnum option"
  opt_container :: "jsnum option"
  opt_depth :: "jsnum option"

definition or_default :: "jsnum option \<Rightarrow> nat \<Rightarrow> jsnum" where
  "or_default n d = (case n of None \<Rightarrow> NInt (int d) | Some n \<Rightarrow> n)"

definition default_max_bytes :: nat where
  "default_max_bytes = 16 * 1024 * 1024"

definition default_max_container :: nat where
  "default_max_container = 1000000"

definition default_max_depth :: nat where
  "default_max_depth = 64"

definition resolve_options :: "cbor_options \<Rightarrow> cbor_error + limits" where
  "resolve_options opts =
     rbind (resolve_limit (or_default (opt_bytes opts) default_max_bytes) max_uint32) (\<lambda>b.
     rbind (resolve_limit (or_default (opt_container opts) default_max_container) max_uint32) (\<lambda>c.
     rbind (resolve_limit (or_default (opt_depth opts) default_max_depth) max_configured_depth) (\<lambda>d.
       Inr \<lparr>max_bytes = b, max_container = c, max_depth = d\<rparr>)))"

section \<open>The writer\<close>

definition new_writer :: "nat \<Rightarrow> buffer" where
  "new_writer limit = \<lparr>buffer_bytes = replicate (min 256 limit) 0, position = 0, byte_limit = limit\<rparr>"

text \<open>
  The loop of \<open>ensureCapacity\<close>. It is entered with \<open>required\<close> within the limit only, which the guard
  repeats so that the recursion is total.
\<close>

function grow :: "nat \<Rightarrow> nat \<Rightarrow> nat \<Rightarrow> nat" where
  "grow limit required capacity =
     (if capacity < required \<and> required \<le> limit
      then grow limit required (min limit (max required (capacity * 2)))
      else capacity)"
  by pat_completeness auto
termination
  by (relation "measure (\<lambda>(limit, required, capacity). required - capacity)") auto

declare grow.simps [simp del]

definition ensure_capacity :: "nat \<Rightarrow> buffer \<Rightarrow> cbor_error + buffer" where
  "ensure_capacity more_bytes w =
     (let required = position w + more_bytes in
      if byte_limit w < required then Inl TooManyBytes
      else if required \<le> length (buffer_bytes w) then Inr w
      else let capacity = grow (byte_limit w) required (max 1 (length (buffer_bytes w)))
           in Inr (w\<lparr>buffer_bytes := set_at 0 (buffer_bytes w) (replicate capacity 0)\<rparr>))"

definition write_byte :: "nat \<Rightarrow> buffer \<Rightarrow> cbor_error + buffer" where
  "write_byte n w = rbind (ensure_capacity 1 w) (\<lambda>w. Inr (store [of_nat n] w))"

definition write_bytes :: "byte list \<Rightarrow> buffer \<Rightarrow> cbor_error + buffer" where
  "write_bytes bs w = rbind (ensure_capacity (length bs) w) (\<lambda>w. Inr (store bs w))"

definition write_uint16 :: "nat \<Rightarrow> buffer \<Rightarrow> cbor_error + buffer" where
  "write_uint16 n w = rbind (ensure_capacity 2 w) (\<lambda>w. Inr (store (be16 n) w))"

definition write_uint32 :: "nat \<Rightarrow> buffer \<Rightarrow> cbor_error + buffer" where
  "write_uint32 n w = rbind (ensure_capacity 4 w) (\<lambda>w. Inr (store (be32 n) w))"

definition write_uint64 :: "nat \<Rightarrow> buffer \<Rightarrow> cbor_error + buffer" where
  "write_uint64 n w =
     (let high = n div 2 ^ 32; low = n - high * 2 ^ 32
      in rbind (write_uint32 high w) (write_uint32 low))"

definition write_float64 :: "64 word \<Rightarrow> buffer \<Rightarrow> cbor_error + buffer" where
  "write_float64 x w = rbind (ensure_capacity 9 w) (\<lambda>w. Inr (store (0xFB # be64 (unat x)) w))"

text \<open>A type prefix has its low five bits clear, so \<open>prefix | n\<close> is their sum below 32.\<close>

definition write_argument :: "nat \<Rightarrow> nat \<Rightarrow> buffer \<Rightarrow> cbor_error + buffer" where
  "write_argument major n w =
     (let prefix = push_bit 5 major in
      if n < 24 then write_byte (prefix OR n) w
      else if n \<le> 0xFF then rbind (write_byte (prefix OR 24) w) (write_byte n)
      else if n \<le> 0xFFFF then rbind (write_byte (prefix OR 25) w) (write_uint16 n)
      else if n \<le> max_uint32 then rbind (write_byte (prefix OR 26) w) (write_uint32 n)
      else rbind (write_byte (prefix OR 27) w) (write_uint64 n))"

section \<open>The encoder\<close>

definition encode_text :: "limits \<Rightarrow> jsstr \<Rightarrow> buffer \<Rightarrow> cbor_error + buffer" where
  "encode_text opts s w =
     (let bs = utf8_encode s in
      if max_bytes opts < length bs then Inl TooLong
      else if utf8_decode bs \<noteq> Some s then Inl BadText
      else rbind (write_argument 3 (length bs) w) (write_bytes bs))"

definition encode_number :: "jsnum \<Rightarrow> buffer \<Rightarrow> cbor_error + buffer" where
  "encode_number n w =
     (if \<not> num_is_finite n then Inl NotFinite
      else case n of
        NInt i \<Rightarrow>
          (if \<not> num_is_safe n then Inl NotSafe
           else if 0 \<le> i then write_argument 0 (nat i) w
           else write_argument 1 (nat (- 1 - i)) w)
      | NBits x \<Rightarrow> write_float64 x w)"

text \<open>The enumerable symbol keys of an object, and its enumerable string entries that are defined.\<close>

definition has_symbol :: "(own_key \<times> desc) list \<Rightarrow> bool" where
  "has_symbol props \<longleftrightarrow> list_ex (\<lambda>(k, d). (case k of KSym _ \<Rightarrow> enumerable d | _ \<Rightarrow> False)) props"

fun entries :: "(own_key \<times> desc) list \<Rightarrow> (jsstr \<times> jsval) list" where
  "entries [] = []"
| "entries ((KStr k, d) # props) =
     (if enumerable d \<and> desc_value d \<noteq> VUndef then (k, desc_value d) # entries props else entries props)"
| "entries (_ # props) = entries props"

function (sequential) encode_value ::
    "heap \<Rightarrow> limits \<Rightarrow> nat \<Rightarrow> addr list \<Rightarrow> jsval \<Rightarrow> buffer \<Rightarrow> cbor_error + buffer"
  and encode_elems ::
    "heap \<Rightarrow> limits \<Rightarrow> nat \<Rightarrow> addr list \<Rightarrow> desc option list \<Rightarrow> buffer \<Rightarrow> cbor_error + buffer"
  and encode_entries ::
    "heap \<Rightarrow> limits \<Rightarrow> nat \<Rightarrow> addr list \<Rightarrow> (jsstr \<times> jsval) list \<Rightarrow> buffer \<Rightarrow> cbor_error + buffer" where
  "encode_value h opts depth ancestors v w =
     (if max_depth opts < depth then Inl TooDeep
      else case v of
        VNull \<Rightarrow> write_byte 0xF6 w
      | VBool b \<Rightarrow> write_byte (if b then 0xF5 else 0xF4) w
      | VNum n \<Rightarrow> encode_number n w
      | VStr s \<Rightarrow> encode_text opts s w
      | VRef a \<Rightarrow>
          (case cell_at h a of
             CBytes bs \<Rightarrow>
               (if max_bytes opts < length bs then Inl TooLong
                else rbind (write_argument 2 (length bs) w) (write_bytes bs))
           | CArr p ds others \<Rightarrow>
               (if a \<in> set ancestors then Inl CborCycle
                else if max_container opts < length ds then Inl TooLong
                else rbind (write_argument 4 (length ds) w)
                       (encode_elems h opts (depth + 1) (a # ancestors) ds))
           | CObj p props \<Rightarrow>
               (if p \<noteq> ObjectProto \<and> p \<noteq> NullProto then Inl Unsupported
                else if a \<in> set ancestors then Inl CborCycle
                else if has_symbol props then Inl KeyNotString
                else let es = entries props in
                  if max_container opts < length es then Inl TooLong
                  else rbind (write_argument 5 (length es) w)
                         (encode_entries h opts (depth + 1) (a # ancestors) es)))
      | _ \<Rightarrow> Inl Unsupported)"
| "encode_elems h opts depth ancestors [] w = Inr w"
| "encode_elems h opts depth ancestors (d # ds) w =
     (case d of
        None \<Rightarrow> Inl ArrayHole
      | Some d \<Rightarrow>
          (if desc_value d = VUndef then Inl ArrayHole
           else rbind (encode_value h opts depth ancestors (desc_value d) w) (encode_elems h opts depth ancestors ds)))"
| "encode_entries h opts depth ancestors [] w = Inr w"
| "encode_entries h opts depth ancestors ((k, v) # es) w =
     rbind (encode_text opts k w) (\<lambda>w.
     rbind (encode_value h opts depth ancestors v w) (encode_entries h opts depth ancestors es))"
  by pat_completeness auto
termination
  by (relation "measures
       [\<lambda>x. case x of Inl (h, opts, depth, _) \<Rightarrow> Suc (max_depth opts) - depth
          | Inr (Inl (h, opts, depth, _)) \<Rightarrow> Suc (max_depth opts) - depth
          | Inr (Inr (h, opts, depth, _)) \<Rightarrow> Suc (max_depth opts) - depth,
        \<lambda>x. case x of Inl _ \<Rightarrow> 0 | Inr (Inl (_, _, _, _, ds, _)) \<Rightarrow> Suc (length ds)
          | Inr (Inr (_, _, _, _, es, _)) \<Rightarrow> Suc (length es)]")
     auto

declare encode_value.simps [simp del]

definition encode_cbor :: "heap \<Rightarrow> cbor_options \<Rightarrow> jsval \<Rightarrow> cbor_error + byte list" where
  "encode_cbor h options v =
     rbind (resolve_options options) (\<lambda>opts.
     rbind (encode_value h opts 0 [] v (new_writer (max_bytes opts))) (\<lambda>w. Inr (contents w)))"

section \<open>What the writer holds\<close>

lemma grow_bounds:
  "required \<le> limit \<Longrightarrow> capacity \<le> limit \<Longrightarrow>
   required \<le> grow limit required capacity \<and> grow limit required capacity \<le> limit \<and>
   capacity \<le> grow limit required capacity"
proof (induction limit required capacity rule: grow.induct)
  case (1 limit required capacity)
  show ?case
  proof (cases "capacity < required")
    case True
    then show ?thesis
      using 1 by (subst (1 2 3) grow.simps) auto
  next
    case False
    then show ?thesis
      using 1 by (subst (1 2 3) grow.simps) auto
  qed
qed

text \<open>Every write appends its bytes, or fails when they would pass the limit.\<close>

definition appends :: "(buffer \<Rightarrow> cbor_error + buffer) \<Rightarrow> byte list \<Rightarrow> bool" where
  "appends f bs \<longleftrightarrow>
     (\<forall>w. wf_buffer w \<longrightarrow>
        (if length (contents w) + length bs \<le> byte_limit w
         then \<exists>w'. f w = Inr w' \<and> wf_buffer w' \<and> byte_limit w' = byte_limit w \<and> contents w' = contents w @ bs
         else f w = Inl TooManyBytes))"

lemma length_contents: "wf_buffer w \<Longrightarrow> length (contents w) = position w"
  by (simp add: wf_buffer_def contents_def)

lemma ensure_capacity_ok:
  assumes w: "wf_buffer w" and fits: "position w + n \<le> byte_limit w"
  shows "\<exists>w'. ensure_capacity n w = Inr w' \<and> wf_buffer w' \<and> byte_limit w' = byte_limit w \<and>
    contents w' = contents w \<and> position w' = position w \<and> position w + n \<le> length (buffer_bytes w')"
proof (cases "position w + n \<le> length (buffer_bytes w)")
  case True
  then show ?thesis
    using w fits by (auto simp: ensure_capacity_def)
next
  case False
  define c where "c = grow (byte_limit w) (position w + n) (max 1 (length (buffer_bytes w)))"
  have c: "position w + n \<le> c" "c \<le> byte_limit w" "length (buffer_bytes w) \<le> c"
    using grow_bounds [OF fits, of "max 1 (length (buffer_bytes w))"] w fits False
    unfolding c_def wf_buffer_def by auto
  have "ensure_capacity n w = Inr (w\<lparr>buffer_bytes := set_at 0 (buffer_bytes w) (replicate c 0)\<rparr>)"
    using False fits by (simp add: ensure_capacity_def c_def)
  then show ?thesis
    using w c by (simp add: wf_buffer_def contents_def set_at_def)
qed

lemma appends_store:
  assumes "\<And>w. f w = rbind (ensure_capacity (length bs) w) (\<lambda>w. Inr (store bs w))"
  shows "appends f bs"
  unfolding appends_def
proof (intro allI impI)
  fix w assume w: "wf_buffer w"
  show "if length (contents w) + length bs \<le> byte_limit w
      then \<exists>w'. f w = Inr w' \<and> wf_buffer w' \<and> byte_limit w' = byte_limit w \<and> contents w' = contents w @ bs
      else f w = Inl TooManyBytes"
  proof (cases "position w + length bs \<le> byte_limit w")
    case True
    from ensure_capacity_ok [OF w True] show ?thesis
      using w True by (auto simp: assms length_contents contents_store wf_store) (simp add: store_def)
  next
    case False
    then show ?thesis
      using w by (simp add: assms length_contents ensure_capacity_def)
  qed
qed

lemma appends_seq:
  assumes "appends f xs" and "appends g ys"
  shows "appends (\<lambda>w. rbind (f w) g) (xs @ ys)"
  unfolding appends_def
proof (intro allI impI)
  fix w assume w: "wf_buffer w"
  show "if length (contents w) + length (xs @ ys) \<le> byte_limit w
      then \<exists>w'. rbind (f w) g = Inr w' \<and> wf_buffer w' \<and> byte_limit w' = byte_limit w \<and> contents w' = contents w @ xs @ ys
      else rbind (f w) g = Inl TooManyBytes"
  proof (cases "length (contents w) + length xs \<le> byte_limit w")
    case True
    then obtain w1 where w1: "f w = Inr w1" "wf_buffer w1" "byte_limit w1 = byte_limit w" "contents w1 = contents w @ xs"
      using assms(1) w unfolding appends_def by meson
    have "if length (contents w1) + length ys \<le> byte_limit w1
      then \<exists>w'. g w1 = Inr w' \<and> wf_buffer w' \<and> byte_limit w' = byte_limit w1 \<and> contents w' = contents w1 @ ys
      else g w1 = Inl TooManyBytes"
      using assms(2) w1(2) unfolding appends_def by blast
    then show ?thesis
      using w1 by (auto split: if_splits)
  next
    case False
    then have "f w = Inl TooManyBytes"
      using assms(1) w unfolding appends_def by meson
    with False show ?thesis by simp
  qed
qed

end
