(* ===== verification/CborDecode.thy ===== *)
theory CborDecode
  imports CborEncode
begin

text \<open>
  The CBOR decoder of the wire protocol (\<open>packages/protocol/src/cbor/decoder.ts\<close>). A reader is the
  list of the bytes it has not read yet, and every result is a new tree.
\<close>

section \<open>Decoded values\<close>

datatype tree =
    TNull
  | TBool bool
  | TNum jsnum
  | TStr jsstr
  | TBytes "byte list"
  | TArr "tree list"
  | TObj "(jsstr \<times> tree) list"

section \<open>Floating point\<close>

text \<open>
  The double \<open>m * 2 ^ e\<close>, negated when \<open>neg\<close>: the exact results of \<open>decodeFloat16\<close> and of
  \<open>getFloat32\<close>. Scaling up to 53 significant bits gives the bit pattern of a normal double.
\<close>

function scale53 :: "nat \<Rightarrow> int \<Rightarrow> nat \<times> int" where
  "scale53 m e = (if 0 < m \<and> m < 2 ^ 52 then scale53 (2 * m) (e - 1) else (m, e))"
  by pat_completeness auto
termination
  by (relation "measure (\<lambda>(m, _). 2 ^ 52 - m)") auto

declare scale53.simps [simp del]

definition double_bits :: "bool \<Rightarrow> nat \<Rightarrow> int \<Rightarrow> 64 word" where
  "double_bits neg m e =
     (let (m', e') = scale53 m e
      in of_nat ((if neg then 2 ^ 63 else 0) + nat (e' + 1075) * 2 ^ 52 + (m' - 2 ^ 52)))"

definition dyadic :: "bool \<Rightarrow> nat \<Rightarrow> int \<Rightarrow> jsnum" where
  "dyadic neg m e =
     (let signed = (\<lambda>n. if neg then - int n else int n)
      in if m = 0 then (if neg then NBits neg_zero else NInt 0)
         else if 0 \<le> e then NInt (signed (m * 2 ^ nat e))
         else if m mod 2 ^ nat (- e) = 0 then NInt (signed (m div 2 ^ nat (- e)))
         else NBits (double_bits neg m e))"

definition infinity_bits :: "bool \<Rightarrow> 64 word" where
  "infinity_bits neg = (if neg then 0xFFF0000000000000 else 0x7FF0000000000000)"

definition decode_float16 :: "nat \<Rightarrow> jsnum" where
  "decode_float16 bits =
     (let neg = (bits AND 0x8000 \<noteq> 0); exponent = drop_bit 10 bits AND 0x1F; fraction = bits AND 0x03FF
      in if exponent = 0 then dyadic neg fraction (- 24)
         else if exponent = 31 then NBits (if fraction = 0 then infinity_bits neg else quiet_nan)
         else dyadic neg (1024 + fraction) (int exponent - 25))"

text \<open>\<open>DataView.getFloat32\<close> on the bits of a single.\<close>

definition float32 :: "nat \<Rightarrow> jsnum" where
  "float32 bits =
     (let neg = (bits AND 0x80000000 \<noteq> 0); exponent = drop_bit 23 bits AND 0xFF; fraction = bits AND 0x7FFFFF
      in if exponent = 0 then dyadic neg fraction (- 149)
         else if exponent = 255 then NBits (if fraction = 0 then infinity_bits neg else quiet_nan)
         else dyadic neg (2 ^ 23 + fraction) (int exponent - 150))"

section \<open>The reader\<close>

definition read_byte :: "byte list \<Rightarrow> cbor_error + nat \<times> byte list" where
  "read_byte bs = (case bs of [] \<Rightarrow> Inl Truncated | b # bs \<Rightarrow> Inr (unat b, bs))"

definition read_bytes :: "nat \<Rightarrow> byte list \<Rightarrow> cbor_error + byte list \<times> byte list" where
  "read_bytes n bs = (if length bs < n then Inl Truncated else Inr (take n bs, drop n bs))"

text \<open>\<open>n\<close> bytes as a big-endian integer.\<close>

definition read_uint :: "nat \<Rightarrow> byte list \<Rightarrow> cbor_error + nat \<times> byte list" where
  "read_uint n bs = rbind (read_bytes n bs) (\<lambda>(data, bs). Inr (big_endian data, bs))"

definition read_argument :: "nat \<Rightarrow> byte list \<Rightarrow> cbor_error + nat \<times> byte list" where
  "read_argument info bs =
     (if info < 24 then Inr (info, bs)
      else if info = 24 then read_byte bs
      else if info = 25 then read_uint 2 bs
      else if info = 26 then read_uint 4 bs
      else if info = 27 then
        rbind (read_uint 4 bs) (\<lambda>(high, bs).
        rbind (read_uint 4 bs) (\<lambda>(low, bs).
          if 0x1FFFFF < high then Inl NotSafe else Inr (high * 2 ^ 32 + low, bs)))
      else if info = 31 then Inl Indefinite
      else Inl Malformed)"

definition read_length :: "nat \<Rightarrow> nat \<Rightarrow> byte list \<Rightarrow> cbor_error + nat \<times> byte list" where
  "read_length info limit bs =
     (if info = 31 then Inl Indefinite
      else rbind (read_argument info bs) (\<lambda>(n, bs). if limit < n then Inl TooLong else Inr (n, bs)))"

definition finite_float :: "jsnum \<Rightarrow> cbor_error + tree" where
  "finite_float n =
     (if \<not> num_is_finite n then Inl NotFinite
      else if num_is_integer n \<and> \<not> num_is_safe n then Inl NotSafe
      else Inr (TNum n))"

definition with_rest :: "cbor_error + tree \<Rightarrow> byte list \<Rightarrow> cbor_error + tree \<times> byte list" where
  "with_rest r bs = rbind r (\<lambda>t. Inr (t, bs))"

definition read_simple :: "nat \<Rightarrow> byte list \<Rightarrow> cbor_error + tree \<times> byte list" where
  "read_simple info bs =
     (if info = 20 then Inr (TBool False, bs)
      else if info = 21 then Inr (TBool True, bs)
      else if info = 22 then Inr (TNull, bs)
      else if info = 25 then rbind (read_uint 2 bs) (\<lambda>(bits, bs). with_rest (finite_float (decode_float16 bits)) bs)
      else if info = 26 then rbind (read_uint 4 bs) (\<lambda>(bits, bs). with_rest (finite_float (float32 bits)) bs)
      else if info = 27 then
        rbind (read_uint 8 bs) (\<lambda>(bits, bs). with_rest (finite_float (num_of_f64 (of_nat bits))) bs)
      else if info = 31 then Inl Indefinite
      else Inl Unsupported)"

text \<open>\<open>readItem\<close>, and its loops over the items of an array and the entries of a map.\<close>

function (sequential) read_item :: "limits \<Rightarrow> nat \<Rightarrow> byte list \<Rightarrow> cbor_error + tree \<times> byte list"
  and read_items :: "limits \<Rightarrow> nat \<Rightarrow> nat \<Rightarrow> byte list \<Rightarrow> cbor_error + tree list \<times> byte list"
  and read_entries ::
    "limits \<Rightarrow> nat \<Rightarrow> nat \<Rightarrow> jsstr list \<Rightarrow> byte list \<Rightarrow> cbor_error + (jsstr \<times> tree) list \<times> byte list" where
  "read_item opts depth bs =
     (if max_depth opts < depth then Inl TooDeep
      else rbind (read_byte bs) (\<lambda>(initial, bs).
        let major = drop_bit 5 initial; info = initial AND 0x1F in
        if major = 0 then rbind (read_argument info bs) (\<lambda>(n, bs). Inr (TNum (NInt (int n)), bs))
        else if major = 1 then
          rbind (read_argument info bs) (\<lambda>(n, bs).
            let i = - 1 - int n
            in if \<not> num_is_safe (NInt i) then Inl NotSafe else Inr (TNum (NInt i), bs))
        else if major = 2 then
          rbind (read_length info (max_bytes opts) bs) (\<lambda>(n, bs).
          rbind (read_bytes n bs) (\<lambda>(data, bs). Inr (TBytes data, bs)))
        else if major = 3 then
          rbind (read_length info (max_bytes opts) bs) (\<lambda>(n, bs).
          rbind (read_bytes n bs) (\<lambda>(data, bs).
            case utf8_decode data of None \<Rightarrow> Inl BadText | Some s \<Rightarrow> Inr (TStr s, bs)))
        else if major = 4 then
          rbind (read_length info (max_container opts) bs) (\<lambda>(n, bs).
          rbind (read_items opts (depth + 1) n bs) (\<lambda>(ts, bs). Inr (TArr ts, bs)))
        else if major = 5 then
          rbind (read_length info (max_container opts) bs) (\<lambda>(n, bs).
          rbind (read_entries opts (depth + 1) n [] bs) (\<lambda>(kts, bs). Inr (TObj kts, bs)))
        else if major = 6 then Inl Unsupported
        else if major = 7 then read_simple info bs
        else Inl Malformed))"
| "read_items opts depth 0 bs = Inr ([], bs)"
| "read_items opts depth (Suc n) bs =
     rbind (read_item opts depth bs) (\<lambda>(t, bs).
     rbind (read_items opts depth n bs) (\<lambda>(ts, bs). Inr (t # ts, bs)))"
| "read_entries opts depth 0 keys bs = Inr ([], bs)"
| "read_entries opts depth (Suc n) keys bs =
     rbind (read_item opts depth bs) (\<lambda>(key, bs).
       case key of
         TStr k \<Rightarrow>
           (if k \<in> set keys then Inl DuplicateKey
            else rbind (read_item opts depth bs) (\<lambda>(t, bs).
                 rbind (read_entries opts depth n (k # keys) bs) (\<lambda>(kts, bs). Inr ((k, t) # kts, bs))))
       | _ \<Rightarrow> Inl KeyNotString)"
  by pat_completeness auto
termination
  by (relation "measures
       [\<lambda>x. case x of Inl (opts, depth, _) \<Rightarrow> Suc (max_depth opts) - depth
          | Inr (Inl (opts, depth, _)) \<Rightarrow> Suc (max_depth opts) - depth
          | Inr (Inr (opts, depth, _)) \<Rightarrow> Suc (max_depth opts) - depth,
        \<lambda>x. case x of Inl _ \<Rightarrow> 0 | Inr (Inl (_, _, n, _)) \<Rightarrow> Suc n
          | Inr (Inr (_, _, n, _)) \<Rightarrow> Suc n]")
     auto

declare read_item.simps [simp del]

definition decode_cbor :: "cbor_options \<Rightarrow> byte list \<Rightarrow> cbor_error + tree" where
  "decode_cbor options bs =
     rbind (resolve_options options) (\<lambda>opts.
       if max_bytes opts < length bs then Inl TooManyBytes
       else rbind (read_item opts 0 bs) (\<lambda>(t, rest). if rest = [] then Inr t else Inl TrailingData))"

section \<open>Scaled doubles are canonical\<close>

lemma unat64: "n < 2 ^ 64 \<Longrightarrow> unat (of_nat n :: 64 word) = n"
  by (simp add: unsigned_of_nat take_bit_eq_mod)

lemma scale53_spec:
  "0 < m \<Longrightarrow> m < 2 ^ 53 \<Longrightarrow> scale53 m e = (m', e') \<Longrightarrow>
   2 ^ 52 \<le> m' \<and> m' < 2 ^ 53 \<and> (\<exists>k. m' = m * 2 ^ k \<and> e' = e - int k \<and> k \<le> 52)"
proof (induction m e rule: scale53.induct)
  case (1 m e)
  show ?case
  proof (cases "m < 2 ^ 52")
    case True
    have "scale53 (2 * m) (e - 1) = (m', e')"
      using "1.prems" True by (subst (asm) scale53.simps) simp
    then obtain k where k: "2 ^ 52 \<le> m'" "m' < 2 ^ 53" "m' = 2 * m * 2 ^ k" "e' = e - 1 - int k" "k \<le> 52"
      using "1.IH" "1.prems" True by auto
    have "m * 2 ^ Suc k < 2 ^ 53"
      using k(2,3) by (simp add: mult.assoc)
    then have "(2 :: nat) ^ Suc k < 2 ^ 53"
      using "1.prems"(1) by (metis One_nat_def Suc_leI le_less_trans mult.commute mult_1_right mult_le_mono2)
    then have "Suc k < 53"
      by (rule power_less_imp_less_exp [rotated]) simp
    then show ?thesis
      using k by (intro conjI exI [of _ "Suc k"]) auto
  next
    case False
    then show ?thesis
      using "1.prems" by (subst (asm) scale53.simps) (auto intro: exI [of _ 0])
  qed
qed

lemma double_bits_fields:
  assumes m: "0 < m" "m < 2 ^ 53" and e: "- 1000 \<le> e" "e \<le> 0"
  obtains k where "f64_exponent (double_bits neg m e) = nat (e - int k + 1075)"
    and "2 ^ 52 + f64_fraction (double_bits neg m e) = m * 2 ^ k" and "k \<le> 52"
proof -
  obtain m' e' where s: "scale53 m e = (m', e')" by (cases "scale53 m e")
  from scale53_spec [OF m s] obtain k where k: "2 ^ 52 \<le> m'" "m' < 2 ^ 53" "m' = m * 2 ^ k" "e' = e - int k" "k \<le> 52"
    by auto
  define x where "x = nat (e' + 1075)"
  have x: "x < 2048"
    using e k(4,5) by (simp add: x_def)
  have f: "m' - 2 ^ 52 < 2 ^ 52"
    using k(1,2) by simp
  define s where "s = (if neg then 2048 else 0) + x"
  have "s < 4096"
    using x by (simp add: s_def)
  then have "s * 2 ^ 52 + (m' - 2 ^ 52) < 2 ^ 64"
    using f by simp
  moreover have "double_bits neg m e = of_nat (s * 2 ^ 52 + (m' - 2 ^ 52))"
    by (simp add: double_bits_def s x_def s_def \<open>scale53 m e = _\<close>)
  ultimately have bits: "unat (double_bits neg m e) = s * 2 ^ 52 + (m' - 2 ^ 52)"
    by (simp only: unat64)
  have "f64_exponent (double_bits neg m e) = s mod 2048"
    unfolding f64_exponent_def bits digit_div [OF f] ..
  moreover have "s mod 2048 = x"
    using x by (simp add: s_def)
  moreover have "f64_fraction (double_bits neg m e) = m' - 2 ^ 52"
    unfolding f64_fraction_def bits by (rule digit_mod [OF f])
  ultimately show thesis
    using that [of k] k by (simp add: x_def)
qed

lemma dyadic_canonical:
  assumes m: "m < 2 ^ 53" and e: "- 1000 \<le> e"
  shows "wf_num (dyadic neg m e) \<and> num_is_finite (dyadic neg m e)"
proof (cases "m = 0 \<or> 0 \<le> e \<or> m mod 2 ^ nat (- e) = 0")
  case True
  then show ?thesis
    by (auto simp: dyadic_def wf_num_def neg_zero_def num_of_f64_def f64_exponent_def f64_fraction_def f64_negative_def)
next
  case False
  then obtain k where k: "f64_exponent (double_bits neg m e) = nat (e - int k + 1075)"
    "2 ^ 52 + f64_fraction (double_bits neg m e) = m * 2 ^ k" "k \<le> 52"
    using double_bits_fields [of m e neg] m e by auto
  let ?x = "nat (e - int k + 1075)"
  have x: "0 < ?x" "?x < 1075" "1075 - ?x = nat (- e) + k"
    using e k(3) False by auto
  have "m * 2 ^ k mod 2 ^ (nat (- e) + k) = m mod 2 ^ nat (- e) * 2 ^ k"
    by (simp add: power_add mult_mod_left)
  then have "m * 2 ^ k mod 2 ^ (1075 - ?x) \<noteq> 0"
    using False x(3) by simp
  then have "num_of_f64 (double_bits neg m e) = NBits (double_bits neg m e)"
    unfolding num_of_f64_def Let_def k(1) using x k(2) m False by (auto simp: k(2))
  then show ?thesis
    using False x k(1) by (simp add: dyadic_def wf_num_def)
qed

lemma and_masks:
  "n AND 0x1F = (n :: nat) mod 32" "n AND 0x3FF = n mod 1024"
  "n AND 0x7FFFFF = n mod 8388608" "n AND 0xFF = n mod 256"
  using take_bit_eq_mask [of 5 n] take_bit_eq_mask [of 10 n] take_bit_eq_mask [of 23 n] take_bit_eq_mask [of 8 n]
  by (simp_all add: take_bit_eq_mod mask_eq_exp_minus_1)

lemma special_not_finite:
  "\<not> num_is_finite (NBits (infinity_bits neg))" "\<not> num_is_finite (NBits quiet_nan)"
  by (simp_all add: infinity_bits_def quiet_nan_def f64_exponent_def)

lemma decode_float16_canonical: "num_is_finite (decode_float16 bits) \<Longrightarrow> wf_num (decode_float16 bits)"
proof -
  have "bits mod 1024 < 1024" by simp
  then have "bits mod 1024 < 9007199254740992" "1024 + bits mod 1024 < 9007199254740992" by linarith+
  then show "num_is_finite (decode_float16 bits) \<Longrightarrow> wf_num (decode_float16 bits)"
    unfolding decode_float16_def Let_def and_masks
    using special_not_finite by (auto simp: dyadic_canonical simp del: num_is_finite.simps split: if_splits)
qed

lemma float32_canonical: "num_is_finite (float32 bits) \<Longrightarrow> wf_num (float32 bits)"
proof -
  have "bits mod 8388608 < 8388608" by simp
  then have "bits mod 8388608 < 9007199254740992" "8388608 + bits mod 8388608 < 9007199254740992" by linarith+
  then show "num_is_finite (float32 bits) \<Longrightarrow> wf_num (float32 bits)"
    unfolding float32_def Let_def and_masks
    using special_not_finite by (auto simp: dyadic_canonical simp del: num_is_finite.simps split: if_splits)
qed

lemma num_of_f64_canonical: "wf_num (num_of_f64 w)"
  by (auto simp: wf_num_def num_of_f64_def Let_def split: jsnum.splits if_splits)

end
