(* ===== verification/CborBytes.thy ===== *)
theory CborBytes
  imports CborDecode
begin

text \<open>
  What the CBOR encoder writes for a tree, and that the decoder reads it back. Trees are the values
  of both sides: the encoder's heap value unfolds to one, the decoder builds one.
\<close>

section \<open>The bytes of a tree\<close>

definition argument_bytes :: "nat \<Rightarrow> nat \<Rightarrow> byte list" where
  "argument_bytes major n =
     (let prefix = push_bit 5 major in
      if n < 24 then [of_nat (prefix OR n)]
      else if n \<le> 0xFF then [of_nat (prefix OR 24), of_nat n]
      else if n \<le> 0xFFFF then of_nat (prefix OR 25) # be16 n
      else if n \<le> max_uint32 then of_nat (prefix OR 26) # be32 n
      else of_nat (prefix OR 27) # be64 n)"

definition text_bytes :: "jsstr \<Rightarrow> byte list" where
  "text_bytes s = argument_bytes 3 (length (utf8_encode s)) @ utf8_encode s"

definition number_bytes :: "jsnum \<Rightarrow> byte list" where
  "number_bytes n =
     (case n of
        NInt i \<Rightarrow> (if 0 \<le> i then argument_bytes 0 (nat i) else argument_bytes 1 (nat (- 1 - i)))
      | NBits x \<Rightarrow> 0xFB # be64 (unat x))"

fun tree_bytes :: "tree \<Rightarrow> byte list" where
  "tree_bytes TNull = [0xF6]"
| "tree_bytes (TBool b) = [if b then 0xF5 else 0xF4]"
| "tree_bytes (TNum n) = number_bytes n"
| "tree_bytes (TStr s) = text_bytes s"
| "tree_bytes (TBytes bs) = argument_bytes 2 (length bs) @ bs"
| "tree_bytes (TArr ts) = argument_bytes 4 (length ts) @ concat (map tree_bytes ts)"
| "tree_bytes (TObj kts) =
     argument_bytes 5 (length kts) @ concat (map (\<lambda>(k, t). text_bytes k @ tree_bytes t) kts)"

section \<open>Trees within the limits\<close>

definition text_fits :: "limits \<Rightarrow> jsstr \<Rightarrow> bool" where
  "text_fits opts s \<longleftrightarrow> well_formed s \<and> length (utf8_encode s) \<le> max_bytes opts"

fun fits :: "limits \<Rightarrow> nat \<Rightarrow> tree \<Rightarrow> bool" where
  "fits opts depth (TNum n) = (depth \<le> max_depth opts \<and> num_is_finite n \<and> (num_is_integer n \<longrightarrow> num_is_safe n))"
| "fits opts depth (TStr s) = (depth \<le> max_depth opts \<and> text_fits opts s)"
| "fits opts depth (TBytes bs) = (depth \<le> max_depth opts \<and> length bs \<le> max_bytes opts)"
| "fits opts depth (TArr ts) =
     (depth \<le> max_depth opts \<and> length ts \<le> max_container opts \<and> list_all (fits opts (depth + 1)) ts)"
| "fits opts depth (TObj kts) =
     (depth \<le> max_depth opts \<and> length kts \<le> max_container opts \<and>
      list_all (\<lambda>(k, t). text_fits opts k \<and> fits opts (depth + 1) t) kts)"
| "fits opts depth t = (depth \<le> max_depth opts)"

text \<open>Numbers have one representation and maps each key once.\<close>

fun wf_tree :: "tree \<Rightarrow> bool" where
  "wf_tree (TNum n) = wf_num n"
| "wf_tree (TArr ts) = list_all wf_tree ts"
| "wf_tree (TObj kts) = (distinct (map fst kts) \<and> list_all (\<lambda>(_, t). wf_tree t) kts)"
| "wf_tree _ = True"

definition wf_limits :: "limits \<Rightarrow> bool" where
  "wf_limits opts \<longleftrightarrow> max_bytes opts \<le> max_uint32 \<and> max_container opts \<le> max_uint32"

lemma resolve_limit_le: "resolve_limit n m = Inr k \<Longrightarrow> k \<le> m"
  by (auto simp: resolve_limit_def split: jsnum.splits if_splits)

lemma resolve_options_wf: "resolve_options options = Inr opts \<Longrightarrow> wf_limits opts"
  by (auto simp: resolve_options_def rbind_Inr_conv wf_limits_def dest: resolve_limit_le)

section \<open>Initial bytes\<close>

lemma prefix_or: "k < 32 \<Longrightarrow> push_bit 5 major OR k = major * 32 + (k :: nat)"
proof -
  assume "k < 32"
  then have k: "take_bit 5 k = k"
    by (simp add: take_bit_eq_mod)
  have "push_bit 5 major AND take_bit 5 k = 0"
    by (rule bit_eqI) (auto simp: bit_simps)
  then show ?thesis
    using k by (simp add: disjunctive_add_eq_or [symmetric] push_bit_eq_mult mult.commute)
qed

lemma initial_byte:
  assumes "major < 8" and "k < 32"
  shows "drop_bit 5 (unat (of_nat (push_bit 5 major OR k) :: byte)) = major"
    and "unat (of_nat (push_bit 5 major OR k) :: byte) AND 0x1F = k"
proof -
  have "unat (of_nat (push_bit 5 major OR k) :: byte) = major * 32 + k"
    unfolding prefix_or [OF assms(2)] using assms by (intro unat8) simp
  then show "drop_bit 5 (unat (of_nat (push_bit 5 major OR k) :: byte)) = major"
    "unat (of_nat (push_bit 5 major OR k) :: byte) AND 0x1F = k"
    using assms(2) unfolding and_masks by (simp_all add: drop_bit_eq_div)
qed

lemma read_uint_append: "length xs = n \<Longrightarrow> read_uint n (xs @ bs) = Inr (big_endian xs, bs)"
  by (simp add: read_uint_def read_bytes_def)

text \<open>An argument is one initial byte and what \<open>readArgument\<close> reads back for it.\<close>

lemma argument_bytes_cases:
  assumes "major < 8" and "n < 2 ^ 53"
  obtains b more_bytes info where "argument_bytes major n = b # more_bytes"
    and "drop_bit 5 (unat b) = major" and "unat b AND 0x1F = info" and "info < 28"
    and "\<And>bs. read_argument info (more_bytes @ bs) = Inr (n, bs)"
proof -
  consider "n < 24" | "24 \<le> n" "n \<le> 0xFF" | "0xFF < n" "n \<le> 0xFFFF" | "0xFFFF < n" "n \<le> max_uint32"
    | "max_uint32 < n" by linarith
  then show thesis
  proof cases
    case 1
    then show ?thesis
      using that [of "of_nat (push_bit 5 major OR n)" "[]" n] assms(1)
      by (simp add: argument_bytes_def initial_byte read_argument_def)
  next
    case 2
    then show ?thesis
      using that [of "of_nat (push_bit 5 major OR 24)" "[of_nat n]" 24] assms(1)
      by (simp add: argument_bytes_def initial_byte read_argument_def read_byte_def unat8)
  next
    case 3
    then show ?thesis
      using that [of "of_nat (push_bit 5 major OR 25)" "be16 n" 25] assms(1)
      by (simp add: argument_bytes_def initial_byte read_argument_def read_uint_append big_endian_be16)
  next
    case 4
    then show ?thesis
      using that [of "of_nat (push_bit 5 major OR 26)" "be32 n" 26] assms(1)
      by (simp add: argument_bytes_def initial_byte read_argument_def read_uint_append big_endian_be32 max_uint32_def)
  next
    case 5
    have high: "n div 2 ^ 32 < 2 ^ 21"
      using assms(2) by (simp add: div_less_iff_less_mult)
    have "read_argument 27 (be64 n @ bs) = Inr (n, bs)" for bs
      using high div_mult_mod_eq [of n "2 ^ 32"]
      by (simp add: read_argument_def be64_def read_uint_append big_endian_be32)
    then show ?thesis
      using that [of "of_nat (push_bit 5 major OR 27)" "be64 n" 27] assms(1) 5
      by (simp add: argument_bytes_def initial_byte max_uint32_def)
  qed
qed

lemma argument_bytes_read:
  "major < 8 \<Longrightarrow> n < 2 ^ 53 \<Longrightarrow>
   \<exists>b more_bytes info. argument_bytes major n = b # more_bytes \<and> drop_bit 5 (unat b) = major \<and>
     unat b AND 0x1F = info \<and> info < 28 \<and> (\<forall>bs. read_argument info (more_bytes @ bs) = Inr (n, bs))"
  by (rule argument_bytes_cases [of major n]) auto

end
