(* ===== verification/CborRoundtrip.thy ===== *)
theory CborRoundtrip
  imports CborBytes
begin

text \<open>
  The CBOR codec is correct: the decoder reads back the tree the encoder was given, the encoder
  accepts exactly the values that unfold to a tree within the limits, and what the decoder accepts is
  within the limits and canonical.
\<close>

section \<open>Reading a tree back\<close>

lemma read_byte_Cons [simp]: "read_byte (b # bs) = Inr (unat b, bs)"
  by (simp add: read_byte_def)

lemma read_bytes_append [simp]: "length xs = n \<Longrightarrow> read_bytes n (xs @ bs) = Inr (xs, bs)"
  by (simp add: read_bytes_def)

lemma small_length: "n \<le> max_uint32 \<Longrightarrow> n < 2 ^ 53"
  by (simp add: max_uint32_def)

lemma read_length_ok:
  "info < 28 \<Longrightarrow> read_argument info bs = Inr (n, rest) \<Longrightarrow> n \<le> limit \<Longrightarrow> read_length info limit bs = Inr (n, rest)"
  by (simp add: read_length_def)

lemma read_text:
  assumes "depth \<le> max_depth opts" and "text_fits opts s" and "wf_limits opts"
  shows "read_item opts depth (text_bytes s @ bs) = Inr (TStr s, bs)"
proof -
  let ?n = "length (utf8_encode s)"
  have n: "?n \<le> max_bytes opts" "?n < 2 ^ 53"
    using assms(2,3) by (auto simp: text_fits_def wf_limits_def max_uint32_def)
  obtain b more_bytes info where a: "argument_bytes 3 ?n = b # more_bytes" "drop_bit 5 (unat b) = 3"
    "unat b AND 0x1F = info" "info < 28" "\<And>bs. read_argument info (more_bytes @ bs) = Inr (?n, bs)"
    using argument_bytes_read [OF _ n(2), of 3] by auto
  have "read_length info (max_bytes opts) (more_bytes @ utf8_encode s @ bs) = Inr (?n, utf8_encode s @ bs)"
    using a(4,5) n(1) by (intro read_length_ok) auto
  then show ?thesis
    using assms a by (simp add: read_item.simps text_bytes_def text_fits_def utf8_decode_encode)
qed

lemma read_number:
  assumes "depth \<le> max_depth opts" and "num_is_finite n" and "num_is_integer n \<longrightarrow> num_is_safe n" and "wf_num n"
  shows "read_item opts depth (number_bytes n @ bs) = Inr (TNum n, bs)"
proof (cases n)
  case (NInt i)
  show ?thesis
  proof (cases "0 \<le> i")
    case True
    have i: "nat i < 2 ^ 53"
      using assms(3) NInt True by (simp add: max_safe_def)
    from argument_bytes_read [OF _ i, of 0] obtain b more_bytes info
      where "argument_bytes 0 (nat i) = b # more_bytes" "drop_bit 5 (unat b) = 0"
        "unat b AND 0x1F = info" "\<And>bs. read_argument info (more_bytes @ bs) = Inr (nat i, bs)"
      by auto
    then show ?thesis
      using assms(1) NInt True by (simp add: read_item.simps number_bytes_def)
  next
    case False
    have i: "nat (- 1 - i) < 2 ^ 53"
      using assms(3) NInt False by (simp add: max_safe_def)
    from argument_bytes_read [OF _ i, of 1] obtain b more_bytes info
      where "argument_bytes 1 (nat (- 1 - i)) = b # more_bytes" "drop_bit 5 (unat b) = 1"
        "unat b AND 0x1F = info" "\<And>bs. read_argument info (more_bytes @ bs) = Inr (nat (- 1 - i), bs)"
      by auto
    then show ?thesis
      using assms(1,3) NInt False by (simp add: read_item.simps number_bytes_def)
  qed
next
  case (NBits x)
  have "unat x < 2 ^ 64"
    using unsigned_less [of x] by simp
  then have "big_endian (be64 (unat x)) = unat x"
    by (rule big_endian_be64)
  moreover have "num_of_f64 x = NBits x"
    using assms(4) NBits by (simp add: wf_num_def)
  ultimately have "read_simple 27 (be64 (unat x) @ bs) = Inr (TNum n, bs)"
    using assms(2,3) NBits by (simp add: read_simple_def read_uint_append with_rest_def finite_float_def)
  then show ?thesis
    using assms(1) NBits by (simp add: read_item.simps number_bytes_def drop_bit_eq_div and_masks)
qed

lemma read_entries_ok:
  "list_all (\<lambda>(k, t). depth \<le> max_depth opts \<and> text_fits opts k \<and>
      (\<forall>bs. read_item opts depth (tree_bytes t @ bs) = Inr (t, bs))) kts \<Longrightarrow>
   distinct (map fst kts) \<Longrightarrow> set keys \<inter> set (map fst kts) = {} \<Longrightarrow> wf_limits opts \<Longrightarrow>
   read_entries opts depth (length kts) keys (concat (map (\<lambda>(k, t). text_bytes k @ tree_bytes t) kts) @ bs)
     = Inr (kts, bs)"
proof (induction kts arbitrary: keys)
  case (Cons kt kts)
  obtain k t where kt: "kt = (k, t)" by (cases kt)
  have "read_entries opts depth (length kts) (k # keys)
      (concat (map (\<lambda>(k, t). text_bytes k @ tree_bytes t) kts) @ bs) = Inr (kts, bs)"
    using Cons.prems kt by (intro Cons.IH) auto
  then show ?case
    using Cons.prems kt by (simp add: read_text)
qed simp

lemma fits_depth: "fits opts depth t \<Longrightarrow> depth \<le> max_depth opts"
  by (cases t) simp_all

lemma read_tree:
  "fits opts depth t \<Longrightarrow> wf_tree t \<Longrightarrow> wf_limits opts \<Longrightarrow>
   read_item opts depth (tree_bytes t @ bs) = Inr (t, bs)"
proof (induction t arbitrary: depth bs)
  case (TArr ts)
  have items: "read_items opts (depth + 1) (length ts) (concat (map tree_bytes ts) @ bs) = Inr (ts, bs)"
    using TArr by (induction ts) simp_all
  have n: "length ts \<le> max_container opts" "length ts < 2 ^ 53"
    using TArr.prems by (auto simp: wf_limits_def max_uint32_def)
  obtain b more_bytes info where a: "argument_bytes 4 (length ts) = b # more_bytes" "drop_bit 5 (unat b) = 4"
    "unat b AND 0x1F = info" "info < 28" "\<And>bs. read_argument info (more_bytes @ bs) = Inr (length ts, bs)"
    using argument_bytes_read [OF _ n(2), of 4] by auto
  have "read_length info (max_container opts) (more_bytes @ concat (map tree_bytes ts) @ bs)
      = Inr (length ts, concat (map tree_bytes ts) @ bs)"
    using a(4,5) n(1) by (intro read_length_ok) auto
  then show ?case
    using TArr.prems a items by (simp add: read_item.simps)
next
  case (TObj kts)
  let ?data = "concat (map (\<lambda>(k, t). text_bytes k @ tree_bytes t) kts)"
  have parts: "(k, t) \<in> set kts \<Longrightarrow> text_fits opts k \<and> fits opts (depth + 1) t \<and> wf_tree t" for k t
    using TObj.prems by (auto simp: list_all_iff)
  have "list_all (\<lambda>(k, t). depth + 1 \<le> max_depth opts \<and> text_fits opts k \<and>
      (\<forall>bs. read_item opts (depth + 1) (tree_bytes t @ bs) = Inr (t, bs))) kts"
    unfolding list_all_iff using parts TObj.IH TObj.prems(3) fits_depth by (fastforce simp: snds.simps)
  then have entries: "read_entries opts (depth + 1) (length kts) [] (?data @ bs) = Inr (kts, bs)"
    using TObj.prems by (intro read_entries_ok) simp_all
  have n: "length kts \<le> max_container opts" "length kts < 2 ^ 53"
    using TObj.prems by (auto simp: wf_limits_def max_uint32_def)
  obtain b more_bytes info where a: "argument_bytes 5 (length kts) = b # more_bytes" "drop_bit 5 (unat b) = 5"
    "unat b AND 0x1F = info" "info < 28" "\<And>bs. read_argument info (more_bytes @ bs) = Inr (length kts, bs)"
    using argument_bytes_read [OF _ n(2), of 5] by auto
  have "read_length info (max_container opts) (more_bytes @ ?data @ bs) = Inr (length kts, ?data @ bs)"
    using a(4,5) n(1) by (intro read_length_ok) auto
  then show ?case
    using TObj.prems a entries by (simp add: read_item.simps)
next
  case (TBytes data)
  have n: "length data \<le> max_bytes opts" "length data < 2 ^ 53"
    using TBytes by (auto simp: wf_limits_def max_uint32_def)
  obtain b more_bytes info where a: "argument_bytes 2 (length data) = b # more_bytes" "drop_bit 5 (unat b) = 2"
    "unat b AND 0x1F = info" "info < 28" "\<And>bs. read_argument info (more_bytes @ bs) = Inr (length data, bs)"
    using argument_bytes_read [OF _ n(2), of 2] by auto
  have "read_length info (max_bytes opts) (more_bytes @ data @ bs) = Inr (length data, data @ bs)"
    using a(4,5) n(1) by (intro read_length_ok) auto
  then show ?case
    using TBytes.prems a by (simp add: read_item.simps)
next
  case (TNum n)
  then show ?case by (simp add: read_number)
next
  case (TStr s)
  then show ?case by (simp add: read_text)
qed (simp_all add: read_item.simps read_simple_def drop_bit_eq_div and_masks)

section \<open>What the encoder writes\<close>

text \<open>The tree a value unfolds to, as the encoder looks at it.\<close>

inductive denotes :: "heap \<Rightarrow> jsval \<Rightarrow> tree \<Rightarrow> bool"
  and denotes_elems :: "heap \<Rightarrow> desc option list \<Rightarrow> tree list \<Rightarrow> bool"
  and denotes_entries :: "heap \<Rightarrow> (jsstr \<times> jsval) list \<Rightarrow> (jsstr \<times> tree) list \<Rightarrow> bool"
  for h :: heap where
  denotes_null: "denotes h VNull TNull"
| denotes_bool: "denotes h (VBool b) (TBool b)"
| denotes_num: "denotes h (VNum n) (TNum n)"
| denotes_str: "denotes h (VStr s) (TStr s)"
| denotes_bytes: "cell_at h a = CBytes bs \<Longrightarrow> denotes h (VRef a) (TBytes bs)"
| denotes_arr: "cell_at h a = CArr p ds others \<Longrightarrow> denotes_elems h ds ts \<Longrightarrow> denotes h (VRef a) (TArr ts)"
| denotes_obj: "cell_at h a = CObj p props \<Longrightarrow> p = ObjectProto \<or> p = NullProto \<Longrightarrow> \<not> has_symbol props \<Longrightarrow>
    denotes_entries h (entries props) kts \<Longrightarrow> denotes h (VRef a) (TObj kts)"
| denotes_no_elems: "denotes_elems h [] []"
| denotes_elem: "desc_value d \<noteq> VUndef \<Longrightarrow> denotes h (desc_value d) t \<Longrightarrow> denotes_elems h ds ts \<Longrightarrow>
    denotes_elems h (Some d # ds) (t # ts)"
| denotes_no_entries: "denotes_entries h [] []"
| denotes_entry: "denotes h v t \<Longrightarrow> denotes_entries h es kts \<Longrightarrow> denotes_entries h ((k, v) # es) ((k, t) # kts)"

inductive_cases denotes_nullE: "denotes h VNull t"
inductive_cases denotes_boolE: "denotes h (VBool b) t"
inductive_cases denotes_numE: "denotes h (VNum n) t"
inductive_cases denotes_strE: "denotes h (VStr s) t"
inductive_cases denotes_refE: "denotes h (VRef a) t"
inductive_cases denotes_no_elemsE: "denotes_elems h [] ts"
inductive_cases denotes_elemE: "denotes_elems h (Some d # ds) ts"
inductive_cases denotes_no_entriesE: "denotes_entries h [] kts"
inductive_cases denotes_entryE: "denotes_entries h ((k, v) # es) kts"

lemma denotes_unique:
  "denotes h v t \<Longrightarrow> denotes h v t' \<Longrightarrow> t' = t"
  "denotes_elems h ds ts \<Longrightarrow> denotes_elems h ds ts' \<Longrightarrow> ts' = ts"
  "denotes_entries h es kts \<Longrightarrow> denotes_entries h es kts' \<Longrightarrow> kts' = kts"
proof (induction arbitrary: t' and ts' and kts' rule: denotes_denotes_elems_denotes_entries.inducts)
  case (denotes_bytes a bs)
  then show ?case by (auto elim: denotes_refE)
next
  case (denotes_arr a p ds others ts)
  from denotes_arr.prems denotes_arr.IH(1) obtain us where "t' = TArr us" "denotes_elems h ds us"
    by (auto elim: denotes_refE)
  with denotes_arr.IH(3) show ?case by simp
next
  case (denotes_obj a p props kts)
  from denotes_obj.prems denotes_obj.IH(1) obtain us where "t' = TObj us" "denotes_entries h (entries props) us"
    by (auto elim: denotes_refE)
  with denotes_obj.IH show ?case by blast
next
  case (denotes_elem d t ds ts)
  from denotes_elem.prems obtain u us where "ts' = u # us" "denotes h (desc_value d) u" "denotes_elems h ds us"
    by (auto elim: denotes_elemE)
  with denotes_elem.IH show ?case by blast
next
  case (denotes_entry v t es kts k)
  from denotes_entry.prems obtain u us where "kts' = (k, u) # us" "denotes h v u" "denotes_entries h es us"
    by (auto elim: denotes_entryE)
  with denotes_entry.IH show ?case by blast
qed (auto elim: denotes_nullE denotes_boolE denotes_numE denotes_strE denotes_no_elemsE denotes_no_entriesE)

fun tree_nodes :: "tree \<Rightarrow> nat" where
  "tree_nodes (TArr ts) = Suc (sum_list (map tree_nodes ts))"
| "tree_nodes (TObj kts) = Suc (sum_list (map (\<lambda>(_, t). tree_nodes t) kts))"
| "tree_nodes _ = 1"

text \<open>A value that unfolds to a tree is no ancestor of itself: what an ancestor unfolds to is larger.\<close>

definition within :: "heap \<Rightarrow> addr list \<Rightarrow> nat \<Rightarrow> bool" where
  "within h ancestors n \<longleftrightarrow> (\<forall>a \<in> set ancestors. \<forall>t. denotes h (VRef a) t \<longrightarrow> n < tree_nodes t)"

lemma within_mono: "within h ancestors n \<Longrightarrow> m \<le> n \<Longrightarrow> within h ancestors m"
  unfolding within_def by (meson order_le_less_trans)

lemma within_enter:
  "denotes h (VRef a) t \<Longrightarrow> within h ancestors (tree_nodes t) \<Longrightarrow> n < tree_nodes t \<Longrightarrow> within h (a # ancestors) n"
  using denotes_unique(1) unfolding within_def by fastforce

lemma not_ancestor: "denotes h (VRef a) t \<Longrightarrow> within h ancestors (tree_nodes t) \<Longrightarrow> a \<notin> set ancestors"
  unfolding within_def by blast

lemma appends_byte: "appends (write_byte n) [of_nat n]"
  by (rule appends_store) (simp add: write_byte_def)

lemma appends_bytes: "appends (write_bytes bs) bs"
  by (rule appends_store) (simp add: write_bytes_def)

lemma appends_uint16: "appends (write_uint16 n) (be16 n)"
  by (rule appends_store) (simp add: write_uint16_def)

lemma appends_uint32: "appends (write_uint32 n) (be32 n)"
  by (rule appends_store) (simp add: write_uint32_def)

lemma appends_uint64: "appends (write_uint64 n) (be64 n)"
proof -
  have "write_uint64 n = (\<lambda>w. rbind (write_uint32 (n div 2 ^ 32) w) (write_uint32 (n mod 2 ^ 32)))"
    by (rule ext) (simp add: write_uint64_def Let_def minus_div_mult_eq_mod)
  then show ?thesis
    unfolding be64_def by (simp only: appends_seq [OF appends_uint32 appends_uint32])
qed

lemma appends_float64: "appends (write_float64 x) (0xFB # be64 (unat x))"
  by (rule appends_store) (simp add: write_float64_def)

lemma appends_argument: "appends (write_argument major n) (argument_bytes major n)"
proof -
  consider "n < 24" | "24 \<le> n" "n \<le> 0xFF" | "0xFF < n" "n \<le> 0xFFFF" | "0xFFFF < n" "n \<le> max_uint32"
    | "0xFFFF < n" "max_uint32 < n" by linarith
  then show ?thesis
    unfolding write_argument_def argument_bytes_def Let_def
    using appends_byte appends_seq [OF appends_byte appends_byte] appends_seq [OF appends_byte appends_uint16]
      appends_seq [OF appends_byte appends_uint32] appends_seq [OF appends_byte appends_uint64]
    by cases simp_all
qed

lemma appends_text:
  assumes "text_fits opts s"
  shows "appends (encode_text opts s) (text_bytes s)"
proof -
  have "encode_text opts s = (\<lambda>w. rbind (write_argument 3 (length (utf8_encode s)) w) (write_bytes (utf8_encode s)))"
    using assms by (intro ext) (simp add: encode_text_def text_fits_def utf8_decode_encode Let_def)
  then show ?thesis
    unfolding text_bytes_def by (simp only: appends_seq [OF appends_argument appends_bytes])
qed

lemma encode_text_fits: "encode_text opts s w = Inr w' \<Longrightarrow> text_fits opts s"
  by (auto simp: encode_text_def text_fits_def Let_def split: if_splits dest: utf8_encode_inj)

lemma appends_number:
  assumes "num_is_finite n" and "num_is_integer n \<longrightarrow> num_is_safe n"
  shows "appends (encode_number n) (number_bytes n)"
proof (cases n)
  case (NInt i)
  have "encode_number n = (if 0 \<le> i then write_argument 0 (nat i) else write_argument 1 (nat (- 1 - i)))"
    using assms NInt by (intro ext) (simp add: encode_number_def)
  then show ?thesis
    using NInt appends_argument by (simp add: number_bytes_def)
next
  case (NBits x)
  have "encode_number n = write_float64 x"
    using assms NBits by (intro ext) (simp add: encode_number_def)
  then show ?thesis
    using NBits appends_float64 by (simp add: number_bytes_def)
qed

lemma appends_nothing: "appends Inr []"
  by (auto simp: appends_def wf_buffer_def contents_def)

lemma denotes_elems_length: "denotes_elems h ds ts \<Longrightarrow> length ds = length ts"
  by (induction ds arbitrary: ts) (auto elim: denotes_elems.cases)

lemma denotes_entries_keys: "denotes_entries h es kts \<Longrightarrow> map fst es = map fst kts"
  by (induction es arbitrary: kts) (auto elim: denotes_entries.cases)

lemma appends_tree:
  "denotes h v t \<Longrightarrow> fits opts depth t \<Longrightarrow> within h ancestors (tree_nodes t) \<Longrightarrow>
     appends (encode_value h opts depth ancestors v) (tree_bytes t)"
  "denotes_elems h ds ts \<Longrightarrow> list_all (fits opts depth) ts \<Longrightarrow>
     within h ancestors (sum_list (map tree_nodes ts)) \<Longrightarrow>
     appends (encode_elems h opts depth ancestors ds) (concat (map tree_bytes ts))"
  "denotes_entries h es kts \<Longrightarrow> list_all (\<lambda>(k, t). text_fits opts k \<and> fits opts depth t) kts \<Longrightarrow>
     within h ancestors (sum_list (map (\<lambda>(_, t). tree_nodes t) kts)) \<Longrightarrow>
     appends (encode_entries h opts depth ancestors es)
       (concat (map (\<lambda>(k, t). text_bytes k @ tree_bytes t) kts))"
proof (induction arbitrary: depth ancestors and depth ancestors and depth ancestors
    rule: denotes_denotes_elems_denotes_entries.inducts)
  case denotes_null
  have "encode_value h opts depth ancestors VNull = write_byte 0xF6"
    using denotes_null.prems(1) by (intro ext) (simp add: encode_value.simps)
  then show ?case
    using appends_byte [of "0xF6"] by simp
next
  case (denotes_bool b)
  have "encode_value h opts depth ancestors (VBool b) = write_byte (if b then 0xF5 else 0xF4)"
    using denotes_bool.prems(1) by (intro ext) (simp add: encode_value.simps)
  then show ?case
    using appends_byte [of "0xF5"] appends_byte [of "0xF4"] by simp
next
  case (denotes_num n)
  have "encode_value h opts depth ancestors (VNum n) = encode_number n"
    using denotes_num.prems(1) by (intro ext) (simp add: encode_value.simps)
  then show ?case
    using denotes_num.prems(1) by (simp add: appends_number)
next
  case (denotes_str s)
  have "encode_value h opts depth ancestors (VStr s) = encode_text opts s"
    using denotes_str.prems(1) by (intro ext) (simp add: encode_value.simps)
  then show ?case
    using denotes_str.prems(1) by (simp add: appends_text)
next
  case (denotes_bytes a bs)
  have "encode_value h opts depth ancestors (VRef a)
      = (\<lambda>w. rbind (write_argument 2 (length bs) w) (write_bytes bs))"
    using denotes_bytes by (intro ext) (simp add: encode_value.simps)
  then show ?case
    by (simp only: tree_bytes.simps appends_seq [OF appends_argument appends_bytes])
next
  case (denotes_arr a p ds others ts)
  have d: "denotes h (VRef a) (TArr ts)"
    using denotes_arr.IH(1,2) by (rule denotes_denotes_elems_denotes_entries.denotes_arr)
  have "length ds = length ts"
    using denotes_arr.IH(2) by (rule denotes_elems_length)
  then have eq: "encode_value h opts depth ancestors (VRef a) = (\<lambda>w. rbind (write_argument 4 (length ts) w)
      (encode_elems h opts (depth + 1) (a # ancestors) ds))"
    using denotes_arr.IH(1) denotes_arr.prems(1) not_ancestor [OF d denotes_arr.prems(2)]
    by (intro ext) (simp add: encode_value.simps)
  have "appends (encode_elems h opts (depth + 1) (a # ancestors) ds) (concat (map tree_bytes ts))"
    using denotes_arr.prems(1) by (intro denotes_arr.IH(3) within_enter [OF d denotes_arr.prems(2)]) simp_all
  then show ?case
    unfolding eq tree_bytes.simps by (rule appends_seq [OF appends_argument])
next
  case (denotes_obj a p props kts)
  have d: "denotes h (VRef a) (TObj kts)"
    using denotes_obj.IH(1) denotes_obj.hyps denotes_obj.IH(2)
    by (rule denotes_denotes_elems_denotes_entries.denotes_obj)
  have "length (entries props) = length kts"
    using arg_cong [OF denotes_entries_keys [OF denotes_obj.IH(2)], of length] by simp
  then have eq: "encode_value h opts depth ancestors (VRef a) = (\<lambda>w. rbind (write_argument 5 (length kts) w)
      (encode_entries h opts (depth + 1) (a # ancestors) (entries props)))"
    using denotes_obj.IH(1) denotes_obj.hyps denotes_obj.prems(1) not_ancestor [OF d denotes_obj.prems(2)]
    by (intro ext) (auto simp: encode_value.simps)
  have "appends (encode_entries h opts (depth + 1) (a # ancestors) (entries props))
      (concat (map (\<lambda>(k, t). text_bytes k @ tree_bytes t) kts))"
    using denotes_obj.prems(1) by (intro denotes_obj.IH(3) within_enter [OF d denotes_obj.prems(2)]) simp_all
  then show ?case
    unfolding eq tree_bytes.simps by (rule appends_seq [OF appends_argument])
next
  case denotes_no_elems
  have "encode_elems h opts depth ancestors [] = Inr"
    by (intro ext) simp
  then show ?case using appends_nothing by simp
next
  case (denotes_elem d t ds ts)
  have "encode_elems h opts depth ancestors (Some d # ds)
      = (\<lambda>w. rbind (encode_value h opts depth ancestors (desc_value d) w) (encode_elems h opts depth ancestors ds))"
    using denotes_elem.hyps by (intro ext) simp
  moreover have "appends (encode_value h opts depth ancestors (desc_value d)) (tree_bytes t)"
    using denotes_elem.prems by (intro denotes_elem.IH(2)) (auto elim: within_mono)
  moreover have "appends (encode_elems h opts depth ancestors ds) (concat (map tree_bytes ts))"
    using denotes_elem.prems by (intro denotes_elem.IH(4)) (auto elim: within_mono)
  ultimately show ?case
    by (simp only: list.map concat.simps appends_seq)
next
  case denotes_no_entries
  have "encode_entries h opts depth ancestors [] = Inr"
    by (intro ext) simp
  then show ?case using appends_nothing by simp
next
  case (denotes_entry v t es kts k)
  have "encode_entries h opts depth ancestors ((k, v) # es)
      = (\<lambda>w. rbind (encode_text opts k w) (\<lambda>w. rbind (encode_value h opts depth ancestors v w)
          (encode_entries h opts depth ancestors es)))"
    by (intro ext) simp
  moreover have "appends (encode_text opts k) (text_bytes k)"
    using denotes_entry.prems(1) by (intro appends_text) simp
  moreover have "appends (encode_value h opts depth ancestors v) (tree_bytes t)"
    using denotes_entry.prems by (intro denotes_entry.IH(2)) (auto elim: within_mono)
  moreover have "appends (encode_entries h opts depth ancestors es)
      (concat (map (\<lambda>(k, t). text_bytes k @ tree_bytes t) kts))"
    using denotes_entry.prems by (intro denotes_entry.IH(4)) (auto elim: within_mono)
  ultimately show ?case
    by (simp only: list.map concat.simps prod.case append_assoc appends_seq)
qed

text \<open>Conversely a value that encodes unfolds to a tree within the limits.\<close>

lemma encode_denotes:
  "encode_value h opts depth ancestors v w = Inr w' \<Longrightarrow> \<exists>t. denotes h v t \<and> fits opts depth t"
  "encode_elems h opts depth ancestors ds w = Inr w' \<Longrightarrow>
     \<exists>ts. denotes_elems h ds ts \<and> list_all (fits opts depth) ts"
  "encode_entries h opts depth ancestors es w = Inr w' \<Longrightarrow>
     \<exists>kts. denotes_entries h es kts \<and> list_all (\<lambda>(k, t). text_fits opts k \<and> fits opts depth t) kts"
proof (induction h opts depth ancestors v w and h opts depth ancestors ds w and h opts depth ancestors es w
    arbitrary: w' and w' and w' rule: encode_value_encode_elems_encode_entries.induct)
  case (1 h opts depth ancestors v w)
  have depth: "depth \<le> max_depth opts" "\<not> max_depth opts < depth"
    using "1.prems" by (subst (asm) encode_value.simps, simp split: if_splits)+
  show ?case
  proof (cases v)
    case VNull
    then show ?thesis using depth by (auto intro: denotes_null)
  next
    case (VBool b)
    then show ?thesis using depth by (auto intro!: exI [of _ "TBool b"] denotes_bool)
  next
    case (VNum n)
    then show ?thesis
      using depth "1.prems"
      by (intro exI [of _ "TNum n"])
        (auto simp: encode_value.simps encode_number_def split: if_splits jsnum.splits intro: denotes_num)
  next
    case (VStr s)
    then show ?thesis
      using depth "1.prems"
      by (intro exI [of _ "TStr s"]) (auto simp: encode_value.simps dest: encode_text_fits intro: denotes_str)
  next
    case (VRef a)
    show ?thesis
    proof (cases "cell_at h a")
      case (CBytes bs)
      then show ?thesis
        using depth "1.prems" VRef
        by (intro exI [of _ "TBytes bs"]) (auto simp: encode_value.simps split: if_splits intro: denotes_bytes)
    next
      case (CArr p ds others)
      then have ok: "a \<notin> set ancestors" "\<not> max_container opts < length ds"
        using depth "1.prems" VRef by (auto simp: encode_value.simps split: if_splits)
      then obtain w1 where w1: "write_argument 4 (length ds) w = Inr w1"
        "encode_elems h opts (depth + 1) (a # ancestors) ds w1 = Inr w'"
        using depth "1.prems" VRef CArr by (auto simp: encode_value.simps rbind_Inr_conv)
      obtain ts where "denotes_elems h ds ts" "list_all (fits opts (depth + 1)) ts"
        using "1.IH"(1) [OF depth(2) VRef CArr ok w1] by blast
      then show ?thesis
        using ok depth CArr VRef denotes_elems_length [of h ds ts]
        by (intro exI [of _ "TArr ts"]) (auto intro: denotes_arr)
    next
      case (CObj p props)
      then have ok: "\<not> (p \<noteq> ObjectProto \<and> p \<noteq> NullProto)" "a \<notin> set ancestors" "\<not> has_symbol props"
        "\<not> max_container opts < length (entries props)"
        using depth "1.prems" VRef by (auto simp: encode_value.simps Let_def split: if_splits)
      then obtain w1 where w1: "write_argument 5 (length (entries props)) w = Inr w1"
        "encode_entries h opts (depth + 1) (a # ancestors) (entries props) w1 = Inr w'"
        using depth "1.prems" VRef CObj by (auto simp: encode_value.simps Let_def rbind_Inr_conv split: if_splits)
      obtain kts where kts: "denotes_entries h (entries props) kts"
        "list_all (\<lambda>(k, t). text_fits opts k \<and> fits opts (depth + 1) t) kts"
        using "1.IH"(2) [OF depth(2) VRef CObj ok(1-3) refl ok(4) w1] by blast
      have "length kts = length (entries props)"
        using arg_cong [OF denotes_entries_keys [OF kts(1)], of length] by simp
      then show ?thesis
        using ok depth CObj VRef kts
        by (intro exI [of _ "TObj kts"]) (auto intro: denotes_obj)
    qed
  qed (use depth "1.prems" in \<open>auto simp: encode_value.simps\<close>)
next
  case (3 h opts depth ancestors d ds w)
  obtain e w1 where e: "d = Some e" "desc_value e \<noteq> VUndef"
    "encode_value h opts depth ancestors (desc_value e) w = Inr w1"
    "encode_elems h opts depth ancestors ds w1 = Inr w'"
    using "3.prems" by (auto simp: rbind_Inr_conv split: option.splits if_splits)
  from "3.IH"(1) [OF e(1,2,3)] "3.IH"(2) [OF e] obtain t ts
    where t: "denotes h (desc_value e) t" "fits opts depth t" "denotes_elems h ds ts" "list_all (fits opts depth) ts"
    by blast
  show ?case
    unfolding e(1) using denotes_elem [OF e(2) t(1,3)] t(2,4) by (intro exI [of _ "t # ts"]) simp
next
  case (5 h opts depth ancestors k v es w)
  obtain w1 w2 where e: "encode_text opts k w = Inr w1" "encode_value h opts depth ancestors v w1 = Inr w2"
    "encode_entries h opts depth ancestors es w2 = Inr w'"
    using "5.prems" by (auto simp: rbind_Inr_conv)
  from "5.IH"(1) [OF e(1,2)] "5.IH"(2) [OF e] obtain t kts
    where t: "denotes h v t" "fits opts depth t" "denotes_entries h es kts"
      "list_all (\<lambda>(k, t). text_fits opts k \<and> fits opts depth t) kts"
    by blast
  show ?case
    using denotes_entry [OF t(1,3)] t(2,4) encode_text_fits [OF e(1)] by (intro exI [of _ "(k, t) # kts"]) simp
qed (auto intro: denotes_no_elems denotes_no_entries)

section \<open>The codec\<close>

lemma wf_new_writer: "wf_buffer (new_writer limit)" "contents (new_writer limit) = []"
  by (simp_all add: new_writer_def wf_buffer_def contents_def)

lemma encode_cbor_meaning:
  "encode_cbor h options v = Inr bs \<longleftrightarrow>
   (\<exists>opts t. resolve_options options = Inr opts \<and> denotes h v t \<and> fits opts 0 t \<and>
      length (tree_bytes t) \<le> max_bytes opts \<and> bs = tree_bytes t)"
proof (cases "resolve_options options")
  case (Inr opts)
  let ?w = "new_writer (max_bytes opts)"
  have written: "encode_cbor h options v = Inr bs \<longleftrightarrow> length (tree_bytes t) \<le> max_bytes opts \<and> bs = tree_bytes t"
    if t: "denotes h v t" "fits opts 0 t" for t
  proof -
    have "appends (encode_value h opts 0 [] v) (tree_bytes t)"
      using t by (intro appends_tree(1)) (simp_all add: within_def)
    then have "if length (contents ?w) + length (tree_bytes t) \<le> byte_limit ?w
        then \<exists>w'. encode_value h opts 0 [] v ?w = Inr w' \<and> wf_buffer w' \<and> byte_limit w' = byte_limit ?w \<and>
               contents w' = contents ?w @ tree_bytes t
        else encode_value h opts 0 [] v ?w = Inl TooManyBytes"
      using wf_new_writer(1) unfolding appends_def by blast
    moreover have "byte_limit ?w = max_bytes opts"
      by (simp add: new_writer_def)
    ultimately show ?thesis
      using Inr by (auto simp: encode_cbor_def wf_new_writer(2) split: if_splits)
  qed
  show ?thesis
  proof
    assume enc: "encode_cbor h options v = Inr bs"
    then obtain w where "encode_value h opts 0 [] v ?w = Inr w"
      using Inr by (auto simp: encode_cbor_def rbind_Inr_conv)
    then obtain t where "denotes h v t" "fits opts 0 t"
      using encode_denotes(1) by blast
    then show "\<exists>opts t. resolve_options options = Inr opts \<and> denotes h v t \<and> fits opts 0 t \<and>
        length (tree_bytes t) \<le> max_bytes opts \<and> bs = tree_bytes t"
      using written enc Inr by blast
  qed (use written Inr in auto)
qed (simp add: encode_cbor_def)

text \<open>
  C35: \<open>encodeCbor\<close> succeeds exactly on the values that unfold to a finite tree of supported data within
  the limits whose bytes fit, and it returns the bytes of that tree, however its buffer grew.\<close>

theorem encode_cbor_iff:
  "encode_cbor h options v = Inr bs \<longleftrightarrow>
   (\<exists>opts t. resolve_options options = Inr opts \<and> denotes h v t \<and> fits opts 0 t \<and>
      length (tree_bytes t) \<le> max_bytes opts \<and> bs = tree_bytes t)"
  by (rule encode_cbor_meaning)

text \<open>A heap of real objects: numbers have their one representation and an object each key once.\<close>

fun wf_value :: "jsval \<Rightarrow> bool" where
  "wf_value (VNum n) = wf_num n"
| "wf_value _ = True"

fun wf_cell :: "cell \<Rightarrow> bool" where
  "wf_cell (CArr _ ds _) = list_all (\<lambda>d. case d of None \<Rightarrow> True | Some d \<Rightarrow> wf_value (desc_value d)) ds"
| "wf_cell (CObj _ props) = (distinct (map fst props) \<and> list_all (\<lambda>(_, d). wf_value (desc_value d)) props)"
| "wf_cell (CBytes _) = True"

definition wf_heap :: "heap \<Rightarrow> bool" where
  "wf_heap h \<longleftrightarrow> list_all wf_cell h"

lemma wf_heap_cell: "wf_heap h \<Longrightarrow> wf_cell (cell_at h a)"
  by (auto simp: wf_heap_def cell_at_def list_all_length)

lemma entries_subset: "(k, v) \<in> set (entries props) \<Longrightarrow> \<exists>d. (KStr k, d) \<in> set props \<and> v = desc_value d"
  by (induction props rule: entries.induct) (auto split: if_splits)

lemma entries_distinct: "distinct (map fst props) \<Longrightarrow> distinct (map fst (entries props))"
  by (induction props rule: entries.induct) (force dest: entries_subset)+

lemma denotes_wf:
  "denotes h v t \<Longrightarrow> wf_heap h \<Longrightarrow> wf_value v \<Longrightarrow> wf_tree t"
  "denotes_elems h ds ts \<Longrightarrow> wf_heap h \<Longrightarrow>
     list_all (\<lambda>d. case d of None \<Rightarrow> True | Some d \<Rightarrow> wf_value (desc_value d)) ds \<Longrightarrow> list_all wf_tree ts"
  "denotes_entries h es kts \<Longrightarrow> wf_heap h \<Longrightarrow> list_all (\<lambda>(_, v). wf_value v) es \<Longrightarrow>
     list_all (\<lambda>(_, t). wf_tree t) kts"
proof (induction rule: denotes_denotes_elems_denotes_entries.inducts)
  case (denotes_arr a p ds others ts)
  then show ?case
    using wf_heap_cell [of h a] by simp
next
  case (denotes_obj a p props kts)
  have props: "distinct (map fst props)" "list_all (\<lambda>(_, d). wf_value (desc_value d)) props"
    using wf_heap_cell [OF denotes_obj.prems(1), of a] denotes_obj.IH(1) by simp_all
  then have "list_all (\<lambda>(_, v). wf_value v) (entries props)"
    by (auto simp: list_all_iff dest!: entries_subset)
  then show ?case
    using denotes_obj.IH(3) denotes_obj.prems entries_distinct [OF props(1)]
      denotes_entries_keys [OF denotes_obj.IH(2)] by simp
qed simp_all

lemma decode_tree_bytes:
  assumes "resolve_options options = Inr opts" and "fits opts 0 t" and "wf_tree t"
    and "length (tree_bytes t) \<le> max_bytes opts"
  shows "decode_cbor options (tree_bytes t) = Inr t"
proof -
  have "read_item opts 0 (tree_bytes t @ []) = Inr (t, [])"
    using assms(2,3) resolve_options_wf [OF assms(1)] by (rule read_tree)
  then show ?thesis
    using assms by (simp add: decode_cbor_def)
qed

text \<open>
  C32: What \<open>encodeCbor\<close> returns, \<open>decodeCbor\<close> with the same options reads back as the tree the value
  unfolds to.\<close>

theorem cbor_roundtrip:
  assumes "encode_cbor h options v = Inr bs" and "wf_heap h" and "wf_value v"
  shows "\<exists>t. denotes h v t \<and> decode_cbor options bs = Inr t"
proof -
  obtain opts t where t: "resolve_options options = Inr opts" "denotes h v t" "fits opts 0 t"
    "length (tree_bytes t) \<le> max_bytes opts" "bs = tree_bytes t"
    using assms(1) by (auto simp: encode_cbor_meaning)
  then have "decode_cbor options bs = Inr t"
    using decode_tree_bytes [OF t(1,3) denotes_wf(1) [OF t(2) assms(2,3)] t(4)] by simp
  with t(2) show ?thesis by blast
qed

end
