(* ===== verification/CborValid.thy ===== *)
theory CborValid
  imports CborRoundtrip
begin

text \<open>
  What the CBOR decoder accepts, whatever bytes it is given: canonical finite numbers in the safe
  range, well-formed text, distinct keys, and nothing past its limits. A decoded tree can be encoded
  again.
\<close>

lemma read_bytes_split: "read_bytes n bs = Inr (data, rest) \<Longrightarrow> bs = data @ rest \<and> length data = n"
  by (auto simp: read_bytes_def split: if_splits)

lemma read_uint_less: "read_uint n bs = Inr (k, rest) \<Longrightarrow> k < 256 ^ n"
  using big_endian_less by (auto simp: read_uint_def rbind_Inr_conv dest!: read_bytes_split)

lemma read_argument_less:
  assumes "read_argument info bs = Inr (n, rest)"
  shows "n < 2 ^ 53"
proof -
  have "n < 24 \<or> n < 256 \<or> n < 256 ^ 2 \<or> n < 256 ^ 4 \<or> (\<exists>high low. high \<le> 0x1FFFFF \<and> low < 256 ^ 4 \<and> n = high * 2 ^ 32 + low)"
    using assms unat8_bound
    by (auto simp: read_argument_def read_byte_def rbind_Inr_conv split: if_splits list.splits
        dest!: read_uint_less) (metis less_Suc_eq_le not_less_eq)+
  then show ?thesis by auto
qed

lemma read_length_le: "read_length info limit bs = Inr (n, rest) \<Longrightarrow> n \<le> limit"
  by (auto simp: read_length_def rbind_Inr_conv split: if_splits)

lemma finite_float_fits:
  "finite_float n = Inr t \<Longrightarrow> wf_num n \<or> \<not> num_is_finite n \<Longrightarrow> depth \<le> max_depth opts \<Longrightarrow> fits opts depth t \<and> wf_tree t"
  by (auto simp: finite_float_def split: if_splits)

lemma read_simple_fits:
  "read_simple info bs = Inr (t, rest) \<Longrightarrow> depth \<le> max_depth opts \<Longrightarrow> fits opts depth t \<and> wf_tree t"
  using decode_float16_canonical float32_canonical num_of_f64_canonical
  by (auto simp: read_simple_def with_rest_def rbind_Inr_conv split: if_splits dest!: finite_float_fits)

lemma utf8_decode_fits:
  assumes "utf8_decode data = Some s" and "length data \<le> max_bytes opts"
  shows "text_fits opts s"
proof -
  obtain cs where cs: "utf8_points data = Some cs" "s = units cs"
    using assms(1) by (auto simp: utf8_decode_def)
  from utf8_points_canonical [OF cs(1)] have "list_all scalar_code cs" "concat (map point_bytes cs) = data"
    by simp_all
  then show ?thesis
    using scalars_units [of cs] assms(2) cs(2) by (simp add: text_fits_def utf8_encode_def)
qed

lemma read_fits:
  "read_item opts depth bs = Inr (t, rest) \<Longrightarrow> fits opts depth t \<and> wf_tree t"
  "read_items opts depth n bs = Inr (ts, rest) \<Longrightarrow>
     length ts = n \<and> list_all (fits opts depth) ts \<and> list_all wf_tree ts"
  "read_entries opts depth n keys bs = Inr (kts, rest) \<Longrightarrow>
     length kts = n \<and> distinct (map fst kts) \<and> set keys \<inter> set (map fst kts) = {} \<and>
     list_all (\<lambda>(k, t). text_fits opts k \<and> fits opts depth t) kts \<and> list_all (\<lambda>(_, t). wf_tree t) kts"
proof (induction opts depth bs and opts depth n bs and opts depth n keys bs
    arbitrary: t rest and ts rest and kts rest rule: read_item_read_items_read_entries.induct)
  case (1 opts depth bs)
  have depth: "\<not> max_depth opts < depth" "depth \<le> max_depth opts"
    using "1.prems" by (subst (asm) read_item.simps, simp split: if_splits)+
  obtain initial bs1 where b: "read_byte bs = Inr (initial, bs1)"
    using "1.prems" depth by (subst (asm) read_item.simps) (auto simp: rbind_Inr_conv)
  define major where "major = drop_bit 5 initial"
  define info where "info = initial AND 0x1F"
  note item = "1.prems" [unfolded read_item.simps [of opts depth], simplified depth b rbind_simps if_False prod.case Let_def,
      folded major_def info_def]
  consider "major = 0" | "major = 1" | "major = 2" | "major = 3" | "major = 4" | "major = 5" | "major = 7"
    using item by (auto split: if_splits)
  then show ?case
  proof cases
    case 1
    then obtain n where "read_argument info bs1 = Inr (n, rest)" "t = TNum (NInt (int n))"
      using item by (auto simp: rbind_Inr_conv)
    with read_argument_less [of info bs1 n rest] show ?thesis
      using depth by (simp add: max_safe_def wf_num_def)
  next
    case 2
    then show ?thesis
      using item depth by (auto simp: rbind_Inr_conv wf_num_def split: if_splits)
  next
    case 3
    then show ?thesis
      using item depth by (auto simp: rbind_Inr_conv dest!: read_length_le read_bytes_split)
  next
    case 4
    then obtain n bs2 data s where r: "read_length info (max_bytes opts) bs1 = Inr (n, bs2)"
      "read_bytes n bs2 = Inr (data, rest)" "utf8_decode data = Some s" "t = TStr s"
      using item by (auto simp: rbind_Inr_conv split: option.splits)
    then have "length data \<le> max_bytes opts"
      using read_length_le read_bytes_split by blast
    then show ?thesis
      using r(3,4) depth by (simp add: utf8_decode_fits)
  next
    case 5
    then obtain n bs2 ts where r: "read_length info (max_container opts) bs1 = Inr (n, bs2)"
      "read_items opts (depth + 1) n bs2 = Inr (ts, rest)" "t = TArr ts"
      using item by (auto simp: rbind_Inr_conv)
    have "length ts = n \<and> list_all (fits opts (depth + 1)) ts \<and> list_all wf_tree ts"
      by (rule "1.IH"(1) [OF depth(1) b refl major_def info_def _ _ _ _ 5 r(1) refl r(2)]) (simp_all add: 5)
    then show ?thesis
      using r depth read_length_le by auto
  next
    case 6
    then obtain n bs2 kts where r: "read_length info (max_container opts) bs1 = Inr (n, bs2)"
      "read_entries opts (depth + 1) n [] bs2 = Inr (kts, rest)" "t = TObj kts"
      using item by (auto simp: rbind_Inr_conv)
    have "length kts = n \<and> distinct (map fst kts) \<and> set [] \<inter> set (map fst kts) = {} \<and>
        list_all (\<lambda>(k, t). text_fits opts k \<and> fits opts (depth + 1) t) kts \<and> list_all (\<lambda>(_, t). wf_tree t) kts"
      by (rule "1.IH"(2) [OF depth(1) b refl major_def info_def _ _ _ _ _ 6 r(1) refl r(2)]) (simp_all add: 6)
    then show ?thesis
      using r depth read_length_le by auto
  next
    case 7
    then show ?thesis
      using item depth read_simple_fits by auto
  qed
next
  case (3 opts depth n bs)
  obtain t bs1 us where r: "read_item opts depth bs = Inr (t, bs1)" "read_items opts depth n bs1 = Inr (us, rest)"
    "ts = t # us"
    using "3.prems" by (auto simp: rbind_Inr_conv)
  from "3.IH"(1) [OF r(1)] "3.IH"(2) [OF r(1) refl r(2)] r(3) show ?case by simp
next
  case (5 opts depth n keys bs)
  obtain key bs1 where key: "read_item opts depth bs = Inr (key, bs1)"
    using "5.prems" by (auto simp: rbind_Inr_conv)
  then obtain k where "key = TStr k"
    using "5.prems" by (cases key) auto
  with key "5.prems" obtain t bs2 us where r: "read_item opts depth bs = Inr (TStr k, bs1)" "k \<notin> set keys"
    "read_item opts depth bs1 = Inr (t, bs2)" "read_entries opts depth n (k # keys) bs2 = Inr (us, rest)"
    "kts = (k, t) # us"
    by (auto simp: rbind_Inr_conv split: if_splits)
  have "text_fits opts k"
    using "5.IH"(1) [OF r(1)] by simp
  moreover have "fits opts depth t \<and> wf_tree t"
    using "5.IH"(2) [OF r(1) refl refl r(2,3)] .
  moreover have "length us = n \<and> distinct (map fst us) \<and> set (k # keys) \<inter> set (map fst us) = {} \<and>
      list_all (\<lambda>(k, t). text_fits opts k \<and> fits opts depth t) us \<and> list_all (\<lambda>(_, t). wf_tree t) us"
    using "5.IH"(3) [OF r(1) refl refl r(2,3) refl r(4)] .
  ultimately show ?case
    using r(2,5) by auto
qed auto

text \<open>
  C36: Whatever bytes it is given, \<open>decodeCbor\<close> returns only trees within its limits: finite canonical
  numbers, safe integers, well-formed text and each key of a map once.\<close>

theorem decode_cbor_valid:
  assumes "decode_cbor options bs = Inr t"
  shows "\<exists>opts. resolve_options options = Inr opts \<and> fits opts 0 t \<and> wf_tree t"
  using assms read_fits(1) by (fastforce simp: decode_cbor_def rbind_Inr_conv split: if_splits)

text \<open>The defaults, and the bytes of the map from \<open>a\<close> to an array of 1 and a half.\<close>

definition no_options :: cbor_options where
  "no_options = \<lparr>opt_bytes = None, opt_container = None, opt_depth = None\<rparr>"

lemma no_options_limits:
  "resolve_options no_options = Inr \<lparr>max_bytes = 16777216, max_container = 1000000, max_depth = 64\<rparr>"
  by (simp add: no_options_def resolve_options_def resolve_limit_def or_default_def default_max_bytes_def
      default_max_container_def default_max_depth_def max_uint32_def max_configured_depth_def max_safe_def)

definition sample_object :: heap where
  "sample_object =
     [CObj ObjectProto [(KStr [97], Desc True True (VRef 1)), (KStr [98], Desc True True VUndef)],
      CArr ArrayProto [Some (Desc True True (VNum (NInt 1))), Some (Desc True True (VNum (NBits 0x3FE0000000000000)))] []]"

definition sample_tree :: tree where
  "sample_tree = TObj [([97], TArr [TNum (NInt 1), TNum (NBits 0x3FE0000000000000)])]"

lemma sample_denotes: "denotes sample_object (VRef 0) sample_tree"
  unfolding sample_tree_def
proof (rule denotes_obj)
  show "cell_at sample_object 0 =
      CObj ObjectProto [(KStr [97], Desc True True (VRef 1)), (KStr [98], Desc True True VUndef)]"
    by (simp add: cell_at_def sample_object_def)
  have "denotes sample_object (VRef 1) (TArr [TNum (NInt 1), TNum (NBits 0x3FE0000000000000)])"
    by (rule denotes_arr, simp add: cell_at_def sample_object_def)
      (auto intro!: denotes_elem denotes_no_elems denotes_num)
  then show "denotes_entries sample_object
      (entries [(KStr [97], Desc True True (VRef 1)), (KStr [98], Desc True True VUndef)])
      [([97], TArr [TNum (NInt 1), TNum (NBits 0x3FE0000000000000)])]"
    by (auto intro!: denotes_entry denotes_no_entries)
qed (simp_all add: has_symbol_def)

lemma sample_fits:
  "fits \<lparr>max_bytes = 16777216, max_container = 1000000, max_depth = 64\<rparr> 0 sample_tree"
  "wf_tree sample_tree"
  by (simp_all add: sample_tree_def text_fits_def utf8_encode_def point_bytes_def lead_unit_def trail_unit_def
      max_safe_def f64_exponent_def neg_zero_def wf_num_def num_of_f64_def f64_fraction_def)

definition sample_bytes :: "byte list" where
  "sample_bytes = [0xA1, 0x61, 0x61, 0x82, 0x01, 0xFB, 0x3F, 0xE0, 0, 0, 0, 0, 0, 0]"

lemma sample_tree_bytes: "tree_bytes sample_tree = sample_bytes"
proof -
  have "utf8_encode [97] = [97]"
    by (simp add: utf8_encode_def lead_unit_def trail_unit_def point_bytes_def)
  then show ?thesis
    by (simp add: sample_tree_def sample_bytes_def text_bytes_def argument_bytes_def number_bytes_def be64_def
        be32_def prefix_or drop_bit_eq_div numeral_2_eq_2 [symmetric])
qed

lemma sample_encodes: "encode_cbor sample_object no_options (VRef 0) = Inr sample_bytes"
  unfolding encode_cbor_meaning using sample_denotes no_options_limits sample_fits(1)
  by (intro exI [of _ "\<lparr>max_bytes = 16777216, max_container = 1000000, max_depth = 64\<rparr>"] exI [of _ sample_tree])
    (simp add: sample_tree_bytes sample_bytes_def)

lemma sample_decodes: "decode_cbor no_options sample_bytes = Inr sample_tree"
proof -
  have "read_item \<lparr>max_bytes = 16777216, max_container = 1000000, max_depth = 64\<rparr> 0 (tree_bytes sample_tree @ [])
      = Inr (sample_tree, [])"
    using sample_fits by (rule read_tree) (simp add: wf_limits_def max_uint32_def)
  then show ?thesis
    by (simp add: decode_cbor_def no_options_limits sample_tree_bytes) (simp add: sample_bytes_def)
qed

theorem cbor_roundtrip_witness:
  "\<exists>t. denotes sample_object (VRef 0) t \<and>
     decode_cbor no_options [0xA1, 0x61, 0x61, 0x82, 0x01, 0xFB, 0x3F, 0xE0, 0, 0, 0, 0, 0, 0] = Inr t"
proof -
  have "wf_heap sample_object"
    by (simp add: wf_heap_def sample_object_def wf_num_def num_of_f64_def f64_exponent_def f64_fraction_def)
  then show ?thesis
    using cbor_roundtrip [OF sample_encodes] by (simp add: sample_bytes_def)
qed

theorem decode_cbor_valid_witness:
  "\<exists>opts. resolve_options no_options = Inr opts \<and> fits opts 0 sample_tree \<and> wf_tree sample_tree"
  by (rule decode_cbor_valid [OF sample_decodes])

end
