(* ===== verification/Framing.thy ===== *)
theory Framing
  imports Bytes
begin

text \<open>
  Length-prefixed frames (\<open>packages/protocol/src/framing.ts\<close>): the encoder, and the decoder that is
  pushed arbitrary chunks. The two loops of \<open>push\<close> are partial functions; that they return is a
  theorem. \<open>currentPayloadBlock\<close> is a reference into \<open>payloadBlocks\<close>, kept as an index.
\<close>

section \<open>The decoder\<close>

datatype frame_error = HasEnded | HasFailed | FrameTooLong nat | TruncatedFrame | BadFrameLimit | PayloadTooLong

datatype decoder_state = Open | Ended | Failed

record frame_decoder =
  fd_header :: "byte list"
  fd_header_length :: nat
  fd_max :: nat
  fd_blocks :: "byte list list"
  fd_current :: "nat option"
  fd_current_length :: nat
  fd_expected :: "nat option"
  fd_payload_length :: nat
  fd_state :: decoder_state

definition frame_header_length :: nat where
  "frame_header_length = 4"

definition payload_block_size :: nat where
  "payload_block_size = 64 * 1024"

definition default_max_frame_length :: nat where
  "default_max_frame_length = 16 * 1024 * 1024"

definition max_frame_uint32 :: nat where
  "max_frame_uint32 = 0xFFFFFFFF"

definition resolve_max_frame_length :: "jsnum option \<Rightarrow> frame_error + nat" where
  "resolve_max_frame_length option =
     (case option of
        None \<Rightarrow> Inr default_max_frame_length
      | Some (NInt i) \<Rightarrow>
          (if \<not> num_is_safe (NInt i) \<or> i < 0 \<or> int max_frame_uint32 < i then Inl BadFrameLimit else Inr (nat i))
      | Some (NBits w) \<Rightarrow> (if \<not> num_is_safe (NBits w) then Inl BadFrameLimit else Inr 0))"

definition encode_frame :: "byte list \<Rightarrow> frame_error + byte list" where
  "encode_frame payload =
     (if max_frame_uint32 < length payload then Inl PayloadTooLong
      else Inr (set_at frame_header_length payload
        (set_at 0 (be32 (length payload)) (replicate (frame_header_length + length payload) 0))))"

definition new_frame_decoder :: "nat \<Rightarrow> frame_decoder" where
  "new_frame_decoder limit =
     \<lparr>fd_header = replicate frame_header_length 0, fd_header_length = 0, fd_max = limit, fd_blocks = [],
      fd_current = None, fd_current_length = 0, fd_expected = None, fd_payload_length = 0, fd_state = Open\<rparr>"

definition fail_frames :: "frame_decoder \<Rightarrow> frame_decoder" where
  "fail_frames d =
     d\<lparr>fd_state := Failed, fd_header_length := 0, fd_blocks := [], fd_current := None, fd_current_length := 0,
       fd_expected := None, fd_payload_length := 0\<rparr>"

text \<open>The header part of an iteration of \<open>push\<close>, and how the iteration goes on.\<close>

datatype header_step =
    MoreHeader nat frame_decoder
  | EmptyFrame nat frame_decoder
  | Oversized frame_decoder frame_error
  | Payload nat frame_decoder

definition read_header :: "byte list \<Rightarrow> nat \<Rightarrow> frame_decoder \<Rightarrow> header_step" where
  "read_header chunk offset d =
     (let n = min (frame_header_length - fd_header_length d) (length chunk - offset);
          d = d\<lparr>fd_header := set_at (fd_header_length d) (slice offset (offset + n) chunk) (fd_header d),
                fd_header_length := fd_header_length d + n\<rparr>;
          offset = offset + n
      in if fd_header_length d < frame_header_length then MoreHeader offset d
         else let frame_length = big_endian (fd_header d); d = d\<lparr>fd_header_length := 0\<rparr>
           in if fd_max d < frame_length then Oversized (fail_frames d) (FrameTooLong frame_length)
              else if frame_length = 0 then EmptyFrame offset d
              else Payload offset
                (d\<lparr>fd_expected := Some frame_length, fd_blocks := [], fd_current := None, fd_current_length := 0,
                   fd_payload_length := 0\<rparr>))"

text \<open>The block to fill: a new one when there is none or the last one is full.\<close>

definition next_block :: "nat \<Rightarrow> frame_decoder \<Rightarrow> frame_decoder" where
  "next_block expected d =
     (let fresh = d\<lparr>fd_blocks := fd_blocks d @ [replicate (min payload_block_size (expected - fd_payload_length d)) 0],
                    fd_current := Some (length (fd_blocks d)), fd_current_length := 0\<rparr>
      in case fd_current d of
           None \<Rightarrow> fresh
         | Some i \<Rightarrow> (if fd_current_length d = length (fd_blocks d ! i) then fresh else d))"

definition current_block :: "frame_decoder \<Rightarrow> byte list" where
  "current_block d = (case fd_current d of None \<Rightarrow> [] | Some i \<Rightarrow> fd_blocks d ! i)"

definition put_block :: "byte list \<Rightarrow> frame_decoder \<Rightarrow> frame_decoder" where
  "put_block data d =
     (case fd_current d of
        None \<Rightarrow> d
      | Some i \<Rightarrow>
          d\<lparr>fd_blocks := (fd_blocks d)[i := set_at (fd_current_length d) data (fd_blocks d ! i)],
            fd_current_length := fd_current_length d + length data,
            fd_payload_length := fd_payload_length d + length data\<rparr>)"

partial_function (option) fill_blocks ::
  "byte list \<Rightarrow> nat \<Rightarrow> nat \<Rightarrow> frame_decoder \<Rightarrow> (nat \<times> frame_decoder) option" where
  "fill_blocks chunk expected offset d =
     (if offset < length chunk \<and> fd_payload_length d < expected then
        let d = next_block expected d;
            n = min (length (current_block d) - fd_current_length d) (length chunk - offset)
        in fill_blocks chunk expected (offset + n) (put_block (slice offset (offset + n) chunk) d)
      else Some (offset, d))"

fun join_blocks :: "nat \<Rightarrow> byte list \<Rightarrow> byte list list \<Rightarrow> byte list" where
  "join_blocks offset payload [] = payload"
| "join_blocks offset payload (b # bs) = join_blocks (offset + length b) (set_at offset b payload) bs"

definition finished_payload :: "nat \<Rightarrow> frame_decoder \<Rightarrow> byte list" where
  "finished_payload expected d =
     (if length (fd_blocks d) = 1 then fd_blocks d ! 0
      else join_blocks 0 (replicate expected 0) (fd_blocks d))"

definition clear_payload :: "frame_decoder \<Rightarrow> frame_decoder" where
  "clear_payload d =
     d\<lparr>fd_blocks := [], fd_current := None, fd_current_length := 0, fd_expected := None, fd_payload_length := 0\<rparr>"

partial_function (option) push_loop ::
  "byte list \<Rightarrow> nat \<Rightarrow> byte list list \<Rightarrow> frame_decoder \<Rightarrow> (frame_decoder \<times> (frame_error + byte list list)) option" where
  "push_loop chunk offset frames d =
     (if offset < length chunk then
        case (case fd_expected d of None \<Rightarrow> read_header chunk offset d | Some _ \<Rightarrow> Payload offset d) of
          MoreHeader offset d \<Rightarrow> push_loop chunk offset frames d
        | EmptyFrame offset d \<Rightarrow> push_loop chunk offset (frames @ [[]]) d
        | Oversized d e \<Rightarrow> Some (d, Inl e)
        | Payload offset d \<Rightarrow>
            (case fd_expected d of
               None \<Rightarrow> push_loop chunk offset frames d
             | Some expected \<Rightarrow>
                 Option.bind (fill_blocks chunk expected offset d) (\<lambda>(offset, d).
                   if fd_payload_length d = expected
                   then push_loop chunk offset (frames @ [finished_payload expected d]) (clear_payload d)
                   else push_loop chunk offset frames d))
      else Some (d, Inr frames))"

definition push_frames :: "byte list \<Rightarrow> frame_decoder \<Rightarrow> (frame_decoder \<times> (frame_error + byte list list)) option" where
  "push_frames chunk d =
     (case fd_state d of
        Ended \<Rightarrow> Some (d, Inl HasEnded)
      | Failed \<Rightarrow> Some (d, Inl HasFailed)
      | Open \<Rightarrow> push_loop chunk 0 [] d)"

definition end_frames :: "frame_decoder \<Rightarrow> frame_decoder \<times> (frame_error + unit)" where
  "end_frames d =
     (case fd_state d of
        Ended \<Rightarrow> (d, Inl HasEnded)
      | Failed \<Rightarrow> (d, Inl HasFailed)
      | Open \<Rightarrow>
          (if fd_header_length d \<noteq> 0 \<or> fd_expected d \<noteq> None then (fail_frames d, Inl TruncatedFrame)
           else (d\<lparr>fd_state := Ended\<rparr>, Inr ())))"

section \<open>The specification\<close>

text \<open>The frames a stream of bytes holds and what is left of it; \<open>None\<close> at a frame past the limit.\<close>

function split_frames :: "nat \<Rightarrow> byte list \<Rightarrow> (byte list list \<times> byte list) option" where
  "split_frames limit bs =
     (if length bs < 4 then Some ([], bs)
      else let n = big_endian (take 4 bs) in
        if limit < n then None
        else if length bs < 4 + n then Some ([], bs)
        else map_option (\<lambda>(frames, rest). (take n (drop 4 bs) # frames, rest)) (split_frames limit (drop (4 + n) bs)))"
  by pat_completeness auto
termination
  by (relation "measure (\<lambda>(_, bs). length bs)") auto

declare split_frames.simps [simp del]

text \<open>The bytes of the frame a decoder is in the middle of.\<close>

definition payload_so_far :: "frame_decoder \<Rightarrow> byte list" where
  "payload_so_far d =
     (case fd_current d of None \<Rightarrow> [] | Some _ \<Rightarrow> concat (butlast (fd_blocks d)) @ take (fd_current_length d) (last (fd_blocks d)))"

definition unread :: "frame_decoder \<Rightarrow> byte list" where
  "unread d =
     (case fd_expected d of
        None \<Rightarrow> take (fd_header_length d) (fd_header d)
      | Some _ \<Rightarrow> fd_header d @ payload_so_far d)"

definition wf_blocks :: "nat \<Rightarrow> frame_decoder \<Rightarrow> bool" where
  "wf_blocks expected d \<longleftrightarrow>
     fd_payload_length d = length (payload_so_far d) \<and> fd_payload_length d \<le> expected \<and>
     length (concat (fd_blocks d)) \<le> expected \<and>
     (case fd_current d of
        None \<Rightarrow> fd_blocks d = []
      | Some i \<Rightarrow> fd_blocks d \<noteq> [] \<and> i = length (fd_blocks d) - 1 \<and> fd_current_length d \<le> length (last (fd_blocks d)))"

definition wf_frames :: "frame_decoder \<Rightarrow> bool" where
  "wf_frames d \<longleftrightarrow>
     fd_state d = Open \<and> length (fd_header d) = 4 \<and> fd_header_length d < 4 \<and>
     (case fd_expected d of
        None \<Rightarrow> True
      | Some e \<Rightarrow> 0 < e \<and> e \<le> fd_max d \<and> big_endian (fd_header d) = e \<and> fd_header_length d = 0 \<and>
          wf_blocks e d \<and> fd_payload_length d < e)"

section \<open>Filling blocks\<close>

lemma join_blocks_concat:
  "length pre + length (concat bs) = length payload \<Longrightarrow> take (length pre) payload = pre \<Longrightarrow>
   join_blocks (length pre) payload bs = pre @ concat bs"
proof (induction bs arbitrary: pre payload)
  case (Cons b bs)
  have l: "length pre + length b \<le> length payload"
    using Cons.prems(1) by simp
  have "join_blocks (length (pre @ b)) (set_at (length pre) b payload) bs = (pre @ b) @ concat bs"
    using Cons.prems l take_set_at [OF l]
    by (intro Cons.IH) (simp_all add: length_set_at)
  then show ?case by simp
qed simp

text \<open>The fields the payload part leaves alone.\<close>

definition head :: "frame_decoder \<Rightarrow> byte list \<times> nat \<times> nat \<times> decoder_state \<times> nat option" where
  "head d = (fd_header d, fd_header_length d, fd_max d, fd_state d, fd_expected d)"

lemma current_is_last:
  "wf_blocks expected d \<Longrightarrow> fd_current d = Some i \<Longrightarrow> fd_blocks d ! i = last (fd_blocks d)"
  by (simp add: wf_blocks_def last_conv_nth)

lemma next_block_ok:
  assumes wf: "wf_blocks expected d" and less: "fd_payload_length d < expected"
  shows "wf_blocks expected (next_block expected d) \<and> payload_so_far (next_block expected d) = payload_so_far d \<and>
    fd_payload_length (next_block expected d) = fd_payload_length d \<and>
    fd_current_length (next_block expected d) < length (current_block (next_block expected d)) \<and>
    fd_current (next_block expected d) \<noteq> None \<and> head (next_block expected d) = head d"
proof -
  define n where "n = min payload_block_size (expected - fd_payload_length d)"
  have n: "0 < n" "fd_payload_length d + n \<le> expected"
    using less by (auto simp: n_def payload_block_size_def)
  define fresh where "fresh = d\<lparr>fd_blocks := fd_blocks d @ [replicate n 0], fd_current := Some (length (fd_blocks d)),
    fd_current_length := 0\<rparr>"
  have fresh: "wf_blocks expected fresh \<and> payload_so_far fresh = payload_so_far d \<and>
      fd_current_length fresh < length (current_block fresh) \<and> head fresh = head d"
    if "payload_so_far d = concat (fd_blocks d)"
    using that wf n
    by (simp add: fresh_def wf_blocks_def payload_so_far_def current_block_def head_def split: option.splits)
  show ?thesis
  proof (cases "fd_current d")
    case None
    then have "next_block expected d = fresh" "payload_so_far d = concat (fd_blocks d)"
      using wf by (simp_all add: next_block_def fresh_def n_def Let_def payload_so_far_def wf_blocks_def)
    then show ?thesis
      using fresh by (simp add: fresh_def)
  next
    case (Some i)
    have last: "fd_blocks d ! i = last (fd_blocks d)"
      using current_is_last [OF wf Some] .
    show ?thesis
    proof (cases "fd_current_length d = length (last (fd_blocks d))")
      case True
      have "fd_blocks d \<noteq> []"
        using wf Some by (simp add: wf_blocks_def)
      then have "concat (butlast (fd_blocks d)) @ last (fd_blocks d) = concat (fd_blocks d)"
        by (metis append_butlast_last_id append_Nil2 concat.simps concat_append)
      then have "next_block expected d = fresh" "payload_so_far d = concat (fd_blocks d)"
        using Some True last by (simp_all add: next_block_def fresh_def n_def Let_def payload_so_far_def)
      then show ?thesis
        using fresh by (simp add: fresh_def)
    next
      case False
      then have "next_block expected d = d"
        using Some last by (simp add: next_block_def Let_def)
      then show ?thesis
        using wf Some False last by (auto simp: wf_blocks_def current_block_def)
    qed
  qed
qed

lemma put_block_ok:
  assumes wf: "wf_blocks expected d" and cur: "fd_current d \<noteq> None"
    and fits: "fd_current_length d + length data \<le> length (current_block d)"
  shows "wf_blocks expected (put_block data d) \<and> payload_so_far (put_block data d) = payload_so_far d @ data \<and>
    fd_payload_length (put_block data d) = fd_payload_length d + length data \<and> head (put_block data d) = head d"
proof -
  obtain i where i: "fd_current d = Some i" using cur by blast
  obtain pre b where blocks: "fd_blocks d = pre @ [b]"
    using wf i by (cases "fd_blocks d" rule: rev_cases) (auto simp: wf_blocks_def)
  have len: "i = length pre" "fd_current_length d + length data \<le> length b"
    using wf i fits blocks by (auto simp: wf_blocks_def current_block_def)
  have put: "put_block data d = d\<lparr>fd_blocks := pre @ [set_at (fd_current_length d) data b],
      fd_current_length := fd_current_length d + length data, fd_payload_length := fd_payload_length d + length data\<rparr>"
    using i len(1) blocks by (simp add: put_block_def)
  have "payload_so_far (put_block data d) = payload_so_far d @ data"
    using i blocks take_set_at [OF len(2)] by (simp add: put payload_so_far_def)
  moreover have "length (payload_so_far (put_block data d)) \<le> length (concat (fd_blocks (put_block data d)))"
    using i len(2) by (simp add: put payload_so_far_def)
  ultimately show ?thesis
    using wf i blocks len by (auto simp: put wf_blocks_def head_def length_set_at)
qed

lemma fill_blocks_ok:
  assumes "wf_blocks expected d" and "offset \<le> length chunk"
  shows "\<exists>d'. fill_blocks chunk expected offset d = Some (offset + min (expected - fd_payload_length d) (length chunk - offset), d')
    \<and> wf_blocks expected d' \<and> head d' = head d
    \<and> payload_so_far d' = payload_so_far d @ slice offset (offset + min (expected - fd_payload_length d) (length chunk - offset)) chunk"
  using assms
proof (induction "length chunk - offset" arbitrary: offset d rule: less_induct)
  case less
  show ?case
  proof (cases "offset < length chunk \<and> fd_payload_length d < expected")
    case True
    define d1 where "d1 = next_block expected d"
    have d1: "wf_blocks expected d1" "payload_so_far d1 = payload_so_far d" "fd_payload_length d1 = fd_payload_length d"
      "fd_current_length d1 < length (current_block d1)" "fd_current d1 \<noteq> None" "head d1 = head d"
      using next_block_ok [OF less.prems(1)] True unfolding d1_def by simp_all
    define n where "n = min (length (current_block d1) - fd_current_length d1) (length chunk - offset)"
    have n: "0 < n" "offset + n \<le> length chunk"
      using d1(4) True by (auto simp: n_def)
    have data: "length (slice offset (offset + n) chunk) = n"
      using n by (simp add: length_slice)
    have room: "fd_current_length d1 + length (slice offset (offset + n) chunk) \<le> length (current_block d1)"
      using data d1(4) by (simp add: n_def)
    define d2 where "d2 = put_block (slice offset (offset + n) chunk) d1"
    have d2: "wf_blocks expected d2" "payload_so_far d2 = payload_so_far d @ slice offset (offset + n) chunk"
      "fd_payload_length d2 = fd_payload_length d + n" "head d2 = head d"
      using put_block_ok [OF d1(1,5) room] data d1(2,3,6) unfolding d2_def by simp_all
    have step: "fill_blocks chunk expected offset d = fill_blocks chunk expected (offset + n) d2"
      using True by (subst fill_blocks.simps) (simp add: d1_def n_def d2_def Let_def)
    have "fd_payload_length d2 \<le> expected"
      using d2(1) by (simp add: wf_blocks_def)
    then have total: "n + min (expected - fd_payload_length d2) (length chunk - (offset + n))
        = min (expected - fd_payload_length d) (length chunk - offset)"
      using d2(3) n(2) by arith
    have shorter: "length chunk - (offset + n) < length chunk - offset"
      using n True by simp
    define m where "m = min (expected - fd_payload_length d2) (length chunk - (offset + n))"
    obtain d' where d': "fill_blocks chunk expected (offset + n) d2 = Some (offset + n + m, d')"
      "wf_blocks expected d'" "head d' = head d2"
      "payload_so_far d' = payload_so_far d2 @ slice (offset + n) (offset + n + m) chunk"
      using less.hyps [OF shorter d2(1) n(2)] unfolding m_def by blast
    have sum: "offset + n + m = offset + min (expected - fd_payload_length d) (length chunk - offset)"
      using total unfolding m_def by simp
    have "slice offset (offset + n + m) chunk = slice offset (offset + n) chunk @ slice (offset + n) (offset + n + m) chunk"
      by (rule slice_split) simp_all
    then show ?thesis
      using step d' d2(2,4) unfolding sum by auto
  next
    case False
    then have "min (expected - fd_payload_length d) (length chunk - offset) = 0"
      by auto
    then show ?thesis
      using False less.prems by (subst fill_blocks.simps) auto
  qed
qed

section \<open>Pushing chunks\<close>

text \<open>The result of a push from a decoder in the middle of \<open>bs\<close>, with the rest of the chunk in \<open>bs\<close>.\<close>

definition pushed :: "nat \<Rightarrow> byte list \<Rightarrow> byte list list \<Rightarrow>
    (frame_decoder \<times> (frame_error + byte list list)) option \<Rightarrow> bool" where
  "pushed limit bs frames r \<longleftrightarrow>
     (case split_frames limit bs of
        None \<Rightarrow> \<exists>d n. r = Some (d, Inl (FrameTooLong n)) \<and> fd_state d = Failed
      | Some (fs, rest) \<Rightarrow>
          \<exists>d. r = Some (d, Inr (frames @ fs)) \<and> wf_frames d \<and> unread d = rest \<and> fd_max d = limit)"

lemma pushed_frame:
  assumes "length hdr = 4" and "big_endian hdr = length payload" and "length payload \<le> limit"
    and "pushed limit bs (frames @ [payload]) r"
  shows "pushed limit (hdr @ payload @ bs) frames r"
proof -
  have "split_frames limit (hdr @ payload @ bs)
      = map_option (\<lambda>(fs, rest). (payload # fs, rest)) (split_frames limit bs)"
    using assms(1-3) by (subst split_frames.simps) (simp add: Let_def)
  then show ?thesis
    using assms(4) by (auto simp: pushed_def split: option.splits)
qed

lemma wf_frames_payload:
  "wf_frames d \<Longrightarrow> fd_expected d = Some e \<Longrightarrow>
   wf_blocks e d \<and> fd_payload_length d = length (payload_so_far d) \<and> length (payload_so_far d) < e \<and> e \<le> fd_max d \<and>
   length (fd_header d) = 4 \<and> big_endian (fd_header d) = e"
  by (simp add: wf_frames_def wf_blocks_def)

lemma split_unread: "wf_frames d \<Longrightarrow> split_frames (fd_max d) (unread d) = Some ([], unread d)"
proof (cases "fd_expected d")
  case None
  assume "wf_frames d"
  then show ?thesis
    using None by (subst split_frames.simps) (simp add: unread_def wf_frames_def)
next
  case (Some e)
  assume wf: "wf_frames d"
  from wf_frames_payload [OF wf Some] show ?thesis
    using Some by (subst split_frames.simps) (simp add: unread_def Let_def)
qed

lemma pushed_done: "wf_frames d \<Longrightarrow> pushed (fd_max d) (unread d) frames (Some (d, Inr frames))"
  by (simp add: pushed_def split_unread)

definition payload_part ::
  "byte list \<Rightarrow> nat \<Rightarrow> byte list list \<Rightarrow> frame_decoder \<Rightarrow> nat \<Rightarrow> (frame_decoder \<times> (frame_error + byte list list)) option" where
  "payload_part chunk offset frames d expected =
     Option.bind (fill_blocks chunk expected offset d) (\<lambda>(offset, d).
       if fd_payload_length d = expected
       then push_loop chunk offset (frames @ [finished_payload expected d]) (clear_payload d)
       else push_loop chunk offset frames d)"

lemma finished_payload_ok:
  assumes wf: "wf_blocks e d" and len: "fd_payload_length d = e" and pos: "0 < e"
  shows "finished_payload e d = payload_so_far d"
proof -
  obtain i where i: "fd_current d = Some i"
    using wf len pos by (cases "fd_current d") (auto simp: wf_blocks_def payload_so_far_def)
  obtain pre b where blocks: "fd_blocks d = pre @ [b]"
    using wf i by (cases "fd_blocks d" rule: rev_cases) (auto simp: wf_blocks_def)
  have full: "take (fd_current_length d) b = b"
    using wf i blocks len by (auto simp: wf_blocks_def payload_so_far_def min_def split: if_splits)
  then have all: "payload_so_far d = concat (fd_blocks d)"
    using i blocks by (simp add: payload_so_far_def)
  have "join_blocks (length ([] :: byte list)) (replicate e 0) (fd_blocks d) = [] @ concat (fd_blocks d)"
    using all wf len by (intro join_blocks_concat) (simp_all add: wf_blocks_def)
  moreover have "fd_blocks d ! 0 = concat (fd_blocks d)" if "length (fd_blocks d) = 1"
    using that blocks by (cases pre) simp_all
  ultimately show ?thesis
    unfolding finished_payload_def all by simp
qed

lemma payload_part_ok:
  assumes wf: "wf_frames d" and e: "fd_expected d = Some e" and offset: "offset \<le> length chunk"
    and progress: "start < offset \<or> start = offset \<and> offset < length chunk"
    and IH: "\<And>o' frames d. start < o' \<Longrightarrow> o' \<le> length chunk \<Longrightarrow> wf_frames d \<Longrightarrow>
      pushed (fd_max d) (unread d @ drop o' chunk) frames (push_loop chunk o' frames d)"
  shows "pushed (fd_max d) (unread d @ drop offset chunk) frames (payload_part chunk offset frames d e)"
proof -
  have p: "wf_blocks e d" "fd_payload_length d = length (payload_so_far d)" "length (payload_so_far d) < e"
    "e \<le> fd_max d" "length (fd_header d) = 4" "big_endian (fd_header d) = e"
    using wf_frames_payload [OF wf e] by simp_all
  define n where "n = min (e - fd_payload_length d) (length chunk - offset)"
  obtain d1 where d1: "fill_blocks chunk e offset d = Some (offset + n, d1)" "wf_blocks e d1" "head d1 = head d"
    "payload_so_far d1 = payload_so_far d @ slice offset (offset + n) chunk"
    using fill_blocks_ok [OF p(1) offset] unfolding n_def by blast
  have n: "offset + n \<le> length chunk" "start < offset + n"
    using offset progress p(2,3) by (auto simp: n_def)
  have data: "drop offset chunk = slice offset (offset + n) chunk @ drop (offset + n) chunk"
    using n(1) by (metis add.commute append_take_drop_id diff_add_inverse drop_drop slice_def)
  have len: "fd_payload_length d1 = fd_payload_length d + n"
    using d1(2,4) p(2) n(1) by (simp add: wf_blocks_def length_slice)
  have stream: "unread d @ drop offset chunk = fd_header d @ payload_so_far d1 @ drop (offset + n) chunk"
    using e data d1(4) by (simp add: unread_def)
  have fields: "fd_header d1 = fd_header d" "fd_header_length d1 = fd_header_length d" "fd_max d1 = fd_max d"
    "fd_state d1 = fd_state d" "fd_expected d1 = Some e"
    using d1(3) e by (simp_all add: head_def)
  show ?thesis
  proof (cases "fd_payload_length d1 = e")
    case True
    define d2 where "d2 = clear_payload d1"
    have d2: "wf_frames d2" "unread d2 = []" "fd_max d2 = fd_max d"
      using wf e fields by (simp_all add: d2_def clear_payload_def wf_frames_def unread_def)
    have payload: "finished_payload e d1 = payload_so_far d1" "length (payload_so_far d1) = e"
      using finished_payload_ok [OF d1(2) True] True d1(2) p(3) by (auto simp: wf_blocks_def)
    have "pushed (fd_max d) (drop (offset + n) chunk) (frames @ [payload_so_far d1])
        (push_loop chunk (offset + n) (frames @ [payload_so_far d1]) d2)"
      using IH [OF n(2,1) d2(1), of "frames @ [payload_so_far d1]"] d2(2,3) by simp
    then have "pushed (fd_max d) (fd_header d @ payload_so_far d1 @ drop (offset + n) chunk) frames
        (push_loop chunk (offset + n) (frames @ [payload_so_far d1]) d2)"
      using p payload(2) by (intro pushed_frame) simp_all
    then show ?thesis
      unfolding stream using d1(1) True payload(1) by (simp add: payload_part_def d2_def)
  next
    case False
    have "wf_frames d1"
      using wf e fields d1(2) False p by (auto simp: wf_frames_def wf_blocks_def)
    moreover have "unread d1 = fd_header d @ payload_so_far d1"
      using fields by (simp add: unread_def)
    ultimately have "pushed (fd_max d) (fd_header d @ payload_so_far d1 @ drop (offset + n) chunk) frames
        (push_loop chunk (offset + n) frames d1)"
      using IH [OF n(2,1), of d1 frames] fields(3) by simp
    then show ?thesis
      unfolding stream using d1(1) False by (simp add: payload_part_def)
  qed
qed

lemma push_loop_ok:
  "wf_frames d \<Longrightarrow> offset \<le> length chunk \<Longrightarrow>
   pushed (fd_max d) (unread d @ drop offset chunk) frames (push_loop chunk offset frames d)"
proof (induction "length chunk - offset" arbitrary: offset frames d rule: less_induct)
  case less
  have IH: "pushed (fd_max d) (unread d @ drop o' chunk) frames (push_loop chunk o' frames d)"
    if "offset < o'" "o' \<le> length chunk" "wf_frames d" for o' frames d
    using less.hyps [OF _ that(3,2)] that(1,2) by simp
  show ?case
  proof (cases "offset < length chunk")
    case False
    then show ?thesis
      using pushed_done [OF less.prems(1)] by (subst push_loop.simps) simp
  next
    case True
    show ?thesis
    proof (cases "fd_expected d")
      case (Some e)
      have "push_loop chunk offset frames d = payload_part chunk offset frames d e"
        using True Some by (subst push_loop.simps) (simp add: payload_part_def)
      moreover have "pushed (fd_max d) (unread d @ drop offset chunk) frames (payload_part chunk offset frames d e)"
        using True IH by (intro payload_part_ok [OF less.prems(1) Some less.prems(2), of offset]) simp_all
      ultimately show ?thesis by simp
    next
      case None
      have hl: "length (fd_header d) = 4" "fd_header_length d < 4" "fd_state d = Open"
        using less.prems(1) by (simp_all add: wf_frames_def)
      define n where "n = min (4 - fd_header_length d) (length chunk - offset)"
      have n: "0 < n" "offset + n \<le> length chunk" "fd_header_length d + n \<le> 4"
        using True hl by (auto simp: n_def)
      define hdr where "hdr = set_at (fd_header_length d) (slice offset (offset + n) chunk) (fd_header d)"
      have data: "length (slice offset (offset + n) chunk) = n"
        using n by (simp add: length_slice)
      have hdr: "take (fd_header_length d + n) hdr = take (fd_header_length d) (fd_header d) @ slice offset (offset + n) chunk"
        "length hdr = 4"
        using take_set_at [of "fd_header_length d" "slice offset (offset + n) chunk" "fd_header d"] data n(3) hl(1)
        by (simp_all add: hdr_def length_set_at)
      have split: "drop offset chunk = slice offset (offset + n) chunk @ drop (offset + n) chunk"
        using n(2) by (metis add.commute append_take_drop_id diff_add_inverse drop_drop slice_def)
      have stream: "unread d @ drop offset chunk = take (fd_header_length d + n) hdr @ drop (offset + n) chunk"
        using None hdr(1) split by (simp add: unread_def)
      define d1 where "d1 = d\<lparr>fd_header := hdr, fd_header_length := fd_header_length d + n\<rparr>"
      have read: "read_header chunk offset d =
          (if fd_header_length d1 < 4 then MoreHeader (offset + n) d1
           else if fd_max d < big_endian hdr
             then Oversized (fail_frames (d1\<lparr>fd_header_length := 0\<rparr>)) (FrameTooLong (big_endian hdr))
             else if big_endian hdr = 0 then EmptyFrame (offset + n) (d1\<lparr>fd_header_length := 0\<rparr>)
             else Payload (offset + n) (d1\<lparr>fd_header_length := 0, fd_expected := Some (big_endian hdr), fd_blocks := [],
               fd_current := None, fd_current_length := 0, fd_payload_length := 0\<rparr>))"
        by (simp add: read_header_def Let_def frame_header_length_def n_def hdr_def d1_def)
      consider (more_header) "fd_header_length d + n < 4" | (header) "fd_header_length d + n = 4"
        using n(3) by linarith
      then show ?thesis
      proof cases
        case more_header
        have "wf_frames d1" "unread d1 = take (fd_header_length d + n) hdr" "fd_max d1 = fd_max d"
          using hl hdr(2) None more_header by (simp_all add: d1_def wf_frames_def unread_def)
        then have "pushed (fd_max d) (unread d @ drop offset chunk) frames (push_loop chunk (offset + n) frames d1)"
          unfolding stream using IH [of "offset + n" d1 frames] n by simp
        then show ?thesis
          using True None more_header by (subst push_loop.simps) (simp add: read d1_def)
      next
        case header
        have stream: "unread d @ drop offset chunk = hdr @ drop (offset + n) chunk"
          unfolding stream using header hdr(2) by simp
        define d2 where "d2 = d1\<lparr>fd_header_length := 0\<rparr>"
        consider "fd_max d < big_endian hdr" | "big_endian hdr = 0"
          | (payload) "big_endian hdr \<le> fd_max d" "0 < big_endian hdr" by linarith
        then show ?thesis
        proof cases
          case 1
          have "split_frames (fd_max d) (hdr @ drop (offset + n) chunk) = None"
            using hdr(2) 1 by (subst split_frames.simps) (simp add: Let_def)
          moreover have "push_loop chunk offset frames d = Some (fail_frames d2, Inl (FrameTooLong (big_endian hdr)))"
            using True None header 1 by (subst push_loop.simps) (simp add: read d1_def d2_def)
          ultimately show ?thesis
            unfolding stream by (simp add: pushed_def fail_frames_def)
        next
          case 2
          have "wf_frames d2" "unread d2 = []" "fd_max d2 = fd_max d"
            using hl hdr(2) None by (simp_all add: d1_def d2_def wf_frames_def unread_def)
          then have "pushed (fd_max d) (drop (offset + n) chunk) (frames @ [[]])
              (push_loop chunk (offset + n) (frames @ [[]]) d2)"
            using IH [of "offset + n" d2 "frames @ [[]]"] n by simp
          then have "pushed (fd_max d) (hdr @ [] @ drop (offset + n) chunk) frames
              (push_loop chunk (offset + n) (frames @ [[]]) d2)"
            using hdr(2) 2 by (intro pushed_frame) simp_all
          moreover have "push_loop chunk offset frames d = push_loop chunk (offset + n) (frames @ [[]]) d2"
            using True None header 2 by (subst push_loop.simps) (simp add: read d1_def d2_def)
          ultimately show ?thesis
            unfolding stream by simp
        next
          case payload
          define d3 where "d3 = d2\<lparr>fd_expected := Some (big_endian hdr), fd_blocks := [], fd_current := None,
            fd_current_length := 0, fd_payload_length := 0\<rparr>"
          have d3: "wf_frames d3" "unread d3 = hdr" "fd_max d3 = fd_max d" "fd_expected d3 = Some (big_endian hdr)"
            using hl hdr(2) payload
            by (simp_all add: d3_def d1_def d2_def wf_frames_def wf_blocks_def payload_so_far_def unread_def)
          have "push_loop chunk offset frames d = payload_part chunk (offset + n) frames d3 (big_endian hdr)"
            using True None header payload
            by (subst push_loop.simps) (simp add: read d1_def d2_def d3_def payload_part_def)
          moreover have "pushed (fd_max d3) (unread d3 @ drop (offset + n) chunk) frames
              (payload_part chunk (offset + n) frames d3 (big_endian hdr))"
            using n(1) IH by (intro payload_part_ok [OF d3(1,4) n(2), of offset]) simp_all
          ultimately show ?thesis
            unfolding stream using d3(2,3) by simp
        qed
      qed
    qed
  qed
qed

end
