(* ===== verification/FrameStreams.thy ===== *)
theory FrameStreams
  imports Framing
begin

text \<open>
  What the frame decoder does over a whole connection: it returns from every push in every reachable
  state, finds the same frames however the stream is cut into chunks, reads back what the encoder
  wrote and refuses a stream that ends inside a frame.
\<close>

section \<open>Reachable decoders\<close>

inductive frames_reachable :: "nat \<Rightarrow> frame_decoder \<Rightarrow> bool" for limit where
  reach_new: "frames_reachable limit (new_frame_decoder limit)"
| reach_push: "frames_reachable limit d \<Longrightarrow> push_frames chunk d = Some (d', r) \<Longrightarrow> frames_reachable limit d'"
| reach_end: "frames_reachable limit d \<Longrightarrow> end_frames d = (d', r) \<Longrightarrow> frames_reachable limit d'"

lemma wf_new: "wf_frames (new_frame_decoder limit)" "unread (new_frame_decoder limit) = []"
    "fd_max (new_frame_decoder limit) = limit"
  by (simp_all add: new_frame_decoder_def wf_frames_def unread_def frame_header_length_def)

lemma push_open:
  assumes "wf_frames d"
  shows "pushed (fd_max d) (unread d @ chunk) [] (push_frames chunk d)"
proof -
  have "fd_state d = Open"
    using assms by (simp add: wf_frames_def)
  then show ?thesis
    using push_loop_ok [OF assms, of 0 chunk "[]"] by (simp add: push_frames_def)
qed

lemma reachable_open: "frames_reachable limit d \<Longrightarrow> fd_state d = Open \<longrightarrow> wf_frames d \<and> fd_max d = limit"
proof (induction rule: frames_reachable.induct)
  case reach_new
  then show ?case by (simp add: wf_new)
next
  case (reach_push d chunk d' r)
  show ?case
  proof (cases "fd_state d")
    case Open
    then have wf: "wf_frames d" "fd_max d = limit"
      using reach_push.IH by simp_all
    show ?thesis
      using push_open [OF wf(1), of chunk] reach_push.hyps(2) wf(2)
      by (auto simp: pushed_def split: option.splits)
  qed (use reach_push.hyps(2) in \<open>auto simp: push_frames_def\<close>)
next
  case (reach_end d d' r)
  then show ?case
    by (auto simp: end_frames_def fail_frames_def split: decoder_state.splits if_splits)
qed

text \<open>
  C37: In every state a frame decoder can reach, \<open>push\<close> returns for every chunk; its loops never run
  forever.\<close>

theorem push_frames_returns:
  assumes "frames_reachable limit d"
  shows "\<exists>r. push_frames chunk d = Some r"
proof (cases "fd_state d")
  case Open
  then have "wf_frames d"
    using reachable_open [OF assms] by simp
  from push_open [OF this, of chunk] show ?thesis
    by (auto simp: pushed_def split: option.splits)
qed (simp_all add: push_frames_def)

theorem push_frames_returns_witness: "\<exists>r. push_frames [0, 0, 0] (new_frame_decoder 10) = Some r"
  by (rule push_frames_returns [OF reach_new])

section \<open>A whole stream\<close>

fun push_chunks :: "byte list list \<Rightarrow> frame_decoder \<Rightarrow> (frame_decoder \<times> (frame_error + byte list list)) option" where
  "push_chunks [] d = Some (d, Inr [])"
| "push_chunks (c # cs) d =
     Option.bind (push_frames c d) (\<lambda>(d, r). case r of
         Inl e \<Rightarrow> Some (d, Inl e)
       | Inr frames \<Rightarrow> map_option (\<lambda>(d, r). (d, rbind r (\<lambda>fs. Inr (frames @ fs)))) (push_chunks cs d))"

lemma split_frames_append:
  "split_frames limit bs = Some (fs, rest) \<Longrightarrow>
   split_frames limit (bs @ cs) = map_option (\<lambda>(gs, r). (fs @ gs, r)) (split_frames limit (rest @ cs))"
proof (induction limit bs arbitrary: fs rule: split_frames.induct)
  case (1 limit bs)
  define n where "n = big_endian (take 4 bs)"
  consider (short) "fs = []" "rest = bs"
    | (frame) gs where "\<not> length bs < 4" "n \<le> limit" "\<not> length bs < 4 + n" "fs = take n (drop 4 bs) # gs"
        "split_frames limit (drop (4 + n) bs) = Some (gs, rest)"
    using "1.prems" by (subst (asm) split_frames.simps) (auto simp: Let_def n_def split: if_splits)
  then show ?case
  proof cases
    case short
    then show ?thesis
      by (cases "split_frames limit (bs @ cs)") auto
  next
    case frame
    have "split_frames limit (drop (4 + n) bs @ cs) = map_option (\<lambda>(hs, r). (gs @ hs, r)) (split_frames limit (rest @ cs))"
      using "1.IH" [OF frame(1) refl _ _ frame(5) [unfolded n_def]] frame(2,3) unfolding n_def by simp
    then show ?thesis
      using frame
      by (subst split_frames.simps, cases "split_frames limit (rest @ cs)") (auto simp: Let_def n_def)
  qed
qed

lemma split_frames_stuck: "split_frames limit bs = None \<Longrightarrow> split_frames limit (bs @ cs) = None"
proof (induction limit bs rule: split_frames.induct)
  case (1 limit bs)
  define n where "n = big_endian (take 4 bs)"
  have len: "\<not> length bs < 4"
    using "1.prems" by (subst (asm) split_frames.simps) (auto split: if_splits)
  show ?case
  proof (cases "limit < n")
    case True
    then show ?thesis
      using len by (subst split_frames.simps) (simp add: n_def Let_def)
  next
    case False
    have "split_frames limit bs = (if length bs < 4 + n then Some ([], bs)
        else map_option (\<lambda>(frames, rest). (take n (drop 4 bs) # frames, rest)) (split_frames limit (drop (4 + n) bs)))"
      using len False by (subst split_frames.simps) (simp add: n_def Let_def)
    then have rest: "\<not> length bs < 4 + n" "split_frames limit (drop (4 + n) bs) = None"
      using "1.prems" by (auto split: if_splits)
    have "split_frames limit (drop (4 + n) bs @ cs) = None"
      using "1.IH" [OF len refl] False rest unfolding n_def by simp
    then show ?thesis
      using len False rest(1) by (subst split_frames.simps) (auto simp: n_def Let_def)
  qed
qed

lemma push_chunks_frames:
  assumes "split_frames limit (concat chunks) = Some (frames, rest)"
  shows "\<exists>d. push_chunks chunks (new_frame_decoder limit) = Some (d, Inr frames) \<and> wf_frames d \<and> unread d = rest"
proof -
  have "\<exists>d'. push_chunks chunks d = Some (d', Inr frames) \<and> wf_frames d' \<and> unread d' = rest"
    if "wf_frames d" "split_frames (fd_max d) (unread d @ concat chunks) = Some (frames, rest)" for d frames
    using that
  proof (induction chunks arbitrary: d frames)
    case Nil
    then show ?case using split_unread [of d] by simp
  next
    case (Cons c cs)
    have p: "pushed (fd_max d) (unread d @ c) [] (push_frames c d)"
      by (rule push_open [OF Cons.prems(1)])
    show ?case
    proof (cases "split_frames (fd_max d) (unread d @ c)")
      case None
      then show ?thesis
        using Cons.prems(2) split_frames_stuck [OF None, of "concat cs"] by simp
    next
      case (Some r)
      obtain fs r1 where r: "r = (fs, r1)" by (cases r)
      obtain d1 where d1: "push_frames c d = Some (d1, Inr fs)" "wf_frames d1" "unread d1 = r1" "fd_max d1 = fd_max d"
        using p Some r by (auto simp: pushed_def)
      have "map_option (\<lambda>(gs, r). (fs @ gs, r)) (split_frames (fd_max d1) (unread d1 @ concat cs)) = Some (frames, rest)"
        using split_frames_append [of "fd_max d" "unread d @ c" fs r1 "concat cs"] Cons.prems(2) Some r d1(3,4) by simp
      then obtain gs where gs: "split_frames (fd_max d1) (unread d1 @ concat cs) = Some (gs, rest)" "frames = fs @ gs"
        by auto
      from Cons.IH [OF d1(2) gs(1)] d1(1) gs(2) show ?thesis by auto
    qed
  qed
  from this [OF wf_new(1), of limit frames] assms show ?thesis
    by (simp add: wf_new(2,3))
qed

text \<open>
  C38: However a stream is cut into chunks, the decoder finds the frames of the whole stream and is left
  in the middle of what remains, as long as no frame is longer than its limit.\<close>

theorem frames_independent_of_chunks:
  assumes "split_frames limit (concat chunks) = Some (frames, rest)"
  shows "\<exists>d. push_chunks chunks (new_frame_decoder limit) = Some (d, Inr frames) \<and> unread d = rest"
  using push_chunks_frames [OF assms] by blast

lemma end_frames_open:
  assumes "wf_frames d"
  shows "(\<exists>d'. end_frames d = (d', Inr ())) \<longleftrightarrow> unread d = []"
proof -
  have "fd_header d \<noteq> []"
    using assms by (auto simp: wf_frames_def)
  then show ?thesis
    using assms by (auto simp: end_frames_def wf_frames_def unread_def split: option.splits)
qed

theorem frames_independent_of_chunks_witness:
  "\<exists>d. push_chunks [[0, 0], [0, 1, 7, 0]] (new_frame_decoder 10) = Some (d, Inr [[7]]) \<and> unread d = [0]"
proof -
  have "split_frames 10 (concat [[0, 0], [0, 1, 7, 0]]) = Some ([[7]], [0])"
    by (subst split_frames.simps, subst split_frames.simps) (simp add: big_endian_def Let_def)
  then show ?thesis by (rule frames_independent_of_chunks)
qed

section \<open>The encoder\<close>

lemma encode_frame_bytes:
  "encode_frame payload = Inr bs \<Longrightarrow> bs = be32 (length payload) @ payload \<and> length payload < 2 ^ 32"
  by (auto simp: encode_frame_def set_at_def frame_header_length_def max_frame_uint32_def split: if_splits)

lemma split_encoded:
  "encode_frame payload = Inr bs \<Longrightarrow> length payload \<le> limit \<Longrightarrow>
   split_frames limit (bs @ cs) = map_option (\<lambda>(fs, rest). (payload # fs, rest)) (split_frames limit cs)"
  using big_endian_be32 [of "length payload"] by (auto dest!: encode_frame_bytes simp: split_frames.simps [of limit "_ @ _"])

lemma encoded_frames_roundtrip:
  assumes "list_all2 (\<lambda>payload bs. encode_frame payload = Inr bs) payloads encoded"
    and "list_all (\<lambda>payload. length payload \<le> limit) payloads"
    and "concat chunks = concat encoded"
  shows "\<exists>d d'. push_chunks chunks (new_frame_decoder limit) = Some (d, Inr payloads) \<and> end_frames d = (d', Inr ())"
proof -
  have "split_frames limit (concat encoded) = Some (payloads, [])"
    using assms(1,2)
  proof (induction rule: list_all2_induct)
    case Nil
    then show ?case by (subst split_frames.simps) simp
  next
    case (Cons payload payloads bs encoded)
    then show ?case by (simp add: split_encoded)
  qed
  then have "split_frames limit (concat chunks) = Some (payloads, [])"
    using assms(3) by simp
  from push_chunks_frames [OF this] show ?thesis
    using end_frames_open by blast
qed

text \<open>
  C34: A decoder that receives the frames of some payloads, cut into any chunks, returns exactly the
  payloads, and the end of the stream is then accepted.\<close>

theorem frames_roundtrip:
  assumes "list_all2 (\<lambda>payload bs. encode_frame payload = Inr bs) payloads encoded"
    and "list_all (\<lambda>payload. length payload \<le> limit) payloads"
    and "concat chunks = concat encoded"
  shows "\<exists>d d'. push_chunks chunks (new_frame_decoder limit) = Some (d, Inr payloads) \<and> end_frames d = (d', Inr ())"
  using assms by (rule encoded_frames_roundtrip)

theorem frames_roundtrip_witness:
  "\<exists>d d'. push_chunks [[0, 0], [0, 1, 7, 0, 0, 0, 0]] (new_frame_decoder 10) = Some (d, Inr [[7], []]) \<and>
     end_frames d = (d', Inr ())"
proof -
  have "list_all2 (\<lambda>payload bs. encode_frame payload = Inr bs) [[7], []] [[0, 0, 0, 1, 7], [0, 0, 0, 0]]"
    by (simp add: encode_frame_def set_at_def frame_header_length_def max_frame_uint32_def be32_def)
  then show ?thesis
    by (rule frames_roundtrip) simp_all
qed

text \<open>
  A stream that ends inside a frame is refused: \<open>end\<close> throws exactly when bytes of an unfinished
  frame are left.\<close>

theorem truncated_stream_refused:
  assumes "split_frames limit (concat chunks) = Some (frames, rest)"
  shows "\<exists>d. push_chunks chunks (new_frame_decoder limit) = Some (d, Inr frames) \<and>
    (rest \<noteq> [] \<longrightarrow> end_frames d = (fail_frames d, Inl TruncatedFrame))"
proof -
  obtain d where d: "push_chunks chunks (new_frame_decoder limit) = Some (d, Inr frames)" "wf_frames d" "unread d = rest"
    using push_chunks_frames [OF assms] by blast
  have "end_frames d = (fail_frames d, Inl TruncatedFrame)" if "rest \<noteq> []"
    using d(2,3) that by (auto simp: end_frames_def wf_frames_def unread_def split: option.splits)
  then show ?thesis
    using d(1) by blast
qed

theorem truncated_stream_refused_witness:
  "\<exists>d. push_chunks [[0, 0, 0, 2, 7]] (new_frame_decoder 10) = Some (d, Inr []) \<and>
     ([0, 0, 0, 2, 7] \<noteq> ([] :: byte list) \<longrightarrow> end_frames d = (fail_frames d, Inl TruncatedFrame))"
proof -
  have "split_frames 10 (concat [[0, 0, 0, 2, 7]]) = Some ([], [0, 0, 0, 2, 7])"
    by (subst split_frames.simps) (simp add: big_endian_def)
  then show ?thesis by (rule truncated_stream_refused)
qed

end
