(* ===== verification/MessageCodec.thy ===== *)
theory MessageCodec
  imports FrameStreams CborRoundtrip
begin

text \<open>
  Validated messages over frames (\<open>packages/protocol/src/codec.ts\<close>): a value is checked, encoded as
  CBOR and framed; a decoder splits a stream into frames, decodes each and checks it, and after any
  failure it refuses everything. The check of a message against its schema is typebox's; it is a
  parameter, on values of the heap where a message is sent and on decoded trees where it is received.
\<close>

datatype message_error =
    InvalidMessage                  \<comment> \<open>the schema or \<open>isJsonValue\<close> refuses\<close>
  | UnableToEncode cbor_error
  | UnableToFrame frame_error
  | BadFrame frame_error
  | BadPayload cbor_error
  | DecoderHasFailed
  | BadOptions frame_error

text \<open>\<open>boundedErrorMessage\<close> of an error with a message.\<close>

definition bounded_error_message :: "jsstr \<Rightarrow> jsstr" where
  "bounded_error_message message =
     (if length message \<le> 500 then message else take 497 message @ js ''...'')"

definition protocol_version :: int where
  "protocol_version = 8"

definition is_supported_protocol_version :: "jsnum \<Rightarrow> bool" where
  "is_supported_protocol_version version \<longleftrightarrow>
     num_is_integer version \<and> num_eq version (NInt protocol_version)"

text \<open>\<open>parseClientMessage\<close> and \<open>parseServerMessage\<close> of a value that is sent: the schema, then \<open>isJsonValue\<close>.\<close>

definition parse_message :: "(heap \<Rightarrow> jsval \<Rightarrow> bool) \<Rightarrow> heap \<Rightarrow> jsval \<Rightarrow> message_error + unit" where
  "parse_message schema h v = require InvalidMessage (schema h v \<and> is_json_value h v)"

definition frame_options :: "jsnum option \<Rightarrow> cbor_options" where
  "frame_options max_frame =
     \<lparr>opt_bytes = Some (or_default max_frame default_max_frame_length), opt_container = None, opt_depth = None\<rparr>"

definition encode_protocol_message ::
  "(heap \<Rightarrow> jsval \<Rightarrow> bool) \<Rightarrow> jsnum option \<Rightarrow> heap \<Rightarrow> jsval \<Rightarrow> message_error + byte list" where
  "encode_protocol_message schema max_frame h v =
     rbind (parse_message schema h v) (\<lambda>_.
       case encode_cbor h (frame_options max_frame) v of
         Inl e \<Rightarrow> Inl (UnableToEncode e)
       | Inr payload \<Rightarrow>
           (case encode_frame payload of
              Inl e \<Rightarrow> Inl (UnableToFrame e)
            | Inr bs \<Rightarrow> Inr bs))"

section \<open>The decoder\<close>

text \<open>
  Containers a decoder builds are plain and fresh, so \<open>isJsonValue\<close> only looks for byte strings and
  numbers that are not finite.
\<close>

fun json_tree :: "tree \<Rightarrow> bool" where
  "json_tree (TBytes _) = False"
| "json_tree (TNum n) = num_is_finite n"
| "json_tree (TArr ts) = list_all json_tree ts"
| "json_tree (TObj kts) = list_all (\<lambda>(_, t). json_tree t) kts"
| "json_tree _ = True"

record message_decoder =
  md_failed :: bool
  md_frames :: frame_decoder
  md_max :: "jsnum option"

definition new_message_decoder :: "jsnum option \<Rightarrow> message_error + message_decoder" where
  "new_message_decoder max_frame =
     (case resolve_max_frame_length max_frame of
        Inl e \<Rightarrow> Inl (BadOptions e)
      | Inr limit \<Rightarrow> Inr \<lparr>md_failed = False, md_frames = new_frame_decoder limit, md_max = max_frame\<rparr>)"

fun decode_messages :: "(tree \<Rightarrow> bool) \<Rightarrow> jsnum option \<Rightarrow> byte list list \<Rightarrow> message_error + tree list" where
  "decode_messages schema max_frame [] = Inr []"
| "decode_messages schema max_frame (frame # frames) =
     (case decode_cbor (frame_options max_frame) frame of
        Inl e \<Rightarrow> Inl (BadPayload e)
      | Inr t \<Rightarrow>
          (if schema t \<and> json_tree t
           then rbind (decode_messages schema max_frame frames) (\<lambda>ts. Inr (t # ts))
           else Inl InvalidMessage))"

definition push_messages ::
  "(tree \<Rightarrow> bool) \<Rightarrow> byte list \<Rightarrow> message_decoder \<Rightarrow> (message_decoder \<times> (message_error + tree list)) option" where
  "push_messages schema chunk d =
     (if md_failed d then Some (d, Inl DecoderHasFailed)
      else map_option (\<lambda>(frames, r).
        case (case r of Inl e \<Rightarrow> Inl (BadFrame e) | Inr fs \<Rightarrow> decode_messages schema (md_max d) fs) of
          Inl e \<Rightarrow> (d\<lparr>md_failed := True, md_frames := frames\<rparr>, Inl e)
        | Inr ts \<Rightarrow> (d\<lparr>md_frames := frames\<rparr>, Inr ts))
        (push_frames chunk (md_frames d)))"

definition end_messages :: "message_decoder \<Rightarrow> message_decoder \<times> (message_error + unit)" where
  "end_messages d =
     (if md_failed d then (d, Inl DecoderHasFailed)
      else let (frames, r) = end_frames (md_frames d) in
        case r of
          Inl e \<Rightarrow> (d\<lparr>md_failed := True, md_frames := frames\<rparr>, Inl (BadFrame e))
        | Inr _ \<Rightarrow> (d\<lparr>md_frames := frames\<rparr>, Inr ()))"

section \<open>Properties\<close>

text \<open>
  A message decoder that has failed refuses every later chunk and the end of the stream.\<close>

theorem failed_stays_failed:
  assumes "push_messages schema chunk d = Some (d', Inl e)"
  shows "push_messages schema' chunk' d' = Some (d', Inl DecoderHasFailed) \<and>
    end_messages d' = (d', Inl DecoderHasFailed)"
proof -
  have "md_failed d'"
  proof (cases "md_failed d")
    case False
    then obtain fd r where fd: "push_frames chunk (md_frames d) = Some (fd, r)"
      using assms by (auto simp: push_messages_def)
    define q where "q = (case r of Inl e \<Rightarrow> Inl (BadFrame e) | Inr fs \<Rightarrow> decode_messages schema (md_max d) fs)"
    show ?thesis
      using assms False fd by (cases q) (auto simp: push_messages_def q_def [symmetric])
  qed (use assms in \<open>simp add: push_messages_def\<close>)
  then show ?thesis
    by (simp add: push_messages_def end_messages_def)
qed

theorem failed_stays_failed_witness:
  "\<exists>d' n. push_messages (\<lambda>_. True) [0, 0, 0, 9] \<lparr>md_failed = False, md_frames = new_frame_decoder 1, md_max = Some (NInt 1)\<rparr>
      = Some (d', Inl (BadFrame (FrameTooLong n))) \<and>
    push_messages (\<lambda>_. True) [0] d' = Some (d', Inl DecoderHasFailed)"
proof -
  have "split_frames 1 [0, 0, 0, 9] = None"
    by (subst split_frames.simps) (simp add: big_endian_def)
  then obtain fd n where "push_frames [0, 0, 0, 9] (new_frame_decoder 1) = Some (fd, Inl (FrameTooLong n))"
    using push_open [OF wf_new(1), of 1 "[0, 0, 0, 9]"] by (auto simp: pushed_def wf_new(2,3))
  then obtain d' where "push_messages (\<lambda>_. True) [0, 0, 0, 9]
      \<lparr>md_failed = False, md_frames = new_frame_decoder 1, md_max = Some (NInt 1)\<rparr> = Some (d', Inl (BadFrame (FrameTooLong n)))"
    by (simp add: push_messages_def)
  with failed_stays_failed [OF this, of "\<lambda>_. True" "[0]"] show ?thesis by blast
qed

text \<open>The stream of a sender, received in any chunks.\<close>

fun push_message_chunks ::
  "(tree \<Rightarrow> bool) \<Rightarrow> byte list list \<Rightarrow> message_decoder \<Rightarrow> (message_decoder \<times> (message_error + tree list)) option" where
  "push_message_chunks schema [] d = Some (d, Inr [])"
| "push_message_chunks schema (c # cs) d =
     Option.bind (push_messages schema c d) (\<lambda>(d, r). case r of
         Inl e \<Rightarrow> Some (d, Inl e)
       | Inr ts \<Rightarrow> map_option (\<lambda>(d, r). (d, rbind r (\<lambda>us. Inr (ts @ us)))) (push_message_chunks schema cs d))"

lemma decode_messages_append:
  "decode_messages schema max_frame (xs @ ys) =
     rbind (decode_messages schema max_frame xs) (\<lambda>ts.
     rbind (decode_messages schema max_frame ys) (\<lambda>us. Inr (ts @ us)))"
  by (induction xs) (auto simp: rbind_def split: sum.splits)

lemma push_message_chunks_frames:
  assumes "push_chunks chunks (md_frames d) = Some (fd, Inr frames)" and "\<not> md_failed d"
    and "decode_messages schema (md_max d) frames = Inr ts"
  shows "push_message_chunks schema chunks d = Some (d\<lparr>md_frames := fd\<rparr>, Inr ts)"
  using assms
proof (induction chunks arbitrary: d frames ts)
  case (Cons c cs)
  obtain fd1 r where r: "push_frames c (md_frames d) = Some (fd1, r)"
    using Cons.prems(1) by (auto simp: bind_eq_Some_conv)
  with Cons.prems(1) obtain fs gs where f: "push_frames c (md_frames d) = Some (fd1, Inr fs)"
    "push_chunks cs fd1 = Some (fd, Inr gs)" "frames = fs @ gs"
    by (cases r) (auto simp: rbind_Inr_conv)
  obtain us vs where d: "decode_messages schema (md_max d) fs = Inr us"
    "decode_messages schema (md_max d) gs = Inr vs" "ts = us @ vs"
    using Cons.prems(3) f(3) by (auto simp: decode_messages_append rbind_Inr_conv)
  have "push_message_chunks schema cs (d\<lparr>md_frames := fd1\<rparr>) = Some (d\<lparr>md_frames := fd\<rparr>, Inr vs)"
    using Cons.IH [of "d\<lparr>md_frames := fd1\<rparr>" gs vs] f(2) Cons.prems(2) d(2) by simp
  then show ?case
    using f(1) Cons.prems(2) d(1,3) by (simp add: push_messages_def)
qed auto

lemma json_value_tree:
  "denotes h v t \<Longrightarrow> check_value h v ancestors \<Longrightarrow> json_tree t"
  "denotes_elems h ds ts \<Longrightarrow> check_elems h ds ancestors \<Longrightarrow> list_all json_tree ts"
  "denotes_entries h es kts \<Longrightarrow> (\<forall>(k, v) \<in> set es. \<exists>ancestors. check_value h v ancestors) \<Longrightarrow>
     list_all (\<lambda>(_, t). json_tree t) kts"
proof (induction arbitrary: ancestors and ancestors rule: denotes_denotes_elems_denotes_entries.inducts)
  case (denotes_arr a p ds others ts)
  then show ?case by (auto split: if_splits)
next
  case (denotes_obj a p props kts)
  have "check_props h props (a # ancestors)"
    using denotes_obj.prems denotes_obj.IH(1) by (auto split: if_splits)
  then have "\<forall>(k, v) \<in> set (entries props). \<exists>ancestors. check_value h v ancestors"
    by (induction props rule: entries.induct) (auto split: if_splits)
  then show ?case
    using denotes_obj.IH(3) by simp
qed (auto split: if_splits)

text \<open>
  C33: A decoder that receives the messages a sender encoded under the same limit, cut into any chunks,
  returns the trees the values sent unfold to, and accepts the end of the stream. The schema check of
  the receiver is only assumed to accept a tree when the sender's accepted a value that unfolds to it.\<close>

theorem messages_roundtrip:
  assumes "wf_heap h" and "list_all wf_value vs"
    and schemas: "\<And>v t. sent_schema h v \<Longrightarrow> denotes h v t \<Longrightarrow> received_schema t"
    and encoded: "list_all2 (\<lambda>v bs. encode_protocol_message sent_schema max_frame h v = Inr bs) vs encoded"
    and chunks: "concat chunks = concat encoded"
    and d: "new_message_decoder max_frame = Inr d"
  shows "\<exists>d1 d2 ts. push_message_chunks received_schema chunks d = Some (d1, Inr ts) \<and>
    list_all2 (denotes h) vs ts \<and> end_messages d1 = (d2, Inr ())"
proof -
  obtain limit where limit: "resolve_max_frame_length max_frame = Inr limit"
    and d_def: "d = \<lparr>md_failed = False, md_frames = new_frame_decoder limit, md_max = max_frame\<rparr>"
    using d by (auto simp: new_message_decoder_def split: sum.split_asm)
  have bytes: "max_bytes opts = limit" if "resolve_options (frame_options max_frame) = Inr opts" for opts
    using that limit
    by (auto simp: resolve_options_def frame_options_def rbind_Inr_conv resolve_max_frame_length_def resolve_limit_def
        or_default_def default_max_frame_length_def split: option.split_asm jsnum.split_asm if_split_asm)
  have one: "\<exists>payload t. encode_frame payload = Inr bs \<and> length payload \<le> limit \<and> denotes h v t \<and>
      decode_cbor (frame_options max_frame) payload = Inr t \<and> received_schema t \<and> json_tree t"
    if v: "wf_value v" "encode_protocol_message sent_schema max_frame h v = Inr bs" for v bs
  proof -
    obtain payload where p: "sent_schema h v" "is_json_value h v" "encode_cbor h (frame_options max_frame) v = Inr payload"
      "encode_frame payload = Inr bs"
      using v(2)
      by (auto simp: encode_protocol_message_def parse_message_def rbind_Inr_conv split: sum.split_asm)
    obtain opts t where t: "resolve_options (frame_options max_frame) = Inr opts" "denotes h v t" "fits opts 0 t"
      "length (tree_bytes t) \<le> max_bytes opts" "payload = tree_bytes t"
      using p(3) encode_cbor_meaning by blast
    have "decode_cbor (frame_options max_frame) payload = Inr t"
      using t decode_tree_bytes [OF t(1,3) denotes_wf(1) [OF t(2) assms(1) v(1)] t(4)] by simp
    moreover have "json_tree t"
      using json_value_tree(1) [OF t(2)] p(2) by (simp add: is_json_value_def)
    ultimately show ?thesis
      using p(1,4) t bytes schemas by metis
  qed
  have "\<exists>payloads ts. list_all2 (\<lambda>payload bs. encode_frame payload = Inr bs) payloads encoded \<and>
      list_all (\<lambda>payload. length payload \<le> limit) payloads \<and> list_all2 (denotes h) vs ts \<and>
      decode_messages received_schema max_frame payloads = Inr ts"
    using encoded assms(2)
  proof (induction rule: list_all2_induct)
    case Nil
    then show ?case by simp
  next
    case (Cons v vs bs encoded)
    then obtain payloads ts where IH: "list_all2 (\<lambda>payload bs. encode_frame payload = Inr bs) payloads encoded"
      "list_all (\<lambda>payload. length payload \<le> limit) payloads" "list_all2 (denotes h) vs ts"
      "decode_messages received_schema max_frame payloads = Inr ts" by auto
    from one [of v bs] Cons obtain payload t where "encode_frame payload = Inr bs" "length payload \<le> limit"
      "denotes h v t" "decode_cbor (frame_options max_frame) payload = Inr t" "received_schema t" "json_tree t" by auto
    then show ?case
      using IH by (intro exI [of _ "payload # payloads"] exI [of _ "t # ts"]) simp
  qed
  then obtain payloads ts where p: "list_all2 (\<lambda>payload bs. encode_frame payload = Inr bs) payloads encoded"
    "list_all (\<lambda>payload. length payload \<le> limit) payloads" "list_all2 (denotes h) vs ts"
    "decode_messages received_schema max_frame payloads = Inr ts" by blast
  obtain fd fd' where f: "push_chunks chunks (new_frame_decoder limit) = Some (fd, Inr payloads)"
    "end_frames fd = (fd', Inr ())"
    using encoded_frames_roundtrip [OF p(1,2) chunks] by blast
  have "push_message_chunks received_schema chunks d = Some (d\<lparr>md_frames := fd\<rparr>, Inr ts)"
    using f(1) p(4) by (intro push_message_chunks_frames) (simp_all add: d_def)
  moreover have "end_messages (d\<lparr>md_frames := fd\<rparr>) = (d\<lparr>md_frames := fd'\<rparr>, Inr ())"
    using f(2) by (simp add: end_messages_def d_def)
  ultimately show ?thesis
    using p(3) by blast
qed

text \<open>A boolean message of one byte, cut in its header.\<close>

theorem messages_roundtrip_witness:
  "\<exists>d1 d2 ts. push_message_chunks (\<lambda>t. t \<noteq> TNull) [[0, 0], [0, 1, 0xF5]]
      \<lparr>md_failed = False, md_frames = new_frame_decoder 8, md_max = Some (NInt 8)\<rparr> = Some (d1, Inr ts) \<and>
    list_all2 (denotes []) [VBool True] ts \<and> end_messages d1 = (d2, Inr ())"
proof (rule messages_roundtrip [where sent_schema = "\<lambda>h v. v \<noteq> VNull" and max_frame = "Some (NInt 8)" and
      encoded = "[[0, 0, 0, 1, 0xF5]]"])
  have "resolve_options (frame_options (Some (NInt 8))) = Inr \<lparr>max_bytes = 8, max_container = 1000000, max_depth = 64\<rparr>"
    by (simp add: frame_options_def resolve_options_def resolve_limit_def or_default_def default_max_container_def
        default_max_depth_def max_uint32_def max_configured_depth_def max_safe_def)
  then have "encode_cbor [] (frame_options (Some (NInt 8))) (VBool True) = Inr [0xF5]"
    unfolding encode_cbor_meaning
    by (intro exI [of _ "\<lparr>max_bytes = 8, max_container = 1000000, max_depth = 64\<rparr>"] exI [of _ "TBool True"])
      (simp add: denotes_bool)
  then show "list_all2 (\<lambda>v bs. encode_protocol_message (\<lambda>h v. v \<noteq> VNull) (Some (NInt 8)) [] v = Inr bs) [VBool True]
      [[0, 0, 0, 1, 0xF5]]"
    by (simp add: encode_protocol_message_def parse_message_def is_json_value_def encode_frame_def set_at_def
        frame_header_length_def max_frame_uint32_def be32_def)
  show "\<And>v t. v \<noteq> VNull \<Longrightarrow> denotes [] v t \<Longrightarrow> t \<noteq> TNull"
    by (auto elim: denotes.cases)
qed (simp_all add: wf_heap_def new_message_decoder_def resolve_max_frame_length_def max_frame_uint32_def max_safe_def)

text \<open>
  The text an error message is cut to never passes 500 code units.\<close>

theorem bounded_error_message_length: "length (bounded_error_message message) \<le> 500"
  by (simp add: bounded_error_message_def js_def)

end
