(* ===== verification/LinkMessages.thy ===== *)
theory LinkMessages
  imports Bytes
begin

text \<open>
  The messages of a link and their parts (\<open>packages/chord/src/next/link/message.ts\<close> and
  \<open>part.ts\<close>). JSON values inside a message are opaque: \<open>'j\<close> is their type.
\<close>

section \<open>Parts\<close>

datatype inflated = InflatedBytes "byte list" | InflatedTooLarge | InflatedCorrupt

datatype part =
    TextPart jsstr
  | BytesPart "byte list"
  | DeflatedPart "byte list" "inflated option"

datatype part_error = TooLargePart bool \<comment> \<open>whether the wire limit was passed\<close> | NotInflated | NoDeflateStream

text \<open>Limits in bytes; \<open>None\<close> is \<open>Infinity\<close>.\<close>

record part_limits =
  limit_part :: "nat option"
  limit_decoded :: "nat option"

definition link_limits :: "bool \<Rightarrow> nat option option \<Rightarrow> nat option option \<Rightarrow> part_limits" where
  "link_limits trusted part decoded =
     (let default_part = (if trusted then None else Some (16 * 1024 * 1024));
          default_decoded = (if trusted then None else Some (64 * 1024 * 1024))
      in \<lparr>limit_part = (case part of None \<Rightarrow> default_part | Some l \<Rightarrow> l),
          limit_decoded = (case decoded of None \<Rightarrow> default_decoded | Some l \<Rightarrow> l)\<rparr>)"

text \<open>
  The loop of \<open>sizeOf\<close> over a text, from the size \<open>part.length\<close>: what each unit adds beyond one byte.
\<close>

fun extra_bytes :: "jsstr \<Rightarrow> nat" where
  "extra_bytes [] = 0"
| "extra_bytes (u # us) =
     (if unat u < 0x80 then extra_bytes us
      else if unat u < 0x800 then 1 + extra_bytes us
      else if lead_unit u \<and> (case us of v # _ \<Rightarrow> v AND 0xFC00 = 0xDC00 | [] \<Rightarrow> False)
        then 2 + extra_bytes (tl us)
      else 2 + extra_bytes us)"

definition size_of :: "part \<Rightarrow> nat" where
  "size_of p =
     (case p of
        TextPart s \<Rightarrow> length s + extra_bytes s
      | BytesPart bs \<Rightarrow> length bs
      | DeflatedPart bs _ \<Rightarrow> length bs)"

definition above :: "nat \<Rightarrow> nat option \<Rightarrow> bool" where
  "above n limit = (case limit of None \<Rightarrow> False | Some l \<Rightarrow> l < n)"

definition oversized :: "part \<Rightarrow> nat option \<Rightarrow> part_error option" where
  "oversized p limit =
     (case limit of
        None \<Rightarrow> None
      | Some l \<Rightarrow> (if l < size_of p then Some (TooLargePart True) else None))"

text \<open>A compressor is code outside the repository: \<open>inflate\<close> takes the bytes and the decoded limit.\<close>

definition open_part ::
  "part \<Rightarrow> part_limits \<Rightarrow> (byte list \<Rightarrow> nat option \<Rightarrow> inflated) option \<Rightarrow> part_error + part" where
  "open_part p limits compression =
     (case oversized p (limit_part limits) of
        Some e \<Rightarrow> Inl e
      | None \<Rightarrow>
          (case p of
             DeflatedPart bs outcome \<Rightarrow>
               (case (case outcome of Some r \<Rightarrow> Some r
                      | None \<Rightarrow> map_option (\<lambda>inflate. inflate bs (limit_decoded limits)) compression) of
                  None \<Rightarrow> Inl NotInflated
                | Some (InflatedBytes out) \<Rightarrow> Inr (BytesPart out)
                | Some InflatedTooLarge \<Rightarrow> Inl (TooLargePart False)
                | Some InflatedCorrupt \<Rightarrow> Inl NoDeflateStream)
           | _ \<Rightarrow>
               (let n = (if limit_decoded limits = None then 0 else size_of p)
                in if above n (limit_decoded limits) then Inl (TooLargePart False) else Inr p)))"

definition compress_above :: nat where
  "compress_above = 16 * 1024"

definition origin_part :: "jsstr \<Rightarrow> (byte list \<Rightarrow> byte list) option \<Rightarrow> part" where
  "origin_part json deflate =
     (case deflate of
        None \<Rightarrow> TextPart json
      | Some deflate \<Rightarrow>
          (if length json * 3 \<le> compress_above then TextPart json
           else let bs = utf8_encode json in
             if length bs \<le> compress_above then BytesPart bs
             else let deflated = deflate bs in
               if length deflated < length bs then DeflatedPart deflated None else BytesPart bs))"

text \<open>The loop of \<open>inflateAsync\<close> over the chunks of the decompressor, up to the decoded limit.\<close>

fun collect_chunks :: "nat option \<Rightarrow> nat \<Rightarrow> byte list list \<Rightarrow> byte list list \<Rightarrow> inflated" where
  "collect_chunks limit n acc [] = InflatedBytes (concat (rev acc))"
| "collect_chunks limit n acc (chunk # chunks) =
     (if above (n + length chunk) limit then InflatedTooLarge
      else collect_chunks limit (n + length chunk) (chunk # acc) chunks)"

section \<open>Messages\<close>

datatype cause_kind = Transient | Broken | Waiting

type_synonym 'j failed_member = "nat \<times> 'j"

record 'j bound_entry =
  be_hold :: nat
  be_variant :: nat
  be_members :: "(nat \<times> part) list"
  be_failed :: "'j failed_member list"

record 'j state_entry =
  se_hold :: nat
  se_members :: "(nat \<times> part) list"
  se_failed :: "'j failed_member list"
  se_retired :: "nat list"

record 'j hold_message =
  hm_hold :: nat
  hm_type :: jsstr
  hm_version :: nat
  hm_fingerprint :: jsstr
  hm_params :: part
  hm_address_kind :: jsstr
  hm_address_params :: 'j
  hm_principal :: "'j option"
  hm_incarnation :: "jsstr option"
  hm_chain :: "jsstr list option"
  hm_limit :: "nat option"

datatype 'j body =
    Hello nat jsstr nat
  | Hold "'j hold_message"
  | Release nat
  | Call nat nat nat "part option" "byte list list option"
  | Abort nat
  | Bound "'j bound_entry list"
  | State "'j state_entry list"
  | FailedHold nat cause_kind 'j "nat option"
  | Result nat "part option" "byte list list option"
  | ErrorReply nat 'j
  | Gone nat 'j
  | Retry nat nat
  | Loading nat
  | Ack
  | Closed
  | Ping
  | Pong
  | Revoke 'j

text \<open>A message is its origin, when it carries one, and its kind with the fields of that kind.\<close>

type_synonym 'j message = "nat option \<times> 'j body"

section \<open>The size of a part\<close>

lemma div_1024: "n div 1024 = 55 \<longleftrightarrow> 0xDC00 \<le> n \<and> n < (0xE000 :: nat)"
proof
  assume "n div 1024 = 55"
  then show "0xDC00 \<le> n \<and> n < 0xE000"
    using div_mult_mod_eq [of n 1024] mod_less_divisor [of 1024 n] by linarith
qed (auto intro: div_nat_eqI)

lemma trail_and: "v AND 0xFC00 = (0xDC00 :: 16 word) \<longleftrightarrow> trail_unit v"
proof -
  have "unat v AND push_bit 10 (mask 6) = push_bit 10 (take_bit 6 (drop_bit 10 (unat v)))"
    by (rule bit_eqI) (auto simp: bit_simps)
  moreover have "push_bit 10 (mask 6) = (0xFC00 :: nat)"
    by (simp add: mask_eq_exp_minus_1 push_bit_eq_mult)
  moreover have "unat v div 1024 < 64"
    using unat16_bound [of v] by (simp add: div_less_iff_less_mult)
  ultimately have "unat v AND 0xFC00 = unat v div 1024 * 1024"
    by (simp add: take_bit_eq_mod drop_bit_eq_div push_bit_eq_mult)
  then have "unat (v AND 0xFC00) = unat v div 1024 * 1024"
    by (simp add: unsigned_and_eq)
  moreover have "unat v div 1024 * 1024 = 0xDC00 \<longleftrightarrow> unat v div 1024 = 55"
    by simp
  moreover have "unat v div 1024 = 55 \<longleftrightarrow> 0xDC00 \<le> unat v \<and> unat v < 0xE000"
    by (rule div_1024)
  ultimately show ?thesis
    by (simp add: word_unat_eq_iff trail_unit_def)
qed

lemma extra_bytes_utf8: "length s + extra_bytes s = length (utf8_encode s)"
proof (induction s rule: scalars.induct)
  case (2 u us)
  have point: "length (point_bytes (unat w)) = (if unat w < 0x80 then 1 else if unat w < 0x800 then 2 else 3)"
    for w :: "16 word"
    using unat16_bound [of w] by (simp add: point_bytes_def)
  have big: "length (point_bytes (pair_point u v)) = 4" for v
    by (simp add: point_bytes_def pair_point_def)
  have repl: "length (point_bytes 0xFFFD) = 3"
    by (simp add: point_bytes_def)
  have surrogate: "\<not> unat w < 0x800" if "lead_unit w \<or> trail_unit w" for w
    using that by (auto simp: lead_unit_def trail_unit_def)
  show ?case
  proof (cases "lead_unit u")
    case True
    then show ?thesis
    proof (cases us)
      case (Cons v vs)
      show ?thesis
      proof (cases "trail_unit v")
        case True
        then show ?thesis
          using 2(1) Cons \<open>lead_unit u\<close> surrogate [of u] big by (simp add: utf8_encode_def trail_and)
      next
        case False
        then show ?thesis
          using 2(2) Cons \<open>lead_unit u\<close> surrogate [of u] repl by (simp add: utf8_encode_def trail_and)
      qed
    qed (use repl surrogate [of u] in \<open>simp add: utf8_encode_def\<close>)
  next
    case False
    then show ?thesis
      using 2(3,4) surrogate [of u] repl point [of u] by (cases "trail_unit u") (auto simp: utf8_encode_def)
  qed
qed (simp add: utf8_encode_def)

text \<open>
  \<open>sizeOf\<close> counts the UTF-8 bytes of a text without encoding it, lone surrogates included.\<close>

theorem size_of_text: "size_of (TextPart s) = length (utf8_encode s)"
  by (simp add: size_of_def extra_bytes_utf8)

text \<open>
  An opened part is within both limits: a part that is not deflated by its own size, and a deflated
  one as long as the compressor keeps to the limit it is given.\<close>

theorem open_part_within_limits:
  assumes "open_part p limits compression = Inr out"
    and "\<And>inflate bs limit n. compression = Some inflate \<Longrightarrow> inflate bs limit = InflatedBytes n \<Longrightarrow> \<not> above (length n) limit"
    and "\<And>bs n. p = DeflatedPart bs (Some (InflatedBytes n)) \<Longrightarrow> \<not> above (length n) (limit_decoded limits)"
  shows "\<not> above (size_of p) (limit_part limits) \<and> \<not> above (size_of out) (limit_decoded limits)"
proof (cases p)
  case (DeflatedPart bs outcome)
  have wire: "oversized p (limit_part limits) = None"
    using assms(1) by (auto simp: open_part_def split: option.splits)
  obtain n where n: "out = BytesPart n" "outcome = Some (InflatedBytes n) \<or>
      (outcome = None \<and> (\<exists>inflate. compression = Some inflate \<and> inflate bs (limit_decoded limits) = InflatedBytes n))"
    using assms(1) DeflatedPart wire
    by (auto simp: open_part_def split: option.split_asm inflated.split_asm)
  then have "\<not> above (length n) (limit_decoded limits)"
    using assms(2,3) DeflatedPart by blast
  then show ?thesis
    using wire n(1) by (auto simp: oversized_def above_def size_of_def split: option.splits if_splits)
qed (use assms(1) in \<open>auto simp: open_part_def oversized_def above_def Let_def split: option.splits if_splits\<close>)

theorem open_part_within_limits_witness:
  "\<not> above (size_of (DeflatedPart [1, 2] None)) (Some 4) \<and> \<not> above (size_of (BytesPart [1, 2])) (Some 9)"
  using open_part_within_limits [of "DeflatedPart [1, 2] None" "\<lparr>limit_part = Some 4, limit_decoded = Some 9\<rparr>"
      "Some (\<lambda>bs limit. if above (length bs) limit then InflatedTooLarge else InflatedBytes bs)" "BytesPart [1, 2]"]
  by (simp add: open_part_def oversized_def above_def size_of_def split: if_splits)

end
