(* ===== verification/LinkWriter.thy ===== *)
theory LinkWriter
  imports LinkMessages
begin

text \<open>
  The writer of the binary codec (\<open>packages/chord/src/next/link/binary.ts\<close>): one growing buffer, into
  which texts are encoded in place. A store past the end of a typed array is ignored, as
  \<open>list_update\<close> does. Every operation is shown to append certain bytes.
\<close>

section \<open>The buffer\<close>

record writer =
  w_buffer :: "byte list"
  w_length :: nat

definition new_link_writer :: writer where
  "new_link_writer = \<lparr>w_buffer = replicate 256 0, w_length = 0\<rparr>"

definition spare :: nat where
  "spare = 4096"

definition reserve :: "nat \<Rightarrow> writer \<Rightarrow> writer" where
  "reserve n w =
     (if w_length w + n \<le> length (w_buffer w) then w
      else w\<lparr>w_buffer := set_at 0 (take (w_length w) (w_buffer w))
               (replicate (max (length (w_buffer w) * 2) (w_length w + n + spare)) 0)\<rparr>)"

definition put_byte :: "byte \<Rightarrow> writer \<Rightarrow> writer" where
  "put_byte b w = w\<lparr>w_buffer := (w_buffer w)[w_length w := b], w_length := w_length w + 1\<rparr>"

definition w_byte :: "byte \<Rightarrow> writer \<Rightarrow> writer" where
  "w_byte b w = put_byte b (reserve 1 w)"

fun varint_loop :: "nat \<Rightarrow> writer \<Rightarrow> writer" where
  "varint_loop rest w =
     (if 0x80 \<le> rest then varint_loop (rest div 0x80) (put_byte (of_nat (rest mod 0x80) OR 0x80) w)
      else put_byte (of_nat rest) w)"

declare varint_loop.simps [simp del]

definition w_varint :: "nat \<Rightarrow> writer \<Rightarrow> writer" where
  "w_varint n w = varint_loop n (reserve 8 w)"

definition w_raw :: "byte list \<Rightarrow> writer \<Rightarrow> writer" where
  "w_raw bs w =
     (let w = reserve (length bs) w
      in w\<lparr>w_buffer := set_at (w_length w) bs (w_buffer w), w_length := w_length w + length bs\<rparr>)"

section \<open>Text\<close>

text \<open>The next scalar value of a text and how many units it takes.\<close>

fun next_scalar :: "jsstr \<Rightarrow> nat \<times> nat" where
  "next_scalar (u # v # us) =
     (if lead_unit u \<and> trail_unit v then (2, pair_point u v)
      else if lead_unit u \<or> trail_unit u then (1, 0xFFFD) else (1, unat u))"
| "next_scalar [u] = (if lead_unit u \<or> trail_unit u then (1, 0xFFFD) else (1, unat u))"
| "next_scalar [] = (0, 0)"

lemma next_scalar_pos: "us \<noteq> [] \<Longrightarrow> 0 < fst (next_scalar us) \<and> fst (next_scalar us) \<le> length us"
  by (cases us rule: next_scalar.cases) auto

text \<open>\<open>TextEncoder.encodeInto\<close>: the units read and the bytes written, whole scalar values within the room.\<close>

function encode_into :: "jsstr \<Rightarrow> nat \<Rightarrow> nat \<times> byte list" where
  "encode_into us room =
     (if us = [] then (0, [])
      else let bs = point_bytes (snd (next_scalar us)) in
        if length bs \<le> room
        then let (m, out) = encode_into (drop (fst (next_scalar us)) us) (room - length bs)
             in (fst (next_scalar us) + m, bs @ out)
        else (0, []))"
  by pat_completeness auto
termination
  by (relation "measure (\<lambda>(us, _). length us)") (auto dest: next_scalar_pos)

declare encode_into.simps [simp del]

lemma scalars_next: "us \<noteq> [] \<Longrightarrow> scalars us = snd (next_scalar us) # scalars (drop (fst (next_scalar us)) us)"
  by (cases us rule: next_scalar.cases) (auto split: list.splits)

lemma utf8_next:
  "us \<noteq> [] \<Longrightarrow> utf8_encode us = point_bytes (snd (next_scalar us)) @ utf8_encode (drop (fst (next_scalar us)) us)"
  by (simp add: utf8_encode_def scalars_next)

lemma length_point_bytes: "length (point_bytes c) \<le> 4" "0 < length (point_bytes c)"
  by (simp_all add: point_bytes_def)

lemma encode_into_split:
  "encode_into us room = (n, out) \<Longrightarrow>
   n \<le> length us \<and> length out \<le> room \<and> utf8_encode us = out @ utf8_encode (drop n us) \<and> (us \<noteq> [] \<longrightarrow> 4 \<le> room \<longrightarrow> 0 < n)"
proof (induction us room arbitrary: n out rule: encode_into.induct)
  case (1 us room)
  show ?case
  proof (cases "us \<noteq> [] \<and> length (point_bytes (snd (next_scalar us))) \<le> room")
    case True
    obtain m out' where m: "encode_into (drop (fst (next_scalar us)) us) (room - length (point_bytes (snd (next_scalar us)))) = (m, out')"
      by force
    have "n = fst (next_scalar us) + m" "out = point_bytes (snd (next_scalar us)) @ out'"
      using "1.prems" True m by (simp_all add: encode_into.simps [of us room] Let_def)
    then show ?thesis
      using "1.IH" [OF _ refl _ m] True next_scalar_pos [of us] utf8_next [of us]
      by (auto simp: drop_drop add.commute)
  next
    case False
    then show ?thesis
      using "1.prems" length_point_bytes(1) [of "snd (next_scalar us)"]
      by (auto simp: encode_into.simps [of us room] Let_def utf8_encode_def split: if_splits)
  qed
qed

lemma encode_into_full:
  "length (utf8_encode us) \<le> room \<Longrightarrow> encode_into us room = (length us, utf8_encode us)"
proof (induction us room rule: encode_into.induct)
  case (1 us room)
  show ?case
  proof (cases "us = []")
    case False
    then have "encode_into (drop (fst (next_scalar us)) us) (room - length (point_bytes (snd (next_scalar us))))
        = (length us - fst (next_scalar us), utf8_encode (drop (fst (next_scalar us)) us))"
      using 1 by (simp add: utf8_next)
    then show ?thesis
      using False next_scalar_pos [of us] "1.prems" by (simp add: encode_into.simps [of us room] Let_def utf8_next)
  qed (simp add: encode_into.simps utf8_encode_def)
qed

definition short_text :: nat where
  "short_text = 42"

definition long_text :: nat where
  "long_text = 4096"

definition length_slot :: nat where
  "length_slot = 5"

definition w_store :: "byte list \<Rightarrow> writer \<Rightarrow> writer" where
  "w_store bs w = w\<lparr>w_buffer := set_at (w_length w) bs (w_buffer w), w_length := w_length w + length bs\<rparr>"

text \<open>The loop over a long text: as much as fits, then more room for the rest.\<close>

function text_loop :: "jsstr \<Rightarrow> writer \<Rightarrow> writer" where
  "text_loop us w =
     (if us = [] then w
      else let (n, out) = encode_into us (length (w_buffer w) - w_length w);
               rest = drop n us; w = w_store out w
        in if rest = [] then w else text_loop rest (reserve (max (length rest * 2) 4) w))"
  by pat_completeness auto
termination
proof (relation "measures [\<lambda>(us, _). length us, \<lambda>(_, w). if 4 \<le> length (w_buffer w) - w_length w then 0 else 1]",
    goal_cases)
  case (2 us w x n out rest w1)
  from 2 have e: "encode_into us (length (w_buffer w) - w_length w) = (n, out)" "us \<noteq> []" by simp_all
  have room: "4 \<le> length (w_buffer w2) - w_length w2" if "w2 = reserve (max (length rest * 2) 4) w1" for w2
    using that by (auto simp: reserve_def set_at_def)
  show ?case
  proof (cases "0 < n")
    case True
    then show ?thesis
      using 2 by (simp add: e)
  next
    case False
    then have "\<not> 4 \<le> length (w_buffer w) - w_length w"
      using encode_into_split [OF e(1)] e(2) by blast
    then show ?thesis
      using False 2 room by simp
  qed
qed simp

declare text_loop.simps [simp del]

fun write_slot :: "nat \<Rightarrow> nat \<Rightarrow> nat \<Rightarrow> writer \<Rightarrow> writer" where
  "write_slot at 0 n w = w"
| "write_slot at (Suc k) n w =
     write_slot (at + 1) k (n div 0x80)
       (w\<lparr>w_buffer := (w_buffer w)[at := of_nat (n mod 0x80) OR (if 0 < k then 0x80 else 0)]\<rparr>)"

definition w_text :: "nat \<Rightarrow> jsstr \<Rightarrow> writer \<Rightarrow> writer" where
  "w_text scale s w =
     (if length s \<le> short_text div scale then
        let w = reserve (1 + length s * 3) w;
            out = snd (encode_into s (length (w_buffer w) - (w_length w + 1)))
        in w\<lparr>w_buffer := (set_at (w_length w + 1) out (w_buffer w))[w_length w := of_nat (length out * scale)],
             w_length := w_length w + 1 + length out\<rparr>
      else if length s < long_text then
        let bs = utf8_encode s in w_raw bs (w_varint (length bs * scale) w)
      else
        let slot = w_length w;
            w = reserve (length_slot + length s) w;
            w = text_loop s (w\<lparr>w_length := w_length w + length_slot\<rparr>);
            n = (w_length w - slot - length_slot) * scale
        in write_slot slot length_slot n w)"

end
