(* ===== verification/LinkBytes.thy ===== *)
theory LinkBytes
  imports LinkWriter
begin

text \<open>
  What the binary codec's writer appends for each of its operations, whatever its buffer held.
\<close>

section \<open>Appending\<close>

definition wf_writer :: "writer \<Rightarrow> bool" where
  "wf_writer w \<longleftrightarrow> w_length w \<le> length (w_buffer w)"

definition written :: "writer \<Rightarrow> byte list" where
  "written w = take (w_length w) (w_buffer w)"

definition emits :: "(writer \<Rightarrow> writer) \<Rightarrow> byte list \<Rightarrow> bool" where
  "emits f bs \<longleftrightarrow> (\<forall>w. wf_writer w \<longrightarrow> wf_writer (f w) \<and> written (f w) = written w @ bs)"

lemma reserve_ok:
  "wf_writer w \<Longrightarrow> wf_writer (reserve n w) \<and> written (reserve n w) = written w \<and> w_length (reserve n w) = w_length w \<and>
   w_length w + n \<le> length (w_buffer (reserve n w))"
  by (auto simp: reserve_def wf_writer_def written_def set_at_def)

lemma store_ok:
  "w_length w + length bs \<le> length (w_buffer w) \<Longrightarrow>
   wf_writer (w_store bs w) \<and> written (w_store bs w) = written w @ bs \<and> w_length (w_store bs w) = w_length w + length bs \<and>
   length (w_buffer (w_store bs w)) = length (w_buffer w)"
  by (simp add: w_store_def wf_writer_def written_def take_set_at length_set_at)

lemma put_byte_store: "w_length w < length (w_buffer w) \<Longrightarrow> put_byte b w = w_store [b] w"
  by (simp add: put_byte_def w_store_def set_at_def upd_conv_take_nth_drop)

lemma emits_byte: "emits (w_byte b) [b]"
  unfolding emits_def
proof (intro allI impI)
  fix w assume "wf_writer w"
  from reserve_ok [OF this, of 1] store_ok [of "reserve 1 w" "[b]"]
  show "wf_writer (w_byte b w) \<and> written (w_byte b w) = written w @ [b]"
    by (simp add: w_byte_def put_byte_store)
qed

lemma emits_raw: "emits (w_raw bs) bs"
  unfolding emits_def
proof (intro allI impI)
  fix w assume "wf_writer w"
  from reserve_ok [OF this, of "length bs"] store_ok [of "reserve (length bs) w" bs]
  show "wf_writer (w_raw bs w) \<and> written (w_raw bs w) = written w @ bs"
    by (simp add: w_raw_def Let_def w_store_def)
qed

section \<open>Varints\<close>

fun varint_bytes :: "nat \<Rightarrow> byte list" where
  "varint_bytes n = (if 0x80 \<le> n then (of_nat (n mod 0x80) OR 0x80) # varint_bytes (n div 0x80) else [of_nat n])"

declare varint_bytes.simps [simp del]

lemma varint_bytes_nonempty: "0 < length (varint_bytes n)"
  by (subst varint_bytes.simps) simp

lemma varint_bytes_length: "n < 0x80 ^ Suc k \<Longrightarrow> length (varint_bytes n) \<le> Suc k"
proof (induction k arbitrary: n)
  case 0
  then show ?case by (subst varint_bytes.simps) simp
next
  case (Suc k)
  have "n div 0x80 < 0x80 ^ Suc k"
    using Suc.prems by (simp add: div_less_iff_less_mult mult.commute)
  then show ?case
    using Suc.IH by (subst varint_bytes.simps) auto
qed

definition max_varint :: nat where
  "max_varint = 2 ^ 53 - 1"

lemma varint_loop_ok:
  "w_length w + length (varint_bytes n) \<le> length (w_buffer w) \<Longrightarrow> varint_loop n w = w_store (varint_bytes n) w"
proof (induction n w rule: varint_loop.induct)
  case (1 n w)
  show ?case
  proof (cases "0x80 \<le> n")
    case True
    let ?b = "of_nat (n mod 0x80) OR 0x80 :: byte"
    have v: "varint_bytes n = ?b # varint_bytes (n div 0x80)"
      using True by (subst varint_bytes.simps) simp
    have room: "w_length w < length (w_buffer w)"
      using "1.prems" v by simp
    have s: "w_length (w_store [?b] w) = w_length w + 1" "length (w_buffer (w_store [?b] w)) = length (w_buffer w)"
      using store_ok [of w "[?b]"] room by simp_all
    have "varint_loop (n div 0x80) (w_store [?b] w) = w_store (varint_bytes (n div 0x80)) (w_store [?b] w)"
      using "1.IH" [OF True] "1.prems" v s room by (simp add: put_byte_store)
    also have "\<dots> = w_store (varint_bytes n) w"
      using "1.prems" v by (simp add: w_store_def set_at_def min_def add.commute)
    finally show ?thesis
      using True room by (subst varint_loop.simps) (simp add: put_byte_store)
  next
    case False
    then have "varint_bytes n = [of_nat n]"
      by (subst varint_bytes.simps) simp
    then show ?thesis
      using False "1.prems" by (subst varint_loop.simps) (simp add: put_byte_store)
  qed
qed

lemma emits_varint:
  assumes "n < 2 ^ 56"
  shows "emits (w_varint n) (varint_bytes n)"
  unfolding emits_def
proof (intro allI impI)
  fix w assume w: "wf_writer w"
  have "length (varint_bytes n) \<le> Suc 7"
    using assms by (intro varint_bytes_length) simp
  then have "w_length (reserve 8 w) + length (varint_bytes n) \<le> length (w_buffer (reserve 8 w))"
    using reserve_ok [OF w, of 8] by simp
  then show "wf_writer (w_varint n w) \<and> written (w_varint n w) = written w @ varint_bytes n"
    using reserve_ok [OF w, of 8] store_ok [of "reserve 8 w" "varint_bytes n"]
    by (simp add: w_varint_def varint_loop_ok)
qed

section \<open>Text\<close>

fun padded :: "nat \<Rightarrow> nat \<Rightarrow> byte list" where
  "padded 0 n = []"
| "padded (Suc k) n = (of_nat (n mod 0x80) OR (if 0 < k then 0x80 else 0)) # padded k (n div 0x80)"

lemma length_padded [simp]: "length (padded k n) = k"
  by (induction k arbitrary: n) simp_all

definition text_prefix :: "nat \<Rightarrow> jsstr \<Rightarrow> byte list" where
  "text_prefix scale s =
     (let n = length (utf8_encode s) * scale in
      if length s \<le> short_text div scale then [of_nat n]
      else if length s < long_text then varint_bytes n
      else padded length_slot n)"

lemma text_loop_ok:
  "wf_writer w \<Longrightarrow> wf_writer (text_loop us w) \<and> written (text_loop us w) = written w @ utf8_encode us \<and>
   w_length (text_loop us w) = w_length w + length (utf8_encode us)"
proof (induction us w rule: text_loop.induct)
  case (1 us w)
  show ?case
  proof (cases "us = []")
    case True
    then show ?thesis
      using "1.prems" by (simp add: text_loop.simps utf8_encode_def)
  next
    case False
    obtain n out where e: "encode_into us (length (w_buffer w) - w_length w) = (n, out)"
      by force
    have s: "n \<le> length us" "length out \<le> length (w_buffer w) - w_length w" "utf8_encode us = out @ utf8_encode (drop n us)"
      using encode_into_split [OF e] by simp_all
    define w1 where "w1 = w_store out w"
    have w1: "wf_writer w1" "written w1 = written w @ out" "w_length w1 = w_length w + length out"
      using store_ok [of w out] s(2) "1.prems" by (simp_all add: w1_def wf_writer_def)
    show ?thesis
    proof (cases "drop n us = []")
      case True
      have "text_loop us w = w1"
        using False e True by (subst text_loop.simps) (simp add: w1_def)
      moreover have "utf8_encode us = out"
        using s(3) True by (simp add: utf8_encode_def)
      ultimately show ?thesis
        using w1 by simp
    next
      case rest: False
      have "text_loop us w = text_loop (drop n us) (reserve (max (length (drop n us) * 2) 4) w1)"
        using False e rest by (subst text_loop.simps) (simp add: w1_def)
      moreover have "wf_writer (text_loop (drop n us) (reserve (max (length (drop n us) * 2) 4) w1)) \<and>
          written (text_loop (drop n us) (reserve (max (length (drop n us) * 2) 4) w1))
            = written (reserve (max (length (drop n us) * 2) 4) w1) @ utf8_encode (drop n us) \<and>
          w_length (text_loop (drop n us) (reserve (max (length (drop n us) * 2) 4) w1))
            = w_length (reserve (max (length (drop n us) * 2) 4) w1) + length (utf8_encode (drop n us))"
        using "1.IH" [OF False e [symmetric] refl refl _ ] rest reserve_ok [OF w1(1)] unfolding w1_def by blast
      ultimately show ?thesis
        using w1 s(3) reserve_ok [OF w1(1)] by simp
    qed
  qed
qed

lemma write_slot_ok:
  "at + k \<le> length (w_buffer w) \<Longrightarrow> write_slot at k n w = w\<lparr>w_buffer := set_at at (padded k n) (w_buffer w)\<rparr>"
proof (induction k arbitrary: at n w)
  case (Suc k)
  let ?b = "of_nat (n mod 0x80) OR (if 0 < k then 0x80 else 0) :: byte"
  have "(w_buffer w)[at := ?b] = take at (w_buffer w) @ [?b] @ drop (at + 1) (w_buffer w)"
    using Suc.prems by (simp add: upd_conv_take_nth_drop)
  then have "set_at (at + 1) (padded k (n div 0x80)) ((w_buffer w)[at := ?b])
      = set_at at (?b # padded k (n div 0x80)) (w_buffer w)"
    using Suc.prems by (simp add: set_at_def min_def add.commute)
  then show ?case
    using Suc by simp
qed (simp add: set_at_def)

lemma extra_bytes_le: "extra_bytes s \<le> 2 * length s"
proof (induction s rule: extra_bytes.induct)
  case (2 u us)
  then show ?case by (cases us) (auto simp del: extra_bytes.simps simp: extra_bytes.simps(2) [of u])
qed simp

lemma utf8_length_le: "length (utf8_encode s) \<le> 3 * length s"
  using extra_bytes_le [of s] extra_bytes_utf8 [of s] by linarith

lemma emits_text:
  assumes n: "length (utf8_encode s) * scale < 2 ^ 53" and scale: "scale = 1 \<or> scale = 2"
  shows "emits (w_text scale s) (text_prefix scale s @ utf8_encode s)"
  unfolding emits_def
proof (intro allI impI)
  fix w assume w: "wf_writer w"
  let ?n = "length (utf8_encode s) * scale"
  consider (short) "length s \<le> short_text div scale" | (middle) "\<not> length s \<le> short_text div scale" "length s < long_text"
    | (long) "\<not> length s \<le> short_text div scale" "\<not> length s < long_text" by blast
  then show "wf_writer (w_text scale s w) \<and> written (w_text scale s w) = written w @ text_prefix scale s @ utf8_encode s"
  proof cases
    case short
    define w1 where "w1 = reserve (1 + length s * 3) w"
    have w1: "written w1 = written w" "w_length w1 = w_length w" "w_length w1 + 1 + length (utf8_encode s) \<le> length (w_buffer w1)"
      using reserve_ok [OF w, of "1 + length s * 3"] utf8_length_le [of s] unfolding w1_def by simp_all
    have e: "encode_into s (length (w_buffer w1) - (w_length w1 + 1)) = (length s, utf8_encode s)"
      using w1(3) by (intro encode_into_full) simp
    have b: "(set_at (w_length w1 + 1) (utf8_encode s) (w_buffer w1))[w_length w1 := of_nat ?n]
        = set_at (w_length w1) (of_nat ?n # utf8_encode s) (w_buffer w1)"
      using w1(3) by (simp add: set_at_def upd_conv_take_nth_drop list_update_append min_def)
    have "w_text scale s w = w1\<lparr>w_buffer := (set_at (w_length w1 + 1)
          (snd (encode_into s (length (w_buffer w1) - (w_length w1 + 1)))) (w_buffer w1))[w_length w1 :=
          of_nat (length (snd (encode_into s (length (w_buffer w1) - (w_length w1 + 1)))) * scale)],
        w_length := w_length w1 + 1 + length (snd (encode_into s (length (w_buffer w1) - (w_length w1 + 1))))\<rparr>"
      by (simp only: w_text_def Let_def short if_True w1_def)
    then have "w_text scale s w = w_store (of_nat ?n # utf8_encode s) w1"
      unfolding e snd_conv b by (simp add: w_store_def)
    then show ?thesis
      using store_ok [of w1 "of_nat ?n # utf8_encode s"] w1 short by (simp add: text_prefix_def Let_def del: of_nat_mult)
  next
    case middle
    have "emits (\<lambda>w. w_raw (utf8_encode s) (w_varint ?n w)) (varint_bytes ?n @ utf8_encode s)"
      using emits_varint [of ?n] emits_raw [of "utf8_encode s"] n by (simp add: emits_def)
    then show ?thesis
      using middle w unfolding emits_def by (simp add: w_text_def text_prefix_def Let_def)
  next
    case long
    define w1 where "w1 = reserve (length_slot + length s) w"
    define w2 where "w2 = w1\<lparr>w_length := w_length w1 + length_slot\<rparr>"
    have w1: "written w1 = written w" "w_length w1 = w_length w" "w_length w1 + length_slot \<le> length (w_buffer w1)"
      using reserve_ok [OF w, of "length_slot + length s"] unfolding w1_def by simp_all
    define slot where "slot = take length_slot (drop (w_length w) (w_buffer w1))"
    have w2: "wf_writer w2" "written w2 = written w @ slot" "w_length w2 = w_length w + length_slot"
      using w1 by (simp_all add: w2_def wf_writer_def written_def slot_def take_add)
    have slot: "length slot = length_slot" "length (written w) = w_length w"
      using w1(2,3) w by (simp_all add: slot_def written_def wf_writer_def)
    define w3 where "w3 = text_loop s w2"
    have w3: "wf_writer w3" "written w3 = written w @ slot @ utf8_encode s"
      "w_length w3 = w_length w + length_slot + length (utf8_encode s)"
      using text_loop_ok [OF w2(1), of s] w2(2,3) by (simp_all add: w3_def)
    have eq: "w_text scale s w = write_slot (w_length w) length_slot ?n w3"
      using long by (simp add: w_text_def Let_def w1_def [symmetric] w1(2) [symmetric] w2_def [symmetric] w3_def [symmetric])
        (simp add: w3(3) w1(2))
    have "write_slot (w_length w) length_slot ?n w3
        = w3\<lparr>w_buffer := set_at (w_length w) (padded length_slot ?n) (w_buffer w3)\<rparr>"
      using w3(1,3) by (intro write_slot_ok) (simp add: wf_writer_def)
    moreover have "take (w_length w3) (set_at (w_length w) (padded length_slot ?n) (w_buffer w3))
        = written w @ padded length_slot ?n @ utf8_encode s"
    proof -
      obtain tail where "w_buffer w3 = written w3 @ tail"
        unfolding written_def by (metis append_take_drop_id)
      then show ?thesis
        using w3(2,3) slot by (simp add: set_at_def)
    qed
    ultimately show ?thesis
      using eq w3(1,3) long by (simp add: wf_writer_def written_def text_prefix_def Let_def length_set_at)
  qed
qed

end
