(* ===== verification/LinkCodec.thy ===== *)
theory LinkCodec
  imports LinkWriter
begin

text \<open>
  The binary codec of a link (\<open>packages/chord/src/next/link/binary.ts\<close>): a kind byte, an origin, and
  the kind's fields. \<open>stringify\<close> and \<open>parse\<close> are \<open>JSON.stringify\<close> and \<open>JSON.parse\<close> on the opaque JSON
  values of a message. A reader is the list of the bytes it has not read yet.
\<close>

datatype link_error =
    EndsEarly
  | VarintTooLarge
  | UnknownKind
  | UnknownHoldFlags
  | UnknownFailureKind
  | UnknownPayloadFlags
  | CountTooLarge
  | BytesAfterMessage
  | NotHex nat
  | InvalidUtf8
  | InvalidJson

datatype kind =
    KHello | KHold | KRelease | KCall | KAbort | KBound | KState | KFailed | KResult | KError | KGone | KRetry
  | KLoading | KAck | KClosed | KPing | KPong | KRevoke

definition kinds :: "kind list" where
  "kinds = [KHello, KHold, KRelease, KCall, KAbort, KBound, KState, KFailed, KResult, KError, KGone, KRetry,
            KLoading, KAck, KClosed, KPing, KPong, KRevoke]"

definition kind_byte :: "kind \<Rightarrow> nat" where
  "kind_byte k = length (takeWhile (\<lambda>x. x \<noteq> k) kinds)"

definition origin_flag :: nat where
  "origin_flag = 0x80"

definition cause_kinds :: "cause_kind list" where
  "cause_kinds = [Transient, Broken, Waiting]"

section \<open>Hex\<close>

definition is_hex :: "16 word \<Rightarrow> bool" where
  "is_hex u \<longleftrightarrow> 48 \<le> unat u \<and> unat u \<le> 57 \<or> 97 \<le> unat u \<and> unat u \<le> 102"

definition hex_value :: "16 word \<Rightarrow> nat" where
  "hex_value u = (if unat u \<le> 57 then unat u - 48 else unat u - 87)"

fun hex_pairs :: "jsstr \<Rightarrow> byte list" where
  "hex_pairs (a # b # us) = of_nat (hex_value a * 16 + hex_value b) # hex_pairs us"
| "hex_pairs _ = []"

definition hex :: "jsstr \<Rightarrow> nat \<Rightarrow> link_error + byte list" where
  "hex s n = (if length s = 2 * n \<and> list_all is_hex s then Inr (hex_pairs s) else Inl (NotHex n))"

definition hex_digit :: "nat \<Rightarrow> 16 word" where
  "hex_digit n = of_nat (if n < 10 then 48 + n else 87 + n)"

definition hex_text :: "byte list \<Rightarrow> jsstr" where
  "hex_text bs = concat (map (\<lambda>b. [hex_digit (unat b div 16), hex_digit (unat b mod 16)]) bs)"

definition dash :: "16 word" where
  "dash = 45"

definition without_dashes :: "jsstr \<Rightarrow> jsstr" where
  "without_dashes s = filter (\<lambda>u. u \<noteq> dash) s"

definition uuid :: "byte list \<Rightarrow> jsstr" where
  "uuid bs =
     (let t = hex_text bs
      in slice 0 8 t @ [dash] @ slice 8 12 t @ [dash] @ slice 12 16 t @ [dash] @ slice 16 20 t @ [dash] @ drop 20 t)"

section \<open>Writing the fields\<close>

definition run :: "(writer \<Rightarrow> writer) list \<Rightarrow> writer \<Rightarrow> writer" where
  "run fs w = fold (\<lambda>f. f) fs w"

definition w_string :: "jsstr \<Rightarrow> writer \<Rightarrow> writer" where
  "w_string s = w_text 1 s"

definition w_json :: "('j \<Rightarrow> jsstr) \<Rightarrow> 'j \<Rightarrow> writer \<Rightarrow> writer" where
  "w_json stringify v = w_string (stringify v)"

fun w_part :: "part \<Rightarrow> writer \<Rightarrow> writer" where
  "w_part (TextPart s) = w_text 2 s"
| "w_part (BytesPart bs) = run [w_varint (length bs * 2), w_raw bs]"
| "w_part (DeflatedPart bs _) = run [w_varint (length bs * 2 + 1), w_raw bs]"

definition w_payload :: "part option \<Rightarrow> byte list list option \<Rightarrow> writer \<Rightarrow> writer" where
  "w_payload part segments =
     (case part of
        None \<Rightarrow> w_varint 0
      | Some p \<Rightarrow>
          (case segments of
             None \<Rightarrow> run [w_varint 1, w_part p]
           | Some segs \<Rightarrow>
               run ([w_varint (1 OR 2), w_part p, w_varint (length segs)] @
                    map (\<lambda>s. w_varint (length s)) segs @ map w_raw segs)))"

definition w_failed_entry :: "('j \<Rightarrow> jsstr) \<Rightarrow> nat \<times> 'j \<Rightarrow> writer \<Rightarrow> writer" where
  "w_failed_entry stringify m = run [w_varint (fst m), w_json stringify (snd m)]"

definition w_failed :: "('j \<Rightarrow> jsstr) \<Rightarrow> (nat \<times> 'j) list \<Rightarrow> writer \<Rightarrow> writer" where
  "w_failed stringify failed = run (w_varint (length failed) # map (w_failed_entry stringify) failed)"

definition w_failed_and_retired :: "('j \<Rightarrow> jsstr) \<Rightarrow> (nat \<times> 'j) list \<Rightarrow> nat list \<Rightarrow> writer \<Rightarrow> writer" where
  "w_failed_and_retired stringify failed retired =
     run (w_varint (length failed * 2 + (if 0 < length retired then 1 else 0)) #
          map (w_failed_entry stringify) failed @
          (if length retired = 0 then [] else w_varint (length retired) # map w_varint retired))"

definition w_member :: "nat \<times> part \<Rightarrow> writer \<Rightarrow> writer" where
  "w_member m = run [w_varint (fst m), w_part (snd m)]"

definition w_bound_entry :: "('j \<Rightarrow> jsstr) \<Rightarrow> 'j bound_entry \<Rightarrow> writer \<Rightarrow> writer" where
  "w_bound_entry stringify e =
     run ([w_varint (be_hold e), w_varint (be_variant e), w_varint (length (be_members e))] @
          map w_member (be_members e) @ [w_failed stringify (be_failed e)])"

definition w_state_entry :: "('j \<Rightarrow> jsstr) \<Rightarrow> 'j state_entry \<Rightarrow> writer \<Rightarrow> writer" where
  "w_state_entry stringify e =
     run ([w_varint (se_hold e), w_varint (length (se_members e))] @
          map w_member (se_members e) @ [w_failed_and_retired stringify (se_failed e) (se_retired e)])"

fun hex_all :: "jsstr list \<Rightarrow> link_error + byte list list" where
  "hex_all [] = Inr []"
| "hex_all (s # ss) =
     rbind (hex (without_dashes s) 16) (\<lambda>bs. rbind (hex_all ss) (\<lambda>bss. Inr (bs # bss)))"

definition hold_flags :: "'j hold_message \<Rightarrow> nat" where
  "hold_flags m =
     (((if hm_principal m = None then 0 else 1) OR (if hm_incarnation m = None then 0 else 2)) OR
      (if hm_chain m = None then 0 else 4)) OR (if hm_limit m = None then 0 else 8)"

definition optional :: "('a \<Rightarrow> link_error + 'b list) \<Rightarrow> 'a option \<Rightarrow> link_error + 'b list" where
  "optional f x = (case x of None \<Rightarrow> Inr [] | Some x \<Rightarrow> f x)"

definition w_hold :: "('j \<Rightarrow> jsstr) \<Rightarrow> 'j hold_message \<Rightarrow> link_error + (writer \<Rightarrow> writer) list" where
  "w_hold stringify m =
     rbind (hex (hm_fingerprint m) 8) (\<lambda>fingerprint.
     rbind (optional (\<lambda>v. Inr [w_json stringify v]) (hm_principal m)) (\<lambda>principal.
     rbind (optional (\<lambda>s. rbind (hex (without_dashes s) 16) (\<lambda>bs. Inr [w_raw bs])) (hm_incarnation m)) (\<lambda>incarnation.
     rbind (optional (\<lambda>ss. rbind (hex_all ss) (\<lambda>bss. Inr (w_varint (length ss) # map w_raw bss))) (hm_chain m)) (\<lambda>chain.
     rbind (optional (\<lambda>n. Inr [w_varint n]) (hm_limit m)) (\<lambda>limit.
       Inr ([w_varint (hm_hold m), w_string (hm_type m), w_varint (hm_version m), w_raw fingerprint, w_part (hm_params m),
             w_string (hm_address_kind m), w_json stringify (hm_address_params m), w_byte (of_nat (hold_flags m))] @
            principal @ incarnation @ chain @ limit))))))"

definition cause_byte :: "cause_kind \<Rightarrow> nat" where
  "cause_byte c = length (takeWhile (\<lambda>x. x \<noteq> c) cause_kinds)"

fun encode_fields :: "('j \<Rightarrow> jsstr) \<Rightarrow> 'j body \<Rightarrow> link_error + (writer \<Rightarrow> writer) list" where
  "encode_fields stringify (Hello protocol incarnation calls) =
     rbind (hex (without_dashes incarnation) 16) (\<lambda>raw. Inr [w_varint protocol, w_raw raw, w_varint calls])"
| "encode_fields stringify (Hold m) = w_hold stringify m"
| "encode_fields stringify (Release hold) = Inr [w_varint hold]"
| "encode_fields stringify (Loading hold) = Inr [w_varint hold]"
| "encode_fields stringify (Retry hold hops) = Inr [w_varint hold, w_varint hops]"
| "encode_fields stringify (Call call hold meth args segments) =
     Inr [w_varint call, w_varint hold, w_varint meth, w_payload args segments]"
| "encode_fields stringify (Abort call) = Inr [w_varint call]"
| "encode_fields stringify (Bound holds) = Inr (w_varint (length holds) # map (w_bound_entry stringify) holds)"
| "encode_fields stringify (State holds) = Inr (w_varint (length holds) # map (w_state_entry stringify) holds)"
| "encode_fields stringify (FailedHold hold cause error retry_in) =
     Inr [w_varint hold, w_byte (of_nat (cause_byte cause)), w_json stringify error,
          w_varint (case retry_in of None \<Rightarrow> 0 | Some n \<Rightarrow> n + 1)]"
| "encode_fields stringify (Result call r segments) = Inr [w_varint call, w_payload r segments]"
| "encode_fields stringify (ErrorReply call error) = Inr [w_varint call, w_json stringify error]"
| "encode_fields stringify (Gone hold error) = Inr [w_varint hold, w_json stringify error]"
| "encode_fields stringify (Revoke revocation) = Inr [w_json stringify revocation]"
| "encode_fields stringify _ = Inr []"

fun kind_of :: "'j body \<Rightarrow> kind" where
  "kind_of (Hello _ _ _) = KHello"
| "kind_of (Hold _) = KHold"
| "kind_of (Release _) = KRelease"
| "kind_of (Call _ _ _ _ _) = KCall"
| "kind_of (Abort _) = KAbort"
| "kind_of (Bound _) = KBound"
| "kind_of (State _) = KState"
| "kind_of (FailedHold _ _ _ _) = KFailed"
| "kind_of (Result _ _ _) = KResult"
| "kind_of (ErrorReply _ _) = KError"
| "kind_of (Gone _ _) = KGone"
| "kind_of (Retry _ _) = KRetry"
| "kind_of (Loading _) = KLoading"
| "kind_of Ack = KAck"
| "kind_of Closed = KClosed"
| "kind_of Ping = KPing"
| "kind_of Pong = KPong"
| "kind_of (Revoke _) = KRevoke"

text \<open>\<open>finish\<close> gives the bytes written, as a view or a copy of the buffer.\<close>

definition finish_writer :: "writer \<Rightarrow> byte list" where
  "finish_writer w = take (w_length w) (w_buffer w)"

definition encode_link :: "('j \<Rightarrow> jsstr) \<Rightarrow> 'j message \<Rightarrow> link_error + byte list" where
  "encode_link stringify m =
     (let head = (case fst m of
            None \<Rightarrow> [w_byte (of_nat (kind_byte (kind_of (snd m))))]
          | Some origin \<Rightarrow> [w_byte (of_nat (kind_byte (kind_of (snd m)) OR origin_flag)), w_varint origin])
      in rbind (encode_fields stringify (snd m)) (\<lambda>fields. Inr (finish_writer (run (head @ fields) new_link_writer))))"

section \<open>Reading\<close>

definition r_byte :: "byte list \<Rightarrow> link_error + nat \<times> byte list" where
  "r_byte bs = (case bs of [] \<Rightarrow> Inl EndsEarly | b # bs \<Rightarrow> Inr (unat b, bs))"

text \<open>At most eight bytes; the value never passes a safe integer.\<close>

fun r_varint_loop :: "nat \<Rightarrow> nat \<Rightarrow> nat \<Rightarrow> byte list \<Rightarrow> link_error + nat \<times> byte list" where
  "r_varint_loop 0 n scale bs = Inl VarintTooLarge"
| "r_varint_loop (Suc k) n scale bs =
     rbind (r_byte bs) (\<lambda>(b, bs).
       let n = n + (b AND 0x7F) * scale in
       if 2 ^ 53 - 1 < n then Inl VarintTooLarge
       else if b < 0x80 then Inr (n, bs)
       else r_varint_loop k n (scale * 0x80) bs)"

definition r_varint :: "byte list \<Rightarrow> link_error + nat \<times> byte list" where
  "r_varint bs = r_varint_loop 8 0 1 bs"

definition r_raw :: "nat \<Rightarrow> byte list \<Rightarrow> link_error + byte list \<times> byte list" where
  "r_raw n bs = (if length bs < n then Inl EndsEarly else Inr (take n bs, drop n bs))"

definition r_string :: "byte list \<Rightarrow> link_error + jsstr \<times> byte list" where
  "r_string bs =
     rbind (r_varint bs) (\<lambda>(n, bs). rbind (r_raw n bs) (\<lambda>(data, bs).
       case utf8_decode data of None \<Rightarrow> Inl InvalidUtf8 | Some s \<Rightarrow> Inr (s, bs)))"

definition r_json :: "(jsstr \<Rightarrow> 'j option) \<Rightarrow> byte list \<Rightarrow> link_error + 'j \<times> byte list" where
  "r_json parse bs =
     rbind (r_varint bs) (\<lambda>(n, bs). rbind (r_raw n bs) (\<lambda>(data, bs).
       case utf8_decode data of
         None \<Rightarrow> Inl InvalidUtf8
       | Some s \<Rightarrow> (case parse s of None \<Rightarrow> Inl InvalidJson | Some v \<Rightarrow> Inr (v, bs))))"

definition r_part :: "byte list \<Rightarrow> link_error + part \<times> byte list" where
  "r_part bs =
     rbind (r_varint bs) (\<lambda>(prefix, bs). rbind (r_raw (prefix div 2) bs) (\<lambda>(data, bs).
       Inr (if prefix mod 2 = 1 then DeflatedPart data None else BytesPart data, bs)))"

fun read_n :: "nat \<Rightarrow> (byte list \<Rightarrow> link_error + 'a \<times> byte list) \<Rightarrow> byte list \<Rightarrow> link_error + 'a list \<times> byte list" where
  "read_n 0 read bs = Inr ([], bs)"
| "read_n (Suc k) read bs =
     rbind (read bs) (\<lambda>(x, bs). rbind (read_n k read bs) (\<lambda>(xs, bs). Inr (x # xs, bs)))"

definition read_counted ::
  "nat \<Rightarrow> (byte list \<Rightarrow> link_error + 'a \<times> byte list) \<Rightarrow> byte list \<Rightarrow> link_error + 'a list \<times> byte list" where
  "read_counted k read bs = (if length bs < k then Inl CountTooLarge else read_n k read bs)"

definition r_list :: "(byte list \<Rightarrow> link_error + 'a \<times> byte list) \<Rightarrow> byte list \<Rightarrow> link_error + 'a list \<times> byte list" where
  "r_list read bs = rbind (r_varint bs) (\<lambda>(k, bs). read_counted k read bs)"

fun r_raws :: "nat list \<Rightarrow> byte list \<Rightarrow> link_error + byte list list \<times> byte list" where
  "r_raws [] bs = Inr ([], bs)"
| "r_raws (n # ns) bs =
     rbind (r_raw n bs) (\<lambda>(data, bs). rbind (r_raws ns bs) (\<lambda>(rest, bs). Inr (data # rest, bs)))"

definition r_payload :: "byte list \<Rightarrow> link_error + (part option \<times> byte list list option) \<times> byte list" where
  "r_payload bs =
     rbind (r_varint bs) (\<lambda>(flags, bs).
       if flags = 0 then Inr ((None, None), bs)
       else if flags \<noteq> 1 \<and> flags \<noteq> (1 OR 2) then Inl UnknownPayloadFlags
       else rbind (r_part bs) (\<lambda>(p, bs).
         if flags = 1 then Inr ((Some p, None), bs)
         else rbind (r_list r_varint bs) (\<lambda>(ns, bs).
              rbind (r_raws ns bs) (\<lambda>(segs, bs). Inr ((Some p, Some segs), bs)))))"

definition r_failed_entry :: "(jsstr \<Rightarrow> 'j option) \<Rightarrow> byte list \<Rightarrow> link_error + (nat \<times> 'j) \<times> byte list" where
  "r_failed_entry parse bs =
     rbind (r_varint bs) (\<lambda>(m, bs). rbind (r_json parse bs) (\<lambda>(e, bs). Inr ((m, e), bs)))"

definition r_failed :: "(jsstr \<Rightarrow> 'j option) \<Rightarrow> byte list \<Rightarrow> link_error + (nat \<times> 'j) list \<times> byte list" where
  "r_failed parse bs = rbind (r_varint bs) (\<lambda>(k, bs). read_counted k (r_failed_entry parse) bs)"

definition r_member :: "byte list \<Rightarrow> link_error + (nat \<times> part) \<times> byte list" where
  "r_member bs = rbind (r_varint bs) (\<lambda>(m, bs). rbind (r_part bs) (\<lambda>(p, bs). Inr ((m, p), bs)))"

definition r_uuid :: "byte list \<Rightarrow> link_error + jsstr \<times> byte list" where
  "r_uuid bs = rbind (r_raw 16 bs) (\<lambda>(data, bs). Inr (uuid data, bs))"

definition r_bound_entry :: "(jsstr \<Rightarrow> 'j option) \<Rightarrow> byte list \<Rightarrow> link_error + 'j bound_entry \<times> byte list" where
  "r_bound_entry parse bs =
     rbind (r_varint bs) (\<lambda>(hold, bs). rbind (r_varint bs) (\<lambda>(variant, bs).
     rbind (r_list r_member bs) (\<lambda>(members, bs). rbind (r_failed parse bs) (\<lambda>(failed, bs).
       Inr (\<lparr>be_hold = hold, be_variant = variant, be_members = members, be_failed = failed\<rparr>, bs)))))"

definition r_state_entry :: "(jsstr \<Rightarrow> 'j option) \<Rightarrow> byte list \<Rightarrow> link_error + 'j state_entry \<times> byte list" where
  "r_state_entry parse bs =
     rbind (r_varint bs) (\<lambda>(hold, bs). rbind (r_list r_member bs) (\<lambda>(members, bs).
     rbind (r_varint bs) (\<lambda>(flags, bs). rbind (read_counted (flags div 2) (r_failed_entry parse) bs) (\<lambda>(failed, bs).
     rbind (if flags mod 2 = 0 then Inr ([], bs) else r_list r_varint bs) (\<lambda>(retired, bs).
       Inr (\<lparr>se_hold = hold, se_members = members, se_failed = failed, se_retired = retired\<rparr>, bs))))))"

definition r_optional ::
  "bool \<Rightarrow> (byte list \<Rightarrow> link_error + 'a \<times> byte list) \<Rightarrow> byte list \<Rightarrow> link_error + 'a option \<times> byte list" where
  "r_optional present read bs =
     (if present then rbind (read bs) (\<lambda>(x, bs). Inr (Some x, bs)) else Inr (None, bs))"

definition r_hold :: "(jsstr \<Rightarrow> 'j option) \<Rightarrow> byte list \<Rightarrow> link_error + 'j hold_message \<times> byte list" where
  "r_hold parse bs =
     rbind (r_varint bs) (\<lambda>(hold, bs). rbind (r_string bs) (\<lambda>(type, bs). rbind (r_varint bs) (\<lambda>(version, bs).
     rbind (r_raw 8 bs) (\<lambda>(fingerprint, bs). rbind (r_part bs) (\<lambda>(params, bs).
     rbind (r_string bs) (\<lambda>(address_kind, bs). rbind (r_json parse bs) (\<lambda>(address_params, bs).
     rbind (r_byte bs) (\<lambda>(flags, bs).
       if 15 < flags then Inl UnknownHoldFlags
       else
         rbind (r_optional (flags AND 1 \<noteq> 0) (r_json parse) bs) (\<lambda>(principal, bs).
         rbind (r_optional (flags AND 2 \<noteq> 0) r_uuid bs) (\<lambda>(incarnation, bs).
         rbind (r_optional (flags AND 4 \<noteq> 0) (r_list r_uuid) bs) (\<lambda>(chain, bs).
         rbind (r_optional (flags AND 8 \<noteq> 0) r_varint bs) (\<lambda>(limit, bs).
           Inr (\<lparr>hm_hold = hold, hm_type = type, hm_version = version, hm_fingerprint = hex_text fingerprint,
                 hm_params = params, hm_address_kind = address_kind, hm_address_params = address_params,
                 hm_principal = principal, hm_incarnation = incarnation, hm_chain = chain, hm_limit = limit\<rparr>,
                bs)))))))))))))"

definition r_one ::
  "('a \<Rightarrow> 'b) \<Rightarrow> (byte list \<Rightarrow> link_error + 'a \<times> byte list) \<Rightarrow> byte list \<Rightarrow> link_error + 'b \<times> byte list" where
  "r_one f read bs = rbind (read bs) (\<lambda>(x, bs). Inr (f x, bs))"

fun decode_fields :: "(jsstr \<Rightarrow> 'j option) \<Rightarrow> kind \<Rightarrow> byte list \<Rightarrow> link_error + 'j body \<times> byte list" where
  "decode_fields parse KHello bs =
     rbind (r_varint bs) (\<lambda>(protocol, bs). rbind (r_uuid bs) (\<lambda>(incarnation, bs).
     rbind (r_varint bs) (\<lambda>(calls, bs). Inr (Hello protocol incarnation calls, bs))))"
| "decode_fields parse KHold bs = r_one Hold (r_hold parse) bs"
| "decode_fields parse KRelease bs = r_one Release r_varint bs"
| "decode_fields parse KLoading bs = r_one Loading r_varint bs"
| "decode_fields parse KRetry bs =
     rbind (r_varint bs) (\<lambda>(hold, bs). rbind (r_varint bs) (\<lambda>(hops, bs). Inr (Retry hold hops, bs)))"
| "decode_fields parse KCall bs =
     rbind (r_varint bs) (\<lambda>(call, bs). rbind (r_varint bs) (\<lambda>(hold, bs). rbind (r_varint bs) (\<lambda>(meth, bs).
     rbind (r_payload bs) (\<lambda>((args, segments), bs). Inr (Call call hold meth args segments, bs)))))"
| "decode_fields parse KAbort bs = r_one Abort r_varint bs"
| "decode_fields parse KBound bs = r_one Bound (r_list (r_bound_entry parse)) bs"
| "decode_fields parse KState bs = r_one State (r_list (r_state_entry parse)) bs"
| "decode_fields parse KFailed bs =
     rbind (r_varint bs) (\<lambda>(hold, bs). rbind (r_byte bs) (\<lambda>(c, bs).
       if c < length cause_kinds then
         rbind (r_json parse bs) (\<lambda>(error, bs). rbind (r_varint bs) (\<lambda>(retry_in, bs).
           Inr (FailedHold hold (cause_kinds ! c) error (if retry_in = 0 then None else Some (retry_in - 1)), bs)))
       else Inl UnknownFailureKind))"
| "decode_fields parse KResult bs =
     rbind (r_varint bs) (\<lambda>(call, bs). rbind (r_payload bs) (\<lambda>((r, segments), bs). Inr (Result call r segments, bs)))"
| "decode_fields parse KError bs =
     rbind (r_varint bs) (\<lambda>(call, bs). rbind (r_json parse bs) (\<lambda>(e, bs). Inr (ErrorReply call e, bs)))"
| "decode_fields parse KGone bs =
     rbind (r_varint bs) (\<lambda>(hold, bs). rbind (r_json parse bs) (\<lambda>(e, bs). Inr (Gone hold e, bs)))"
| "decode_fields parse KRevoke bs = r_one Revoke (r_json parse) bs"
| "decode_fields parse KAck bs = Inr (Ack, bs)"
| "decode_fields parse KPing bs = Inr (Ping, bs)"
| "decode_fields parse KPong bs = Inr (Pong, bs)"
| "decode_fields parse KClosed bs = Inr (Closed, bs)"

text \<open>A \<open>closed\<close> message has origin 0 unless its kind byte says otherwise.\<close>

definition decode_link :: "(jsstr \<Rightarrow> 'j option) \<Rightarrow> byte list \<Rightarrow> link_error + 'j message" where
  "decode_link parse bs =
     rbind (r_byte bs) (\<lambda>(b, bs).
     rbind (r_optional (b AND origin_flag \<noteq> 0) r_varint bs) (\<lambda>(origin, bs).
       let k = b AND 0x7F in
       if length kinds \<le> k then Inl UnknownKind
       else rbind (decode_fields parse (kinds ! k) bs) (\<lambda>(body, bs).
         if bs \<noteq> [] then Inl BytesAfterMessage
         else Inr (if origin = None \<and> kinds ! k = KClosed then Some 0 else origin, body))))"

end
