(* ===== verification/LinkRoundtrip.thy ===== *)
theory LinkRoundtrip
  imports LinkBytes LinkCodec
begin

text \<open>
  What the binary codec of a link writes for every field and message, and that its reader gives the
  message back, as the other side sees it: text parts arrive as bytes, deflated parts not yet inflated.
\<close>

named_theorems reads \<comment> \<open>what a reader makes of the bytes of a field\<close>

section \<open>Fields\<close>

text \<open>
  A field of the codec: how it is written, the bytes that appends, how it is read, and what the reader
  sees of a value. Every field takes at least a byte, which is what a count is checked against.
\<close>

locale field =
  fixes put :: "'a \<Rightarrow> writer \<Rightarrow> writer"
    and bytes :: "'a \<Rightarrow> byte list"
    and read :: "byte list \<Rightarrow> link_error + 'b \<times> byte list"
    and seen :: "'a \<Rightarrow> 'b"
    and ok :: "'a \<Rightarrow> bool"
  assumes emits_field: "ok a \<Longrightarrow> emits (put a) (bytes a)"
    and read_field: "ok a \<Longrightarrow> read (bytes a @ rest) = Inr (seen a, rest)"
    and field_nonempty: "ok a \<Longrightarrow> 1 \<le> length (bytes a)"
begin

lemma emits_all: "list_all ok xs \<Longrightarrow> list_all2 emits (map put xs) (map bytes xs)"
  by (induction xs) (auto intro: emits_field)

lemma length_all: "list_all ok xs \<Longrightarrow> length xs \<le> length (concat (map bytes xs))"
proof (induction xs)
  case (Cons x xs)
  then show ?case using field_nonempty [of x] by simp
qed simp

lemma read_all: "list_all ok xs \<Longrightarrow> read_n (length xs) read (concat (map bytes xs) @ rest) = Inr (map seen xs, rest)"
  by (induction xs) (simp_all add: read_field)

lemma read_counted_all:
  "list_all ok xs \<Longrightarrow> read_counted (length xs) read (concat (map bytes xs) @ rest) = Inr (map seen xs, rest)"
  using length_all [of xs] by (simp add: read_counted_def read_all)

end

section \<open>What a run of writes appends\<close>

lemma emits_run: "list_all2 emits fs bss \<Longrightarrow> emits (run fs) (concat bss)"
proof (induction rule: list_all2_induct)
  case Nil
  then show ?case by (simp add: run_def emits_def)
next
  case (Cons f fs bs bss)
  then show ?case by (simp add: run_def emits_def)
qed

lemma emits_run_of: "list_all2 emits fs bss \<Longrightarrow> bs = concat bss \<Longrightarrow> emits (run fs) bs"
  by (simp add: emits_run)

section \<open>Varints\<close>

lemma and_7f: "b AND 0x7F = (b mod 128 :: nat)"
proof -
  have "b AND mask 7 = take_bit 7 b"
    by (simp add: take_bit_eq_mask)
  then show ?thesis
    by (simp add: mask_eq_exp_minus_1 take_bit_eq_mod)
qed

lemma unat_more: "unat (of_nat (n mod 128) OR 128 :: byte) = n mod 128 + 128"
proof -
  have b: "unat (of_nat (n mod 128) :: byte) = n mod 128"
    by (rule unat8) (simp add: order.strict_trans [OF mod_less_divisor])
  have "(n mod 128) AND 128 = 0"
  proof (rule bit_eqI)
    fix i
    have "bit (n mod 128) i \<longleftrightarrow> i < 7 \<and> bit n i"
      using bit_take_bit_iff [of 7 n i] by (simp add: take_bit_eq_mod)
    moreover have "bit (128 :: nat) i \<longleftrightarrow> i = 7"
      using bit_exp_iff [of 7 i, where 'a = nat] by simp
    ultimately show "bit ((n mod 128) AND 128) i \<longleftrightarrow> bit (0 :: nat) i"
      by (simp add: bit_and_iff)
  qed
  then have "(n mod 128) OR 128 = n mod 128 + 128"
    using disjunctive_add_eq_or [of "n mod 128" 128] by simp
  then show ?thesis
    by (simp add: unsigned_or_eq b)
qed

lemma unat_last: "n < 128 \<Longrightarrow> unat (of_nat n :: byte) = n"
  by (rule unat8) simp

lemma digit_scale: "m mod d * s + m div d * (s * d) = m * (s :: nat)"
proof -
  have "m mod d * s + m div d * (s * d) = (m div d * d + m mod d) * s"
    by (simp only: distrib_right mult.assoc mult.commute [of s d])
  then show ?thesis
    by simp
qed

lemma read_varint_bytes:
  "length (varint_bytes m) \<le> k \<Longrightarrow> n + m * scale \<le> 2 ^ 53 - 1 \<Longrightarrow>
   r_varint_loop k n scale (varint_bytes m @ rest) = Inr (n + m * scale, rest)"
proof (induction k arbitrary: n m scale)
  case 0
  then show ?case using varint_bytes_nonempty [of m] by simp
next
  case (Suc k)
  show ?case
  proof (cases "0x80 \<le> m")
    case True
    have v: "varint_bytes m = (of_nat (m mod 128) OR 128) # varint_bytes (m div 128)"
      using True by (subst varint_bytes.simps) simp
    have d: "m mod 128 * scale + m div 128 * (scale * 128) = m * scale"
      by (rule digit_scale)
    have "length (varint_bytes (m div 128)) \<le> k"
      using Suc.prems(1) v by simp
    moreover have "n + m mod 128 * scale + m div 128 * (scale * 128) \<le> 2 ^ 53 - 1"
      using Suc.prems(2) d by linarith
    ultimately have "r_varint_loop k (n + m mod 128 * scale) (scale * 128) (varint_bytes (m div 128) @ rest)
        = Inr (n + m mod 128 * scale + m div 128 * (scale * 128), rest)"
      by (rule Suc.IH)
    moreover have "\<not> 2 ^ 53 - 1 < n + m mod 128 * scale"
      using Suc.prems(2) d by linarith
    ultimately show ?thesis
      using d by (simp add: v r_byte_def unat_more and_7f Let_def add.assoc)
  next
    case False
    then have "varint_bytes m = [of_nat m]"
      by (subst varint_bytes.simps) simp
    then show ?thesis
      using False Suc.prems(2) by (simp add: r_byte_def unat_last and_7f Let_def)
  qed
qed

lemma read_padded:
  "0 < k \<Longrightarrow> k \<le> j \<Longrightarrow> m < 128 ^ k \<Longrightarrow> n + m * scale \<le> 2 ^ 53 - 1 \<Longrightarrow>
   r_varint_loop j n scale (padded k m @ rest) = Inr (n + m * scale, rest)"
proof (induction k arbitrary: j n m scale)
  case (Suc k)
  obtain i where j: "j = Suc i" "k \<le> i"
    using Suc.prems(2) by (cases j) auto
  show ?case
  proof (cases "0 < k")
    case True
    have d: "m mod 128 * scale + m div 128 * (scale * 128) = m * scale"
      by (rule digit_scale)
    have "m div 128 < 128 ^ k"
      using Suc.prems(3) by (simp add: div_less_iff_less_mult mult.commute)
    moreover have "n + m mod 128 * scale + m div 128 * (scale * 128) \<le> 2 ^ 53 - 1"
      using Suc.prems(4) d by linarith
    ultimately have "r_varint_loop i (n + m mod 128 * scale) (scale * 128) (padded k (m div 128) @ rest)
        = Inr (n + m mod 128 * scale + m div 128 * (scale * 128), rest)"
      using True j(2) by (intro Suc.IH)
    moreover have "\<not> 2 ^ 53 - 1 < n + m mod 128 * scale"
      using Suc.prems(4) d by linarith
    ultimately show ?thesis
      using True d by (simp add: j r_byte_def unat_more and_7f Let_def add.assoc)
  next
    case False
    then show ?thesis
      using Suc.prems by (simp add: j r_byte_def unat_last and_7f Let_def)
  qed
qed simp

definition num_ok :: "nat \<Rightarrow> bool" where
  "num_ok n \<longleftrightarrow> n \<le> max_varint"

lemma r_varint_bytes [reads]: "num_ok n \<Longrightarrow> r_varint (varint_bytes n @ rest) = Inr (n, rest)"
proof -
  assume n: "num_ok n"
  then have "length (varint_bytes n) \<le> Suc 7"
    by (intro varint_bytes_length) (simp add: num_ok_def max_varint_def)
  then show ?thesis
    using n read_varint_bytes [of n 8 0 1 rest] by (simp add: r_varint_def num_ok_def max_varint_def)
qed

interpretation varints: field w_varint varint_bytes r_varint "\<lambda>n. n" num_ok
proof unfold_locales
  fix n :: nat and rest assume n: "num_ok n"
  show "emits (w_varint n) (varint_bytes n)"
    using n by (intro emits_varint) (simp add: num_ok_def max_varint_def)
  show "r_varint (varint_bytes n @ rest) = Inr (n, rest)"
    using n by (rule r_varint_bytes)
  show "1 \<le> length (varint_bytes n)"
    using varint_bytes_nonempty [of n] by (simp add: Suc_le_eq)
qed

section \<open>Texts\<close>

definition text_ok :: "jsstr \<Rightarrow> bool" where
  "text_ok s \<longleftrightarrow> length (utf8_encode s) < 2 ^ 34"

definition string_ok :: "jsstr \<Rightarrow> bool" where
  "string_ok s \<longleftrightarrow> well_formed s \<and> text_ok s"

lemma r_text_prefix:
  assumes "text_ok s" "scale = 1 \<or> scale = 2"
  shows "r_varint (text_prefix scale s @ rest) = Inr (length (utf8_encode s) * scale, rest)"
proof -
  let ?n = "length (utf8_encode s) * scale"
  have n: "?n < 128 ^ 5" "num_ok ?n"
    using assms by (auto simp: text_ok_def num_ok_def max_varint_def)
  have short: "?n < 128" if "length s \<le> short_text div scale"
    using that assms(2) utf8_length_le [of s] by (auto simp: short_text_def)
  then have "varint_bytes ?n = [of_nat ?n]" if "length s \<le> short_text div scale"
    using that by (subst varint_bytes.simps) simp
  moreover have "r_varint (padded length_slot ?n @ rest) = Inr (?n, rest)"
    using read_padded [of 5 8 ?n 0 1 rest] n by (simp add: r_varint_def length_slot_def num_ok_def max_varint_def)
  ultimately show ?thesis
    using r_varint_bytes [OF n(2), of rest] by (auto simp: text_prefix_def Let_def simp del: of_nat_mult)
qed

lemma text_prefix_nonempty: "1 \<le> length (text_prefix scale s)"
  using varint_bytes_nonempty by (simp add: text_prefix_def Let_def length_slot_def Suc_le_eq del: length_greater_0_conv)

lemma emits_text_ok:
  "text_ok s \<Longrightarrow> scale = 1 \<or> scale = 2 \<Longrightarrow> emits (w_text scale s) (text_prefix scale s @ utf8_encode s)"
  by (intro emits_text) (auto simp: text_ok_def)

lemma r_raw_append [reads]: "length bs = n \<Longrightarrow> r_raw n (bs @ rest) = Inr (bs, rest)"
  by (auto simp: r_raw_def)

definition string_bytes :: "jsstr \<Rightarrow> byte list" where
  "string_bytes s = text_prefix 1 s @ utf8_encode s"

lemma r_string_bytes [reads]: "string_ok s \<Longrightarrow> r_string (string_bytes s @ rest) = Inr (s, rest)"
  by (simp add: r_string_def string_bytes_def string_ok_def r_text_prefix r_raw_append utf8_decode_encode)

lemma emits_link_string: "string_ok s \<Longrightarrow> emits (w_string s) (string_bytes s)"
  by (simp add: w_string_def string_bytes_def string_ok_def emits_text_ok)

definition json_ok :: "('j \<Rightarrow> jsstr) \<Rightarrow> (jsstr \<Rightarrow> 'j option) \<Rightarrow> 'j \<Rightarrow> bool" where
  "json_ok stringify parse v \<longleftrightarrow> string_ok (stringify v) \<and> parse (stringify v) = Some v"

definition json_bytes :: "('j \<Rightarrow> jsstr) \<Rightarrow> 'j \<Rightarrow> byte list" where
  "json_bytes stringify v = string_bytes (stringify v)"

lemma r_json_bytes [reads]:
  "json_ok stringify parse v \<Longrightarrow> r_json parse (json_bytes stringify v @ rest) = Inr (v, rest)"
  by (simp add: r_json_def json_bytes_def json_ok_def string_bytes_def string_ok_def r_text_prefix r_raw_append
      utf8_decode_encode)

lemma emits_json: "json_ok stringify parse v \<Longrightarrow> emits (w_json stringify v) (json_bytes stringify v)"
  by (simp add: w_json_def json_bytes_def json_ok_def emits_link_string)

section \<open>Hex\<close>

lemma is_hex_value: "is_hex u \<Longrightarrow> hex_value u < 16 \<and> hex_digit (hex_value u) = u"
  by (auto simp: is_hex_def hex_value_def hex_digit_def word_unat_eq_iff unat16)

lemma hex_text_pairs: "even (length s) \<Longrightarrow> list_all is_hex s \<Longrightarrow> hex_text (hex_pairs s) = s"
proof (induction s rule: hex_pairs.induct)
  case (1 a b us)
  have v: "hex_value a < 16" "hex_value b < 16" "hex_digit (hex_value a) = a" "hex_digit (hex_value b) = b"
    using 1 by (simp_all add: is_hex_value)
  then have "unat (of_nat (hex_value a * 16 + hex_value b) :: byte) = hex_value a * 16 + hex_value b"
    by (intro unat8) simp
  then show ?case
    using 1 v by (simp add: hex_text_def digit_div digit_mod)
qed (simp_all add: hex_text_def)

lemma length_hex_pairs: "length (hex_pairs s) = length s div 2"
  by (induction s rule: hex_pairs.induct) simp_all

definition fingerprint_ok :: "jsstr \<Rightarrow> bool" where
  "fingerprint_ok s \<longleftrightarrow> length s = 16 \<and> list_all is_hex s"

text \<open>The shape of a UUID: a hex digit where \<open>True\<close>, a dash where \<open>False\<close>.\<close>

definition uuid_shape :: "bool list" where
  "uuid_shape = replicate 8 True @ False # replicate 4 True @ False # replicate 4 True @ False # replicate 4 True @
     False # replicate 12 True"

definition fits :: "bool list \<Rightarrow> jsstr \<Rightarrow> bool" where
  "fits hs s = list_all2 (\<lambda>h u. if h then is_hex u else u = dash) hs s"

definition is_uuid :: "jsstr \<Rightarrow> bool" where
  "is_uuid s = fits uuid_shape s"

definition uuid_raw :: "jsstr \<Rightarrow> byte list" where
  "uuid_raw s = hex_pairs (without_dashes s)"

lemma fits_hex: "fits (replicate n True) s \<Longrightarrow> length s = n \<and> list_all is_hex s"
  by (auto simp: fits_def list_all2_conv_all_nth list_all_length)

lemma fits_group:
  assumes "fits (replicate n True @ False # hs) s"
  obtains a t where "s = a @ dash # t" "length a = n" "list_all is_hex a" "fits hs t"
proof -
  obtain a t where a: "s = a @ t" "fits (replicate n True) a" "fits (False # hs) t"
    using assms unfolding fits_def list_all2_append1 by blast
  then obtain u where "t = dash # u" "fits hs u"
    by (auto simp: fits_def list_all2_Cons1)
  then show thesis
    using a that fits_hex [of n a] by blast
qed

lemma no_dashes: "list_all is_hex s \<Longrightarrow> without_dashes s = s"
  by (induction s) (auto simp: without_dashes_def is_hex_def dash_def)

lemma without_dashes_append [simp]: "without_dashes (s @ t) = without_dashes s @ without_dashes t"
  "without_dashes (dash # t) = without_dashes t"
  by (simp_all add: without_dashes_def)

lemma uuid_parts:
  assumes "is_uuid s"
  obtains a b c d e where "s = a @ dash # b @ dash # c @ dash # d @ dash # e" "list_all is_hex (a @ b @ c @ d @ e)"
    "length a = 8" "length b = 4" "length c = 4" "length d = 4" "length e = 12"
proof -
  obtain a t where a: "s = a @ dash # t" "length a = 8" "list_all is_hex a"
    and t: "fits (replicate 4 True @ False # replicate 4 True @ False # replicate 4 True @ False # replicate 12 True) t"
    using assms unfolding is_uuid_def uuid_shape_def by (rule fits_group)
  from t obtain b t' where b: "t = b @ dash # t'" "length b = 4" "list_all is_hex b"
    and t': "fits (replicate 4 True @ False # replicate 4 True @ False # replicate 12 True) t'"
    by (rule fits_group)
  from t' obtain c u where c: "t' = c @ dash # u" "length c = 4" "list_all is_hex c"
    and u: "fits (replicate 4 True @ False # replicate 12 True) u"
    by (rule fits_group)
  from u obtain d e where d: "u = d @ dash # e" "length d = 4" "list_all is_hex d" and e: "fits (replicate 12 True) e"
    by (rule fits_group)
  show thesis
    using that [of a b c d e] a b c d fits_hex [OF e] by simp
qed

lemma uuid_ok:
  assumes "is_uuid s"
  shows "hex (without_dashes s) 16 = Inr (uuid_raw s) \<and> length (uuid_raw s) = 16 \<and> uuid (uuid_raw s) = s"
  using assms
proof (rule uuid_parts)
  fix a b c d e assume s: "s = a @ dash # b @ dash # c @ dash # d @ dash # e"
    and h: "list_all is_hex (a @ b @ c @ d @ e)"
    and n: "length a = 8" "length b = 4" "length c = 4" "length d = 4" "length e = 12"
  have w: "without_dashes s = a @ b @ c @ d @ e"
    using s h by (simp add: no_dashes)
  have hex: "hex (without_dashes s) 16 = Inr (uuid_raw s)" "length (uuid_raw s) = 16"
    using h n by (simp_all only: hex_def w uuid_raw_def length_hex_pairs) simp_all
  have t: "hex_text (uuid_raw s) = a @ b @ c @ d @ e"
    using h n unfolding uuid_raw_def w by (intro hex_text_pairs) simp_all
  have "uuid (uuid_raw s) = a @ dash # b @ dash # c @ dash # d @ dash # e"
    unfolding uuid_def t Let_def using n by (simp add: slice_def)
  then show ?thesis
    using hex s by simp
qed

lemma r_uuid_bytes [reads]: "is_uuid s \<Longrightarrow> r_uuid (uuid_raw s @ rest) = Inr (s, rest)"
  using uuid_ok [of s] by (simp add: r_uuid_def r_raw_append)

definition w_uuid :: "jsstr \<Rightarrow> writer \<Rightarrow> writer" where
  "w_uuid s = w_raw (uuid_raw s)"

interpretation uuids: field w_uuid uuid_raw r_uuid "\<lambda>s. s" is_uuid
  using uuid_ok by unfold_locales (simp_all add: w_uuid_def emits_raw r_uuid_bytes)

lemma hex_all_ok: "list_all is_uuid ss \<Longrightarrow> hex_all ss = Inr (map uuid_raw ss)"
  by (induction ss) (simp_all add: uuid_ok)

section \<open>Parts and payloads\<close>

fun part_ok :: "part \<Rightarrow> bool" where
  "part_ok (TextPart s) = text_ok s"
| "part_ok (BytesPart bs) = num_ok (length bs * 2)"
| "part_ok (DeflatedPart bs _) = num_ok (length bs * 2 + 1)"

fun part_bytes :: "part \<Rightarrow> byte list" where
  "part_bytes (TextPart s) = text_prefix 2 s @ utf8_encode s"
| "part_bytes (BytesPart bs) = varint_bytes (length bs * 2) @ bs"
| "part_bytes (DeflatedPart bs _) = varint_bytes (length bs * 2 + 1) @ bs"

text \<open>A part as the receiving side holds it.\<close>

fun received_part :: "part \<Rightarrow> part" where
  "received_part (TextPart s) = BytesPart (utf8_encode s)"
| "received_part (BytesPart bs) = BytesPart bs"
| "received_part (DeflatedPart bs _) = DeflatedPart bs None"

lemma odd_mod: "Suc (n * 2) mod 2 = Suc 0"
  by presburger

lemma r_part_bytes [reads]: "part_ok p \<Longrightarrow> r_part (part_bytes p @ rest) = Inr (received_part p, rest)"
  by (cases p) (simp_all add: r_part_def r_text_prefix reads odd_mod)

lemma emits_part: "part_ok p \<Longrightarrow> emits (w_part p) (part_bytes p)"
proof (cases p)
  case (BytesPart bs)
  then show "part_ok p \<Longrightarrow> emits (w_part p) (part_bytes p)"
    by (auto intro!: emits_run_of varints.emits_field emits_raw)
next
  case (DeflatedPart bs r)
  then show "part_ok p \<Longrightarrow> emits (w_part p) (part_bytes p)"
    by (auto intro!: emits_run_of varints.emits_field emits_raw)
qed (auto intro: emits_text_ok)

lemma part_nonempty: "1 \<le> length (part_bytes p)"
proof (cases p)
  case (TextPart s)
  then show ?thesis using text_prefix_nonempty [of 2 s] by simp
qed (use varint_bytes_nonempty in \<open>simp_all add: Suc_le_eq del: length_greater_0_conv\<close>)

definition w_each :: "('a \<Rightarrow> writer \<Rightarrow> writer) \<Rightarrow> 'a list \<Rightarrow> (writer \<Rightarrow> writer) list" where
  "w_each f xs = w_varint (length xs) # map f xs"

definition each_bytes :: "('a \<Rightarrow> byte list) \<Rightarrow> 'a list \<Rightarrow> byte list" where
  "each_bytes f xs = varint_bytes (length xs) @ concat (map f xs)"

context field
begin

lemma read_list: "list_all ok xs \<Longrightarrow> num_ok (length xs) \<Longrightarrow> r_list read (each_bytes bytes xs @ rest) = Inr (map seen xs, rest)"
  by (simp add: r_list_def each_bytes_def r_varint_bytes read_counted_all)

lemma emits_list:
  "list_all ok xs \<Longrightarrow> num_ok (length xs) \<Longrightarrow> list_all2 emits (w_each put xs) (varint_bytes (length xs) # map bytes xs)"
  by (simp add: w_each_def emits_all varints.emits_field)

end

definition payload_ok :: "part option \<Rightarrow> byte list list option \<Rightarrow> bool" where
  "payload_ok p segs \<longleftrightarrow>
     (case p of
        None \<Rightarrow> segs = None
      | Some p \<Rightarrow> part_ok p \<and> (case segs of None \<Rightarrow> True | Some ss \<Rightarrow> num_ok (length ss) \<and> list_all (\<lambda>s. num_ok (length s)) ss))"

definition payload_bytes :: "part option \<Rightarrow> byte list list option \<Rightarrow> byte list" where
  "payload_bytes p segs =
     (case p of
        None \<Rightarrow> varint_bytes 0
      | Some p \<Rightarrow>
          (case segs of
             None \<Rightarrow> varint_bytes 1 @ part_bytes p
           | Some ss \<Rightarrow> varint_bytes 3 @ part_bytes p @ each_bytes varint_bytes (map length ss) @ concat ss))"

lemma r_raws_bytes [reads]: "r_raws (map length ss) (concat ss @ rest) = Inr (ss, rest)"
  by (induction ss arbitrary: rest) (simp_all add: reads)

lemma small_num_ok: "num_ok 0" "num_ok 1" "num_ok (Suc 0)" "num_ok 3"
  by (simp_all add: num_ok_def max_varint_def)

lemma r_payload_bytes [reads]:
  assumes "payload_ok p segs"
  shows "r_payload (payload_bytes p segs @ rest) = Inr ((map_option received_part p, segs), rest)"
proof (cases p)
  case None
  then show ?thesis
    using assms by (simp add: r_payload_def payload_bytes_def payload_ok_def reads small_num_ok)
next
  case (Some q)
  show ?thesis
  proof (cases segs)
    case None
    then show ?thesis
      using assms Some by (simp add: r_payload_def payload_bytes_def payload_ok_def reads small_num_ok)
  next
    case (Some ss)
    then show ?thesis
      using assms \<open>p = Some q\<close>
      by (simp add: r_payload_def payload_bytes_def payload_ok_def reads small_num_ok varints.read_list list_all_iff)
  qed
qed

lemma emits_payload: "payload_ok p segs \<Longrightarrow> emits (w_payload p segs) (payload_bytes p segs)"
proof -
  assume ok: "payload_ok p segs"
  have raws: "list_all2 emits (map w_raw ss) ss" for ss
    by (induction ss) (simp_all add: emits_raw)
  show ?thesis
  proof (cases p)
    case None
    then show ?thesis
      by (simp add: w_payload_def payload_bytes_def varints.emits_field small_num_ok)
  next
    case (Some q)
    show ?thesis
    proof (cases segs)
      case None
      then show ?thesis
        using ok Some emits_run [of "[w_varint 1, w_part q]" "[varint_bytes 1, part_bytes q]"]
        by (simp add: w_payload_def payload_bytes_def payload_ok_def small_num_ok varints.emits_field emits_part)
    next
      case (Some ss)
      have lens: "list_all2 emits (map (\<lambda>s. w_varint (length s)) ss) (map (\<lambda>s. varint_bytes (length s)) ss)"
        using ok \<open>p = Some q\<close> Some varints.emits_all [of "map length ss"]
        by (simp add: payload_ok_def list_all_iff comp_def)
      have "emits (run ([w_varint 3, w_part q, w_varint (length ss)] @ map (\<lambda>s. w_varint (length s)) ss @ map w_raw ss))
          (concat ([varint_bytes 3, part_bytes q, varint_bytes (length ss)] @ map (\<lambda>s. varint_bytes (length s)) ss @ ss))"
        using ok \<open>p = Some q\<close> Some
        by (intro emits_run list_all2_appendI lens raws)
          (simp_all add: payload_ok_def varints.emits_field emits_part small_num_ok)
      then show ?thesis
        using \<open>p = Some q\<close> Some by (simp add: w_payload_def payload_bytes_def each_bytes_def comp_def)
    qed
  qed
qed

section \<open>Entries\<close>

definition failed_entry_ok :: "('j \<Rightarrow> jsstr) \<Rightarrow> (jsstr \<Rightarrow> 'j option) \<Rightarrow> nat \<times> 'j \<Rightarrow> bool" where
  "failed_entry_ok stringify parse m \<longleftrightarrow> num_ok (fst m) \<and> json_ok stringify parse (snd m)"

definition failed_entry_bytes :: "('j \<Rightarrow> jsstr) \<Rightarrow> nat \<times> 'j \<Rightarrow> byte list" where
  "failed_entry_bytes stringify m = varint_bytes (fst m) @ json_bytes stringify (snd m)"

lemma emits_two: "emits f bs \<Longrightarrow> emits g cs \<Longrightarrow> emits (run [f, g]) (bs @ cs)"
  using emits_run [of "[f, g]" "[bs, cs]"] by simp

lemma varint_first: "1 \<le> length (varint_bytes n @ bs)"
  using varint_bytes_nonempty [of n] by (cases "varint_bytes n") simp_all

interpretation failures: field "w_failed_entry stringify" "failed_entry_bytes stringify" "r_failed_entry parse"
  "\<lambda>m. m" "failed_entry_ok stringify parse" for stringify parse
proof unfold_locales
  fix m :: "nat \<times> 'a" and rest assume m: "failed_entry_ok stringify parse m"
  show "emits (w_failed_entry stringify m) (failed_entry_bytes stringify m)"
    using m unfolding w_failed_entry_def failed_entry_bytes_def failed_entry_ok_def
    by (auto intro: emits_two varints.emits_field emits_json)
  show "r_failed_entry parse (failed_entry_bytes stringify m @ rest) = Inr (m, rest)"
    using m by (simp add: r_failed_entry_def failed_entry_bytes_def failed_entry_ok_def reads)
  show "1 \<le> length (failed_entry_bytes stringify m)"
    unfolding failed_entry_bytes_def by (rule varint_first)
qed

definition member_ok :: "nat \<times> part \<Rightarrow> bool" where
  "member_ok m \<longleftrightarrow> num_ok (fst m) \<and> part_ok (snd m)"

definition member_bytes :: "nat \<times> part \<Rightarrow> byte list" where
  "member_bytes m = varint_bytes (fst m) @ part_bytes (snd m)"

interpretation members: field w_member member_bytes r_member "apsnd received_part" member_ok
proof unfold_locales
  fix m rest assume m: "member_ok m"
  show "emits (w_member m) (member_bytes m)"
    using m unfolding w_member_def member_bytes_def member_ok_def by (auto intro: emits_two varints.emits_field emits_part)
  show "r_member (member_bytes m @ rest) = Inr (apsnd received_part m, rest)"
    using m by (cases m) (simp add: r_member_def member_bytes_def member_ok_def reads)
  show "1 \<le> length (member_bytes m)"
    unfolding member_bytes_def by (rule varint_first)
qed

definition failed_ok :: "('j \<Rightarrow> jsstr) \<Rightarrow> (jsstr \<Rightarrow> 'j option) \<Rightarrow> (nat \<times> 'j) list \<Rightarrow> bool" where
  "failed_ok stringify parse ms \<longleftrightarrow> num_ok (length ms * 2 + 1) \<and> list_all (failed_entry_ok stringify parse) ms"

lemma num_ok_le: "num_ok n \<Longrightarrow> m \<le> n \<Longrightarrow> num_ok m"
  by (simp add: num_ok_def)

lemma failed_okD: "failed_ok stringify parse ms \<Longrightarrow> num_ok (length ms) \<and> list_all (failed_entry_ok stringify parse) ms"
  by (auto simp: failed_ok_def elim: num_ok_le)

definition bound_entry_ok :: "('j \<Rightarrow> jsstr) \<Rightarrow> (jsstr \<Rightarrow> 'j option) \<Rightarrow> 'j bound_entry \<Rightarrow> bool" where
  "bound_entry_ok stringify parse e \<longleftrightarrow>
     num_ok (be_hold e) \<and> num_ok (be_variant e) \<and> num_ok (length (be_members e)) \<and> list_all member_ok (be_members e) \<and>
     failed_ok stringify parse (be_failed e)"

definition bound_entry_bytes :: "('j \<Rightarrow> jsstr) \<Rightarrow> 'j bound_entry \<Rightarrow> byte list" where
  "bound_entry_bytes stringify e =
     varint_bytes (be_hold e) @ varint_bytes (be_variant e) @ each_bytes member_bytes (be_members e) @
     each_bytes (failed_entry_bytes stringify) (be_failed e)"

definition received_bound :: "'j bound_entry \<Rightarrow> 'j bound_entry" where
  "received_bound e = e\<lparr>be_members := map (apsnd received_part) (be_members e)\<rparr>"

lemma w_failed_each: "w_failed stringify = (\<lambda>ms. run (w_each (w_failed_entry stringify) ms))"
  by (simp add: fun_eq_iff w_failed_def w_each_def)

lemma r_failed_list: "r_failed parse = r_list (r_failed_entry parse)"
  by (simp add: fun_eq_iff r_failed_def r_list_def)

lemma emits_failed:
  "failed_ok stringify parse ms \<Longrightarrow> emits (w_failed stringify ms) (each_bytes (failed_entry_bytes stringify) ms)"
  using emits_run [OF failures.emits_list, of stringify parse ms] failed_okD [of stringify parse ms]
  by (simp add: w_failed_each each_bytes_def)

interpretation bounds: field "w_bound_entry stringify" "bound_entry_bytes stringify" "r_bound_entry parse"
  received_bound "bound_entry_ok stringify parse" for stringify parse
proof unfold_locales
  fix e :: "'a bound_entry" and rest assume e: "bound_entry_ok stringify parse e"
  have "emits (run ([w_varint (be_hold e), w_varint (be_variant e), w_varint (length (be_members e))] @
      map w_member (be_members e) @ [w_failed stringify (be_failed e)]))
    (concat ([varint_bytes (be_hold e), varint_bytes (be_variant e), varint_bytes (length (be_members e))] @
      map member_bytes (be_members e) @ [each_bytes (failed_entry_bytes stringify) (be_failed e)]))"
    using e by (intro emits_run list_all2_appendI members.emits_all)
      (auto simp: bound_entry_ok_def intro: varints.emits_field emits_failed)
  then show "emits (w_bound_entry stringify e) (bound_entry_bytes stringify e)"
    by (simp add: w_bound_entry_def bound_entry_bytes_def each_bytes_def)
  show "r_bound_entry parse (bound_entry_bytes stringify e @ rest) = Inr (received_bound e, rest)"
    using e failed_okD [of stringify parse "be_failed e"]
    by (simp add: r_bound_entry_def bound_entry_bytes_def bound_entry_ok_def received_bound_def reads members.read_list
        r_failed_list failures.read_list)
  show "1 \<le> length (bound_entry_bytes stringify e)"
    unfolding bound_entry_bytes_def by (rule varint_first)
qed

definition state_entry_ok :: "('j \<Rightarrow> jsstr) \<Rightarrow> (jsstr \<Rightarrow> 'j option) \<Rightarrow> 'j state_entry \<Rightarrow> bool" where
  "state_entry_ok stringify parse e \<longleftrightarrow>
     num_ok (se_hold e) \<and> num_ok (length (se_members e)) \<and> list_all member_ok (se_members e) \<and>
     failed_ok stringify parse (se_failed e) \<and> num_ok (length (se_retired e)) \<and> list_all num_ok (se_retired e)"

definition state_entry_bytes :: "('j \<Rightarrow> jsstr) \<Rightarrow> 'j state_entry \<Rightarrow> byte list" where
  "state_entry_bytes stringify e =
     varint_bytes (se_hold e) @ each_bytes member_bytes (se_members e) @
     varint_bytes (length (se_failed e) * 2 + (if 0 < length (se_retired e) then 1 else 0)) @
     concat (map (failed_entry_bytes stringify) (se_failed e)) @
     (if se_retired e = [] then [] else each_bytes varint_bytes (se_retired e))"

definition received_state :: "'j state_entry \<Rightarrow> 'j state_entry" where
  "received_state e = e\<lparr>se_members := map (apsnd received_part) (se_members e)\<rparr>"

interpretation states: field "w_state_entry stringify" "state_entry_bytes stringify" "r_state_entry parse"
  received_state "state_entry_ok stringify parse" for stringify parse
proof unfold_locales
  fix e :: "'a state_entry" and rest assume e: "state_entry_ok stringify parse e"
  let ?flags = "length (se_failed e) * 2 + (if 0 < length (se_retired e) then 1 else 0)"
  have flags: "num_ok ?flags" "?flags div 2 = length (se_failed e)" "?flags mod 2 = 0 \<longleftrightarrow> se_retired e = []"
    using e by (auto simp: state_entry_ok_def failed_ok_def elim: num_ok_le)
  have fails: "list_all (failed_entry_ok stringify parse) (se_failed e)"
    using e by (simp add: state_entry_ok_def failed_ok_def)
  let ?fs = "w_varint ?flags # map (w_failed_entry stringify) (se_failed e) @
      (if length (se_retired e) = 0 then [] else w_varint (length (se_retired e)) # map w_varint (se_retired e))"
  let ?bs = "varint_bytes ?flags # map (failed_entry_bytes stringify) (se_failed e) @
      (if length (se_retired e) = 0 then [] else varint_bytes (length (se_retired e)) # map varint_bytes (se_retired e))"
  have "list_all2 emits ?fs ?bs"
    using e fails flags(1) varints.emits_all [of "se_retired e"]
    by (auto simp: state_entry_ok_def intro!: list_all2_appendI failures.emits_all varints.emits_field)
  then have tail: "emits (w_failed_and_retired stringify (se_failed e) (se_retired e)) (concat ?bs)"
    unfolding w_failed_and_retired_def append_Cons [symmetric] by (rule emits_run)
  have "emits (run ([w_varint (se_hold e), w_varint (length (se_members e))] @
      map w_member (se_members e) @ [w_failed_and_retired stringify (se_failed e) (se_retired e)]))
    (concat ([varint_bytes (se_hold e), varint_bytes (length (se_members e))] @
      map member_bytes (se_members e) @ [concat ?bs]))"
    using e tail by (intro emits_run list_all2_appendI members.emits_all)
      (auto simp: state_entry_ok_def intro: varints.emits_field)
  then show "emits (w_state_entry stringify e) (state_entry_bytes stringify e)"
    by (cases "se_retired e = []") (simp_all add: w_state_entry_def state_entry_bytes_def each_bytes_def)
  define flags where "flags = ?flags"
  have f: "num_ok flags" "flags div 2 = length (se_failed e)" "flags mod 2 = 0 \<longleftrightarrow> se_retired e = []"
    using flags by (simp_all only: flags_def)
  have r: "r_varint (varint_bytes (se_hold e) @ more) = Inr (se_hold e, more)" 
    "r_list r_member (each_bytes member_bytes (se_members e) @ more) = Inr (map (apsnd received_part) (se_members e), more)"
    "se_retired e \<noteq> [] \<longrightarrow> r_list r_varint (each_bytes varint_bytes (se_retired e) @ more) = Inr (se_retired e, more)" for more
    using e by (simp_all add: state_entry_ok_def reads members.read_list varints.read_list)
  show "r_state_entry parse (state_entry_bytes stringify e @ rest) = Inr (received_state e, rest)"
    unfolding r_state_entry_def state_entry_bytes_def flags_def [symmetric]
    using f r failures.read_counted_all [OF fails]
    by (simp add: r_varint_bytes [OF f(1)] received_state_def)
  show "1 \<le> length (state_entry_bytes stringify e)"
    unfolding state_entry_bytes_def by (rule varint_first)
qed

section \<open>Messages\<close>

definition opt_bytes :: "('a \<Rightarrow> byte list) \<Rightarrow> 'a option \<Rightarrow> byte list" where
  "opt_bytes f x = (case x of None \<Rightarrow> [] | Some x \<Rightarrow> f x)"

definition hold_ok :: "('j \<Rightarrow> jsstr) \<Rightarrow> (jsstr \<Rightarrow> 'j option) \<Rightarrow> 'j hold_message \<Rightarrow> bool" where
  "hold_ok stringify parse m \<longleftrightarrow>
     num_ok (hm_hold m) \<and> string_ok (hm_type m) \<and> num_ok (hm_version m) \<and> fingerprint_ok (hm_fingerprint m) \<and>
     part_ok (hm_params m) \<and> string_ok (hm_address_kind m) \<and> json_ok stringify parse (hm_address_params m) \<and>
     pred_option (json_ok stringify parse) (hm_principal m) \<and> pred_option is_uuid (hm_incarnation m) \<and>
     pred_option (\<lambda>ss. num_ok (length ss) \<and> list_all is_uuid ss) (hm_chain m) \<and> pred_option num_ok (hm_limit m)"

definition hold_bytes :: "('j \<Rightarrow> jsstr) \<Rightarrow> 'j hold_message \<Rightarrow> byte list" where
  "hold_bytes stringify m =
     varint_bytes (hm_hold m) @ string_bytes (hm_type m) @ varint_bytes (hm_version m) @ hex_pairs (hm_fingerprint m) @
     part_bytes (hm_params m) @ string_bytes (hm_address_kind m) @ json_bytes stringify (hm_address_params m) @
     of_nat (hold_flags m) # opt_bytes (json_bytes stringify) (hm_principal m) @
     opt_bytes uuid_raw (hm_incarnation m) @ opt_bytes (each_bytes uuid_raw) (hm_chain m) @
     opt_bytes varint_bytes (hm_limit m)"

definition received_hold :: "'j hold_message \<Rightarrow> 'j hold_message" where
  "received_hold m = m\<lparr>hm_params := received_part (hm_params m)\<rparr>"

lemma fingerprint_read:
  "fingerprint_ok s \<Longrightarrow> hex s 8 = Inr (hex_pairs s) \<and> length (hex_pairs s) = 8 \<and> hex_text (hex_pairs s) = s"
  by (simp add: fingerprint_ok_def hex_def length_hex_pairs hex_text_pairs)

lemma hold_flags_bits:
  "unat (of_nat (hold_flags m) :: byte) \<le> 15 \<and>
   (unat (of_nat (hold_flags m) :: byte) AND 1 \<noteq> 0 \<longleftrightarrow> hm_principal m \<noteq> None) \<and>
   (unat (of_nat (hold_flags m) :: byte) AND 2 \<noteq> 0 \<longleftrightarrow> hm_incarnation m \<noteq> None) \<and>
   (unat (of_nat (hold_flags m) :: byte) AND 4 \<noteq> 0 \<longleftrightarrow> hm_chain m \<noteq> None) \<and>
   (unat (of_nat (hold_flags m) :: byte) AND 8 \<noteq> 0 \<longleftrightarrow> hm_limit m \<noteq> None)"
  by (simp add: hold_flags_def)

lemma r_optional_bytes:
  "(\<And>x. v = Some x \<Longrightarrow> read (f x @ rest) = Inr (x, rest)) \<Longrightarrow>
   r_optional (v \<noteq> None) read (opt_bytes f v @ rest) = Inr (v, rest)"
  by (cases v) (simp_all add: r_optional_def opt_bytes_def)

lemma r_hold_bytes [reads]:
  assumes "hold_ok stringify parse m"
  shows "r_hold parse (hold_bytes stringify m @ rest) = Inr (received_hold m, rest)"
proof -
  have opts: "r_optional (hm_principal m \<noteq> None) (r_json parse) (opt_bytes (json_bytes stringify) (hm_principal m) @ more)
        = Inr (hm_principal m, more)"
    "r_optional (hm_incarnation m \<noteq> None) r_uuid (opt_bytes uuid_raw (hm_incarnation m) @ more) = Inr (hm_incarnation m, more)"
    "r_optional (hm_chain m \<noteq> None) (r_list r_uuid) (opt_bytes (each_bytes uuid_raw) (hm_chain m) @ more) = Inr (hm_chain m, more)"
    "r_optional (hm_limit m \<noteq> None) r_varint (opt_bytes varint_bytes (hm_limit m) @ more) = Inr (hm_limit m, more)" for more
    using assms by (auto simp: hold_ok_def uuids.read_list reads simp del: not_None_eq intro!: r_optional_bytes)
  have fp: "length (hex_pairs (hm_fingerprint m)) = 8" "hex_text (hex_pairs (hm_fingerprint m)) = hm_fingerprint m"
    using assms fingerprint_read [of "hm_fingerprint m"] by (simp_all add: hold_ok_def)
  show ?thesis
    using assms hold_flags_bits [of m] fp unfolding r_hold_def hold_bytes_def hold_ok_def
    by (simp add: reads r_byte_def opts received_hold_def del: not_None_eq)
qed

end
