(* ===== verification/LinkDelivery.thy ===== *)
theory LinkDelivery
  imports LinkRoundtrip
begin

text \<open>
  The round trip of a link's messages: every message within the codec's bounds is encoded, and decoding
  its bytes gives it as it was sent.
\<close>

lemma emits_optional:
  assumes "\<And>x. v = Some x \<Longrightarrow> emits (run (f x)) (b x)"
  shows "emits (run (case v of None \<Rightarrow> [] | Some x \<Rightarrow> f x)) (opt_bytes b v)"
  using assms by (cases v) (simp_all add: opt_bytes_def run_def emits_def)

lemma run_append: "run (fs @ gs) w = run gs (run fs w)"
  by (simp add: run_def)

lemma emits_run_append: "emits (run fs) bs \<Longrightarrow> emits (run gs) cs \<Longrightarrow> emits (run (fs @ gs)) (bs @ cs)"
  by (simp add: emits_def run_append)

lemma emits_run_one: "emits f bs \<Longrightarrow> emits (run [f]) bs"
  using emits_run [of "[f]" "[bs]"] by simp

lemma emits_run_nil: "emits (run []) []"
  by (simp add: run_def emits_def)

lemma emits_run_Cons: "emits f bs \<Longrightarrow> emits (run fs) cs \<Longrightarrow> emits (run (f # fs)) (bs @ cs)"
  by (simp add: emits_def run_def)

section \<open>Holds\<close>

definition hold_writes :: "('j \<Rightarrow> jsstr) \<Rightarrow> 'j hold_message \<Rightarrow> (writer \<Rightarrow> writer) list" where
  "hold_writes stringify m =
     [w_varint (hm_hold m), w_string (hm_type m), w_varint (hm_version m), w_raw (hex_pairs (hm_fingerprint m)),
      w_part (hm_params m), w_string (hm_address_kind m), w_json stringify (hm_address_params m),
      w_byte (of_nat (hold_flags m))] @
     (case hm_principal m of None \<Rightarrow> [] | Some v \<Rightarrow> [w_json stringify v]) @
     (case hm_incarnation m of None \<Rightarrow> [] | Some s \<Rightarrow> [w_uuid s]) @
     (case hm_chain m of None \<Rightarrow> [] | Some ss \<Rightarrow> w_each w_uuid ss) @
     (case hm_limit m of None \<Rightarrow> [] | Some n \<Rightarrow> [w_varint n])"

lemma w_hold_writes:
  assumes "hold_ok stringify parse m"
  shows "w_hold stringify m = Inr (hold_writes stringify m)"
proof -
  have "optional (\<lambda>v. Inr [w_json stringify v]) (hm_principal m)
      = Inr (case hm_principal m of None \<Rightarrow> [] | Some v \<Rightarrow> [w_json stringify v])"
    by (simp add: optional_def split: option.splits)
  moreover have "optional (\<lambda>s. rbind (hex (without_dashes s) 16) (\<lambda>bs. Inr [w_raw bs])) (hm_incarnation m)
      = Inr (case hm_incarnation m of None \<Rightarrow> [] | Some s \<Rightarrow> [w_uuid s])"
    using assms by (auto simp: hold_ok_def optional_def uuid_ok w_uuid_def split: option.splits)
  moreover have "optional (\<lambda>ss. rbind (hex_all ss) (\<lambda>bss. Inr (w_varint (length ss) # map w_raw bss))) (hm_chain m)
      = Inr (case hm_chain m of None \<Rightarrow> [] | Some ss \<Rightarrow> w_each w_uuid ss)"
    using assms by (auto simp: hold_ok_def optional_def hex_all_ok w_each_def w_uuid_def split: option.splits)
  moreover have "optional (\<lambda>n. Inr [w_varint n]) (hm_limit m) = Inr (case hm_limit m of None \<Rightarrow> [] | Some n \<Rightarrow> [w_varint n])"
    by (simp add: optional_def split: option.splits)
  moreover have "hex (hm_fingerprint m) 8 = Inr (hex_pairs (hm_fingerprint m))"
    using assms fingerprint_read by (simp add: hold_ok_def)
  ultimately show ?thesis
    by (simp add: w_hold_def hold_writes_def)
qed

lemma emits_hold: "hold_ok stringify parse m \<Longrightarrow> emits (run (hold_writes stringify m)) (hold_bytes stringify m)"
proof -
  assume ok: "hold_ok stringify parse m"
  have "emits (run [w_varint (hm_hold m), w_string (hm_type m), w_varint (hm_version m), w_raw (hex_pairs (hm_fingerprint m)),
      w_part (hm_params m), w_string (hm_address_kind m), w_json stringify (hm_address_params m), w_byte (of_nat (hold_flags m))])
    (concat [varint_bytes (hm_hold m), string_bytes (hm_type m), varint_bytes (hm_version m), hex_pairs (hm_fingerprint m),
      part_bytes (hm_params m), string_bytes (hm_address_kind m), json_bytes stringify (hm_address_params m),
      [of_nat (hold_flags m)]])" (is "emits (run ?fixed) (concat ?bs)")
    using ok by (intro emits_run)
      (simp add: hold_ok_def varints.emits_field emits_link_string emits_raw emits_part emits_json [of stringify parse] emits_byte)
  moreover have "emits (run (case hm_principal m of None \<Rightarrow> [] | Some v \<Rightarrow> [w_json stringify v]))
      (opt_bytes (json_bytes stringify) (hm_principal m))"
    using ok by (intro emits_optional) (auto simp: hold_ok_def intro: emits_run_one emits_json)
  moreover have "emits (run (case hm_incarnation m of None \<Rightarrow> [] | Some s \<Rightarrow> [w_uuid s])) (opt_bytes uuid_raw (hm_incarnation m))"
    using ok by (intro emits_optional) (auto simp: hold_ok_def intro: emits_run_one uuids.emits_field)
  moreover have "emits (run (case hm_chain m of None \<Rightarrow> [] | Some ss \<Rightarrow> w_each w_uuid ss)) (opt_bytes (each_bytes uuid_raw) (hm_chain m))"
    using ok by (intro emits_optional) (auto simp: hold_ok_def each_bytes_def intro!: emits_run_of uuids.emits_list)
  moreover have "emits (run (case hm_limit m of None \<Rightarrow> [] | Some n \<Rightarrow> [w_varint n])) (opt_bytes varint_bytes (hm_limit m))"
    using ok by (intro emits_optional) (auto simp: hold_ok_def intro: emits_run_one varints.emits_field)
  ultimately have "emits (run (hold_writes stringify m)) (concat ?bs @ opt_bytes (json_bytes stringify) (hm_principal m) @
      opt_bytes uuid_raw (hm_incarnation m) @ opt_bytes (each_bytes uuid_raw) (hm_chain m) @ opt_bytes varint_bytes (hm_limit m))"
    unfolding hold_writes_def by (intro emits_run_append)
  then show ?thesis
    by (simp add: hold_bytes_def)
qed

section \<open>Bodies\<close>

fun body_ok :: "('j \<Rightarrow> jsstr) \<Rightarrow> (jsstr \<Rightarrow> 'j option) \<Rightarrow> 'j body \<Rightarrow> bool" where
  "body_ok stringify parse (Hello protocol incarnation calls) = (num_ok protocol \<and> is_uuid incarnation \<and> num_ok calls)"
| "body_ok stringify parse (Hold m) = hold_ok stringify parse m"
| "body_ok stringify parse (Release hold) = num_ok hold"
| "body_ok stringify parse (Loading hold) = num_ok hold"
| "body_ok stringify parse (Retry hold hops) = (num_ok hold \<and> num_ok hops)"
| "body_ok stringify parse (Call call hold meth args segments) =
     (num_ok call \<and> num_ok hold \<and> num_ok meth \<and> payload_ok args segments)"
| "body_ok stringify parse (Abort call) = num_ok call"
| "body_ok stringify parse (Bound holds) = (num_ok (length holds) \<and> list_all (bound_entry_ok stringify parse) holds)"
| "body_ok stringify parse (State holds) = (num_ok (length holds) \<and> list_all (state_entry_ok stringify parse) holds)"
| "body_ok stringify parse (FailedHold hold cause error retry_in) =
     (num_ok hold \<and> json_ok stringify parse error \<and> pred_option (\<lambda>n. num_ok (n + 1)) retry_in)"
| "body_ok stringify parse (Result call r segments) = (num_ok call \<and> payload_ok r segments)"
| "body_ok stringify parse (ErrorReply call error) = (num_ok call \<and> json_ok stringify parse error)"
| "body_ok stringify parse (Gone hold error) = (num_ok hold \<and> json_ok stringify parse error)"
| "body_ok stringify parse (Revoke revocation) = json_ok stringify parse revocation"
| "body_ok stringify parse _ = True"

fun body_bytes :: "('j \<Rightarrow> jsstr) \<Rightarrow> 'j body \<Rightarrow> byte list" where
  "body_bytes stringify (Hello protocol incarnation calls) = varint_bytes protocol @ uuid_raw incarnation @ varint_bytes calls"
| "body_bytes stringify (Hold m) = hold_bytes stringify m"
| "body_bytes stringify (Release hold) = varint_bytes hold"
| "body_bytes stringify (Loading hold) = varint_bytes hold"
| "body_bytes stringify (Retry hold hops) = varint_bytes hold @ varint_bytes hops"
| "body_bytes stringify (Call call hold meth args segments) =
     varint_bytes call @ varint_bytes hold @ varint_bytes meth @ payload_bytes args segments"
| "body_bytes stringify (Abort call) = varint_bytes call"
| "body_bytes stringify (Bound holds) = each_bytes (bound_entry_bytes stringify) holds"
| "body_bytes stringify (State holds) = each_bytes (state_entry_bytes stringify) holds"
| "body_bytes stringify (FailedHold hold cause error retry_in) =
     varint_bytes hold @ of_nat (cause_byte cause) # json_bytes stringify error @
     varint_bytes (case retry_in of None \<Rightarrow> 0 | Some n \<Rightarrow> n + 1)"
| "body_bytes stringify (Result call r segments) = varint_bytes call @ payload_bytes r segments"
| "body_bytes stringify (ErrorReply call error) = varint_bytes call @ json_bytes stringify error"
| "body_bytes stringify (Gone hold error) = varint_bytes hold @ json_bytes stringify error"
| "body_bytes stringify (Revoke revocation) = json_bytes stringify revocation"
| "body_bytes stringify _ = []"

fun received_body :: "'j body \<Rightarrow> 'j body" where
  "received_body (Hold m) = Hold (received_hold m)"
| "received_body (Call call hold meth args segments) = Call call hold meth (map_option received_part args) segments"
| "received_body (Bound holds) = Bound (map received_bound holds)"
| "received_body (State holds) = State (map received_state holds)"
| "received_body (Result call r segments) = Result call (map_option received_part r) segments"
| "received_body b = b"

lemma cause_kind_read: "unat (of_nat (cause_byte c) :: byte) < length cause_kinds \<and> cause_kinds ! unat (of_nat (cause_byte c) :: byte) = c"
  by (cases c) (simp_all add: cause_byte_def cause_kinds_def)

lemma retry_ok: "pred_option (\<lambda>n. num_ok (n + 1)) r \<Longrightarrow> num_ok (case r of None \<Rightarrow> 0 | Some n \<Rightarrow> n + 1)"
  by (cases r) (simp_all add: small_num_ok)

lemma retry_seen: "(if (case r of None \<Rightarrow> 0 | Some n \<Rightarrow> n + 1) = 0 then None
    else Some ((case r of None \<Rightarrow> 0 | Some n \<Rightarrow> n + 1) - 1)) = (r :: nat option)"
  by (cases r) simp_all

lemma decode_body:
  "body_ok stringify parse b \<Longrightarrow> decode_fields parse (kind_of b) (body_bytes stringify b @ rest) = Inr (received_body b, rest)"
proof (cases b)
  case (FailedHold hold cause error retry_in)
  assume "body_ok stringify parse b"
  then show ?thesis
    using FailedHold cause_kind_read [of cause] retry_ok [of retry_in]
    by (simp add: reads r_byte_def) (cases retry_in; simp)
qed (simp_all add: r_one_def reads bounds.read_list states.read_list)

lemma emits_body:
  assumes "body_ok stringify parse b"
  shows "\<exists>fs. encode_fields stringify b = Inr fs \<and> emits (run fs) (body_bytes stringify b)"
proof (cases b)
  case (Hold m)
  then show ?thesis
    using assms emits_hold [of stringify parse m] w_hold_writes [of stringify parse m] by simp
next
  case (Bound holds)
  then show ?thesis
    using assms emits_run [OF bounds.emits_list, of stringify parse holds] by (simp add: w_each_def each_bytes_def)
next
  case (State holds)
  then show ?thesis
    using assms emits_run [OF states.emits_list, of stringify parse holds] by (simp add: w_each_def each_bytes_def)
next
  case (Hello protocol incarnation calls)
  have "emits (run [w_varint protocol, w_raw (uuid_raw incarnation), w_varint calls]) (concat [varint_bytes protocol, uuid_raw incarnation, varint_bytes calls])"
    using assms Hello by (intro emits_run) (simp add: varints.emits_field emits_raw)
  then show ?thesis
    using assms Hello uuid_ok [of incarnation] by simp
next
  case (FailedHold hold cause error retry_in)
  have "emits (run [w_varint hold, w_byte (of_nat (cause_byte cause)), w_json stringify error, w_varint (case retry_in of None \<Rightarrow> 0 | Some n \<Rightarrow> n + 1)])
    (concat [varint_bytes hold, [of_nat (cause_byte cause)], json_bytes stringify error, varint_bytes (case retry_in of None \<Rightarrow> 0 | Some n \<Rightarrow> n + 1)])"
    using assms FailedHold by (intro emits_run) (simp add: varints.emits_field emits_byte emits_json [of stringify parse] retry_ok)
  then show ?thesis
    using FailedHold by simp
next
  case (Call call hold meth args segments)
  have "emits (run [w_varint call, w_varint hold, w_varint meth, w_payload args segments])
    (concat [varint_bytes call, varint_bytes hold, varint_bytes meth, payload_bytes args segments])"
    using assms Call by (intro emits_run) (simp add: varints.emits_field emits_payload)
  then show ?thesis
    using Call by simp
qed (use assms in \<open>auto intro: emits_run_one emits_run_nil emits_two varints.emits_field emits_payload emits_json\<close>)

section \<open>The round trip\<close>

text \<open>A message arrives with the origin it was sent with; a \<open>closed\<close> without one arrives with origin 0.\<close>

definition message_ok :: "('j \<Rightarrow> jsstr) \<Rightarrow> (jsstr \<Rightarrow> 'j option) \<Rightarrow> 'j message \<Rightarrow> bool" where
  "message_ok stringify parse m \<longleftrightarrow> pred_option num_ok (fst m) \<and> body_ok stringify parse (snd m)"

definition received :: "'j message \<Rightarrow> 'j message" where
  "received m = (if fst m = None \<and> kind_of (snd m) = KClosed then Some 0 else fst m, received_body (snd m))"

definition message_bytes :: "('j \<Rightarrow> jsstr) \<Rightarrow> 'j message \<Rightarrow> byte list" where
  "message_bytes stringify m =
     (case fst m of
        None \<Rightarrow> [of_nat (kind_byte (kind_of (snd m)))]
      | Some origin \<Rightarrow> of_nat (kind_byte (kind_of (snd m)) OR origin_flag) # varint_bytes origin) @ body_bytes stringify (snd m)"

lemma encode_link_bytes:
  assumes "message_ok stringify parse m"
  shows "encode_link stringify m = Inr (message_bytes stringify m)"
proof -
  obtain fs where fs: "encode_fields stringify (snd m) = Inr fs" "emits (run fs) (body_bytes stringify (snd m))"
    using assms emits_body unfolding message_ok_def by blast
  have start: "wf_writer new_link_writer \<and> written new_link_writer = []"
    by (simp add: wf_writer_def written_def new_link_writer_def)
  show ?thesis
  proof (cases "fst m")
    case None
    have "emits (run ([w_byte (of_nat (kind_byte (kind_of (snd m))))] @ fs))
        ([of_nat (kind_byte (kind_of (snd m)))] @ body_bytes stringify (snd m))"
      by (rule emits_run_append [OF emits_run_one [OF emits_byte] fs(2)])
    then show ?thesis
      using fs(1) start None unfolding emits_def by (simp add: encode_link_def message_bytes_def finish_writer_def written_def)
  next
    case (Some origin)
    have "emits (run [w_byte (of_nat (kind_byte (kind_of (snd m)) OR origin_flag)), w_varint origin])
        ([of_nat (kind_byte (kind_of (snd m)) OR origin_flag)] @ varint_bytes origin)"
      using assms Some by (intro emits_two emits_byte varints.emits_field) (simp add: message_ok_def)
    then have "emits (run ([w_byte (of_nat (kind_byte (kind_of (snd m)) OR origin_flag)), w_varint origin] @ fs))
        (([of_nat (kind_byte (kind_of (snd m)) OR origin_flag)] @ varint_bytes origin) @ body_bytes stringify (snd m))"
      using fs(2) by (rule emits_run_append)
    then show ?thesis
      using fs(1) start Some unfolding emits_def by (simp add: encode_link_def message_bytes_def finish_writer_def written_def)
  qed
qed

lemma kind_bytes: "kind_byte KHello = 0"
  "kind_byte KHold = 1"
  "kind_byte KRelease = 2"
  "kind_byte KCall = 3"
  "kind_byte KAbort = 4"
  "kind_byte KBound = 5"
  "kind_byte KState = 6"
  "kind_byte KFailed = 7"
  "kind_byte KResult = 8"
  "kind_byte KError = 9"
  "kind_byte KGone = 10"
  "kind_byte KRetry = 11"
  "kind_byte KLoading = 12"
  "kind_byte KAck = 13"
  "kind_byte KClosed = 14"
  "kind_byte KPing = 15"
  "kind_byte KPong = 16"
  "kind_byte KRevoke = 17"
  by (simp_all add: kind_byte_def kinds_def)

lemma kind_byte_read:
  "unat (of_nat (kind_byte k) :: byte) = kind_byte k \<and> unat (of_nat (kind_byte k OR origin_flag) :: byte) = kind_byte k OR origin_flag"
  by (cases k) (simp_all add: kind_bytes origin_flag_def)

lemma kind_byte_flags:
  "kind_byte k < length kinds \<and> kinds ! kind_byte k = k \<and> kind_byte k AND origin_flag = 0 \<and> kind_byte k AND 0x7F = kind_byte k \<and>
   (kind_byte k OR origin_flag) AND origin_flag \<noteq> 0 \<and> (kind_byte k OR origin_flag) AND 0x7F = kind_byte k"
  by (cases k) (simp_all add: kind_bytes kinds_def origin_flag_def)

lemma decode_message_bytes:
  assumes "message_ok stringify parse m"
  shows "decode_link parse (message_bytes stringify m @ rest) = (if rest = [] then Inr (received m) else Inl BytesAfterMessage)"
proof -
  let ?k = "kind_of (snd m)"
  have body: "decode_fields parse ?k (body_bytes stringify (snd m) @ rest) = Inr (received_body (snd m), rest)"
    using assms decode_body [of stringify parse "snd m" rest] by (simp add: message_ok_def)
  show ?thesis
  proof (cases "fst m")
    case None
    then show ?thesis
      using body kind_byte_read [of ?k] kind_byte_flags [of ?k]
      by (simp add: decode_link_def message_bytes_def r_byte_def r_optional_def received_def Let_def)
  next
    case (Some origin)
    then have "num_ok origin"
      using assms by (simp add: message_ok_def)
    then show ?thesis
      using Some body kind_byte_read [of ?k] kind_byte_flags [of ?k]
      by (simp add: decode_link_def message_bytes_def r_byte_def r_optional_def received_def Let_def reads)
  qed
qed

text \<open>
  C39: Every message of a link within the codec's bounds is encoded, and decoding its bytes gives the
  message: with its text parts as UTF-8 bytes, its deflated parts not yet inflated, and a \<open>closed\<close> that had
  no origin with origin 0.\<close>

theorem link_roundtrip:
  assumes "message_ok stringify parse m"
  shows "rbind (encode_link stringify m) (decode_link parse) = Inr (received m)"
  using decode_message_bytes [OF assms, of "[]"] by (simp add: encode_link_bytes [OF assms])

text \<open>
  The bytes of one message are never read as another one with more behind it: whatever follows an
  encoded message, decoding is refused.\<close>

theorem bytes_after_refused:
  assumes "message_ok stringify parse m" "encode_link stringify m = Inr bs" "rest \<noteq> []"
  shows "decode_link parse (bs @ rest) = Inl BytesAfterMessage"
  using decode_message_bytes [OF assms(1), of rest] assms(2,3) by (simp add: encode_link_bytes [OF assms(1)])

section \<open>Examples\<close>

definition null_text :: jsstr where
  "null_text = [110, 117, 108, 108]"

definition unit_text :: "unit \<Rightarrow> jsstr" where
  "unit_text _ = null_text"

definition unit_parse :: "jsstr \<Rightarrow> unit option" where
  "unit_parse s = (if s = null_text then Some () else None)"

lemma unit_json_ok: "json_ok unit_text unit_parse v"
  by (simp add: json_ok_def unit_text_def unit_parse_def string_ok_def text_ok_def null_text_def utf8_encode_def
      point_bytes_def lead_unit_def trail_unit_def)

theorem link_roundtrip_witness:
  "rbind (encode_link unit_text (Some 3, State [\<lparr>se_hold = 300, se_members = [(1, BytesPart [7])], se_failed = [(2, ())], se_retired = [4]\<rparr>]))
     (decode_link unit_parse)
     = Inr (Some 3, State [\<lparr>se_hold = 300, se_members = [(1, BytesPart [7])], se_failed = [(2, ())], se_retired = [4]\<rparr>])"
proof -
  let ?m = "(Some 3, State [\<lparr>se_hold = 300, se_members = [(1, BytesPart [7])], se_failed = [(2, ())], se_retired = [4]\<rparr>])"
  have "message_ok unit_text unit_parse ?m"
    by (simp add: message_ok_def state_entry_ok_def failed_ok_def failed_entry_ok_def member_ok_def unit_json_ok num_ok_def max_varint_def)
  from link_roundtrip [OF this] show ?thesis
    by (simp add: received_def received_state_def)
qed

theorem bytes_after_refused_witness:
  "decode_link unit_parse ([2, 5] @ [0]) = Inl BytesAfterMessage"
proof -
  have ok: "message_ok unit_text unit_parse (None, Release 5)"
    by (simp add: message_ok_def num_ok_def max_varint_def)
  then have "encode_link unit_text (None, Release 5) = Inr [2, 5]"
    by (simp add: encode_link_bytes message_bytes_def kind_bytes) (simp add: varint_bytes.simps)
  from bytes_after_refused [OF ok this, of "[0]"] show ?thesis
    by simp
qed

end
