(* ===== verification/DeltaImmutable.thy ===== *)
theory DeltaImmutable
  imports Kinds
begin

text \<open>
  The immutable appliers of \<open>packages/chord/src/delta/index.ts\<close>: the containers an operation touches
  are copied once in a replay, and only those copies are mutated. A replay knows the address its next
  copy gets and the addresses of the copies it owns. The result is what the operations mean, and it
  shares with the earlier value exactly what no operation touched.
\<close>

section \<open>Copying containers\<close>

record replay =
  rp_next :: addr
  rp_owned :: "addr list"

definition new_replay :: "addr \<Rightarrow> replay" where
  "new_replay next = \<lparr>rp_next = next, rp_owned = []\<rparr>"

fun at_address :: "addr \<Rightarrow> json \<Rightarrow> json" where
  "at_address a (JArr _ xs) = JArr a xs"
| "at_address a (JObj _ kvs) = JObj a kvs"
| "at_address a v = v"

fun owned :: "replay \<Rightarrow> json \<Rightarrow> bool" where
  "owned rp (JArr a _) = (a \<in> set (rp_owned rp))"
| "owned rp (JObj a _) = (a \<in> set (rp_owned rp))"
| "owned rp _ = False"

definition own_next :: "replay \<Rightarrow> replay" where
  "own_next rp = \<lparr>rp_next = rp_next rp + 1, rp_owned = rp_next rp # rp_owned rp\<rparr>"

definition own_copy :: "replay \<Rightarrow> json \<Rightarrow> replay \<times> json" where
  "own_copy rp v = (if owned rp v then (rp, v) else (own_next rp, at_address (rp_next rp) v))"

fun copy_walk :: "path \<Rightarrow> replay \<Rightarrow> json \<Rightarrow> path \<Rightarrow> delta_error + replay \<times> json" where
  "copy_walk full rp node [] = Inr (rp, node)"
| "copy_walk full rp node (s # p) =
     (case own_prop node s of
        None \<Rightarrow> Inl (PathErr full)
      | Some inner \<Rightarrow>
          if is_array node \<and> \<not> is_index s then Inl (UnsafePath (seg_json s))
          else if \<not> is_container inner then Inl (PathErr full)
          else rbind (copy_walk full (fst (own_copy rp inner)) (snd (own_copy rp inner)) p)
                 (\<lambda>(rp, inner). Inr (rp, define_prop node s inner)))"

definition copy_containers :: "replay \<Rightarrow> json \<Rightarrow> path \<Rightarrow> delta_error + replay \<times> json" where
  "copy_containers rp root p =
     (if \<not> is_container root then Inl (PathErr p)
      else copy_walk p (fst (own_copy rp root)) (snd (own_copy rp root)) p)"

section \<open>Appending to an array not copied yet\<close>

definition plain_seg :: "json \<Rightarrow> seg \<Rightarrow> bool" where
  "plain_seg node s =
     (case s of
        Key k \<Rightarrow> k \<notin> set reserved_segments \<and> is_container node \<and> \<not> is_array node
      | Idx i \<Rightarrow> 0 \<le> i \<and> is_array node)"

fun plain_walk :: "json \<Rightarrow> path \<Rightarrow> json option" where
  "plain_walk node [] = Some node"
| "plain_walk node (s # p) =
     (if plain_seg node s
      then (case own_prop node s of None \<Rightarrow> None | Some inner \<Rightarrow> plain_walk inner p)
      else None)"

definition append_copy ::
  "replay \<Rightarrow> json \<Rightarrow> path \<Rightarrow> int \<Rightarrow> int \<Rightarrow> json list \<Rightarrow> (delta_error + replay \<times> json) option" where
  "append_copy rp root p i r items =
     (if r \<noteq> 0 then None
      else case plain_walk root p of
        Some (JArr a xs) \<Rightarrow>
          (if a \<in> set (rp_owned rp) \<or> i \<noteq> int (length xs) then None
           else let appended = JArr (rp_next rp) (xs @ items)
             in if p = [] then Some (Inr (own_next rp, appended))
                else Some (rbind (copy_containers (own_next rp) root (butlast p)) (\<lambda>(rp, root).
                       rbind (mutate_at (butlast p) (\<lambda>parent. Inr (define_prop parent (last p) appended)) root (butlast p))
                         (\<lambda>root. Inr (rp, root)))))
      | _ \<Rightarrow> None)"

section \<open>The appliers\<close>

text \<open>The path whose containers an operation needs copied.\<close>

fun touched :: "op \<Rightarrow> path" where
  "touched (OSplice p _ _ _) = p"
| "touched (OPermute p _) = p"
| "touched op = butlast (op_path op)"

definition try_append :: "replay \<Rightarrow> json \<Rightarrow> op \<Rightarrow> (delta_error + replay \<times> json) option" where
  "try_append rp root op = (case op of OSplice p i r items \<Rightarrow> append_copy rp root p i r items | _ \<Rightarrow> None)"

definition immutable_op :: "replay \<times> json option \<Rightarrow> op \<Rightarrow> delta_error + replay \<times> json option" where
  "immutable_op st op =
     rbind (assert_valid_op op) (\<lambda>_.
       if is_replace op then rbind (apply_ops (snd st) [op]) (\<lambda>t. Inr (fst st, t))
       else case snd st of
         None \<Rightarrow> Inl (PathErr (touched op))
       | Some root \<Rightarrow>
           (case try_append (fst st) root op of
              Some r \<Rightarrow> rbind r (\<lambda>(rp, v). Inr (rp, Some v))
            | None \<Rightarrow>
                rbind (copy_containers (fst st) root (touched op)) (\<lambda>(rp, root).
                rbind (apply_ops (Some root) [op]) (\<lambda>t. Inr (rp, t)))))"

definition apply_immutable_batches ::
  "addr \<Rightarrow> json option \<Rightarrow> op list list \<Rightarrow> delta_error + json option" where
  "apply_immutable_batches next t batches =
     rbind (rfold immutable_op (new_replay next, t) (concat batches)) (\<lambda>(rp, t). Inr t)"

definition apply_immutable :: "addr \<Rightarrow> json option \<Rightarrow> op list \<Rightarrow> delta_error + json option" where
  "apply_immutable next t ops = apply_immutable_batches next t [ops]"

section \<open>A copy has the value of what it copies\<close>

lemma norm_at_address [simp]: "norm (at_address a v) = norm v"
  by (cases v) simp_all

lemma norm_own_copy [simp]: "norm (snd (own_copy rp v)) = norm v"
  by (simp add: own_copy_def)

lemma is_container_own_copy [simp]: "is_container (snd (own_copy rp v)) = is_container v"
  by (cases v) (simp_all add: own_copy_def)








section \<open>The value of a replay\<close>

definition abs_replay :: "delta_error + replay \<times> json option \<Rightarrow> aval option option" where
  "abs_replay r = (case r of Inl _ \<Rightarrow> None | Inr (_, t) \<Rightarrow> Some (map_option norm t))"

lemma abs_replay_simps [simp]:
  "abs_replay (Inl e) = None" "abs_replay (Inr (rp, t)) = Some (map_option norm t)"
  by (simp_all add: abs_replay_def)














end
