(* ===== verification/DeltaSharing.thy ===== *)
theory DeltaSharing
  imports DeltaImmutable "HOL-Library.Multiset"
begin

text \<open>
  What the immutable applier leaves alone. Addresses from \<open>st\<close> on belong to copies made in the replay;
  \<open>old\<close> are the values that were there before: the target, what the operations carry, and everything in
  them. Every older container in the result is one of them, unchanged, and every copy occurs once.
\<close>

section \<open>Copies and older values\<close>

fun address :: "json \<Rightarrow> addr option" where
  "address (JArr a _) = Some a"
| "address (JObj a _) = Some a"
| "address _ = None"

fun copies :: "addr \<Rightarrow> json \<Rightarrow> addr list" where
  "copies st (JArr a xs) = (if st \<le> a then [a] else []) @ concat (map (copies st) xs)"
| "copies st (JObj a kvs) = (if st \<le> a then [a] else []) @ concat (map (copies st) (map snd kvs))"
| "copies st _ = []"

definition shares :: "addr \<Rightarrow> json set \<Rightarrow> json \<Rightarrow> bool" where
  "shares st old v \<longleftrightarrow> (\<forall>x \<in> set (subs v). \<forall>a. address x = Some a \<longrightarrow> a < st \<longrightarrow> x \<in> old)"

definition old_values :: "addr \<Rightarrow> json set \<Rightarrow> bool" where
  "old_values st old \<longleftrightarrow>
     (\<forall>x \<in> old. set (subs x) \<subseteq> old \<and> wf_json x \<and> (\<forall>a. address x = Some a \<longrightarrow> a < st))"

definition is_copy :: "addr \<Rightarrow> json \<Rightarrow> bool" where
  "is_copy st v \<longleftrightarrow> (\<exists>a. address v = Some a \<and> st \<le> a)"

lemma shares_arr: "st \<le> a \<Longrightarrow> shares st old (JArr a xs) \<longleftrightarrow> (\<forall>x \<in> set xs. shares st old x)"
  by (auto simp: shares_def)

lemma shares_obj: "st \<le> a \<Longrightarrow> shares st old (JObj a kvs) \<longleftrightarrow> (\<forall>x \<in> snd ` set kvs. shares st old x)"
  by (auto simp: shares_def)

lemma old_shares: "old_values st old \<Longrightarrow> x \<in> old \<Longrightarrow> shares st old x"
  by (auto simp: old_values_def shares_def)

lemma old_elem:
  "old_values st old \<Longrightarrow> JArr a xs \<in> old \<Longrightarrow> x \<in> set xs \<Longrightarrow> x \<in> old"
  "old_values st old \<Longrightarrow> JObj a kvs \<in> old \<Longrightarrow> x \<in> snd ` set kvs \<Longrightarrow> x \<in> old"
  by (fastforce simp: old_values_def)+

lemma old_copies: "old_values st old \<Longrightarrow> x \<in> old \<Longrightarrow> copies st x = []"
proof (induction x rule: copies.induct)
  case (1 st a xs)
  then show ?case
    using old_elem(1) [OF 1(2,3)] by (auto simp: old_values_def)
next
  case (2 st a kvs)
  then show ?case
    using old_elem(2) [OF 2(2,3)] by (fastforce simp: old_values_def)
qed simp_all

lemma shares_old: "shares st old v \<Longrightarrow> address v = Some a \<Longrightarrow> a < st \<Longrightarrow> v \<in> old"
  by (simp add: shares_def)

section \<open>Lists of values\<close>

definition all_copies :: "addr \<Rightarrow> json list \<Rightarrow> addr multiset" where
  "all_copies st xs = mset (concat (map (copies st) xs))"

lemma all_copies_simps [simp]:
  "all_copies st [] = {#}"
  "all_copies st (x # xs) = mset (copies st x) + all_copies st xs"
  "all_copies st (xs @ ys) = all_copies st xs + all_copies st ys"
  by (simp_all add: all_copies_def)

lemma mset_copies:
  "st \<le> a \<Longrightarrow> mset (copies st (JArr a xs)) = {#a#} + all_copies st xs"
  "st \<le> a \<Longrightarrow> mset (copies st (JObj a kvs)) = {#a#} + all_copies st (map snd kvs)"
  by (simp_all add: all_copies_def)

lemma all_copies_nth: "i < length xs \<Longrightarrow> all_copies st xs = all_copies st (take i xs) + mset (copies st (xs ! i)) + all_copies st (drop (Suc i) xs)"
  by (subst id_take_nth_drop [of i xs]) simp_all

lemma all_copies_update:
  "i < length xs \<Longrightarrow> all_copies st (xs[i := c]) = all_copies st (take i xs) + mset (copies st c) + all_copies st (drop (Suc i) xs)"
  by (simp add: upd_conv_take_nth_drop)

lemma all_copies_put:
  "distinct (map fst kvs) \<Longrightarrow> map_of kvs k = Some d \<Longrightarrow>
   all_copies st (map snd (al_put k c kvs)) + mset (copies st d) = all_copies st (map snd kvs) + mset (copies st c)"
proof (induction kvs)
  case (Cons kv kvs)
  then show ?case
    by (cases kv) (auto simp: add.assoc add.commute add.left_commute)
qed simp

lemma all_copies_put_new:
  "map_of kvs k = None \<Longrightarrow> all_copies st (map snd (al_put k c kvs)) = all_copies st (map snd kvs) + mset (copies st c)"
  by (induction kvs) (auto split: if_split_asm)

lemma all_copies_del: "all_copies st (map snd (al_del k kvs)) \<subseteq># all_copies st (map snd kvs)"
  by (induction kvs) (auto simp: al_del_def intro: subset_mset.add_mono subset_mset.add_increasing)

lemma all_copies_old: "old_values st old \<Longrightarrow> set xs \<subseteq> old \<Longrightarrow> all_copies st xs = {#}"
  by (induction xs) (simp_all add: old_copies)

section \<open>Writing into a copy\<close>

definition kept :: "addr \<Rightarrow> json set \<Rightarrow> json \<Rightarrow> bool" where
  "kept st old v \<longleftrightarrow> shares st old v \<and> wf_json v"

lemma kept_arr: "st \<le> a \<Longrightarrow> kept st old (JArr a xs) \<longleftrightarrow> (\<forall>x \<in> set xs. kept st old x)"
  by (auto simp: kept_def shares_arr list_all_iff)

lemma kept_obj:
  "st \<le> a \<Longrightarrow> kept st old (JObj a kvs) \<longleftrightarrow> distinct (map fst kvs) \<and> (\<forall>x \<in> snd ` set kvs. kept st old x)"
  by (auto simp: kept_def shares_obj list_all_iff)

lemma kept_old: "old_values st old \<Longrightarrow> x \<in> old \<Longrightarrow> kept st old x"
  by (simp add: kept_def old_shares) (simp add: old_values_def)

lemma kept_child: "kept st old node \<Longrightarrow> own_prop node s = Some d \<Longrightarrow> is_array node \<longrightarrow> is_index s \<Longrightarrow> kept st old d"
proof (cases node)
  case (JArr a xs)
  assume k: "kept st old node" "own_prop node s = Some d" "is_array node \<longrightarrow> is_index s"
  then have "d \<in> set xs"
    using JArr by (cases s) (auto split: if_splits)
  then have "d \<in> set (subs node)"
    by (metis JArr subs_elem subs_self)
  then show ?thesis
    using k(1) \<open>d \<in> set xs\<close> JArr by (auto simp: kept_def shares_def list_all_iff dest: subs_trans)
next
  case (JObj a kvs)
  assume k: "kept st old node" "own_prop node s = Some d"
  then have "d \<in> snd ` set kvs"
    using JObj by (force dest: map_of_SomeD)
  then obtain k where "(k, d) \<in> set kvs"
    by auto
  then have "d \<in> set (subs node)"
    by (metis JObj subs_field subs_self)
  then show ?thesis
    using k(1) \<open>d \<in> snd ` set kvs\<close> JObj by (auto simp: kept_def shares_def list_all_iff dest: subs_trans)
qed simp_all

lemma is_copy_cases:
  assumes "is_copy st node"
  obtains (arr) a xs where "node = JArr a xs" "st \<le> a" | (obj) a kvs where "node = JObj a kvs" "st \<le> a"
  using assms by (cases node) (auto simp: is_copy_def)

lemma define_kept:
  assumes "is_copy st node" "kept st old node" "kept st old c" "own_prop node s = Some d" "is_array node \<longrightarrow> is_index s"
  shows "kept st old (define_prop node s c) \<and> address (define_prop node s c) = address node \<and>
    own_prop (define_prop node s c) s = Some c \<and> is_array (define_prop node s c) = is_array node \<and>
    mset (copies st (define_prop node s c)) + mset (copies st d) = mset (copies st node) + mset (copies st c)"
  using assms(1)
proof (cases rule: is_copy_cases)
  case (arr a xs)
  then obtain i where i: "s = Idx i" "0 \<le> i" "nat i < length xs" "d = xs ! nat i"
    using assms(4,5) by (cases s) (auto split: if_splits)
  have "\<forall>x \<in> set (xs[nat i := c]). kept st old x"
    using assms(2,3) arr set_update_subset_insert [of xs "nat i" c] by (auto simp: kept_arr)
  then show ?thesis
    using arr i all_copies_nth [of "nat i" xs st]
    by (simp add: kept_arr mset_copies all_copies_update del: copies.simps)
next
  case (obj a kvs)
  then have lk: "map_of kvs (seg_text s) = Some d"
    using assms(4) by simp
  have k: "distinct (map fst kvs)" "\<forall>x \<in> snd ` set kvs. kept st old x"
    using assms(2) obj by (simp_all add: kept_obj)
  then have "distinct (map fst (al_put (seg_text s) c kvs))" "\<forall>x \<in> snd ` set (al_put (seg_text s) c kvs). kept st old x"
    using assms(3) set_al_put [of "seg_text s" c kvs] by (auto simp: distinct_al_put)
  then show ?thesis
    using obj lk all_copies_put [OF k(1) lk, of st c]
    by (cases s) (simp_all add: kept_obj mset_copies map_of_al_put del: copies.simps)
qed

section \<open>Copying a path\<close>

fun copied_path :: "addr \<Rightarrow> json \<Rightarrow> path \<Rightarrow> bool" where
  "copied_path st node [] = is_copy st node"
| "copied_path st node (s # p) =
     (is_copy st node \<and> (is_array node \<longrightarrow> is_index s) \<and>
      (case own_prop node s of None \<Rightarrow> False | Some d \<Rightarrow> copied_path st d p))"

definition wf_replay :: "addr \<Rightarrow> replay \<Rightarrow> bool" where
  "wf_replay st rp \<longleftrightarrow> st \<le> rp_next rp \<and> set (rp_owned rp) \<subseteq> {st..<rp_next rp}"

definition advanced :: "replay \<Rightarrow> replay \<Rightarrow> bool" where
  "advanced rp rp' \<longleftrightarrow> rp_next rp \<le> rp_next rp' \<and> set (rp_owned rp') = set (rp_owned rp) \<union> {rp_next rp..<rp_next rp'}"

lemma advanced_refl [simp]: "advanced rp rp"
  by (simp add: advanced_def)

lemma advanced_trans: "advanced rp rp1 \<Longrightarrow> advanced rp1 rp2 \<Longrightarrow> advanced rp rp2"
  by (auto simp: advanced_def)

lemma advanced_wf: "wf_replay st rp \<Longrightarrow> advanced rp rp' \<Longrightarrow> wf_replay st rp'"
  by (auto simp: wf_replay_def advanced_def)

lemma advanced_own_next: "advanced rp (own_next rp)"
  by (auto simp: advanced_def own_next_def)

definition new_copies :: "replay \<Rightarrow> replay \<Rightarrow> addr multiset" where
  "new_copies rp rp' = mset [rp_next rp..<rp_next rp']"

lemma new_copies_trans:
  "advanced rp rp1 \<Longrightarrow> advanced rp1 rp2 \<Longrightarrow> new_copies rp rp1 + new_copies rp1 rp2 = new_copies rp rp2"
  unfolding new_copies_def advanced_def by (metis le_add_diff_inverse mset_append upt_add_eq_append)

lemma own_copy_kept:
  assumes old: "old_values st old" and rp: "wf_replay st rp" and k: "kept st old v" "is_container v"
    and o: "set (copies st v) \<subseteq> set (rp_owned rp)" and c: "own_copy rp v = (rp', w)"
  shows "kept st old w \<and> is_copy st w \<and> advanced rp rp' \<and> is_array w = is_array v \<and>
    mset (copies st w) = mset (copies st v) + new_copies rp rp'"
proof (cases "owned rp v")
  case True
  then have "rp' = rp" "w = v"
    using c by (simp_all add: own_copy_def)
  moreover have "is_copy st v"
    using True rp k(2) by (cases v) (auto simp: is_copy_def wf_replay_def)
  ultimately show ?thesis
    using k by (simp add: new_copies_def)
next
  case False
  then have w: "rp' = own_next rp" "w = at_address (rp_next rp) v"
    using c by (simp_all add: own_copy_def)
  obtain a where a: "address v = Some a"
    using k(2) by (cases v) simp_all
  have "a < st"
  proof (rule ccontr)
    assume "\<not> a < st"
    then have "a \<in> set (rp_owned rp)"
      using a o by (cases v) auto
    then show False
      using False a by (cases v) auto
  qed
  then have v: "v \<in> old"
    using k(1) a shares_old by (auto simp: kept_def)
  have n: "st \<le> rp_next rp" "new_copies rp (own_next rp) = {#rp_next rp#}"
    using rp by (simp_all add: wf_replay_def new_copies_def own_next_def)
  show ?thesis
  proof (cases v)
    case (JArr a xs)
    have "set xs \<subseteq> old"
      using old_elem(1) [OF old] v JArr by auto
    then show ?thesis
      using w n JArr old_copies [OF old v] all_copies_old [OF old] kept_old [OF old] advanced_own_next [of rp]
      by (auto simp: kept_arr mset_copies is_copy_def simp del: copies.simps)
  next
    case (JObj a kvs)
    have "set (map snd kvs) \<subseteq> old"
      using old_elem(2) [OF old] v JObj by auto
    moreover have "distinct (map fst kvs)"
      using k(1) JObj by (simp add: kept_def)
    ultimately show ?thesis
      using w n JObj old_copies [OF old v] all_copies_old [OF old, of "map snd kvs"] kept_old [OF old] advanced_own_next [of rp]
      by (auto simp: kept_obj mset_copies is_copy_def simp del: copies.simps)
  qed (use k in simp_all)
qed

lemma copies_child:
  "own_prop node s = Some d \<Longrightarrow> is_array node \<longrightarrow> is_index s \<Longrightarrow> set (copies st d) \<subseteq> set (copies st node)"
proof (cases node)
  case (JArr a xs)
  assume "own_prop node s = Some d" "is_array node \<longrightarrow> is_index s"
  then have "d \<in> set xs"
    using JArr by (cases s) (auto split: if_splits)
  then show ?thesis using JArr by auto
next
  case (JObj a kvs)
  assume "own_prop node s = Some d"
  then have "d \<in> snd ` set kvs"
    using JObj by (force dest: map_of_SomeD)
  then show ?thesis using JObj by auto
qed simp_all

lemma copy_walk_kept:
  assumes old: "old_values st old"
  shows "copy_walk full rp node p = Inr (rp', node') \<Longrightarrow> wf_replay st rp \<Longrightarrow> is_copy st node \<Longrightarrow> kept st old node \<Longrightarrow>
    set (copies st node) \<subseteq> set (rp_owned rp) \<Longrightarrow>
    kept st old node' \<and> address node' = address node \<and> is_array node' = is_array node \<and> copied_path st node' p \<and>
    advanced rp rp' \<and> mset (copies st node') = mset (copies st node) + new_copies rp rp'"
proof (induction full rp node p arbitrary: rp' node' rule: copy_walk.induct)
  case (1 full rp node)
  then show ?case by (simp add: new_copies_def)
next
  case (2 full rp node s p)
  obtain d rp1 d1 d2 where d: "own_prop node s = Some d" "is_array node \<longrightarrow> is_index s" "is_container d"
    and c: "own_copy rp d = (rp1, d1)" and w: "copy_walk full rp1 d1 p = Inr (rp', d2)" and n': "node' = define_prop node s d2"
    using "2.prems"(1)
    by (auto simp: rbind_Inr_conv prod_eq_iff split: option.split_asm if_split_asm intro: that)
  have "set (copies st d) \<subseteq> set (rp_owned rp)"
    using copies_child [OF d(1,2)] "2.prems"(5) by blast
  then have d1: "kept st old d1" "is_copy st d1" "advanced rp rp1" "mset (copies st d1) = mset (copies st d) + new_copies rp rp1"
    using own_copy_kept [OF old "2.prems"(2) kept_child [OF "2.prems"(4) d(1,2)] d(3) _ c] by auto
  have "set (copies st d1) \<subseteq> set (rp_owned rp1)"
  proof -
    have "set (copies st d1) = set_mset (mset (copies st d) + new_copies rp rp1)"
      by (metis d1(4) set_mset_mset)
    then show ?thesis
      using \<open>set (copies st d) \<subseteq> set (rp_owned rp)\<close> d1(3) by (auto simp: new_copies_def advanced_def)
  qed
  then have d2: "kept st old d2" "copied_path st d2 p" "advanced rp1 rp'" "mset (copies st d2) = mset (copies st d1) + new_copies rp1 rp'"
    using "2.IH" [OF d(1)] d(2,3) c w d1(1,2) advanced_wf [OF "2.prems"(2) d1(3)] by auto
  note def = define_kept [OF "2.prems"(3,4) d2(1) d(1,2)]
  have "mset (copies st node') = mset (copies st node) + new_copies rp rp'"
    using def n' d2(4) d1(4) new_copies_trans [OF d1(3) d2(3)] by (simp add: add.assoc add.commute add.left_commute)
  then show ?case
    using def n' d2(2) d(2) advanced_trans [OF d1(3) d2(3)] "2.prems"(3) by (simp add: is_copy_def)
qed

lemma copy_containers_kept:
  assumes old: "old_values st old" and c: "copy_containers rp root p = Inr (rp', root')"
    and rp: "wf_replay st rp" "kept st old root" "set (copies st root) \<subseteq> set (rp_owned rp)"
  shows "kept st old root' \<and> copied_path st root' p \<and> advanced rp rp' \<and>
    mset (copies st root') = mset (copies st root) + new_copies rp rp'"
proof -
  obtain rp1 root1 where o: "own_copy rp root = (rp1, root1)" "is_container root" "copy_walk p rp1 root1 p = Inr (rp', root')"
    using c by (cases "own_copy rp root") (auto simp: copy_containers_def split: if_split_asm)
  note r1 = own_copy_kept [OF old rp(1,2) o(2) rp(3) o(1)]
  have "set (copies st root1) = set_mset (mset (copies st root) + new_copies rp rp1)"
    using r1 by (metis set_mset_mset)
  then have "set (copies st root1) \<subseteq> set (rp_owned rp1)"
    using rp(3) r1 by (auto simp: new_copies_def advanced_def)
  then show ?thesis
    using copy_walk_kept [OF old o(3) advanced_wf [OF rp(1)]] r1 new_copies_trans [of rp rp1 rp'] advanced_trans [of rp rp1 rp']
    by (auto simp: add.assoc)
qed

section \<open>Mutating what was copied\<close>

text \<open>A mutation keeps a copy: it stays where it is and gains no copies but those of \<open>extra\<close>.\<close>

definition mutates :: "addr \<Rightarrow> json set \<Rightarrow> addr multiset \<Rightarrow> (json \<Rightarrow> delta_error + json) \<Rightarrow> bool" where
  "mutates st old extra f \<longleftrightarrow>
     (\<forall>n n'. is_copy st n \<longrightarrow> kept st old n \<longrightarrow> f n = Inr n' \<longrightarrow>
        kept st old n' \<and> address n' = address n \<and> mset (copies st n') \<subseteq># mset (copies st n) + extra)"

lemma mutatesD:
  "mutates st old extra f \<Longrightarrow> is_copy st n \<Longrightarrow> kept st old n \<Longrightarrow> f n = Inr n' \<Longrightarrow>
   kept st old n' \<and> address n' = address n \<and> mset (copies st n') \<subseteq># mset (copies st n) + extra"
  by (simp add: mutates_def)

lemma subset_swap:
  assumes "A + C = D + B" "B \<subseteq># C + E"
  shows "A \<subseteq># D + (E :: 'a multiset)"
proof (rule mset_subset_eqI)
  fix x
  have "count (A + C) x = count (D + B) x" "count B x \<le> count (C + E) x"
    using assms by (simp, intro mset_subset_eq_count)
  then show "count A x \<le> count (D + E) x"
    by simp
qed

lemma mutate_at_kept:
  "mutate_at full f node p = Inr node' \<Longrightarrow> mutates st old extra f \<Longrightarrow> copied_path st node p \<Longrightarrow> kept st old node \<Longrightarrow>
    kept st old node' \<and> address node' = address node \<and> mset (copies st node') \<subseteq># mset (copies st node) + extra"
proof (induction full f node p arbitrary: node' rule: mutate_at.induct)
  case (1 full f node)
  then show ?case
    using mutatesD [of st old extra f node node'] by (simp split: if_splits)
next
  case (2 full f node s p)
  obtain d d' where d: "own_prop node s = Some d" "is_array node \<longrightarrow> is_index s" "mutate_at full f d p = Inr d'"
      "node' = define_prop node s d'" "is_copy st node" "copied_path st d p" "is_container node"
    using "2.prems"(1,3) by (auto simp: rbind_Inr_conv split: option.split_asm if_split_asm)
  have d': "kept st old d'" "mset (copies st d') \<subseteq># mset (copies st d) + extra"
    using "2.IH" [OF _ _ d(1,3) "2.prems"(2) d(6) kept_child [OF "2.prems"(4) d(1,2)]] d(2,7) by auto
  show ?case
    using define_kept [OF d(5) "2.prems"(4) d'(1) d(1,2)] subset_swap [OF _ d'(2)] d(4) by auto
qed

text \<open>What the operations write comes from the operations.\<close>

fun op_values :: "op \<Rightarrow> json list" where
  "op_values (OReplace v) = [v]"
| "op_values (OSet _ v) = [v]"
| "op_values (OSplice _ _ _ items) = items"
| "op_values _ = []"

lemma kept_leaf: "kept st old (JStr s)" "copies st (JStr s) = []"
  by (simp_all add: kept_def shares_def)

lemma define_new_kept:
  assumes "is_copy st node" "kept st old node" "kept st old c"
  shows "kept st old (define_prop node s c) \<and> address (define_prop node s c) = address node \<and>
    mset (copies st (define_prop node s c)) \<subseteq># mset (copies st node) + mset (copies st c)"
  using assms(1)
proof (cases rule: is_copy_cases)
  case (arr a xs)
  show ?thesis
  proof (cases s)
    case (Idx i)
    have "\<forall>x \<in> set (xs[nat i := c]). kept st old x"
      using assms(2,3) arr set_update_subset_insert [of xs "nat i" c] by (auto simp: kept_arr)
    moreover have "all_copies st (xs[nat i := c]) \<subseteq># all_copies st xs + mset (copies st c)" if "nat i < length xs"
      using all_copies_nth [OF that, of st] all_copies_update [OF that, of st c] by (simp add: ac_simps)
    ultimately show ?thesis
      using assms(2,3) arr Idx by (auto simp: kept_arr mset_copies simp del: copies.simps)
  qed (use assms(2) arr in simp)
next
  case (obj a kvs)
  have k: "distinct (map fst kvs)" "\<forall>x \<in> snd ` set kvs. kept st old x"
    using assms(2) obj by (simp_all add: kept_obj)
  then have "distinct (map fst (al_put (seg_text s) c kvs))" "\<forall>x \<in> snd ` set (al_put (seg_text s) c kvs). kept st old x"
    using assms(3) set_al_put [of "seg_text s" c kvs] by (auto simp: distinct_al_put)
  moreover have "all_copies st (map snd (al_put (seg_text s) c kvs)) \<subseteq># all_copies st (map snd kvs) + mset (copies st c)"
  proof (cases "map_of kvs (seg_text s)")
    case None
    then show ?thesis by (simp add: all_copies_put_new)
  next
    case (Some d)
    then show ?thesis
      using all_copies_put [OF k(1) Some, of st c] by (metis mset_subset_eq_add_left)
  qed
  ultimately show ?thesis
    using obj by (cases s) (simp_all add: kept_obj mset_copies del: copies.simps)
qed

lemma all_copies_parts:
  "all_copies st xs = all_copies st (take i xs) + all_copies st (take n (drop i xs)) + all_copies st (drop (i + n) xs)"
proof -
  have "xs = take i xs @ take n (drop i xs) @ drop (i + n) xs"
    by (metis add.commute append_take_drop_id drop_drop)
  then show ?thesis
    by (metis all_copies_simps(3) add.assoc)
qed

lemma all_copies_splice: "all_copies st (splice i r items xs) \<subseteq># all_copies st xs + all_copies st items"
proof -
  let ?i = "min i (length xs)" let ?n = "min r (length xs - ?i)"
  show ?thesis
    unfolding splice_def Let_def all_copies_parts [of st xs ?i ?n] by (simp add: ac_simps)
qed

lemma set_splice: "set (splice i r items xs) \<subseteq> set xs \<union> set items"
  unfolding splice_def Let_def by (auto dest: in_set_takeD in_set_dropD)

lemma all_copies_permute:
  assumes "assert_permutation perm = Inr ()" "length xs = length perm"
  shows "all_copies st (map (\<lambda>i. xs ! nat i) perm) = all_copies st xs"
proof -
  let ?q = "map nat perm"
  have p: "distinct perm" "\<forall>i \<in> set perm. 0 \<le> i \<and> i < int (length perm)"
    using assms(1) by (simp_all add: assert_permutation_iff)
  then have "distinct ?q" "set ?q \<subseteq> {..<length xs}" "length ?q = length xs"
    using assms(2) by (auto simp: distinct_map inj_on_def eq_nat_nat_iff)
  then have "set ?q = {..<length xs}"
    by (metis card_lessThan card_subset_eq distinct_card finite_lessThan)
  then have "mset ?q = mset [0..<length xs]"
    using \<open>distinct ?q\<close> by (metis atLeast_upt distinct_upt set_eq_iff_mset_eq_distinct)
  then have "mset (map ((!) xs) ?q) = mset (map ((!) xs) [0..<length xs])"
    by (metis mset_map)
  then have m: "mset (map (\<lambda>i. xs ! nat i) perm) = mset xs"
    by (simp add: map_nth comp_def)
  have "all_copies st ys = \<Sum>\<^sub># (image_mset (mset \<circ> copies st) (mset ys))" for ys
    by (induction ys) simp_all
  then show ?thesis
    using m by simp
qed

lemma kept_splice:
  assumes "is_copy st (JArr a xs)" "kept st old (JArr a xs)" "\<forall>x \<in> set items. kept st old x"
  shows "kept st old (JArr a (splice i r items xs)) \<and>
    mset (copies st (JArr a (splice i r items xs))) \<subseteq># mset (copies st (JArr a xs)) + all_copies st items"
proof -
  have a: "st \<le> a"
    using assms(1) by (simp add: is_copy_def)
  show ?thesis
    using assms(2,3) a set_splice [of i r items xs] all_copies_splice [of st i r items xs]
    by (auto simp: kept_arr mset_copies simp del: copies.simps)
qed

lemma splice_mutates:
  assumes "\<forall>x \<in> set items. kept st old x" "all_copies st items = {#}"
  shows "mutates st old {#} (splice_target p i r items)"
  unfolding mutates_def
proof (intro allI impI)
  fix n n' assume n: "is_copy st n" "kept st old n" "splice_target p i r items n = Inr n'"
  from n(1) show "kept st old n' \<and> address n' = address n \<and> mset (copies st n') \<subseteq># mset (copies st n) + {#}"
  proof (cases rule: is_copy_cases)
    case (arr a xs)
    then show ?thesis
      using n kept_splice [of st a xs old items "nat i" "nat r"] assms
      by (auto simp: splice_chunks_eq simp del: copies.simps)
  qed (use n(3) in simp)
qed

lemma permute_mutates:
  assumes "assert_permutation perm = Inr ()"
  shows "mutates st old {#} (permute_target p perm)"
  unfolding mutates_def
proof (intro allI impI)
  fix n n' assume n: "is_copy st n" "kept st old n" "permute_target p perm n = Inr n'"
  from n(1) show "kept st old n' \<and> address n' = address n \<and> mset (copies st n') \<subseteq># mset (copies st n) + {#}"
  proof (cases rule: is_copy_cases)
    case (arr a xs)
    then have l: "length xs = length perm" "n' = JArr a (map (\<lambda>i. xs ! nat i) perm)"
      using n(3) by (auto split: if_splits)
    have "\<forall>x \<in> set (map (\<lambda>i. xs ! nat i) perm). x \<in> set xs"
      using assms l(1) by (auto simp: assert_permutation_iff nat_less_iff)
    then show ?thesis
      using n arr l all_copies_permute [OF assms l(1), of st]
      by (auto simp: kept_arr mset_copies simp del: copies.simps)
  qed (use n(3) in simp)
qed

lemma leaf_mutates:
  assumes "\<forall>v \<in> set (op_values op). kept st old v \<and> copies st v = []"
  shows "mutates st old {#} (leaf_target op p k)"
  unfolding mutates_def
proof (intro allI impI)
  fix n n' assume n: "is_copy st n" "kept st old n" "leaf_target op p k n = Inr n'"
  then have w: "leaf_write op p k n = Inr n'"
    by (simp add: leaf_target_def rbind_Inr_conv)
  have def: "kept st old (define_prop n k c) \<and> address (define_prop n k c) = address n \<and>
      mset (copies st (define_prop n k c)) \<subseteq># mset (copies st n) + {#}" if "kept st old c" "copies st c = []" for c
    using define_new_kept [OF n(1,2) that(1), of k] that(2) by simp
  have del: "kept st old n' \<and> address n' = address n \<and> mset (copies st n') \<subseteq># mset (copies st n) + {#}"
    if "delete_prop p k n = Inr n'"
    using n(1)
  proof (cases rule: is_copy_cases)
    case (arr a xs)
    then show ?thesis
      using that n(1,2) kept_splice [of st a xs old "[]"] by (cases k) (auto split: if_splits)
  next
    case (obj a kvs)
    have "kept st old (JObj a (al_del (seg_text k) kvs))"
      using n(2) obj set_al_del [of "seg_text k" kvs] by (auto simp: kept_obj distinct_al_del)
    then show ?thesis
      using that obj all_copies_del [of st "seg_text k" kvs] by (cases k) (auto simp: mset_copies simp del: copies.simps)
  qed
  show "kept st old n' \<and> address n' = address n \<and> mset (copies st n') \<subseteq># mset (copies st n) + {#}"
    using w assms def del n(2) kept_leaf(1) [of st old] kept_leaf(2) [of st] by (cases op) (auto split: option.split_asm json.split_asm)
qed

section \<open>A replay\<close>

definition replay_ok :: "addr \<Rightarrow> json set \<Rightarrow> replay \<times> json option \<Rightarrow> bool" where
  "replay_ok st old rt \<longleftrightarrow>
     wf_replay st (fst rt) \<and>
     (case snd rt of
        None \<Rightarrow> True
      | Some v \<Rightarrow> kept st old v \<and> distinct (copies st v) \<and> set (copies st v) \<subseteq> set (rp_owned (fst rt)))"

lemma apply_one_kept:
  assumes v: "valid_op op" "\<not> is_replace op" and old: "old_values st old" "set (op_values op) \<subseteq> old"
    and c: "copied_path st root (touched op)" "kept st old root" and a: "apply_ops (Some root) [op] = Inr t"
  obtains w where "t = Some w" "kept st old w" "mset (copies st w) \<subseteq># mset (copies st root)"
proof -
  have vals: "\<forall>v \<in> set (op_values op). kept st old v \<and> copies st v = []"
    using old kept_old [OF old(1)] old_copies [OF old(1)] by auto
  have cont: "is_container root"
    using c(1) by (cases "touched op"; cases root) (auto simp: is_copy_def)
  obtain w where w: "t = Some w" "apply_op (Some root) op = Inr w"
    using a by (auto simp: apply_ops_def rbind_Inr_conv)
  have av: "assert_valid_op op = Inr ()"
    using v(1) by (simp add: valid_op_def)
  have "\<exists>full f. mutates st old {#} f \<and> mutate_at full f root (touched op) = Inr w"
  proof (cases op)
    case (OSplice p i r items)
    have "mutates st old {#} (splice_target p i r items)"
      using vals all_copies_old [OF old(1)] old(2) OSplice by (intro splice_mutates) auto
    moreover have "mutate_at p (splice_target p i r items) root p = Inr w"
      using w(2) OSplice av cont by (auto simp: apply_op_def on_root_def rbind_Inr_conv split: if_splits)
    ultimately show ?thesis using OSplice by auto
  next
    case (OPermute p perm)
    have "mutates st old {#} (permute_target p perm)"
      using av OPermute by (intro permute_mutates) (auto simp: rbind_Inr_conv)
    moreover have "mutate_at p (permute_target p perm) root p = Inr w"
      using w(2) OPermute av cont by (auto simp: apply_op_def on_root_def rbind_Inr_conv split: if_splits)
    ultimately show ?thesis using OPermute by auto
  next
    case (OReplace x)
    then show ?thesis using v(2) by (simp add: is_replace_def)
  qed (use w(2) leaf_mutates [OF vals] av in \<open>auto simp: apply_op_def on_root_def rbind_Inr_conv\<close>)
  then have "kept st old w \<and> address w = address root \<and> mset (copies st w) \<subseteq># mset (copies st root) + {#}"
    using mutate_at_kept c by blast
  then show thesis
    using that w(1) by simp
qed

lemma kept_distinct:
  assumes "wf_replay st rp" "advanced rp rp'" "distinct (copies st root)" "set (copies st root) \<subseteq> set (rp_owned rp)"
    and "mset (copies st w) \<subseteq># mset (copies st root) + new_copies rp rp'"
  shows "distinct (copies st w) \<and> set (copies st w) \<subseteq> set (rp_owned rp')"
proof -
  have "\<forall>x \<in> set (copies st root). x < rp_next rp"
    using assms(1,4) by (auto simp: wf_replay_def)
  then have "distinct (copies st root @ [rp_next rp..<rp_next rp'])"
    using assms(3) by auto
  then have one: "count (mset (copies st root) + new_copies rp rp') x \<le> 1" for x
    unfolding new_copies_def mset_append [symmetric] by (simp add: distinct_count_atmost_1)
  have "count (mset (copies st w)) x \<le> 1" for x
    using mset_subset_eq_count [OF assms(5), of x] one [of x] by linarith
  then have "distinct (copies st w)"
    by (metis count_greater_zero_iff distinct_count_atmost_1 le_antisym less_one not_gr_zero not_less set_mset_mset)
  moreover have "set (copies st w) \<subseteq> set (copies st root) \<union> {rp_next rp..<rp_next rp'}"
    using set_mset_mono [OF assms(5)] by (auto simp: new_copies_def)
  ultimately show ?thesis
    using assms(2,4) by (auto simp: advanced_def)
qed

lemma plain_seg_index: "plain_seg node s \<Longrightarrow> is_array node \<longrightarrow> is_index s"
  by (cases node; cases s) (simp_all add: plain_seg_def)

lemma plain_walk_kept:
  "plain_walk root p = Some node \<Longrightarrow> kept st old root \<Longrightarrow> kept st old node \<and> set (copies st node) \<subseteq> set (copies st root)"
proof (induction root p rule: plain_walk.induct)
  case (2 root s p)
  then obtain d where d: "plain_seg root s" "own_prop root s = Some d" "plain_walk d p = Some node"
    by (auto split: if_split_asm option.split_asm)
  note i = plain_seg_index [OF d(1)]
  have "kept st old node \<and> set (copies st node) \<subseteq> set (copies st d)"
    using "2.IH" d kept_child [OF "2.prems"(2) d(2) i] by simp
  then show ?case
    using copies_child [OF d(2) i, of st] by blast
qed simp

lemma new_copies_next: "new_copies rp (own_next rp) = {#rp_next rp#}"
  by (simp add: new_copies_def own_next_def)

lemma append_copy_kept:
  assumes old: "old_values st old" "set items \<subseteq> old" and rp: "wf_replay st rp"
    and root: "kept st old root" "set (copies st root) \<subseteq> set (rp_owned rp)"
    and a: "append_copy rp root p i r items = Some (Inr (rp', w))"
  shows "kept st old w \<and> advanced rp rp' \<and> mset (copies st w) \<subseteq># mset (copies st root) + new_copies rp rp'"
proof -
  obtain b xs where w: "plain_walk root p = Some (JArr b xs)" and b: "b \<notin> set (rp_owned rp)"
    using a by (auto simp: append_copy_def split: if_split_asm option.split_asm json.split_asm)
  have node: "kept st old (JArr b xs)" "set (copies st (JArr b xs)) \<subseteq> set (copies st root)"
    using plain_walk_kept [OF w root(1)] by auto
  then have "b < st"
    using b root(2) by (rule_tac ccontr) auto
  then have "JArr b xs \<in> old"
    using node(1) shares_old by (auto simp: kept_def)
  then have xs: "set (xs @ items) \<subseteq> old"
    using old_elem(1) [OF old(1)] old(2) by auto
  let ?new = "JArr (rp_next rp) (xs @ items)"
  have n: "st \<le> rp_next rp"
    using rp by (simp add: wf_replay_def)
  have new: "kept st old ?new" "mset (copies st ?new) = {#rp_next rp#}"
    using xs n all_copies_old [OF old(1) xs] kept_old [OF old(1)] by (auto simp: kept_arr mset_copies simp del: copies.simps)
  show ?thesis
  proof (cases "p = []")
    case True
    then have "rp' = own_next rp" "w = ?new"
      using a w by (auto simp: append_copy_def split: if_split_asm)
    then show ?thesis
      using new advanced_own_next new_copies_next by simp
  next
    case False
    then obtain q k where p: "p = q @ [k]"
      by (cases p rule: rev_cases) auto
    obtain root' where c: "copy_containers (own_next rp) root q = Inr (rp', root')"
      "mutate_at q (\<lambda>parent. Inr (define_prop parent k ?new)) root' q = Inr w"
      using a w p by (auto simp: append_copy_def rbind_Inr_conv split: if_split_asm)
    have "set (copies st root) \<subseteq> set (rp_owned (own_next rp))"
      using root(2) by (auto simp: own_next_def)
    then have r: "kept st old root'" "copied_path st root' q" "advanced (own_next rp) rp'"
      "mset (copies st root') = mset (copies st root) + new_copies (own_next rp) rp'"
      using copy_containers_kept [OF old(1) c(1) advanced_wf [OF rp advanced_own_next] root(1)] by auto
    have "mutates st old {#rp_next rp#} (\<lambda>parent. Inr (define_prop parent k ?new))"
      unfolding mutates_def using define_new_kept [OF _ _ new(1)] new(2) by (auto simp del: copies.simps)
    from mutate_at_kept [OF c(2) this r(2,1)]
    have m: "kept st old w" "mset (copies st w) \<subseteq># mset (copies st root') + {#rp_next rp#}" by auto
    have "mset (copies st root') + {#rp_next rp#} = mset (copies st root) + new_copies rp rp'"
      using r(4) new_copies_trans [OF advanced_own_next r(3)] new_copies_next [of rp] by (simp add: ac_simps)
    then show ?thesis
      using m advanced_trans [OF advanced_own_next r(3)] by simp
  qed
qed

lemma immutable_op_kept:
  assumes old: "old_values st old" "set (op_values op) \<subseteq> old"
    and ok: "replay_ok st old rt" and r: "immutable_op rt op = Inr rt'"
  shows "replay_ok st old rt'"
proof -
  obtain rp t where rt: "rt = (rp, t)" by force
  have v: "valid_op op"
    using r by (auto simp: immutable_op_def rbind_Inr_conv valid_op_def)
  then have av: "assert_valid_op op = Inr ()"
    by (simp add: valid_op_def)
  have rp: "wf_replay st rp"
    using ok rt by (simp add: replay_ok_def)
  show ?thesis
  proof (cases "is_replace op")
    case True
    then obtain x where x: "op = OReplace x"
      by (cases op) (simp_all add: is_replace_def)
    then have "rt' = (rp, Some x)"
      using r rt by (auto simp: immutable_op_def apply_ops_def apply_op_def is_replace_def)
    then show ?thesis
      using rp x old kept_old [OF old(1)] old_copies [OF old(1)] by (simp add: replay_ok_def)
  next
    case False
    then obtain root where t: "t = Some root"
      using r rt av by (cases t) (auto simp: immutable_op_def)
    have root: "kept st old root" "distinct (copies st root)" "set (copies st root) \<subseteq> set (rp_owned rp)"
      using ok rt t by (simp_all add: replay_ok_def)
    show ?thesis
    proof (cases "try_append rp root op")
      case None
      then obtain rp' root' t' where c: "copy_containers rp root (touched op) = Inr (rp', root')"
        "apply_ops (Some root') [op] = Inr t'" "rt' = (rp', t')"
        using r rt t av False by (auto simp: immutable_op_def rbind_Inr_conv)
      have c': "kept st old root'" "copied_path st root' (touched op)" "advanced rp rp'"
        "mset (copies st root') = mset (copies st root) + new_copies rp rp'"
        using copy_containers_kept [OF old(1) c(1) rp root(1,3)] by auto
      obtain w where w: "t' = Some w" "kept st old w" "mset (copies st w) \<subseteq># mset (copies st root')"
        by (rule apply_one_kept [OF v False old c'(2,1) c(2)])
      then show ?thesis
        using kept_distinct [OF rp c'(3) root(2,3), of w] c'(4) c(3) advanced_wf [OF rp c'(3)] by (simp add: replay_ok_def)
    next
      case (Some res)
      then obtain p i n items where op: "op = OSplice p i n items" "append_copy rp root p i n items = Some res"
        by (cases op) (auto simp: try_append_def)
      obtain rp' w where w: "res = Inr (rp', w)" "rt' = (rp', Some w)"
        using r rt t av False Some by (auto simp: immutable_op_def rbind_Inr_conv)
      then have k: "kept st old w" "advanced rp rp'" "mset (copies st w) \<subseteq># mset (copies st root) + new_copies rp rp'"
        using append_copy_kept [OF old(1) _ rp root(1,3), of items p i n rp' w] op old(2) by auto
      then show ?thesis
        using kept_distinct [OF rp k(2) root(2,3) k(3)] w(2) advanced_wf [OF rp k(2)] by (simp add: replay_ok_def)
    qed
  qed
qed

lemma replay_kept:
  "old_values st old \<Longrightarrow> \<forall>op \<in> set ops. set (op_values op) \<subseteq> old \<Longrightarrow> replay_ok st old rt \<Longrightarrow>
   rfold immutable_op rt ops = Inr rt' \<Longrightarrow> replay_ok st old rt'"
  by (induction ops arbitrary: rt) (auto simp: rbind_Inr_conv dest: immutable_op_kept)

section \<open>One heap\<close>

text \<open>A copy occurs once, so two occurrences of one address are one container.\<close>

lemma copy_occurs:
  "x \<in> set (subs v) \<Longrightarrow> address x = Some a \<Longrightarrow> st \<le> a \<Longrightarrow> a \<in> set (copies st v)"
  by (induction v rule: subs.induct) auto

lemma distinct_concat_same:
  "distinct (concat (map f xs)) \<Longrightarrow> x \<in> set xs \<Longrightarrow> y \<in> set xs \<Longrightarrow> a \<in> set (f x) \<Longrightarrow> a \<in> set (f y) \<Longrightarrow> x = y"
  by (induction xs) auto

lemma copy_unique_node:
  assumes node: "subs v = v # concat (map subs es)" "copies st v = (if st \<le> i then [i] else []) @ concat (map (copies st) es)"
      "address v = Some i"
    and d: "distinct (copies st v)" "x \<in> set (subs v)" "y \<in> set (subs v)" "address x = Some a" "address y = Some a" "st \<le> a"
    and IH: "\<And>e. e \<in> set es \<Longrightarrow> distinct (copies st e) \<Longrightarrow> x \<in> set (subs e) \<Longrightarrow> y \<in> set (subs e) \<Longrightarrow> x = y"
  shows "x = y"
proof -
  have dc: "distinct (concat (map (copies st) es))" "st \<le> i \<Longrightarrow> \<forall>e \<in> set es. i \<notin> set (copies st e)"
    using d(1) node(2) by (auto split: if_splits)
  have inner: "\<exists>e \<in> set es. z \<in> set (subs e) \<and> a \<in> set (copies st e)"
    if "z \<in> set (subs v)" "z \<noteq> v" "address z = Some a" for z
    using that copy_occurs [OF _ that(3) d(6)] node(1) by auto
  have self: "z = v \<or> a \<noteq> i" if "z \<in> set (subs v)" "address z = Some a" for z
    using inner [OF that(1) _ that(2)] dc(2) d(6) by auto
  show ?thesis
  proof (cases "x = v \<or> y = v")
    case True
    then have "a = i" using d(4,5) node(3) by auto
    then show ?thesis using self d(2-5) by metis
  next
    case False
    obtain e where e: "e \<in> set es" "x \<in> set (subs e)" "a \<in> set (copies st e)"
      using inner [OF d(2) _ d(4)] False by blast
    obtain e' where e': "e' \<in> set es" "y \<in> set (subs e')" "a \<in> set (copies st e')"
      using inner [OF d(3) _ d(5)] False by blast
    have "e' = e"
      using distinct_concat_same [OF dc(1) e'(1) e(1) e'(3) e(3)] .
    moreover have "distinct (copies st e)"
      using dc(1) e(1) by (auto simp: distinct_concat_iff)
    ultimately show ?thesis
      using IH [OF e(1)] e(2) e'(2) by blast
  qed
qed

lemma copy_unique:
  "distinct (copies st v) \<Longrightarrow> x \<in> set (subs v) \<Longrightarrow> y \<in> set (subs v) \<Longrightarrow> address x = Some a \<Longrightarrow> address y = Some a \<Longrightarrow>
   st \<le> a \<Longrightarrow> x = y"
proof (induction v rule: subs.induct)
  case (1 i xs)
  show ?case
    by (rule copy_unique_node [OF subs.simps(1) copies.simps(1) address.simps(1) "1.prems"]) (use 1 in blast)
next
  case (2 i kvs)
  show ?case
    by (rule copy_unique_node [OF subs.simps(2) copies.simps(2) address.simps(2) "2.prems"]) (use 2 in blast)
qed simp_all

text \<open>Every address in a value, to say that the replay's copies get addresses of their own.\<close>

definition addresses_below :: "addr \<Rightarrow> json list \<Rightarrow> bool" where
  "addresses_below st vs \<longleftrightarrow> (\<forall>x \<in> set (concat (map subs vs)). \<forall>a. address x = Some a \<longrightarrow> a < st)"

lemma old_values_of:
  "addresses_below st vs \<Longrightarrow> list_all wf_json vs \<Longrightarrow> old_values st (set (concat (map subs vs)))"
  by (auto simp: old_values_def addresses_below_def list_all_iff dest: wf_subs) (meson subs_trans subsetD)

lemma strict_eq_address: "strict_eq x y \<Longrightarrow> is_container x \<Longrightarrow> address x = address y \<and> address x \<noteq> None"
  by (cases x; cases y) auto

lemma one_heap_replay:
  assumes old: "old_values st (set (concat (map subs vs)))" and heap: "one_heap vs"
    and v: "kept st (set (concat (map subs vs))) v" "distinct (copies st v)"
  shows "one_heap (v # vs)"
  unfolding one_heap_def
proof (intro ballI impI)
  let ?old = "set (concat (map subs vs))"
  fix x y assume x: "x \<in> set (concat (map subs (v # vs)))" and y: "y \<in> set (concat (map subs (v # vs)))"
    and e: "is_container x" "strict_eq x y"
  obtain a where a: "address x = Some a" "address y = Some a"
    using strict_eq_address [OF e(2,1)] by (metis not_None_eq)
  show "norm x = norm y"
  proof (cases "a < st")
    case True
    have "z \<in> ?old" if "z \<in> set (concat (map subs (v # vs)))" "address z = Some a" for z
      using that v(1) True by (auto simp: kept_def shares_def)
    then show ?thesis
      using x y a e heap unfolding one_heap_def by blast
  next
    case False
    have "z \<in> set (subs v)" if "z \<in> set (concat (map subs (v # vs)))" "address z = Some a" for z
      using that old False by (auto simp: old_values_def)
    then show ?thesis
      using copy_unique [OF v(2) _ _ a] x y a False by (metis not_less)
  qed
qed

definition target_values :: "json option \<Rightarrow> op list list \<Rightarrow> json list" where
  "target_values t batches = (case t of None \<Rightarrow> [] | Some v \<Rightarrow> [v]) @ concat (map op_values (concat batches))"

lemma immutable_kept:
  assumes r: "apply_immutable_batches st t batches = Inr (Some v)"
    and wf: "list_all wf_json (target_values t batches)" "addresses_below st (target_values t batches)"
  shows "kept st (set (concat (map subs (target_values t batches)))) v \<and> distinct (copies st v)"
proof -
  let ?old = "set (concat (map subs (target_values t batches)))"
  have old: "old_values st ?old"
    using wf by (rule_tac old_values_of)
  obtain rp where rp: "rfold immutable_op (new_replay st, t) (concat batches) = Inr (rp, Some v)"
    using r by (auto simp: apply_immutable_batches_def rbind_Inr_conv)
  have "set (op_values op) \<subseteq> ?old" if "op \<in> set (concat batches)" for op
    using that by (auto simp: target_values_def intro!: bexI subs_self)
  moreover have "replay_ok st ?old (new_replay st, t)"
  proof (cases t)
    case (Some w)
    then have "w \<in> ?old"
      by (simp add: target_values_def)
    then show ?thesis
      using Some old_copies [OF old] kept_old [OF old] by (simp add: replay_ok_def new_replay_def wf_replay_def)
  qed (simp add: replay_ok_def new_replay_def wf_replay_def)
  ultimately have "replay_ok st ?old (rp, Some v)"
    using replay_kept [OF old _ _ rp] by blast
  then show ?thesis
    by (simp add: replay_ok_def)
qed

text \<open>
  C8: The immutable applier changes no value that was there before and shares what it did not touch: the
  revision it returns lies with the earlier revision and the operations' values in one heap, where every
  reference shows one content. So \<open>equalJson\<close> and \<open>diffRevisions\<close> may compare the two revisions.\<close>

theorem immutable_shares:
  assumes "apply_immutable_batches st t batches = Inr (Some v)"
    and "one_heap (target_values t batches)" "list_all wf_json (target_values t batches)"
    and "addresses_below st (target_values t batches)"
  shows "one_heap (v # target_values t batches) \<and> wf_json v"
proof -
  note k = immutable_kept [OF assms(1,3,4)]
  from k show ?thesis
    using one_heap_replay [OF old_values_of [OF assms(4,3)] assms(2)] by (simp add: kept_def)
qed

theorem immutable_shares_witness:
  "one_heap (JObj 8 [(js ''a'', JArr 7 [JNull]), (js ''b'', JArr 3 [])] #
     target_values (Some (JObj 1 [(js ''a'', JArr 2 []), (js ''b'', JArr 3 [])])) [[OSplice [Key (js ''a'')] 0 0 [JNull]]])"
proof -
  let ?t = "Some (JObj 1 [(js ''a'', JArr 2 []), (js ''b'', JArr 3 [])])" let ?bs = "[[OSplice [Key (js ''a'')] 0 0 [JNull]]]"
  have r: "apply_immutable_batches 7 ?t ?bs = Inr (Some (JObj 8 [(js ''a'', JArr 7 [JNull]), (js ''b'', JArr 3 [])]))"
    by code_simp
  have "one_heap (target_values ?t ?bs)" "list_all wf_json (target_values ?t ?bs)" "addresses_below 7 (target_values ?t ?bs)"
    by (simp_all add: target_values_def one_heap_def addresses_below_def js_def)
  from immutable_shares [OF r this] show ?thesis
    by simp
qed

end
