(* ===== verification/MemoryState.thy ===== *)
theory MemoryState
  imports PathKey DeltaSharing
begin

text \<open>
  The records and the state of \<open>MemoryStorage\<close> (\<open>packages/durable/src/storage/memory.ts\<close>), the reference
  implementation of the storage interface of \<open>types.ts\<close>. What the storage only carries of a record is
  its \<open>'p\<close>. Records are values, so cloning and freezing them do not show.
\<close>

section \<open>Records\<close>

type_synonym id = nat
type_synonym seq = nat

datatype table = TConversation | TEntry | TTask | TSubmission | TDocument

record conversation =
  c_id :: id
  c_parent :: "(id \<times> id) option"   \<comment> \<open>conversation and inclusive entry\<close>
  c_owner :: "(id \<times> id) option"    \<comment> \<open>conversation and task\<close>

record 'p entry =
  e_id :: id
  e_conversation :: id
  e_head :: "id option"
  e_rest :: 'p

datatype task_status = TaskPending | TaskRunning | TaskWaiting | TaskSleeping | TaskCompleting | TaskTerminal

record 'p task =
  t_id :: id
  t_conversation :: id
  t_kind :: jsstr
  t_status :: task_status
  t_abort_requested :: bool
  t_background :: bool
  t_rest :: 'p

datatype submission_status = Queued | Placed | Done | Unanswered

record 'p submission =
  s_id :: id
  s_conversation :: id
  s_request :: "jsstr option"
  s_status :: submission_status
  s_rest :: 'p

datatype scope = SessionScope | ConversationScope id | TaskScope id

datatype history = Latest | Rewindable

datatype fork_mode = ForkAsOf | ForkCurrent | ForkInitial

record document_create =
  d_id :: id
  d_kind :: jsstr
  d_key :: "jsstr option"
  d_scope :: scope
  d_history :: "history option"
  d_fork :: "fork_mode option"

record document = document_create +
  d_created :: seq
  d_retired :: "seq option"

datatype content = Base nat json | Delta nat "op list"

type_synonym revision = "content \<times> seq"

record stored_document =
  sd_record :: document
  sd_revisions :: "revision list"

datatype point = At seq | Current

datatype 'p store_write =
    WConversation conversation
  | WEntry "'p entry"
  | WTask "'p task"
  | WSubmission "'p submission"
  | WCreate document_create nat json
  | WCopy document_create id point
  | WChange id content
  | WRetire id

record document_action =
  a_create :: "document_create option"
  a_content :: "content option"
  a_retire :: bool

datatype store_error =
    StoreClosed
  | SeqNotIncreasing
  | IdBelongsTo table
  | IdWrittenTwice
  | IdTwoTypes
  | TwoContents
  | RetiredTwice
  | UnknownDocument
  | DocumentExists
  | DocumentRetired
  | DeltaWithoutBase
  | VersionNeedsBase
  | AddressTaken
  | CopyRejected store_error
  | SourceChanged
  | SourceUnreadable
  | SourceMismatch
  | NoHistory
  | MissingBase
  | CrossesVersion
  | OpsRefused delta_error
  | IdsExhausted
  | UnknownConversation
  | InvalidOrder
  | InvalidCursor
  | OtherOrder
  | NoSuchRecord   \<comment> \<open>the property of \<open>undefined\<close> a missing record leads to\<close>
  | CopyUnresolved

section \<open>Keys\<close>

text \<open>\<open>scopeKey\<close> and \<open>addressKey\<close> are texts of \<open>JSON.stringify\<close>.\<close>

fun scope_key :: "scope \<Rightarrow> jsstr" where
  "scope_key SessionScope = path_key [Key (js ''session'')]"
| "scope_key (ConversationScope c) = path_key [Key (js ''conversation''), Idx (int c)]"
| "scope_key (TaskScope t) = path_key [Key (js ''task''), Idx (int t)]"

definition address_key :: "jsstr \<Rightarrow> scope \<Rightarrow> jsstr option \<Rightarrow> jsstr" where
  "address_key kind scope key =
     js ''['' @ quote kind @ js '','' @ quote (scope_key scope) @ js '','' @
     (case key of None \<Rightarrow> path_key [Key (js ''singleton'')] | Some k \<Rightarrow> path_key [Key (js ''family''), Key k]) @ js '']''"

definition record_address_key :: "('a) document_create_scheme \<Rightarrow> jsstr" where
  "record_address_key r = address_key (d_kind r) (d_scope r) (d_key r)"

text \<open>A key stands for one scope, and for one address.\<close>

lemma scope_key_inj: "scope_key s = scope_key t \<longleftrightarrow> s = t"
proof
  assume k: "scope_key s = scope_key t"
  show "s = t"
    by (cases s; cases t) (use k in \<open>auto dest: path_key_inj simp: js_def\<close>)
qed simp

lemma address_key_inj: "address_key k s f = address_key k' s' f' \<longleftrightarrow> k = k' \<and> s = s' \<and> f = f'"
proof
  let ?f = "\<lambda>f. case f of None \<Rightarrow> path_key [Key (js ''singleton'')] | Some k \<Rightarrow> path_key [Key (js ''family''), Key k]"
  assume eq: "address_key k s f = address_key k' s' f'"
  then have "quote k @ (js '','' @ quote (scope_key s) @ js '','' @ ?f f @ js '']'')
      = quote k' @ (js '','' @ quote (scope_key s') @ js '','' @ ?f f' @ js '']'')"
    by (simp add: address_key_def)
  then have k: "k = k'" "quote (scope_key s) @ (js '','' @ ?f f @ js '']'') = quote (scope_key s') @ (js '','' @ ?f f' @ js '']'')"
    using quote_inj by (blast, metis append_same_eq quote_inj same_append_eq)
  then have "s = s'" "js '','' @ ?f f @ js '']'' = js '','' @ ?f f' @ js '']''"
    using quote_inj [of "scope_key s" _ "scope_key s'"] scope_key_inj by blast+
  then have "?f f = ?f f'"
    by simp
  then have "f = f'"
    by (cases f; cases f') (auto dest: path_key_inj)
  then show "k = k' \<and> s = s' \<and> f = f'"
    using k(1) \<open>s = s'\<close> by simp
qed simp

section \<open>Sorted lists of IDs\<close>

text \<open>The loop of \<open>lowerBound\<close> and \<open>upperBound\<close>; \<open>right\<close> is its comparison.\<close>

function bisect :: "(nat \<Rightarrow> bool) \<Rightarrow> id list \<Rightarrow> nat \<Rightarrow> nat \<Rightarrow> nat" where
  "bisect right ids low high =
     (if low < high
      then let middle = (low + high) div 2
        in if right (ids ! middle) then bisect right ids (middle + 1) high else bisect right ids low middle
      else low)"
  by pat_completeness auto
termination
  by (relation "measure (\<lambda>(_, _, low, high). high - low)") auto

declare bisect.simps [simp del]

definition id_lower_bound :: "id list \<Rightarrow> int \<Rightarrow> nat" where
  "id_lower_bound ids target = bisect (\<lambda>i. int i < target) ids 0 (length ids)"

definition id_upper_bound :: "id list \<Rightarrow> int \<Rightarrow> nat" where
  "id_upper_bound ids target = bisect (\<lambda>i. int i \<le> target) ids 0 (length ids)"

definition insert_sorted :: "id \<Rightarrow> id list \<Rightarrow> id list" where
  "insert_sorted i ids =
     (if ids = [] \<or> last ids < i then ids @ [i] else splice (id_lower_bound ids (int i)) 0 [i] ids)"

definition remove_sorted :: "id \<Rightarrow> id list \<Rightarrow> id list" where
  "remove_sorted i ids =
     (let k = id_lower_bound ids (int i) in if k < length ids \<and> ids ! k = i then splice k 1 [] ids else ids)"

definition insert_map_id :: "'k \<Rightarrow> id \<Rightarrow> ('k \<rightharpoonup> id list) \<Rightarrow> ('k \<rightharpoonup> id list)" where
  "insert_map_id key i m = m(key \<mapsto> insert_sorted i (case m key of None \<Rightarrow> [] | Some ids \<Rightarrow> ids))"

section \<open>The state\<close>

record address_index =
  ai_ids :: "id list"
  ai_current :: "id option"

record 'p memory =
  m_types :: "id \<rightharpoonup> table"
  m_conversations :: "id \<rightharpoonup> conversation"
  m_conversation_ids :: "id list"
  m_by_owner_conversation :: "id \<rightharpoonup> id list"
  m_by_owner_task :: "id \<rightharpoonup> id list"
  m_entries :: "id \<rightharpoonup> 'p entry"
  m_entry_ids :: "id \<rightharpoonup> id list"
  m_head_ids :: "id \<rightharpoonup> id list"
  m_entry_seqs :: "id \<rightharpoonup> seq"
  m_tasks :: "id \<rightharpoonup> 'p task"
  m_task_ids :: "id list"
  m_tasks_by_status :: "task_status \<Rightarrow> id list"
  m_submissions :: "id \<rightharpoonup> 'p submission"
  m_submission_ids :: "id list"
  m_submissions_by_status :: "submission_status \<Rightarrow> id list"
  m_by_request :: "id \<rightharpoonup> (jsstr \<times> id) list"
  m_documents :: "id \<rightharpoonup> stored_document"
  m_addresses :: "jsstr \<rightharpoonup> address_index"
  m_by_scope :: "jsstr \<rightharpoonup> id list"
  m_next_id :: id
  m_next_seq :: seq
  m_closed :: bool

definition new_memory :: "'p memory" where
  "new_memory =
     \<lparr>m_types = Map.empty, m_conversations = Map.empty, m_conversation_ids = [], m_by_owner_conversation = Map.empty,
      m_by_owner_task = Map.empty, m_entries = Map.empty, m_entry_ids = Map.empty, m_head_ids = Map.empty,
      m_entry_seqs = Map.empty, m_tasks = Map.empty, m_task_ids = [], m_tasks_by_status = (\<lambda>_. []),
      m_submissions = Map.empty, m_submission_ids = [], m_submissions_by_status = (\<lambda>_. []), m_by_request = Map.empty,
      m_documents = Map.empty, m_addresses = Map.empty, m_by_scope = Map.empty, m_next_id = 2, m_next_seq = 1,
      m_closed = False\<rparr>"

section \<open>Documents at a point\<close>

fun alive_at :: "document \<Rightarrow> point \<Rightarrow> bool" where
  "alive_at r Current = (d_retired r = None)"
| "alive_at r (At s) = (d_created r \<le> s \<and> (case d_retired r of None \<Rightarrow> True | Some t \<Rightarrow> s < t))"

definition conversation_scoped :: "scope \<Rightarrow> bool" where
  "conversation_scoped s = (case s of ConversationScope _ \<Rightarrow> True | _ \<Rightarrow> False)"

definition current_only :: "document \<Rightarrow> bool" where
  "current_only r \<longleftrightarrow> \<not> conversation_scoped (d_scope r) \<or> d_history r = Some Latest"

text \<open>An address no value has, for the copies of a replay.\<close>

definition next_address :: "json list \<Rightarrow> addr" where
  "next_address vs = fold max (List.map_filter address (concat (map subs vs))) 0 + 1"

text \<open>The newest base and the deltas after it, from the revisions newest first.\<close>

fun newest_base :: "revision list \<Rightarrow> revision list \<Rightarrow> (nat \<times> json \<times> revision list) option" where
  "newest_base [] deltas = None"
| "newest_base ((Base version v, _) # revs) deltas = Some (version, v, deltas)"
| "newest_base (r # revs) deltas = newest_base revs (r # deltas)"

definition replay_delta :: "nat \<Rightarrow> replay \<times> json option \<Rightarrow> revision \<Rightarrow> store_error + replay \<times> json option" where
  "replay_delta version st r =
     (case fst r of
        Delta v ops \<Rightarrow>
          (if v \<noteq> version then Inl CrossesVersion
           else case rfold immutable_op st ops of Inl e \<Rightarrow> Inl (OpsRefused e) | Inr st \<Rightarrow> Inr st)
      | Base _ _ \<Rightarrow> Inl CrossesVersion)"

fun content_values :: "content \<Rightarrow> json list" where
  "content_values (Base _ v) = [v]"
| "content_values (Delta _ ops) = concat (map op_values ops)"

record materialized =
  md_record :: document
  md_version :: nat
  md_value :: json
  md_deltas :: nat

definition materialize_revisions :: "document \<Rightarrow> revision list \<Rightarrow> store_error + materialized" where
  "materialize_revisions r revs =
     (case newest_base (rev revs) [] of
        None \<Rightarrow> Inl MissingBase
      | Some (version, base, deltas) \<Rightarrow>
          rbind (rfold (replay_delta version)
                   (new_replay (next_address (concat (map (content_values \<circ> fst) revs))), Some base) deltas) (\<lambda>(_, t).
            case t of
              None \<Rightarrow> Inl NoSuchRecord
            | Some v \<Rightarrow> Inr \<lparr>md_record = r, md_version = version, md_value = v, md_deltas = length deltas\<rparr>))"

definition materialize :: "id \<Rightarrow> point \<Rightarrow> 'p memory \<Rightarrow> store_error + materialized option" where
  "materialize i at m =
     (case m_documents m i of
        None \<Rightarrow> Inr None
      | Some stored \<Rightarrow>
          if at \<noteq> Current \<and> current_only (sd_record stored) then Inl NoHistory
          else if \<not> alive_at (sd_record stored) at then Inr None
          else rbind (materialize_revisions (sd_record stored)
                  (case at of Current \<Rightarrow> sd_revisions stored
                   | At s \<Rightarrow> filter (\<lambda>(_, t). t \<le> s) (sd_revisions stored)))
                (\<lambda>d. Inr (Some d)))"

end
