(* ===== verification/MemoryCommit.thy ===== *)
theory MemoryCommit
  imports MemoryState
begin

text \<open>
  Commits of \<open>MemoryStorage\<close>: a batch of writes is checked and detached by \<open>prepareCommit\<close> and then
  applied. A step of the application that reads a property of \<open>undefined\<close> is an error here, so that
  the claim that nothing of it can fail is provable.
\<close>

section \<open>Preparing: copies\<close>

fun is_copy_write :: "'p store_write \<Rightarrow> bool" where
  "is_copy_write (WCopy _ _ _) = True"
| "is_copy_write _ = False"

fun changed_document :: "'p store_write \<Rightarrow> id list" where
  "changed_document (WCreate r _ _) = [d_id r]"
| "changed_document (WCopy r _ _) = [d_id r]"
| "changed_document (WChange i _) = [i]"
| "changed_document (WRetire i) = [i]"
| "changed_document _ = []"

definition resolve_copy :: "id list \<Rightarrow> 'p memory \<Rightarrow> document_create \<Rightarrow> id \<Rightarrow> point \<Rightarrow> store_error + 'p store_write" where
  "resolve_copy changed m r source at =
     (if source \<in> set changed then Inl SourceChanged
      else rbind (materialize source at m) (\<lambda>stored.
        case stored of
          None \<Rightarrow> Inl SourceUnreadable
        | Some d \<Rightarrow>
            if \<not> conversation_scoped (d_scope (md_record d)) \<or> \<not> conversation_scoped (d_scope r) \<or>
               d_kind (md_record d) \<noteq> d_kind r \<or> d_key (md_record d) \<noteq> d_key r \<or>
               d_history (md_record d) \<noteq> d_history r \<or> d_fork (md_record d) \<noteq> d_fork r
            then Inl SourceMismatch
            else Inr (WCreate r (md_version d) (md_value d))))"

fun resolve_write :: "id list \<Rightarrow> 'p memory \<Rightarrow> 'p store_write \<Rightarrow> store_error + 'p store_write" where
  "resolve_write changed m (WCopy r source at) =
     (case resolve_copy changed m r source at of Inl e \<Rightarrow> Inl (CopyRejected e) | Inr w \<Rightarrow> Inr w)"
| "resolve_write changed m w = Inr w"

fun rmap :: "('a \<Rightarrow> 'e + 'b) \<Rightarrow> 'a list \<Rightarrow> 'e + 'b list" where
  "rmap f [] = Inr []"
| "rmap f (x # xs) = rbind (f x) (\<lambda>y. rbind (rmap f xs) (\<lambda>ys. Inr (y # ys)))"

definition resolve_document_copies :: "'p memory \<Rightarrow> 'p store_write list \<Rightarrow> store_error + 'p store_write list" where
  "resolve_document_copies m ws =
     (if \<not> list_ex is_copy_write ws then Inr ws
      else rmap (resolve_write (concat (map changed_document ws)) m) ws)"

section \<open>Preparing: IDs\<close>

fun write_table :: "'p store_write \<Rightarrow> (table \<times> id) option" where
  "write_table (WConversation c) = Some (TConversation, c_id c)"
| "write_table (WEntry e) = Some (TEntry, e_id e)"
| "write_table (WTask t) = Some (TTask, t_id t)"
| "write_table (WSubmission s) = Some (TSubmission, s_id s)"
| "write_table (WCreate r _ _) = Some (TDocument, d_id r)"
| "write_table (WCopy r _ _) = Some (TDocument, d_id r)"
| "write_table _ = None"

definition written_once :: "table \<Rightarrow> bool" where
  "written_once t \<longleftrightarrow> t = TConversation \<or> t = TEntry \<or> t = TDocument"

definition claim_id :: "'p memory \<Rightarrow> (id \<rightharpoonup> table) \<Rightarrow> 'p store_write \<Rightarrow> store_error + (id \<rightharpoonup> table)" where
  "claim_id m claimed w =
     (case write_table w of
        None \<Rightarrow> Inr claimed
      | Some (t, i) \<Rightarrow>
          if written_once t then
            (case m_types m i of
               Some existing \<Rightarrow> Inl (IdBelongsTo existing)
             | None \<Rightarrow> if claimed i \<noteq> None then Inl IdWrittenTwice else Inr (claimed(i \<mapsto> t)))
          else
            (if m_types m i \<noteq> None \<and> m_types m i \<noteq> Some t then Inl (IdBelongsTo (the (m_types m i)))
             else if claimed i \<noteq> None \<and> claimed i \<noteq> Some t then Inl IdTwoTypes
             else Inr (claimed(i \<mapsto> t))))"

definition check_global_ids :: "'p memory \<Rightarrow> 'p store_write list \<Rightarrow> store_error + (id \<rightharpoonup> table)" where
  "check_global_ids m ws = rfold (claim_id m) Map.empty ws"

section \<open>Preparing: documents\<close>

definition no_action :: document_action where
  "no_action = \<lparr>a_create = None, a_content = None, a_retire = False\<rparr>"

definition action_of :: "id \<Rightarrow> (id \<times> document_action) list \<Rightarrow> document_action" where
  "action_of i actions = (case map_of actions i of None \<Rightarrow> no_action | Some a \<Rightarrow> a)"

fun add_action :: "(id \<times> document_action) list \<Rightarrow> 'p store_write \<Rightarrow> store_error + (id \<times> document_action) list" where
  "add_action actions (WCreate r version v) =
     (let a = action_of (d_id r) actions
      in if a_create a \<noteq> None \<or> a_content a \<noteq> None then Inl TwoContents
         else Inr (al_put (d_id r) (a\<lparr>a_create := Some r, a_content := Some (Base version v)\<rparr>) actions))"
| "add_action actions (WChange i content) =
     (let a = action_of i actions
      in if a_content a \<noteq> None then Inl TwoContents
         else Inr (al_put i (a\<lparr>a_content := Some content\<rparr>) actions))"
| "add_action actions (WRetire i) =
     (let a = action_of i actions
      in if a_retire a then Inl RetiredTwice else Inr (al_put i (a\<lparr>a_retire := True\<rparr>) actions))"
| "add_action actions _ = Inr actions"

definition prepare_document_actions :: "'p store_write list \<Rightarrow> store_error + (id \<times> document_action) list" where
  "prepare_document_actions ws = rfold add_action [] ws"

definition check_delta :: "content option \<Rightarrow> stored_document option \<Rightarrow> store_error + unit" where
  "check_delta content existing =
     (case content of
        Some (Delta version _) \<Rightarrow>
          (case existing of
             None \<Rightarrow> Inl DeltaWithoutBase
           | Some stored \<Rightarrow>
               if sd_revisions stored = [] then Inl DeltaWithoutBase
               else if (case fst (last (sd_revisions stored)) of Base v _ \<Rightarrow> v | Delta v _ \<Rightarrow> v) \<noteq> version
               then Inl VersionNeedsBase
               else Inr ())
      | _ \<Rightarrow> Inr ())"

definition current_id :: "'p memory \<Rightarrow> jsstr \<Rightarrow> id option" where
  "current_id m key = (case m_addresses m key of None \<Rightarrow> None | Some a \<Rightarrow> ai_current a)"

definition action_key :: "'p memory \<Rightarrow> id \<times> document_action \<Rightarrow> jsstr" where
  "action_key m ia =
     (case a_create (snd ia) of
        Some r \<Rightarrow> record_address_key r
      | None \<Rightarrow> (case m_documents m (fst ia) of None \<Rightarrow> [] | Some stored \<Rightarrow> record_address_key (sd_record stored)))"

definition live_after :: "'p memory \<Rightarrow> jsstr \<Rightarrow> id \<times> document_action \<Rightarrow> int \<Rightarrow> int" where
  "live_after m key ia live =
     (let live = (if a_retire (snd ia) \<and> current_id m key = Some (fst ia) then live - 1 else live)
      in if a_create (snd ia) \<noteq> None \<and> \<not> a_retire (snd ia) then live + 1 else live)"

definition check_action ::
  "'p memory \<Rightarrow> (jsstr \<times> int) list \<Rightarrow> id \<times> document_action \<Rightarrow> store_error + (jsstr \<times> int) list" where
  "check_action m counts ia =
     (let existing = m_documents m (fst ia); create = a_create (snd ia)
      in if create = None \<and> existing = None then Inl UnknownDocument
         else if create \<noteq> None \<and> existing \<noteq> None then Inl DocumentExists
         else if (case existing of None \<Rightarrow> False | Some stored \<Rightarrow> d_retired (sd_record stored) \<noteq> None) then Inl DocumentRetired
         else rbind (check_delta (a_content (snd ia)) existing) (\<lambda>_.
           let key = action_key m ia;
               live = (case map_of counts key of Some l \<Rightarrow> l | None \<Rightarrow> if current_id m key = None then 0 else 1)
           in Inr (al_put key (live_after m key ia live) counts)))"

definition check_document_actions :: "'p memory \<Rightarrow> (id \<times> document_action) list \<Rightarrow> store_error + unit" where
  "check_document_actions m actions =
     rbind (rfold (check_action m) [] actions) (\<lambda>counts.
       if list_ex (\<lambda>(_, live). 1 < live) counts then Inl AddressTaken else Inr ())"

record 'p prepared =
  pc_seq :: seq
  pc_writes :: "'p store_write list"
  pc_actions :: "(id \<times> document_action) list"
  pc_applied :: bool

definition max_safe :: nat where
  "max_safe = 2 ^ 53 - 1"

definition prepare_commit :: "seq \<Rightarrow> 'p store_write list \<Rightarrow> 'p memory \<Rightarrow> store_error + 'p prepared" where
  "prepare_commit seq ws m =
     (if m_closed m then Inl StoreClosed
      else if max_safe < seq \<or> seq < m_next_seq m then Inl SeqNotIncreasing
      else rbind (resolve_document_copies m ws) (\<lambda>ws.
           rbind (check_global_ids m ws) (\<lambda>_.
           rbind (prepare_document_actions ws) (\<lambda>actions.
           rbind (check_document_actions m actions) (\<lambda>_.
             Inr \<lparr>pc_seq = seq, pc_writes = ws, pc_actions = actions, pc_applied = False\<rparr>)))))"

section \<open>Applying records\<close>

definition bump_id :: "id \<Rightarrow> 'p memory \<Rightarrow> 'p memory" where
  "bump_id i m = m\<lparr>m_next_id := max (m_next_id m) (i + 1)\<rparr>"

definition apply_conversation :: "conversation \<Rightarrow> 'p memory \<Rightarrow> 'p memory" where
  "apply_conversation c m =
     bump_id (c_id c)
       (m\<lparr>m_types := (m_types m)(c_id c \<mapsto> TConversation),
          m_conversations := (m_conversations m)(c_id c \<mapsto> c),
          m_conversation_ids := insert_sorted (c_id c) (m_conversation_ids m),
          m_by_owner_conversation :=
            (case c_owner c of None \<Rightarrow> m_by_owner_conversation m
             | Some (conv, _) \<Rightarrow> insert_map_id conv (c_id c) (m_by_owner_conversation m)),
          m_by_owner_task :=
            (case c_owner c of None \<Rightarrow> m_by_owner_task m
             | Some (_, task) \<Rightarrow> insert_map_id task (c_id c) (m_by_owner_task m))\<rparr>)"

definition apply_entry :: "seq \<Rightarrow> 'p entry \<Rightarrow> 'p memory \<Rightarrow> 'p memory" where
  "apply_entry seq e m =
     bump_id (e_id e)
       (m\<lparr>m_types := (m_types m)(e_id e \<mapsto> TEntry),
          m_entries := (m_entries m)(e_id e \<mapsto> e),
          m_entry_seqs := (m_entry_seqs m)(e_id e \<mapsto> seq),
          m_entry_ids := insert_map_id (e_conversation e) (e_id e) (m_entry_ids m),
          m_head_ids :=
            (if e_head e = None then m_head_ids m else insert_map_id (e_conversation e) (e_id e) (m_head_ids m))\<rparr>)"

definition apply_task :: "'p task \<Rightarrow> 'p memory \<Rightarrow> 'p memory" where
  "apply_task t m =
     (let i = t_id t; by = m_tasks_by_status m
      in bump_id i
        (m\<lparr>m_types := (m_types m)(i \<mapsto> TTask),
           m_task_ids := (if m_tasks m i = None then insert_sorted i (m_task_ids m) else m_task_ids m),
           m_tasks_by_status :=
             (case m_tasks m i of
                None \<Rightarrow> by(t_status t := insert_sorted i (by (t_status t)))
              | Some previous \<Rightarrow>
                  if t_status previous = t_status t then by
                  else (let by = by(t_status previous := remove_sorted i (by (t_status previous)))
                        in by(t_status t := insert_sorted i (by (t_status t))))),
           m_tasks := (m_tasks m)(i \<mapsto> t)\<rparr>))"

definition forget_request :: "id \<Rightarrow> 'p submission option \<Rightarrow> (id \<rightharpoonup> (jsstr \<times> id) list) \<Rightarrow> (id \<rightharpoonup> (jsstr \<times> id) list)" where
  "forget_request i previous requests =
     (case previous of
        None \<Rightarrow> requests
      | Some p \<Rightarrow>
          (case s_request p of
             None \<Rightarrow> requests
           | Some r \<Rightarrow>
               (case requests (s_conversation p) of
                  None \<Rightarrow> requests
                | Some rs \<Rightarrow>
                    if map_of rs r \<noteq> Some i then requests
                    else if al_del r rs = [] then requests(s_conversation p := None)
                    else requests(s_conversation p \<mapsto> al_del r rs))))"

definition note_request :: "'p submission \<Rightarrow> (id \<rightharpoonup> (jsstr \<times> id) list) \<Rightarrow> (id \<rightharpoonup> (jsstr \<times> id) list)" where
  "note_request s requests =
     (case s_request s of
        None \<Rightarrow> requests
      | Some r \<Rightarrow>
          requests(s_conversation s \<mapsto>
            al_put r (s_id s) (case requests (s_conversation s) of None \<Rightarrow> [] | Some rs \<Rightarrow> rs)))"

definition apply_submission :: "'p submission \<Rightarrow> 'p memory \<Rightarrow> 'p memory" where
  "apply_submission s m =
     (let i = s_id s; by = m_submissions_by_status m
      in bump_id i
        (m\<lparr>m_types := (m_types m)(i \<mapsto> TSubmission),
           m_submission_ids := (if m_submissions m i = None then insert_sorted i (m_submission_ids m) else m_submission_ids m),
           m_submissions_by_status :=
             (case m_submissions m i of
                None \<Rightarrow> by(s_status s := insert_sorted i (by (s_status s)))
              | Some previous \<Rightarrow>
                  if s_status previous = s_status s then by
                  else (let by = by(s_status previous := remove_sorted i (by (s_status previous)))
                        in by(s_status s := insert_sorted i (by (s_status s))))),
           m_by_request := note_request s (forget_request i (m_submissions m i) (m_by_request m)),
           m_submissions := (m_submissions m)(i \<mapsto> s)\<rparr>))"

fun apply_write :: "seq \<Rightarrow> 'p memory \<Rightarrow> 'p store_write \<Rightarrow> store_error + 'p memory" where
  "apply_write seq m (WConversation c) = Inr (apply_conversation c m)"
| "apply_write seq m (WEntry e) = Inr (apply_entry seq e m)"
| "apply_write seq m (WTask t) = Inr (apply_task t m)"
| "apply_write seq m (WSubmission s) = Inr (apply_submission s m)"
| "apply_write seq m (WCopy _ _ _) = Inl CopyUnresolved"
| "apply_write seq m _ = Inr m"

section \<open>Applying document actions\<close>

definition stamped :: "seq \<Rightarrow> bool \<Rightarrow> document_create \<Rightarrow> document" where
  "stamped seq retire r =
     \<lparr>d_id = d_id r, d_kind = d_kind r, d_key = d_key r, d_scope = d_scope r, d_history = d_history r, d_fork = d_fork r,
      d_created = seq, d_retired = (if retire then Some seq else None)\<rparr>"

text \<open>The stored document an action works on: a new one, or the one that is there with the new revision.\<close>

definition add_revision :: "revision \<Rightarrow> stored_document \<Rightarrow> stored_document" where
  "add_revision r stored =
     (case fst r of
        Base _ _ \<Rightarrow>
          if current_only (sd_record stored) then stored\<lparr>sd_revisions := [r]\<rparr>
          else stored\<lparr>sd_revisions := sd_revisions stored @ [r]\<rparr>
      | Delta _ _ \<Rightarrow> stored\<lparr>sd_revisions := sd_revisions stored @ [r]\<rparr>)"

definition with_content :: "seq \<Rightarrow> document_action \<Rightarrow> stored_document option \<Rightarrow> store_error + stored_document" where
  "with_content seq a existing =
     (case a_create a of
        Some r \<Rightarrow>
          (case a_content a of
             None \<Rightarrow> Inl NoSuchRecord
           | Some c \<Rightarrow> Inr \<lparr>sd_record = stamped seq (a_retire a) r, sd_revisions = [(c, seq)]\<rparr>)
      | None \<Rightarrow>
          (case existing of
             None \<Rightarrow> Inl NoSuchRecord
           | Some stored \<Rightarrow> Inr (case a_content a of None \<Rightarrow> stored | Some c \<Rightarrow> add_revision (c, seq) stored)))"

definition retire_document :: "seq \<Rightarrow> document_action \<Rightarrow> stored_document \<Rightarrow> stored_document" where
  "retire_document seq a stored =
     (if \<not> a_retire a then stored
      else let r = (if a_create a = None then (sd_record stored)\<lparr>d_retired := Some seq\<rparr> else sd_record stored)
        in \<lparr>sd_record = r, sd_revisions = (if current_only r then [] else sd_revisions stored)\<rparr>)"

definition register_document :: "id \<Rightarrow> document \<Rightarrow> 'p memory \<Rightarrow> 'p memory" where
  "register_document i r m =
     bump_id i
       (m\<lparr>m_types := (m_types m)(i \<mapsto> TDocument),
          m_addresses := (m_addresses m)(record_address_key r \<mapsto>
            (case m_addresses m (record_address_key r) of
               None \<Rightarrow> \<lparr>ai_ids = insert_sorted i [], ai_current = None\<rparr>
             | Some a \<Rightarrow> a\<lparr>ai_ids := insert_sorted i (ai_ids a)\<rparr>)),
          m_by_scope := insert_map_id (scope_key (d_scope r)) i (m_by_scope m)\<rparr>)"

definition move_current :: "id \<Rightarrow> document_action \<Rightarrow> address_index \<Rightarrow> address_index" where
  "move_current i a x =
     (let x = (if a_retire a \<and> ai_current x = Some i then x\<lparr>ai_current := None\<rparr> else x)
      in if a_create a \<noteq> None \<and> \<not> a_retire a then x\<lparr>ai_current := Some i\<rparr> else x)"

definition apply_action :: "seq \<Rightarrow> 'p memory \<Rightarrow> id \<times> document_action \<Rightarrow> store_error + 'p memory" where
  "apply_action seq m ia =
     (let i = fst ia; a = snd ia
      in rbind (with_content seq a (m_documents m i)) (\<lambda>stored.
         let stored = retire_document seq a stored;
             m = (if a_create a = None then m else register_document i (sd_record stored) m);
             m = m\<lparr>m_documents := (m_documents m)(i \<mapsto> stored)\<rparr>;
             key = record_address_key (sd_record stored)
         in if a_create a = None \<and> \<not> a_retire a then Inr m
            else (case m_addresses m key of
                    None \<Rightarrow> Inl NoSuchRecord
                  | Some x \<Rightarrow> Inr (m\<lparr>m_addresses := (m_addresses m)(key \<mapsto> move_current i a x)\<rparr>))))"

definition apply_prepared :: "'p prepared \<Rightarrow> 'p memory \<Rightarrow> store_error + 'p memory" where
  "apply_prepared p m =
     rbind (rfold (apply_write (pc_seq p)) m (pc_writes p)) (\<lambda>m.
     rbind (rfold (apply_action (pc_seq p)) m (pc_actions p)) (\<lambda>m.
       Inr (m\<lparr>m_next_seq := pc_seq p + 1\<rparr>)))"

text \<open>\<open>apply\<close> of a prepared commit: once, then nothing.\<close>

definition apply_once :: "'p prepared \<Rightarrow> 'p memory \<Rightarrow> store_error + 'p prepared \<times> 'p memory" where
  "apply_once p m =
     (if pc_applied p then Inr (p, m)
      else rbind (apply_prepared p m) (\<lambda>m. Inr (p\<lparr>pc_applied := True\<rparr>, m)))"

section \<open>Commits\<close>

text \<open>The seqs of the stored batches, the refusal of the batch the commit stopped at, and an error it threw.\<close>

record commit_result =
  cr_stored :: "seq list"
  cr_refused :: "store_error option"
  cr_thrown :: "store_error option"

fun commit_batches :: "'p store_write list list \<Rightarrow> seq list \<Rightarrow> 'p memory \<Rightarrow> commit_result \<times> 'p memory" where
  "commit_batches [] seqs m = (\<lparr>cr_stored = seqs, cr_refused = None, cr_thrown = None\<rparr>, m)"
| "commit_batches (ws # batches) seqs m =
     (case prepare_commit (m_next_seq m) ws m of
        Inl e \<Rightarrow> (\<lparr>cr_stored = seqs, cr_refused = Some e, cr_thrown = None\<rparr>, m)
      | Inr p \<Rightarrow>
          (case apply_once p m of
             Inl e \<Rightarrow> (\<lparr>cr_stored = seqs, cr_refused = None, cr_thrown = Some e\<rparr>, m)
           | Inr (p, m) \<Rightarrow> commit_batches batches (seqs @ [pc_seq p]) m))"

definition commit :: "'p store_write list list \<Rightarrow> 'p memory \<Rightarrow> commit_result \<times> 'p memory" where
  "commit batches m =
     (if m_closed m then (\<lparr>cr_stored = [], cr_refused = None, cr_thrown = Some StoreClosed\<rparr>, m)
      else commit_batches batches [] m)"

definition mint_id :: "'p memory \<Rightarrow> store_error + id \<times> 'p memory" where
  "mint_id m =
     (if m_closed m then Inl StoreClosed
      else if max_safe < m_next_id m then Inl IdsExhausted
      else Inr (m_next_id m, m\<lparr>m_next_id := m_next_id m + 1\<rparr>))"

definition close_memory :: "'p memory \<Rightarrow> 'p memory" where
  "close_memory m = m\<lparr>m_closed := True\<rparr>"

end
