(* ===== verification/MemoryReads.thy ===== *)
theory MemoryReads
  imports MemoryCommit
begin

text \<open>
  Reads of \<open>MemoryStorage\<close>: lookups, the paged scans with their cursors (\<open>storage/scan.ts\<close>), the entries a
  conversation sees through its ancestors, and documents. Where the code reads a record its index names
  and there is none, the model has an error. A generator is the list of what it yields.
\<close>

section \<open>Cursors\<close>

datatype scan_order = Ascending | Descending

type_synonym cursor = "(jsstr \<times> json) list"

fun order_text :: "scan_order \<Rightarrow> jsstr" where
  "order_text Ascending = js ''ascending''"
| "order_text Descending = js ''descending''"

definition read_order :: "jsstr \<Rightarrow> scan_order option" where
  "read_order s = (if s = order_text Ascending then Some Ascending else if s = order_text Descending then Some Descending else None)"

definition safe_integer :: "json \<Rightarrow> int option" where
  "safe_integer v = (case json_int v of None \<Rightarrow> None | Some i \<Rightarrow> if \<bar>i\<bar> \<le> int max_safe then Some i else None)"

definition cursor_after :: "cursor \<Rightarrow> store_error + int" where
  "cursor_after c =
     (case map_of c (js ''after'') of
        None \<Rightarrow> Inl InvalidCursor
      | Some v \<Rightarrow> (case safe_integer v of None \<Rightarrow> Inl InvalidCursor | Some i \<Rightarrow> Inr i))"

definition cursor_order :: "cursor \<Rightarrow> store_error + scan_order option" where
  "cursor_order c =
     (case map_of c (js ''order'') of
        None \<Rightarrow> Inr None
      | Some (JStr s) \<Rightarrow> (case read_order s of None \<Rightarrow> Inl InvalidCursor | Some ord \<Rightarrow> Inr (Some ord))
      | Some _ \<Rightarrow> Inl InvalidCursor)"

definition scan_start :: "jsstr option \<Rightarrow> cursor option \<Rightarrow> scan_order \<Rightarrow> store_error + scan_order \<times> int option" where
  "scan_start requested cursor fallback =
     (case map_option read_order requested of
        Some None \<Rightarrow> Inl InvalidOrder
      | asked \<Rightarrow>
          let asked = (case asked of Some (Some ord) \<Rightarrow> Some ord | _ \<Rightarrow> None) in
          (case cursor of
             None \<Rightarrow> Inr (case asked of Some ord \<Rightarrow> ord | None \<Rightarrow> fallback, None)
           | Some c \<Rightarrow>
               rbind (cursor_after c) (\<lambda>after.
               rbind (cursor_order c) (\<lambda>stored.
                 let ord = (case stored of Some ord \<Rightarrow> ord | None \<Rightarrow> fallback)
                 in if asked \<noteq> None \<and> asked \<noteq> Some ord then Inl OtherOrder else Inr (ord, Some after)))))"

definition next_cursor :: "id \<Rightarrow> scan_order \<Rightarrow> cursor" where
  "next_cursor i ord = [(js ''after'', JNum (NInt (int i))), (js ''order'', JStr (order_text ord))]"

record 'a page =
  pg_items :: "'a list"
  pg_next :: "cursor option"

definition page_of :: "('a \<Rightarrow> id) \<Rightarrow> 'a list \<Rightarrow> nat \<Rightarrow> scan_order \<Rightarrow> store_error + 'a page" where
  "page_of id_of vs limit ord =
     (let items = take limit vs
      in if length vs \<le> limit then Inr \<lparr>pg_items = items, pg_next = None\<rparr>
         else if items = [] then Inl NoSuchRecord
         else Inr \<lparr>pg_items = items, pg_next = Some (next_cursor (id_of (last items)) ord)\<rparr>)"

section \<open>Scans of sorted IDs\<close>

definition scan_indexes :: "id list \<Rightarrow> scan_order \<Rightarrow> int option \<Rightarrow> nat list" where
  "scan_indexes ids ord after =
     (case ord of
        Ascending \<Rightarrow> [(case after of None \<Rightarrow> 0 | Some a \<Rightarrow> id_upper_bound ids a)..<length ids]
      | Descending \<Rightarrow> rev [0..<(case after of None \<Rightarrow> length ids | Some a \<Rightarrow> id_lower_bound ids a)])"

fun scan_loop :: "(id \<rightharpoonup> 'a) \<Rightarrow> ('a \<Rightarrow> bool) \<Rightarrow> nat \<Rightarrow> id list \<Rightarrow> nat list \<Rightarrow> 'a list \<Rightarrow> store_error + 'a list" where
  "scan_loop get match limit ids [] vs = Inr vs"
| "scan_loop get match limit ids (k # ks) vs =
     (if limit < length vs then Inr vs
      else case get (ids ! k) of
        None \<Rightarrow> Inl NoSuchRecord
      | Some v \<Rightarrow> scan_loop get match limit ids ks (if match v then vs @ [v] else vs))"

definition scan_ids ::
  "('a \<Rightarrow> id) \<Rightarrow> (id \<rightharpoonup> 'a) \<Rightarrow> ('a \<Rightarrow> bool) \<Rightarrow> id list \<Rightarrow> jsstr option \<Rightarrow> nat \<Rightarrow> cursor option \<Rightarrow> store_error + 'a page" where
  "scan_ids id_of get match ids order limit cursor =
     rbind (scan_start order cursor Ascending) (\<lambda>(ord, after).
     rbind (scan_loop get match limit ids (scan_indexes ids ord after) []) (\<lambda>vs.
       page_of id_of vs limit ord))"

definition when_open :: "'p memory \<Rightarrow> (store_error + 'a) \<Rightarrow> store_error + 'a" where
  "when_open m r = (if m_closed m then Inl StoreClosed else r)"

record conversation_query =
  cq_owner_conversation :: "id option"
  cq_owner_task :: "id option"
  cq_order :: "jsstr option"

definition conversation_index :: "'p memory \<Rightarrow> conversation_query \<Rightarrow> id list" where
  "conversation_index m q =
     (case cq_owner_task q of
        Some t \<Rightarrow> (case m_by_owner_task m t of None \<Rightarrow> [] | Some ids \<Rightarrow> ids)
      | None \<Rightarrow>
          (case cq_owner_conversation q of
             Some c \<Rightarrow> (case m_by_owner_conversation m c of None \<Rightarrow> [] | Some ids \<Rightarrow> ids)
           | None \<Rightarrow> m_conversation_ids m))"

definition conversation_match :: "conversation_query \<Rightarrow> conversation \<Rightarrow> bool" where
  "conversation_match q c \<longleftrightarrow>
     (case cq_owner_conversation q of None \<Rightarrow> True | Some owner \<Rightarrow> map_option fst (c_owner c) = Some owner)"

definition scan_conversations ::
  "'p memory \<Rightarrow> conversation_query \<Rightarrow> nat \<Rightarrow> cursor option \<Rightarrow> store_error + conversation page" where
  "scan_conversations m q limit cursor =
     when_open m (scan_ids c_id (m_conversations m) (conversation_match q) (conversation_index m q) (cq_order q) limit cursor)"

record task_query =
  tq_conversation :: "id option"
  tq_kind :: "jsstr option"
  tq_status :: "task_status option"
  tq_abort_requested :: "bool option"
  tq_background :: "bool option"
  tq_order :: "jsstr option"

definition asked :: "'a option \<Rightarrow> 'a \<Rightarrow> bool" where
  "asked q x \<longleftrightarrow> (case q of None \<Rightarrow> True | Some y \<Rightarrow> x = y)"

definition task_match :: "task_query \<Rightarrow> 'p task \<Rightarrow> bool" where
  "task_match q t \<longleftrightarrow>
     asked (tq_conversation q) (t_conversation t) \<and> asked (tq_kind q) (t_kind t) \<and>
     asked (tq_abort_requested q) (t_abort_requested t) \<and> asked (tq_background q) (t_background t)"

definition scan_tasks :: "'p memory \<Rightarrow> task_query \<Rightarrow> nat \<Rightarrow> cursor option \<Rightarrow> store_error + 'p task page" where
  "scan_tasks m q limit cursor =
     when_open m (scan_ids t_id (m_tasks m) (task_match q)
       (case tq_status q of None \<Rightarrow> m_task_ids m | Some s \<Rightarrow> m_tasks_by_status m s) (tq_order q) limit cursor)"

record submission_query =
  sq_conversation :: "id option"
  sq_status :: "submission_status option"
  sq_order :: "jsstr option"

definition scan_submissions :: "'p memory \<Rightarrow> submission_query \<Rightarrow> nat \<Rightarrow> cursor option \<Rightarrow> store_error + 'p submission page" where
  "scan_submissions m q limit cursor =
     when_open m (scan_ids s_id (m_submissions m) (\<lambda>s. asked (sq_conversation q) (s_conversation s))
       (case sq_status q of None \<Rightarrow> m_submission_ids m | Some s \<Rightarrow> m_submissions_by_status m s) (sq_order q) limit cursor)"

text \<open>\<open>scanAll\<close> of \<open>harness/util.ts\<close>: page after page, until one has no cursor.\<close>

partial_function (option) scan_all ::
  "(cursor option \<Rightarrow> store_error + 'a page) \<Rightarrow> cursor option \<Rightarrow> 'a list \<Rightarrow> (store_error + 'a list) option" where
  "scan_all scan cursor items =
     (case scan cursor of
        Inl e \<Rightarrow> Some (Inl e)
      | Inr p \<Rightarrow>
          (if pg_next p = None then Some (Inr (items @ pg_items p))
           else scan_all scan (pg_next p) (items @ pg_items p)))"

section \<open>Lookups\<close>

definition get_conversation :: "'p memory \<Rightarrow> id \<Rightarrow> store_error + conversation option" where
  "get_conversation m i = when_open m (Inr (m_conversations m i))"

definition get_task :: "'p memory \<Rightarrow> id \<Rightarrow> store_error + 'p task option" where
  "get_task m i = when_open m (Inr (m_tasks m i))"

definition get_submission :: "'p memory \<Rightarrow> id \<Rightarrow> store_error + 'p submission option" where
  "get_submission m i = when_open m (Inr (m_submissions m i))"

definition submission_by_request :: "'p memory \<Rightarrow> id \<Rightarrow> jsstr \<Rightarrow> store_error + 'p submission option" where
  "submission_by_request m c r =
     when_open m
       (case (case m_by_request m c of None \<Rightarrow> None | Some rs \<Rightarrow> map_of rs r) of
          None \<Rightarrow> Inr None
        | Some i \<Rightarrow> Inr (m_submissions m i))"

text \<open>An entry and the seq of its commit.\<close>

definition entry_with_seq :: "'p memory \<Rightarrow> id \<Rightarrow> store_error + ('p entry \<times> seq) option" where
  "entry_with_seq m i =
     (case m_entries m i of
        None \<Rightarrow> Inr None
      | Some e \<Rightarrow> (case m_entry_seqs m i of None \<Rightarrow> Inl NoSuchRecord | Some s \<Rightarrow> Inr (Some (e, s))))"

definition get_entry :: "'p memory \<Rightarrow> id \<Rightarrow> store_error + ('p entry \<times> seq) option" where
  "get_entry m i = when_open m (entry_with_seq m i)"

section \<open>Visible entries\<close>

text \<open>Bounds of IDs; \<open>None\<close> is minus or plus infinity.\<close>

definition within_upper :: "int option \<Rightarrow> int \<Rightarrow> bool" where
  "within_upper upper x \<longleftrightarrow> (case upper of None \<Rightarrow> True | Some u \<Rightarrow> x \<le> u)"

definition below_lower :: "int option \<Rightarrow> int \<Rightarrow> bool" where
  "below_lower lower x \<longleftrightarrow> (case lower of None \<Rightarrow> False | Some l \<Rightarrow> x < l)"

definition min_upper :: "int option \<Rightarrow> int \<Rightarrow> int" where
  "min_upper upper x = (case upper of None \<Rightarrow> x | Some u \<Rightarrow> min u x)"

definition entry_ids_of :: "'p memory \<Rightarrow> id \<Rightarrow> id list" where
  "entry_ids_of m c = (case m_entry_ids m c of None \<Rightarrow> [] | Some ids \<Rightarrow> ids)"

fun walk_down :: "id list \<Rightarrow> int option \<Rightarrow> nat \<Rightarrow> id list" where
  "walk_down ids lower 0 = []"
| "walk_down ids lower (Suc k) = (if below_lower lower (int (ids ! k)) then [] else ids ! k # walk_down ids lower k)"

definition upper_index :: "id list \<Rightarrow> int option \<Rightarrow> nat" where
  "upper_index ids upper = bisect (\<lambda>i. within_upper upper (int i)) ids 0 (length ids)"

definition lower_index :: "id list \<Rightarrow> int option \<Rightarrow> nat" where
  "lower_index ids lower = bisect (\<lambda>i. below_lower lower (int i)) ids 0 (length ids)"

text \<open>
  \<open>visibleEntries\<close>: the IDs newest first, over the conversation and its ancestors. A generator runs only as far
  as it is asked: \<open>n\<close> is how many of its values the caller takes before it stops.
\<close>

partial_function (option) visible_loop ::
  "'p memory \<Rightarrow> id \<Rightarrow> int option \<Rightarrow> int option \<Rightarrow> nat \<Rightarrow> (store_error + id list) option" where
  "visible_loop m c lower upper n =
     (let ids = walk_down (entry_ids_of m c) lower (upper_index (entry_ids_of m c) upper)
      in if n \<le> length ids then Some (Inr (take n ids))
         else case m_conversations m c of
           None \<Rightarrow> Some (Inl NoSuchRecord)
         | Some conversation \<Rightarrow>
             (case c_parent conversation of
                None \<Rightarrow> Some (Inr ids)
              | Some parent \<Rightarrow>
                  if below_lower lower (min_upper upper (int (snd parent))) then Some (Inr ids)
                  else Option.bind
                    (visible_loop m (fst parent) lower (Some (min_upper upper (int (snd parent)))) (n - length ids)) (\<lambda>rest.
                    Some (rbind rest (\<lambda>more. Inr (ids @ more))))))"

definition visible_entries ::
  "'p memory \<Rightarrow> id \<Rightarrow> int option \<Rightarrow> int option \<Rightarrow> nat \<Rightarrow> (store_error + id list) option" where
  "visible_entries m c lower upper n =
     (if m_conversations m c = None then Some (Inl UnknownConversation) else visible_loop m c lower upper n)"

text \<open>\<open>visibleEntriesAscending\<close>: first the segments, then each from its oldest entry.\<close>

partial_function (option) segments_loop ::
  "'p memory \<Rightarrow> id \<Rightarrow> int option \<Rightarrow> int option \<Rightarrow> (id \<times> int option) list \<Rightarrow> (store_error + (id \<times> int option) list) option" where
  "segments_loop m c lower upper acc =
     (case m_conversations m c of
        None \<Rightarrow> Some (Inl NoSuchRecord)
      | Some conversation \<Rightarrow>
          (case c_parent conversation of
             None \<Rightarrow> Some (Inr (acc @ [(c, upper)]))
           | Some parent \<Rightarrow>
               if below_lower lower (min_upper upper (int (snd parent))) then Some (Inr (acc @ [(c, upper)]))
               else segments_loop m (fst parent) lower (Some (min_upper upper (int (snd parent)))) (acc @ [(c, upper)])))"

fun walk_up :: "id list \<Rightarrow> int option \<Rightarrow> id list" where
  "walk_up [] upper = []"
| "walk_up (i # ids) upper = (if within_upper upper (int i) then i # walk_up ids upper else [])"

definition segment_ids :: "'p memory \<Rightarrow> int option \<Rightarrow> id \<times> int option \<Rightarrow> id list" where
  "segment_ids m lower seg =
     (let ids = entry_ids_of m (fst seg) in walk_up (drop (lower_index ids lower) ids) (snd seg))"

definition visible_entries_ascending :: "'p memory \<Rightarrow> id \<Rightarrow> int option \<Rightarrow> int option \<Rightarrow> (store_error + id list) option" where
  "visible_entries_ascending m c lower upper =
     (if m_conversations m c = None then Some (Inl UnknownConversation)
      else map_option (\<lambda>r. rbind r (\<lambda>segs. Inr (concat (map (segment_ids m lower) (rev segs)))))
             (segments_loop m c lower upper []))"

definition records_of :: "(id \<rightharpoonup> 'a) \<Rightarrow> id list \<Rightarrow> store_error + 'a list" where
  "records_of get ids = rmap (\<lambda>i. case get i of None \<Rightarrow> Inl NoSuchRecord | Some v \<Rightarrow> Inr v) ids"

definition get_visible_entry :: "'p memory \<Rightarrow> id \<Rightarrow> id \<Rightarrow> (store_error + ('p entry \<times> seq) option) option" where
  "get_visible_entry m c i =
     (if m_closed m then Some (Inl StoreClosed)
      else map_option (\<lambda>r. rbind r (\<lambda>ids. case ids of [] \<Rightarrow> Inr None | _ # _ \<Rightarrow> entry_with_seq m i))
             (visible_entries m c (Some (int i)) (Some (int i)) 1))"

partial_function (option) head_marker_loop :: "'p memory \<Rightarrow> id \<Rightarrow> int option \<Rightarrow> (store_error + 'p entry option) option" where
  "head_marker_loop m c upper =
     (let ids = (case m_head_ids m c of None \<Rightarrow> [] | Some ids \<Rightarrow> ids); k = upper_index ids upper
      in if 0 < k then Some (case m_entries m (ids ! (k - 1)) of None \<Rightarrow> Inl NoSuchRecord | Some e \<Rightarrow> Inr (Some e))
         else case m_conversations m c of
           None \<Rightarrow> Some (Inl NoSuchRecord)
         | Some conversation \<Rightarrow>
             (case c_parent conversation of
                None \<Rightarrow> Some (Inr None)
              | Some parent \<Rightarrow> head_marker_loop m (fst parent) (Some (min_upper upper (int (snd parent))))))"

definition find_latest_head_marker :: "'p memory \<Rightarrow> id \<Rightarrow> id option \<Rightarrow> (store_error + 'p entry option) option" where
  "find_latest_head_marker m c upper =
     (if m_closed m then Some (Inl StoreClosed)
      else if m_conversations m c = None then Some (Inl UnknownConversation)
      else head_marker_loop m c (map_option int upper))"

record entry_query =
  eq_conversation :: id
  eq_min :: "int option"
  eq_max :: "int option"
  eq_order :: "jsstr option"

definition scan_entries :: "'p memory \<Rightarrow> entry_query \<Rightarrow> nat \<Rightarrow> cursor option \<Rightarrow> (store_error + 'p entry page) option" where
  "scan_entries m q limit cursor =
     (if m_closed m then Some (Inl StoreClosed)
      else case scan_start (eq_order q) cursor Descending of
        Inl e \<Rightarrow> Some (Inl e)
      | Inr (ord, after) \<Rightarrow>
          let upper = (case after of Some a \<Rightarrow> (if ord = Descending then Some (min_upper (eq_max q) (a - 1)) else eq_max q)
                       | None \<Rightarrow> eq_max q);
              lower = (case after of
                  Some a \<Rightarrow> (if ord = Ascending then Some (case eq_min q of None \<Rightarrow> a + 1 | Some l \<Rightarrow> max l (a + 1)) else eq_min q)
                | None \<Rightarrow> eq_min q)
          in map_option (\<lambda>r. rbind r (\<lambda>ids. rbind (records_of (m_entries m) (take (limit + 1) ids)) (\<lambda>vs.
                 page_of e_id vs limit ord)))
               (if ord = Descending then visible_entries m (eq_conversation q) lower upper (limit + 1)
                else visible_entries_ascending m (eq_conversation q) lower upper))"

section \<open>Documents\<close>

text \<open>The first document of an address that was alive.\<close>

fun find_alive :: "'p memory \<Rightarrow> point \<Rightarrow> id list \<Rightarrow> store_error + document option" where
  "find_alive m at [] = Inr None"
| "find_alive m at (i # ids) =
     (case m_documents m i of
        None \<Rightarrow> Inl NoSuchRecord
      | Some d \<Rightarrow> if alive_at (sd_record d) at then Inr (Some (sd_record d)) else find_alive m at ids)"

definition find_document :: "'p memory \<Rightarrow> jsstr \<Rightarrow> scope \<Rightarrow> jsstr option \<Rightarrow> point \<Rightarrow> store_error + document option" where
  "find_document m kind scope key at =
     when_open m
       (let index = m_addresses m (address_key kind scope key)
        in case at of
          Current \<Rightarrow>
            (case (case index of None \<Rightarrow> None | Some x \<Rightarrow> ai_current x) of
               None \<Rightarrow> Inr None
             | Some i \<Rightarrow> (case m_documents m i of None \<Rightarrow> Inl NoSuchRecord | Some d \<Rightarrow> Inr (Some (sd_record d))))
        | At s \<Rightarrow>
            find_alive m at (case index of None \<Rightarrow> [] | Some x \<Rightarrow> ai_ids x))"

definition get_document :: "'p memory \<Rightarrow> id \<Rightarrow> point \<Rightarrow> store_error + materialized option" where
  "get_document m i at = when_open m (materialize i at m)"

record document_query =
  dq_scope :: scope
  dq_at :: point
  dq_kind :: "jsstr option"

definition cursor_id :: "cursor option \<Rightarrow> store_error + int option" where
  "cursor_id cursor =
     (case (case cursor of None \<Rightarrow> None | Some c \<Rightarrow> map_of c (js ''after'')) of
        None \<Rightarrow> Inr None
      | Some v \<Rightarrow> (case safe_integer v of None \<Rightarrow> Inl InvalidCursor | Some i \<Rightarrow> Inr (Some i)))"

definition scan_documents :: "'p memory \<Rightarrow> document_query \<Rightarrow> nat \<Rightarrow> cursor option \<Rightarrow> store_error + document page" where
  "scan_documents m q limit cursor =
     when_open m
       (let ids = (case m_by_scope m (scope_key (dq_scope q)) of None \<Rightarrow> [] | Some ids \<Rightarrow> ids)
        in rbind (cursor_id cursor) (\<lambda>after.
           rbind (scan_loop (\<lambda>i. map_option sd_record (m_documents m i))
                    (\<lambda>r. asked (dq_kind q) (d_kind r) \<and> alive_at r (dq_at q)) limit ids (scan_indexes ids Ascending after) []) (\<lambda>vs.
             page_of d_id vs limit Ascending)))"

end
