(* ===== verification/MemoryIndex.thy ===== *)
theory MemoryIndex
  imports MemoryReads
begin

text \<open>
  Sorted ID lists as indexes: what the binary searches, insertions and removals of \<open>MemoryStorage\<close> do to
  the set an index stands for, and what one page of a scan contains.
\<close>

section \<open>Binary search\<close>

lemma bisect_spec:
  assumes mono: "\<And>j k. j \<le> k \<Longrightarrow> k < length ids \<Longrightarrow> right (ids ! k) \<Longrightarrow> right (ids ! j)"
  shows "low \<le> high \<Longrightarrow> high \<le> length ids \<Longrightarrow> (\<forall>j < low. right (ids ! j)) \<Longrightarrow>
    (\<forall>j. high \<le> j \<and> j < length ids \<longrightarrow> \<not> right (ids ! j)) \<Longrightarrow>
    bisect right ids low high \<le> length ids \<and> (\<forall>j < bisect right ids low high. right (ids ! j)) \<and>
    (\<forall>j. bisect right ids low high \<le> j \<and> j < length ids \<longrightarrow> \<not> right (ids ! j))"
proof (induction "high - low" arbitrary: low high rule: less_induct)
  case less
  have eq: "bisect right ids low high =
      (if low < high then if right (ids ! ((low + high) div 2)) then bisect right ids ((low + high) div 2 + 1) high
         else bisect right ids low ((low + high) div 2)
       else low)"
    by (subst bisect.simps) (simp add: Let_def)
  show ?case
  proof (cases "low < high")
    case False
    then have "bisect right ids low high = low" "low = high"
      using eq less.prems(1) by simp_all
    then show ?thesis
      using less.prems by simp
  next
    case True
    let ?m = "(low + high) div 2"
    have m: "low \<le> ?m" "?m < high"
      using True by auto
    show ?thesis
    proof (cases "right (ids ! ?m)")
      case right: True
      have "\<forall>j < ?m + 1. right (ids ! j)"
        using mono [of _ ?m] m(2) less.prems(2) right by (auto simp: less_Suc_eq_le)
      moreover have e: "bisect right ids low high = bisect right ids (?m + 1) high"
        using eq True right by simp
      ultimately show ?thesis
        unfolding e using less.prems(2,4) m by (intro less.hyps) auto
    next
      case wrong: False
      have "\<forall>j. ?m \<le> j \<and> j < length ids \<longrightarrow> \<not> right (ids ! j)"
        using mono [of ?m] wrong by blast
      moreover have e: "bisect right ids low high = bisect right ids low ?m"
        using eq True wrong by simp
      ultimately show ?thesis
        unfolding e using less.prems(2,3) m by (intro less.hyps) auto
    qed
  qed
qed

abbreviation increasing :: "id list \<Rightarrow> bool" where
  "increasing ids \<equiv> sorted_wrt (<) ids"

lemma increasing_nth: "increasing ids \<Longrightarrow> j \<le> k \<Longrightarrow> k < length ids \<Longrightarrow> ids ! j \<le> ids ! k"
  by (metis le_eq_less_or_eq sorted_wrt_nth_less)

lemma filter_take_drop: "filter P xs = filter P (take n xs) @ filter P (drop n xs)"
  using filter_append [of P "take n xs" "drop n xs"] by simp

lemma bisect_split:
  assumes "increasing ids" "\<And>i j. i \<le> j \<Longrightarrow> right j \<Longrightarrow> right i"
  shows "bisect right ids 0 (length ids) \<le> length ids \<and>
    take (bisect right ids 0 (length ids)) ids = filter right ids \<and>
    drop (bisect right ids 0 (length ids)) ids = filter (\<lambda>i. \<not> right i) ids"
proof -
  let ?k = "bisect right ids 0 (length ids)"
  have "?k \<le> length ids \<and> (\<forall>j < ?k. right (ids ! j)) \<and> (\<forall>j. ?k \<le> j \<and> j < length ids \<longrightarrow> \<not> right (ids ! j))"
  proof (rule bisect_spec)
    fix j k assume "j \<le> k" "k < length ids" "right (ids ! k)"
    then show "right (ids ! j)"
      using assms(2) increasing_nth [OF assms(1)] by blast
  qed auto
  then have k: "?k \<le> length ids" "\<forall>j < ?k. right (ids ! j)" "\<forall>j. ?k \<le> j \<and> j < length ids \<longrightarrow> \<not> right (ids ! j)"
    by blast+
  define n where "n = ?k"
  have a: "\<forall>x \<in> set (take ?k ids). right x"
    using k(1,2) unfolding n_def [symmetric] by (auto simp: in_set_conv_nth)
  have b: "\<forall>x \<in> set (drop ?k ids). \<not> right x"
    using k(1,3) unfolding n_def [symmetric] by (auto simp: in_set_conv_nth)
  note f = filter_take_drop [where n = ?k and xs = ids]
  show ?thesis
  proof (intro conjI)
    show "take ?k ids = filter right ids"
      unfolding f [where P = right] filter_True [OF a] filter_False [OF b] by simp
    have a': "\<forall>x \<in> set (take ?k ids). \<not> \<not> right x"
      using a by simp
    show "drop ?k ids = filter (\<lambda>i. \<not> right i) ids"
      unfolding f [where P = "\<lambda>i. \<not> right i"] filter_True [OF b] filter_False [OF a'] by simp
  qed (rule k(1))
qed

lemmas lower_split = bisect_split [of _ "\<lambda>i. int i < t" for t]
lemmas upper_split = bisect_split [of _ "\<lambda>i. int i \<le> t" for t]

section \<open>Indexes\<close>

definition lists :: "id list \<Rightarrow> (id \<Rightarrow> bool) \<Rightarrow> bool" where
  "lists ids P \<longleftrightarrow> increasing ids \<and> (\<forall>i. i \<in> set ids \<longleftrightarrow> P i)"

lemma lists_unique: "lists ids P \<Longrightarrow> lists ids' P \<Longrightarrow> ids = ids'"
  by (metis lists_def sorted_distinct_set_unique strict_sorted_iff subsetI subset_antisym)

lemma increasing_split:
  assumes "increasing ids"
  shows "ids = filter (\<lambda>j. j < i) ids @ filter (\<lambda>j. \<not> j < i) ids"
  using lower_split [of ids "int i", OF assms] append_take_drop_id [of "id_lower_bound ids (int i)" ids]
  by (simp add: id_lower_bound_def)

lemma insert_sorted_eq:
  assumes "increasing ids" "i \<notin> set ids"
  shows "insert_sorted i ids = filter (\<lambda>j. j < i) ids @ i # filter (\<lambda>j. i < j) ids"
proof -
  have not: "filter (\<lambda>j. \<not> j < i) ids = filter (\<lambda>j. i < j) ids"
    using assms(2) by (intro filter_cong) (auto simp: not_less le_less)
  show ?thesis
  proof (cases "ids = [] \<or> last ids < i")
    case True
    have "\<forall>j \<in> set ids. j < i"
    proof
      fix j assume "j \<in> set ids"
      then have "j \<le> last ids"
        using increasing_nth [OF assms(1), of _ "length ids - 1"] True
        by (cases "ids = []") (auto simp: in_set_conv_nth last_conv_nth)
      then show "j < i"
        using True \<open>j \<in> set ids\<close> by auto
    qed
    then show ?thesis
      using True by (auto simp: insert_sorted_def filter_id_conv [THEN iffD2] intro!: filter_False [symmetric] dest: less_asym)
  next
    case False
    have k: "id_lower_bound ids (int i) \<le> length ids"
      "take (id_lower_bound ids (int i)) ids = filter (\<lambda>j. j < i) ids"
      "drop (id_lower_bound ids (int i)) ids = filter (\<lambda>j. \<not> j < i) ids"
      using lower_split [of ids "int i", OF assms(1)] by (simp_all add: id_lower_bound_def)
    then show ?thesis
      using False not by (simp add: insert_sorted_def splice_def Let_def)
  qed
qed

lemma lists_insert:
  assumes "lists ids P" "\<not> P i"
  shows "lists (insert_sorted i ids) (\<lambda>j. j = i \<or> P j)"
proof -
  have ids: "increasing ids" "i \<notin> set ids" "\<forall>j. j \<in> set ids \<longleftrightarrow> P j"
    using assms by (simp_all add: lists_def)
  then have "increasing (filter (\<lambda>j. j < i) ids)" "increasing (filter (\<lambda>j. i < j) ids)"
    by (simp_all add: sorted_wrt_filter)
  then show ?thesis
    using ids assms(2) by (auto simp: lists_def insert_sorted_eq sorted_wrt_append)
qed

lemma remove_sorted_eq:
  assumes "increasing ids"
  shows "remove_sorted i ids = filter (\<lambda>j. j \<noteq> i) ids"
proof -
  let ?k = "id_lower_bound ids (int i)"
  have k: "?k \<le> length ids" "take ?k ids = filter (\<lambda>j. j < i) ids" "drop ?k ids = filter (\<lambda>j. \<not> j < i) ids"
    using lower_split [of ids "int i", OF assms] by (simp_all add: id_lower_bound_def)
  have d: "filter (\<lambda>j. j \<noteq> i) ids = filter (\<lambda>j. j \<noteq> i) (take ?k ids) @ filter (\<lambda>j. j \<noteq> i) (drop ?k ids)"
    by (rule filter_take_drop)
  have t: "filter (\<lambda>j. j \<noteq> i) (take ?k ids) = take ?k ids"
    unfolding k(2) filter_filter by (rule filter_cong) auto
  show ?thesis
  proof (cases "?k < length ids \<and> ids ! ?k = i")
    case True
    then have r: "drop ?k ids = i # drop (Suc ?k) ids"
      by (metis Cons_nth_drop_Suc)
    have "increasing (drop ?k ids)"
      using assms by (rule sorted_wrt_drop)
    then have "filter (\<lambda>j. j \<noteq> i) (drop ?k ids) = drop (Suc ?k) ids"
      unfolding r by (auto intro!: filter_True)
    then show ?thesis
      using True t d by (simp add: remove_sorted_def splice_def Let_def min_def)
  next
    case False
    have "i \<notin> set (drop ?k ids)"
    proof
      assume "i \<in> set (drop ?k ids)"
      then obtain x xs where x: "drop ?k ids = x # xs" "i \<in> set (x # xs)"
        by (cases "drop ?k ids") auto
      have "increasing (x # xs)"
        using assms x(1) by (metis sorted_wrt_drop)
      moreover have "\<not> x < i"
        using x(1) k(3) by (metis (mono_tags, lifting) list.set_intros(1) mem_Collect_eq set_filter)
      ultimately have "x = i"
        using x(2) by auto
      then show False
        using False x(1) by (metis drop_all list.distinct(1) not_less nth_via_drop)
    qed
    then have "filter (\<lambda>j. j \<noteq> i) (drop ?k ids) = drop ?k ids"
      by (auto intro: filter_True)
    then have "filter (\<lambda>j. j \<noteq> i) ids = ids"
      unfolding d t by simp
    then show ?thesis
      using False by (auto simp: remove_sorted_def Let_def)
  qed
qed

lemma lists_remove: "lists ids P \<Longrightarrow> lists (remove_sorted i ids) (\<lambda>j. j \<noteq> i \<and> P j)"
  by (auto simp: lists_def remove_sorted_eq sorted_wrt_filter)

definition ids_at :: "('k \<rightharpoonup> id list) \<Rightarrow> 'k \<Rightarrow> id list" where
  "ids_at m k = (case m k of None \<Rightarrow> [] | Some ids \<Rightarrow> ids)"

lemma ids_at_insert: "ids_at (insert_map_id k i m) = (ids_at m)(k := insert_sorted i (ids_at m k))"
  by (auto simp: ids_at_def insert_map_id_def fun_eq_iff)

end
