(* ===== verification/MemoryRecords.thy ===== *)
theory MemoryRecords
  imports MemoryIndex
begin

text \<open>
  The tables of conversations, entries, tasks and submissions: every index lists exactly the records it
  stands for, in order of their IDs, and every write of a prepared commit keeps that.
\<close>

section \<open>The interface of an index\<close>

text \<open>
  What the tables need of a list of IDs: an operation that adds one that is not there, one that removes
  one, and what it holds then. The status lists and the lists by owner or conversation are clients.
\<close>

locale index =
  fixes add :: "'i \<Rightarrow> 'x \<Rightarrow> 'x"
    and cut :: "'i \<Rightarrow> 'x \<Rightarrow> 'x"
    and holds :: "'x \<Rightarrow> ('i \<Rightarrow> bool) \<Rightarrow> bool"
  assumes holds_add: "holds x P \<Longrightarrow> \<not> P i \<Longrightarrow> holds (add i x) (\<lambda>j. j = i \<or> P j)"
    and holds_cut: "holds x P \<Longrightarrow> holds (cut i x) (\<lambda>j. j \<noteq> i \<and> P j)"
begin

lemma holds_ext: "holds x P \<Longrightarrow> (\<And>j. P j = Q j) \<Longrightarrow> holds x Q"
  using ext [of P Q] by simp

lemma add_to: "holds x P \<Longrightarrow> \<not> P i \<Longrightarrow> (\<And>j. Q j \<longleftrightarrow> j = i \<or> P j) \<Longrightarrow> holds (add i x) Q"
  by (rule holds_ext [OF holds_add]) auto

text \<open>All keys of a table.\<close>

lemma keys_put:
  assumes "holds ids (\<lambda>i. tab i \<noteq> None)"
  shows "holds (if tab i = None then add i ids else ids) (\<lambda>j. (tab(i \<mapsto> v)) j \<noteq> None)"
  using assms by (auto intro: add_to holds_ext)

text \<open>The keys of a table by a property of their values, when a value is new.\<close>

lemma group_new:
  assumes "\<forall>k. holds (at k) (\<lambda>i. \<exists>v. tab i = Some v \<and> f v = Some k)" and "tab i = None"
  shows "\<forall>k. holds ((case f v of None \<Rightarrow> at | Some k \<Rightarrow> at(k := add i (at k))) k)
    (\<lambda>j. \<exists>w. (tab(i \<mapsto> v)) j = Some w \<and> f w = Some k)"
proof
  fix k
  have k: "holds (at k) (\<lambda>i. \<exists>v. tab i = Some v \<and> f v = Some k)"
    using assms(1) by blast
  show "holds ((case f v of None \<Rightarrow> at | Some k \<Rightarrow> at(k := add i (at k))) k)
    (\<lambda>j. \<exists>w. (tab(i \<mapsto> v)) j = Some w \<and> f w = Some k)"
  proof (cases "f v = Some k")
    case True
    then show ?thesis
      using add_to [OF k, where i = i] assms(2) by simp
  next
    case False
    have "(case f v of None \<Rightarrow> at | Some k \<Rightarrow> at(k := add i (at k))) k = at k"
      using False by (auto split: option.splits)
    then show ?thesis
      using holds_ext [OF k] assms(2) False by auto
  qed
qed

text \<open>The keys of a table by the status of their values, when a value is new or replaces another.\<close>

lemma by_status:
  assumes at: "\<forall>s. holds (at s) (\<lambda>i. \<exists>v. tab i = Some v \<and> st v = s)"
  shows "\<forall>s. holds ((case tab i of
        None \<Rightarrow> at(st v := add i (at (st v)))
      | Some p \<Rightarrow> if st p = st v then at
          else (let at = at(st p := cut i (at (st p))) in at(st v := add i (at (st v))))) s)
    (\<lambda>j. \<exists>w. (tab(i \<mapsto> v)) j = Some w \<and> st w = s)"
proof
  fix s
  have s: "holds (at s) (\<lambda>i. \<exists>v. tab i = Some v \<and> st v = s)" for s
    using at by blast
  note add = add_to [OF s, where i = i] and cut = holds_ext [OF holds_cut [OF s, where i = i]] and same = holds_ext [OF s]
  show "holds ((case tab i of
        None \<Rightarrow> at(st v := add i (at (st v)))
      | Some p \<Rightarrow> if st p = st v then at
          else (let at = at(st p := cut i (at (st p))) in at(st v := add i (at (st v))))) s)
    (\<lambda>j. \<exists>w. (tab(i \<mapsto> v)) j = Some w \<and> st w = s)"
  proof (cases "tab i")
    case None
    then show ?thesis
      using add same by auto
  next
    case (Some p)
    consider "st p = st v" | "st p \<noteq> st v" "s = st v" | "st p \<noteq> st v" "s = st p" | "s \<noteq> st v" "s \<noteq> st p" "st p \<noteq> st v"
      by blast
    then show ?thesis
    proof cases
      case 3
      then show ?thesis
        using Some cut by auto
    qed (use Some add same in auto)
  qed
qed

end

interpretation id_lists: index insert_sorted remove_sorted lists
  by unfold_locales (rule lists_insert lists_remove; assumption)+


section \<open>The tables\<close>

definition conversations_ok :: "'p memory \<Rightarrow> bool" where
  "conversations_ok m \<longleftrightarrow>
     lists (m_conversation_ids m) (\<lambda>i. m_conversations m i \<noteq> None) \<and>
     (\<forall>c. lists (ids_at (m_by_owner_conversation m) c)
        (\<lambda>i. \<exists>r. m_conversations m i = Some r \<and> map_option fst (c_owner r) = Some c)) \<and>
     (\<forall>t. lists (ids_at (m_by_owner_task m) t)
        (\<lambda>i. \<exists>r. m_conversations m i = Some r \<and> map_option snd (c_owner r) = Some t)) \<and>
     (\<forall>i r. m_conversations m i = Some r \<longrightarrow> c_id r = i)"

text \<open>\<open>n\<close> bounds the seqs of the commits so far.\<close>

definition entries_ok :: "seq \<Rightarrow> 'p memory \<Rightarrow> bool" where
  "entries_ok n m \<longleftrightarrow>
     (\<forall>c. lists (ids_at (m_entry_ids m) c) (\<lambda>i. \<exists>e. m_entries m i = Some e \<and> Some (e_conversation e) = Some c)) \<and>
     (\<forall>c. lists (ids_at (m_head_ids m) c)
        (\<lambda>i. \<exists>e. m_entries m i = Some e \<and> (if e_head e = None then None else Some (e_conversation e)) = Some c)) \<and>
     (\<forall>i e. m_entries m i = Some e \<longrightarrow> e_id e = i \<and> (\<exists>s < n. m_entry_seqs m i = Some s))"

definition tasks_ok :: "'p memory \<Rightarrow> bool" where
  "tasks_ok m \<longleftrightarrow>
     lists (m_task_ids m) (\<lambda>i. m_tasks m i \<noteq> None) \<and>
     (\<forall>s. lists (m_tasks_by_status m s) (\<lambda>i. \<exists>t. m_tasks m i = Some t \<and> t_status t = s)) \<and>
     (\<forall>i t. m_tasks m i = Some t \<longrightarrow> t_id t = i)"

definition submissions_ok :: "'p memory \<Rightarrow> bool" where
  "submissions_ok m \<longleftrightarrow>
     lists (m_submission_ids m) (\<lambda>i. m_submissions m i \<noteq> None) \<and>
     (\<forall>s. lists (m_submissions_by_status m s) (\<lambda>i. \<exists>t. m_submissions m i = Some t \<and> s_status t = s)) \<and>
     (\<forall>i t. m_submissions m i = Some t \<longrightarrow> s_id t = i)"

definition requests_ok :: "'p memory \<Rightarrow> bool" where
  "requests_ok m \<longleftrightarrow>
     (\<forall>c rs. m_by_request m c = Some rs \<longrightarrow> rs \<noteq> [] \<and>
        (\<forall>r i. map_of rs r = Some i \<longrightarrow>
           (\<exists>s. m_submissions m i = Some s \<and> s_conversation s = c \<and> s_request s = Some r)))"

fun has_record :: "'p memory \<Rightarrow> table \<Rightarrow> id \<Rightarrow> bool" where
  "has_record m TConversation i = (m_conversations m i \<noteq> None)"
| "has_record m TEntry i = (m_entries m i \<noteq> None)"
| "has_record m TTask i = (m_tasks m i \<noteq> None)"
| "has_record m TSubmission i = (m_submissions m i \<noteq> None)"
| "has_record m TDocument i = (m_documents m i \<noteq> None)"

definition types_ok :: "'p memory \<Rightarrow> bool" where
  "types_ok m \<longleftrightarrow> (\<forall>i t. m_types m i = Some t \<longleftrightarrow> has_record m t i) \<and> (\<forall>i. m_types m i \<noteq> None \<longrightarrow> i < m_next_id m)"

definition records_ok :: "seq \<Rightarrow> 'p memory \<Rightarrow> bool" where
  "records_ok n m \<longleftrightarrow>
     conversations_ok m \<and> entries_ok n m \<and> tasks_ok m \<and> submissions_ok m \<and> requests_ok m \<and> types_ok m"

lemmas tables_ok_defs = conversations_ok_def entries_ok_def tasks_ok_def submissions_ok_def requests_ok_def types_ok_def

lemma ids_at_case:
  "ids_at (case x of None \<Rightarrow> at | Some (c, t) \<Rightarrow> insert_map_id c i at)
   = (case map_option fst x of None \<Rightarrow> ids_at at | Some c \<Rightarrow> (ids_at at)(c := insert_sorted i (ids_at at c)))"
  "ids_at (case x of None \<Rightarrow> at | Some (c, t) \<Rightarrow> insert_map_id t i at)
   = (case map_option snd x of None \<Rightarrow> ids_at at | Some t \<Rightarrow> (ids_at at)(t := insert_sorted i (ids_at at t)))"
  by (auto simp: ids_at_insert split: option.splits prod.splits)

lemma conversation_fields:
  "m_types (apply_conversation c m) = (m_types m)(c_id c \<mapsto> TConversation)"
  "m_conversations (apply_conversation c m) = (m_conversations m)(c_id c \<mapsto> c)"
  "m_conversation_ids (apply_conversation c m) = insert_sorted (c_id c) (m_conversation_ids m)"
  "ids_at (m_by_owner_conversation (apply_conversation c m)) =
     (case map_option fst (c_owner c) of None \<Rightarrow> ids_at (m_by_owner_conversation m)
      | Some k \<Rightarrow> (ids_at (m_by_owner_conversation m))(k := insert_sorted (c_id c) (ids_at (m_by_owner_conversation m) k)))"
  "ids_at (m_by_owner_task (apply_conversation c m)) =
     (case map_option snd (c_owner c) of None \<Rightarrow> ids_at (m_by_owner_task m)
      | Some k \<Rightarrow> (ids_at (m_by_owner_task m))(k := insert_sorted (c_id c) (ids_at (m_by_owner_task m) k)))"
  "m_next_id (apply_conversation c m) = max (m_next_id m) (c_id c + 1)"
  by (simp_all add: apply_conversation_def bump_id_def ids_at_case)

lemma conversations_ok_put:
  assumes "conversations_ok m" "m_conversations m (c_id c) = None"
  shows "conversations_ok (apply_conversation c m)"
proof -
  have ok: "lists (m_conversation_ids m) (\<lambda>i. m_conversations m i \<noteq> None)"
    "\<forall>k. lists (ids_at (m_by_owner_conversation m) k)
        (\<lambda>i. \<exists>r. m_conversations m i = Some r \<and> map_option fst (c_owner r) = Some k)"
    "\<forall>k. lists (ids_at (m_by_owner_task m) k)
        (\<lambda>i. \<exists>r. m_conversations m i = Some r \<and> map_option snd (c_owner r) = Some k)"
    "\<forall>i r. m_conversations m i = Some r \<longrightarrow> c_id r = i"
    using assms(1) unfolding conversations_ok_def by blast+
  show ?thesis
    unfolding conversations_ok_def conversation_fields
    using id_lists.keys_put [OF ok(1), of "c_id c" c] id_lists.group_new [OF ok(2) assms(2), of c]
      id_lists.group_new [OF ok(3) assms(2), of c] ok(4) assms(2)
    by (intro conjI) (simp_all only: if_True fun_upd_apply, auto)
qed

lemma entry_fields:
  "m_types (apply_entry seq e m) = (m_types m)(e_id e \<mapsto> TEntry)"
  "m_entries (apply_entry seq e m) = (m_entries m)(e_id e \<mapsto> e)"
  "m_entry_seqs (apply_entry seq e m) = (m_entry_seqs m)(e_id e \<mapsto> seq)"
  "ids_at (m_entry_ids (apply_entry seq e m)) =
     (case Some (e_conversation e) of None \<Rightarrow> ids_at (m_entry_ids m)
      | Some k \<Rightarrow> (ids_at (m_entry_ids m))(k := insert_sorted (e_id e) (ids_at (m_entry_ids m) k)))"
  "ids_at (m_head_ids (apply_entry seq e m)) =
     (case (if e_head e = None then None else Some (e_conversation e)) of None \<Rightarrow> ids_at (m_head_ids m)
      | Some k \<Rightarrow> (ids_at (m_head_ids m))(k := insert_sorted (e_id e) (ids_at (m_head_ids m) k)))"
  "m_next_id (apply_entry seq e m) = max (m_next_id m) (e_id e + 1)"
  by (simp_all add: apply_entry_def bump_id_def ids_at_insert)

lemma entries_ok_put:
  assumes "entries_ok n m" "m_entries m (e_id e) = None" "seq < n"
  shows "entries_ok n (apply_entry seq e m)"
proof -
  have ok: "\<forall>c. lists (ids_at (m_entry_ids m) c) (\<lambda>i. \<exists>e. m_entries m i = Some e \<and> Some (e_conversation e) = Some c)"
    "\<forall>c. lists (ids_at (m_head_ids m) c)
        (\<lambda>i. \<exists>e. m_entries m i = Some e \<and> (if e_head e = None then None else Some (e_conversation e)) = Some c)"
    "\<forall>i e. m_entries m i = Some e \<longrightarrow> e_id e = i \<and> (\<exists>s < n. m_entry_seqs m i = Some s)"
    using assms(1) unfolding entries_ok_def by blast+
  show ?thesis
    unfolding entries_ok_def entry_fields
    using id_lists.group_new [OF ok(1) assms(2), of e] id_lists.group_new [OF ok(2) assms(2), of e] ok(3) assms(3)
    by (intro conjI) (simp_all only: fun_upd_apply, auto)
qed

lemma task_fields:
  "m_types (apply_task t m) = (m_types m)(t_id t \<mapsto> TTask)"
  "m_tasks (apply_task t m) = (m_tasks m)(t_id t \<mapsto> t)"
  "m_task_ids (apply_task t m) = (if m_tasks m (t_id t) = None then insert_sorted (t_id t) (m_task_ids m) else m_task_ids m)"
  "m_tasks_by_status (apply_task t m) =
     (case m_tasks m (t_id t) of
        None \<Rightarrow> (m_tasks_by_status m)(t_status t := insert_sorted (t_id t) (m_tasks_by_status m (t_status t)))
      | Some p \<Rightarrow> if t_status p = t_status t then m_tasks_by_status m
          else (let at = (m_tasks_by_status m)(t_status p := remove_sorted (t_id t) (m_tasks_by_status m (t_status p)))
            in at(t_status t := insert_sorted (t_id t) (at (t_status t)))))"
  "m_next_id (apply_task t m) = max (m_next_id m) (t_id t + 1)"
  by (simp_all add: apply_task_def bump_id_def Let_def split: option.splits)

lemma tasks_ok_put:
  assumes "tasks_ok m"
  shows "tasks_ok (apply_task t m)"
proof -
  have ok: "lists (m_task_ids m) (\<lambda>i. m_tasks m i \<noteq> None)"
    "\<forall>s. lists (m_tasks_by_status m s) (\<lambda>i. \<exists>t. m_tasks m i = Some t \<and> t_status t = s)"
    "\<forall>i t. m_tasks m i = Some t \<longrightarrow> t_id t = i"
    using assms(1) unfolding tasks_ok_def by blast+
  show ?thesis
    unfolding tasks_ok_def task_fields
    using id_lists.keys_put [OF ok(1), of "t_id t" t] id_lists.by_status [OF ok(2), where i = "t_id t" and v = t] ok(3)
    by (intro conjI) (simp_all only: fun_upd_apply, auto)
qed

lemma submission_fields:
  "m_types (apply_submission t m) = (m_types m)(s_id t \<mapsto> TSubmission)"
  "m_submissions (apply_submission t m) = (m_submissions m)(s_id t \<mapsto> t)"
  "m_submission_ids (apply_submission t m) =
     (if m_submissions m (s_id t) = None then insert_sorted (s_id t) (m_submission_ids m) else m_submission_ids m)"
  "m_submissions_by_status (apply_submission t m) =
     (case m_submissions m (s_id t) of
        None \<Rightarrow> (m_submissions_by_status m)(s_status t := insert_sorted (s_id t) (m_submissions_by_status m (s_status t)))
      | Some p \<Rightarrow> if s_status p = s_status t then m_submissions_by_status m
          else (let at = (m_submissions_by_status m)(s_status p := remove_sorted (s_id t) (m_submissions_by_status m (s_status p)))
            in at(s_status t := insert_sorted (s_id t) (at (s_status t)))))"
  "m_by_request (apply_submission t m) = note_request t (forget_request (s_id t) (m_submissions m (s_id t)) (m_by_request m))"
  "m_next_id (apply_submission t m) = max (m_next_id m) (s_id t + 1)"
  by (simp_all add: apply_submission_def bump_id_def Let_def split: option.splits)

lemma submissions_ok_put:
  assumes "submissions_ok m"
  shows "submissions_ok (apply_submission t m)"
proof -
  have ok: "lists (m_submission_ids m) (\<lambda>i. m_submissions m i \<noteq> None)"
    "\<forall>s. lists (m_submissions_by_status m s) (\<lambda>i. \<exists>t. m_submissions m i = Some t \<and> s_status t = s)"
    "\<forall>i t. m_submissions m i = Some t \<longrightarrow> s_id t = i"
    using assms(1) unfolding submissions_ok_def by blast+
  show ?thesis
    unfolding submissions_ok_def submission_fields
    using id_lists.keys_put [OF ok(1), of "s_id t" t] id_lists.by_status [OF ok(2), where i = "s_id t" and v = t] ok(3)
    by (intro conjI) (simp_all only: fun_upd_apply, auto)
qed

text \<open>What a request of a conversation leads to, and how a write changes it.\<close>

definition request_at :: "(id \<rightharpoonup> (jsstr \<times> id) list) \<Rightarrow> id \<Rightarrow> jsstr \<Rightarrow> id option" where
  "request_at requests c r = (case requests c of None \<Rightarrow> None | Some rs \<Rightarrow> map_of rs r)"

lemma request_at_note:
  "request_at (note_request s requests) c r =
     (if s_conversation s = c \<and> s_request s = Some r then Some (s_id s) else request_at requests c r)"
  by (auto simp: request_at_def note_request_def map_of_al_put split: option.splits)

lemma request_at_forget:
  "request_at (forget_request i previous requests) c r =
     (case previous of
        None \<Rightarrow> request_at requests c r
      | Some p \<Rightarrow> if s_conversation p = c \<and> s_request p = Some r \<and> request_at requests c r = Some i then None
          else request_at requests c r)"
proof -
  have nil: "al_del k rs = [] \<Longrightarrow> map_of rs x = (if x = k then map_of rs k else None)" for k rs x
    using map_of_al_del [of k rs] by (auto simp: fun_eq_iff split: if_splits)
  show ?thesis
    by (auto simp: request_at_def forget_request_def map_of_al_del split: option.splits dest: nil [of _ _ r])
qed

lemma al_put_not_Nil [simp]: "al_put k v kvs \<noteq> []"
  by (cases kvs) (auto split: if_splits)

lemma requests_ok_alt:
  "requests_ok m \<longleftrightarrow>
     (\<forall>c rs. m_by_request m c = Some rs \<longrightarrow> rs \<noteq> []) \<and>
     (\<forall>c r i. request_at (m_by_request m) c r = Some i \<longrightarrow>
        (\<exists>s. m_submissions m i = Some s \<and> s_conversation s = c \<and> s_request s = Some r))"
  unfolding requests_ok_def request_at_def by (fastforce split: option.splits)

lemma requests_ok_put:
  assumes "requests_ok m"
  shows "requests_ok (apply_submission t m)"
proof -
  have "requests c = Some rs \<Longrightarrow> rs \<noteq> []"
    if "requests = note_request t (forget_request (s_id t) (m_submissions m (s_id t)) (m_by_request m))" for requests c rs
    using assms that by (auto simp: requests_ok_def note_request_def forget_request_def split: option.splits if_splits)
  moreover have "\<exists>s. ((m_submissions m)(s_id t \<mapsto> t)) i = Some s \<and> s_conversation s = c \<and> s_request s = Some r"
    if "request_at (note_request t (forget_request (s_id t) (m_submissions m (s_id t)) (m_by_request m))) c r = Some i" for c r i
  proof (cases "s_conversation t = c \<and> s_request t = Some r")
    case True
    then show ?thesis
      using that by (auto simp: request_at_note)
  next
    case False
    then have "request_at (forget_request (s_id t) (m_submissions m (s_id t)) (m_by_request m)) c r = Some i"
      using that by (simp add: request_at_note split: if_splits)
    then have r: "request_at (m_by_request m) c r = Some i"
      and "\<not> (\<exists>p. m_submissions m (s_id t) = Some p \<and> s_conversation p = c \<and> s_request p = Some r \<and> i = s_id t)"
      by (auto simp: request_at_forget split: option.splits if_splits)
    moreover obtain s where "m_submissions m i = Some s" "s_conversation s = c" "s_request s = Some r"
      using assms r unfolding requests_ok_alt by blast
    ultimately show ?thesis
      by auto
  qed
  ultimately show ?thesis
    unfolding requests_ok_alt submission_fields by blast
qed

lemmas apply_fields = conversation_fields entry_fields task_fields submission_fields

lemma conversation_frame [simp]:
  "m_entries (apply_conversation c m) = m_entries m" "m_entry_seqs (apply_conversation c m) = m_entry_seqs m"
  "m_entry_ids (apply_conversation c m) = m_entry_ids m" "m_head_ids (apply_conversation c m) = m_head_ids m"
  "m_tasks (apply_conversation c m) = m_tasks m" "m_task_ids (apply_conversation c m) = m_task_ids m"
  "m_tasks_by_status (apply_conversation c m) = m_tasks_by_status m"
  "m_submissions (apply_conversation c m) = m_submissions m"
  "m_submission_ids (apply_conversation c m) = m_submission_ids m"
  "m_submissions_by_status (apply_conversation c m) = m_submissions_by_status m"
  "m_by_request (apply_conversation c m) = m_by_request m" "m_documents (apply_conversation c m) = m_documents m"
  "m_addresses (apply_conversation c m) = m_addresses m" "m_by_scope (apply_conversation c m) = m_by_scope m"
  "m_next_seq (apply_conversation c m) = m_next_seq m" "m_closed (apply_conversation c m) = m_closed m"
  by (simp_all add: apply_conversation_def bump_id_def)

lemma entry_frame [simp]:
  "m_conversations (apply_entry seq e m) = m_conversations m" "m_conversation_ids (apply_entry seq e m) = m_conversation_ids m"
  "m_by_owner_conversation (apply_entry seq e m) = m_by_owner_conversation m"
  "m_by_owner_task (apply_entry seq e m) = m_by_owner_task m"
  "m_tasks (apply_entry seq e m) = m_tasks m" "m_task_ids (apply_entry seq e m) = m_task_ids m"
  "m_tasks_by_status (apply_entry seq e m) = m_tasks_by_status m"
  "m_submissions (apply_entry seq e m) = m_submissions m" "m_submission_ids (apply_entry seq e m) = m_submission_ids m"
  "m_submissions_by_status (apply_entry seq e m) = m_submissions_by_status m"
  "m_by_request (apply_entry seq e m) = m_by_request m" "m_documents (apply_entry seq e m) = m_documents m"
  "m_addresses (apply_entry seq e m) = m_addresses m" "m_by_scope (apply_entry seq e m) = m_by_scope m"
  "m_next_seq (apply_entry seq e m) = m_next_seq m" "m_closed (apply_entry seq e m) = m_closed m"
  by (simp_all add: apply_entry_def bump_id_def)

lemma task_frame [simp]:
  "m_conversations (apply_task t m) = m_conversations m" "m_conversation_ids (apply_task t m) = m_conversation_ids m"
  "m_by_owner_conversation (apply_task t m) = m_by_owner_conversation m" "m_by_owner_task (apply_task t m) = m_by_owner_task m"
  "m_entries (apply_task t m) = m_entries m" "m_entry_seqs (apply_task t m) = m_entry_seqs m"
  "m_entry_ids (apply_task t m) = m_entry_ids m" "m_head_ids (apply_task t m) = m_head_ids m"
  "m_submissions (apply_task t m) = m_submissions m" "m_submission_ids (apply_task t m) = m_submission_ids m"
  "m_submissions_by_status (apply_task t m) = m_submissions_by_status m"
  "m_by_request (apply_task t m) = m_by_request m" "m_documents (apply_task t m) = m_documents m"
  "m_addresses (apply_task t m) = m_addresses m" "m_by_scope (apply_task t m) = m_by_scope m"
  "m_next_seq (apply_task t m) = m_next_seq m" "m_closed (apply_task t m) = m_closed m"
  by (simp_all add: apply_task_def bump_id_def Let_def)

lemma submission_frame [simp]:
  "m_conversations (apply_submission t m) = m_conversations m" "m_conversation_ids (apply_submission t m) = m_conversation_ids m"
  "m_by_owner_conversation (apply_submission t m) = m_by_owner_conversation m"
  "m_by_owner_task (apply_submission t m) = m_by_owner_task m"
  "m_entries (apply_submission t m) = m_entries m" "m_entry_seqs (apply_submission t m) = m_entry_seqs m"
  "m_entry_ids (apply_submission t m) = m_entry_ids m" "m_head_ids (apply_submission t m) = m_head_ids m"
  "m_tasks (apply_submission t m) = m_tasks m" "m_task_ids (apply_submission t m) = m_task_ids m"
  "m_tasks_by_status (apply_submission t m) = m_tasks_by_status m" "m_documents (apply_submission t m) = m_documents m"
  "m_addresses (apply_submission t m) = m_addresses m" "m_by_scope (apply_submission t m) = m_by_scope m"
  "m_next_seq (apply_submission t m) = m_next_seq m" "m_closed (apply_submission t m) = m_closed m"
  by (simp_all add: apply_submission_def bump_id_def Let_def)

lemma types_okI:
  assumes "types_ok m" and "m_types m i \<in> {None, Some t}"
    and "m_types m' = (m_types m)(i \<mapsto> t)" and "m_next_id m' = max (m_next_id m) (i + 1)"
    and "\<And>u j. has_record m' u j \<longleftrightarrow> has_record m u j \<or> j = i \<and> u = t"
  shows "types_ok m'"
proof -
  have has: "m_types m j = Some u \<longleftrightarrow> has_record m u j" for j u
    using assms(1) unfolding types_ok_def by blast
  show ?thesis
    unfolding types_ok_def
  proof (intro conjI allI impI)
    fix j u
    show "m_types m' j = Some u \<longleftrightarrow> has_record m' u j"
      unfolding assms(3,5) has [symmetric] using assms(2) by (cases "j = i") auto
  next
    fix j assume "m_types m' j \<noteq> None"
    then have "j = i \<or> j < m_next_id m"
      using assms(1,3) unfolding types_ok_def by (metis fun_upd_apply)
    then show "j < m_next_id m'"
      unfolding assms(4) by (auto simp: less_max_iff_disj)
  qed
qed

lemma has_record_put:
  "has_record (apply_conversation c m) u j \<longleftrightarrow> has_record m u j \<or> j = c_id c \<and> u = TConversation"
  "has_record (apply_entry seq e m) u j \<longleftrightarrow> has_record m u j \<or> j = e_id e \<and> u = TEntry"
  "has_record (apply_task t m) u j \<longleftrightarrow> has_record m u j \<or> j = t_id t \<and> u = TTask"
  "has_record (apply_submission s m) u j \<longleftrightarrow> has_record m u j \<or> j = s_id s \<and> u = TSubmission"
  by (cases u; simp add: apply_fields)+

lemma types_ok_conversation: "types_ok m \<Longrightarrow> m_types m (c_id c) = None \<Longrightarrow> types_ok (apply_conversation c m)"
  by (rule types_okI [of m "c_id c" TConversation]) (simp_all add: apply_fields has_record_put)

lemma types_ok_entry: "types_ok m \<Longrightarrow> m_types m (e_id e) = None \<Longrightarrow> types_ok (apply_entry seq e m)"
  by (rule types_okI [of m "e_id e" TEntry]) (simp_all add: apply_fields has_record_put)

lemma types_ok_task: "types_ok m \<Longrightarrow> m_types m (t_id t) \<in> {None, Some TTask} \<Longrightarrow> types_ok (apply_task t m)"
  by (rule types_okI [of m "t_id t" TTask]) (simp_all add: apply_fields has_record_put)

lemma types_ok_submission:
  "types_ok m \<Longrightarrow> m_types m (s_id s) \<in> {None, Some TSubmission} \<Longrightarrow> types_ok (apply_submission s m)"
  by (rule types_okI [of m "s_id s" TSubmission]) (simp_all add: apply_fields has_record_put)

section \<open>Writes\<close>

text \<open>A write of a prepared commit writes an ID no other table has, and a new one where records are written once.\<close>

fun fits :: "'p memory \<Rightarrow> 'p store_write \<Rightarrow> bool" where
  "fits m (WConversation c) = (m_types m (c_id c) = None)"
| "fits m (WEntry e) = (m_types m (e_id e) = None)"
| "fits m (WTask t) = (m_types m (t_id t) \<in> {None, Some TTask})"
| "fits m (WSubmission s) = (m_types m (s_id s) \<in> {None, Some TSubmission})"
| "fits m (WCopy _ _ _) = False"
| "fits m _ = True"

lemma absent: "types_ok m \<Longrightarrow> m_types m i = None \<Longrightarrow> \<not> has_record m t i"
  by (metis option.distinct(1) types_ok_def)

lemma records_ok_write:
  assumes ok: "records_ok n m" and "fits m w" and "seq < n"
  shows "\<exists>m'. apply_write seq m w = Inr m' \<and> records_ok n m'"
proof -
  have t: "types_ok m"
    using ok by (simp add: records_ok_def)
  show ?thesis
  proof (cases w)
    case (WConversation c)
    then show ?thesis
      using ok assms(2) absent [OF t, of "c_id c" TConversation] conversations_ok_put [of m c] types_ok_conversation [OF t, of c]
      by (simp add: records_ok_def tables_ok_defs(2-5))
  next
    case (WEntry e)
    then show ?thesis
      using ok assms(2,3) absent [OF t, of "e_id e" TEntry] entries_ok_put [of n m e seq] types_ok_entry [OF t, of e seq]
      by (simp add: records_ok_def tables_ok_defs(1,3-5))
  next
    case (WTask u)
    then show ?thesis
      using ok assms(2) tasks_ok_put [of m u] types_ok_task [OF t, of u]
      by (simp add: records_ok_def tables_ok_defs(1,2,4,5))
  next
    case (WSubmission s)
    then show ?thesis
      using ok assms(2) submissions_ok_put [of m s] requests_ok_put [of m s] types_ok_submission [OF t, of s]
      by (simp add: records_ok_def tables_ok_defs(1-3))
  qed (use assms in auto)
qed

end
