(* ===== verification/MemoryDocuments.thy ===== *)
theory MemoryDocuments
  imports MemoryRecords
begin

text \<open>
  The documents of \<open>MemoryStorage\<close>: the indexes by address and scope, the revisions a stored document keeps,
  the one current document of an address, and what the actions of a prepared commit do to them.
\<close>

section \<open>The invariant\<close>

definition address_ids :: "'p memory \<Rightarrow> jsstr \<Rightarrow> id list" where
  "address_ids m k = (case m_addresses m k of None \<Rightarrow> [] | Some x \<Rightarrow> ai_ids x)"

fun content_version :: "content \<Rightarrow> nat" where
  "content_version (Base v _) = v"
| "content_version (Delta v _) = v"

text \<open>Revisions from a version on: a delta continues the version before it.\<close>

fun chained :: "nat option \<Rightarrow> revision list \<Rightarrow> bool" where
  "chained v [] = True"
| "chained v ((Base w _, _) # rs) = chained (Some w) rs"
| "chained v ((Delta w _, _) # rs) = (v = Some w \<and> chained v rs)"

definition revisions_ok :: "seq \<Rightarrow> stored_document \<Rightarrow> bool" where
  "revisions_ok n d \<longleftrightarrow>
     chained None (sd_revisions d) \<and> sorted_wrt (<) (map snd (sd_revisions d)) \<and>
     (\<forall>r \<in> set (sd_revisions d). d_created (sd_record d) \<le> snd r \<and> snd r < n) \<and>
     d_created (sd_record d) < n \<and>
     (case d_retired (sd_record d) of None \<Rightarrow> sd_revisions d \<noteq> []
      | Some s \<Rightarrow> d_created (sd_record d) \<le> s \<and> s < n \<and> (current_only (sd_record d) \<longrightarrow> sd_revisions d = [])) \<and>
     (\<not> current_only (sd_record d) \<longrightarrow> sd_revisions d \<noteq> [] \<and> snd (hd (sd_revisions d)) = d_created (sd_record d))"

definition documents_listed :: "'p memory \<Rightarrow> bool" where
  "documents_listed m \<longleftrightarrow>
     (\<forall>k. lists (address_ids m k) (\<lambda>i. \<exists>d. m_documents m i = Some d \<and> Some (record_address_key (sd_record d)) = Some k)) \<and>
     (\<forall>k. lists (ids_at (m_by_scope m) k) (\<lambda>i. \<exists>d. m_documents m i = Some d \<and> Some (scope_key (d_scope (sd_record d))) = Some k))"

definition documents_kept :: "seq \<Rightarrow> 'p memory \<Rightarrow> bool" where
  "documents_kept n m \<longleftrightarrow> (\<forall>i d. m_documents m i = Some d \<longrightarrow> d_id (sd_record d) = i \<and> revisions_ok n d)"

definition live_at :: "'p memory \<Rightarrow> jsstr \<Rightarrow> id \<Rightarrow> bool" where
  "live_at m k i \<longleftrightarrow> (\<exists>d. m_documents m i = Some d \<and> record_address_key (sd_record d) = k \<and> d_retired (sd_record d) = None)"

definition current_ok :: "'p memory \<Rightarrow> bool" where
  "current_ok m \<longleftrightarrow> (\<forall>k i. current_id m k = Some i \<longleftrightarrow> live_at m k i)"

definition documents_ok :: "seq \<Rightarrow> 'p memory \<Rightarrow> bool" where
  "documents_ok n m \<longleftrightarrow> documents_listed m \<and> documents_kept n m \<and> current_ok m"

section \<open>One document\<close>

lemma chained_snoc:
  "chained v (rs @ [(c, s)]) \<longleftrightarrow>
     chained v rs \<and> (case c of Base _ _ \<Rightarrow> True
       | Delta w _ \<Rightarrow> (if rs = [] then v = Some w else content_version (fst (last rs)) = w))"
  by (induction v rs rule: chained.induct) (auto split: content.splits)

text \<open>An action as the checks leave it.\<close>

definition action_fits :: "id \<Rightarrow> document_action \<Rightarrow> stored_document option \<Rightarrow> bool" where
  "action_fits i a existing \<longleftrightarrow>
     (case a_create a of
        Some r \<Rightarrow> existing = None \<and> d_id r = i \<and> (\<exists>v x. a_content a = Some (Base v x))
      | None \<Rightarrow> (\<exists>d. existing = Some d \<and> d_retired (sd_record d) = None \<and>
          (\<forall>v ops. a_content a = Some (Delta v ops) \<longrightarrow> content_version (fst (last (sd_revisions d))) = v)))"

definition stored_after :: "seq \<Rightarrow> document_action \<Rightarrow> stored_document option \<Rightarrow> stored_document" where
  "stored_after seq a existing =
     (case with_content seq a existing of Inl _ \<Rightarrow> the existing | Inr d \<Rightarrow> retire_document seq a d)"

lemma with_content_fits:
  "action_fits i a existing \<Longrightarrow> with_content seq a existing \<noteq> Inl e"
  by (auto simp: action_fits_def with_content_def split: option.splits)

lemma record_after:
  assumes "action_fits i a existing"
  shows "sd_record (stored_after seq a existing) =
    (case a_create a of Some r \<Rightarrow> stamped seq (a_retire a) r
     | None \<Rightarrow> (if a_retire a then (sd_record (the existing))\<lparr>d_retired := Some seq\<rparr> else sd_record (the existing)))"
  using assms
  by (auto simp: action_fits_def stored_after_def with_content_def retire_document_def add_revision_def Let_def
      split: option.splits content.splits)

lemma address_after:
  assumes "action_fits i a existing"
  shows "record_address_key (sd_record (stored_after seq a existing)) =
      (case a_create a of Some r \<Rightarrow> record_address_key r | None \<Rightarrow> record_address_key (sd_record (the existing)))"
    and "d_scope (sd_record (stored_after seq a existing)) =
      (case a_create a of Some r \<Rightarrow> d_scope r | None \<Rightarrow> d_scope (sd_record (the existing)))"
    and "d_id (sd_record (stored_after seq a existing)) = (case a_create a of Some r \<Rightarrow> d_id r | None \<Rightarrow> d_id (sd_record (the existing)))"
    and "d_retired (sd_record (stored_after seq a existing)) = None \<longleftrightarrow> \<not> a_retire a"
  using record_after [OF assms, of seq] assms
  by (auto simp: record_address_key_def stamped_def action_fits_def split: option.splits)

lemma revisions_ok_later: "revisions_ok n d \<Longrightarrow> n \<le> n' \<Longrightarrow> revisions_ok n' d"
  by (fastforce simp: revisions_ok_def split: option.splits)

lemma current_only_retired [simp]: "current_only (r\<lparr>d_retired := x\<rparr>) = current_only r"
  by (simp add: current_only_def)

lemma revisions_ok_add:
  assumes "revisions_ok seq d" "d_retired (sd_record d) = None"
    and "\<forall>v ops. c = Delta v ops \<longrightarrow> content_version (fst (last (sd_revisions d))) = v"
  shows "revisions_ok (seq + 1) (add_revision (c, seq) d)"
proof -
  have "sd_revisions d \<noteq> []" "d_created (sd_record d) < seq"
    using assms(1,2) by (auto simp: revisions_ok_def)
  moreover have "\<forall>r \<in> set (sd_revisions d). snd r < seq + 1"
    using assms(1) by (fastforce simp: revisions_ok_def)
  ultimately show ?thesis
    using assms
    by (cases c) (auto simp: revisions_ok_def add_revision_def chained_snoc sorted_wrt_append)
qed

lemma revisions_ok_retire:
  assumes "revisions_ok (seq + 1) d" "d_retired (sd_record d) = None"
  shows "revisions_ok (seq + 1) \<lparr>sd_record = (sd_record d)\<lparr>d_retired := Some seq\<rparr>,
    sd_revisions = (if current_only (sd_record d) then [] else sd_revisions d)\<rparr>"
  using assms by (auto simp: revisions_ok_def)

lemma revisions_ok_after:
  assumes fits: "action_fits i a existing" and old: "\<And>d. existing = Some d \<Longrightarrow> revisions_ok seq d"
  shows "revisions_ok (seq + 1) (stored_after seq a existing)"
proof (cases "a_create a")
  case (Some r)
  then obtain v x where "a_content a = Some (Base v x)"
    using fits by (auto simp: action_fits_def)
  then have "stored_after seq a existing = \<lparr>sd_record = stamped seq (a_retire a) r,
      sd_revisions = (if a_retire a \<and> current_only (stamped seq (a_retire a) r) then [] else [(Base v x, seq)])\<rparr>"
    using Some by (simp add: stored_after_def with_content_def retire_document_def Let_def)
  moreover have "d_created (stamped seq (a_retire a) r) = seq" "d_retired (stamped seq (a_retire a) r) = (if a_retire a then Some seq else None)"
    by (simp_all add: stamped_def)
  ultimately show ?thesis
    by (auto simp: revisions_ok_def)
next
  case None
  then obtain d where d: "existing = Some d" "d_retired (sd_record d) = None"
    and delta: "\<forall>v ops. a_content a = Some (Delta v ops) \<longrightarrow> content_version (fst (last (sd_revisions d))) = v"
    using fits by (auto simp: action_fits_def)
  define d' where "d' = (case a_content a of None \<Rightarrow> d | Some c \<Rightarrow> add_revision (c, seq) d)"
  have ok: "revisions_ok (seq + 1) d'"
    using old [OF d(1)] revisions_ok_add [OF old [OF d(1)] d(2)] delta
    by (auto simp: d'_def intro: revisions_ok_later split: option.splits)
  have live: "d_retired (sd_record d') = None"
    using d(2) by (auto simp: d'_def add_revision_def split: option.splits content.splits)
  have "stored_after seq a existing = retire_document seq a d'"
    using None d(1) by (simp add: stored_after_def with_content_def d'_def)
  then show ?thesis
    using ok revisions_ok_retire [OF ok live] None by (simp add: retire_document_def Let_def)
qed

section \<open>One action\<close>

text \<open>The current document of an address, moved by one action on it.\<close>

definition pointer :: "id option \<Rightarrow> id \<times> document_action \<Rightarrow> id option" where
  "pointer cur ia =
     (let cur = (if a_retire (snd ia) \<and> cur = Some (fst ia) then None else cur)
      in if a_create (snd ia) \<noteq> None \<and> \<not> a_retire (snd ia) then Some (fst ia) else cur)"

definition forget_documents :: "'p memory \<Rightarrow> 'p memory" where
  "forget_documents m = m\<lparr>m_types := Map.empty, m_documents := Map.empty, m_addresses := Map.empty, m_by_scope := Map.empty, m_next_id := 0\<rparr>"

definition only_documents :: "'p memory \<Rightarrow> 'p memory \<Rightarrow> bool" where
  "only_documents m m' \<longleftrightarrow> forget_documents m' = forget_documents m"

lemma forget_documents_same:
  "conversations_ok (forget_documents m) = conversations_ok m" "entries_ok n (forget_documents m) = entries_ok n m"
  "tasks_ok (forget_documents m) = tasks_ok m" "submissions_ok (forget_documents m) = submissions_ok m"
  "requests_ok (forget_documents m) = requests_ok m"
  "m_conversations (forget_documents m) = m_conversations m" "m_entries (forget_documents m) = m_entries m"
  "m_tasks (forget_documents m) = m_tasks m" "m_submissions (forget_documents m) = m_submissions m"
  "m_next_seq (forget_documents m) = m_next_seq m" "m_closed (forget_documents m) = m_closed m"
  unfolding tables_ok_defs(1-5) forget_documents_def by simp_all

lemma only_documents_same:
  assumes "only_documents m m'"
  shows "conversations_ok m' = conversations_ok m" "entries_ok n m' = entries_ok n m" "tasks_ok m' = tasks_ok m"
    "submissions_ok m' = submissions_ok m" "requests_ok m' = requests_ok m"
    "m_conversations m' = m_conversations m" "m_entries m' = m_entries m" "m_tasks m' = m_tasks m"
    "m_submissions m' = m_submissions m" "m_next_seq m' = m_next_seq m" "m_closed m' = m_closed m"
  using assms unfolding only_documents_def by (metis forget_documents_same)+

lemma only_documents_refl: "only_documents m m"
  by (simp add: only_documents_def)

lemma only_documents_trans: "only_documents m m' \<Longrightarrow> only_documents m' m'' \<Longrightarrow> only_documents m m''"
  by (simp add: only_documents_def)

lemma current_id_upd:
  "current_id (m\<lparr>m_addresses := (m_addresses m)(k \<mapsto> x)\<rparr>) = (current_id m)(k := ai_current x)"
  "address_ids (m\<lparr>m_addresses := (m_addresses m)(k \<mapsto> x)\<rparr>) = (address_ids m)(k := ai_ids x)"
  by (auto simp: current_id_def address_ids_def)

lemma move_current_fields [simp]:
  "ai_current (move_current i a x) = pointer (ai_current x) (i, a)"
  "ai_ids (move_current i a x) = ai_ids x"
  by (auto simp: move_current_def pointer_def Let_def)

lemma apply_action_spec:
  assumes fits: "action_fits i a (m_documents m i)" and d: "d = stored_after seq a (m_documents m i)"
    and k: "k = record_address_key (sd_record d)" and there: "a_create a = None \<Longrightarrow> m_addresses m k \<noteq> None"
  shows "\<exists>m'. apply_action seq m (i, a) = Inr m' \<and> only_documents m m' \<and> m_documents m' = (m_documents m)(i \<mapsto> d) \<and>
    address_ids m' = (if a_create a = None then address_ids m else (address_ids m)(k := insert_sorted i (address_ids m k))) \<and>
    current_id m' = (current_id m)(k := pointer (current_id m k) (i, a)) \<and>
    ids_at (m_by_scope m') = (if a_create a = None then ids_at (m_by_scope m)
      else (ids_at (m_by_scope m))(scope_key (d_scope (sd_record d)) := insert_sorted i (ids_at (m_by_scope m) (scope_key (d_scope (sd_record d)))))) \<and>
    m_types m' = (if a_create a = None then m_types m else (m_types m)(i \<mapsto> TDocument)) \<and>
    m_next_id m' = (if a_create a = None then m_next_id m else max (m_next_id m) (i + 1))"
proof -
  obtain st where st: "with_content seq a (m_documents m i) = Inr st" "retire_document seq a st = d"
    using with_content_fits [OF fits, of seq] d by (cases "with_content seq a (m_documents m i)") (auto simp: stored_after_def)
  define m1 where "m1 = (if a_create a = None then m else register_document i (sd_record d) m)"
  define m2 where "m2 = m1\<lparr>m_documents := (m_documents m1)(i \<mapsto> d)\<rparr>"
  have go: "apply_action seq m (i, a) =
      (if a_create a = None \<and> \<not> a_retire a then Inr m2
       else (case m_addresses m2 k of None \<Rightarrow> Inl NoSuchRecord
             | Some x \<Rightarrow> Inr (m2\<lparr>m_addresses := (m_addresses m2)(k \<mapsto> move_current i a x)\<rparr>)))"
    unfolding apply_action_def Let_def fst_conv snd_conv st(1) rbind_simps st(2) k m2_def m1_def by simp
  have m2: "m_documents m2 = (m_documents m)(i \<mapsto> d)" "only_documents m m2"
    "m_types m2 = (if a_create a = None then m_types m else (m_types m)(i \<mapsto> TDocument))"
    "m_next_id m2 = (if a_create a = None then m_next_id m else max (m_next_id m) (i + 1))"
    "address_ids m2 = (if a_create a = None then address_ids m else (address_ids m)(k := insert_sorted i (address_ids m k)))"
    "current_id m2 = current_id m" "m_addresses m2 k \<noteq> None"
    "ids_at (m_by_scope m2) = (if a_create a = None then ids_at (m_by_scope m)
      else (ids_at (m_by_scope m))(scope_key (d_scope (sd_record d)) := insert_sorted i (ids_at (m_by_scope m) (scope_key (d_scope (sd_record d))))))"
    using there
    by (simp_all add: m2_def m1_def register_document_def bump_id_def k only_documents_def forget_documents_def ids_at_insert)
      (auto simp: address_ids_def current_id_def fun_eq_iff split: option.splits)
  show ?thesis
  proof (cases "a_create a = None \<and> \<not> a_retire a")
    case True
    then show ?thesis
      using go m2 by (simp add: pointer_def)
  next
    case False
    then obtain x where x: "m_addresses m2 k = Some x"
      using m2(7) by blast
    then have cur: "ai_current x = current_id m k" "ai_ids x = address_ids m2 k"
      using m2(6) by (auto simp: current_id_def address_ids_def fun_eq_iff dest: spec [of _ k])
    have "only_documents m (m2\<lparr>m_addresses := (m_addresses m2)(k \<mapsto> move_current i a x)\<rparr>)"
      using m2(2) by (simp add: only_documents_def forget_documents_def)
    then show ?thesis
      unfolding go if_not_P [OF False] using x m2 cur by (simp add: current_id_upd)
  qed
qed

text \<open>An index of documents by a property of their records that no action changes.\<close>

lemma listed_after:
  assumes at: "\<forall>k. lists (at k) (\<lambda>j. \<exists>d. docs j = Some d \<and> Some (f (sd_record d)) = Some k)"
    and "create \<noteq> None \<Longrightarrow> docs i = None"
    and "create = None \<Longrightarrow> \<exists>d'. docs i = Some d' \<and> f (sd_record d') = f (sd_record d)"
  shows "\<forall>k. lists ((if create = None then at else at(f (sd_record d) := insert_sorted i (at (f (sd_record d))))) k)
    (\<lambda>j. \<exists>d'. (docs(i \<mapsto> d)) j = Some d' \<and> Some (f (sd_record d')) = Some k)"
proof (cases "create = None")
  case False
  then show ?thesis
    unfolding if_not_P [OF False] using id_lists.group_new [OF at assms(2) [OF False], of d] by simp
next
  case True
  then obtain d' where "docs i = Some d'" "f (sd_record d') = f (sd_record d)"
    using assms(3) by blast
  then have "(\<lambda>j. \<exists>d'. (docs(i \<mapsto> d)) j = Some d' \<and> Some (f (sd_record d')) = Some k)
      = (\<lambda>j. \<exists>d. docs j = Some d \<and> Some (f (sd_record d)) = Some k)" for k
    by (auto simp: fun_eq_iff)
  then show ?thesis
    using at True by simp
qed

lemma action_key_after:
  assumes "action_fits i a (m_documents m i)"
  shows "record_address_key (sd_record (stored_after seq a (m_documents m i))) = action_key m (i, a)"
  using address_after(1) [OF assms, of seq] assms by (auto simp: action_key_def action_fits_def split: option.splits)

lemma apply_action_step:
  assumes ok: "records_ok (seq + 1) m" "documents_listed m" "documents_kept (seq + 1) m"
    and old: "\<And>d. m_documents m i = Some d \<Longrightarrow> revisions_ok seq d"
    and fits: "action_fits i a (m_documents m i)" and new: "a_create a \<noteq> None \<Longrightarrow> m_types m i = None"
  shows "\<exists>m'. apply_action seq m (i, a) = Inr m' \<and> records_ok (seq + 1) m' \<and> documents_listed m' \<and>
    documents_kept (seq + 1) m' \<and> only_documents m m' \<and>
    m_documents m' = (m_documents m)(i \<mapsto> stored_after seq a (m_documents m i)) \<and>
    m_types m' = (if a_create a = None then m_types m else (m_types m)(i \<mapsto> TDocument)) \<and>
    current_id m' = (current_id m)(action_key m (i, a) := pointer (current_id m (action_key m (i, a))) (i, a))"
proof -
  define d where "d = stored_after seq a (m_documents m i)"
  define k where "k = record_address_key (sd_record d)"
  note key = action_key_after [OF fits, of seq, folded d_def]
  note after = address_after [OF fits, of seq, folded d_def]
  have absent: "m_documents m i = None" if "a_create a \<noteq> None"
    using fits that by (auto simp: action_fits_def)
  have present: "\<exists>d'. m_documents m i = Some d' \<and> record_address_key (sd_record d') = record_address_key (sd_record d) \<and>
      d_scope (sd_record d') = d_scope (sd_record d)" if "\<not> a_create a \<noteq> None"
    using fits that after by (auto simp: action_fits_def)
  have there: "m_addresses m k \<noteq> None" if "a_create a = None"
  proof -
    have "i \<in> set (address_ids m k)"
      using present that ok(2) by (auto simp: documents_listed_def lists_def k_def)
    then show ?thesis
      by (cases "m_addresses m k") (auto simp: address_ids_def)
  qed
  from apply_action_spec [OF fits d_def k_def there] obtain m' where m': "apply_action seq m (i, a) = Inr m'"
    "only_documents m m'" "m_documents m' = (m_documents m)(i \<mapsto> d)"
    "address_ids m' = (if a_create a = None then address_ids m else (address_ids m)(k := insert_sorted i (address_ids m k)))"
    "current_id m' = (current_id m)(k := pointer (current_id m k) (i, a))"
    "ids_at (m_by_scope m') = (if a_create a = None then ids_at (m_by_scope m)
      else (ids_at (m_by_scope m))(scope_key (d_scope (sd_record d)) := insert_sorted i (ids_at (m_by_scope m) (scope_key (d_scope (sd_record d))))))"
    "m_types m' = (if a_create a = None then m_types m else (m_types m)(i \<mapsto> TDocument))"
    "m_next_id m' = (if a_create a = None then m_next_id m else max (m_next_id m) (i + 1))"
    by blast
  have "documents_listed m'"
    unfolding documents_listed_def m'(3,4,6) k_def
  proof
    show "\<forall>k. lists ((if a_create a = None then address_ids m else (address_ids m)(record_address_key (sd_record d) :=
          insert_sorted i (address_ids m (record_address_key (sd_record d))))) k)
        (\<lambda>j. \<exists>d'. ((m_documents m)(i \<mapsto> d)) j = Some d' \<and> Some (record_address_key (sd_record d')) = Some k)"
      by (rule listed_after) (use ok(2) absent present in \<open>auto simp: documents_listed_def\<close>)
    show "\<forall>k. lists ((if a_create a = None then ids_at (m_by_scope m) else (ids_at (m_by_scope m))(scope_key (d_scope (sd_record d)) :=
          insert_sorted i (ids_at (m_by_scope m) (scope_key (d_scope (sd_record d)))))) k)
        (\<lambda>j. \<exists>d'. ((m_documents m)(i \<mapsto> d)) j = Some d' \<and> Some (scope_key (d_scope (sd_record d'))) = Some k)"
      by (rule listed_after [where f = "\<lambda>r. scope_key (d_scope r)"])
        (use ok(2) absent present in \<open>auto simp: documents_listed_def\<close>)
  qed
  moreover have "documents_kept (seq + 1) m'"
  proof -
    have "d_id (sd_record d) = i"
      using after(3) fits ok(3) by (auto simp: action_fits_def documents_kept_def split: option.splits)
    then show ?thesis
      using revisions_ok_after [OF fits old] ok(3) unfolding documents_kept_def m'(3) d_def by auto
  qed
  moreover have "records_ok (seq + 1) m'"
  proof -
    have t: "types_ok m"
      using ok(1) by (simp add: records_ok_def)
    have has: "has_record m' u j \<longleftrightarrow> has_record m u j \<or> j = i \<and> u = TDocument" for u j
      using only_documents_same [OF m'(2)] m'(3) by (cases u) auto
    have "types_ok m'"
    proof (cases "a_create a = None")
      case True
      then have "has_record m TDocument i"
        using present by auto
      then show ?thesis
        using t True has m'(7,8) unfolding types_ok_def by auto
    next
      case False
      show ?thesis
        by (rule types_okI [OF t _ _ _ has]) (use new [OF False] m'(7,8) False in auto)
    qed
    then show ?thesis
      using ok(1) only_documents_same [OF m'(2)] by (simp add: records_ok_def)
  qed
  ultimately show ?thesis
    using m' key by (simp add: d_def k_def)
qed

section \<open>All actions of a commit\<close>

definition actions_fit :: "'p memory \<Rightarrow> (id \<times> document_action) list \<Rightarrow> bool" where
  "actions_fit m actions \<longleftrightarrow>
     distinct (map fst actions) \<and>
     (\<forall>(i, a) \<in> set actions. action_fits i a (m_documents m i) \<and> (a_create a \<noteq> None \<longrightarrow> m_types m i = None))"

lemma action_key_cong: "m_documents m' i = m_documents m i \<Longrightarrow> action_key m' (i, a) = action_key m (i, a)"
  by (simp add: action_key_def split: option.split)

lemma apply_actions:
  assumes "records_ok (seq + 1) m" "documents_listed m" "documents_kept (seq + 1) m" "actions_fit m actions"
    and "\<And>i d. i \<in> fst ` set actions \<Longrightarrow> m_documents m i = Some d \<Longrightarrow> revisions_ok seq d"
  shows "\<exists>m'. rfold (apply_action seq) m actions = Inr m' \<and> records_ok (seq + 1) m' \<and> documents_listed m' \<and>
    documents_kept (seq + 1) m' \<and> only_documents m m' \<and>
    (\<forall>i. m_documents m' i = (case map_of actions i of None \<Rightarrow> m_documents m i
       | Some a \<Rightarrow> Some (stored_after seq a (m_documents m i)))) \<and>
    (\<forall>k. current_id m' k = fold (\<lambda>ia cur. pointer cur ia) (filter (\<lambda>ia. action_key m ia = k) actions) (current_id m k))"
  using assms
proof (induction actions arbitrary: m)
  case Nil
  then show ?case
    by (simp add: only_documents_refl)
next
  case (Cons ia actions)
  obtain i a where ia: "ia = (i, a)"
    by (cases ia)
  have fits: "action_fits i a (m_documents m i)" "a_create a \<noteq> None \<Longrightarrow> m_types m i = None" "i \<notin> fst ` set actions"
    and rest: "actions_fit m actions"
    using Cons.prems(4) by (auto simp: ia actions_fit_def)
  have "m_documents m i = Some d \<Longrightarrow> revisions_ok seq d" for d
    using Cons.prems(5) [of i d] by (simp add: ia)
  from apply_action_step [OF Cons.prems(1-3) this fits(1,2)] obtain m1
    where m1: "apply_action seq m (i, a) = Inr m1" "records_ok (seq + 1) m1" "documents_listed m1"
      "documents_kept (seq + 1) m1" "only_documents m m1"
      "m_documents m1 = (m_documents m)(i \<mapsto> stored_after seq a (m_documents m i))"
      "m_types m1 = (if a_create a = None then m_types m else (m_types m)(i \<mapsto> TDocument))"
      "current_id m1 = (current_id m)(action_key m (i, a) := pointer (current_id m (action_key m (i, a))) (i, a))"
    by (auto simp: ia)
  have other: "j \<in> fst ` set actions \<Longrightarrow> m_documents m1 j = m_documents m j \<and> m_types m1 j = m_types m j" for j
    using fits(3) m1(6,7) by auto
  have "actions_fit m1 actions"
    unfolding actions_fit_def
  proof
    show "distinct (map fst actions)"
      using rest by (simp add: actions_fit_def)
    show "\<forall>(j, b) \<in> set actions. action_fits j b (m_documents m1 j) \<and> (a_create b \<noteq> None \<longrightarrow> m_types m1 j = None)"
    proof clarify
      fix j b assume j: "(j, b) \<in> set actions"
      then have "m_documents m1 j = m_documents m j" "m_types m1 j = m_types m j"
        using other [of j] by force+
      then show "action_fits j b (m_documents m1 j) \<and> (a_create b \<noteq> None \<longrightarrow> m_types m1 j = None)"
        using rest j unfolding actions_fit_def by auto
    qed
  qed
  moreover have "j \<in> fst ` set actions \<Longrightarrow> m_documents m1 j = Some d \<Longrightarrow> revisions_ok seq d" for j d
    using Cons.prems(5) [of j d] other [of j] by auto
  ultimately obtain m' where m': "rfold (apply_action seq) m1 actions = Inr m'" "records_ok (seq + 1) m'"
      "documents_listed m'" "documents_kept (seq + 1) m'" "only_documents m1 m'"
      "\<forall>i. m_documents m' i = (case map_of actions i of None \<Rightarrow> m_documents m1 i
         | Some a \<Rightarrow> Some (stored_after seq a (m_documents m1 i)))"
      "\<forall>k. current_id m' k = fold (\<lambda>ia cur. pointer cur ia) (filter (\<lambda>ia. action_key m1 ia = k) actions) (current_id m1 k)"
    using Cons.IH [OF m1(2-4)] by blast
  have keys: "filter (\<lambda>ia. action_key m1 ia = k) actions = filter (\<lambda>ia. action_key m ia = k) actions" for k
  proof (rule filter_cong [OF refl])
    fix jb assume "jb \<in> set actions"
    then show "(action_key m1 jb = k) = (action_key m jb = k)"
      using other [of "fst jb"] action_key_cong [of m1 "fst jb" m "snd jb"] by force
  qed
  have none: "map_of actions i = None"
    using fits(3) by (simp add: map_of_eq_None_iff)
  show ?case
  proof (intro exI [of _ m'] conjI allI)
    show "rfold (apply_action seq) m (ia # actions) = Inr m'"
      using m1(1) m'(1) by (simp add: ia)
    show "only_documents m m'"
      using m1(5) m'(5) by (rule only_documents_trans)
    fix j
    show "m_documents m' j = (case map_of (ia # actions) j of None \<Rightarrow> m_documents m j
       | Some a \<Rightarrow> Some (stored_after seq a (m_documents m j)))"
      using m'(6) none m1(6) by (auto simp: ia split: option.splits)
    fix k
    show "current_id m' k = fold (\<lambda>ia cur. pointer cur ia) (filter (\<lambda>ia. action_key m ia = k) (ia # actions)) (current_id m k)"
      using m'(7) m1(8) keys by (simp add: ia)
  qed (use m' in auto)
qed

end
