(* ===== verification/MemoryInvariant.thy ===== *)
theory MemoryInvariant
  imports MemoryDocuments
begin

text \<open>
  Commits as a whole: what the checks of \<open>prepareCommit\<close> establish, that nothing of the application of a
  prepared commit can fail, and the invariant of every state of a \<open>MemoryStorage\<close>.
\<close>

section \<open>Resolved writes\<close>

lemma rmap_elem: "rmap f xs = Inr ys \<Longrightarrow> y \<in> set ys \<Longrightarrow> \<exists>x \<in> set xs. f x = Inr y"
  by (induction xs arbitrary: ys) (auto elim!: rbindE)

lemma resolve_write_no_copy: "resolve_write changed m w = Inr w' \<Longrightarrow> \<not> is_copy_write w'"
  by (cases w) (auto simp: resolve_copy_def elim!: rbindE split: sum.splits option.splits if_splits)

lemma resolved_no_copies:
  assumes "resolve_document_copies m ws = Inr ws'"
  shows "\<forall>w \<in> set ws'. \<not> is_copy_write w"
proof (cases "list_ex is_copy_write ws")
  case True
  then show ?thesis
    using assms by (auto simp: resolve_document_copies_def dest!: rmap_elem resolve_write_no_copy)
next
  case False
  then show ?thesis
    using assms by (auto simp: resolve_document_copies_def list_ex_iff)
qed

section \<open>Claimed IDs\<close>

lemma claim_id_Inr:
  assumes "claim_id m claimed w = Inr claimed'"
  shows "case write_table w of None \<Rightarrow> claimed' = claimed
    | Some (t, i) \<Rightarrow> claimed' = claimed(i \<mapsto> t) \<and> m_types m i \<in> {None, Some t} \<and> claimed i \<in> {None, Some t} \<and>
        (written_once t \<longrightarrow> m_types m i = None \<and> claimed i = None)"
  using assms by (auto simp: claim_id_def split: option.splits if_splits)

lemma claimed_kept:
  "rfold (claim_id m) claimed ws = Inr claimed' \<Longrightarrow> claimed i = Some t \<Longrightarrow> claimed' i = Some t"
proof (induction ws arbitrary: claimed)
  case (Cons w ws)
  then obtain c where c: "claim_id m claimed w = Inr c" "rfold (claim_id m) c ws = Inr claimed'"
    by (auto elim!: rbindE)
  have "c i = Some t"
    using claim_id_Inr [OF c(1)] Cons.prems(2) by (auto split: option.splits prod.splits if_splits)
  then show ?case
    using Cons.IH [OF c(2)] by blast
qed simp

text \<open>Where the writes so far left the type of an ID: documents are registered after all other writes.\<close>

definition types_after :: "'p memory \<Rightarrow> (id \<rightharpoonup> table) \<Rightarrow> 'p memory \<Rightarrow> bool" where
  "types_after m claimed m' \<longleftrightarrow>
     (\<forall>i. m_types m' i = (if claimed i = None \<or> claimed i = Some TDocument then m_types m i else claimed i) \<and>
          (claimed i = Some TDocument \<longrightarrow> m_types m i = None))"

definition same_documents :: "'p memory \<Rightarrow> 'p memory \<Rightarrow> bool" where
  "same_documents m m' \<longleftrightarrow> m_documents m' = m_documents m \<and> m_addresses m' = m_addresses m \<and> m_by_scope m' = m_by_scope m \<and>
     m_next_seq m' = m_next_seq m \<and> m_closed m' = m_closed m"

lemma write_fits:
  assumes "claim_id m claimed w = Inr claimed'" "types_after m claimed m'" "\<not> is_copy_write w"
  shows "fits m' w"
  using claim_id_Inr [OF assms(1)] assms(2,3) by (cases w) (auto simp: types_after_def written_once_def)

lemma write_types:
  assumes "claim_id m claimed w = Inr claimed'" "types_after m claimed m'" "\<not> is_copy_write w" "apply_write seq m' w = Inr m''"
  shows "types_after m claimed' m'' \<and> same_documents m' m''"
  using claim_id_Inr [OF assms(1)] assms(2-4)
  by (cases w) (auto simp: types_after_def same_documents_def apply_fields written_once_def)

lemma apply_writes:
  assumes "rfold (claim_id m) claimed ws = Inr claimed'" "\<forall>w \<in> set ws. \<not> is_copy_write w"
    and "types_after m claimed m'" "records_ok n m'" "seq < n"
  shows "\<exists>m''. rfold (apply_write seq) m' ws = Inr m'' \<and> records_ok n m'' \<and> types_after m claimed' m'' \<and> same_documents m' m''"
  using assms
proof (induction ws arbitrary: claimed m')
  case Nil
  then show ?case
    by (auto simp: same_documents_def)
next
  case (Cons w ws)
  then obtain c where c: "claim_id m claimed w = Inr c" "rfold (claim_id m) c ws = Inr claimed'"
    by (auto elim!: rbindE)
  have "fits m' w"
    using write_fits [OF c(1)] Cons.prems by simp
  then obtain m1 where m1: "apply_write seq m' w = Inr m1" "records_ok n m1"
    using records_ok_write Cons.prems(4,5) by blast
  moreover have t: "types_after m c m1" "same_documents m' m1"
    using write_types [OF c(1) Cons.prems(3) _ m1(1)] Cons.prems(2) by simp_all
  ultimately obtain m2 where "rfold (apply_write seq) m1 ws = Inr m2" "records_ok n m2" "types_after m claimed' m2" "same_documents m1 m2"
    using Cons.IH [OF c(2)] Cons.prems(2,5) by auto
  then show ?case
    using m1(1) t(2) by (auto simp: same_documents_def)
qed

section \<open>Prepared actions\<close>

text \<open>An action that creates has the record of a creating write, with a base.\<close>

definition actions_of :: "id set \<Rightarrow> (id \<times> document_action) list \<Rightarrow> bool" where
  "actions_of created actions \<longleftrightarrow>
     distinct (map fst actions) \<and>
     (\<forall>(i, a) \<in> set actions. case a_create a of None \<Rightarrow> True
        | Some r \<Rightarrow> d_id r = i \<and> i \<in> created \<and> (\<exists>v x. a_content a = Some (Base v x)))"

lemma action_of_mem: "action_of i actions \<noteq> no_action \<Longrightarrow> (i, action_of i actions) \<in> set actions"
  by (auto simp: action_of_def dest: map_of_SomeD split: option.splits)

lemma actions_of_put:
  assumes "actions_of created actions"
    and "case a_create a of None \<Rightarrow> True | Some r \<Rightarrow> d_id r = i \<and> i \<in> created \<and> (\<exists>v x. a_content a = Some (Base v x))"
  shows "actions_of created (al_put i a actions)"
  using assms set_al_put [of i a actions] unfolding actions_of_def by (auto simp: distinct_al_put)

lemma action_create:
  assumes "actions_of created actions" "a_create (action_of i actions) = Some r"
  shows "d_id r = i" "i \<in> created" "\<exists>v x. a_content (action_of i actions) = Some (Base v x)"
proof -
  have "action_of i actions \<noteq> no_action"
    using assms(2) by (auto simp: no_action_def)
  then have "(i, action_of i actions) \<in> set actions"
    by (rule action_of_mem)
  then show "d_id r = i" "i \<in> created" "\<exists>v x. a_content (action_of i actions) = Some (Base v x)"
    using assms unfolding actions_of_def by fastforce+
qed

fun created_id :: "'p store_write \<Rightarrow> id set" where
  "created_id (WCreate r _ _) = {d_id r}"
| "created_id _ = {}"

lemma add_action_Inr:
  assumes "actions_of created actions" "add_action actions w = Inr actions'" "created_id w \<subseteq> created"
  shows "actions_of created actions'"
proof (cases w)
  case (WCreate r v x)
  then show ?thesis
    using assms by (auto simp: Let_def split: if_splits intro!: actions_of_put)
next
  case (WChange i c)
  then have n: "a_content (action_of i actions) = None" "actions' = al_put i ((action_of i actions)\<lparr>a_content := Some c\<rparr>) actions"
    using assms(2) by (auto simp: Let_def split: if_splits)
  then have "a_create (action_of i actions) = None"
    using action_create(3) [OF assms(1), of i] by (cases "a_create (action_of i actions)") auto
  then show ?thesis
    unfolding n(2) by (intro actions_of_put assms(1)) simp
next
  case (WRetire i)
  then have "actions' = al_put i ((action_of i actions)\<lparr>a_retire := True\<rparr>) actions"
    using assms(2) by (auto simp: Let_def split: if_splits)
  then show ?thesis
    using action_create [OF assms(1), of i] by (auto intro!: actions_of_put assms(1) split: option.splits)
qed (use assms in auto)

lemma prepared_actions:
  assumes "rfold add_action actions ws = Inr actions'" "actions_of created actions" "\<forall>w \<in> set ws. created_id w \<subseteq> created"
  shows "actions_of created actions'"
  using assms by (induction ws arbitrary: actions) (auto elim!: rbindE dest: add_action_Inr)

lemma created_claimed:
  assumes "rfold (claim_id m) claimed ws = Inr claimed'" "w \<in> set ws" "i \<in> created_id w"
  shows "claimed' i = Some TDocument"
  using assms
proof (induction ws arbitrary: claimed)
  case (Cons v ws)
  then obtain c where c: "claim_id m claimed v = Inr c" "rfold (claim_id m) c ws = Inr claimed'"
    by (auto elim!: rbindE)
  show ?case
  proof (cases "v = w")
    case True
    then have "c i = Some TDocument"
      using claim_id_Inr [OF c(1)] Cons.prems(3) by (cases w) auto
    then show ?thesis
      using claimed_kept [OF c(2)] by blast
  next
    case False
    then show ?thesis
      using Cons.IH [OF c(2)] Cons.prems(2,3) by simp
  qed
qed simp

section \<open>One current document for each address\<close>

lemma live_after_add: "live_after m k ia live = live + live_after m k ia 0"
  by (simp add: live_after_def Let_def)

definition start_count :: "'p memory \<Rightarrow> jsstr \<Rightarrow> int" where
  "start_count m k = (if current_id m k = None then 0 else 1)"

definition live_change :: "'p memory \<Rightarrow> jsstr \<Rightarrow> (id \<times> document_action) list \<Rightarrow> int" where
  "live_change m k actions = sum_list (map (\<lambda>ia. live_after m k ia 0) (filter (\<lambda>ia. action_key m ia = k) actions))"

lemma check_action_count:
  assumes "check_action m counts ia = Inr counts'"
  shows "map_of counts' = (map_of counts)(action_key m ia \<mapsto>
    (case map_of counts (action_key m ia) of None \<Rightarrow> start_count m (action_key m ia) | Some l \<Rightarrow> l) + live_after m (action_key m ia) ia 0)"
proof -
  let ?live = "case map_of counts (action_key m ia) of Some l \<Rightarrow> l | None \<Rightarrow> if current_id m (action_key m ia) = None then 0 else 1"
  have "counts' = al_put (action_key m ia) (live_after m (action_key m ia) ia ?live) counts"
    using assms by (auto simp: check_action_def Let_def elim!: rbindE split: if_splits)
  then have "map_of counts' = (map_of counts)(action_key m ia \<mapsto> ?live + live_after m (action_key m ia) ia 0)"
    by (simp add: map_of_al_put live_after_add [of m "action_key m ia" ia ?live])
  then show ?thesis
    by (simp add: start_count_def cong: option.case_cong)
qed

lemma counts_of:
  assumes "rfold (check_action m) counts actions = Inr counts'"
  shows "map_of counts' k = (if map_of counts k = None \<and> k \<notin> action_key m ` set actions then None
    else Some ((case map_of counts k of None \<Rightarrow> start_count m k | Some l \<Rightarrow> l) + live_change m k actions))"
  using assms
proof (induction actions arbitrary: counts)
  case Nil
  then show ?case
    by (auto simp: live_change_def)
next
  case (Cons ia actions)
  then obtain c where c: "check_action m counts ia = Inr c" "rfold (check_action m) c actions = Inr counts'"
    by (auto elim!: rbindE)
  show ?case
    using Cons.IH [OF c(2)] check_action_count [OF c(1)] by (auto simp: live_change_def)
qed

text \<open>The documents of some actions that are created and not retired, and whether one is retired.\<close>

definition born :: "(id \<times> document_action) list \<Rightarrow> id list" where
  "born actions = map fst (filter (\<lambda>ia. a_create (snd ia) \<noteq> None \<and> \<not> a_retire (snd ia)) actions)"

definition retires :: "id option \<Rightarrow> (id \<times> document_action) list \<Rightarrow> bool" where
  "retires cur actions \<longleftrightarrow> (\<exists>ia \<in> set actions. a_retire (snd ia) \<and> cur = Some (fst ia))"

lemma born_snoc: "born (actions @ [ia]) = born actions @ (if a_create (snd ia) \<noteq> None \<and> \<not> a_retire (snd ia) then [fst ia] else [])"
  by (simp add: born_def)

lemma born_fst: "i \<in> set (born actions) \<Longrightarrow> i \<in> fst ` set actions"
  by (auto simp: born_def)

lemma retires_fst: "retires (Some i) actions \<Longrightarrow> i \<in> fst ` set actions"
  by (auto simp: retires_def)

lemma pointer_fold:
  assumes "distinct (map fst actions)"
  shows "fold (\<lambda>ia cur. pointer cur ia) actions cur =
    (if born actions = [] then (if retires cur actions then None else cur) else Some (last (born actions)))"
  using assms
proof (induction actions rule: rev_induct)
  case (snoc ia actions)
  then have new: "fst ia \<notin> fst ` set actions"
    by auto
  have "last (born actions) \<noteq> fst ia" if "born actions \<noteq> []"
    using that new born_fst [of "last (born actions)"] last_in_set by metis
  moreover have "fold (\<lambda>ia cur. pointer cur ia) (actions @ [ia]) cur =
      pointer (if born actions = [] then (if retires cur actions then None else cur) else Some (last (born actions))) ia"
    using snoc by simp
  moreover have "retires cur (actions @ [ia]) \<longleftrightarrow> retires cur actions \<or> a_retire (snd ia) \<and> cur = Some (fst ia)"
    by (auto simp: retires_def)
  ultimately show ?case
    by (auto simp: pointer_def born_snoc Let_def)
qed (simp add: born_def retires_def)

lemma live_change_eq:
  assumes "distinct (map fst actions)" "\<forall>ia \<in> set actions. action_key m ia = k"
  shows "live_change m k actions = int (length (born actions)) - (if retires (current_id m k) actions then 1 else 0)"
  using assms
proof (induction actions rule: rev_induct)
  case (snoc ia actions)
  have "live_change m k (actions @ [ia]) = live_change m k actions + live_after m k ia 0"
    using snoc.prems(2) by (simp add: live_change_def)
  moreover have "retires (current_id m k) (actions @ [ia]) \<longleftrightarrow>
      retires (current_id m k) actions \<or> a_retire (snd ia) \<and> current_id m k = Some (fst ia)"
    by (auto simp: retires_def)
  moreover have "\<not> (retires (current_id m k) actions \<and> current_id m k = Some (fst ia))"
    using snoc.prems(1) retires_fst [of "fst ia" actions] by auto
  ultimately show ?case
    using snoc by (auto simp: born_snoc live_after_def Let_def)
qed (simp add: live_change_def born_def retires_def)

lemma action_key_present:
  assumes "action_fits i a (m_documents m i)" "a_create a = None"
  shows "live_at m (action_key m (i, a)) i"
  using assms by (auto simp: action_fits_def action_key_def live_at_def)

lemma live_at_unique: "live_at m k i \<Longrightarrow> live_at m k' i \<Longrightarrow> k = k'"
  by (auto simp: live_at_def)

lemma live_key:
  assumes "action_fits i a (m_documents m i)" "live_at m k i"
  shows "action_key m (i, a) = k"
proof (cases "a_create a")
  case None
  then show ?thesis
    using assms action_key_present live_at_unique by blast
next
  case (Some r)
  then show ?thesis
    using assms by (auto simp: action_fits_def live_at_def)
qed

lemma live_after_actions:
  assumes fit: "actions_fit m actions" and cur: "current_ok m"
    and docs: "\<And>i. m_documents m' i = (case map_of actions i of None \<Rightarrow> m_documents m i
       | Some a \<Rightarrow> Some (stored_after seq a (m_documents m i)))"
  shows "live_at m' k i \<longleftrightarrow>
    i \<in> set (born (filter (\<lambda>ia. action_key m ia = k) actions)) \<or>
    current_id m k = Some i \<and> \<not> retires (Some i) (filter (\<lambda>ia. action_key m ia = k) actions)"
proof (cases "map_of actions i")
  case None
  then have "i \<notin> fst ` set actions"
    by (simp add: map_of_eq_None_iff)
  then have "i \<notin> set (born (filter (\<lambda>ia. action_key m ia = k) actions))" "\<not> retires (Some i) (filter (\<lambda>ia. action_key m ia = k) actions)"
    using born_fst retires_fst by fastforce+
  moreover have "live_at m' k i = live_at m k i"
    using docs [of i] None by (simp add: live_at_def)
  ultimately show ?thesis
    using cur by (simp add: current_ok_def)
next
  case (Some a)
  then have mem: "(i, a) \<in> set actions"
    by (rule map_of_SomeD)
  have only: "(i, b) \<in> set actions \<longleftrightarrow> b = a" for b
    using fit mem eq_key_imp_eq_value [of actions i b a] by (auto simp: actions_fit_def)
  have fits: "action_fits i a (m_documents m i)"
    using fit mem by (auto simp: actions_fit_def)
  have live: "live_at m' k i \<longleftrightarrow> \<not> a_retire a \<and> action_key m (i, a) = k"
    using docs [of i] Some address_after(4) [OF fits, of seq] action_key_after [OF fits, of seq]
    by (auto simp: live_at_def)
  have born: "i \<in> set (born (filter (\<lambda>ia. action_key m ia = k) actions)) \<longleftrightarrow>
      action_key m (i, a) = k \<and> a_create a \<noteq> None \<and> \<not> a_retire a"
    using only by (auto simp: born_def image_iff intro: bexI [of _ "(i, a)"])
  have ret: "retires (Some i) (filter (\<lambda>ia. action_key m ia = k) actions) \<longleftrightarrow> action_key m (i, a) = k \<and> a_retire a"
    using only by (auto simp: retires_def intro: bexI [of _ "(i, a)"])
  have cur: "current_id m k = Some i \<longleftrightarrow> live_at m k i"
    using cur by (simp add: current_ok_def)
  have "current_id m k = Some i \<Longrightarrow> action_key m (i, a) = k"
    using live_key [OF fits] cur by simp
  moreover have "a_create a = None \<Longrightarrow> action_key m (i, a) = k \<Longrightarrow> current_id m k = Some i"
    using action_key_present [OF fits] cur by simp
  ultimately show ?thesis
    unfolding live born ret by metis
qed

lemma current_after_actions:
  assumes fit: "actions_fit m actions" and cur: "current_ok m"
    and docs: "\<And>i. m_documents m' i = (case map_of actions i of None \<Rightarrow> m_documents m i
       | Some a \<Rightarrow> Some (stored_after seq a (m_documents m i)))"
    and ptr: "\<And>k. current_id m' k = fold (\<lambda>ia cur. pointer cur ia) (filter (\<lambda>ia. action_key m ia = k) actions) (current_id m k)"
    and count: "\<And>k. k \<in> action_key m ` set actions \<Longrightarrow> start_count m k + live_change m k actions \<le> 1"
  shows "current_ok m'"
  unfolding current_ok_def
proof (intro allI)
  fix k i
  define acts where "acts = filter (\<lambda>ia. action_key m ia = k) actions"
  have acts: "distinct (map fst acts)" "\<forall>ia \<in> set acts. action_key m ia = k" "live_change m k acts = live_change m k actions"
    using fit by (simp_all add: acts_def actions_fit_def distinct_map_filter live_change_def)
  show "current_id m' k = Some i \<longleftrightarrow> live_at m' k i"
  proof (cases "born acts = []")
    case True
    then show ?thesis
      using ptr [of k] pointer_fold [OF acts(1)] live_after_actions [OF fit cur docs, of k i] by (auto simp: acts_def)
  next
    case False
    then have "k \<in> action_key m ` set actions"
      using born_fst [of "hd (born acts)" acts] by (auto simp: acts_def)
    then have "start_count m k + int (length (born acts)) - (if retires (current_id m k) acts then 1 else 0) \<le> 1"
      using count [of k] live_change_eq [OF acts(1,2)] acts(3) by simp
    then have "length (born acts) \<le> 1 \<and> (current_id m k = None \<or> retires (current_id m k) acts)"
      using False by (cases "born acts") (auto simp: start_count_def retires_def split: if_splits)
    then obtain b where "born acts = [b]" "current_id m k = None \<or> retires (current_id m k) acts"
      using False by (cases "born acts") auto
    then show ?thesis
      using ptr [of k] pointer_fold [OF acts(1)] live_after_actions [OF fit cur docs, of k i] by (auto simp: acts_def)
  qed
qed

section \<open>Commits\<close>

definition wf_memory :: "'p memory \<Rightarrow> bool" where
  "wf_memory m \<longleftrightarrow> records_ok (m_next_seq m) m \<and> documents_ok (m_next_seq m) m"

lemma records_ok_later:
  assumes "records_ok n m" "n \<le> n'"
  shows "records_ok n' m"
proof -
  have "entries_ok n m"
    using assms(1) by (simp add: records_ok_def)
  then have "entries_ok n' m"
    using assms(2) unfolding entries_ok_def by (meson order_less_le_trans)
  then show ?thesis
    using assms(1) by (simp add: records_ok_def)
qed

lemma documents_kept_later: "documents_kept n m \<Longrightarrow> n \<le> n' \<Longrightarrow> documents_kept n' m"
  unfolding documents_kept_def using revisions_ok_later by blast

lemma check_action_fits:
  assumes "check_action m counts (i, a) = Inr c"
    and "case a_create a of None \<Rightarrow> True | Some r \<Rightarrow> d_id r = i \<and> (\<exists>v x. a_content a = Some (Base v x))"
  shows "action_fits i a (m_documents m i)"
proof (cases "a_create a")
  case (Some r)
  then show ?thesis
    using assms by (auto simp: check_action_def action_fits_def Let_def split: if_splits)
next
  case None
  then obtain d where d: "m_documents m i = Some d" "d_retired (sd_record d) = None" "check_delta (a_content a) (Some d) = Inr ()"
    using assms(1) by (auto simp: check_action_def Let_def elim!: rbindE split: if_splits option.splits)
  have "content_version (fst (last (sd_revisions d))) = v" if "a_content a = Some (Delta v ops)" for v ops
  proof -
    have "(case fst (last (sd_revisions d)) of Base v _ \<Rightarrow> v | Delta v _ \<Rightarrow> v) = content_version (fst (last (sd_revisions d)))"
      by (cases "fst (last (sd_revisions d))") auto
    then show ?thesis
      using d(3) that by (simp add: check_delta_def split: if_splits)
  qed
  then show ?thesis
    using None d(1,2) by (auto simp: action_fits_def)
qed

lemma checked_actions_fit:
  assumes "rfold (check_action m) counts actions = Inr counts'"
    and "\<forall>(i, a) \<in> set actions. case a_create a of None \<Rightarrow> True | Some r \<Rightarrow> d_id r = i \<and> (\<exists>v x. a_content a = Some (Base v x))"
  shows "\<forall>(i, a) \<in> set actions. action_fits i a (m_documents m i)"
  using assms
proof (induction actions arbitrary: counts)
  case (Cons ia actions)
  obtain i a where ia: "ia = (i, a)"
    by (cases ia)
  then obtain c where c: "check_action m counts (i, a) = Inr c" "rfold (check_action m) c actions = Inr counts'"
    using Cons.prems(1) by (auto elim!: rbindE)
  then show ?case
    using check_action_fits [OF c(1)] Cons.IH [OF c(2)] Cons.prems(2) by (simp add: ia)
qed simp

text \<open>What the next seq, a higher next ID and closing do not touch.\<close>

lemma has_record_upd:
  "has_record (m\<lparr>m_next_seq := x\<rparr>) = has_record m" "has_record (m\<lparr>m_closed := b\<rparr>) = has_record m"
  "has_record (m\<lparr>m_next_id := y\<rparr>) = has_record m"
  by (intro ext, rename_tac t i, case_tac t; simp)+

lemma ok_upd:
  "records_ok n (m\<lparr>m_next_seq := x\<rparr>) = records_ok n m" "documents_ok n (m\<lparr>m_next_seq := x\<rparr>) = documents_ok n m"
  "records_ok n (m\<lparr>m_closed := b\<rparr>) = records_ok n m" "documents_ok n (m\<lparr>m_closed := b\<rparr>) = documents_ok n m"
  "documents_ok n (m\<lparr>m_next_id := y\<rparr>) = documents_ok n m"
  unfolding records_ok_def documents_ok_def tables_ok_defs documents_listed_def documents_kept_def current_ok_def
    live_at_def current_id_def address_ids_def has_record_upd
  by simp_all

lemma records_ok_next_id:
  assumes "records_ok n m" "m_next_id m \<le> y"
  shows "records_ok n (m\<lparr>m_next_id := y\<rparr>)"
proof -
  have "types_ok (m\<lparr>m_next_id := y\<rparr>)"
    using assms unfolding records_ok_def types_ok_def has_record_upd
    by simp (meson order_less_le_trans)
  then show ?thesis
    using assms(1) unfolding records_ok_def tables_ok_defs(1-5) by simp
qed

text \<open>Everything the checks of a commit establish for its application.\<close>

lemma prepared_facts:
  assumes "prepare_commit seq ws m = Inr p"
  obtains claimed where "pc_seq p = seq" "pc_applied p = False" "m_next_seq m \<le> seq" "m_closed m = False"
    "\<forall>w \<in> set (pc_writes p). \<not> is_copy_write w"
    "rfold (claim_id m) Map.empty (pc_writes p) = Inr claimed"
    "distinct (map fst (pc_actions p))"
    "\<forall>(i, a) \<in> set (pc_actions p). action_fits i a (m_documents m i) \<and> (a_create a \<noteq> None \<longrightarrow> claimed i = Some TDocument)"
    "\<forall>k \<in> action_key m ` set (pc_actions p). start_count m k + live_change m k (pc_actions p) \<le> 1"
    "resolve_document_copies m ws = Inr (pc_writes p)"
proof -
  obtain ws' claimed actions where p: "resolve_document_copies m ws = Inr ws'" "check_global_ids m ws' = Inr claimed"
    "prepare_document_actions ws' = Inr actions" "check_document_actions m actions = Inr ()"
    "p = \<lparr>pc_seq = seq, pc_writes = ws', pc_actions = actions, pc_applied = False\<rparr>" "m_next_seq m \<le> seq" "\<not> m_closed m"
    using assms by (auto simp: prepare_commit_def elim!: rbindE split: if_splits)
  have a: "actions_of (\<Union> (created_id ` set ws')) actions"
    by (rule prepared_actions [where actions = "[]" and ws = ws'])
      (use p(3) in \<open>auto simp: prepare_document_actions_def actions_of_def\<close>)
  have claims: "i \<in> \<Union> (created_id ` set ws') \<Longrightarrow> claimed i = Some TDocument" for i
    using created_claimed [OF p(2)[unfolded check_global_ids_def]] by blast
  obtain counts where counts: "rfold (check_action m) [] actions = Inr counts" "\<not> list_ex (\<lambda>(_, live). 1 < live) counts"
    using p(4) by (auto simp: check_document_actions_def elim!: rbindE split: if_splits)
  have "\<forall>(i, a) \<in> set actions. action_fits i a (m_documents m i)"
    by (rule checked_actions_fit [OF counts(1)]) (use a in \<open>auto simp: actions_of_def split: option.splits\<close>)
  moreover have "\<forall>(i, a) \<in> set actions. a_create a \<noteq> None \<longrightarrow> claimed i = Some TDocument"
    using a claims by (auto simp: actions_of_def split: option.splits)
  moreover have "start_count m k + live_change m k actions \<le> 1" if "k \<in> action_key m ` set actions" for k
  proof -
    have "map_of counts k = Some (start_count m k + live_change m k actions)"
      using counts_of [OF counts(1), of k] that by simp
    then show ?thesis
      using counts(2) by (auto simp: list_ex_iff dest!: map_of_SomeD)
  qed
  ultimately have fits: "\<forall>(i, a) \<in> set actions. action_fits i a (m_documents m i) \<and> (a_create a \<noteq> None \<longrightarrow> claimed i = Some TDocument)"
      and "\<forall>k \<in> action_key m ` set actions. start_count m k + live_change m k actions \<le> 1"
    by blast+
  then show ?thesis
    by (intro that [of claimed]) (use p(1,2,5-7) a resolved_no_copies [OF p(1)] in \<open>simp_all add: check_global_ids_def actions_of_def\<close>)
qed

lemma prepared_applies:
  assumes wf: "wf_memory m" and p: "prepare_commit seq ws m = Inr p"
  shows "\<exists>m'. apply_prepared p m = Inr m' \<and> wf_memory m' \<and> m_next_seq m' = seq + 1 \<and> \<not> m_closed m' \<and>
    (\<forall>i. m_documents m' i = (case map_of (pc_actions p) i of None \<Rightarrow> m_documents m i
       | Some a \<Rightarrow> Some (stored_after seq a (m_documents m i)))) \<and>
    (\<exists>m1. rfold (apply_write seq) m (pc_writes p) = Inr m1 \<and> m_conversations m' = m_conversations m1 \<and>
       m_entries m' = m_entries m1 \<and> m_tasks m' = m_tasks m1 \<and> m_submissions m' = m_submissions m1)"
proof -
  from p obtain claimed where f: "pc_seq p = seq" "m_next_seq m \<le> seq" "m_closed m = False"
    "\<forall>w \<in> set (pc_writes p). \<not> is_copy_write w" "rfold (claim_id m) Map.empty (pc_writes p) = Inr claimed"
    "distinct (map fst (pc_actions p))"
    "\<forall>(i, a) \<in> set (pc_actions p). action_fits i a (m_documents m i) \<and> (a_create a \<noteq> None \<longrightarrow> claimed i = Some TDocument)"
    "\<forall>k \<in> action_key m ` set (pc_actions p). start_count m k + live_change m k (pc_actions p) \<le> 1"
    by (rule prepared_facts)
  have rec: "records_ok (seq + 1) m" and docs: "documents_listed m" "documents_kept seq m" "current_ok m"
    using wf f(2) records_ok_later [of "m_next_seq m" m "seq + 1"] documents_kept_later [of "m_next_seq m" m seq]
    by (auto simp: wf_memory_def documents_ok_def)
  have "types_after m Map.empty m"
    by (simp add: types_after_def)
  from apply_writes [OF f(5,4) this rec, of seq] obtain m1 where m1: "rfold (apply_write seq) m (pc_writes p) = Inr m1"
    "records_ok (seq + 1) m1" "types_after m claimed m1" "same_documents m m1"
    by auto
  have same: "m_documents m1 = m_documents m" "current_id m1 = current_id m" "address_ids m1 = address_ids m"
      "action_key m1 ia = action_key m ia" for ia
    using m1(4) action_key_cong [of m1 "fst ia" m "snd ia"]
    by (simp_all add: same_documents_def current_id_def address_ids_def fun_eq_iff)
  have "documents_listed m1" "documents_kept (seq + 1) m1"
    using docs m1(4) documents_kept_later [OF docs(2), of "seq + 1"] same
    by (simp_all add: documents_listed_def same_documents_def documents_kept_def)
  moreover have "actions_fit m1 (pc_actions p)"
    using f(6,7) m1(3) same(1) by (auto simp: actions_fit_def types_after_def)
  moreover have "\<And>i d. m_documents m1 i = Some d \<Longrightarrow> revisions_ok seq d"
    using docs(2) same(1) by (simp add: documents_kept_def)
  ultimately obtain m2 where m2: "rfold (apply_action seq) m1 (pc_actions p) = Inr m2" "records_ok (seq + 1) m2"
    "documents_listed m2" "documents_kept (seq + 1) m2" "only_documents m1 m2"
    "\<forall>i. m_documents m2 i = (case map_of (pc_actions p) i of None \<Rightarrow> m_documents m1 i
       | Some a \<Rightarrow> Some (stored_after seq a (m_documents m1 i)))"
    "\<forall>k. current_id m2 k = fold (\<lambda>ia cur. pointer cur ia) (filter (\<lambda>ia. action_key m1 ia = k) (pc_actions p)) (current_id m1 k)"
    using apply_actions [OF m1(2), of "pc_actions p"] by blast
  have fit: "actions_fit m (pc_actions p)"
    using f(6,7) m1(3) by (auto simp: actions_fit_def types_after_def)
  have "current_ok m2"
    by (rule current_after_actions [where seq = seq, OF fit docs(3)]) (use m2(6,7) [unfolded same] f(8) in auto)
  define m' where "m' = m2\<lparr>m_next_seq := seq + 1\<rparr>"
  have "wf_memory m'"
    using m2(2-4) \<open>current_ok m2\<close> unfolding m'_def wf_memory_def ok_upd by (simp add: documents_ok_def)
  moreover have "apply_prepared p m = Inr m'"
    using m1(1) m2(1) f(1) by (simp add: apply_prepared_def m'_def)
  moreover have "m_closed m' = m_closed m"
    using only_documents_same(11) [OF m2(5)] m1(4) by (simp add: m'_def same_documents_def)
  ultimately show ?thesis
    using m2(6) [unfolded same(1)] only_documents_same [OF m2(5)] m1(1) f(3) by (intro exI [of _ m']) (simp add: m'_def)
qed

section \<open>Reachable states\<close>

text \<open>
  The operations that change a storage: a commit, applying a commit prepared in this state, minting an ID and
  closing; a state is reachable when they lead to it from a new storage.
\<close>

inductive memory_step :: "'p memory \<Rightarrow> 'p memory \<Rightarrow> bool" where
  committed: "memory_step m (snd (commit batches m))"
| prepared: "prepare_commit seq ws m = Inr p \<Longrightarrow> apply_once p m = Inr (p', m') \<Longrightarrow> memory_step m m'"
| minted: "mint_id m = Inr (i, m') \<Longrightarrow> memory_step m m'"
| closed: "memory_step m (close_memory m)"

definition reachable_memory :: "'p memory \<Rightarrow> bool" where
  "reachable_memory m \<longleftrightarrow> memory_step\<^sup>*\<^sup>* new_memory m"

lemma lists_none: "lists [] (\<lambda>i. False)"
  by (simp add: lists_def)

lemma wf_new_memory: "wf_memory new_memory"
proof -
  have none: "\<not> has_record new_memory t i" for t and i
    by (cases t) (simp_all add: new_memory_def)
  have "types_ok new_memory"
    unfolding types_ok_def by (simp add: none) (simp add: new_memory_def)
  then show ?thesis
    unfolding wf_memory_def records_ok_def tables_ok_defs(1-5) documents_ok_def documents_listed_def documents_kept_def
      current_ok_def live_at_def current_id_def address_ids_def
    by (simp add: new_memory_def ids_at_def lists_none)
qed

lemma prepared_applies_once:
  assumes "wf_memory m" "prepare_commit seq ws m = Inr p"
  obtains m' where "apply_once p m = Inr (p\<lparr>pc_applied := True\<rparr>, m')" "apply_prepared p m = Inr m'"
    "wf_memory m'" "m_next_seq m' = seq + 1" "\<not> m_closed m'"
proof -
  obtain m' where m': "apply_prepared p m = Inr m'" "wf_memory m'" "m_next_seq m' = seq + 1" "\<not> m_closed m'"
    using prepared_applies [OF assms] by blast
  moreover have "pc_applied p = False"
    using assms(2) by (rule prepared_facts)
  ultimately show ?thesis
    using that by (simp add: apply_once_def)
qed

text \<open>
  A commit is a sequence of prepared batches, each applied in full to the state the one before it left; what
  every applied batch keeps, the commit and every step keep.
\<close>

lemma commit_batches_induct:
  assumes "wf_memory m" "I m"
    and step: "\<And>m ws p m'. wf_memory m \<Longrightarrow> I m \<Longrightarrow> prepare_commit (m_next_seq m) ws m = Inr p \<Longrightarrow> apply_prepared p m = Inr m' \<Longrightarrow> I m'"
  shows "cr_thrown (fst (commit_batches batches seqs m)) = None \<and> wf_memory (snd (commit_batches batches seqs m)) \<and>
    I (snd (commit_batches batches seqs m))"
  using assms(1,2)
proof (induction batches arbitrary: seqs m)
  case (Cons ws batches)
  show ?case
  proof (cases "prepare_commit (m_next_seq m) ws m")
    case (Inl e)
    then show ?thesis
      using Cons.prems by simp
  next
    case (Inr p)
    then obtain m' where m': "apply_once p m = Inr (p\<lparr>pc_applied := True\<rparr>, m')" "apply_prepared p m = Inr m'" "wf_memory m'"
      using prepared_applies_once [OF Cons.prems(1)] by metis
    show ?thesis
      using Cons.IH [OF m'(3) step [OF Cons.prems Inr m'(2)], of "seqs @ [pc_seq (p\<lparr>pc_applied := True\<rparr>)]"] Inr m'(1) by simp
  qed
qed simp

lemma step_induct:
  assumes "memory_step m m'" "wf_memory m" "I m"
    and batch: "\<And>m seq ws p m'. wf_memory m \<Longrightarrow> I m \<Longrightarrow> prepare_commit seq ws m = Inr p \<Longrightarrow> apply_prepared p m = Inr m' \<Longrightarrow> I m'"
    and mint: "\<And>m y. wf_memory m \<Longrightarrow> I m \<Longrightarrow> m_next_id m \<le> y \<Longrightarrow> I (m\<lparr>m_next_id := y\<rparr>)"
    and close: "\<And>m. wf_memory m \<Longrightarrow> I m \<Longrightarrow> I (m\<lparr>m_closed := True\<rparr>)"
  shows "wf_memory m' \<and> I m'"
  using assms(1-3)
proof (induction rule: memory_step.induct)
  case (committed m batches)
  have "wf_memory (snd (commit_batches batches [] m)) \<and> I (snd (commit_batches batches [] m))"
    using commit_batches_induct [of m I batches "[]"] committed batch by blast
  then show ?case
    using committed by (simp add: commit_def)
next
  case (prepared seq ws m p p' m')
  obtain m1 where m1: "apply_once p m = Inr (p\<lparr>pc_applied := True\<rparr>, m1)" "apply_prepared p m = Inr m1" "wf_memory m1"
    using prepared_applies_once [OF prepared.prems(1) prepared.hyps(1)] by blast
  then have "m' = m1"
    using prepared.hyps(2) by simp
  then show ?case
    using m1(3) batch [OF prepared.prems prepared.hyps(1) m1(2)] by blast
next
  case (minted m i m')
  then have "m' = m\<lparr>m_next_id := m_next_id m + 1\<rparr>"
    by (auto simp: mint_id_def split: if_splits)
  then show ?case
    using minted.prems mint by (auto simp: wf_memory_def ok_upd intro: records_ok_next_id)
next
  case (closed m)
  then show ?case
    using close by (simp add: close_memory_def wf_memory_def ok_upd)
qed

lemma steps_induct:
  assumes "memory_step\<^sup>*\<^sup>* m m'" "wf_memory m" "I m"
    and "\<And>m seq ws p m'. wf_memory m \<Longrightarrow> I m \<Longrightarrow> prepare_commit seq ws m = Inr p \<Longrightarrow> apply_prepared p m = Inr m' \<Longrightarrow> I m'"
    and "\<And>m y. wf_memory m \<Longrightarrow> I m \<Longrightarrow> m_next_id m \<le> y \<Longrightarrow> I (m\<lparr>m_next_id := y\<rparr>)"
    and "\<And>m. wf_memory m \<Longrightarrow> I m \<Longrightarrow> I (m\<lparr>m_closed := True\<rparr>)"
  shows "wf_memory m' \<and> I m'"
  using assms(1)
proof (induction rule: rtranclp_induct)
  case (step y z)
  then show ?case
    using step_induct [of y z I] assms(4-6) by blast
qed (use assms in blast)

lemma wf_reachable: "reachable_memory m \<Longrightarrow> wf_memory m"
  unfolding reachable_memory_def using steps_induct [of new_memory m "\<lambda>_. True"] wf_new_memory by blast

end
