(* ===== verification/MemoryHistory.thy ===== *)
theory MemoryHistory
  imports MemoryInvariant
begin

text \<open>
  What a \<open>MemoryStorage\<close> promises of its commits, IDs, records and documents in every reachable state.
\<close>

section \<open>Commits\<close>

lemma commit_batches_prefix:
  assumes "wf_memory m" "commit_batches batches seqs m = (r, m')"
  shows "\<exists>k \<le> length batches. cr_stored r = seqs @ [m_next_seq m ..< m_next_seq m + k] \<and> cr_thrown r = None \<and>
    commit_batches (take k batches) seqs m = (\<lparr>cr_stored = cr_stored r, cr_refused = None, cr_thrown = None\<rparr>, m') \<and>
    (if k = length batches then cr_refused r = None
     else \<exists>e. cr_refused r = Some e \<and> prepare_commit (m_next_seq m') (batches ! k) m' = Inl e)"
  using assms
proof (induction batches arbitrary: seqs m)
  case (Cons ws batches)
  show ?case
  proof (cases "prepare_commit (m_next_seq m) ws m")
    case (Inl e)
    then show ?thesis
      using Cons.prems by (intro exI [of _ 0]) auto
  next
    case (Inr p)
    then obtain m1 where m1: "apply_once p m = Inr (p\<lparr>pc_applied := True\<rparr>, m1)" "wf_memory m1" "m_next_seq m1 = m_next_seq m + 1"
      using prepared_applies_once [OF Cons.prems(1)] by metis
    have seq: "pc_seq p = m_next_seq m"
      using Inr by (rule prepared_facts)
    have "commit_batches batches (seqs @ [m_next_seq m]) m1 = (r, m')"
      using Cons.prems(2) Inr m1(1) seq by simp
    from Cons.IH [OF m1(2) this] obtain k where k: "k \<le> length batches"
      "cr_stored r = (seqs @ [m_next_seq m]) @ [m_next_seq m1 ..< m_next_seq m1 + k]" "cr_thrown r = None"
      "commit_batches (take k batches) (seqs @ [m_next_seq m]) m1 = (\<lparr>cr_stored = cr_stored r, cr_refused = None, cr_thrown = None\<rparr>, m')"
      "if k = length batches then cr_refused r = None
       else \<exists>e. cr_refused r = Some e \<and> prepare_commit (m_next_seq m') (batches ! k) m' = Inl e"
      by blast
    have "m_next_seq m # [m_next_seq m1 ..< m_next_seq m1 + k] = [m_next_seq m ..< m_next_seq m + Suc k]"
      using m1(3) by (simp add: upt_conv_Cons del: upt_Suc)
    then show ?thesis
      using k Inr m1(1) seq by (intro exI [of _ "Suc k"]) (simp del: upt_Suc)
  qed
qed auto

text \<open>
  C10: A commit never fails half way: it stores a prefix of its batches under consecutive seqs and stops at the
  first batch the checks refuse, whose error it reports; the state it leaves is the one a commit of the stored
  batches alone leaves, and applying a batch that passed its checks throws nothing.
\<close>

theorem commit_stores_prefix:
  assumes "reachable_memory m" "\<not> m_closed m" "commit batches m = (r, m')"
  shows "\<exists>k \<le> length batches. cr_stored r = [m_next_seq m ..< m_next_seq m + k] \<and> cr_thrown r = None \<and>
    commit (take k batches) m = (\<lparr>cr_stored = cr_stored r, cr_refused = None, cr_thrown = None\<rparr>, m') \<and>
    (if k = length batches then cr_refused r = None
     else \<exists>e. cr_refused r = Some e \<and> prepare_commit (m_next_seq m') (batches ! k) m' = Inl e)"
  using commit_batches_prefix [OF wf_reachable [OF assms(1)], of batches "[]" r m'] assms(2,3) by (simp add: commit_def)


section \<open>IDs\<close>

lemma rfold_mono:
  assumes "rfold f s xs = Inr s'" "\<And>s x s'. x \<in> set xs \<Longrightarrow> f s x = Inr s' \<Longrightarrow> g s \<le> g s'"
  shows "(g s :: nat) \<le> g s'"
  using assms
proof (induction xs arbitrary: s)
  case (Cons x xs)
  then obtain s1 where "f s x = Inr s1" "rfold f s1 xs = Inr s'"
    by (auto elim!: rbindE)
  then show ?case
    using Cons.IH [of s1] Cons.prems(2) by (meson le_trans list.set_intros)
qed simp

lemma next_id_grows:
  assumes "apply_prepared p m = Inr m'"
  shows "m_next_id m \<le> m_next_id m'"
proof -
  obtain m1 m2 where m1: "rfold (apply_write (pc_seq p)) m (pc_writes p) = Inr m1"
      and m2: "rfold (apply_action (pc_seq p)) m1 (pc_actions p) = Inr m2" and m': "m' = m2\<lparr>m_next_seq := pc_seq p + 1\<rparr>"
    using assms by (auto simp: apply_prepared_def elim!: rbindE)
  have "m_next_id m \<le> m_next_id m1"
  proof (rule rfold_mono [OF m1])
    fix s s' :: "'a memory" and w
    assume "apply_write (pc_seq p) s w = Inr s'"
    then show "m_next_id s \<le> m_next_id s'"
      by (cases w) (auto simp: apply_fields)
  qed
  also have "\<dots> \<le> m_next_id m2"
    by (rule rfold_mono [OF m2])
      (auto simp: apply_action_def Let_def register_document_def bump_id_def elim!: rbindE split: if_splits option.splits)
  finally show ?thesis
    by (simp add: m')
qed

text \<open>
  An ID a storage mints belongs to no record, and every ID minted later, whatever is committed in between,
  is a higher one.
\<close>

theorem minted_ids_new:
  assumes "reachable_memory m" "mint_id m = Inr (i, m')" "memory_step\<^sup>*\<^sup>* m' n" "mint_id n = Inr (j, n')"
  shows "\<not> has_record m t i \<and> i < j"
proof -
  have wf: "wf_memory m"
    using assms(1) by (rule wf_reachable)
  have m': "i = m_next_id m" "m' = m\<lparr>m_next_id := i + 1\<rparr>"
    using assms(2) by (auto simp: mint_id_def split: if_splits)
  have "\<not> has_record m t i"
  proof
    assume "has_record m t i"
    then have "m_types m i \<noteq> None" and "\<forall>i. m_types m i \<noteq> None \<longrightarrow> i < m_next_id m"
      using wf unfolding wf_memory_def records_ok_def types_ok_def by (metis option.distinct(1))+
    then have "i < m_next_id m"
      by blast
    then show False
      using m'(1) by simp
  qed
  moreover have "wf_memory n \<and> i < m_next_id n"
  proof (rule steps_induct [OF assms(3)])
    show "wf_memory m'"
      using wf unfolding m'(2) by (auto simp: wf_memory_def ok_upd m'(1) intro: records_ok_next_id)
  qed (use m' in \<open>auto dest: next_id_grows\<close>)
  ultimately show ?thesis
    using assms(4) by (auto simp: mint_id_def split: if_splits)
qed

section \<open>Records\<close>

text \<open>What the writes of a batch leave of a record: the last write of it, or the record before.\<close>

definition latest :: "('p store_write \<Rightarrow> (id \<times> 'a) option) \<Rightarrow> id \<Rightarrow> 'p store_write list \<Rightarrow> 'a option \<Rightarrow> 'a option" where
  "latest rec i ws old = fold (\<lambda>w v. case rec w of Some (j, x) \<Rightarrow> if j = i then Some x else v | None \<Rightarrow> v) ws old"

fun conversation_of :: "'p store_write \<Rightarrow> (id \<times> conversation) option" where
  "conversation_of (WConversation c) = Some (c_id c, c)"
| "conversation_of _ = None"

fun entry_of :: "'p store_write \<Rightarrow> (id \<times> 'p entry) option" where
  "entry_of (WEntry e) = Some (e_id e, e)"
| "entry_of _ = None"

fun task_of :: "'p store_write \<Rightarrow> (id \<times> 'p task) option" where
  "task_of (WTask t) = Some (t_id t, t)"
| "task_of _ = None"

fun submission_of :: "'p store_write \<Rightarrow> (id \<times> 'p submission) option" where
  "submission_of (WSubmission s) = Some (s_id s, s)"
| "submission_of _ = None"

lemma writes_leave:
  assumes "rfold (apply_write seq) m ws = Inr m'"
  shows "m_conversations m' i = latest conversation_of i ws (m_conversations m i) \<and>
    m_entries m' i = latest entry_of i ws (m_entries m i) \<and> m_tasks m' i = latest task_of i ws (m_tasks m i) \<and>
    m_submissions m' i = latest submission_of i ws (m_submissions m i)"
  using assms
proof (induction ws arbitrary: m)
  case (Cons w ws)
  then obtain m1 where m1: "apply_write seq m w = Inr m1" "rfold (apply_write seq) m1 ws = Inr m'"
    by (auto elim!: rbindE)
  show ?case
    using Cons.IH [OF m1(2)] m1(1) by (cases w) (auto simp: latest_def apply_fields)
qed (simp add: latest_def)

lemma latest_resolved:
  assumes "resolve_document_copies m ws = Inr ws'" and "\<And>w. is_copy_write w \<Longrightarrow> rec w = None" and "\<And>r v x. rec (WCreate r v x) = None"
  shows "latest rec i ws' old = latest rec i ws old"
proof -
  have "rmap (resolve_write ch m) ws = Inr ws' \<Longrightarrow> latest rec i ws' old = latest rec i ws old" for ch
  proof (induction ws arbitrary: ws' old)
    case (Cons w ws)
    then obtain w' us where us: "resolve_write ch m w = Inr w'" "rmap (resolve_write ch m) ws = Inr us" "ws' = w' # us"
      by (auto elim!: rbindE)
    have "rec w' = rec w"
      using us(1) assms(2,3)
      by (cases w) (auto simp: resolve_copy_def elim!: rbindE split: sum.splits option.splits if_splits)
    then show ?case
      using Cons.IH [OF us(2)] us(3) by (simp add: latest_def)
  qed (simp add: latest_def)
  then show ?thesis
    using assms(1) by (auto simp: resolve_document_copies_def split: if_splits)
qed

text \<open>
  C15: After a stored batch every read of a conversation, an entry, a task or a submission by its ID gives the
  last write of it in the batch, and what it gave before where the batch writes none.
\<close>

theorem batch_read_back:
  assumes "reachable_memory m" "commit [ws] m = (\<lparr>cr_stored = [s], cr_refused = None, cr_thrown = None\<rparr>, m')"
  shows "get_conversation m' i = Inr (latest conversation_of i ws (m_conversations m i)) \<and>
    map_option fst (case get_entry m' i of Inr e \<Rightarrow> e | Inl _ \<Rightarrow> None) = latest entry_of i ws (m_entries m i) \<and>
    get_task m' i = Inr (latest task_of i ws (m_tasks m i)) \<and>
    get_submission m' i = Inr (latest submission_of i ws (m_submissions m i))"
proof -
  have wf: "wf_memory m"
    using assms(1) by (rule wf_reachable)
  obtain p where p: "prepare_commit (m_next_seq m) ws m = Inr p"
    using assms(2) by (auto simp: commit_def split: if_splits sum.splits)
  obtain m1 where m1: "apply_once p m = Inr (p\<lparr>pc_applied := True\<rparr>, m1)" "apply_prepared p m = Inr m1" "wf_memory m1" "\<not> m_closed m1"
    using prepared_applies_once [OF wf p] by metis
  then have m': "m' = m1"
    using assms(2) p by (auto simp: commit_def split: if_splits)
  obtain m2 where m2: "rfold (apply_write (m_next_seq m)) m (pc_writes p) = Inr m2" "m_conversations m1 = m_conversations m2"
    "m_entries m1 = m_entries m2" "m_tasks m1 = m_tasks m2" "m_submissions m1 = m_submissions m2"
    using prepared_applies [OF wf p] m1(2) by auto
  have resolved: "resolve_document_copies m ws = Inr (pc_writes p)"
    using p by (rule prepared_facts)
  have "latest conversation_of i (pc_writes p) old = latest conversation_of i ws old" for old
    by (rule latest_resolved [OF resolved]; (rename_tac w, case_tac w)?) simp_all
  moreover have "latest entry_of i (pc_writes p) old = latest entry_of i ws old" for old
    by (rule latest_resolved [OF resolved]; (rename_tac w, case_tac w)?) simp_all
  moreover have "latest task_of i (pc_writes p) old = latest task_of i ws old" for old
    by (rule latest_resolved [OF resolved]; (rename_tac w, case_tac w)?) simp_all
  moreover have "latest submission_of i (pc_writes p) old = latest submission_of i ws old" for old
    by (rule latest_resolved [OF resolved]; (rename_tac w, case_tac w)?) simp_all
  moreover have "map_option fst (case get_entry m1 i of Inr e \<Rightarrow> e | Inl _ \<Rightarrow> None) = m_entries m1 i"
  proof (cases "m_entries m1 i")
    case (Some e)
    then have "m_entry_seqs m1 i \<noteq> None"
      using m1(3) unfolding wf_memory_def records_ok_def entries_ok_def by (metis option.distinct(1))
    then show ?thesis
      using Some m1(4) by (auto simp: get_entry_def when_open_def entry_with_seq_def)
  qed (use m1(4) in \<open>simp add: get_entry_def when_open_def entry_with_seq_def\<close>)
  ultimately show ?thesis
    using writes_leave [OF m2(1), of i] m2(2-5) m1(4)
    by (simp add: m' get_conversation_def get_task_def get_submission_def when_open_def)
qed

section \<open>Documents\<close>










lemma newest_base_chained:
  assumes "chained None revs" "revs \<noteq> []"
  shows "\<exists>v x deltas. newest_base (rev revs) rest = Some (v, x, deltas @ rest) \<and> (\<forall>r \<in> set deltas. \<exists>ops. fst r = Delta v ops) \<and>
    v = content_version (fst (last revs))"
  using assms
proof (induction revs arbitrary: rest rule: rev_induct)
  case (snoc r revs)
  obtain c t where r: "r = (c, t)"
    by (cases r)
  show ?case
  proof (cases c)
    case (Base v x)
    then show ?thesis
      by (intro exI [of _ v] exI [of _ x] exI [of _ "[]"]) (simp add: r)
  next
    case (Delta v ops)
    then have c: "chained None revs" "revs \<noteq> []" "content_version (fst (last revs)) = v"
      using snoc.prems(1) by (auto simp: r chained_snoc split: if_splits)
    from snoc.IH [OF c(1,2), of "(Delta v ops, t) # rest"] obtain w x deltas
      where n: "newest_base (rev revs) ((Delta v ops, t) # rest) = Some (w, x, deltas @ (Delta v ops, t) # rest)"
        "\<forall>r \<in> set deltas. \<exists>ops. fst r = Delta w ops" "w = content_version (fst (last revs))"
      by blast
    then show ?thesis
      using c(3) Delta
      by (intro exI [of _ v] exI [of _ x] exI [of _ "deltas @ [(Delta v ops, t)]"]) (auto simp: r)
  qed
qed simp

lemma chained_prefix: "chained v (xs @ ys) \<Longrightarrow> chained v xs"
  by (induction v xs rule: chained.induct) auto

lemma filter_prefix:
  assumes "sorted_wrt (<) (map snd revs)"
  shows "\<exists>ys. revs = filter (\<lambda>(_, t). t \<le> (s :: seq)) revs @ ys"
  using assms
proof (induction revs)
  case (Cons r revs)
  show ?case
  proof (cases "snd r \<le> s")
    case True
    then show ?thesis
      using Cons by (auto simp: case_prod_beta)
  next
    case False
    then have "filter (\<lambda>(_, t). t \<le> s) (r # revs) = []"
      using Cons.prems by (auto simp: filter_empty_conv)
    then show ?thesis
      by simp
  qed
qed simp

lemma revisions_at:
  assumes "revisions_ok n d" "alive_at (sd_record d) at" "at = Current \<or> \<not> current_only (sd_record d)"
    and "revs = (case at of Current \<Rightarrow> sd_revisions d | At s \<Rightarrow> filter (\<lambda>(_, t). t \<le> s) (sd_revisions d))"
  shows "chained None revs \<and> revs \<noteq> []"
proof (cases "at")
  case (At s)
  obtain ys where "sd_revisions d = filter (\<lambda>(_, t). t \<le> s) (sd_revisions d) @ ys"
    using assms(1) filter_prefix [of "sd_revisions d" s] by (auto simp: revisions_ok_def)
  then have "chained None revs"
    using assms(1,4) At chained_prefix [of None revs ys] by (simp add: revisions_ok_def)
  moreover have "hd (sd_revisions d) \<in> set revs"
    using assms At by (auto simp: revisions_ok_def case_prod_beta)
  ultimately show ?thesis
    by auto
qed (use assms in \<open>auto simp: revisions_ok_def split: option.splits\<close>)

lemma immutable_op_value: "immutable_op (rp, Some v) op = Inr (rp', t) \<Longrightarrow> t \<noteq> None"
  by (cases t) (auto simp: immutable_op_def apply_ops_def elim!: rbindE split: if_splits option.splits prod.splits)

lemma replay_deltas:
  assumes "\<forall>r \<in> set deltas. \<exists>ops. fst r = Delta v ops"
  shows "(\<exists>rp x'. rfold (replay_delta v) (rp0, Some x) deltas = Inr (rp, Some x')) \<or>
    (\<exists>e. rfold (replay_delta v) (rp0, Some x) deltas = Inl (OpsRefused e))"
  using assms
proof (induction deltas arbitrary: rp0 x)
  case (Cons r deltas)
  obtain ops where r: "fst r = Delta v ops"
    using Cons.prems by auto
  have some: "rfold immutable_op (rp, Some y) ops = Inr (rp', t) \<Longrightarrow> t \<noteq> None" for ops rp y rp' t
  proof (induction ops arbitrary: rp y)
    case (Cons op ops)
    then obtain rp1 u where "immutable_op (rp, Some y) op = Inr (rp1, u)" "rfold immutable_op (rp1, u) ops = Inr (rp', t)"
      by (auto elim!: rbindE)
    then show ?case
      using immutable_op_value Cons.IH by (cases u) blast+
  qed auto
  show ?case
  proof (cases "rfold immutable_op (rp0, Some x) ops")
    case (Inl e)
    then show ?thesis
      using r by (simp add: replay_delta_def)
  next
    case (Inr st)
    then obtain rp y where "st = (rp, Some y)"
      using some by (cases st) fastforce
    then show ?thesis
      using r Inr Cons by (simp add: replay_delta_def)
  qed
qed simp

text \<open>
  C14: A read of a document never finds its revisions broken: for a document that is not alive at the point it
  returns none, a read of the past is refused where only the current content is kept, and otherwise it fails
  only if an operation a writer stored does not apply to the value it was stored for.
\<close>

theorem documents_readable:
  assumes "reachable_memory m" "\<not> m_closed m"
  shows "case m_documents m i of
      None \<Rightarrow> get_document m i at = Inr None
    | Some d \<Rightarrow>
        if at \<noteq> Current \<and> current_only (sd_record d) then get_document m i at = Inl NoHistory
        else if \<not> alive_at (sd_record d) at then get_document m i at = Inr None
        else (\<exists>r. get_document m i at = Inr (Some r) \<and> md_record r = sd_record d) \<or> (\<exists>e. get_document m i at = Inl (OpsRefused e))"
proof (cases "m_documents m i")
  case None
  then show ?thesis
    using assms(2) by (simp add: get_document_def when_open_def materialize_def)
next
  case (Some d)
  define revs where "revs = (case at of Current \<Rightarrow> sd_revisions d | At s \<Rightarrow> filter (\<lambda>(_, t). t \<le> s) (sd_revisions d))"
  have ok: "revisions_ok (m_next_seq m) d"
    using wf_reachable [OF assms(1)] Some by (auto simp: wf_memory_def documents_ok_def documents_kept_def)
  have "(\<exists>r. materialize_revisions (sd_record d) revs = Inr r \<and> md_record r = sd_record d) \<or>
      (\<exists>e. materialize_revisions (sd_record d) revs = Inl (OpsRefused e))"
    if "alive_at (sd_record d) at" "at = Current \<or> \<not> current_only (sd_record d)"
  proof -
    have "chained None revs \<and> revs \<noteq> []"
      by (rule revisions_at [OF ok that revs_def])
    then obtain v x deltas where n: "newest_base (rev revs) [] = Some (v, x, deltas)" "\<forall>r \<in> set deltas. \<exists>ops. fst r = Delta v ops"
      using newest_base_chained [of revs "[]"] by auto
    show ?thesis
      using replay_deltas [OF n(2), of "new_replay (next_address (concat (map (content_values \<circ> fst) revs)))" x] n(1)
      by (auto simp: materialize_revisions_def)
  qed
  then show ?thesis
    using Some assms(2) by (auto simp: get_document_def when_open_def materialize_def revs_def)
qed

section \<open>A storage at work\<close>

text \<open>A batch that creates a document and a task, and one that changes both.\<close>

definition demo_document :: document_create where
  "demo_document = \<lparr>d_id = 2, d_kind = [], d_key = None, d_scope = ConversationScope 1, d_history = Some Rewindable, d_fork = None\<rparr>"

definition demo_task :: "task_status \<Rightarrow> nat task" where
  "demo_task s = \<lparr>t_id = 3, t_conversation = 1, t_kind = [], t_status = s, t_abort_requested = False, t_background = False, t_rest = 0\<rparr>"

definition demo_batch :: "nat store_write list" where
  "demo_batch = [WCreate demo_document 1 (JObj 1 []), WTask (demo_task TaskPending)]"

definition demo_change :: "nat store_write list" where
  "demo_change = [WChange 2 (Delta 1 [OSet [Key []] (JBool True)]), WTask (demo_task TaskRunning)]"

definition demo_memory :: "nat memory" where
  "demo_memory = snd (commit [demo_batch] new_memory)"

definition demo_later :: "nat memory" where
  "demo_later = snd (commit [demo_change, demo_batch] demo_memory)"

lemmas commit_eval = commit_def prepare_commit_def resolve_document_copies_def check_global_ids_def claim_id_def written_once_def
  prepare_document_actions_def action_of_def no_action_def check_document_actions_def check_action_def check_delta_def
  current_id_def action_key_def live_after_def max_safe_def apply_once_def apply_prepared_def bump_id_def apply_conversation_def
  apply_entry_def apply_task_def apply_submission_def forget_request_def note_request_def apply_action_def with_content_def
  stamped_def add_revision_def retire_document_def register_document_def move_current_def new_memory_def insert_map_id_def
  insert_sorted_def remove_sorted_def id_lower_bound_def bisect.simps Let_def current_only_def conversation_scoped_def splice_def
  record_address_key_def

lemmas demo_defs = demo_document_def demo_task_def demo_batch_def demo_change_def

lemma demo_commit:
  "commit [demo_batch] new_memory = (\<lparr>cr_stored = [1], cr_refused = None, cr_thrown = None\<rparr>, demo_memory)"
  unfolding demo_memory_def by (simp add: demo_defs commit_eval)

lemma demo_memory_eval:
  "m_next_seq demo_memory = 2" "m_next_id demo_memory = 4" "m_closed demo_memory = False"
  "m_tasks demo_memory = [3 \<mapsto> demo_task TaskPending]" "m_conversations demo_memory = Map.empty"
  "m_entries demo_memory = Map.empty" "m_submissions demo_memory = Map.empty"
  "m_documents demo_memory = [2 \<mapsto> \<lparr>sd_record = stamped 1 False demo_document, sd_revisions = [(Base 1 (JObj 1 []), 1)]\<rparr>]"
  by (simp_all add: demo_memory_def demo_defs commit_eval)

lemma demo_later_commit:
  "commit [demo_change, demo_batch] demo_memory = (\<lparr>cr_stored = [2], cr_refused = Some (IdBelongsTo TDocument), cr_thrown = None\<rparr>, demo_later)"
  unfolding demo_later_def by (simp add: demo_memory_def demo_defs commit_eval)

lemma demo_later_eval:
  "m_closed demo_later = False" "m_task_ids demo_later = [3]" "m_tasks_by_status demo_later TaskRunning = [3]"
  "m_documents demo_later = [2 \<mapsto> \<lparr>sd_record = stamped 1 False demo_document,
     sd_revisions = [(Base 1 (JObj 1 []), 1), (Delta 1 [OSet [Key []] (JBool True)], 2)]\<rparr>]"
  by (simp_all add: demo_later_def demo_memory_def demo_defs commit_eval) (simp add: numeral_2_eq_2)

lemma demo_reachable: "reachable_memory demo_memory" "memory_step\<^sup>*\<^sup>* demo_memory demo_later" "reachable_memory demo_later"
proof -
  have "memory_step new_memory demo_memory" and step: "memory_step demo_memory demo_later"
    unfolding demo_memory_def demo_later_def by (rule memory_step.committed)+
  then show "reachable_memory demo_memory"
    by (simp add: reachable_memory_def)
  show "memory_step\<^sup>*\<^sup>* demo_memory demo_later"
    using step by blast
  then show "reachable_memory demo_later"
    using \<open>reachable_memory demo_memory\<close> unfolding reachable_memory_def by simp
qed

theorem commit_stores_prefix_witness:
  "commit [demo_change] demo_memory = (\<lparr>cr_stored = [2], cr_refused = None, cr_thrown = None\<rparr>, demo_later)"
proof -
  obtain k where k: "[2] = [2 ..< 2 + k]"
    "commit (take k [demo_change, demo_batch]) demo_memory = (\<lparr>cr_stored = [2], cr_refused = None, cr_thrown = None\<rparr>, demo_later)"
    using commit_stores_prefix [OF demo_reachable(1) _ demo_later_commit] by (auto simp: demo_memory_eval simp del: upt_Suc)
  have "k = 1"
    using arg_cong [OF k(1), of length] by (simp del: upt_Suc)
  then show ?thesis
    using k(2) by simp
qed


theorem minted_ids_new_witness:
  "\<not> has_record demo_memory TTask 4 \<and> (4 :: nat) < 5"
  by (rule minted_ids_new [OF demo_reachable(1), where m' = "demo_memory\<lparr>m_next_id := 5\<rparr>" and n = "demo_memory\<lparr>m_next_id := 5\<rparr>"
      and n' = "demo_memory\<lparr>m_next_id := 6\<rparr>"])
    (simp_all add: mint_id_def demo_memory_eval max_safe_def)

theorem batch_read_back_witness:
  "get_task (snd (commit [demo_change] demo_memory)) 3 = Inr (Some (demo_task TaskRunning))"
proof -
  have "commit [demo_change] demo_memory =
      (\<lparr>cr_stored = [2], cr_refused = None, cr_thrown = None\<rparr>, snd (commit [demo_change] demo_memory))"
    by (simp add: demo_memory_def demo_defs commit_eval)
  from batch_read_back [OF demo_reachable(1) this, of 3] show ?thesis
    by (simp add: latest_def demo_memory_eval) (simp add: demo_defs)
qed


theorem documents_readable_witness:
  "(\<exists>r. get_document demo_later 2 Current = Inr (Some r) \<and> md_record r = stamped 1 False demo_document) \<or>
   (\<exists>e. get_document demo_later 2 Current = Inl (OpsRefused e))"
  using documents_readable [OF demo_reachable(3), of 2 Current] by (simp add: demo_later_eval stamped_def)

end
