(* ===== verification/MemoryScans.thy ===== *)
theory MemoryScans
  imports MemoryHistory
begin

text \<open>
  Paged scans of \<open>MemoryStorage\<close> and the loop of \<open>scanAll\<close> over them: every page continues where the one
  before it ended, so the loop ends with exactly the records asked for, each once and in order.
\<close>

section \<open>The interface of a paged scan\<close>

text \<open>
  \<open>rest\<close> is what a scan has left at a cursor; a page gives a first part of it and a cursor for the remainder,
  and a page with a cursor is not empty. \<open>scanAll\<close> is a client of that.
\<close>

locale paged =
  fixes ok :: "'q \<Rightarrow> bool"
    and scan :: "'q \<Rightarrow> cursor option \<Rightarrow> store_error + 'a page"
    and valid :: "'q \<Rightarrow> cursor option \<Rightarrow> bool"
    and rest :: "'q \<Rightarrow> cursor option \<Rightarrow> 'a list"
  assumes page: "ok q \<Longrightarrow> valid q c \<Longrightarrow> \<exists>p. scan q c = Inr p \<and>
    (case pg_next p of None \<Rightarrow> rest q c = pg_items p
     | Some d \<Rightarrow> pg_items p \<noteq> [] \<and> valid q (Some d) \<and> rest q c = pg_items p @ rest q (Some d))"
begin

lemma scan_all_rest:
  assumes "ok q" "valid q c"
  shows "scan_all (scan q) c items = Some (Inr (items @ rest q c))"
  using assms(2)
proof (induction "length (rest q c)" arbitrary: c items rule: less_induct)
  case less
  obtain p where p: "scan q c = Inr p" "case pg_next p of None \<Rightarrow> rest q c = pg_items p
     | Some d \<Rightarrow> pg_items p \<noteq> [] \<and> valid q (Some d) \<and> rest q c = pg_items p @ rest q (Some d)"
    using page [OF assms(1) less.prems] by blast
  have eq: "scan_all (scan q) c items =
      (if pg_next p = None then Some (Inr (items @ pg_items p)) else scan_all (scan q) (pg_next p) (items @ pg_items p))"
    by (subst scan_all.simps) (simp add: p(1))
  show ?case
  proof (cases "pg_next p")
    case None
    then show ?thesis
      using eq p(2) by simp
  next
    case (Some d)
    then have d: "pg_items p \<noteq> []" "valid q (Some d)" "rest q c = pg_items p @ rest q (Some d)"
      using p(2) by auto
    then show ?thesis
      using eq Some less.hyps [of "Some d" "items @ pg_items p"] by simp
  qed
qed

end

section \<open>One page\<close>

text \<open>The IDs a scan visits, in its order, from a position on.\<close>

definition ahead :: "scan_order \<Rightarrow> int option \<Rightarrow> id \<Rightarrow> bool" where
  "ahead ord after i \<longleftrightarrow>
     (case after of None \<Rightarrow> True | Some a \<Rightarrow> (case ord of Ascending \<Rightarrow> a < int i | Descending \<Rightarrow> int i < a))"

definition in_order :: "scan_order \<Rightarrow> 'a list \<Rightarrow> 'a list" where
  "in_order ord xs = (case ord of Ascending \<Rightarrow> xs | Descending \<Rightarrow> rev xs)"

lemma scan_indexes_ids:
  assumes "increasing ids"
  shows "map ((!) ids) (scan_indexes ids ord after) = filter (ahead ord after) (in_order ord ids)"
proof -
  have up: "map ((!) ids) [k..<length ids] = drop k ids" and down: "k \<le> length ids \<Longrightarrow> map ((!) ids) [0..<k] = take k ids" for k
    by (simp_all add: map_nth [symmetric] drop_map take_map nth_map_upt list_eq_iff_nth_eq)
  have ahead: "ahead ord None = (\<lambda>i. True)" "ahead Ascending (Some a) = (\<lambda>i. a < int i)" "ahead Descending (Some a) = (\<lambda>i. int i < a)" for ord a
    by (simp_all add: ahead_def fun_eq_iff)
  show ?thesis
  proof (cases ord)
    case Ascending
    have "drop (id_upper_bound ids a) ids = filter (\<lambda>i. a < int i) ids" for a
      using upper_split [of ids a, OF assms] by (simp add: id_upper_bound_def not_le)
    then show ?thesis
      using up by (cases "after") (auto simp: Ascending scan_indexes_def ahead in_order_def)
  next
    case Descending
    have "id_lower_bound ids a \<le> length ids" "take (id_lower_bound ids a) ids = filter (\<lambda>i. int i < a) ids" for a
      using lower_split [of ids a, OF assms] by (simp_all add: id_lower_bound_def)
    then show ?thesis
      using down by (cases "after") (auto simp: Descending scan_indexes_def ahead in_order_def rev_map [symmetric] rev_filter)
  qed
qed

lemma scan_loop_take:
  assumes "\<forall>k \<in> set ks. get (ids ! k) \<noteq> None" "length vs \<le> limit + 1"
  shows "scan_loop get match limit ids ks vs =
    Inr (vs @ take (limit + 1 - length vs) (filter match (map (the \<circ> get) (map ((!) ids) ks))))"
  using assms
proof (induction ks arbitrary: vs)
  case (Cons k ks)
  then obtain v where "get (ids ! k) = Some v"
    by auto
  then show ?case
    using Cons by (auto simp: Suc_diff_le less_Suc_eq_le take_Cons')
qed simp

lemma later_part:
  assumes "sorted_wrt r ys" "\<And>x y. r x y \<Longrightarrow> \<not> r y x" "0 < n" "n < length ys"
  shows "filter (r (ys ! (n - 1))) ys = drop n ys"
proof -
  have irrefl: "\<not> r x x" for x
    using assms(2) by blast
  have ys: "filter (r (ys ! (n - 1))) ys = filter (r (ys ! (n - 1))) (take n ys) @ filter (r (ys ! (n - 1))) (drop n ys)"
    by (rule filter_take_drop)
  have "filter (r (ys ! (n - 1))) (take n ys) = []"
  proof (intro filter_False ballI)
    fix y assume "y \<in> set (take n ys)"
    then obtain j where "j < n" "y = ys ! j"
      using assms(4) by (auto simp: in_set_conv_nth)
    then show "\<not> r (ys ! (n - 1)) y"
      using sorted_wrt_nth_less [OF assms(1), of j "n - 1"] assms(2,4) irrefl by (cases "j = n - 1") auto
  qed
  moreover have "filter (r (ys ! (n - 1))) (drop n ys) = drop n ys"
  proof (intro filter_True ballI)
    fix y assume "y \<in> set (drop n ys)"
    then obtain j where "n \<le> j" "j < length ys" "y = ys ! j"
      using assms(4) by (metis (no_types, lifting) add.commute in_set_conv_nth length_drop le_add1 less_diff_conv nth_drop less_imp_le)
    then show "r (ys ! (n - 1)) y"
      using sorted_wrt_nth_less [OF assms(1), of "n - 1" j] assms(3) by simp
  qed
  ultimately show ?thesis
    using ys by simp
qed

text \<open>Order texts and cursors of one's own are read back.\<close>

lemma order_text_inj: "order_text Ascending \<noteq> order_text Descending"
  by (simp add: js_def)

lemma read_order_text [simp]: "read_order (order_text ord) = Some ord"
  using order_text_inj by (cases ord) (auto simp: read_order_def)

lemma cursor_fields [simp]:
  "map_of (next_cursor i ord) (js ''after'') = Some (JNum (NInt (int i)))"
  "map_of (next_cursor i ord) (js ''order'') = Some (JStr (order_text ord))"
  by (simp_all add: next_cursor_def js_def)

lemma scan_start_next:
  assumes "scan_start order c fallback = Inr (ord, after)" "i \<le> max_safe"
  shows "scan_start order (Some (next_cursor i ord)) fallback = Inr (ord, Some (int i))"
proof -
  have "cursor_after (next_cursor i ord) = Inr (int i)" "cursor_order (next_cursor i ord) = Inr (Some ord)"
    using assms(2) by (simp_all add: cursor_after_def cursor_order_def safe_integer_def)
  moreover have "order = None \<or> map_option read_order order = Some (Some ord)"
    using assms(1)
    by (auto simp: scan_start_def Let_def elim!: rbindE split: option.splits if_splits)
  ultimately show ?thesis
    by (auto simp: scan_start_def Let_def)
qed

definition matches :: "(id \<rightharpoonup> 'a) \<Rightarrow> ('a \<Rightarrow> bool) \<Rightarrow> id list \<Rightarrow> scan_order \<Rightarrow> int option \<Rightarrow> 'a list" where
  "matches get match ids ord after = filter match (map (the \<circ> get) (filter (ahead ord after) (in_order ord ids)))"

lemma ahead_trans: "ahead ord after i \<Longrightarrow> ahead ord (Some (int i)) j \<Longrightarrow> ahead ord after j"
  by (auto simp: ahead_def split: option.splits scan_order.splits)

lemma filter_further:
  assumes "\<forall>j \<in> set xs. id_of (g j) = j \<and> (Q j \<longrightarrow> P j)"
  shows "filter match (map g (filter Q xs)) = filter (\<lambda>w. Q (id_of w)) (filter match (map g (filter P xs)))"
  using assms by (induction xs) auto

lemma matches_after:
  assumes "increasing ids" "\<forall>i \<in> set ids. \<exists>v. get i = Some v \<and> id_of v = i" "0 < n" "n < length (matches get match ids ord after)"
  shows "matches get match ids ord (Some (int (id_of (matches get match ids ord after ! (n - 1))))) =
    drop n (matches get match ids ord after)"
proof -
  let ?ms = "matches get match ids ord after"
  let ?i = "id_of (?ms ! (n - 1))"
  have ids_of: "id_of (the (get i)) = i" if "i \<in> set ids" for i
    using assms(2) that by force
  have sorted: "sorted_wrt (\<lambda>i j. ahead ord (Some (int i)) j) (in_order ord ids)"
    using assms(1) by (cases ord) (simp_all add: ahead_def in_order_def sorted_wrt_rev)
  have mem: "set (in_order ord ids) = set ids"
    by (cases ord) (simp_all add: in_order_def)
  have "?ms ! (n - 1) \<in> set ?ms"
    using assms(3,4) by (intro nth_mem) simp
  then have i: "ahead ord after ?i"
    using ids_of mem by (auto simp: matches_def)
  have "sorted_wrt (\<lambda>v w. ahead ord (Some (int (id_of v))) (id_of w)) ?ms"
    unfolding matches_def
    by (intro sorted_wrt_filter)
      (use sorted ids_of mem in \<open>auto simp: sorted_wrt_map intro!: sorted_wrt_filter elim!: sorted_wrt_mono_rel [rotated]\<close>)
  then have d: "filter (\<lambda>w. ahead ord (Some (int ?i)) (id_of w)) ?ms = drop n ?ms"
    by (rule later_part) (use assms(3,4) in \<open>auto simp: ahead_def split: scan_order.splits\<close>)
  have "matches get match ids ord (Some a) = filter (\<lambda>w. ahead ord (Some a) (id_of w)) ?ms"
    if "\<And>j. ahead ord (Some a) j \<Longrightarrow> ahead ord after j" for a
    unfolding matches_def by (rule filter_further) (use ids_of mem that in auto)
  from this [of "int ?i"] show ?thesis
    using d ahead_trans [OF i] by simp
qed

lemma scan_ids_page:
  assumes "increasing ids" "\<forall>i \<in> set ids. \<exists>v. get i = Some v \<and> id_of v = i \<and> i \<le> max_safe" "0 < limit"
    and "scan_start order c Ascending = Inr (ord, after)"
  shows "\<exists>p. scan_ids id_of get match ids order limit c = Inr p \<and>
    (case pg_next p of None \<Rightarrow> matches get match ids ord after = pg_items p
     | Some d \<Rightarrow> pg_items p \<noteq> [] \<and> (\<exists>i. scan_start order (Some d) Ascending = Inr (ord, Some (int i)) \<and>
         matches get match ids ord after = pg_items p @ matches get match ids ord (Some (int i))))"
proof -
  let ?ms = "matches get match ids ord after"
  have "\<forall>k \<in> set (scan_indexes ids ord after). get (ids ! k) \<noteq> None"
  proof
    fix k assume "k \<in> set (scan_indexes ids ord after)"
    then have "ids ! k \<in> set (map ((!) ids) (scan_indexes ids ord after))"
      by simp
    then have "ids ! k \<in> set ids"
      unfolding scan_indexes_ids [OF assms(1)] by (cases ord) (auto simp: in_order_def)
    then show "get (ids ! k) \<noteq> None"
      using assms(2) by force
  qed
  then have scan: "scan_ids id_of get match ids order limit c = page_of id_of (take (limit + 1) ?ms) limit ord"
    using scan_loop_take [of "scan_indexes ids ord after" get ids "[]" limit match] assms(4)
    by (simp add: scan_ids_def scan_indexes_ids [OF assms(1)] matches_def)
  show ?thesis
  proof (cases "length ?ms \<le> limit")
    case True
    then show ?thesis
      using scan by (auto simp: page_of_def Let_def)
  next
    case False
    let ?i = "id_of (?ms ! (limit - 1))"
    have "?ms \<noteq> []"
      using False by auto
    then have last: "take limit ?ms \<noteq> []" "last (take limit ?ms) = ?ms ! (limit - 1)"
      using False assms(3) last_conv_nth [of "take limit ?ms"] by (auto simp: min_def)
    have "?ms ! (limit - 1) \<in> set ?ms"
      using False by (intro nth_mem) simp
    then have "?i \<le> max_safe"
      using assms(2) by (cases ord) (fastforce simp: matches_def in_order_def)+
    then have "scan_start order (Some (next_cursor ?i ord)) Ascending = Inr (ord, Some (int ?i))"
      by (rule scan_start_next [OF assms(4)])
    moreover have "?ms = take limit ?ms @ matches get match ids ord (Some (int ?i))"
      using matches_after [of ids get id_of limit match ord "after"] assms(1-3) False by fastforce
    moreover have "scan_ids id_of get match ids order limit c =
        Inr \<lparr>pg_items = take limit ?ms, pg_next = Some (next_cursor ?i ord)\<rparr>"
      using scan False last by (simp add: page_of_def Let_def min_def)
    ultimately show ?thesis
      using last(1) by auto
  qed
qed

section \<open>Scans of tasks, submissions and conversations\<close>

definition left_at ::
  "(id \<rightharpoonup> 'a) \<Rightarrow> ('a \<Rightarrow> bool) \<Rightarrow> id list \<Rightarrow> jsstr option \<Rightarrow> cursor option \<Rightarrow> 'a list" where
  "left_at get match ids order c =
     (case scan_start order c Ascending of Inl _ \<Rightarrow> [] | Inr (ord, after) \<Rightarrow> matches get match ids ord after)"

definition starts :: "jsstr option \<Rightarrow> cursor option \<Rightarrow> bool" where
  "starts order c \<longleftrightarrow> (\<exists>ord after. scan_start order c Ascending = Inr (ord, after))"

lemma scan_ids_left:
  assumes "increasing ids" "\<forall>i \<in> set ids. \<exists>v. get i = Some v \<and> id_of v = i \<and> i \<le> max_safe" "0 < limit" "starts order c"
  shows "\<exists>p. scan_ids id_of get match ids order limit c = Inr p \<and>
    (case pg_next p of None \<Rightarrow> left_at get match ids order c = pg_items p
     | Some d \<Rightarrow> pg_items p \<noteq> [] \<and> starts order (Some d) \<and>
         left_at get match ids order c = pg_items p @ left_at get match ids order (Some d))"
proof -
  obtain ord "after" where start: "scan_start order c Ascending = Inr (ord, after)"
    using assms(4) by (auto simp: starts_def)
  from scan_ids_page [OF assms(1-3) start, of match] show ?thesis
    by (fastforce simp: left_at_def starts_def start split: option.splits)
qed

text \<open>A scan of an open storage in a state its operations can reach, whose IDs are safe integers.\<close>

definition scannable :: "'p memory \<Rightarrow> nat \<Rightarrow> bool" where
  "scannable m limit \<longleftrightarrow> wf_memory m \<and> \<not> m_closed m \<and> 0 < limit \<and> (\<forall>i. m_types m i \<noteq> None \<longrightarrow> i \<le> max_safe)"

lemma scannable_ids:
  assumes "scannable m limit"
  shows "m_tasks m i = Some t \<Longrightarrow> t_id t = i \<and> i \<le> max_safe"
    and "m_submissions m i = Some s \<Longrightarrow> s_id s = i \<and> i \<le> max_safe"
    and "m_conversations m i = Some c \<Longrightarrow> c_id c = i \<and> i \<le> max_safe"
proof -
  have "has_record m u i \<Longrightarrow> i \<le> max_safe" for u
    using assms unfolding scannable_def wf_memory_def records_ok_def types_ok_def by (metis option.distinct(1))
  from this [of TTask] this [of TSubmission] this [of TConversation]
  have safe: "m_tasks m i \<noteq> None \<Longrightarrow> i \<le> max_safe" "m_submissions m i \<noteq> None \<Longrightarrow> i \<le> max_safe"
      "m_conversations m i \<noteq> None \<Longrightarrow> i \<le> max_safe"
    by simp_all
  have "tasks_ok m" "submissions_ok m" "conversations_ok m"
    using assms by (simp_all add: scannable_def wf_memory_def records_ok_def)
  then show "m_tasks m i = Some t \<Longrightarrow> t_id t = i \<and> i \<le> max_safe"
    and "m_submissions m i = Some s \<Longrightarrow> s_id s = i \<and> i \<le> max_safe"
    and "m_conversations m i = Some c \<Longrightarrow> c_id c = i \<and> i \<le> max_safe"
    using safe by (simp_all add: tasks_ok_def submissions_ok_def conversations_ok_def)
qed

definition task_index :: "'p memory \<Rightarrow> task_query \<Rightarrow> id list" where
  "task_index m q = (case tq_status q of None \<Rightarrow> m_task_ids m | Some s \<Rightarrow> m_tasks_by_status m s)"

definition submission_index :: "'p memory \<Rightarrow> submission_query \<Rightarrow> id list" where
  "submission_index m q = (case sq_status q of None \<Rightarrow> m_submission_ids m | Some s \<Rightarrow> m_submissions_by_status m s)"

lemma task_index_lists:
  "wf_memory m \<Longrightarrow> lists (task_index m q) (\<lambda>i. \<exists>t. m_tasks m i = Some t \<and> asked (tq_status q) (t_status t))"
  unfolding wf_memory_def records_ok_def tasks_ok_def task_index_def asked_def
  by (cases "tq_status q") (simp_all add: lists_def)

lemma submission_index_lists:
  "wf_memory m \<Longrightarrow> lists (submission_index m q) (\<lambda>i. \<exists>s. m_submissions m i = Some s \<and> asked (sq_status q) (s_status s))"
  unfolding wf_memory_def records_ok_def submissions_ok_def submission_index_def asked_def
  by (cases "sq_status q") (simp_all add: lists_def)

lemma conversation_index_lists:
  "wf_memory m \<Longrightarrow> lists (conversation_index m q) (\<lambda>i. \<exists>c. m_conversations m i = Some c \<and>
     (case cq_owner_task q of Some t \<Rightarrow> map_option snd (c_owner c) = Some t
      | None \<Rightarrow> (case cq_owner_conversation q of Some k \<Rightarrow> map_option fst (c_owner c) = Some k | None \<Rightarrow> True)))"
  unfolding wf_memory_def records_ok_def conversations_ok_def conversation_index_def
  by (cases "cq_owner_task q"; cases "cq_owner_conversation q") (simp_all add: lists_def ids_at_def)

interpretation task_pages: paged "\<lambda>(m, q, limit). scannable m limit" "\<lambda>(m, q, limit). scan_tasks m q limit"
  "\<lambda>(m, q, limit). starts (tq_order q)" "\<lambda>(m, q, limit). left_at (m_tasks m) (task_match q) (task_index m q) (tq_order q)"
proof (unfold_locales, clarsimp simp only: prod.case)
  fix m :: "'p memory" and q :: task_query and limit c
  assume ok: "scannable m limit" and c: "starts (tq_order q) c"
  then have index: "lists (task_index m q) (\<lambda>i. \<exists>t. m_tasks m i = Some t \<and> asked (tq_status q) (t_status t))"
    by (simp add: scannable_def task_index_lists)
  have ids: "\<forall>i \<in> set (task_index m q). \<exists>v. m_tasks m i = Some v \<and> t_id v = i \<and> i \<le> max_safe"
    using index scannable_ids(1) [OF ok] by (auto simp: lists_def)
  show "\<exists>p. scan_tasks m q limit c = Inr p \<and>
      (case pg_next p of None \<Rightarrow> left_at (m_tasks m) (task_match q) (task_index m q) (tq_order q) c = pg_items p
       | Some d \<Rightarrow> pg_items p \<noteq> [] \<and> starts (tq_order q) (Some d) \<and> left_at (m_tasks m) (task_match q) (task_index m q) (tq_order q) c =
           pg_items p @ left_at (m_tasks m) (task_match q) (task_index m q) (tq_order q) (Some d))"
    using scan_ids_left [OF _ ids _ c, of limit "(task_match q)"] index ok
    by (simp add: scan_tasks_def when_open_def task_index_def [symmetric] lists_def scannable_def)
qed

interpretation submission_pages: paged "\<lambda>(m, q, limit). scannable m limit" "\<lambda>(m, q, limit). scan_submissions m q limit"
  "\<lambda>(m, q, limit). starts (sq_order q)" "\<lambda>(m, q, limit). left_at (m_submissions m) (\<lambda>s. asked (sq_conversation q) (s_conversation s)) (submission_index m q) (sq_order q)"
proof (unfold_locales, clarsimp simp only: prod.case)
  fix m :: "'p memory" and q :: submission_query and limit c
  assume ok: "scannable m limit" and c: "starts (sq_order q) c"
  then have index: "lists (submission_index m q) (\<lambda>i. \<exists>s. m_submissions m i = Some s \<and> asked (sq_status q) (s_status s))"
    by (simp add: scannable_def submission_index_lists)
  have ids: "\<forall>i \<in> set (submission_index m q). \<exists>v. m_submissions m i = Some v \<and> s_id v = i \<and> i \<le> max_safe"
    using index scannable_ids(2) [OF ok] by (auto simp: lists_def)
  show "\<exists>p. scan_submissions m q limit c = Inr p \<and>
      (case pg_next p of None \<Rightarrow> left_at (m_submissions m) (\<lambda>s. asked (sq_conversation q) (s_conversation s)) (submission_index m q) (sq_order q) c = pg_items p
       | Some d \<Rightarrow> pg_items p \<noteq> [] \<and> starts (sq_order q) (Some d) \<and> left_at (m_submissions m) (\<lambda>s. asked (sq_conversation q) (s_conversation s)) (submission_index m q) (sq_order q) c =
           pg_items p @ left_at (m_submissions m) (\<lambda>s. asked (sq_conversation q) (s_conversation s)) (submission_index m q) (sq_order q) (Some d))"
    using scan_ids_left [OF _ ids _ c, of limit "(\<lambda>s. asked (sq_conversation q) (s_conversation s))"] index ok
    by (simp add: scan_submissions_def when_open_def submission_index_def [symmetric] lists_def scannable_def)
qed

interpretation conversation_pages: paged "\<lambda>(m, q, limit). scannable m limit" "\<lambda>(m, q, limit). scan_conversations m q limit"
  "\<lambda>(m, q, limit). starts (cq_order q)" "\<lambda>(m, q, limit). left_at (m_conversations m) (conversation_match q) (conversation_index m q) (cq_order q)"
proof (unfold_locales, clarsimp simp only: prod.case)
  fix m :: "'p memory" and q :: conversation_query and limit c
  assume ok: "scannable m limit" and c: "starts (cq_order q) c"
  then have index: "lists (conversation_index m q) (\<lambda>i. \<exists>c. m_conversations m i = Some c \<and>
     (case cq_owner_task q of Some t \<Rightarrow> map_option snd (c_owner c) = Some t
      | None \<Rightarrow> (case cq_owner_conversation q of Some k \<Rightarrow> map_option fst (c_owner c) = Some k | None \<Rightarrow> True)))"
    by (simp add: scannable_def conversation_index_lists)
  have ids: "\<forall>i \<in> set (conversation_index m q). \<exists>v. m_conversations m i = Some v \<and> c_id v = i \<and> i \<le> max_safe"
    using index scannable_ids(3) [OF ok] by (auto simp: lists_def)
  show "\<exists>p. scan_conversations m q limit c = Inr p \<and>
      (case pg_next p of None \<Rightarrow> left_at (m_conversations m) (conversation_match q) (conversation_index m q) (cq_order q) c = pg_items p
       | Some d \<Rightarrow> pg_items p \<noteq> [] \<and> starts (cq_order q) (Some d) \<and> left_at (m_conversations m) (conversation_match q) (conversation_index m q) (cq_order q) c =
           pg_items p @ left_at (m_conversations m) (conversation_match q) (conversation_index m q) (cq_order q) (Some d))"
    using scan_ids_left [OF _ ids _ c, of limit "(conversation_match q)"] index ok
    by (simp add: scan_conversations_def when_open_def  lists_def scannable_def)
qed

text \<open>What a scan from its start has left is everything it asks for, in its order.\<close>

lemma left_at_start:
  assumes "lists ids P" "\<forall>i \<in> set ids. \<exists>v. get i = Some v \<and> id_of v = i" "scan_start order None Ascending = Inr (ord, None)"
  shows "increasing (map id_of (in_order ord (left_at get match ids order None))) \<and>
    set (left_at get match ids order None) = {v. \<exists>i. P i \<and> get i = Some v \<and> match v}"
proof -
  have ids: "the (get i) = v \<longleftrightarrow> get i = Some v" "id_of (the (get i)) = i" if "i \<in> set ids" for i v
    using assms(2) that by force+
  have l: "left_at get match ids order None = filter match (map (the \<circ> get) (in_order ord ids))"
    using assms(3) by (simp add: left_at_def matches_def ahead_def)
  have o: "in_order ord (filter match (map (the \<circ> get) (in_order ord ids))) = filter match (map (the \<circ> get) ids)"
    by (cases ord) (simp_all add: in_order_def rev_filter rev_map)
  have "sorted_wrt (\<lambda>v w. id_of v < id_of w) (map (the \<circ> get) ids)"
    using assms(1) ids(2) by (auto simp: lists_def sorted_wrt_map elim!: sorted_wrt_mono_rel [rotated])
  then have "increasing (map id_of (filter match (map (the \<circ> get) ids)))"
    by (simp add: sorted_wrt_map sorted_wrt_filter)
  moreover have "set (in_order ord ids) = set ids"
    by (cases ord) (simp_all add: in_order_def)
  then have "set (filter match (map (the \<circ> get) (in_order ord ids))) = {v. \<exists>i \<in> set ids. the (get i) = v \<and> match v}"
    by auto
  moreover have "\<dots> = {v. \<exists>i. P i \<and> get i = Some v \<and> match v}"
    using assms(1) ids(1) unfolding lists_def by blast
  ultimately show ?thesis
    unfolding l o by simp
qed

text \<open>
  C13: Paging ends and misses nothing: reading every page of a scan of tasks, with any page size and in either
  order, gives in the order of their IDs exactly the stored tasks the query asks for, each once.
\<close>

theorem scan_all_tasks:
  assumes "reachable_memory m" "\<not> m_closed m" "0 < limit" "\<forall>i. m_types m i \<noteq> None \<longrightarrow> i \<le> max_safe"
    and "tq_order q = None \<and> ord = Ascending \<or> tq_order q = Some (order_text ord)"
  shows "\<exists>ts. scan_all (scan_tasks m q limit) None [] = Some (Inr ts) \<and> increasing (map t_id (in_order ord ts)) \<and>
    set ts = {t. \<exists>i. m_tasks m i = Some t \<and> task_match q t \<and> asked (tq_status q) (t_status t)}"
proof -
  have ok: "scannable m limit"
    using assms(1-4) wf_reachable by (simp add: scannable_def)
  have start: "scan_start (tq_order q) None Ascending = Inr (ord, None)"
    using assms(5) by (auto simp: scan_start_def)
  have index: "lists (task_index m q) (\<lambda>i. \<exists>t. m_tasks m i = Some t \<and> asked (tq_status q) (t_status t))"
    using ok by (simp add: scannable_def task_index_lists)
  have ids: "\<forall>i \<in> set (task_index m q). \<exists>v. m_tasks m i = Some v \<and> t_id v = i"
    using index scannable_ids(1) [OF ok] by (auto simp: lists_def)
  show ?thesis
    using task_pages.scan_all_rest [of "(m, q, limit)" None "[]"] ok left_at_start [OF index ids start, of "task_match q"] start
    by (auto simp: starts_def)
qed

definition demo_query :: task_query where
  "demo_query = \<lparr>tq_conversation = None, tq_kind = None, tq_status = Some TaskRunning, tq_abort_requested = None,
     tq_background = None, tq_order = Some (order_text Descending)\<rparr>"

theorem scan_all_tasks_witness:
  "\<exists>ts. scan_all (scan_tasks demo_later demo_query 1) None [] = Some (Inr ts) \<and>
     increasing (map t_id (in_order Descending ts)) \<and> set ts = {demo_task TaskRunning}"
proof -
  have tasks: "m_tasks demo_later = [3 \<mapsto> demo_task TaskRunning]" and types: "m_types demo_later = [2 \<mapsto> TDocument, 3 \<mapsto> TTask]"
    by (simp_all add: demo_later_def demo_memory_def demo_defs commit_eval)
  have "{t. \<exists>i. m_tasks demo_later i = Some t \<and> task_match demo_query t \<and> asked (tq_status demo_query) (t_status t)} = {demo_task TaskRunning}"
    by (auto simp: tasks demo_query_def task_match_def asked_def demo_task_def split: if_splits)
  moreover have "\<forall>i. m_types demo_later i \<noteq> None \<longrightarrow> i \<le> max_safe"
    by (simp add: types max_safe_def)
  moreover have "tq_order demo_query = Some (order_text Descending)"
    by (simp add: demo_query_def)
  ultimately show ?thesis
    using scan_all_tasks [OF demo_reachable(3), of 1 demo_query Descending] demo_later_eval(1) by simp
qed

end
