(* ===== verification/MemoryVisible.thy ===== *)
theory MemoryVisible
  imports MemoryScans
begin

text \<open>
  The entries a conversation sees through the conversations it was forked from: reading them newest first
  and oldest first agree, both end on any chain of forks, and the latest head marker is the newest of them
  with a head.
\<close>

section \<open>One conversation\<close>

definition between :: "int option \<Rightarrow> int option \<Rightarrow> id \<Rightarrow> bool" where
  "between lower upper i \<longleftrightarrow> within_upper upper (int i) \<and> \<not> below_lower lower (int i)"

lemma upper_index_split:
  assumes "increasing ids"
  shows "upper_index ids upper \<le> length ids" "take (upper_index ids upper) ids = filter (\<lambda>i. within_upper upper (int i)) ids"
  using bisect_split [OF assms, of "\<lambda>i. within_upper upper (int i)"]
  by (auto simp: upper_index_def within_upper_def split: option.splits)

lemma lower_index_split:
  assumes "increasing ids"
  shows "drop (lower_index ids lower) ids = filter (\<lambda>i. \<not> below_lower lower (int i)) ids"
  using bisect_split [OF assms, of "\<lambda>i. below_lower lower (int i)"]
  by (auto simp: lower_index_def below_lower_def split: option.splits)

lemma walk_down_filter:
  assumes "increasing ids" "k \<le> length ids"
  shows "walk_down ids lower k = rev (filter (\<lambda>i. \<not> below_lower lower (int i)) (take k ids))"
  using assms(2)
proof (induction k)
  case (Suc k)
  then have take: "take (Suc k) ids = take k ids @ [ids ! k]"
    by (simp add: take_Suc_conv_app_nth)
  have "below_lower lower (int (ids ! j))" if "below_lower lower (int (ids ! k))" "j < k" for j
    using that increasing_nth [OF assms(1), of j k] Suc.prems by (auto simp: below_lower_def split: option.splits)
  then have "filter (\<lambda>i. \<not> below_lower lower (int i)) (take k ids) = []" if "below_lower lower (int (ids ! k))"
    using that Suc.prems by (auto simp: filter_empty_conv in_set_conv_nth)
  then show ?case
    using Suc by (simp add: take)
qed simp

lemma walk_up_filter:
  assumes "increasing ids"
  shows "walk_up ids upper = filter (\<lambda>i. within_upper upper (int i)) ids"
  using assms
proof (induction ids)
  case (Cons i ids)
  have "filter (\<lambda>i. within_upper upper (int i)) ids = []" if "\<not> within_upper upper (int i)"
    using that Cons.prems by (fastforce simp: filter_empty_conv within_upper_def split: option.splits)
  then show ?case
    using Cons by simp
qed simp

lemma walks_agree:
  assumes "increasing (entry_ids_of m c)"
  shows "walk_down (entry_ids_of m c) lower (upper_index (entry_ids_of m c) upper) = rev (filter (between lower upper) (entry_ids_of m c))"
    and "segment_ids m lower (c, upper) = filter (between lower upper) (entry_ids_of m c)"
proof -
  have f: "filter (\<lambda>i. \<not> below_lower lower (int i)) (filter (\<lambda>i. within_upper upper (int i)) (entry_ids_of m c))
      = filter (between lower upper) (entry_ids_of m c)"
    "filter (\<lambda>i. within_upper upper (int i)) (filter (\<lambda>i. \<not> below_lower lower (int i)) (entry_ids_of m c))
      = filter (between lower upper) (entry_ids_of m c)"
    unfolding filter_filter between_def [abs_def] by (rule filter_cong; auto)+
  show "walk_down (entry_ids_of m c) lower (upper_index (entry_ids_of m c) upper) = rev (filter (between lower upper) (entry_ids_of m c))"
    using walk_down_filter [OF assms upper_index_split(1) [OF assms]] by (simp only: upper_index_split(2) [OF assms] f(1))
  show "segment_ids m lower (c, upper) = filter (between lower upper) (entry_ids_of m c)"
    using walk_up_filter [OF sorted_wrt_drop [OF assms], of "lower_index (entry_ids_of m c) lower" upper]
    by (simp only: segment_ids_def Let_def fst_conv snd_conv lower_index_split [OF assms] f(2))
qed

section \<open>A chain of forks\<close>

text \<open>Every conversation was forked from one that is stored, with a lower ID.\<close>

definition forks_ok :: "'p memory \<Rightarrow> bool" where
  "forks_ok m \<longleftrightarrow> (\<forall>c r p. m_conversations m c = Some r \<and> c_parent r = Some p \<longrightarrow> fst p < c \<and> m_conversations m (fst p) \<noteq> None)"

lemma entry_ids_lists: "wf_memory m \<Longrightarrow> lists (entry_ids_of m c) (\<lambda>i. \<exists>e. m_entries m i = Some e \<and> e_conversation e = c)"
  unfolding wf_memory_def records_ok_def entries_ok_def by (simp add: entry_ids_of_def ids_at_def)

lemma chain_walks:
  assumes wf: "wf_memory m" and forks: "forks_ok m"
  shows "m_conversations m c \<noteq> None \<Longrightarrow> \<exists>segs. (\<forall>acc. segments_loop m c lower upper acc = Some (Inr (acc @ segs))) \<and>
    (\<forall>n. visible_loop m c lower upper n = Some (Inr (take n (concat (map (\<lambda>s. rev (segment_ids m lower s)) segs)))))"
proof (induction c arbitrary: upper rule: less_induct)
  case (less c)
  then obtain r where r: "m_conversations m c = Some r"
    by blast
  have inc: "increasing (entry_ids_of m c)"
    using entry_ids_lists [OF wf] by (simp add: lists_def)
  define ids where "ids = rev (segment_ids m lower (c, upper))"
  have walk: "walk_down (entry_ids_of m c) lower (upper_index (entry_ids_of m c) upper) = ids"
    unfolding ids_def walks_agree [OF inc] ..
  have seg: "segments_loop m c lower upper acc =
      (case c_parent r of None \<Rightarrow> Some (Inr (acc @ [(c, upper)]))
       | Some p \<Rightarrow> if below_lower lower (min_upper upper (int (snd p))) then Some (Inr (acc @ [(c, upper)]))
           else segments_loop m (fst p) lower (Some (min_upper upper (int (snd p)))) (acc @ [(c, upper)]))" for acc
    by (subst segments_loop.simps) (simp add: r)
  have vis: "visible_loop m c lower upper n =
      (if n \<le> length ids then Some (Inr (take n ids))
       else case c_parent r of None \<Rightarrow> Some (Inr ids)
       | Some p \<Rightarrow> if below_lower lower (min_upper upper (int (snd p))) then Some (Inr ids)
           else Option.bind (visible_loop m (fst p) lower (Some (min_upper upper (int (snd p)))) (n - length ids))
             (\<lambda>rest. Some (rbind rest (\<lambda>more. Inr (ids @ more)))))" for n
    by (subst visible_loop.simps) (simp add: r walk Let_def)
  show ?case
  proof (cases "\<exists>p. c_parent r = Some p \<and> \<not> below_lower lower (min_upper upper (int (snd p)))")
    case False
    then have "segments_loop m c lower upper acc = Some (Inr (acc @ [(c, upper)]))" for acc
      by (auto simp: seg split: option.splits)
    moreover have "visible_loop m c lower upper n = Some (Inr (take n ids))" for n
      using False by (auto simp: vis split: option.splits)
    ultimately show ?thesis
      by (intro exI [of _ "[(c, upper)]"]) (simp add: ids_def)
  next
    case True
    then obtain p where p: "c_parent r = Some p" "\<not> below_lower lower (min_upper upper (int (snd p)))"
      by blast
    then have "fst p < c" "m_conversations m (fst p) \<noteq> None"
      using forks r unfolding forks_ok_def by blast+
    from less.IH [OF this, of "Some (min_upper upper (int (snd p)))"] obtain segs where segs:
      "\<And>acc. segments_loop m (fst p) lower (Some (min_upper upper (int (snd p)))) acc = Some (Inr (acc @ segs))"
      "\<And>n. visible_loop m (fst p) lower (Some (min_upper upper (int (snd p)))) n =
         Some (Inr (take n (concat (map (\<lambda>s. rev (segment_ids m lower s)) segs))))"
      by blast
    show ?thesis
      by (intro exI [of _ "(c, upper) # segs"]) (auto simp: seg vis p segs ids_def [symmetric])
  qed
qed

text \<open>
  Reading the entries a conversation sees oldest first gives exactly those of reading them newest first,
  in reverse: both walks end whatever the chain of forks is, and a reader that stops after some entries has
  got the newest ones.
\<close>

theorem visible_entries_agree:
  assumes "reachable_memory m" "forks_ok m" "m_conversations m c \<noteq> None"
  shows "\<exists>ids. visible_entries_ascending m c lower upper = Some (Inr (rev ids)) \<and>
    (\<forall>n. visible_entries m c lower upper n = Some (Inr (take n ids)))"
proof -
  from chain_walks [OF wf_reachable [OF assms(1)] assms(2,3)] obtain segs where segs:
    "segments_loop m c lower upper [] = Some (Inr segs)"
    "\<And>n. visible_loop m c lower upper n = Some (Inr (take n (concat (map (\<lambda>s. rev (segment_ids m lower s)) segs))))"
    by fastforce
  have "concat (map (segment_ids m lower) (rev segs)) = rev (concat (map (\<lambda>s. rev (segment_ids m lower s)) segs))"
    by (simp add: rev_concat rev_map comp_def)
  then show ?thesis
    using assms(3) segs by (auto simp: visible_entries_ascending_def visible_entries_def)
qed

section \<open>The latest head marker\<close>

definition has_head :: "'p memory \<Rightarrow> id \<Rightarrow> bool" where
  "has_head m i \<longleftrightarrow> (\<exists>e. m_entries m i = Some e \<and> e_head e \<noteq> None)"

lemma head_ids_filter:
  assumes "wf_memory m"
  shows "ids_at (m_head_ids m) c = filter (has_head m) (entry_ids_of m c)"
proof (rule lists_unique)
  let ?P = "\<lambda>i. \<exists>e. m_entries m i = Some e \<and> e_conversation e = c \<and> e_head e \<noteq> None"
  have "entries_ok (m_next_seq m) m"
    using assms by (simp add: wf_memory_def records_ok_def)
  then have l: "lists (ids_at (m_head_ids m) c)
      (\<lambda>i. \<exists>e. m_entries m i = Some e \<and> (if e_head e = None then None else Some (e_conversation e)) = Some c)"
    unfolding entries_ok_def by blast
  show "lists (ids_at (m_head_ids m) c) ?P"
    by (rule id_lists.holds_ext [OF l]) auto
  show "lists (filter (has_head m) (entry_ids_of m c)) ?P"
    using entry_ids_lists [OF assms, of c] by (auto simp: lists_def has_head_def sorted_wrt_filter)
qed

lemma find_rev_last: "filter P xs \<noteq> [] \<Longrightarrow> find P (rev xs @ ys) = Some (last (filter P xs))"
  by (induction xs rule: rev_induct) auto

lemma find_rev_none: "filter P xs = [] \<Longrightarrow> find P (rev xs @ ys) = find P ys"
  by (induction xs rule: rev_induct) (auto split: if_splits)

lemma chain_head:
  assumes wf: "wf_memory m" and forks: "forks_ok m"
  shows "m_conversations m c \<noteq> None \<Longrightarrow> \<exists>ids. (\<forall>n. visible_loop m c None upper n = Some (Inr (take n ids))) \<and>
    head_marker_loop m c upper = Some (Inr (map_option (\<lambda>i. the (m_entries m i)) (find (has_head m) ids)))"
proof (induction c arbitrary: upper rule: less_induct)
  case (less c)
  then obtain r where r: "m_conversations m c = Some r"
    by blast
  have inc: "increasing (entry_ids_of m c)"
    using entry_ids_lists [OF wf] by (simp add: lists_def)
  define own where "own = filter (between None upper) (entry_ids_of m c)"
  define heads where "heads = ids_at (m_head_ids m) c"
  have incs: "increasing heads"
    using inc by (simp add: heads_def head_ids_filter [OF wf] sorted_wrt_filter)
  have walk: "walk_down (entry_ids_of m c) None (upper_index (entry_ids_of m c) upper) = rev own"
    unfolding own_def by (rule walks_agree [OF inc])
  have vis: "visible_loop m c None upper n =
      (if n \<le> length own then Some (Inr (take n (rev own)))
       else case c_parent r of None \<Rightarrow> Some (Inr (rev own))
       | Some p \<Rightarrow> Option.bind (visible_loop m (fst p) None (Some (min_upper upper (int (snd p)))) (n - length own))
             (\<lambda>rest. Some (rbind rest (\<lambda>more. Inr (rev own @ more)))))" for n
    by (subst visible_loop.simps) (simp add: r walk Let_def below_lower_def split: option.split)
  have up: "take (upper_index heads upper) heads = filter (has_head m) own" "upper_index heads upper \<le> length heads"
    using upper_index_split [OF incs, of upper]
    by (auto simp: heads_def head_ids_filter [OF wf] own_def between_def [abs_def] below_lower_def filter_filter conj_commute)
  have head: "head_marker_loop m c upper =
      (if 0 < upper_index heads upper
       then Some (case m_entries m (heads ! (upper_index heads upper - 1)) of None \<Rightarrow> Inl NoSuchRecord | Some e \<Rightarrow> Inr (Some e))
       else case c_parent r of None \<Rightarrow> Some (Inr None)
         | Some p \<Rightarrow> head_marker_loop m (fst p) (Some (min_upper upper (int (snd p)))))"
    by (subst head_marker_loop.simps) (simp add: r Let_def heads_def ids_at_def)
  have found: "head_marker_loop m c upper = Some (Inr (map_option (\<lambda>i. the (m_entries m i)) (find (has_head m) (rev own @ ys))))"
    if "0 < upper_index heads upper" for ys
  proof -
    let ?k = "upper_index heads upper"
    have "heads \<noteq> []"
      using that up(2) by auto
    then have "filter (has_head m) own \<noteq> []" "last (filter (has_head m) own) = heads ! (?k - 1)"
      using that up(2) last_conv_nth [of "take ?k heads"] unfolding up(1) [symmetric] by (auto simp: min_def)
    moreover from this have "has_head m (heads ! (?k - 1))"
      by (metis (mono_tags, lifting) last_in_set mem_Collect_eq set_filter)
    ultimately show ?thesis
      using that by (auto simp: head find_rev_last has_head_def)
  qed
  have none: "find (has_head m) (rev own @ ys) = find (has_head m) ys" if "\<not> 0 < upper_index heads upper" for ys
    using that up(1) by (intro find_rev_none) simp
  show ?case
  proof (cases "c_parent r")
    case None
    have "visible_loop m c None upper n = Some (Inr (take n (rev own)))" for n
      by (simp add: vis None)
    moreover have "head_marker_loop m c upper = Some (Inr (map_option (\<lambda>i. the (m_entries m i)) (find (has_head m) (rev own))))"
      using found [of "[]"] none [of "[]"] by (cases "0 < upper_index heads upper") (auto simp: head None)
    ultimately show ?thesis
      by blast
  next
    case (Some p)
    then have "fst p < c" "m_conversations m (fst p) \<noteq> None"
      using forks r unfolding forks_ok_def by blast+
    from less.IH [OF this, of "Some (min_upper upper (int (snd p)))"] obtain ids where ids:
      "\<And>n. visible_loop m (fst p) None (Some (min_upper upper (int (snd p)))) n = Some (Inr (take n ids))"
      "head_marker_loop m (fst p) (Some (min_upper upper (int (snd p)))) =
         Some (Inr (map_option (\<lambda>i. the (m_entries m i)) (find (has_head m) ids)))"
      by blast
    have "visible_loop m c None upper n = Some (Inr (take n (rev own @ ids)))" for n
      by (simp add: vis Some ids)
    moreover have "head_marker_loop m c upper =
        Some (Inr (map_option (\<lambda>i. the (m_entries m i)) (find (has_head m) (rev own @ ids))))"
      using found [of ids] none [of ids] by (cases "0 < upper_index heads upper") (auto simp: head Some ids)
    ultimately show ?thesis
      by blast
  qed
qed

text \<open>
  The latest head marker at or before an entry, looked up in the index of entries with a head, is the newest
  entry with a head among those the conversation sees up to that entry.
\<close>

theorem latest_head_is_newest:
  assumes "reachable_memory m" "\<not> m_closed m" "forks_ok m" "m_conversations m c \<noteq> None"
  shows "\<exists>ids. (\<forall>n. visible_entries m c None (map_option int at) n = Some (Inr (take n ids))) \<and>
    find_latest_head_marker m c at = Some (Inr (map_option (\<lambda>i. the (m_entries m i)) (find (has_head m) ids)))"
  using chain_head [OF wf_reachable [OF assms(1)] assms(3,4), of "map_option int at"] assms(2,4)
  by (simp add: visible_entries_def find_latest_head_marker_def)

section \<open>A fork\<close>

text \<open>Conversation 2 with entries 3 and 4, and its fork 5 at 3 with entry 6; 3 has a head.\<close>

definition demo_entry :: "id \<Rightarrow> id \<Rightarrow> id option \<Rightarrow> nat store_write" where
  "demo_entry i c h = WEntry \<lparr>e_id = i, e_conversation = c, e_head = h, e_rest = 0\<rparr>"

definition demo_fork :: "nat memory" where
  "demo_fork = snd (commit
     [[WConversation \<lparr>c_id = 2, c_parent = None, c_owner = None\<rparr>, demo_entry 3 2 (Some 3), demo_entry 4 2 None],
      [WConversation \<lparr>c_id = 5, c_parent = Some (2, 3), c_owner = None\<rparr>, demo_entry 6 5 None]] new_memory)"

lemma demo_fork_eval:
  "m_closed demo_fork = False" "m_entries demo_fork 3 = Some \<lparr>e_id = 3, e_conversation = 2, e_head = Some 3, e_rest = 0\<rparr>"
  "m_entries demo_fork 6 = Some \<lparr>e_id = 6, e_conversation = 5, e_head = None, e_rest = 0\<rparr>"
  "m_conversations demo_fork = [2 \<mapsto> \<lparr>c_id = 2, c_parent = None, c_owner = None\<rparr>, 5 \<mapsto> \<lparr>c_id = 5, c_parent = Some (2, 3), c_owner = None\<rparr>]"
  "m_entry_ids demo_fork = [2 \<mapsto> [3, 4], 5 \<mapsto> [6]]" "m_head_ids demo_fork = [2 \<mapsto> [3]]"
  by (simp_all add: demo_fork_def demo_entry_def commit_eval)

lemma demo_fork_ok: "reachable_memory demo_fork" "forks_ok demo_fork"
proof -
  have "memory_step new_memory demo_fork"
    unfolding demo_fork_def by (rule memory_step.committed)
  then show "reachable_memory demo_fork"
    by (simp add: reachable_memory_def)
  show "forks_ok demo_fork"
    by (auto simp: forks_ok_def demo_fork_eval split: if_splits)
qed

theorem visible_entries_agree_witness:
  "\<exists>ids. visible_entries_ascending demo_fork 5 None None = Some (Inr (rev ids)) \<and> take 2 ids = [6, 3]"
proof -
  obtain ids where ids: "visible_entries_ascending demo_fork 5 None None = Some (Inr (rev ids))"
    "visible_entries demo_fork 5 None None 2 = Some (Inr (take 2 ids))"
    using visible_entries_agree [OF demo_fork_ok, of 5 None None] by (auto simp: demo_fork_eval)
  have "visible_entries demo_fork 5 None None 2 = Some (Inr [6, 3])"
    by (simp add: visible_entries_def demo_fork_eval visible_loop.simps entry_ids_of_def upper_index_def bisect.simps
        within_upper_def below_lower_def min_upper_def Let_def)
  then show ?thesis
    using ids by auto
qed

theorem latest_head_is_newest_witness:
  "\<exists>ids. visible_entries demo_fork 5 None (Some 6) 9 = Some (Inr (take 9 ids)) \<and>
    find_latest_head_marker demo_fork 5 (Some 6) = Some (Inr (map_option (\<lambda>i. the (m_entries demo_fork i)) (find (has_head demo_fork) ids)))"
  using latest_head_is_newest [OF demo_fork_ok(1) _ demo_fork_ok(2), of 5 "Some 6"] by (auto simp: demo_fork_eval)

end
