(* ===== verification/EditTool.thy ===== *)
theory EditTool
  imports Js
begin

text \<open>
  The edit tool of the coding agent (\<open>packages/coding-agent/src/core/tools/edit-diff.ts\<close>): the exact-text
  replacements of a batch are located in the LF-normalized content, checked as a whole and applied to the
  raw content, whose other characters stay as they are. Messages of errors are not modelled.
\<close>

section \<open>Line endings\<close>

abbreviation cr :: "16 word" where "cr \<equiv> 13"
abbreviation lf :: "16 word" where "lf \<equiv> 10"

text \<open>\<open>normalizeToLF\<close>: \<open>\r\n\<close> and then every \<open>\r\<close> left becomes \<open>\n\<close>.\<close>

fun crlf_to_lf :: "jsstr \<Rightarrow> jsstr" where
  "crlf_to_lf (c # d # s) = (if c = cr \<and> d = lf then lf # crlf_to_lf s else c # crlf_to_lf (d # s))"
| "crlf_to_lf s = s"

definition normalize_to_lf :: "jsstr \<Rightarrow> jsstr" where
  "normalize_to_lf s = map (\<lambda>c. if c = cr then lf else c) (crlf_to_lf s)"

text \<open>\<open>splitBom\<close> of \<open>utils/text.ts\<close>.\<close>

definition bom :: "16 word" where
  "bom = 0xFEFF"

definition split_bom :: "jsstr \<Rightarrow> jsstr \<times> jsstr" where
  "split_bom s = (if s \<noteq> [] \<and> hd s = bom then ([bom], tl s) else ([], s))"

text \<open>The matches of \<open>/\r\n|\r|\n/g\<close>.\<close>

fun line_breaks :: "jsstr \<Rightarrow> jsstr list" where
  "line_breaks [] = []"
| "line_breaks (c # s) =
     (if c = cr then (case s of d # t \<Rightarrow> if d = lf then [cr, lf] # line_breaks t else [cr] # line_breaks s | [] \<Rightarrow> [[cr]])
      else if c = lf then [lf] # line_breaks s else line_breaks s)"

definition with_ending :: "jsstr \<Rightarrow> jsstr \<Rightarrow> jsstr" where
  "with_ending ending s = concat (map (\<lambda>c. if c = lf then ending else [c]) s)"

section \<open>Occurrences\<close>

text \<open>The characters \<open>\s\<close> of a regular expression matches.\<close>

definition is_space :: "16 word \<Rightarrow> bool" where
  "is_space c \<longleftrightarrow> 9 \<le> c \<and> c \<le> 13 \<or> c = 32 \<or> c = 0xA0 \<or> c = 0x1680 \<or> 0x2000 \<le> c \<and> c \<le> 0x200A \<or>
     c = 0x2028 \<or> c = 0x2029 \<or> c = 0x202F \<or> c = 0x205F \<or> c = 0x3000 \<or> c = 0xFEFF"

text \<open>\<open>/^[^\S\n]+\S/\<close>.\<close>

definition starts_indented :: "jsstr \<Rightarrow> bool" where
  "starts_indented s \<longleftrightarrow>
     (let rest = dropWhile (\<lambda>c. is_space c \<and> c \<noteq> lf) s in length rest < length s \<and> rest \<noteq> [] \<and> \<not> is_space (hd rest))"

text \<open>\<open>content.lastIndexOf("\n", offset - 1) + 1\<close>, for an offset above 0.\<close>

fun line_start :: "jsstr \<Rightarrow> nat \<Rightarrow> nat" where
  "line_start content 0 = 0"
| "line_start content (Suc n) = (if n < length content \<and> content ! n = lf then Suc n else line_start content n)"

record occurrences =
  oc_count :: nat
  oc_offsets :: "nat list"
  oc_preferred_count :: nat
  oc_preferred_offsets :: "nat list"
  oc_at_boundary :: bool

definition push_offset :: "nat \<Rightarrow> nat list \<Rightarrow> nat list" where
  "push_offset offset offsets = (if length offsets < 5 then offsets @ [offset] else offsets)"

definition note_occurrence :: "jsstr \<Rightarrow> bool \<Rightarrow> nat \<Rightarrow> occurrences \<Rightarrow> occurrences" where
  "note_occurrence content prefer offset o1 =
     (let o2 = o1\<lparr>oc_count := oc_count o1 + 1, oc_offsets := push_offset offset (oc_offsets o1)\<rparr>
      in if \<not> prefer then o2
         else let start = line_start content offset;
                  o3 = (if offset = start then o2\<lparr>oc_at_boundary := True\<rparr> else o2)
           in if offset = start \<or> list_ex (\<lambda>c. \<not> is_space c) (slice start offset content)
              then o3\<lparr>oc_preferred_count := oc_preferred_count o3 + 1,
                      oc_preferred_offsets := push_offset offset (oc_preferred_offsets o3)\<rparr>
              else o3)"

function find_loop :: "jsstr \<Rightarrow> jsstr \<Rightarrow> bool \<Rightarrow> nat \<Rightarrow> occurrences \<Rightarrow> occurrences" where
  "find_loop content text prefer start o1 =
     (case (if text = [] then None else index_from text content start) of
        None \<Rightarrow> o1
      | Some offset \<Rightarrow> find_loop content text prefer (offset + 1) (note_occurrence content prefer offset o1))"
  by pat_completeness auto
termination
proof (relation "measure (\<lambda>(content, _, _, start, _). length content + 1 - start)", goal_cases)
  case (2 content pat b start o1 offset)
  then have i: "index_from pat content start = Some offset" "pat \<noteq> []"
    by (auto split: if_splits)
  then have "start \<le> length content"
    by (auto simp: index_from_def split: if_splits)
  then show ?case
    using index_from_bounds [OF i(1)] by auto
qed simp

declare find_loop.simps [simp del]

definition no_occurrences :: occurrences where
  "no_occurrences = \<lparr>oc_count = 0, oc_offsets = [], oc_preferred_count = 0, oc_preferred_offsets = [], oc_at_boundary = False\<rparr>"

definition find_all_occurrences :: "jsstr \<Rightarrow> jsstr \<Rightarrow> bool \<Rightarrow> nat \<times> nat list" where
  "find_all_occurrences content text prefer =
     (if text = [] then (0, [])
      else let r = find_loop content text prefer 0 no_occurrences
        in if oc_at_boundary r then (oc_preferred_count r, oc_preferred_offsets r) else (oc_count r, oc_offsets r))"

section \<open>Line numbers\<close>

fun line_starts_from :: "nat \<Rightarrow> jsstr \<Rightarrow> nat list" where
  "line_starts_from i [] = []"
| "line_starts_from i (c # s) = (if c = lf then (i + 1) # line_starts_from (i + 1) s else line_starts_from (i + 1) s)"

definition get_line_starts :: "jsstr \<Rightarrow> nat list" where
  "get_line_starts content = 0 # line_starts_from 0 content"

function line_search :: "nat list \<Rightarrow> nat \<Rightarrow> nat \<Rightarrow> nat \<Rightarrow> nat" where
  "line_search starts offset low high =
     (if low + 1 < high
      then let middle = (low + high) div 2
        in if starts ! middle \<le> offset then line_search starts offset middle high else line_search starts offset low middle
      else low)"
  by pat_completeness auto
termination
  by (relation "measure (\<lambda>(_, _, low, high). high - low)") auto

declare line_search.simps [simp del]

definition get_line_number :: "nat \<Rightarrow> nat list \<Rightarrow> nat" where
  "get_line_number offset starts = line_search starts offset 0 (length starts) + 1"

section \<open>Locating the edits of a batch\<close>

record edit =
  ed_old :: jsstr
  ed_new :: jsstr

record matched_edit =
  me_index :: nat
  me_at :: nat
  me_length :: nat
  me_new :: jsstr

datatype edit_issue =
    EmptyOldText nat
  | MatchAmbiguous nat "nat list" nat   \<comment> \<open>edit, candidate lines, number of matches\<close>
  | MatchNotFound nat
  | EditOverlap nat nat

record match_error =
  er_issues :: "edit_issue list"
  er_count :: int
  er_total :: nat

definition find_edit_match :: "jsstr \<Rightarrow> jsstr \<Rightarrow> nat \<Rightarrow> nat list \<Rightarrow> edit_issue + matched_edit" where
  "find_edit_match content old index starts =
     (case find_all_occurrences content old (starts_indented old) of (count, offsets) \<Rightarrow>
        if 1 < count then Inl (MatchAmbiguous index (map (\<lambda>offset. get_line_number offset starts) offsets) count)
        else if count = 1 then Inr \<lparr>me_index = index, me_at = hd offsets, me_length = length old, me_new = []\<rparr>
        else Inl (MatchNotFound index))"

record match_state =
  ms_matched :: "matched_edit list"
  ms_issues :: "edit_issue list"
  ms_count :: int

definition add_issue :: "edit_issue \<Rightarrow> match_state \<Rightarrow> match_state" where
  "add_issue issue s =
     s\<lparr>ms_count := ms_count s + 1, ms_issues := (if length (ms_issues s) < 20 then ms_issues s @ [issue] else ms_issues s)\<rparr>"

definition match_step :: "jsstr \<Rightarrow> nat list \<Rightarrow> nat \<times> edit \<Rightarrow> match_state \<Rightarrow> match_state" where
  "match_step content starts ie s =
     (if ed_old (snd ie) = [] then add_issue (EmptyOldText (fst ie)) s
      else case find_edit_match content (ed_old (snd ie)) (fst ie) starts of
        Inl issue \<Rightarrow> add_issue issue s
      | Inr m \<Rightarrow> s\<lparr>ms_matched := ms_matched s @ [m\<lparr>me_new := ed_new (snd ie)\<rparr>]\<rparr>)"

definition me_end :: "matched_edit \<Rightarrow> nat" where
  "me_end m = me_at m + me_length m"

function skip_ended :: "nat list \<Rightarrow> nat \<Rightarrow> nat \<Rightarrow> nat" where
  "skip_ended ends at ended = (if ended < length ends \<and> ends ! ended \<le> at then skip_ended ends at (ended + 1) else ended)"
  by pat_completeness auto
termination
  by (relation "measure (\<lambda>(ends, _, ended). length ends - ended)") auto

declare skip_ended.simps [simp del]

fun overlap_issues :: "matched_edit list \<Rightarrow> matched_edit \<Rightarrow> edit_issue list \<Rightarrow> edit_issue list" where
  "overlap_issues [] current issues = issues"
| "overlap_issues (p # previous) current issues =
     (if 20 \<le> length issues then issues
      else if me_end p \<le> me_at current then overlap_issues previous current issues
      else overlap_issues previous current (issues @ [EditOverlap (me_index p) (me_index current)]))"

definition overlap_step :: "matched_edit list \<Rightarrow> nat list \<Rightarrow> nat \<Rightarrow> nat \<times> edit_issue list \<times> int \<Rightarrow> nat \<times> edit_issue list \<times> int" where
  "overlap_step matched ends i s =
     (case s of (ended, issues, count) \<Rightarrow>
        let current = matched ! i; ended = skip_ended ends (me_at current) ended; conflicts = int i - int ended;
            count = count + conflicts
        in if conflicts = 0 \<or> 20 \<le> length issues then (ended, issues, count)
           else (ended, overlap_issues (take i matched) current issues, count))"

definition normalize_edit :: "edit \<Rightarrow> edit" where
  "normalize_edit e = \<lparr>ed_old = normalize_to_lf (ed_old e), ed_new = normalize_to_lf (ed_new e)\<rparr>"

definition match_edits :: "jsstr \<Rightarrow> edit list \<Rightarrow> match_error + matched_edit list" where
  "match_edits content edits =
     (let edits = map normalize_edit edits;
          s = fold (match_step content (get_line_starts content)) (zip [0..<length edits] edits)
                \<lparr>ms_matched = [], ms_issues = [], ms_count = 0\<rparr>;
          matched = sort_key me_at (ms_matched s);
          ends = sort (map me_end matched)
      in case fold (overlap_step matched ends) [0..<length matched] (0, ms_issues s, ms_count s) of (_, issues, count) \<Rightarrow>
        if 0 < count then Inl \<lparr>er_issues = issues, er_count = count, er_total = length edits\<rparr> else Inr matched)"

section \<open>Applying the edits\<close>

definition apply_replacements :: "jsstr \<Rightarrow> matched_edit list \<Rightarrow> jsstr" where
  "apply_replacements content ms =
     foldr (\<lambda>m result. take (me_at m) result @ me_new m @ drop (me_end m) result) ms content"

definition apply_edits_to_normalized :: "jsstr \<Rightarrow> edit list \<Rightarrow> match_error + jsstr" where
  "apply_edits_to_normalized content edits = rbind (match_edits content edits) (\<lambda>ms. Inr (apply_replacements content ms))"

text \<open>\<open>toRawOffset\<close>, from the raw and normalized offsets it stopped at.\<close>

fun raw_steps :: "jsstr \<Rightarrow> nat \<Rightarrow> nat \<Rightarrow> nat" where
  "raw_steps content 0 raw = raw"
| "raw_steps content (Suc n) raw =
     raw_steps content n
       (raw + (if raw + 1 < length content \<and> content ! raw = cr \<and> content ! (raw + 1) = lf then 2 else 1))"

definition to_raw_offset :: "jsstr \<Rightarrow> nat \<Rightarrow> nat \<times> nat \<Rightarrow> nat \<times> nat" where
  "to_raw_offset content target p =
     (case p of (raw, at) \<Rightarrow> (raw_steps content (target - at) raw, max at target))"

datatype edit_status = Applied | Unchanged

record edit_report =
  rp_index :: nat
  rp_start_line :: nat
  rp_end_line :: nat
  rp_status :: edit_status

record raw_state =
  rs_offset :: "nat \<times> nat"
  rs_copied :: nat
  rs_output :: jsstr
  rs_reports :: "edit_report list"

definition line_ending_at :: "jsstr \<Rightarrow> nat \<Rightarrow> jsstr" where
  "line_ending_at content start =
     (case line_breaks (drop start content) of
        b # _ \<Rightarrow> b
      | [] \<Rightarrow> (case line_breaks (take start content) of [] \<Rightarrow> [lf] | bs \<Rightarrow> last bs))"

definition raw_step :: "jsstr \<Rightarrow> jsstr \<Rightarrow> nat list \<Rightarrow> matched_edit \<Rightarrow> raw_state \<Rightarrow> raw_state" where
  "raw_step content base starts m s =
     (let p = to_raw_offset content (me_at m) (rs_offset s); start = fst p;
          p = to_raw_offset content (me_end m) p; stop = fst p;
          original = slice start stop content;
          new = (if me_new m = slice (me_at m) (me_end m) base then original
                 else with_ending (line_ending_at content start) (me_new m))
      in \<lparr>rs_offset = p, rs_copied = stop, rs_output = rs_output s @ slice (rs_copied s) start content @ new,
          rs_reports = rs_reports s @ [\<lparr>rp_index = me_index m, rp_start_line = get_line_number (me_at m) starts,
            rp_end_line = get_line_number (me_end m - 1) starts,
            rp_status = (if new = original then Unchanged else Applied)\<rparr>]\<rparr>)"

record edit_result =
  rs_base :: jsstr
  rs_new :: jsstr
  rs_final :: jsstr
  rs_applied :: nat
  rs_edits :: "edit_report list"

definition apply_edits_to_content :: "jsstr \<Rightarrow> edit list \<Rightarrow> match_error + edit_result" where
  "apply_edits_to_content raw edits =
     (case split_bom raw of (mark, content) \<Rightarrow>
        let base = normalize_to_lf content
        in rbind (match_edits base edits) (\<lambda>ms.
             let s = fold (raw_step content base (get_line_starts base)) ms
                       \<lparr>rs_offset = (0, 0), rs_copied = 0, rs_output = mark, rs_reports = []\<rparr>;
                 final = rs_output s @ drop (rs_copied s) content
             in Inr \<lparr>rs_base = base, rs_new = normalize_to_lf (snd (split_bom final)), rs_final = final,
                     rs_applied = length (filter (\<lambda>r. rp_status r = Applied) (rs_reports s)),
                     rs_edits = sort_key rp_index (rs_reports s)\<rparr>))"

end
