(* ===== verification/EditMatch.thy ===== *)
theory EditMatch
  imports EditTool "HOL-Library.Multiset"
begin

text \<open>
  What locating a batch of edits gives: where the search finds a text, when an edit is placed, and that
  the batch is accepted exactly if every edit has one place and no two places overlap.
\<close>

section \<open>The search\<close>

definition occurs_at :: "jsstr \<Rightarrow> jsstr \<Rightarrow> nat \<Rightarrow> bool" where
  "occurs_at content pat i \<longleftrightarrow> i + length pat \<le> length content \<and> slice i (i + length pat) content = pat"

definition occurrences_of :: "jsstr \<Rightarrow> jsstr \<Rightarrow> nat list" where
  "occurrences_of content pat = filter (occurs_at content pat) [0..<Suc (length content)]"

text \<open>A place at the start of a line, or behind text of its line.\<close>

definition preferred :: "jsstr \<Rightarrow> nat \<Rightarrow> bool" where
  "preferred content i \<longleftrightarrow> i = line_start content i \<or> list_ex (\<lambda>c. \<not> is_space c) (slice (line_start content i) i content)"

definition candidates :: "jsstr \<Rightarrow> jsstr \<Rightarrow> bool \<Rightarrow> nat list" where
  "candidates content pat prefer_lines =
     (let ps = occurrences_of content pat
      in if prefer_lines \<and> list_ex (\<lambda>i. i = line_start content i) ps then filter (preferred content) ps else ps)"

lemma occurs_at_iff: "pat \<noteq> [] \<Longrightarrow> occurs_at content pat i \<longleftrightarrow> take (length pat) (drop i content) = pat"
proof (cases "i + length pat \<le> length content")
  case False
  then have "length (take (length pat) (drop i content)) < length pat" if "pat \<noteq> []"
    using that False by (cases pat) auto
  then show "pat \<noteq> [] \<Longrightarrow> ?thesis"
    using False by (auto simp: occurs_at_def)
qed (simp add: occurs_at_def slice_def)

lemma index_in_scan:
  assumes "pat \<noteq> []" and "i \<le> length content"
  shows "filter (occurs_at content pat) [i..<Suc (length content)] =
    (case index_in pat (drop i content) i of None \<Rightarrow> []
     | Some k \<Rightarrow> k # filter (occurs_at content pat) [Suc k..<Suc (length content)])"
  using assms(2)
proof (induction rule: inc_induct)
  case base
  then show ?case
    using assms(1) by (simp add: occurs_at_iff)
next
  case (step i)
  have d: "drop i content = content ! i # drop (Suc i) content"
    using step.hyps by (simp add: Cons_nth_drop_Suc)
  have u: "[i..<Suc (length content)] = i # [Suc i..<Suc (length content)]"
    using step.hyps by (simp add: upt_conv_Cons)
  show ?case
    using step.IH by (simp only: u filter.simps occurs_at_iff [OF assms(1)] d index_in.simps) simp
qed

lemma index_from_scan:
  assumes "pat \<noteq> []"
  shows "filter (occurs_at content pat) [i..<Suc (length content)] =
    (case index_from pat content i of None \<Rightarrow> []
     | Some k \<Rightarrow> k # filter (occurs_at content pat) [Suc k..<Suc (length content)])"
  using assms index_in_scan [OF assms] by (simp add: index_from_def)

lemma find_loop_fold:
  "pat \<noteq> [] \<Longrightarrow> find_loop content pat b i r =
     fold (note_occurrence content b) (filter (occurs_at content pat) [i..<Suc (length content)]) r"
proof (induction content pat b i r rule: find_loop.induct)
  case (1 content pat b i r)
  show ?case
    by (subst find_loop.simps) (use 1 in \<open>simp add: index_from_scan split: option.split del: upt.simps\<close>)
qed

lemma push_offset_take: "push_offset x (take 5 xs) = take 5 (xs @ [x])"
  by (simp add: push_offset_def)

definition occurrences_in :: "jsstr \<Rightarrow> bool \<Rightarrow> nat list \<Rightarrow> occurrences" where
  "occurrences_in content b ps =
     \<lparr>oc_count = length ps, oc_offsets = take 5 ps,
      oc_preferred_count = (if b then length (filter (preferred content) ps) else 0),
      oc_preferred_offsets = (if b then take 5 (filter (preferred content) ps) else []),
      oc_at_boundary = (b \<and> list_ex (\<lambda>i. i = line_start content i) ps)\<rparr>"

lemma note_occurrence_in: "note_occurrence content b i (occurrences_in content b ps) = occurrences_in content b (ps @ [i])"
  by (simp add: note_occurrence_def occurrences_in_def preferred_def push_offset_take Let_def)

lemma note_occurrences: "fold (note_occurrence content b) qs (occurrences_in content b ps) = occurrences_in content b (ps @ qs)"
  by (induction qs arbitrary: ps) (simp_all add: note_occurrence_in)

lemma no_occurrences_in: "no_occurrences = occurrences_in content b []"
  by (cases b) (simp_all add: no_occurrences_def occurrences_in_def)

lemma find_all_occurrences_candidates:
  assumes "pat \<noteq> []"
  shows "find_all_occurrences content pat b = (length (candidates content pat b), take 5 (candidates content pat b))"
proof -
  have "find_loop content pat b 0 no_occurrences = occurrences_in content b (occurrences_of content pat)"
    using note_occurrences [of content b "occurrences_of content pat" "[]"] find_loop_fold [OF assms, of content b 0]
    by (simp add: no_occurrences_in [of content b] occurrences_of_def del: upt.simps)
  then show ?thesis
    using assms by (simp add: find_all_occurrences_def candidates_def occurrences_in_def Let_def)
qed

lemma candidates_occur: "i \<in> set (candidates content pat b) \<Longrightarrow> occurs_at content pat i"
  by (auto simp: candidates_def Let_def occurrences_of_def split: if_splits)

section \<open>Places of the edits\<close>

definition place_of :: "jsstr \<Rightarrow> nat \<times> edit \<Rightarrow> matched_edit option" where
  "place_of content ie =
     (if ed_old (snd ie) = [] then None
      else case candidates content (ed_old (snd ie)) (starts_indented (ed_old (snd ie))) of
        [i] \<Rightarrow> Some \<lparr>me_index = fst ie, me_at = i, me_length = length (ed_old (snd ie)), me_new = ed_new (snd ie)\<rparr>
      | _ \<Rightarrow> None)"

lemma match_step_place:
  "match_step content starts ie s =
     (case place_of content ie of
        Some m \<Rightarrow> s\<lparr>ms_matched := ms_matched s @ [m]\<rparr>
      | None \<Rightarrow> add_issue (if ed_old (snd ie) = [] then EmptyOldText (fst ie)
          else projl (find_edit_match content (ed_old (snd ie)) (fst ie) starts)) s)"
  by (auto simp: match_step_def place_of_def find_edit_match_def find_all_occurrences_candidates split: list.split)

definition placed :: "jsstr \<Rightarrow> (nat \<times> edit) list \<Rightarrow> matched_edit list" where
  "placed content ies = List.map_filter (place_of content) ies"

definition unplaced :: "jsstr \<Rightarrow> (nat \<times> edit) list \<Rightarrow> nat" where
  "unplaced content ies = length (filter (\<lambda>ie. place_of content ie = None) ies)"

lemma match_steps:
  assumes "int (length (ms_issues s)) = min 20 (ms_count s)"
  shows "ms_matched (fold (match_step content starts) ies s) = ms_matched s @ placed content ies \<and>
    ms_count (fold (match_step content starts) ies s) = ms_count s + int (unplaced content ies) \<and>
    int (length (ms_issues (fold (match_step content starts) ies s))) = min 20 (ms_count s + int (unplaced content ies))"
  using assms
proof (induction ies arbitrary: s)
  case Nil
  then show ?case
    by (simp add: placed_def unplaced_def map_filter_simps)
next
  case (Cons ie ies)
  let ?t = "match_step content starts ie s"
  have "int (length (ms_issues ?t)) = min 20 (ms_count ?t)"
    using Cons.prems by (simp add: match_step_place add_issue_def split: option.split)
  from Cons.IH [OF this] show ?case
    by (cases "place_of content ie") (simp_all add: match_step_place add_issue_def placed_def unplaced_def map_filter_simps)
qed

section \<open>Overlaps\<close>

text \<open>How many of the edits before the \<open>i\<close>-th end behind its start.\<close>

definition overlaps :: "matched_edit list \<Rightarrow> nat \<Rightarrow> nat" where
  "overlaps ms i = length (filter (\<lambda>p. me_at (ms ! i) < me_end p) (take i ms))"

definition overlapping_pairs :: "matched_edit list \<Rightarrow> nat" where
  "overlapping_pairs ms = sum_list (map (overlaps ms) [0..<length ms])"

definition ended_by :: "matched_edit list \<Rightarrow> nat \<Rightarrow> nat" where
  "ended_by ms pos = length (filter (\<lambda>p. me_end p \<le> pos) ms)"

lemma sorted_below: "sorted xs \<Longrightarrow> k < length xs \<Longrightarrow> xs ! k \<le> a \<longleftrightarrow> k < length (filter (\<lambda>x. x \<le> (a :: nat)) xs)"
proof (induction xs arbitrary: k)
  case (Cons x xs)
  then show ?case
    by (cases k) (auto simp: filter_empty_conv dest: order_trans nth_mem)
qed simp

lemma skip_ended_count:
  "sorted ends \<Longrightarrow> ended \<le> length (filter (\<lambda>e. e \<le> pos) ends) \<Longrightarrow>
     skip_ended ends pos ended = length (filter (\<lambda>e. e \<le> pos) ends)"
proof (induction ends pos ended rule: skip_ended.induct)
  case (1 ends pos ended)
  show ?case
  proof (cases "ended < length ends")
    case True
    then show ?thesis
      using 1 sorted_below [of ends ended pos] by (subst skip_ended.simps) (auto simp: Suc_le_eq)
  next
    case False
    then have "length (filter (\<lambda>e. e \<le> pos) ends) \<le> ended"
      by (meson length_filter_le not_le order_trans)
    then show ?thesis
      using 1 False by (subst skip_ended.simps) simp
  qed
qed

lemma ended_by_ends: "length (filter (\<lambda>e. e \<le> pos) (sort (map me_end ms))) = ended_by ms pos"
proof -
  have "length (filter (\<lambda>e. e \<le> pos) (sort (map me_end ms))) = size (filter_mset (\<lambda>e. e \<le> pos) (mset (map me_end ms)))"
    by (metis mset_filter mset_sort size_mset)
  also have "\<dots> = length (filter (\<lambda>e. e \<le> pos) (map me_end ms))"
    by (metis mset_filter size_mset)
  finally show ?thesis
    by (simp add: ended_by_def filter_map o_def)
qed

lemma filter_partition: "length (filter P xs) + length (filter (\<lambda>x. \<not> P x) xs) = length xs"
  by (induction xs) auto

lemma ended_by_overlaps:
  assumes "sorted (map me_at ms)" and "\<forall>m \<in> set ms. 0 < me_length m" and "i < length ms"
  shows "ended_by ms (me_at (ms ! i)) + overlaps ms i = i"
proof -
  have "me_at (ms ! i) \<le> me_at m" if "m \<in> set (drop i ms)" for m
    using that assms(1,3) by (auto simp: in_set_conv_nth sorted_iff_nth_mono)
  then have "filter (\<lambda>p. me_end p \<le> me_at (ms ! i)) (drop i ms) = []"
    using assms(2) by (fastforce simp: filter_empty_conv me_end_def dest: in_set_dropD)
  then have "ended_by ms (me_at (ms ! i)) = length (filter (\<lambda>p. me_end p \<le> me_at (ms ! i)) (take i ms))"
    unfolding ended_by_def by (metis append_Nil2 append_take_drop_id filter_append)
  then show ?thesis
    using filter_partition [of "\<lambda>p. me_end p \<le> me_at (ms ! i)" "take i ms"] assms(3)
    by (simp add: overlaps_def not_le)
qed

lemma ended_by_mono: "pos \<le> pos' \<Longrightarrow> ended_by ms pos \<le> ended_by ms pos'"
  by (induction ms) (auto simp: ended_by_def)

lemma overlap_issues_length:
  "length issues \<le> 20 \<Longrightarrow> length (overlap_issues ps m issues) =
     min 20 (length issues + length (filter (\<lambda>p. me_at m < me_end p) ps))"
  by (induction ps m issues rule: overlap_issues.induct) (auto simp: not_le)

text \<open>The state of the loop after the first \<open>i\<close> edits.\<close>

lemma overlap_steps:
  assumes sorted: "sorted (map me_at ms)" and pos: "\<forall>m \<in> set ms. 0 < me_length m"
    and bounded: "int (length issues) = min 20 n"
  shows "i \<le> length ms \<Longrightarrow>
    (case fold (overlap_step ms (sort (map me_end ms))) [0..<i] (0, issues, n) of (ended, issues', n') \<Rightarrow>
       ended = (if i = 0 then 0 else ended_by ms (me_at (ms ! (i - 1)))) \<and>
       n' = n + int (sum_list (map (overlaps ms) [0..<i])) \<and> int (length issues') = min 20 n')"
proof (induction i)
  case 0
  then show ?case
    using bounded by simp
next
  case (Suc i)
  obtain ended issues' n' where s:
    "fold (overlap_step ms (sort (map me_end ms))) [0..<i] (0, issues, n) = (ended, issues', n')"
    by (metis prod_cases3)
  have h: "ended = (if i = 0 then 0 else ended_by ms (me_at (ms ! (i - 1))))"
    "n' = n + int (sum_list (map (overlaps ms) [0..<i]))" "int (length issues') = min 20 n'"
    using Suc s by auto
  have "me_at (ms ! (i - 1)) \<le> me_at (ms ! i)"
    using sorted Suc.prems by (simp add: sorted_iff_nth_mono)
  then have "ended \<le> ended_by ms (me_at (ms ! i))"
    using h(1) ended_by_mono by simp
  then have e: "skip_ended (sort (map me_end ms)) (me_at (ms ! i)) ended = ended_by ms (me_at (ms ! i))"
    by (simp add: skip_ended_count ended_by_ends)
  have c: "int i - int (ended_by ms (me_at (ms ! i))) = int (overlaps ms i)"
    using ended_by_overlaps [OF sorted pos] Suc.prems by (metis Suc_le_lessD add_diff_cancel_left' of_nat_add)
  have l: "length (overlap_issues (take i ms) (ms ! i) issues') = min 20 (length issues' + overlaps ms i)"
    using h(3) by (simp add: overlap_issues_length overlaps_def)
  have "fold (overlap_step ms (sort (map me_end ms))) [0..<Suc i] (0, issues, n) =
      overlap_step ms (sort (map me_end ms)) i (ended, issues', n')"
    by (simp add: s)
  also have "\<dots> = (ended_by ms (me_at (ms ! i)),
      if overlaps ms i = 0 \<or> 20 \<le> length issues' then issues' else overlap_issues (take i ms) (ms ! i) issues',
      n' + int (overlaps ms i))"
    by (simp add: overlap_step_def Let_def e c del: right_minus_eq)
  finally show ?case
    using h l by (auto simp: min_def split: if_splits)
qed

lemma no_overlapping_pairs: "overlapping_pairs ms = 0 \<longleftrightarrow> sorted_wrt (\<lambda>p q. me_end p \<le> me_at q) ms"
proof -
  have "overlaps ms i = 0 \<longleftrightarrow> (\<forall>k<i. me_end (ms ! k) \<le> me_at (ms ! i))" if "i < length ms" for i
    using that by (auto simp: overlaps_def filter_empty_conv all_set_conv_all_nth not_less)
  then show ?thesis
    by (auto simp: overlapping_pairs_def sorted_wrt_iff_nth_less)
qed

section \<open>The batch\<close>

text \<open>The edits of a batch with their indices, and their places in the order of the content.\<close>

definition numbered :: "edit list \<Rightarrow> (nat \<times> edit) list" where
  "numbered edits = zip [0..<length edits] (map normalize_edit edits)"

definition in_order :: "jsstr \<Rightarrow> edit list \<Rightarrow> matched_edit list" where
  "in_order content edits = sort_key me_at (placed content (numbered edits))"

lemma place_of_Some:
  "place_of content ie = Some m \<longleftrightarrow> ed_old (snd ie) \<noteq> [] \<and>
     candidates content (ed_old (snd ie)) (starts_indented (ed_old (snd ie))) = [me_at m] \<and>
     me_index m = fst ie \<and> me_length m = length (ed_old (snd ie)) \<and> me_new m = ed_new (snd ie)"
  by (cases m) (auto simp: place_of_def split: list.split)

lemma placed_length: "m \<in> set (placed content ies) \<Longrightarrow> 0 < me_length m"
  by (induction ies) (auto simp: placed_def map_filter_simps place_of_Some split: option.splits)

lemma match_edits_cases:
  obtains issues where "match_edits content edits =
      (if 0 < unplaced content (numbered edits) + overlapping_pairs (in_order content edits)
       then Inl \<lparr>er_issues = issues,
         er_count = int (unplaced content (numbered edits) + overlapping_pairs (in_order content edits)),
         er_total = length edits\<rparr>
       else Inr (in_order content edits))"
    and "length issues = min 20 (unplaced content (numbered edits) + overlapping_pairs (in_order content edits))"
proof -
  define s where "s = fold (match_step content (get_line_starts content)) (numbered edits)
    \<lparr>ms_matched = [], ms_issues = [], ms_count = 0\<rparr>"
  have s: "ms_matched s = placed content (numbered edits)" "ms_count s = int (unplaced content (numbered edits))"
    "int (length (ms_issues s)) = min 20 (ms_count s)"
    using match_steps [of "\<lparr>ms_matched = [], ms_issues = [], ms_count = 0\<rparr>" content "get_line_starts content" "numbered edits"]
    by (simp_all add: s_def)
  obtain ended issues n where f: "fold (overlap_step (in_order content edits) (sort (map me_end (in_order content edits))))
      [0..<length (in_order content edits)] (0, ms_issues s, ms_count s) = (ended, issues, n)"
    by (metis prod_cases3)
  have "\<forall>m \<in> set (in_order content edits). 0 < me_length m"
    using placed_length by (auto simp: in_order_def)
  then have n: "n = int (unplaced content (numbered edits) + overlapping_pairs (in_order content edits))"
    and i: "int (length issues) = min 20 n"
    using overlap_steps [of "in_order content edits", OF _ _ s(3), of "length (in_order content edits)"] f s(2)
    by (auto simp: in_order_def overlapping_pairs_def)
  have "match_edits content edits = (if 0 < n then Inl \<lparr>er_issues = issues, er_count = n, er_total = length edits\<rparr>
      else Inr (in_order content edits))"
    using f s(1) by (simp add: match_edits_def Let_def in_order_def s_def numbered_def)
  then show thesis
    using that [of issues] n i by auto
qed

text \<open>What an accepted batch is, without how it is found.\<close>

definition valid_batch :: "jsstr \<Rightarrow> edit list \<Rightarrow> matched_edit list \<Rightarrow> bool" where
  "valid_batch content edits ms \<longleftrightarrow>
     mset (map me_index ms) = mset [0..<length edits] \<and> sorted_wrt (\<lambda>p q. me_end p \<le> me_at q) ms \<and>
     (\<forall>m \<in> set ms. let e = normalize_edit (edits ! me_index m) in
        ed_old e \<noteq> [] \<and> candidates content (ed_old e) (starts_indented (ed_old e)) = [me_at m] \<and>
        me_length m = length (ed_old e) \<and> me_new m = ed_new e)"

lemma valid_batch_place:
  assumes "valid_batch content edits ms" and "m \<in> set ms"
  shows "me_index m < length edits" and "place_of content (me_index m, normalize_edit (edits ! me_index m)) = Some m"
proof -
  have "me_index m \<in> set (map me_index ms)"
    using assms(2) by simp
  then have "me_index m \<in> set [0..<length edits]"
    using assms(1) unfolding valid_batch_def by (metis mset_eq_setD)
  then show "me_index m < length edits"
    by simp
  show "place_of content (me_index m, normalize_edit (edits ! me_index m)) = Some m"
    using assms by (auto simp: valid_batch_def place_of_Some Let_def)
qed

lemma placed_all:
  "unplaced content ies = 0 \<Longrightarrow> placed content ies = map (\<lambda>ie. the (place_of content ie)) ies"
  by (induction ies) (auto simp: unplaced_def placed_def map_filter_simps split: if_splits)

lemma numbered_map: "numbered edits = map (\<lambda>i. (i, normalize_edit (edits ! i))) [0..<length edits]"
  by (rule nth_equalityI) (simp_all add: numbered_def)

lemma batch_sorted:
  assumes "sorted_wrt (\<lambda>p q. me_end p \<le> me_at q) ms" and "\<forall>m \<in> set ms. 0 < me_length m"
  shows "sorted (map me_at ms)" and "distinct (map me_at ms)"
proof -
  have "sorted_wrt (\<lambda>p q. me_at p < me_at q) ms"
    using assms(2) by (intro sorted_wrt_mono_rel [OF _ assms(1)]) (auto simp: me_end_def)
  then have "sorted_wrt (<) (map me_at ms)"
    by (simp add: sorted_wrt_map)
  then show "sorted (map me_at ms)" and "distinct (map me_at ms)"
    by (simp_all add: strict_sorted_iff)
qed

lemma in_order_valid:
  assumes "unplaced content (numbered edits) = 0" and "overlapping_pairs (in_order content edits) = 0"
  shows "valid_batch content edits (in_order content edits)"
proof -
  have p: "placed content (numbered edits) =
      map (\<lambda>i. the (place_of content (i, normalize_edit (edits ! i)))) [0..<length edits]"
    using placed_all [OF assms(1)] by (simp add: numbered_map o_def)
  have some: "place_of content (i, normalize_edit (edits ! i)) \<noteq> None" if "i < length edits" for i
    using assms(1) that by (auto simp: unplaced_def numbered_map filter_empty_conv)
  have idx: "me_index (the (place_of content (i, normalize_edit (edits ! i)))) = i" if "i < length edits" for i
  proof -
    obtain m where m: "place_of content (i, normalize_edit (edits ! i)) = Some m"
      using some [of i] \<open>i < length edits\<close> by auto
    then show ?thesis
      using place_of_Some [of content "(i, normalize_edit (edits ! i))" m] by simp
  qed
  have "map me_index (placed content (numbered edits)) = [0..<length edits]"
    by (rule nth_equalityI) (simp_all add: p idx)
  then have "mset (map me_index (in_order content edits)) = mset [0..<length edits]"
    by (metis in_order_def mset_map mset_sort)
  moreover have "place_of content (me_index m, normalize_edit (edits ! me_index m)) = Some m"
    if "m \<in> set (in_order content edits)" for m
    using that some idx by (auto simp: in_order_def p)
  ultimately show ?thesis
    using assms(2) by (auto simp: valid_batch_def no_overlapping_pairs place_of_Some Let_def)
qed

lemma valid_in_order:
  assumes "valid_batch content edits ms"
  shows "unplaced content (numbered edits) = 0" and "in_order content edits = ms"
proof -
  let ?f = "\<lambda>i. the (place_of content (i, normalize_edit (edits ! i)))"
  have "\<exists>m \<in> set ms. me_index m = i" if "i < length edits" for i
  proof -
    have "i \<in> set (map me_index ms)"
      using assms that unfolding valid_batch_def by (metis atLeastLessThan_iff le0 mset_eq_setD set_upt)
    then show ?thesis
      by auto
  qed
  then show u: "unplaced content (numbered edits) = 0"
    using valid_batch_place [OF assms] by (fastforce simp: unplaced_def numbered_map filter_empty_conv)
  have "map ?f (map me_index ms) = ms"
    using valid_batch_place [OF assms] by (simp add: map_idI)
  then have "mset ms = image_mset ?f (mset (map me_index ms))"
    by (metis mset_map)
  also have "\<dots> = image_mset ?f (mset [0..<length edits])"
    using assms by (simp add: valid_batch_def)
  also have "\<dots> = mset (placed content (numbered edits))"
    using placed_all [OF u] by (simp add: numbered_map o_def)
  finally have m: "mset (placed content (numbered edits)) = mset ms"
    by simp
  have pos: "\<forall>m \<in> set ms. 0 < me_length m"
    using assms by (auto simp: valid_batch_def Let_def)
  have s: "sorted_wrt (\<lambda>p q. me_end p \<le> me_at q) ms"
    using assms by (simp add: valid_batch_def)
  show "in_order content edits = ms"
    unfolding in_order_def using batch_sorted [OF s pos] mset_eq_setD [OF m]
    by (intro sort_key_inj_key_eq [OF m]) (simp_all add: distinct_map)
qed

text \<open>
  C16: A batch is accepted exactly if every edit's text has one place in the content and no two places overlap; the result lists the places in order.\<close>

theorem match_edits_iff: "match_edits content edits = Inr ms \<longleftrightarrow> valid_batch content edits ms"
proof -
  obtain issues where r: "match_edits content edits =
      (if 0 < unplaced content (numbered edits) + overlapping_pairs (in_order content edits)
       then Inl \<lparr>er_issues = issues,
         er_count = int (unplaced content (numbered edits) + overlapping_pairs (in_order content edits)),
         er_total = length edits\<rparr>
       else Inr (in_order content edits))"
    by (metis match_edits_cases)
  have "overlapping_pairs (in_order content edits) = 0" if "valid_batch content edits ms"
    using that valid_in_order [OF that] by (simp add: no_overlapping_pairs valid_batch_def)
  then show ?thesis
    using in_order_valid [of content edits] valid_in_order [of content edits ms] by (auto simp: r)
qed

end
