(* ===== verification/EditApply.thy ===== *)
theory EditApply
  imports EditMatch
begin

text \<open>
  What applying an accepted batch gives: on the normalized content, the content with every place replaced;
  on the raw content, the same with everything outside the places as it was.
\<close>

section \<open>Replacing ranges\<close>

text \<open>The text from \<open>i\<close> on with the ranges replaced, in one pass from left to right.\<close>

fun spliced :: "'a list \<Rightarrow> nat \<Rightarrow> (nat \<times> nat \<times> 'a list) list \<Rightarrow> 'a list" where
  "spliced xs i [] = drop i xs"
| "spliced xs i ((a, b, new) # rs) = slice i a xs @ new @ spliced xs b rs"

definition replacement :: "matched_edit \<Rightarrow> nat \<times> nat \<times> jsstr" where
  "replacement m = (me_at m, me_end m, me_new m)"

lemma apply_replacements_from:
  assumes "sorted_wrt (\<lambda>p q. me_end p \<le> me_at q) ms" and "\<forall>m \<in> set ms. i \<le> me_at m \<and> me_end m \<le> length content"
    and "i \<le> length content"
  shows "apply_replacements content ms = take i content @ spliced content i (map replacement ms)"
  using assms
proof (induction ms arbitrary: i)
  case Nil
  then show ?case
    by (simp add: apply_replacements_def)
next
  case (Cons m ms)
  have "apply_replacements content ms = take (me_end m) content @ spliced content (me_end m) (map replacement ms)"
    using Cons by auto
  moreover have "i \<le> me_at m" "me_at m \<le> me_end m" "me_end m \<le> length content"
    using Cons.prems by (auto simp: me_end_def)
  moreover from this have "take (me_at m) content = take i content @ slice i (me_at m) content"
    by (metis le_add_diff_inverse slice_def take_add)
  ultimately show ?case
    by (simp add: apply_replacements_def replacement_def [of m] min_def)
qed

section \<open>Raw positions\<close>

text \<open>The characters of the normalized content as they are spelled in the raw one.\<close>

fun spellings :: "jsstr \<Rightarrow> jsstr list" where
  "spellings (c # d # s) = (if c = cr \<and> d = lf then [c, d] # spellings s else [c] # spellings (d # s))"
| "spellings [c] = [[c]]"
| "spellings [] = []"

definition read_as :: "jsstr \<Rightarrow> 16 word" where
  "read_as u = (if hd u = cr then lf else hd u)"

lemma concat_spellings [simp]: "concat (spellings s) = s"
  by (induction s rule: spellings.induct) auto

lemma normalize_spellings: "normalize_to_lf s = map read_as (spellings s)"
  by (induction s rule: spellings.induct) (auto simp: normalize_to_lf_def read_as_def)

lemma spellings_drop: "spellings (concat (drop k (spellings s))) = drop k (spellings s)"
proof (induction s arbitrary: k rule: spellings.induct)
  case (1 c d s)
  then show ?case
    by (cases k) auto
next
  case (2 c)
  then show ?case
    by (cases k) auto
qed simp

lemma spellings_take: "spellings (concat (take k (spellings s))) = take k (spellings s)"
proof (induction s arbitrary: k rule: spellings.induct)
  case (1 c d s)
  show ?case
  proof (cases k)
    case (Suc j)
    show ?thesis
    proof (cases "c = cr \<and> d = lf")
      case True
      then show ?thesis
        using 1(1) Suc by simp
    next
      case False
      then have "spellings (concat (take j (spellings (d # s)))) = take j (spellings (d # s))"
        using 1(2) by simp
      then show ?thesis
        using False Suc by (cases j; cases s) (auto split: if_splits)
    qed
  qed simp
next
  case (2 c)
  then show ?case
    by (cases k) auto
qed simp

lemma spelling_shape: "u \<in> set (spellings s) \<Longrightarrow> u = [cr, lf] \<or> (\<exists>c. u = [c])"
  by (induction s rule: spellings.induct) (auto split: if_splits)

text \<open>Where the \<open>k\<close>-th normalized character starts in the raw content.\<close>

definition raw_pos :: "jsstr \<Rightarrow> nat \<Rightarrow> nat" where
  "raw_pos s k = length (concat (take k (spellings s)))"

lemma raw_pos_take: "take (raw_pos s k) s = concat (take k (spellings s))"
proof -
  have "s = concat (take k (spellings s)) @ concat (drop k (spellings s))"
    by (metis append_take_drop_id concat_append concat_spellings)
  then show ?thesis
    unfolding raw_pos_def by (metis append_eq_conv_conj)
qed

lemma raw_pos_drop: "drop (raw_pos s k) s = concat (drop k (spellings s))"
proof -
  have "s = concat (take k (spellings s)) @ concat (drop k (spellings s))"
    by (metis append_take_drop_id concat_append concat_spellings)
  then show ?thesis
    unfolding raw_pos_def by (metis append_eq_conv_conj)
qed

lemma raw_pos_mono: "i \<le> j \<Longrightarrow> raw_pos s i \<le> raw_pos s j"
  unfolding raw_pos_def by (metis concat_append le_add1 le_add_diff_inverse length_append take_add)

lemma raw_pos_slice: "i \<le> j \<Longrightarrow> slice (raw_pos s i) (raw_pos s j) s = concat (slice i j (spellings s))"
proof -
  assume "i \<le> j"
  then have "take (raw_pos s j) s = take (raw_pos s i) s @ concat (slice i j (spellings s))"
    by (metis concat_append le_add_diff_inverse raw_pos_take slice_def take_add)
  moreover have "take (raw_pos s j) s = take (raw_pos s i) s @ slice (raw_pos s i) (raw_pos s j) s"
    using raw_pos_mono [OF \<open>i \<le> j\<close>] by (metis le_add_diff_inverse slice_def take_add)
  ultimately show ?thesis
    by simp
qed

lemma spellings_at:
  assumes "k < length (spellings s)"
  shows "raw_pos s (Suc k) = raw_pos s k +
    (if raw_pos s k + 1 < length s \<and> s ! raw_pos s k = cr \<and> s ! (raw_pos s k + 1) = lf then 2 else 1)"
proof -
  have d: "drop (raw_pos s k) s = spellings s ! k @ concat (drop (Suc k) (spellings s))"
    using assms by (simp add: raw_pos_drop flip: Cons_nth_drop_Suc)
  have e: "drop (raw_pos s k) s \<noteq> []"
    using d spelling_shape [OF nth_mem [OF assms]] by auto
  have "spellings t ! 0 = (if 1 < length t \<and> t ! 0 = cr \<and> t ! 1 = lf then [cr, lf] else [t ! 0])" if "t \<noteq> []" for t
    using that by (cases t rule: spellings.cases) auto
  note h0 = this [OF e]
  have h: "spellings s ! k =
      (if raw_pos s k + 1 < length s \<and> s ! raw_pos s k = cr \<and> s ! (raw_pos s k + 1) = lf then [cr, lf] else [s ! raw_pos s k])"
  proof -
    have "spellings (drop (raw_pos s k) s) ! 0 = spellings s ! k"
      using assms by (simp add: raw_pos_drop spellings_drop)
    moreover have "1 < length (drop (raw_pos s k) s) \<longleftrightarrow> raw_pos s k + 1 < length s"
      by auto
    moreover have "drop (raw_pos s k) s ! 0 = s ! raw_pos s k" "drop (raw_pos s k) s ! 1 = s ! (raw_pos s k + 1)"
      using e by simp_all
    ultimately show ?thesis
      using h0 by (simp only:)
  qed
  have "raw_pos s (Suc k) = raw_pos s k + length (spellings s ! k)"
    using assms by (simp add: raw_pos_def take_Suc_conv_app_nth)
  then show ?thesis
    by (simp add: h)
qed

lemma raw_steps_pos: "k + n \<le> length (spellings s) \<Longrightarrow> raw_steps s n (raw_pos s k) = raw_pos s (k + n)"
proof (induction n arbitrary: k)
  case (Suc n)
  then show ?case
    using Suc.IH [of "Suc k"] by (simp add: spellings_at)
qed simp

lemma to_raw_offset_pos:
  assumes "i \<le> j" and "j \<le> length (spellings s)"
  shows "to_raw_offset s j (raw_pos s i, i) = (raw_pos s j, j)"
  using assms raw_steps_pos [of i "j - i" s] by (simp add: to_raw_offset_def)

section \<open>Line numbers\<close>

lemma line_search_bounds:
  assumes "low < high" and "starts ! low \<le> i" and "high < length starts \<Longrightarrow> i < starts ! high" and "high \<le> length starts"
  shows "line_search starts i low high < length starts \<and> starts ! line_search starts i low high \<le> i \<and>
    (Suc (line_search starts i low high) < length starts \<longrightarrow> i < starts ! Suc (line_search starts i low high))"
  using assms
proof (induction starts i low high rule: line_search.induct)
  case (1 starts i low high)
  show ?case
  proof (cases "low + 1 < high")
    case True
    then show ?thesis
      using 1 by (subst (1 2 3 4) line_search.simps) (auto simp: Let_def not_le)
  next
    case False
    then have "high = Suc low"
      using 1(3) by simp
    then show ?thesis
      using 1 by (subst (1 2 3 4) line_search.simps) simp
  qed
qed

lemma line_starts_above: "l \<in> set (line_starts_from i s) \<Longrightarrow> i < l"
  by (induction s arbitrary: i) (auto split: if_splits dest: Suc_lessD)

lemma sorted_line_starts: "sorted (line_starts_from i s)"
  by (induction s arbitrary: i) (auto simp: less_imp_le dest: line_starts_above)

lemma line_starts_count:
  "length (filter (\<lambda>l. l \<le> i + n) (line_starts_from i s)) = length (filter (\<lambda>c. c = lf) (take n s))"
proof (induction s arbitrary: i n)
  case (Cons c s)
  show ?case
  proof (cases n)
    case 0
    then show ?thesis
      using line_starts_above [of _ i "c # s"] by (fastforce simp: filter_empty_conv simp del: line_starts_from.simps)
  next
    case (Suc k)
    then show ?thesis
      using Cons.IH [of "Suc i" k] by simp
  qed
qed simp

text \<open>The number of an offset's line is one more than the line feeds before it.\<close>

lemma get_line_number_eq:
  "get_line_number i (get_line_starts content) = length (filter (\<lambda>c. c = lf) (take i content)) + 1"
proof -
  let ?starts = "get_line_starts content"
  let ?r = "line_search ?starts i 0 (length ?starts)"
  have r: "?r < length ?starts" "?starts ! ?r \<le> i" "Suc ?r < length ?starts \<Longrightarrow> i < ?starts ! Suc ?r"
    using line_search_bounds [of 0 "length ?starts" ?starts i] by (auto simp: get_line_starts_def)
  have sorted: "sorted ?starts"
    using sorted_line_starts by (simp add: get_line_starts_def)
  have "?r < length (filter (\<lambda>l. l \<le> i) ?starts)"
    using sorted_below [OF sorted r(1), of i] r(2) by simp
  moreover have "\<not> Suc ?r < length (filter (\<lambda>l. l \<le> i) ?starts)"
    using sorted_below [OF sorted, of "Suc ?r" i] r(3) by (metis length_filter_le not_le order_less_le_trans)
  moreover have "length (filter (\<lambda>l. l \<le> i) ?starts) = length (filter (\<lambda>c. c = lf) (take i content)) + 1"
    using line_starts_count [of 0 i content] by (simp add: get_line_starts_def)
  ultimately show ?thesis
    by (simp add: get_line_number_def)
qed

section \<open>The raw content\<close>

definition raw_original :: "jsstr \<Rightarrow> matched_edit \<Rightarrow> jsstr" where
  "raw_original content m = slice (raw_pos content (me_at m)) (raw_pos content (me_end m)) content"

definition raw_new :: "jsstr \<Rightarrow> matched_edit \<Rightarrow> jsstr" where
  "raw_new content m =
     (if me_new m = slice (me_at m) (me_end m) (normalize_to_lf content) then raw_original content m
      else with_ending (line_ending_at content (raw_pos content (me_at m))) (me_new m))"

definition raw_replacement :: "jsstr \<Rightarrow> matched_edit \<Rightarrow> nat \<times> nat \<times> jsstr" where
  "raw_replacement content m = (raw_pos content (me_at m), raw_pos content (me_end m), raw_new content m)"

definition report_of :: "jsstr \<Rightarrow> matched_edit \<Rightarrow> edit_report" where
  "report_of content m =
     \<lparr>rp_index = me_index m,
      rp_start_line = length (filter (\<lambda>c. c = lf) (take (me_at m) (normalize_to_lf content))) + 1,
      rp_end_line = length (filter (\<lambda>c. c = lf) (take (me_end m - 1) (normalize_to_lf content))) + 1,
      rp_status = (if raw_new content m = raw_original content m then Unchanged else Applied)\<rparr>"

lemma raw_step_at:
  assumes "i \<le> me_at m" and "me_end m \<le> length (spellings content)"
  shows "raw_step content (normalize_to_lf content) (get_line_starts (normalize_to_lf content)) m
      \<lparr>rs_offset = (raw_pos content i, i), rs_copied = raw_pos content i, rs_output = out, rs_reports = reports\<rparr> =
    \<lparr>rs_offset = (raw_pos content (me_end m), me_end m), rs_copied = raw_pos content (me_end m),
     rs_output = out @ slice (raw_pos content i) (raw_pos content (me_at m)) content @ raw_new content m,
     rs_reports = reports @ [report_of content m]\<rparr>"
proof -
  have "me_at m \<le> me_end m"
    by (simp add: me_end_def)
  then show ?thesis
    using assms by (simp add: raw_step_def Let_def to_raw_offset_pos get_line_number_eq raw_new_def raw_original_def report_of_def)
qed

lemma raw_steps_spliced:
  assumes "sorted_wrt (\<lambda>p q. me_end p \<le> me_at q) ms"
    and "\<forall>m \<in> set ms. i \<le> me_at m \<and> me_end m \<le> length (spellings content)"
  shows "(let s = fold (raw_step content (normalize_to_lf content) (get_line_starts (normalize_to_lf content))) ms
      \<lparr>rs_offset = (raw_pos content i, i), rs_copied = raw_pos content i, rs_output = out, rs_reports = reports\<rparr>
    in rs_output s @ drop (rs_copied s) content = out @ spliced content (raw_pos content i) (map (raw_replacement content) ms) \<and>
       rs_reports s = reports @ map (report_of content) ms)"
  using assms
proof (induction ms arbitrary: i out reports)
  case (Cons m ms)
  then have "\<forall>m' \<in> set ms. me_end m \<le> me_at m' \<and> me_end m' \<le> length (spellings content)"
    by simp
  then show ?case
    using Cons.IH [of "me_end m"] Cons.prems by (simp add: raw_step_at raw_replacement_def Let_def)
qed simp

lemma batch_place:
  assumes "valid_batch content edits ms" and "m \<in> set ms"
  shows "me_end m \<le> length content" and "slice (me_at m) (me_end m) content = normalize_to_lf (ed_old (edits ! me_index m))"
    and "me_new m = normalize_to_lf (ed_new (edits ! me_index m))"
proof -
  let ?old = "normalize_to_lf (ed_old (edits ! me_index m))"
  have m: "candidates content ?old (starts_indented ?old) = [me_at m]" "me_length m = length ?old"
    "me_new m = normalize_to_lf (ed_new (edits ! me_index m))"
    using assms by (simp_all add: valid_batch_def Let_def normalize_edit_def)
  have "occurs_at content ?old (me_at m)"
    by (rule candidates_occur [where b = "starts_indented ?old"]) (simp add: m(1))
  then show "me_end m \<le> length content" and "slice (me_at m) (me_end m) content = ?old"
    by (simp_all add: occurs_at_def me_end_def m(2))
  show "me_new m = normalize_to_lf (ed_new (edits ! me_index m))"
    by (rule m(3))
qed

text \<open>The result of an accepted batch.\<close>

definition edited :: "jsstr \<Rightarrow> matched_edit list \<Rightarrow> edit_result" where
  "edited raw ms =
     (case split_bom raw of (mark, content) \<Rightarrow>
        let final = mark @ spliced content 0 (map (raw_replacement content) ms)
        in \<lparr>rs_base = normalize_to_lf content, rs_new = normalize_to_lf (snd (split_bom final)), rs_final = final,
            rs_applied = length (filter (\<lambda>m. raw_new content m \<noteq> raw_original content m) ms),
            rs_edits = map (report_of content) (sort_key me_index ms)\<rparr>)"

lemma sort_key_map: "sort_key k (map f xs) = map f (sort_key (\<lambda>x. k (f x)) xs)"
proof -
  have "insort_key k (f x) (map f ys) = map f (insort_key (\<lambda>x. k (f x)) x ys)" for x ys
    by (induction ys) auto
  then show ?thesis
    by (induction xs) (simp_all add: sort_key_def)
qed

lemma apply_edits_edited:
  "apply_edits_to_content raw edits =
     rbind (match_edits (normalize_to_lf (snd (split_bom raw))) edits) (\<lambda>ms. Inr (edited raw ms))"
proof (cases "match_edits (normalize_to_lf (snd (split_bom raw))) edits")
  case (Inr ms)
  obtain mark content where b: "split_bom raw = (mark, content)"
    by (metis surj_pair)
  let ?base = "normalize_to_lf content"
  define s where "s = fold (raw_step content ?base (get_line_starts ?base)) ms
    \<lparr>rs_offset = (0, 0), rs_copied = 0, rs_output = mark, rs_reports = []\<rparr>"
  have v: "valid_batch ?base edits ms"
    using Inr b by (simp add: match_edits_iff)
  then have "\<forall>m \<in> set ms. 0 \<le> me_at m \<and> me_end m \<le> length (spellings content)"
    using batch_place(1) [OF v] by (simp add: normalize_spellings)
  then have "rs_output s @ drop (rs_copied s) content = mark @ spliced content 0 (map (raw_replacement content) ms)"
    "rs_reports s = map (report_of content) ms"
    using raw_steps_spliced [of ms 0 content mark "[]"] v by (simp_all add: Let_def s_def raw_pos_def valid_batch_def)
  then show ?thesis
    using Inr b by (simp add: apply_edits_to_content_def Let_def edited_def sort_key_map filter_map o_def report_of_def flip: s_def)
qed (cases "split_bom raw"; simp add: apply_edits_to_content_def Let_def)

section \<open>Line endings of the result\<close>

text \<open>Every \<open>\r\<close> of the text is part of a \<open>\r\n\<close>.\<close>

definition no_lone_cr :: "jsstr \<Rightarrow> bool" where
  "no_lone_cr s \<longleftrightarrow> [cr] \<notin> set (spellings s)"

lemma spellings_append: "no_lone_cr a \<Longrightarrow> spellings (a @ b) = spellings a @ spellings b"
proof (induction a rule: spellings.induct)
  case (1 c d s)
  then show ?case
    by (auto simp: no_lone_cr_def split: if_splits)
next
  case (2 c)
  then show ?case
    by (cases b) (auto simp: no_lone_cr_def)
qed simp

lemma no_lone_cr_append: "no_lone_cr a \<Longrightarrow> no_lone_cr b \<Longrightarrow> no_lone_cr (a @ b)"
  by (simp add: no_lone_cr_def spellings_append)

lemma normalize_append: "no_lone_cr a \<Longrightarrow> normalize_to_lf (a @ b) = normalize_to_lf a @ normalize_to_lf b"
  by (simp add: normalize_spellings spellings_append)

lemma spellings_slice:
  assumes "i \<le> j"
  shows "spellings (slice (raw_pos s i) (raw_pos s j) s) = slice i j (spellings s)"
proof -
  have "slice i j (spellings s) = take (j - i) (spellings (concat (drop i (spellings s))))"
    by (simp add: spellings_drop slice_def)
  then show ?thesis
    using assms by (simp add: raw_pos_slice spellings_take)
qed

lemma slice_map: "slice i j (map f xs) = map f (slice i j xs)"
  by (simp add: slice_def take_map drop_map)

lemma normalize_slice:
  "i \<le> j \<Longrightarrow> normalize_to_lf (slice (raw_pos s i) (raw_pos s j) s) = slice i j (normalize_to_lf s)"
  by (simp add: normalize_spellings spellings_slice slice_map)

lemma no_lone_cr_slice: "i \<le> j \<Longrightarrow> no_lone_cr s \<Longrightarrow> no_lone_cr (slice (raw_pos s i) (raw_pos s j) s)"
  unfolding no_lone_cr_def by (auto simp: spellings_slice) (auto simp: slice_def dest: in_set_takeD in_set_dropD)

lemma no_cr_normalized: "cr \<notin> set (normalize_to_lf s)"
  by (auto simp: normalize_to_lf_def)

lemma with_ending_spellings:
  assumes "cr \<notin> set s" and "e = [lf] \<or> e = [cr, lf]"
  shows "normalize_to_lf (with_ending e s) = s" and "no_lone_cr (with_ending e s)"
proof -
  have "no_lone_cr (with_ending e s) \<and> normalize_to_lf (with_ending e s) = s"
    using assms(1)
  proof (induction s)
    case (Cons c s)
    let ?u = "if c = lf then e else [c]"
    have u: "no_lone_cr ?u" "normalize_to_lf ?u = [c]"
      using Cons.prems assms(2) by (auto simp: no_lone_cr_def normalize_spellings read_as_def)
    have "with_ending e (c # s) = ?u @ with_ending e s"
      by (simp add: with_ending_def)
    then show ?case
      using Cons u by (simp add: no_lone_cr_append normalize_append)
  qed (simp add: with_ending_def no_lone_cr_def normalize_to_lf_def)
  then show "normalize_to_lf (with_ending e s) = s" and "no_lone_cr (with_ending e s)"
    by simp_all
qed

lemma line_breaks_spellings: "line_breaks s = filter (\<lambda>u. u = [cr, lf] \<or> u = [cr] \<or> u = [lf]) (spellings s)"
  by (induction s rule: spellings.induct) auto

lemma line_ending_plain:
  assumes "no_lone_cr s"
  shows "line_ending_at s (raw_pos s k) = [lf] \<or> line_ending_at s (raw_pos s k) = [cr, lf]"
proof -
  have "u = [lf] \<or> u = [cr, lf]" if "u \<in> set (line_breaks (drop (raw_pos s k) s)) \<union> set (line_breaks (take (raw_pos s k) s))" for u
    using that assms by (auto simp: line_breaks_spellings raw_pos_take raw_pos_drop spellings_take spellings_drop no_lone_cr_def
        dest: in_set_takeD in_set_dropD)
  then show ?thesis
    by (auto simp: line_ending_at_def split: list.split)
qed

lemma raw_new_plain:
  assumes "no_lone_cr content" and "cr \<notin> set (me_new m)"
  shows "normalize_to_lf (raw_new content m) = me_new m" and "no_lone_cr (raw_new content m)"
proof -
  have le: "me_at m \<le> me_end m"
    by (simp add: me_end_def)
  then have "normalize_to_lf (raw_original content m) = slice (me_at m) (me_end m) (normalize_to_lf content)"
    "no_lone_cr (raw_original content m)"
    using assms(1) by (simp_all add: raw_original_def normalize_slice no_lone_cr_slice)
  then show "normalize_to_lf (raw_new content m) = me_new m" and "no_lone_cr (raw_new content m)"
    using with_ending_spellings [OF assms(2) line_ending_plain [OF assms(1)]] by (auto simp: raw_new_def)
qed

lemma normalize_spliced:
  assumes "no_lone_cr content" and "\<forall>m \<in> set ms. cr \<notin> set (me_new m)"
    and "sorted_wrt (\<lambda>p q. me_end p \<le> me_at q) ms" and "\<forall>m \<in> set ms. i \<le> me_at m"
  shows "normalize_to_lf (spliced content (raw_pos content i) (map (raw_replacement content) ms)) =
    spliced (normalize_to_lf content) i (map replacement ms)"
  using assms(2-)
proof (induction ms arbitrary: i)
  case Nil
  show ?case
    by (simp add: raw_pos_drop normalize_spellings spellings_drop drop_map)
next
  case (Cons m ms)
  have "no_lone_cr (slice (raw_pos content i) (raw_pos content (me_at m)) content)"
    using assms(1) Cons.prems by (simp add: no_lone_cr_slice)
  moreover have "normalize_to_lf (slice (raw_pos content i) (raw_pos content (me_at m)) content) =
      slice i (me_at m) (normalize_to_lf content)"
    using Cons.prems by (simp add: normalize_slice)
  ultimately show ?case
    using Cons raw_new_plain [OF assms(1), of m]
    by (simp add: raw_replacement_def [of content m] replacement_def [of m] normalize_append)
qed

end
