(* ===== verification/EditResults.thy ===== *)
theory EditResults
  imports EditApply
begin

text \<open>
  The promises of the edit tool: which batches it accepts, what it leaves alone, and when the result read
  with \<open>\n\<close> line ends is the normalized content with the replacements made.
\<close>

definition two_lines :: jsstr where
  "two_lines = js ''b'' @ [cr, lf] @ js ''d''"

definition two_edits :: "edit list" where
  "two_edits = [\<lparr>ed_old = js ''d'', ed_new = js ''x'' @ [lf] @ js ''y''\<rparr>, \<lparr>ed_old = js ''b'' @ [lf], ed_new = js ''b'' @ [lf] @ js ''z''\<rparr>]"


text \<open>
  C19: A refused batch has no valid placement; the error counts the edits without a single place and the overlapping pairs, and lists at most twenty of them.\<close>

theorem match_edits_refused:
  assumes "match_edits content edits = Inl e"
  shows "(\<nexists>ms. valid_batch content edits ms) \<and> er_total e = length edits \<and>
    er_count e = int (unplaced content (numbered edits) + overlapping_pairs (in_order content edits)) \<and>
    int (length (er_issues e)) = min 20 (er_count e)"
proof -
  have "match_edits content edits \<noteq> Inr ms" for ms
    using assms by simp
  then have "\<nexists>ms. valid_batch content edits ms"
    by (simp add: match_edits_iff)
  then show ?thesis
    using assms by (rule_tac match_edits_cases [of content edits]) (auto split: if_splits)
qed

lemma report_indices:
  assumes "valid_batch content edits ms"
  shows "map me_index (sort_key me_index ms) = [0..<length edits]"
proof -
  have "map me_index (sort_key me_index ms) = sort (map me_index ms)"
    using sort_key_map [of "\<lambda>x. x" me_index ms] by simp
  also have "mset (map me_index ms) = mset [0..<length edits]"
    using assms by (simp add: valid_batch_def)
  then have "sort (map me_index ms) = [0..<length edits]"
    by (intro properties_for_sort) simp_all
  finally show ?thesis .
qed

text \<open>
  C18: An accepted batch changes the file only inside the places of its texts: byte order mark, line ends and every other character stay, and the reports list every edit once.\<close>

theorem edits_keep_rest:
  assumes "apply_edits_to_content raw edits = Inr r" and "split_bom raw = (mark, content)"
  shows "\<exists>ms. valid_batch (rs_base r) edits ms \<and> rs_base r = normalize_to_lf content \<and>
    rs_final r = mark @ spliced content 0 (map (raw_replacement content) ms) \<and>
    (\<forall>m \<in> set ms. normalize_to_lf (raw_original content m) = normalize_to_lf (ed_old (edits ! me_index m))) \<and>
    map rp_index (rs_edits r) = [0..<length edits]"
proof -
  obtain ms where ms: "match_edits (normalize_to_lf content) edits = Inr ms" "r = edited raw ms"
    using assms by (auto simp: apply_edits_edited rbind_Inr_conv)
  have v: "valid_batch (normalize_to_lf content) edits ms"
    using ms(1) by (simp add: match_edits_iff)
  have "normalize_to_lf (raw_original content m) = normalize_to_lf (ed_old (edits ! me_index m))" if "m \<in> set ms" for m
    using batch_place(2) [OF v that] by (simp add: raw_original_def normalize_slice me_end_def)
  then show ?thesis
    using v assms(2) ms(2) report_indices [OF v] by (intro exI [of _ ms]) (simp add: edited_def Let_def report_of_def o_def)
qed

lemma normalize_bom: "snd (split_bom (normalize_to_lf s)) = normalize_to_lf (snd (split_bom s))"
proof (cases s)
  case (Cons c t)
  then show ?thesis
    by (cases t) (auto simp: split_bom_def normalize_to_lf_def bom_def)
qed (simp add: split_bom_def normalize_to_lf_def)

text \<open>
  C17: In a file without lone carriage returns the raw edit reads, with normalized line ends, as the edit of the normalized content.\<close>

theorem edits_agree:
  assumes "apply_edits_to_content raw edits = Inr r" and "no_lone_cr raw"
  shows "\<exists>new. apply_edits_to_normalized (rs_base r) edits = Inr new \<and>
    rs_new r = (if fst (split_bom raw) = [] then snd (split_bom new) else new)"
proof -
  obtain mark content where b: "split_bom raw = (mark, content)"
    by (metis surj_pair)
  obtain ms where ms: "match_edits (normalize_to_lf content) edits = Inr ms" "r = edited raw ms"
    using assms(1) b by (auto simp: apply_edits_edited rbind_Inr_conv)
  have v: "valid_batch (normalize_to_lf content) edits ms"
    using ms(1) by (simp add: match_edits_iff)
  have plain: "no_lone_cr content"
    using assms(2) b by (cases raw rule: spellings.cases) (auto simp: split_bom_def no_lone_cr_def bom_def split: if_splits)
  have sorted: "sorted_wrt (\<lambda>p q. me_end p \<le> me_at q) ms"
    using v by (simp add: valid_batch_def)
  have "apply_replacements (normalize_to_lf content) ms = spliced (normalize_to_lf content) 0 (map replacement ms)"
    using apply_replacements_from [OF sorted, of 0] batch_place(1) [OF v] by simp
  also have "\<dots> = normalize_to_lf (spliced content 0 (map (raw_replacement content) ms))"
    using normalize_spliced [OF plain _ sorted, of 0] batch_place(3) [OF v] no_cr_normalized by (simp add: raw_pos_def)
  finally have "apply_edits_to_normalized (normalize_to_lf content) edits =
      Inr (normalize_to_lf (spliced content 0 (map (raw_replacement content) ms)))"
    by (simp add: apply_edits_to_normalized_def ms(1))
  moreover have "rs_new r = (if mark = [] then snd (split_bom (normalize_to_lf (spliced content 0 (map (raw_replacement content) ms))))
      else normalize_to_lf (spliced content 0 (map (raw_replacement content) ms)))"
    using b by (auto simp: ms(2) edited_def Let_def normalize_bom) (auto simp: split_bom_def split: if_splits)
  ultimately show ?thesis
    using b by (simp add: ms(2) edited_def Let_def)
qed

section \<open>Concrete batches\<close>

lemma two_edits_applied: "apply_edits_to_content two_lines two_edits = Inr
    \<lparr>rs_base = js ''b'' @ [lf] @ js ''d'',
     rs_new = js ''b'' @ [lf] @ js ''zx'' @ [lf] @ js ''y'',
     rs_final = js ''b'' @ [cr, lf] @ js ''zx'' @ [cr, lf] @ js ''y'', rs_applied = 2,
     rs_edits = [\<lparr>rp_index = 0, rp_start_line = 2, rp_end_line = 2, rp_status = Applied\<rparr>,
       \<lparr>rp_index = 1, rp_start_line = 1, rp_end_line = 1, rp_status = Applied\<rparr>]\<rparr>"
  by code_simp

theorem edits_keep_rest_witness:
  "\<exists>r ms. apply_edits_to_content two_lines two_edits = Inr r \<and> valid_batch (rs_base r) two_edits ms \<and>
     rs_final r = spliced two_lines 0 (map (raw_replacement two_lines) ms)"
proof -
  have "split_bom two_lines = ([], two_lines)"
    by code_simp
  from edits_keep_rest [OF two_edits_applied this] show ?thesis
    using two_edits_applied by auto
qed

theorem edits_agree_witness:
  "\<exists>r. apply_edits_to_content two_lines two_edits = Inr r \<and> apply_edits_to_normalized (rs_base r) two_edits = Inr (rs_new r)"
proof -
  have "no_lone_cr two_lines" "fst (split_bom two_lines) = []"
    by code_simp+
  moreover have "snd (split_bom new) = new" if "apply_edits_to_normalized (js ''b'' @ [lf] @ js ''d'') two_edits = Inr new" for new
  proof -
    have "apply_edits_to_normalized (js ''b'' @ [lf] @ js ''d'') two_edits =
        Inr (js ''b'' @ [lf] @ js ''zx'' @ [lf] @ js ''y'')"
      by code_simp
    moreover have "snd (split_bom (js ''b'' @ [lf] @ js ''zx'' @ [lf] @ js ''y'')) = js ''b'' @ [lf] @ js ''zx'' @ [lf] @ js ''y''"
      by code_simp
    ultimately show ?thesis
      using that by simp
  qed
  ultimately show ?thesis
    using edits_agree [OF two_edits_applied] two_edits_applied by auto
qed

definition clashing_edits :: "edit list" where
  "clashing_edits = [\<lparr>ed_old = js ''b'' @ [lf], ed_new = []\<rparr>, \<lparr>ed_old = [lf] @ js ''d'', ed_new = []\<rparr>, \<lparr>ed_old = js ''q'', ed_new = []\<rparr>]"

theorem match_edits_refused_witness:
  "\<exists>e. match_edits (normalize_to_lf two_lines) clashing_edits = Inl e \<and> er_count e = 2 \<and> length (er_issues e) = 2"
proof -
  have "match_edits (normalize_to_lf two_lines) clashing_edits =
      Inl \<lparr>er_issues = [MatchNotFound 2, EditOverlap 0 1], er_count = 2, er_total = 3\<rparr>"
    by code_simp
  then show ?thesis
    using match_edits_refused by fastforce
qed

text \<open>
  With a lone \<open>\r\<close> before the place, a new text that starts with a line end joins it to a \<open>\r\n\<close>: the line
  end is lost.
\<close>

lemma lone_cr_loses_line:
  "\<exists>r new. apply_edits_to_content (js ''a'' @ [cr] @ js ''b'' @ [lf]) [\<lparr>ed_old = js ''b'', ed_new = lf # js ''c''\<rparr>] = Inr r \<and>
     apply_edits_to_normalized (rs_base r) [\<lparr>ed_old = js ''b'', ed_new = lf # js ''c''\<rparr>] = Inr new \<and>
     new = js ''a'' @ [lf, lf] @ js ''c'' @ [lf] \<and> rs_new r = js ''a'' @ [lf] @ js ''c'' @ [lf]"
proof -
  let ?e = "[\<lparr>ed_old = js ''b'', ed_new = lf # js ''c''\<rparr>]"
  have "apply_edits_to_content (js ''a'' @ [cr] @ js ''b'' @ [lf]) ?e = Inr
      \<lparr>rs_base = js ''a'' @ [lf] @ js ''b'' @ [lf], rs_new = js ''a'' @ [lf] @ js ''c'' @ [lf],
       rs_final = js ''a'' @ [cr, lf] @ js ''c'' @ [lf], rs_applied = 1,
       rs_edits = [\<lparr>rp_index = 0, rp_start_line = 2, rp_end_line = 2, rp_status = Applied\<rparr>]\<rparr>"
    by code_simp
  moreover have "apply_edits_to_normalized (js ''a'' @ [lf] @ js ''b'' @ [lf]) ?e = Inr (js ''a'' @ [lf, lf] @ js ''c'' @ [lf])"
    by code_simp
  ultimately show ?thesis
    by auto
qed

end
