(* ===== verification/StreamJson.thy ===== *)
theory StreamJson
  imports Js
begin

text \<open>
  The incremental parser of streamed tool-call arguments (\<open>packages/ai/src/utils/streaming-json.ts\<close>).
  Containers live in a store, so that it shows which of them a snapshot or a reported change shares with
  the parser: a value refers to a container by its address, and the parser updates the container at the
  address of an open frame in place.
\<close>

section \<open>Values and the store\<close>

datatype jval =
    VNull
  | VBool bool
  | VNum jsnum
  | VStr jsstr
  | VRef nat

datatype container =
    CArr "jval list"
  | CObj "(jsstr \<times> jval) list"

type_synonym store = "container list"

fun is_arr :: "container \<Rightarrow> bool" where
  "is_arr (CArr _) = True"
| "is_arr (CObj _) = False"

text \<open>\<open>Slot\<close>, \<open>JsonPath\<close>, \<open>JsonChange\<close>.\<close>

datatype slot =
    SRoot
  | SMember jsstr
  | SElement nat

type_synonym json_path = "slot list"   \<comment> \<open>member keys and indices only\<close>

datatype change =
    ChSet json_path jval
  | ChAppend json_path jsstr

datatype phase = AtKey | AtColon | AtValue | AtComma

record frame =
  fr_container :: nat
  fr_slot :: "slot option"
  fr_path :: "json_path option"
  fr_reports :: bool
  fr_size :: int
  fr_key :: "jsstr option"
  fr_phase :: phase

record open_string =
  os_is_key :: bool
  os_slot :: "slot option"
  os_text :: jsstr
  os_escape :: jsstr
  os_path :: "json_path option"
  os_change :: "nat option"   \<comment> \<open>the index of the change it extends\<close>

text \<open>The fields of \<open>StreamingJsonParser\<close>; the innermost frame comes first.\<close>

record parser =
  sp_root :: "jval option"
  sp_done :: bool
  sp_stack :: "frame list"
  sp_string :: "open_string option"
  sp_scalar :: jsstr
  sp_scalar_slot :: "slot option"
  sp_path_cost :: int
  sp_credit :: int
  sp_dirty :: bool
  sp_snapshot :: "jval option"
  sp_changes :: "change list"
  sp_store :: store

definition new_parser :: "store \<Rightarrow> parser" where
  "new_parser h =
     \<lparr>sp_root = None, sp_done = False, sp_stack = [], sp_string = None, sp_scalar = [], sp_scalar_slot = None,
      sp_path_cost = 0, sp_credit = 0, sp_dirty = False, sp_snapshot = None, sp_changes = [], sp_store = h\<rparr>"

definition max_reported_depth :: nat where "max_reported_depth = 32"
definition credit_per_append :: int where "credit_per_append = 256"
definition credit_per_character :: int where "credit_per_character = 8"
definition max_pending_scalar :: nat where "max_pending_scalar = 64"

section \<open>Characters and tokens\<close>

definition quote_char :: "16 word" where "quote_char = 0x22"
definition backslash :: "16 word" where "backslash = 0x5C"
definition char_u :: "16 word" where "char_u = 0x75"

definition is_white :: "16 word \<Rightarrow> bool" where
  "is_white c \<longleftrightarrow> c = 0x20 \<or> c = 9 \<or> c = 10 \<or> c = 13"

text \<open>\<open>isDelimiter\<close>: white space and the characters \<open>, : { } [ ] "\<close>.\<close>

definition is_delimiter :: "16 word \<Rightarrow> bool" where
  "is_delimiter c \<longleftrightarrow> is_white c \<or> c = 0x2C \<or> c = 0x3A \<or> c = 0x7B \<or> c = 0x7D \<or> c = 0x5B \<or> c = 0x5D \<or> c = quote_char"

definition is_digit :: "16 word \<Rightarrow> bool" where
  "is_digit c \<longleftrightarrow> 0x30 \<le> c \<and> c \<le> 0x39"

definition is_hex_digit :: "16 word \<Rightarrow> bool" where
  "is_hex_digit c \<longleftrightarrow> is_digit c \<or> 0x61 \<le> c \<and> c \<le> 0x66 \<or> 0x41 \<le> c \<and> c \<le> 0x46"

definition hex_digit_value :: "16 word \<Rightarrow> nat" where
  "hex_digit_value c = (if is_digit c then unat c - 48 else if 0x61 \<le> c then unat c - 87 else unat c - 55)"

text \<open>\<open>String.fromCharCode(Number.parseInt(digits, 16))\<close> for hexadecimal digits.\<close>

definition code_unit_of :: "jsstr \<Rightarrow> 16 word" where
  "code_unit_of hex = of_nat (foldl (\<lambda>n c. 16 * n + hex_digit_value c) 0 hex)"

text \<open>\<open>SIMPLE_ESCAPES\<close>.\<close>

definition simple_escape :: "16 word \<Rightarrow> 16 word option" where
  "simple_escape c =
     (if c = quote_char \<or> c = backslash \<or> c = 0x2F then Some c
      else if c = 0x62 then Some 8 else if c = 0x66 then Some 12 else if c = 0x6E then Some 10
      else if c = 0x72 then Some 13 else if c = 0x74 then Some 9 else None)"

text \<open>
  The parts of a number: what the groups of \<open>NUMBER\<close> match, as sign, digits, digits behind the point,
  exponent sign and exponent digits. A part that is not there is empty.
\<close>

definition digits_of :: "jsstr \<Rightarrow> jsstr \<times> jsstr" where
  "digits_of s = (takeWhile is_digit s, dropWhile is_digit s)"

definition split_sign :: "jsstr \<Rightarrow> bool \<times> jsstr" where
  "split_sign s = (case s of c # t \<Rightarrow> if c = 0x2D then (True, t) else (False, s) | [] \<Rightarrow> (False, []))"

text \<open>\<open>-?(?:0|[1-9]\d*)(?:\.\d+)?\<close>: sign, digits, fraction and the rest.\<close>

definition read_mantissa :: "jsstr \<Rightarrow> ((bool \<times> jsstr \<times> jsstr) \<times> jsstr) option" where
  "read_mantissa s =
     (case split_sign s of (neg, s) \<Rightarrow>
        case (case s of c # t \<Rightarrow> if c = 0x30 then ([c], t) else digits_of s | [] \<Rightarrow> ([], [])) of (whole, s) \<Rightarrow>
        if whole = [] then None
        else case s of
          c # t \<Rightarrow> if c = 0x2E \<and> fst (digits_of t) \<noteq> [] then Some ((neg, whole, fst (digits_of t)), snd (digits_of t))
                    else Some ((neg, whole, []), s)
        | [] \<Rightarrow> Some ((neg, whole, []), []))"

text \<open>\<open>[eE][+-]?\<close>: the sign of the exponent and the rest.\<close>

definition read_exponent_mark :: "jsstr \<Rightarrow> (bool \<times> jsstr) option" where
  "read_exponent_mark s =
     (case s of
        c # t \<Rightarrow> if c = 0x65 \<or> c = 0x45
          then (case t of d # u \<Rightarrow> if d = 0x2D then Some (True, u) else if d = 0x2B then Some (False, u) else Some (False, t)
                | [] \<Rightarrow> Some (False, []))
          else None
      | [] \<Rightarrow> None)"

section \<open>Numbers\<close>

definition nat_of_digits :: "jsstr \<Rightarrow> nat" where
  "nat_of_digits s = foldl (\<lambda>n c. 10 * n + (unat c - 48)) 0 s"

text \<open>\<open>p\<close> over \<open>q\<close> rounded to an integer, halves to the even one.\<close>

definition round_even :: "nat \<Rightarrow> nat \<Rightarrow> nat" where
  "round_even p q =
     (let d = p div q; r = p mod q
      in if q < 2 * r \<or> 2 * r = q \<and> odd d then d + 1 else d)"

text \<open>The number of binary digits.\<close>

fun bit_count :: "nat \<Rightarrow> nat" where
  "bit_count n = (if n = 0 then 0 else Suc (bit_count (n div 2)))"

declare bit_count.simps [simp del]

text \<open>
  The double nearest to \<open>p / q\<close>: the exponent leaves 53 bits before the rounding, fewer below the normal
  range, and beyond the largest double the value is an infinity.
\<close>

definition double_of_ratio :: "bool \<Rightarrow> nat \<Rightarrow> nat \<Rightarrow> jsnum" where
  "double_of_ratio neg p q =
     (let x0 = int (bit_count p) - int (bit_count q) - 53;
          x1 = (if (if 0 \<le> x0 then q * 2 ^ (53 + nat x0) \<le> p else q * 2 ^ 53 \<le> p * 2 ^ nat (- x0)) then x0 + 1 else x0);
          x = max (-1074) x1;
          m = (if 0 \<le> x then round_even p (q * 2 ^ nat x) else round_even (p * 2 ^ nat (- x)) q);
          bits = min (nat (x + 1074) * 2 ^ 52 + m) (2047 * 2 ^ 52)
      in num_of_f64 (word_of_nat ((if neg then 2 ^ 63 else 0) + bits)))"

definition number_of_parts :: "bool \<Rightarrow> jsstr \<Rightarrow> jsstr \<Rightarrow> int \<Rightarrow> jsnum" where
  "number_of_parts neg whole fraction e10 =
     (let m = nat_of_digits (whole @ fraction); e = e10 - int (length fraction)
      in if m = 0 then (if neg then NBits neg_zero else NInt 0)
         else if 0 \<le> e then double_of_ratio neg (m * 10 ^ nat e) 1 else double_of_ratio neg m (10 ^ nat (- e)))"

text \<open>\<open>NUMBER.test(token) ? Number(token) : undefined\<close>.\<close>

definition number_value :: "jsstr \<Rightarrow> jsnum option" where
  "number_value token =
     (case read_mantissa token of
        None \<Rightarrow> None
      | Some ((neg, whole, fraction), s) \<Rightarrow>
          if s = [] then Some (number_of_parts neg whole fraction 0)
          else case read_exponent_mark s of
            None \<Rightarrow> None
          | Some (eneg, s) \<Rightarrow>
              if s \<noteq> [] \<and> list_all is_digit s
              then Some (number_of_parts neg whole fraction (if eneg then - int (nat_of_digits s) else int (nat_of_digits s)))
              else None)"

definition literals :: "(jsstr \<times> jval) list" where
  "literals = [(js ''true'', VBool True), (js ''false'', VBool False), (js ''null'', VNull)]"

text \<open>\<open>scalarValue\<close> and \<open>pendingScalarValue\<close>.\<close>

definition scalar_value :: "jsstr \<Rightarrow> jval option" where
  "scalar_value token =
     (case find (\<lambda>lv. fst lv = token) literals of
        Some lv \<Rightarrow> Some (snd lv)
      | None \<Rightarrow> map_option VNum (number_value token))"

definition pending_scalar_value :: "jsstr \<Rightarrow> jval option" where
  "pending_scalar_value token =
     (case find (\<lambda>lv. take (length token) (fst lv) = token) literals of
        Some lv \<Rightarrow> Some (snd lv)
      | None \<Rightarrow>
          case number_value token of
            Some n \<Rightarrow> Some (VNum n)
          | None \<Rightarrow>
              case read_mantissa token of
                Some ((neg, whole, fraction), s) \<Rightarrow>
                  (case read_exponent_mark s of
                     Some (_, []) \<Rightarrow> Some (VNum (number_of_parts neg whole fraction 0))
                   | _ \<Rightarrow> None)
              | None \<Rightarrow> None)"

section \<open>Containers\<close>

text \<open>
  \<open>setSlot\<close> and \<open>setMember\<close>: an array grows by the element behind its last one, the only new index the
  parser writes; an object keeps the place of a key it has.
\<close>

fun put :: "slot \<Rightarrow> jval \<Rightarrow> container \<Rightarrow> container" where
  "put (SElement i) v (CArr vs) = CArr (if i < length vs then vs[i := v] else vs @ [v])"
| "put (SMember k) v (CObj kvs) = CObj (al_put k v kvs)"
| "put _ _ c = c"

text \<open>Whether the slot is a new one: \<open>slot.index === elements.length\<close>, \<open>!Object.hasOwn(members, slot.key)\<close>.\<close>

fun is_new :: "slot \<Rightarrow> container \<Rightarrow> bool" where
  "is_new (SElement i) (CArr vs) = (i = length vs)"
| "is_new (SMember k) (CObj kvs) = (k \<notin> fst ` set kvs)"
| "is_new _ _ = False"

definition cell_of :: "parser \<Rightarrow> frame \<Rightarrow> container" where
  "cell_of p f = sp_store p ! fr_container f"

definition set_phase :: "phase \<Rightarrow> parser \<Rightarrow> parser" where
  "set_phase ph p = (case sp_stack p of [] \<Rightarrow> p | f # fs \<Rightarrow> p\<lparr>sp_stack := f\<lparr>fr_phase := ph\<rparr> # fs\<rparr>)"

text \<open>\<open>#place\<close>.\<close>

definition place :: "slot option \<Rightarrow> jval \<Rightarrow> parser \<Rightarrow> parser" where
  "place slot v p =
     (case slot of
        None \<Rightarrow> p
      | Some SRoot \<Rightarrow> p\<lparr>sp_dirty := True, sp_root := Some v\<rparr>
      | Some s \<Rightarrow>
          (case sp_stack p of
             [] \<Rightarrow> p
           | f # fs \<Rightarrow>
               let n = (if is_new s (cell_of p f) then 1 else 0)
               in p\<lparr>sp_dirty := True, sp_stack := f\<lparr>fr_size := fr_size f + n\<rparr> # fs, sp_path_cost := sp_path_cost p + n,
                    sp_store := (sp_store p)[fr_container f := put s v (cell_of p f)]\<rparr>))"

text \<open>\<open>#valueSlot\<close>, \<open>#reportedPath\<close>, \<open>#report\<close>, \<open>#valueEnded\<close>.\<close>

definition value_slot :: "parser \<Rightarrow> slot option" where
  "value_slot p =
     (case sp_stack p of
        [] \<Rightarrow> if sp_root p = None then Some SRoot else None
      | f # _ \<Rightarrow>
          (case cell_of p f of
             CArr vs \<Rightarrow> Some (SElement (length vs))
           | CObj _ \<Rightarrow> if fr_phase f = AtValue \<or> fr_phase f = AtColon then map_option SMember (fr_key f) else None))"

definition reported_path :: "slot option \<Rightarrow> parser \<Rightarrow> json_path option" where
  "reported_path slot p =
     (case slot of
        None \<Rightarrow> None
      | Some SRoot \<Rightarrow> Some []
      | Some s \<Rightarrow> (case sp_stack p of [] \<Rightarrow> None | f # _ \<Rightarrow> if fr_reports f then Some (the (fr_path f) @ [s]) else None))"

definition report :: "change \<Rightarrow> parser \<Rightarrow> parser" where
  "report ch p = p\<lparr>sp_changes := sp_changes p @ [ch]\<rparr>"

definition report_set :: "json_path option \<Rightarrow> jval \<Rightarrow> parser \<Rightarrow> parser" where
  "report_set path v p = (case path of None \<Rightarrow> p | Some q \<Rightarrow> report (ChSet q v) p)"

definition value_ended :: "parser \<Rightarrow> parser" where
  "value_ended p =
     (case sp_stack p of
        [] \<Rightarrow> if sp_root p \<noteq> None then p\<lparr>sp_done := True\<rparr> else p
      | _ # _ \<Rightarrow> set_phase AtComma p)"

section \<open>Strings\<close>

definition start_string :: "parser \<Rightarrow> parser" where
  "start_string p =
     (if (case sp_stack p of f # _ \<Rightarrow> \<not> is_arr (cell_of p f) \<and> (fr_phase f = AtKey \<or> fr_phase f = AtComma) | [] \<Rightarrow> False)
      then p\<lparr>sp_string := Some \<lparr>os_is_key = True, os_slot = None, os_text = [], os_escape = [], os_path = None, os_change = None\<rparr>\<rparr>
      else
        let slot = value_slot p; path = reported_path slot p;
            os = \<lparr>os_is_key = False, os_slot = slot, os_text = [], os_escape = [], os_path = path, os_change = None\<rparr>;
            p = place slot (VStr []) p
        in case path of
             None \<Rightarrow> p\<lparr>sp_string := Some os\<rparr>
           | Some q \<Rightarrow> report (ChSet q (VStr [])) (p\<lparr>sp_string := Some (os\<lparr>os_change := Some (length (sp_changes p))\<rparr>)\<rparr>))"

text \<open>A change extended by more text of its string.\<close>

fun extend_change :: "jsstr \<Rightarrow> change \<Rightarrow> change" where
  "extend_change s (ChSet q (VStr t)) = ChSet q (VStr (t @ s))"
| "extend_change s (ChAppend q t) = ChAppend q (t @ s)"
| "extend_change s ch = ch"

definition append_string :: "jsstr \<Rightarrow> parser \<Rightarrow> parser" where
  "append_string s p =
     (case sp_string p of
        None \<Rightarrow> p
      | Some os \<Rightarrow>
          let os = os\<lparr>os_text := os_text os @ s\<rparr>; p = p\<lparr>sp_string := Some os\<rparr>
          in if os_is_key os then p
             else let p = place (os_slot os) (VStr (os_text os)) p
               in case os_path os of
                    None \<Rightarrow> p
                  | Some q \<Rightarrow>
                      (case os_change os of
                         Some k \<Rightarrow>
                           if k + 1 = length (sp_changes p)
                           then p\<lparr>sp_changes := butlast (sp_changes p) @ [extend_change s (last (sp_changes p))]\<rparr>
                           else report (ChAppend q s) (p\<lparr>sp_string := Some (os\<lparr>os_change := Some (length (sp_changes p))\<rparr>)\<rparr>)
                       | None \<Rightarrow> report (ChAppend q s) (p\<lparr>sp_string := Some (os\<lparr>os_change := Some (length (sp_changes p))\<rparr>)\<rparr>)))"

definition set_escape :: "jsstr \<Rightarrow> parser \<Rightarrow> parser" where
  "set_escape e p = p\<lparr>sp_string := map_option (\<lambda>os. os\<lparr>os_escape := e\<rparr>) (sp_string p)\<rparr>"

definition escape_of :: "parser \<Rightarrow> jsstr" where
  "escape_of p = (case sp_string p of None \<Rightarrow> [] | Some os \<Rightarrow> os_escape os)"

text \<open>\<open>#continueEscape\<close>: whether the character belongs to the escape.\<close>

definition continue_escape :: "16 word \<Rightarrow> parser \<Rightarrow> bool \<times> parser" where
  "continue_escape c p =
     (if escape_of p = [backslash]
      then case simple_escape c of
          Some d \<Rightarrow> (True, append_string [d] (set_escape [] p))
        | None \<Rightarrow> if c = char_u then (True, set_escape [backslash, char_u] p)
                  else (False, append_string [backslash] (set_escape [] p))
      else if is_hex_digit c
      then let e = escape_of p @ [c]
        in if length e < 6 then (True, set_escape e p)
           else (True, append_string [code_unit_of (drop 2 e)] (set_escape [] p))
      else (False, append_string (escape_of p) (set_escape [] p)))"

definition end_string :: "parser \<Rightarrow> parser" where
  "end_string p =
     (case sp_string p of
        None \<Rightarrow> p
      | Some os \<Rightarrow>
          let p = p\<lparr>sp_string := None\<rparr>
          in if os_is_key os
             then (case sp_stack p of
                 [] \<Rightarrow> p
               | f # fs \<Rightarrow> p\<lparr>sp_stack := f\<lparr>fr_key := Some (os_text os), fr_phase := AtColon\<rparr> # fs\<rparr>)
             else value_ended p)"

definition flush :: "jsstr \<Rightarrow> parser \<Rightarrow> parser" where
  "flush run p = (if run = [] then p else append_string run p)"

text \<open>\<open>#readString\<close> with the characters of the run not yet appended; what it leaves unread.\<close>

fun read_string :: "parser \<Rightarrow> jsstr \<Rightarrow> jsstr \<Rightarrow> parser \<times> jsstr" where
  "read_string p run [] = (flush run p, [])"
| "read_string p run (c # rest) =
     (let continued = (if escape_of p \<noteq> [] then continue_escape c p else (False, p));
          run = (if escape_of p \<noteq> [] then [] else run);
          p = snd continued
      in if fst continued then read_string p [] rest
         else if c = quote_char then (end_string (flush run p), rest)
         else if c = backslash then read_string (set_escape [backslash] (flush run p)) [] rest
         else read_string p (run @ [c]) rest)"

section \<open>Scalars and containers\<close>

definition mark_dirty :: "parser \<Rightarrow> parser" where
  "mark_dirty p = (if sp_scalar_slot p \<noteq> None then p\<lparr>sp_dirty := True\<rparr> else p)"

definition end_scalar :: "parser \<Rightarrow> parser" where
  "end_scalar p =
     (let token = sp_scalar p; slot = sp_scalar_slot p; p = p\<lparr>sp_scalar := [], sp_scalar_slot := None\<rparr>
      in value_ended (case scalar_value token of
           None \<Rightarrow> p
         | Some v \<Rightarrow> let p = place slot v p in report_set (reported_path slot p) v p))"

definition read_scalar :: "parser \<Rightarrow> jsstr \<Rightarrow> parser \<times> jsstr" where
  "read_scalar p s =
     (let token = takeWhile (\<lambda>c. \<not> is_delimiter c) s; rest = dropWhile (\<lambda>c. \<not> is_delimiter c) s;
          p = (if token \<noteq> [] then mark_dirty (p\<lparr>sp_scalar := sp_scalar p @ token\<rparr>) else p)
      in (if rest \<noteq> [] then end_scalar p else p, rest))"

definition pending_scalar :: "parser \<Rightarrow> (slot \<times> jval) option" where
  "pending_scalar p =
     (case sp_scalar_slot p of
        None \<Rightarrow> None
      | Some s \<Rightarrow> if sp_scalar p = [] \<or> max_pending_scalar < length (sp_scalar p) then None
                  else map_option (Pair s) (pending_scalar_value (sp_scalar p)))"

definition empty_like :: "container \<Rightarrow> container" where
  "empty_like c = (if is_arr c then CArr [] else CObj [])"

text \<open>\<open>#openContainer\<close>: the container, and another empty one for the change.\<close>

definition open_container :: "container \<Rightarrow> parser \<Rightarrow> parser" where
  "open_container c p =
     (let a = length (sp_store p); p = p\<lparr>sp_store := sp_store p @ [c]\<rparr>;
          slot = value_slot p; path = reported_path slot p; p = place slot (VRef a) p;
          p = p\<lparr>sp_stack := \<lparr>fr_container = a, fr_slot = slot, fr_path = path,
                  fr_reports = (case path of None \<Rightarrow> False | Some q \<Rightarrow> length q < max_reported_depth),
                  fr_size = 0, fr_key = None, fr_phase = (if is_arr c then AtValue else AtKey)\<rparr> # sp_stack p,
                sp_path_cost := sp_path_cost p + 1, sp_dirty := True\<rparr>
      in case path of
           None \<Rightarrow> p
         | Some q \<Rightarrow> report (ChSet q (VRef (length (sp_store p)))) (p\<lparr>sp_store := sp_store p @ [empty_like c]\<rparr>))"

definition close_container :: "parser \<Rightarrow> parser" where
  "close_container p =
     (case sp_stack p of
        [] \<Rightarrow> p
      | f # fs \<Rightarrow>
          let p = p\<lparr>sp_stack := fs, sp_path_cost := sp_path_cost p - (fr_size f + 1), sp_dirty := True\<rparr>
          in value_ended (if fr_path f \<noteq> None \<and> \<not> fr_reports f then report (ChSet (the (fr_path f)) (VRef (fr_container f))) p else p))"

text \<open>\<open>#structural\<close>.\<close>

definition structural :: "16 word \<Rightarrow> parser \<Rightarrow> parser" where
  "structural c p =
     (if is_white c then p
      else if c = quote_char then start_string p
      else if c = 0x7B then open_container (CObj []) p
      else if c = 0x5B then open_container (CArr []) p
      else if c = 0x7D \<or> c = 0x5D then close_container p
      else if c = 0x3A then
        (case sp_stack p of
           f # _ \<Rightarrow> if \<not> is_arr (cell_of p f) \<and> fr_phase f = AtColon then set_phase AtValue p else p
         | [] \<Rightarrow> p)
      else if c = 0x2C then
        (case sp_stack p of
           f # _ \<Rightarrow> set_phase (if is_arr (cell_of p f) then AtValue else AtKey) p
         | [] \<Rightarrow> p)
      else mark_dirty (p\<lparr>sp_scalar := [c], sp_scalar_slot := value_slot p\<rparr>))"

section \<open>Pieces and snapshots\<close>

lemma read_string_shorter: "length (snd (read_string p run s)) \<le> length s"
  by (induction s arbitrary: p run) (auto simp: Let_def intro: le_SucI)

lemma read_string_Cons_shorter: "length (snd (read_string p run (c # s))) \<le> length s"
  by (simp add: Let_def read_string_shorter)

lemma scalar_kept [simp]:
  "sp_scalar (place s v p) = sp_scalar p"
  "sp_scalar (value_ended p) = sp_scalar p"
  "sp_scalar (report_set q v p) = sp_scalar p"
  by (simp_all add: place_def value_ended_def set_phase_def report_set_def report_def Let_def split: option.split slot.split list.split)

lemma end_scalar_ends [simp]: "sp_scalar (end_scalar p) = []"
  by (simp add: end_scalar_def Let_def split: option.split)

function feed :: "parser \<Rightarrow> jsstr \<Rightarrow> parser" where
  "feed p [] = p"
| "feed p (c # s) =
     (if sp_done p then p
      else if sp_string p \<noteq> None then (case read_string p [] (c # s) of (p, rest) \<Rightarrow> feed p rest)
      else if sp_scalar p \<noteq> [] then (case read_scalar p (c # s) of (p, rest) \<Rightarrow> feed p rest)
      else feed (structural c p) s)"
  by pat_completeness auto

termination
proof (relation "measures [\<lambda>(_, s). length s, \<lambda>(p, _). length (sp_scalar p)]", goal_cases)
  case (2 p c s q rest)
  then show ?case
    using read_string_Cons_shorter [of p "[]" c s] by (cases "read_string p [] (c # s)") (auto simp del: read_string.simps)
next
  case (3 p c s q rest)
  have l: "length (dropWhile (\<lambda>c. \<not> is_delimiter c) s) \<le> length s"
    by (rule length_dropWhile_le)
  show ?case
    using 3 l by (auto simp: read_scalar_def Let_def split: if_splits)
qed auto

declare feed.simps [simp del]

text \<open>\<open>append\<close>.\<close>

definition append_text :: "jsstr \<Rightarrow> parser \<Rightarrow> parser" where
  "append_text s p =
     feed (p\<lparr>sp_credit := sp_credit p + credit_per_append + credit_per_character * int (length s), sp_changes := [],
             sp_string := map_option (\<lambda>os. os\<lparr>os_change := None\<rparr>) (sp_string p)\<rparr>) s"

text \<open>\<open>#copyOpenPath\<close>: the copies of the open containers, innermost first, each with the copy of its child.\<close>

fun copy_frames :: "store \<Rightarrow> (slot \<times> jval) option \<Rightarrow> (jval \<times> slot option) option \<Rightarrow> frame list \<Rightarrow> store \<times> (jval \<times> slot option) option" where
  "copy_frames h pending child [] = (h, child)"
| "copy_frames h pending child (f # fs) =
     (let c = h ! fr_container f;
          c = (case pending of None \<Rightarrow> c | Some (s, v) \<Rightarrow> put s v c);
          c = (case child of Some (v, Some s) \<Rightarrow> put s v c | _ \<Rightarrow> c)
      in copy_frames (h @ [c]) None (Some (VRef (length h), fr_slot f)) fs)"

definition copy_open_path :: "parser \<Rightarrow> (slot \<times> jval) option \<Rightarrow> store \<times> jval option" where
  "copy_open_path p pending =
     (if sp_stack p = [] then (sp_store p, (case pending of Some (SRoot, v) \<Rightarrow> Some v | _ \<Rightarrow> sp_root p))
      else case copy_frames (sp_store p) pending None (sp_stack p) of
          (h, Some (v, Some SRoot)) \<Rightarrow> (h, Some v)
        | (h, _) \<Rightarrow> (h, sp_root p))"

text \<open>\<open>snapshot\<close>: the value and the parser after it.\<close>

definition snapshot :: "parser \<Rightarrow> jval option \<times> parser" where
  "snapshot p =
     (if \<not> sp_dirty p then (sp_snapshot p, p)
      else
        let pending = pending_scalar p; cost = sp_path_cost p + (if pending = None then 0 else 1)
        in if sp_credit p < cost then (sp_snapshot p, p)
           else case copy_open_path p pending of
             (h, v) \<Rightarrow> (v, p\<lparr>sp_credit := sp_credit p - cost, sp_dirty := False, sp_snapshot := v, sp_store := h\<rparr>))"

section \<open>The arguments of one call\<close>

text \<open>
  \<open>ToolCallArgumentsStream\<close>. Its arguments are an object: the address of one, where \<open>{}\<close> makes a new one.
  The final parse by \<open>finish\<close> is code of another module.
\<close>

record call_stream =
  cs_text :: jsstr
  cs_parser :: parser
  cs_snapshot :: "jval option"
  cs_arguments :: nat

definition new_stream :: "store \<Rightarrow> call_stream" where
  "new_stream h = \<lparr>cs_text = [], cs_parser = new_parser (h @ [CObj []]), cs_snapshot = None, cs_arguments = length h\<rparr>"

text \<open>\<open>===\<close> on snapshots.\<close>

definition same_snapshot :: "jval option \<Rightarrow> jval option \<Rightarrow> bool" where
  "same_snapshot a b \<longleftrightarrow> (case (a, b) of (Some (VNum m), Some (VNum n)) \<Rightarrow> num_eq m n | _ \<Rightarrow> a = b)"

definition partial_arguments :: "call_stream \<Rightarrow> call_stream" where
  "partial_arguments c =
     (case snapshot (cs_parser c) of
        (v, p) \<Rightarrow>
          if same_snapshot v (cs_snapshot c) then c\<lparr>cs_parser := p\<rparr>
          else (case v of
              Some (VRef a) \<Rightarrow>
                if \<not> is_arr (sp_store p ! a) then c\<lparr>cs_parser := p, cs_snapshot := v, cs_arguments := a\<rparr>
                else c\<lparr>cs_parser := p\<lparr>sp_store := sp_store p @ [CObj []]\<rparr>, cs_snapshot := v, cs_arguments := length (sp_store p)\<rparr>
            | _ \<Rightarrow> c\<lparr>cs_parser := p\<lparr>sp_store := sp_store p @ [CObj []]\<rparr>, cs_snapshot := v, cs_arguments := length (sp_store p)\<rparr>))"

definition append_arguments :: "jsstr \<Rightarrow> call_stream \<Rightarrow> call_stream" where
  "append_arguments delta c = partial_arguments (c\<lparr>cs_text := cs_text c @ delta, cs_parser := append_text delta (cs_parser c)\<rparr>)"

definition replace_arguments :: "jsstr \<Rightarrow> call_stream \<Rightarrow> jsstr option \<times> call_stream" where
  "replace_arguments s c =
     (if take (length (cs_text c)) s = cs_text c
      then let delta = drop (length (cs_text c)) s
        in (Some delta, if delta = [] then partial_arguments c else append_arguments delta c)
      else (None, append_arguments s (c\<lparr>cs_text := [], cs_parser := new_parser (sp_store (cs_parser c))\<rparr>)))"

end
