(* ===== verification/StreamDocs.thy ===== *)
theory StreamDocs
  imports StreamJson
begin

text \<open>
  A reader of the same language that has no store, no pieces and no costs: it reads one character at a
  time and holds plain documents. An open container sits in its frame only, and goes into its parent
  when it closes. What the text read so far shows is \<open>shown\<close>; the part of it that is reported while
  containers are open is \<open>reported\<close>.
\<close>

section \<open>Documents\<close>

datatype doc =
    DNull
  | DBool bool
  | DNum jsnum
  | DStr jsstr
  | DArr "doc list"
  | DObj "(jsstr \<times> doc) list"

fun is_doc_arr :: "doc \<Rightarrow> bool" where
  "is_doc_arr (DArr _) = True"
| "is_doc_arr _ = False"

fun dput :: "slot \<Rightarrow> doc \<Rightarrow> doc \<Rightarrow> doc" where
  "dput (SElement i) d (DArr ds) = DArr (if i < length ds then ds[i := d] else ds @ [d])"
| "dput (SMember k) d (DObj kvs) = DObj (al_put k d kvs)"
| "dput _ _ c = c"

text \<open>The document of a value that is no container.\<close>

fun doc_of :: "jval \<Rightarrow> doc" where
  "doc_of VNull = DNull"
| "doc_of (VBool b) = DBool b"
| "doc_of (VNum n) = DNum n"
| "doc_of (VStr s) = DStr s"
| "doc_of (VRef _) = DNull"

section \<open>The reader\<close>

record doc_frame =
  df_content :: doc
  df_slot :: "slot option"
  df_key :: "jsstr option"
  df_phase :: phase

record doc_string =
  ds_is_key :: bool
  ds_slot :: "slot option"
  ds_text :: jsstr
  ds_escape :: jsstr

record reader =
  rd_root :: "doc option"
  rd_done :: bool
  rd_stack :: "doc_frame list"
  rd_string :: "doc_string option"
  rd_scalar :: jsstr
  rd_scalar_slot :: "slot option"

definition new_reader :: reader where
  "new_reader = \<lparr>rd_root = None, rd_done = False, rd_stack = [], rd_string = None, rd_scalar = [], rd_scalar_slot = None\<rparr>"

definition rplace :: "slot option \<Rightarrow> doc \<Rightarrow> reader \<Rightarrow> reader" where
  "rplace slot d r =
     (case slot of
        None \<Rightarrow> r
      | Some SRoot \<Rightarrow> r\<lparr>rd_root := Some d\<rparr>
      | Some s \<Rightarrow> (case rd_stack r of [] \<Rightarrow> r | f # fs \<Rightarrow> r\<lparr>rd_stack := f\<lparr>df_content := dput s d (df_content f)\<rparr> # fs\<rparr>))"

definition rset_phase :: "phase \<Rightarrow> reader \<Rightarrow> reader" where
  "rset_phase ph r = (case rd_stack r of [] \<Rightarrow> r | f # fs \<Rightarrow> r\<lparr>rd_stack := f\<lparr>df_phase := ph\<rparr> # fs\<rparr>)"

definition rvalue_slot :: "reader \<Rightarrow> slot option" where
  "rvalue_slot r =
     (case rd_stack r of
        [] \<Rightarrow> if rd_root r = None then Some SRoot else None
      | f # _ \<Rightarrow>
          (case df_content f of
             DArr ds \<Rightarrow> Some (SElement (length ds))
           | _ \<Rightarrow> if df_phase f = AtValue \<or> df_phase f = AtColon then map_option SMember (df_key f) else None))"

definition rvalue_ended :: "reader \<Rightarrow> reader" where
  "rvalue_ended r =
     (case rd_stack r of
        [] \<Rightarrow> if rd_root r \<noteq> None then r\<lparr>rd_done := True\<rparr> else r
      | _ # _ \<Rightarrow> rset_phase AtComma r)"

definition rstart_string :: "reader \<Rightarrow> reader" where
  "rstart_string r =
     (if (case rd_stack r of f # _ \<Rightarrow> \<not> is_doc_arr (df_content f) \<and> (df_phase f = AtKey \<or> df_phase f = AtComma) | [] \<Rightarrow> False)
      then r\<lparr>rd_string := Some \<lparr>ds_is_key = True, ds_slot = None, ds_text = [], ds_escape = []\<rparr>\<rparr>
      else (rplace (rvalue_slot r) (DStr []) r)
        \<lparr>rd_string := Some \<lparr>ds_is_key = False, ds_slot = rvalue_slot r, ds_text = [], ds_escape = []\<rparr>\<rparr>)"

definition rappend :: "jsstr \<Rightarrow> reader \<Rightarrow> reader" where
  "rappend s r =
     (case rd_string r of
        None \<Rightarrow> r
      | Some os \<Rightarrow>
          let os = os\<lparr>ds_text := ds_text os @ s\<rparr>; r = r\<lparr>rd_string := Some os\<rparr>
          in if ds_is_key os then r else rplace (ds_slot os) (DStr (ds_text os)) r)"

definition rset_escape :: "jsstr \<Rightarrow> reader \<Rightarrow> reader" where
  "rset_escape e r = r\<lparr>rd_string := map_option (\<lambda>os. os\<lparr>ds_escape := e\<rparr>) (rd_string r)\<rparr>"

definition rescape :: "reader \<Rightarrow> jsstr" where
  "rescape r = (case rd_string r of None \<Rightarrow> [] | Some os \<Rightarrow> ds_escape os)"

definition rcontinue_escape :: "16 word \<Rightarrow> reader \<Rightarrow> bool \<times> reader" where
  "rcontinue_escape c r =
     (if rescape r = [backslash]
      then case simple_escape c of
          Some d \<Rightarrow> (True, rappend [d] (rset_escape [] r))
        | None \<Rightarrow> if c = char_u then (True, rset_escape [backslash, char_u] r)
                  else (False, rappend [backslash] (rset_escape [] r))
      else if is_hex_digit c
      then let e = rescape r @ [c]
        in if length e < 6 then (True, rset_escape e r)
           else (True, rappend [code_unit_of (drop 2 e)] (rset_escape [] r))
      else (False, rappend (rescape r) (rset_escape [] r)))"

definition rend_string :: "reader \<Rightarrow> reader" where
  "rend_string r =
     (case rd_string r of
        None \<Rightarrow> r
      | Some os \<Rightarrow>
          let r = r\<lparr>rd_string := None\<rparr>
          in if ds_is_key os
             then (case rd_stack r of
                 [] \<Rightarrow> r
               | f # fs \<Rightarrow> r\<lparr>rd_stack := f\<lparr>df_key := Some (ds_text os), df_phase := AtColon\<rparr> # fs\<rparr>)
             else rvalue_ended r)"

definition rplain :: "16 word \<Rightarrow> reader \<Rightarrow> reader" where
  "rplain c r = (if c = quote_char then rend_string r else if c = backslash then rset_escape [backslash] r else rappend [c] r)"

definition rstring_char :: "16 word \<Rightarrow> reader \<Rightarrow> reader" where
  "rstring_char c r =
     (if rescape r = [] then rplain c r
      else case rcontinue_escape c r of (continued, r) \<Rightarrow> if continued then r else rplain c r)"

definition rend_scalar :: "reader \<Rightarrow> reader" where
  "rend_scalar r =
     (let token = rd_scalar r; slot = rd_scalar_slot r; r = r\<lparr>rd_scalar := [], rd_scalar_slot := None\<rparr>
      in rvalue_ended (case scalar_value token of None \<Rightarrow> r | Some v \<Rightarrow> rplace slot (doc_of v) r))"

text \<open>An opened container takes its place at once, empty, and again when it closes.\<close>

definition ropen :: "doc \<Rightarrow> reader \<Rightarrow> reader" where
  "ropen d r =
     (let slot = rvalue_slot r; r = rplace slot d r
      in r\<lparr>rd_stack := \<lparr>df_content = d, df_slot = slot, df_key = None,
             df_phase = (if is_doc_arr d then AtValue else AtKey)\<rparr> # rd_stack r\<rparr>)"

definition rclose :: "reader \<Rightarrow> reader" where
  "rclose r =
     (case rd_stack r of
        [] \<Rightarrow> r
      | f # fs \<Rightarrow> rvalue_ended (rplace (df_slot f) (df_content f) (r\<lparr>rd_stack := fs\<rparr>)))"

definition rstructural :: "16 word \<Rightarrow> reader \<Rightarrow> reader" where
  "rstructural c r =
     (if is_white c then r
      else if c = quote_char then rstart_string r
      else if c = 0x7B then ropen (DObj []) r
      else if c = 0x5B then ropen (DArr []) r
      else if c = 0x7D \<or> c = 0x5D then rclose r
      else if c = 0x3A then
        (case rd_stack r of
           f # _ \<Rightarrow> if \<not> is_doc_arr (df_content f) \<and> df_phase f = AtColon then rset_phase AtValue r else r
         | [] \<Rightarrow> r)
      else if c = 0x2C then
        (case rd_stack r of
           f # _ \<Rightarrow> rset_phase (if is_doc_arr (df_content f) then AtValue else AtKey) r
         | [] \<Rightarrow> r)
      else r\<lparr>rd_scalar := [c], rd_scalar_slot := rvalue_slot r\<rparr>)"

definition read_char :: "16 word \<Rightarrow> reader \<Rightarrow> reader" where
  "read_char c r =
     (if rd_done r then r
      else if rd_string r \<noteq> None then rstring_char c r
      else if rd_scalar r \<noteq> [] then
        (if is_delimiter c then (let r = rend_scalar r in if rd_done r then r else rstructural c r)
         else r\<lparr>rd_scalar := rd_scalar r @ [c]\<rparr>)
      else rstructural c r)"

definition read_text :: "jsstr \<Rightarrow> reader \<Rightarrow> reader" where
  "read_text s r = fold read_char s r"

lemma read_text_simps [simp]:
  "read_text [] r = r"
  "read_text (c # s) r = read_text s (read_char c r)"
  "read_text (s @ t) r = read_text t (read_text s r)"
  by (simp_all add: read_text_def)

lemma read_text_done: "rd_done r \<Longrightarrow> read_text s r = r"
  by (induction s) (simp_all add: read_char_def)

section \<open>What a text shows\<close>

text \<open>The document with \<open>d\<close> at the slot of the innermost of the frames.\<close>

fun plug :: "doc \<Rightarrow> slot option \<Rightarrow> doc_frame list \<Rightarrow> doc option \<Rightarrow> doc option" where
  "plug d s [] root = (if s = Some SRoot then Some d else root)"
| "plug d s (f # fs) root =
     plug (case s of None \<Rightarrow> df_content f | Some s \<Rightarrow> dput s d (df_content f)) (df_slot f) fs root"

definition view :: "doc_frame list \<Rightarrow> doc option \<Rightarrow> doc option" where
  "view fs root = (case fs of [] \<Rightarrow> root | f # fs \<Rightarrow> plug (df_content f) (df_slot f) fs root)"

definition rpending :: "reader \<Rightarrow> (slot \<times> doc) option" where
  "rpending r =
     (case rd_scalar_slot r of
        None \<Rightarrow> None
      | Some s \<Rightarrow> if rd_scalar r = [] \<or> max_pending_scalar < length (rd_scalar r) then None
                  else map_option (\<lambda>v. (s, doc_of v)) (pending_scalar_value (rd_scalar r)))"

text \<open>With the number or literal the text ends in, and without.\<close>

definition shown :: "reader \<Rightarrow> doc option" where
  "shown r = (case rpending r of None \<Rightarrow> view (rd_stack r) (rd_root r) | Some (s, d) \<Rightarrow> plug d (Some s) (rd_stack r) (rd_root r))"

definition settled :: "reader \<Rightarrow> doc option" where
  "settled r = view (rd_stack r) (rd_root r)"

text \<open>Of more than 32 open containers only the outer ones show in the changes.\<close>

definition reported :: "reader \<Rightarrow> doc option" where
  "reported r = view (drop (length (rd_stack r) - max_reported_depth) (rd_stack r)) (rd_root r)"

end
