(* ===== verification/StreamFollow.thy ===== *)
theory StreamFollow
  imports StreamDocs
begin

text \<open>
  From runs of characters to single ones. A relation between the parser and the reader that every
  operation of the parser keeps is kept by a whole piece of text, although the parser appends the
  characters of a string and of a scalar in runs and the reader takes them one by one.
\<close>

section \<open>Runs\<close>

text \<open>The slot of an open string is one its container has.\<close>

fun has_slot :: "slot \<Rightarrow> container \<Rightarrow> bool" where
  "has_slot (SElement i) (CArr vs) = (i < length vs)"
| "has_slot (SMember k) (CObj kvs) = (k \<in> fst ` set kvs)"
| "has_slot _ _ = False"

definition string_ok :: "parser \<Rightarrow> bool" where
  "string_ok p \<longleftrightarrow>
     (\<forall>os. sp_string p = Some os \<longrightarrow> \<not> sp_done p \<and>
        (\<not> os_is_key os \<longrightarrow> os_slot os = None \<or> os_slot os = Some SRoot \<and> sp_stack p = [] \<or>
           (\<exists>s f fs. os_slot os = Some s \<and> sp_stack p = f # fs \<and> has_slot s (cell_of p f) \<and> fr_container f < length (sp_store p))))"

lemma al_put_put [simp]: "al_put k v (al_put k w kvs) = al_put k v kvs"
  by (induction kvs) auto

lemma put_put: "is_new s c \<or> has_slot s c \<Longrightarrow> put s v (put s w c) = put s v c"
  by (induction s w c rule: put.induct) (auto simp: list_update_append)

lemma al_put_keys: "fst ` set (al_put k v kvs) = insert k (fst ` set kvs)"
  by (induction k v kvs rule: al_put.induct) auto

lemma has_slot_put: "has_slot s c \<Longrightarrow> has_slot s (put s v c)"
  by (induction s v c rule: put.induct) (auto simp: al_put_keys)

lemma has_slot_not_new: "has_slot s c \<Longrightarrow> \<not> is_new s c"
  by (induction s c rule: has_slot.induct) auto

lemma place_place:
  assumes "slot = None \<or> slot = Some SRoot \<or> (\<exists>s f fs. slot = Some s \<and> sp_stack p = f # fs \<and> has_slot s (cell_of p f) \<and>
    fr_container f < length (sp_store p))"
  shows "place slot v (place slot w p) = place slot v p"
  using assms by (auto simp: place_def cell_of_def put_put has_slot_put has_slot_not_new split: slot.split)

lemma append_append:
  assumes "string_ok p"
  shows "append_string t (append_string s p) = append_string (s @ t) p"
proof (cases "sp_string p")
  case (Some os)
  let ?q = "p\<lparr>sp_string := Some (os\<lparr>os_text := os_text os @ s\<rparr>)\<rparr>"
  have pp: "place (os_slot os) v (place (os_slot os) w q) = place (os_slot os) v q"
    if "sp_stack q = sp_stack p" "sp_store q = sp_store p" "\<not> os_is_key os" for v w q
    using assms Some that by (intro place_place) (auto simp: string_ok_def cell_of_def)
  have ps: "place slot v (p'\<lparr>sp_string := x\<rparr>) = (place slot v p')\<lparr>sp_string := x\<rparr>"
    "place slot v (p'\<lparr>sp_changes := cs\<rparr>) = (place slot v p')\<lparr>sp_changes := cs\<rparr>" for slot v p' x cs
    by (auto simp: place_def cell_of_def Let_def split: option.split slot.split list.split)
  have c: "sp_changes (place slot v p') = sp_changes p'" "sp_string (place slot v p') = sp_string p'" for slot v p'
    by (auto simp: place_def Let_def split: option.split slot.split list.split)
  have e: "extend_change t (extend_change s ch) = extend_change (s @ t) ch" for ch
    by (cases ch; cases "case ch of ChSet _ v \<Rightarrow> v | _ \<Rightarrow> VNull") auto
  show ?thesis
  proof (cases "os_is_key os \<or> os_path os = None")
    case True
    then show ?thesis
      using Some by (auto simp: append_string_def Let_def ps c pp split: option.split)
  next
    case False
    then obtain q where q: "os_path os = Some q" "\<not> os_is_key os"
      by auto
    show ?thesis
    proof (cases "\<exists>k. os_change os = Some k \<and> k + 1 = length (sp_changes p)")
      case True
      then obtain k where k: "os_change os = Some k" "length (sp_changes p) = Suc k"
        by (metis Suc_eq_plus1)
      then show ?thesis
        using Some q by (simp add: append_string_def Let_def ps c pp e)
    next
      case F: False
      then show ?thesis
        using Some q by (cases "os_change os") (simp_all add: append_string_def Let_def ps c pp report_def)
    qed
  qed
qed (simp add: append_string_def)

lemma string_kept [simp]:
  "sp_string (place slot v p) = sp_string p"
  "sp_string (append_string s p) = None \<longleftrightarrow> sp_string p = None"
  "sp_string (set_escape e p) = None \<longleftrightarrow> sp_string p = None"
  "escape_of (append_string s p) = escape_of p"
  "sp_string p \<noteq> None \<Longrightarrow> escape_of (set_escape e p) = e"
  by (auto simp: place_def append_string_def set_escape_def escape_of_def report_def Let_def
      split: option.split slot.split list.split)

section \<open>Following\<close>

locale follower =
  fixes I :: "parser \<Rightarrow> reader \<Rightarrow> bool"
  assumes same: "I p r \<Longrightarrow> string_ok p \<and> sp_done p = rd_done r \<and> (sp_string p = None \<longleftrightarrow> rd_string r = None) \<and>
      escape_of p = rescape r \<and> sp_scalar p = rd_scalar r"
    and appends: "I p r \<Longrightarrow> sp_string p \<noteq> None \<Longrightarrow> I (append_string s p) (rappend s r)"
    and escapes: "I p r \<Longrightarrow> sp_string p \<noteq> None \<Longrightarrow> I (set_escape e p) (rset_escape e r)"
    and ends: "I p r \<Longrightarrow> sp_string p \<noteq> None \<Longrightarrow> I (end_string p) (rend_string r)"
    and extends: "I p r \<Longrightarrow> \<not> sp_done p \<Longrightarrow> sp_string p = None \<Longrightarrow> sp_scalar p \<noteq> [] \<Longrightarrow>
      I (mark_dirty (p\<lparr>sp_scalar := sp_scalar p @ s\<rparr>)) (r\<lparr>rd_scalar := rd_scalar r @ s\<rparr>)"
    and ends_scalar: "I p r \<Longrightarrow> \<not> sp_done p \<Longrightarrow> sp_string p = None \<Longrightarrow> sp_scalar p \<noteq> [] \<Longrightarrow> I (end_scalar p) (rend_scalar r)"
    and steps: "I p r \<Longrightarrow> \<not> sp_done p \<Longrightarrow> sp_string p = None \<Longrightarrow> sp_scalar p = [] \<Longrightarrow> I (structural c p) (rstructural c r)"
begin

lemma continues:
  assumes "I p r" and "sp_string p \<noteq> None"
  shows "fst (continue_escape c p) = fst (rcontinue_escape c r) \<and>
    I (snd (continue_escape c p)) (snd (rcontinue_escape c r)) \<and> sp_string (snd (continue_escape c p)) \<noteq> None \<and>
    (\<not> fst (continue_escape c p) \<longrightarrow> escape_of (snd (continue_escape c p)) = [])"
proof -
  have e: "I (set_escape e p) (rset_escape e r)" for e
    using escapes assms .
  have a: "I (append_string s (set_escape e p)) (rappend s (rset_escape e r))" for s e
    using appends [OF e] assms(2) by simp
  have "escape_of p = rescape r"
    using same [OF assms(1)] by simp
  then show ?thesis
    using assms(2) e a by (simp add: continue_escape_def rcontinue_escape_def Let_def del: not_None_eq split: option.split)
qed

lemma not_done: "I p r \<Longrightarrow> sp_string p \<noteq> None \<Longrightarrow> \<not> rd_done r"
  using same [of p r] by (auto simp: string_ok_def)

lemma flush_snoc:
  assumes "string_ok p"
  shows "flush (run @ [c]) p = append_string [c] (flush run p)"
  using append_append [OF assms, of "[c]" run] by (simp add: flush_def)

lemma reads_string:
  "I (flush run p) r \<Longrightarrow> string_ok p \<Longrightarrow> sp_string p \<noteq> None \<Longrightarrow> run = [] \<or> escape_of p = [] \<Longrightarrow>
     \<exists>s1. s = s1 @ snd (read_string p run s) \<and> I (fst (read_string p run s)) (read_text s1 r)"
proof (induction s arbitrary: p run r)
  case Nil
  then show ?case
    by simp
next
  case (Cons c s)
  have st: "sp_string (flush run p) \<noteq> None" "escape_of (flush run p) = escape_of p"
    using Cons.prems(3) by (simp_all add: flush_def del: not_None_eq)
  have read: "read_char c r = rstring_char c r"
    using not_done [OF Cons.prems(1) st(1)] same [OF Cons.prems(1)] st(1) by (simp add: read_char_def)
  have esc: "rescape r = escape_of p"
    using same [OF Cons.prems(1)] st(2) by simp
  have plain: "\<exists>s1. c # s = s1 @ snd (if c = quote_char then (end_string (flush run' p'), s)
        else if c = backslash then read_string (set_escape [backslash] (flush run' p')) [] s else read_string p' (run' @ [c]) s) \<and>
      I (fst (if c = quote_char then (end_string (flush run' p'), s)
        else if c = backslash then read_string (set_escape [backslash] (flush run' p')) [] s else read_string p' (run' @ [c]) s))
       (read_text s1 r)"
    if h: "I (flush run' p') r'" "read_char c r = rplain c r'" "string_ok p'" "sp_string p' \<noteq> None" "escape_of p' = []"
    for p' run' r'
  proof -
    have fl: "sp_string (flush run' p') \<noteq> None"
      using h(4) by (simp add: flush_def del: not_None_eq)
    consider "c = quote_char" | "c \<noteq> quote_char" "c = backslash" | "c \<noteq> quote_char" "c \<noteq> backslash"
      by blast
    then show ?thesis
    proof cases
      case 1
      then show ?thesis
        using ends [OF h(1) fl] h(2) by (intro exI [of _ "[c]"]) (simp add: rplain_def)
    next
      case 2
      let ?p = "set_escape [backslash] (flush run' p')"
      have "I ?p (read_char c r)"
        using escapes [OF h(1) fl] h(2) 2 by (simp add: rplain_def)
      moreover have "string_ok ?p"
        using same calculation by blast
      ultimately obtain s1 where "s = s1 @ snd (read_string ?p [] s)" "I (fst (read_string ?p [] s)) (read_text s1 (read_char c r))"
        using Cons.IH [of "[]" ?p "read_char c r"] fl by (auto simp: flush_def)
      then show ?thesis
        using 2 by (intro exI [of _ "c # s1"]) simp
    next
      case 3
      have "I (flush (run' @ [c]) p') (read_char c r)"
        using appends [OF h(1) fl, of "[c]"] h(2) 3 by (simp add: flush_snoc [OF h(3)] rplain_def)
      then obtain s1 where "s = s1 @ snd (read_string p' (run' @ [c]) s)"
          "I (fst (read_string p' (run' @ [c]) s)) (read_text s1 (read_char c r))"
        using Cons.IH [of "run' @ [c]" p' "read_char c r"] h by blast
      then show ?thesis
        using 3 by (intro exI [of _ "c # s1"]) simp
    qed
  qed
  show ?case
  proof (cases "escape_of p = []")
    case True
    then have "read_string p run (c # s) = (if c = quote_char then (end_string (flush run p), s)
        else if c = backslash then read_string (set_escape [backslash] (flush run p)) [] s else read_string p (run @ [c]) s)"
      by (simp add: Let_def)
    moreover have "read_char c r = rplain c r"
      using True read esc by (simp add: rstring_char_def)
    ultimately show ?thesis
      using plain [OF Cons.prems(1) _ Cons.prems(2,3) True] by (simp only:)
  next
    case False
    then have run: "run = []" and I: "I p r"
      using Cons.prems by (auto simp: flush_def)
    have c: "fst (continue_escape c p) = fst (rcontinue_escape c r)"
      "I (snd (continue_escape c p)) (snd (rcontinue_escape c r))" "sp_string (snd (continue_escape c p)) \<noteq> None"
      "\<not> fst (continue_escape c p) \<Longrightarrow> escape_of (snd (continue_escape c p)) = []"
      using continues [OF I Cons.prems(3), of c] by auto
    have ok: "string_ok (snd (continue_escape c p))"
      using same [OF c(2)] by simp
    show ?thesis
    proof (cases "fst (continue_escape c p)")
      case True
      then have "read_char c r = snd (rcontinue_escape c r)"
        using False esc read c(1) by (simp add: rstring_char_def case_prod_beta)
      then obtain s1 where "s = s1 @ snd (read_string (snd (continue_escape c p)) [] s)"
          "I (fst (read_string (snd (continue_escape c p)) [] s)) (read_text s1 (read_char c r))"
        using Cons.IH [of "[]" "snd (continue_escape c p)" "read_char c r"] c ok by (auto simp: flush_def)
      then show ?thesis
        using True False by (intro exI [of _ "c # s1"]) (simp add: Let_def)
    next
      case F: False
      then have "read_char c r = rplain c (snd (rcontinue_escape c r))"
        using False esc read c(1) by (simp add: rstring_char_def case_prod_beta)
      then show ?thesis
        using plain [of "[]" "snd (continue_escape c p)" "snd (rcontinue_escape c r)"] c ok F False
        by (simp add: Let_def flush_def)
    qed
  qed
qed

lemma scalar_run:
  "I p r \<Longrightarrow> \<not> sp_done p \<Longrightarrow> sp_string p = None \<Longrightarrow> sp_scalar p \<noteq> [] \<Longrightarrow> list_all (\<lambda>c. \<not> is_delimiter c) s \<Longrightarrow>
     read_text s r = r\<lparr>rd_scalar := rd_scalar r @ s\<rparr>"
proof (induction s rule: rev_induct)
  case (snoc c s)
  then show ?case
    using same [OF snoc.prems(1)] by (simp add: read_char_def)
qed simp

lemma reads_scalar:
  assumes "I p r" and "\<not> sp_done p" and "sp_string p = None" and "sp_scalar p \<noteq> []"
  shows "\<exists>s1. s = s1 @ snd (read_scalar p s) \<and>
    (snd (read_scalar p s) = [] \<longrightarrow> I (fst (read_scalar p s)) (read_text s1 r)) \<and>
    (snd (read_scalar p s) \<noteq> [] \<longrightarrow> I (fst (read_scalar p s)) (rend_scalar (read_text s1 r)) \<and>
       is_delimiter (hd (snd (read_scalar p s))) \<and> \<not> rd_done (read_text s1 r) \<and> rd_string (read_text s1 r) = None \<and>
       rd_scalar (read_text s1 r) \<noteq> [])"
proof -
  let ?t = "takeWhile (\<lambda>c. \<not> is_delimiter c) s" and ?u = "dropWhile (\<lambda>c. \<not> is_delimiter c) s"
  let ?p = "if ?t \<noteq> [] then mark_dirty (p\<lparr>sp_scalar := sp_scalar p @ ?t\<rparr>) else p"
  have "list_all (\<lambda>c. \<not> is_delimiter c) ?t"
    by (auto simp: list_all_iff dest: set_takeWhileD)
  then have t: "read_text ?t r = r\<lparr>rd_scalar := rd_scalar r @ ?t\<rparr>"
    by (rule scalar_run [OF assms])
  have I: "I ?p (read_text ?t r)"
    using extends [OF assms, of ?t] assms(1) by (simp add: t)
  have m: "sp_done ?p = sp_done p" "sp_string ?p = sp_string p" "sp_scalar ?p \<noteq> []"
    using assms(4) by (simp_all add: mark_dirty_def)
  have e: "I (end_scalar ?p) (rend_scalar (read_text ?t r))"
    using ends_scalar [OF I] m assms by simp
  have d: "is_delimiter (hd ?u)" if "?u \<noteq> []"
    using hd_dropWhile [OF that] by simp
  show ?thesis
    using I e d same [OF I] m assms(2,3) by (intro exI [of _ ?t]) (auto simp: read_scalar_def Let_def)
qed

text \<open>A piece, read in runs, keeps the relation to the characters read one by one.\<close>

theorem feeds: "I p r \<Longrightarrow> I (feed p s) (read_text s r)"
proof (induction p s arbitrary: r rule: feed.induct)
  case (1 p)
  then show ?case
    by (simp add: feed.simps)
next
  case (2 p c s)
  note st = same [OF 2(4)]
  consider (finished) "sp_done p" | (string) "\<not> sp_done p" "sp_string p \<noteq> None"
    | (scalar) "\<not> sp_done p" "sp_string p = None" "sp_scalar p \<noteq> []" | (idle) "\<not> sp_done p" "sp_string p = None" "sp_scalar p = []"
    by blast
  then show ?case
  proof cases
    case finished
    then show ?thesis
      using 2(4) st read_text_done [of r "c # s"] by (simp add: feed.simps del: read_text_simps)
  next
    case string
    obtain q rest where q: "read_string p [] (c # s) = (q, rest)"
      by (metis surj_pair)
    have "\<exists>s1. c # s = s1 @ rest \<and> I q (read_text s1 r)"
      using reads_string [of "[]" p r "c # s"] 2(4) st string q by (simp add: flush_def del: read_string.simps not_None_eq)
    then obtain s1 where s1: "c # s = s1 @ rest" "I q (read_text s1 r)"
      by blast
    have "I (feed q rest) (read_text rest (read_text s1 r))"
      using 2(1) [OF _ _ q [symmetric] s1(2)] string by simp
    then have "I (feed q rest) (read_text (c # s) r)"
      using s1(1) by (simp only: read_text_simps(3) [symmetric])
    then show ?thesis
      using string q by (subst feed.simps) (simp del: read_string.simps read_text_simps not_None_eq)
  next
    case scalar
    obtain q rest where q: "read_scalar p (c # s) = (q, rest)"
      by (metis surj_pair)
    obtain s1 where s1: "c # s = s1 @ rest" "rest = [] \<Longrightarrow> I q (read_text s1 r)"
      "rest \<noteq> [] \<Longrightarrow> I q (rend_scalar (read_text s1 r)) \<and> is_delimiter (hd rest) \<and> \<not> rd_done (read_text s1 r) \<and>
         rd_string (read_text s1 r) = None \<and> rd_scalar (read_text s1 r) \<noteq> []"
      using reads_scalar [OF 2(4) scalar, of "c # s"] q by auto
    have f: "feed p (c # s) = feed q rest"
      using scalar q by (subst feed.simps) simp
    show ?thesis
    proof (cases "rest = []")
      case True
      then have "I q (read_text (c # s) r)"
        using s1(1,2) by (metis append_Nil2)
      then show ?thesis
        using f True by (simp add: feed.simps(1) del: read_text_simps)
    next
      case False
      then obtain d rest' where rest: "rest = d # rest'"
        by (cases rest) auto
      have I: "I (feed q rest) (read_text rest (rend_scalar (read_text s1 r)))"
        using 2(2) [OF _ _ _ q [symmetric]] s1(3) [OF False] scalar by simp
      have "rd_scalar (rend_scalar (read_text s1 r)) = []" "rd_string (rend_scalar (read_text s1 r)) = None"
        using s1(3) [OF False] same by (auto simp: rend_scalar_def rvalue_ended_def rset_phase_def rplace_def Let_def
            split: option.split list.split slot.split)
      then have "read_char d (rend_scalar (read_text s1 r)) = read_char d (read_text s1 r)"
        using s1(3) [OF False] rest by (simp add: read_char_def [of d "read_text s1 r"] Let_def) (simp add: read_char_def)
      then have "read_text rest (rend_scalar (read_text s1 r)) = read_text (c # s) r"
        using s1(1) rest by (metis read_text_simps(2,3))
      then show ?thesis
        using I f by simp
    qed
  next
    case idle
    have "I (structural c p) (rstructural c r)"
      using steps [OF 2(4) idle] .
    moreover have "read_char c r = rstructural c r"
      using st idle by (simp add: read_char_def)
    ultimately show ?thesis
      using 2(3) [of "rstructural c r"] idle by (subst feed.simps) simp
  qed
qed

end

end
