(* ===== verification/StreamGrammar.thy ===== *)
theory StreamGrammar
  imports StreamFollow
begin

text \<open>
  The reader reads JSON: of a text that the grammar gives a value it shows that value, whatever white
  space it has. Of a repeated key the last value counts, at the place of the first.
\<close>

section \<open>The grammar\<close>

text \<open>Strict JSON has no control characters in its strings; the reader takes them.\<close>

inductive string_text :: "bool \<Rightarrow> jsstr \<Rightarrow> jsstr \<Rightarrow> bool" for strict where
  string_end: "string_text strict [] []"
| string_plain: "c \<noteq> quote_char \<Longrightarrow> c \<noteq> backslash \<Longrightarrow> strict \<longrightarrow> 0x20 \<le> c \<Longrightarrow> string_text strict t v \<Longrightarrow> string_text strict (c # t) (c # v)"
| string_escape: "simple_escape c = Some d \<Longrightarrow> string_text strict t v \<Longrightarrow> string_text strict (backslash # c # t) (d # v)"
| string_unit: "length hex = 4 \<Longrightarrow> list_all is_hex_digit hex \<Longrightarrow> string_text strict t v \<Longrightarrow>
    string_text strict (backslash # char_u # hex @ t) (code_unit_of hex # v)"

definition white :: "jsstr \<Rightarrow> bool" where
  "white w \<longleftrightarrow> list_all is_white w"

definition quoted :: "jsstr \<Rightarrow> jsstr" where
  "quoted t = quote_char # t @ [quote_char]"

definition object_with :: "(jsstr \<times> doc) list \<Rightarrow> (jsstr \<times> doc) list \<Rightarrow> (jsstr \<times> doc) list" where
  "object_with m kvs = foldl (\<lambda>m (k, d). al_put k d m) m kvs"

inductive json_value :: "bool \<Rightarrow> jsstr \<Rightarrow> doc \<Rightarrow> bool"
  and json_elements :: "bool \<Rightarrow> jsstr \<Rightarrow> doc list \<Rightarrow> bool"
  and json_members :: "bool \<Rightarrow> jsstr \<Rightarrow> (jsstr \<times> doc) list \<Rightarrow> bool" for strict where
  value_scalar: "scalar_value t = Some v \<Longrightarrow> json_value strict t (doc_of v)"
| value_string: "string_text strict t v \<Longrightarrow> json_value strict (quoted t) (DStr v)"
| value_empty_array: "white w \<Longrightarrow> json_value strict (0x5B # w @ [0x5D]) (DArr [])"
| value_array: "json_elements strict t ds \<Longrightarrow> json_value strict (0x5B # t @ [0x5D]) (DArr ds)"
| value_empty_object: "white w \<Longrightarrow> json_value strict (0x7B # w @ [0x7D]) (DObj [])"
| value_object: "json_members strict t kvs \<Longrightarrow> json_value strict (0x7B # t @ [0x7D]) (DObj (object_with [] kvs))"
| last_element: "white w1 \<Longrightarrow> json_value strict t d \<Longrightarrow> white w2 \<Longrightarrow> json_elements strict (w1 @ t @ w2) [d]"
| more_elements: "white w1 \<Longrightarrow> json_value strict t d \<Longrightarrow> white w2 \<Longrightarrow> json_elements strict u ds \<Longrightarrow>
    json_elements strict (w1 @ t @ w2 @ 0x2C # u) (d # ds)"
| last_member: "white w1 \<Longrightarrow> string_text strict k k' \<Longrightarrow> white w2 \<Longrightarrow> white w3 \<Longrightarrow> json_value strict t d \<Longrightarrow> white w4 \<Longrightarrow>
    json_members strict (w1 @ quoted k @ w2 @ 0x3A # w3 @ t @ w4) [(k', d)]"
| more_members: "white w1 \<Longrightarrow> string_text strict k k' \<Longrightarrow> white w2 \<Longrightarrow> white w3 \<Longrightarrow> json_value strict t d \<Longrightarrow> white w4 \<Longrightarrow> json_members strict u kvs \<Longrightarrow>
    json_members strict (w1 @ quoted k @ w2 @ 0x3A # w3 @ t @ w4 @ 0x2C # u) ((k', d) # kvs)"

section \<open>Tokens\<close>

text \<open>A literal or a number has none of the characters that end it.\<close>

definition token_text :: "jsstr \<Rightarrow> bool" where
  "token_text t \<longleftrightarrow> list_all (\<lambda>c. \<not> is_delimiter c) t"

lemma token_simps [simp]:
  "token_text []" "token_text (c # t) \<longleftrightarrow> \<not> is_delimiter c \<and> token_text t" "token_text (s @ t) \<longleftrightarrow> token_text s \<and> token_text t"
  by (simp_all add: token_text_def)

lemma no_delimiters [simp]: "\<not> is_delimiter 0x2D" "\<not> is_delimiter 0x30" "\<not> is_delimiter 0x2E" "\<not> is_delimiter 0x65"
  "\<not> is_delimiter 0x45" "\<not> is_delimiter 0x2B"
  by (simp_all add: is_delimiter_def is_white_def quote_char_def)

lemma digit_no_delimiter: "is_digit c \<Longrightarrow> \<not> is_delimiter c"
  by (auto simp: is_digit_def is_delimiter_def is_white_def quote_char_def)

lemma digits_token: "list_all is_digit s \<Longrightarrow> token_text s" "token_text (fst (digits_of s))"
  using digit_no_delimiter set_takeWhileD by (fastforce simp: token_text_def list_all_iff digits_of_def)+

lemma digits_split: "fst (digits_of s) @ snd (digits_of s) = s"
  by (simp add: digits_of_def)

lemma digits_rest: "token_text (snd (digits_of s)) \<Longrightarrow> token_text s"
  using digits_token(2) digits_split token_simps(3) by metis

lemma mantissa_token: "read_mantissa s = Some (x, t) \<Longrightarrow> token_text t \<Longrightarrow> s \<noteq> [] \<and> token_text s"
proof -
  assume r: "read_mantissa s = Some (x, t)" "token_text t"
  obtain neg u where u: "split_sign s = (neg, u)"
    by fastforce
  obtain whole v where w: "(case u of c # t \<Rightarrow> if c = 0x30 then ([c], t) else digits_of u | [] \<Rightarrow> ([], [])) = (whole, v)"
    by fastforce
  have "whole \<noteq> []" and v: "token_text v"
    using r u w digits_rest by (auto simp: read_mantissa_def split: list.splits if_splits)
  then have "u \<noteq> []" "token_text u"
    using w digits_rest [of u] by (auto simp: split: list.splits if_splits)
  then show ?thesis
    using u by (auto simp: split_sign_def split: list.splits if_splits)
qed

lemma exponent_token: "read_exponent_mark s = Some (x, t) \<Longrightarrow> token_text t \<Longrightarrow> token_text s"
  by (auto simp: read_exponent_mark_def split: list.splits if_splits)

lemma number_token: "number_value t = Some n \<Longrightarrow> t \<noteq> [] \<and> token_text t"
  using mantissa_token exponent_token digits_token(1)
  by (fastforce simp: number_value_def split: option.splits if_splits prod.splits)

lemma scalar_token: "scalar_value t = Some v \<Longrightarrow> t \<noteq> [] \<and> token_text t"
proof -
  assume v: "scalar_value t = Some v"
  have "t \<noteq> [] \<and> token_text t" if "t \<in> fst ` set literals"
    using that by (auto simp: literals_def js_def is_delimiter_def is_white_def quote_char_def)
  then have "t \<noteq> [] \<and> token_text t" if "find (\<lambda>lv. fst lv = t) literals = Some lv" for lv
    using that by (auto simp: find_Some_iff image_iff dest: nth_mem)
  then show ?thesis
    using v number_token [of t] by (auto simp: scalar_value_def split: option.splits)
qed

section \<open>Between values\<close>

text \<open>The reader stands before a value for the slot, or between tokens.\<close>

definition idle :: "reader \<Rightarrow> bool" where
  "idle r \<longleftrightarrow> \<not> rd_done r \<and> rd_string r = None \<and> rd_scalar r = [] \<and> rd_scalar_slot r = None"

definition ended :: "slot \<Rightarrow> doc \<Rightarrow> reader \<Rightarrow> reader" where
  "ended s d r = rvalue_ended (rplace (Some s) d r)"

lemma read_idle: "idle r \<Longrightarrow> read_char c r = rstructural c r"
  by (simp add: idle_def read_char_def)

lemma read_white: "white w \<Longrightarrow> idle r \<or> rd_done r \<Longrightarrow> read_text w r = r"
proof (induction w)
  case (Cons c w)
  then show ?case
    using read_idle [of r c] by (auto simp: white_def rstructural_def read_char_def)
qed simp

lemma rplace_fields [simp]:
  "rd_done (rplace s d r) = rd_done r" "rd_string (rplace s d r) = rd_string r" "rd_scalar (rplace s d r) = rd_scalar r"
  "rd_scalar_slot (rplace s d r) = rd_scalar_slot r"
  by (simp_all add: rplace_def split: option.split slot.split list.split)

lemma ended_idle: "idle r \<Longrightarrow> idle (ended s d r) \<or> rd_done (ended s d r)"
  by (simp add: ended_def idle_def rvalue_ended_def rset_phase_def split: list.split)

lemma slot_again:
  assumes "rvalue_slot r = Some s"
  shows "rplace (Some s) x (rplace (Some s) y r) = rplace (Some s) x r"
proof (cases "rd_stack r")
  case Nil
  then show ?thesis
    using assms by (simp add: rvalue_slot_def rplace_def split: if_splits)
next
  case (Cons f fs)
  have "dput t x (dput t y (df_content f)) = dput t x (df_content f)" if "rvalue_slot r = Some t" for t
    using that Cons by (cases "df_content f") (auto simp: rvalue_slot_def list_update_append split: if_splits)
  then show ?thesis
    using assms Cons by (auto simp: rplace_def split: slot.split)
qed

section \<open>Strings\<close>

lemma read_string_text:
  assumes "string_text strict t u" and g: "\<And>v u. rappend u (g v) = g (v @ u)"
    and st: "\<And>v. \<not> rd_done (g v) \<and> (\<exists>os. rd_string (g v) = Some os \<and> ds_escape os = [])"
  shows "read_text t (g v) = g (v @ u)"
proof -
  have r: "read_char c (rset_escape e (g v)) = rstring_char c (rset_escape e (g v))" for c e v
    using st [of v] by (auto simp: read_char_def rset_escape_def)
  have e: "rescape (rset_escape e (g v)) = e" for e v
    using st [of v] by (auto simp: rescape_def rset_escape_def)
  have again: "rset_escape e (rset_escape e' q) = rset_escape e q" for e e' q
    by (cases "rd_string q") (simp_all add: rset_escape_def)
  have none: "rset_escape [] (g v) = g v" for v
    using st [of v] by (auto simp: rset_escape_def)
  have step: "read_char c (g v) = rplain c (g v)" for c v
    using r [of c "[]" v] e [of "[]" v] by (simp add: none rstring_char_def)
  have start: "read_char backslash (g v) = rset_escape [backslash] (g v)" for v
    by (simp add: step rplain_def backslash_def quote_char_def)
  have simple: "read_char c (rset_escape [backslash] (g v)) = g (v @ [d])" if "simple_escape c = Some d" for c d v
    using that by (simp add: r rstring_char_def e rcontinue_escape_def again none g)
  have "read_char char_u (rset_escape [backslash] (g v)) = rset_escape [backslash, char_u] (g v)" for v
    by (simp add: r rstring_char_def e rcontinue_escape_def again simple_escape_def char_u_def quote_char_def backslash_def)
  moreover have digit: "read_char c (rset_escape (backslash # char_u # hs) (g v)) =
      (if length hs < 3 then rset_escape (backslash # char_u # hs @ [c]) (g v) else g (v @ [code_unit_of (hs @ [c])]))"
    if "is_hex_digit c" for c hs v
    using that by (simp add: r rstring_char_def e rcontinue_escape_def again none g Let_def)
  moreover have "\<exists>a b c d. hex = [a, b, c, d]" if "length hex = 4" for hex :: jsstr
    using that by (auto simp: numeral_eq_Suc length_Suc_conv)
  ultimately have unit: "read_text (backslash # char_u # hex @ t) (g v) = read_text t (g (v @ [code_unit_of hex]))"
    if "length hex = 4" "list_all is_hex_digit hex" for hex t v
    using that by (fastforce simp: start)
  show ?thesis
    using assms(1)
  proof (induction arbitrary: v)
    case (string_plain c t u)
    then show ?case
      by (simp add: step rplain_def g)
  next
    case (string_escape c d t u)
    then show ?case
      by (simp add: start simple)
  next
    case (string_unit hex t u)
    then show ?case
      using unit [OF string_unit(1,2), of t v] by (simp del: read_text_simps)
  qed simp
qed

lemma read_key:
  assumes "idle r" and "rd_stack r = f # fs" and "\<not> is_doc_arr (df_content f)" and "df_phase f = AtKey" and "string_text strict k k'"
  shows "read_text (quoted k) r = r\<lparr>rd_stack := f\<lparr>df_key := Some k', df_phase := AtColon\<rparr> # fs\<rparr>"
proof -
  let ?g = "\<lambda>v. r\<lparr>rd_string := Some \<lparr>ds_is_key = True, ds_slot = None, ds_text = v, ds_escape = []\<rparr>\<rparr>"
  have "read_char quote_char r = ?g []"
    using assms by (simp add: read_idle rstructural_def quote_char_def is_white_def rstart_string_def)
  moreover have "read_text k (?g []) = ?g ([] @ k')"
    by (rule read_string_text [OF assms(5)]) (use assms(1) in \<open>simp_all add: rappend_def idle_def\<close>)
  moreover have "read_char quote_char (?g v) = r\<lparr>rd_stack := f\<lparr>df_key := Some v, df_phase := AtColon\<rparr> # fs\<rparr>" for v
    using assms(1,2) by (cases r) (simp add: read_char_def idle_def rstring_char_def rescape_def rplain_def rend_string_def)
  ultimately show ?thesis
    by (simp add: quoted_def)
qed

lemma rplace_string: "rplace s d (r\<lparr>rd_string := x\<rparr>) = (rplace s d r)\<lparr>rd_string := x\<rparr>"
  by (simp add: rplace_def split: option.split slot.split list.split)

lemma read_string_value:
  assumes "idle r" and "rvalue_slot r = Some s" and "string_text strict t v"
    and "\<And>f fs. rd_stack r = f # fs \<Longrightarrow> is_doc_arr (df_content f) \<or> df_phase f = AtValue"
  shows "read_text (quoted t) r = ended s (DStr v) r"
proof -
  let ?g = "\<lambda>v. (rplace (Some s) (DStr v) r)\<lparr>rd_string := Some \<lparr>ds_is_key = False, ds_slot = Some s, ds_text = v, ds_escape = []\<rparr>\<rparr>"
  have start: "read_char quote_char r = ?g []"
    using assms(1,2,4) by (fastforce simp: read_idle rstructural_def quote_char_def is_white_def rstart_string_def split: list.split)
  have body: "read_text t (?g []) = ?g ([] @ v)"
    by (rule read_string_text [OF assms(3)])
      (use assms(1) in \<open>simp_all add: rappend_def idle_def rplace_string slot_again [OF assms(2)]\<close>)
  have n: "(rplace (Some s) d r)\<lparr>rd_string := None\<rparr> = rplace (Some s) d r" for d
    using assms(1) rplace_fields(2) [of "Some s" d r] by (cases "rplace (Some s) d r") (simp add: idle_def)
  have "read_char quote_char (?g v) = rvalue_ended ((rplace (Some s) (DStr v) r)\<lparr>rd_string := None\<rparr>)" for v
    using assms(1) by (simp add: read_char_def idle_def rstring_char_def rescape_def rplain_def rend_string_def)
  then have "read_char quote_char (?g v) = ended s (DStr v) r" for v
    by (simp only: n ended_def)
  then show ?thesis
    by (simp add: quoted_def start body)
qed

section \<open>Scalars\<close>

lemma read_scalar_value:
  assumes "idle r" and "rvalue_slot r = Some s" and "scalar_value t = Some v" and "is_delimiter c"
  shows "read_char c (read_text t r) = read_char c (ended s (doc_of v) r)"
proof -
  have tk: "t \<noteq> []" "token_text t"
    using scalar_token [OF assms(3)] by simp_all
  then obtain b u where t: "t = b # u"
    by (cases t) auto
  have b: "\<not> is_delimiter b"
    using tk t by simp
  have first: "read_char b r = r\<lparr>rd_scalar := [b], rd_scalar_slot := Some s\<rparr>"
    using assms(1,2) b by (simp add: read_idle rstructural_def is_delimiter_def)
  have "read_text u q = q\<lparr>rd_scalar := rd_scalar q @ u\<rparr>" if "token_text u" "\<not> rd_done q" "rd_string q = None" "rd_scalar q \<noteq> []" for q
    using that by (induction u arbitrary: q) (simp_all add: read_char_def)
  then have "read_text t r = r\<lparr>rd_scalar := t, rd_scalar_slot := Some s\<rparr>"
    using tk t assms(1) by (simp add: first idle_def)
  moreover have "rend_scalar (r\<lparr>rd_scalar := t, rd_scalar_slot := Some s\<rparr>) = ended s (doc_of v) r"
    using assms(1,3) by (cases r) (simp add: rend_scalar_def ended_def idle_def)
  ultimately show ?thesis
    using ended_idle [OF assms(1), of s "doc_of v"] assms(1,4) tk(1)
    by (auto simp: read_char_def idle_def Let_def)
qed

section \<open>Containers\<close>

definition opened :: "slot \<Rightarrow> doc \<Rightarrow> reader \<Rightarrow> reader" where
  "opened s d r = (rplace (Some s) d r)\<lparr>rd_stack := \<lparr>df_content = d, df_slot = Some s, df_key = None,
     df_phase = (if is_doc_arr d then AtValue else AtKey)\<rparr> # rd_stack (rplace (Some s) d r)\<rparr>"

lemma read_open:
  assumes "idle r" and "rvalue_slot r = Some s"
  shows "read_char 0x5B r = opened s (DArr []) r" "read_char 0x7B r = opened s (DObj []) r"
  using assms by (simp_all add: read_idle rstructural_def is_white_def quote_char_def ropen_def opened_def Let_def)

text \<open>The frame a bracket closes counts by its content only.\<close>

lemma read_close:
  assumes "idle r" and "rd_stack r = f # fs" and "c = 0x5D \<or> c = 0x7D"
  shows "read_char c r = rclose (r\<lparr>rd_stack := f\<lparr>df_key := k, df_phase := ph\<rparr> # fs\<rparr>)"
  using assms by (auto simp: read_idle rstructural_def is_white_def quote_char_def rclose_def)

lemma close_opened:
  assumes "idle r" and "rvalue_slot r = Some s"
  shows "rclose ((opened s d r)\<lparr>rd_stack := f\<lparr>df_content := e, df_slot := Some s\<rparr> # rd_stack (rplace (Some s) d r)\<rparr>) = ended s e r"
proof -
  have "(opened s d r)\<lparr>rd_stack := rd_stack (rplace (Some s) d r)\<rparr> = rplace (Some s) d r"
    by (simp add: opened_def)
  then show ?thesis
    using slot_again [OF assms(2), of e d] by (simp add: rclose_def ended_def)
qed

section \<open>Values\<close>

definition before :: "slot \<Rightarrow> reader \<Rightarrow> bool" where
  "before s r \<longleftrightarrow> idle r \<and> rvalue_slot r = Some s \<and>
     (\<forall>f fs. rd_stack r = f # fs \<longrightarrow> is_doc_arr (df_content f) \<or> df_phase f = AtValue)"

text \<open>What a delimiter after the text of a value, of elements and of members makes of the reader.\<close>

definition reads_value :: "jsstr \<Rightarrow> doc \<Rightarrow> bool" where
  "reads_value t d \<longleftrightarrow>
     (\<forall>s r. before s r \<longrightarrow> (\<forall>c. is_delimiter c \<longrightarrow> read_char c (read_text t r) = read_char c (ended s d r)) \<and>
        (is_delimiter (hd t) \<longrightarrow> read_text t r = ended s d r))"

definition reads_elements :: "jsstr \<Rightarrow> doc list \<Rightarrow> bool" where
  "reads_elements t ds \<longleftrightarrow>
     (\<forall>r f fs es. idle r \<longrightarrow> rd_stack r = f # fs \<longrightarrow> df_content f = DArr es \<longrightarrow>
        read_char 0x5D (read_text t r) = rclose (r\<lparr>rd_stack := f\<lparr>df_content := DArr (es @ ds)\<rparr> # fs\<rparr>))"

definition reads_members :: "jsstr \<Rightarrow> (jsstr \<times> doc) list \<Rightarrow> bool" where
  "reads_members t kvs \<longleftrightarrow>
     (\<forall>r f fs m. idle r \<longrightarrow> rd_stack r = f # fs \<longrightarrow> df_content f = DObj m \<longrightarrow> df_phase f = AtKey \<longrightarrow>
        read_char 0x7D (read_text t r) = rclose (r\<lparr>rd_stack := f\<lparr>df_content := DObj (object_with m kvs)\<rparr> # fs\<rparr>))"

lemma read_after:
  assumes "reads_value t d" and "before s r" and "white w" and "is_delimiter c"
  shows "read_char c (read_text w (read_text t r)) = read_char c (ended s d r)"
proof (cases w)
  case Nil
  then show ?thesis
    using assms by (simp add: reads_value_def)
next
  case (Cons a u)
  then have "is_delimiter a"
    using assms(3) by (simp add: white_def is_delimiter_def)
  then have "read_text w (read_text t r) = read_text w (ended s d r)"
    using assms(1,2) Cons by (simp add: reads_value_def)
  then show ?thesis
    using read_white [OF assms(3) ended_idle] assms(2) by (simp add: before_def)
qed

lemma delimiters: "is_delimiter 0x5D" "is_delimiter 0x7D" "is_delimiter 0x2C" "is_delimiter 0x5B" "is_delimiter 0x7B" "is_delimiter quote_char"
  by (simp_all add: is_delimiter_def)

lemma ended_element:
  assumes "rd_stack r = f # fs" and "df_content f = DArr es"
  shows "ended (SElement (length es)) d r = r\<lparr>rd_stack := f\<lparr>df_content := DArr (es @ [d]), df_phase := AtComma\<rparr> # fs\<rparr>"
  using assms by (simp add: ended_def rvalue_ended_def rset_phase_def rplace_def)

lemma before_element: "idle r \<Longrightarrow> rd_stack r = f # fs \<Longrightarrow> df_content f = DArr es \<Longrightarrow> before (SElement (length es)) r"
  by (simp add: before_def rvalue_slot_def)

lemma close_again: "rclose (r\<lparr>rd_stack := f\<lparr>df_content := d, df_phase := ph\<rparr> # fs\<rparr>) = rclose (r\<lparr>rd_stack := f\<lparr>df_content := d\<rparr> # fs\<rparr>)"
  "rclose (r\<lparr>rd_stack := f\<lparr>df_content := d, df_key := k, df_phase := ph\<rparr> # fs\<rparr>) = rclose (r\<lparr>rd_stack := f\<lparr>df_content := d\<rparr> # fs\<rparr>)"
  "rclose (r\<lparr>rd_stack := f\<lparr>df_phase := ph, df_content := d\<rparr> # fs\<rparr>) = rclose (r\<lparr>rd_stack := f\<lparr>df_content := d\<rparr> # fs\<rparr>)"
  by (simp_all add: rclose_def)

lemma reads_last_element:
  assumes "white w1" and "reads_value t d" and "white w2"
  shows "reads_elements (w1 @ t @ w2) [d]"
  unfolding reads_elements_def
proof (intro allI impI)
  fix r f fs es
  assume r: "idle r" "rd_stack r = f # fs" "df_content f = DArr es"
  let ?r = "r\<lparr>rd_stack := f\<lparr>df_content := DArr (es @ [d]), df_phase := AtComma\<rparr> # fs\<rparr>"
  have i: "idle ?r"
    using r(1) by (simp add: idle_def)
  have "read_char 0x5D (read_text (w1 @ t @ w2) r) = read_char 0x5D ?r"
    using read_after [OF assms(2) before_element [OF r] assms(3) delimiters(1)] read_white [OF assms(1)] r ended_element [OF r(2,3)] by simp
  also have "\<dots> = rclose (r\<lparr>rd_stack := f\<lparr>df_content := DArr (es @ [d])\<rparr> # fs\<rparr>)"
    using r(1) i by (simp add: read_idle rstructural_def is_white_def quote_char_def close_again)
  finally show "read_char 0x5D (read_text (w1 @ t @ w2) r) = \<dots>" .
qed

lemma reads_more_elements:
  assumes "white w1" and "reads_value t d" and "white w2" and "reads_elements u ds"
  shows "reads_elements (w1 @ t @ w2 @ 0x2C # u) (d # ds)"
  unfolding reads_elements_def
proof (intro allI impI)
  fix r f fs es
  assume r: "idle r" "rd_stack r = f # fs" "df_content f = DArr es"
  let ?f = "f\<lparr>df_content := DArr (es @ [d]), df_phase := AtValue\<rparr>"
  let ?r = "r\<lparr>rd_stack := ?f # fs\<rparr>"
  have "read_char 0x2C (read_text (w1 @ t @ w2) r) = ?r"
    using read_after [OF assms(2) before_element [OF r] assms(3) delimiters(3)] read_white [OF assms(1)] r ended_element [OF r(2,3)]
    by (simp add: read_idle idle_def rstructural_def is_white_def quote_char_def rset_phase_def)
  moreover have "read_char 0x5D (read_text u ?r) = rclose (?r\<lparr>rd_stack := ?f\<lparr>df_content := DArr ((es @ [d]) @ ds)\<rparr> # fs\<rparr>)"
    by (rule assms(4) [unfolded reads_elements_def, rule_format]) (use r(1) in \<open>simp_all add: idle_def\<close>)
  ultimately show "read_char 0x5D (read_text (w1 @ t @ w2 @ 0x2C # u) r) = rclose (r\<lparr>rd_stack := f\<lparr>df_content := DArr (es @ d # ds)\<rparr> # fs\<rparr>)"
    by (simp add: rclose_def)
qed

lemma read_member:
  assumes "idle r" and "rd_stack r = f # fs" and "df_content f = DObj m" and "df_phase f = AtKey"
    and "white w1" and "string_text strict k k'" and "white w2" and "white w3" and "reads_value t d" and "white w4" and "is_delimiter c"
  shows "read_char c (read_text (w1 @ quoted k @ w2 @ 0x3A # w3 @ t @ w4) r) =
    read_char c (r\<lparr>rd_stack := f\<lparr>df_key := Some k', df_content := DObj (al_put k' d m), df_phase := AtComma\<rparr> # fs\<rparr>)"
proof -
  let ?k = "r\<lparr>rd_stack := f\<lparr>df_key := Some k', df_phase := AtColon\<rparr> # fs\<rparr>"
  let ?v = "r\<lparr>rd_stack := f\<lparr>df_key := Some k', df_phase := AtValue\<rparr> # fs\<rparr>"
  have i: "idle ?k" "idle ?v"
    using assms(1) by (simp_all add: idle_def)
  have "read_text (quoted k) r = ?k"
    by (rule read_key [OF assms(1,2) _ assms(4,6)]) (simp add: assms(3))
  moreover have "read_char 0x3A ?k = ?v"
    using i(1) assms(3) by (simp add: read_idle rstructural_def is_white_def quote_char_def rset_phase_def)
  moreover have "before (SMember k') ?v"
    using i(2) assms(3) by (simp add: before_def rvalue_slot_def)
  then have "read_char c (read_text w4 (read_text t ?v)) = read_char c (ended (SMember k') d ?v)"
    by (rule read_after [OF assms(9) _ assms(10,11)])
  moreover have "ended (SMember k') d ?v =
      r\<lparr>rd_stack := f\<lparr>df_key := Some k', df_content := DObj (al_put k' d m), df_phase := AtComma\<rparr> # fs\<rparr>"
    using assms(3) by (simp add: ended_def rvalue_ended_def rset_phase_def rplace_def)
  ultimately show ?thesis
    using read_white [OF assms(5)] read_white [OF assms(7)] read_white [OF assms(8)] assms(1) i by simp
qed

lemma reads_last_member:
  assumes "white w1" and "string_text strict k k'" and "white w2" and "white w3" and "reads_value t d" and "white w4"
  shows "reads_members (w1 @ quoted k @ w2 @ 0x3A # w3 @ t @ w4) [(k', d)]"
  unfolding reads_members_def
proof (intro allI impI)
  fix r f fs m
  assume r: "idle r" "rd_stack r = f # fs" "df_content f = DObj m" "df_phase f = AtKey"
  show "read_char 0x7D (read_text (w1 @ quoted k @ w2 @ 0x3A # w3 @ t @ w4) r) =
      rclose (r\<lparr>rd_stack := f\<lparr>df_content := DObj (object_with m [(k', d)])\<rparr> # fs\<rparr>)"
    unfolding read_member [OF r assms delimiters(2)]
    using r(1) by (simp add: read_char_def idle_def rstructural_def is_white_def quote_char_def rclose_def object_with_def)
qed

lemma reads_more_members:
  assumes "white w1" and "string_text strict k k'" and "white w2" and "white w3" and "reads_value t d" and "white w4"
    and "reads_members u kvs"
  shows "reads_members (w1 @ quoted k @ w2 @ 0x3A # w3 @ t @ w4 @ 0x2C # u) ((k', d) # kvs)"
  unfolding reads_members_def
proof (intro allI impI)
  fix r f fs m
  assume r: "idle r" "rd_stack r = f # fs" "df_content f = DObj m" "df_phase f = AtKey"
  let ?f = "f\<lparr>df_key := Some k', df_content := DObj (al_put k' d m), df_phase := AtKey\<rparr>"
  let ?r = "r\<lparr>rd_stack := ?f # fs\<rparr>"
  have "read_char 0x2C (read_text (w1 @ quoted k @ w2 @ 0x3A # w3 @ t @ w4) r) = ?r"
    unfolding read_member [OF r assms(1-6) delimiters(3)]
    using r(1) by (simp add: read_char_def idle_def rstructural_def is_white_def quote_char_def rset_phase_def)
  moreover have "read_char 0x7D (read_text u ?r) = rclose (?r\<lparr>rd_stack := ?f\<lparr>df_content := DObj (object_with (al_put k' d m) kvs)\<rparr> # fs\<rparr>)"
    by (rule assms(7) [unfolded reads_members_def, rule_format]) (use r(1) in \<open>simp_all add: idle_def\<close>)
  ultimately show "read_char 0x7D (read_text (w1 @ quoted k @ w2 @ 0x3A # w3 @ t @ w4 @ 0x2C # u) r) =
      rclose (r\<lparr>rd_stack := f\<lparr>df_content := DObj (object_with m ((k', d) # kvs))\<rparr> # fs\<rparr>)"
    by (simp add: rclose_def object_with_def)
qed

lemma opened_stack: "idle r \<Longrightarrow> idle (opened s d r)"
  "rd_stack (opened s d r) = \<lparr>df_content = d, df_slot = Some s, df_key = None, df_phase = (if is_doc_arr d then AtValue else AtKey)\<rparr> #
     rd_stack (rplace (Some s) d r)"
  by (simp_all add: opened_def idle_def)

lemma reads_bracketed:
  assumes "before s r" and "c = 0x5B \<and> d = DArr [] \<and> c' = 0x5D \<or> c = 0x7B \<and> d = DObj [] \<and> c' = 0x7D"
    and "read_char c' (read_text t (opened s d r)) = rclose ((opened s d r)\<lparr>rd_stack := (hd (rd_stack (opened s d r)))\<lparr>df_content := e\<rparr> # rd_stack (rplace (Some s) d r)\<rparr>)"
  shows "read_text (c # t @ [c']) r = ended s e r"
proof -
  have r: "idle r" "rvalue_slot r = Some s"
    using assms(1) by (simp_all add: before_def)
  have "read_text (c # t @ [c']) r = read_char c' (read_text t (opened s d r))"
    using read_open [OF r] assms(2) by auto
  also have "\<dots> = ended s e r"
    unfolding assms(3) opened_stack(2)
    using close_opened [OF r, where d = d and f = "hd (rd_stack (opened s d r))" and e = e] by (simp add: opened_stack(2))
  finally show ?thesis .
qed

lemma reads_delimited: "is_delimiter (hd t) \<Longrightarrow> (\<And>s r. before s r \<Longrightarrow> read_text t r = ended s d r) \<Longrightarrow> reads_value t d"
  by (simp add: reads_value_def)

theorem grammar_reads:
  "json_value strict t d \<Longrightarrow> reads_value t d"
  "json_elements strict u ds \<Longrightarrow> reads_elements u ds"
  "json_members strict w kvs \<Longrightarrow> reads_members w kvs"
proof (induction rule: json_value_json_elements_json_members.inducts)
  case (value_scalar t v)
  then have "t \<noteq> []" "token_text t"
    using scalar_token by blast+
  then have "\<not> is_delimiter (hd t)"
    by (cases t) auto
  then show ?case
    using read_scalar_value value_scalar by (simp add: reads_value_def before_def)
next
  case (value_string t v)
  then show ?case
    by (intro reads_delimited read_string_value) (simp_all add: quoted_def delimiters before_def)
next
  case (value_empty_array w)
  have "read_text (0x5B # w @ [0x5D]) r = ended s (DArr []) r" if "before s r" for s r
    using that read_white [OF value_empty_array] opened_stack [where r = r and s = s and d = "DArr []"]
    by (intro reads_bracketed [where d = "DArr []"])
      (simp_all add: before_def read_idle rstructural_def is_white_def quote_char_def rclose_def)
  then show ?case
    by (intro reads_delimited) (simp_all add: delimiters)
next
  case (value_array t ds)
  have "read_text (0x5B # t @ [0x5D]) r = ended s (DArr ds) r" if "before s r" for s r
    using that value_array opened_stack [where r = r and s = s and d = "DArr []"]
    by (intro reads_bracketed [where d = "DArr []"]) (simp_all add: before_def reads_elements_def)
  then show ?case
    by (intro reads_delimited) (simp_all add: delimiters)
next
  case (value_empty_object w)
  have "read_text (0x7B # w @ [0x7D]) r = ended s (DObj []) r" if "before s r" for s r
    using that read_white [OF value_empty_object] opened_stack [where r = r and s = s and d = "DObj []"]
    by (intro reads_bracketed [where d = "DObj []"])
      (simp_all add: before_def read_idle rstructural_def is_white_def quote_char_def rclose_def)
  then show ?case
    by (intro reads_delimited) (simp_all add: delimiters)
next
  case (value_object t kvs)
  have "read_text (0x7B # t @ [0x7D]) r = ended s (DObj (object_with [] kvs)) r" if "before s r" for s r
    using that value_object opened_stack [where r = r and s = s and d = "DObj []"]
    by (intro reads_bracketed [where d = "DObj []"]) (simp_all add: before_def reads_members_def)
  then show ?case
    by (intro reads_delimited) (simp_all add: delimiters)
qed (simp_all add: reads_last_element reads_more_elements reads_last_member reads_more_members)

section \<open>Texts\<close>

lemma before_new: "before SRoot new_reader"
  by (simp add: before_def idle_def new_reader_def rvalue_slot_def)

lemma json_text_read:
  assumes "white w1" and "json_value strict t d" and "is_delimiter (hd t)" and "white w2"
  shows "read_text (w1 @ t @ w2) new_reader = new_reader\<lparr>rd_root := Some d, rd_done := True\<rparr>"
proof -
  have "read_text t new_reader = ended SRoot d new_reader"
    using grammar_reads(1) [OF assms(2)] before_new assms(3) by (simp add: reads_value_def)
  moreover have "read_text w1 new_reader = new_reader"
    using read_white [OF assms(1)] before_new by (simp add: before_def)
  moreover have "ended SRoot d new_reader = new_reader\<lparr>rd_root := Some d, rd_done := True\<rparr>"
    by (simp add: ended_def rvalue_ended_def rplace_def new_reader_def)
  ultimately show ?thesis
    by (simp add: read_text_done)
qed

end
