(* ===== verification/JsonParse.thy ===== *)
theory JsonParse
  imports StreamGrammar
begin

text \<open>
  \<open>JSON.parse\<close> of the language, as a recursive descent over the text, and the repair of string literals
  of \<open>packages/ai/src/utils/json-parse.ts\<close> that runs where it fails. The descent accepts exactly what the
  strict grammar gives a value.
\<close>

section \<open>JSON.parse\<close>

definition skip_white :: "jsstr \<Rightarrow> jsstr" where
  "skip_white s = dropWhile is_white s"

text \<open>The characters behind an opening quote: the string and what follows its closing quote.\<close>

fun parse_string :: "jsstr \<Rightarrow> (jsstr \<times> jsstr) option" where
  "parse_string [] = None"
| "parse_string (c # s) =
     (if c = quote_char then Some ([], s)
      else if c = backslash then
        (case s of
           [] \<Rightarrow> None
         | d # t \<Rightarrow>
             (case simple_escape d of
                Some e \<Rightarrow> map_option (apfst (Cons e)) (parse_string t)
              | None \<Rightarrow>
                  if d = char_u \<and> 4 \<le> length t \<and> list_all is_hex_digit (take 4 t)
                  then map_option (apfst (Cons (code_unit_of (take 4 t)))) (parse_string (drop 4 t)) else None))
      else if c < 0x20 then None else map_option (apfst (Cons c)) (parse_string s))"

fun parse_value :: "nat \<Rightarrow> jsstr \<Rightarrow> (doc \<times> jsstr) option"
  and parse_elements :: "nat \<Rightarrow> doc list \<Rightarrow> jsstr \<Rightarrow> (doc \<times> jsstr) option"
  and parse_members :: "nat \<Rightarrow> (jsstr \<times> doc) list \<Rightarrow> jsstr \<Rightarrow> (doc \<times> jsstr) option" where
  "parse_value 0 s = None"
| "parse_value (Suc n) s =
     (case s of
        [] \<Rightarrow> None
      | c # t \<Rightarrow>
          if c = quote_char then map_option (apfst DStr) (parse_string t)
          else if c = 0x5B then
            (case skip_white t of
               [] \<Rightarrow> None
             | d # u \<Rightarrow> if d = 0x5D then Some (DArr [], u) else parse_elements n [] t)
          else if c = 0x7B then
            (case skip_white t of
               [] \<Rightarrow> None
             | d # u \<Rightarrow> if d = 0x7D then Some (DObj [], u) else parse_members n [] t)
          else map_option (\<lambda>v. (doc_of v, dropWhile (\<lambda>c. \<not> is_delimiter c) s)) (scalar_value (takeWhile (\<lambda>c. \<not> is_delimiter c) s)))"
| "parse_elements 0 ds s = None"
| "parse_elements (Suc n) ds s =
     (case parse_value n (skip_white s) of
        None \<Rightarrow> None
      | Some (d, t) \<Rightarrow>
          (case skip_white t of
             [] \<Rightarrow> None
           | c # u \<Rightarrow> if c = 0x2C then parse_elements n (ds @ [d]) u else if c = 0x5D then Some (DArr (ds @ [d]), u) else None))"
| "parse_members 0 m s = None"
| "parse_members (Suc n) m s =
     (case skip_white s of
        [] \<Rightarrow> None
      | q # s \<Rightarrow>
          if q \<noteq> quote_char then None
          else case parse_string s of
            None \<Rightarrow> None
          | Some (k, s) \<Rightarrow>
              (case skip_white s of
                 [] \<Rightarrow> None
               | q # s \<Rightarrow>
                   if q \<noteq> 0x3A then None
                   else case parse_value n (skip_white s) of
                     None \<Rightarrow> None
                   | Some (d, t) \<Rightarrow>
                       (case skip_white t of
                          [] \<Rightarrow> None
                        | c # u \<Rightarrow>
                            if c = 0x2C then parse_members n (al_put k d m) u
                            else if c = 0x7D then Some (DObj (al_put k d m), u) else None)))"

definition json_parse :: "jsstr \<Rightarrow> doc option" where
  "json_parse s =
     (case parse_value (2 * length s + 1) (skip_white s) of
        None \<Rightarrow> None
      | Some (d, t) \<Rightarrow> if skip_white t = [] then Some d else None)"

section \<open>It follows the strict grammar\<close>

lemma skip_split: "\<exists>w. s = w @ skip_white s \<and> white w"
  by (rule exI [of _ "takeWhile is_white s"]) (auto simp: skip_white_def white_def list_all_iff dest: set_takeWhileD)

lemma parse_string_sound: "parse_string s = Some (v, r) \<Longrightarrow> \<exists>t. s = t @ quote_char # r \<and> string_text True t v"
proof (induction s arbitrary: v r rule: parse_string.induct)
  case (2 c s)
  consider (quote) "c = quote_char" | (escape) d t where "c \<noteq> quote_char" "c = backslash" "s = d # t" | (plain) "c \<noteq> quote_char" "c \<noteq> backslash"
    using 2(4) by (cases s) (auto split: if_splits)
  then show ?case
  proof cases
    case quote
    then show ?thesis
      using 2(4) by (auto intro: exI [of _ "[]"] string_text.intros)
  next
    case escape
    show ?thesis
    proof (cases "simple_escape d")
      case (Some e)
      then obtain v' where v: "v = e # v'" "parse_string t = Some (v', r)"
        using 2(4) escape by auto
      obtain u where "t = u @ quote_char # r" "string_text True u v'"
        using 2(2) [OF escape(1,2,3) Some v(2)] by blast
      then show ?thesis
        using escape Some v by (intro exI [of _ "backslash # d # u"]) (simp add: string_escape)
    next
      case None
      then have h: "d = char_u" "4 \<le> length t" "list_all is_hex_digit (take 4 t)"
        using 2(4) escape by (simp_all split: if_splits)
      then obtain v' where v: "v = code_unit_of (take 4 t) # v'" "parse_string (drop 4 t) = Some (v', r)"
        using 2(4) escape None by auto
      obtain u where u: "drop 4 t = u @ quote_char # r" "string_text True u v'"
        using 2(1) [OF escape(1,2,3) None _ v(2)] h by blast
      have "t = take 4 t @ u @ quote_char # r"
        using u(1) by (metis append_take_drop_id)
      moreover have "string_text True (backslash # char_u # take 4 t @ u) v"
        unfolding v(1) by (rule string_unit [OF _ h(3) u(2)]) (simp add: h(2))
      ultimately show ?thesis
        using escape h(1) by (intro exI [of _ "backslash # char_u # take 4 t @ u"]) simp
    qed
  next
    case plain
    then obtain v' where v: "\<not> c < 0x20" "v = c # v'" "parse_string s = Some (v', r)"
      using 2(4) by (auto split: if_splits)
    obtain u where "s = u @ quote_char # r" "string_text True u v'"
      using 2(3) [OF plain v(1,3)] by blast
    then show ?thesis
      using plain v by (intro exI [of _ "c # u"]) (simp add: string_plain not_less)
  qed
qed simp

lemma scalar_split:
  assumes "scalar_value (takeWhile (\<lambda>c. \<not> is_delimiter c) s) = Some v"
  shows "\<exists>t. s = t @ dropWhile (\<lambda>c. \<not> is_delimiter c) s \<and> json_value True t (doc_of v)"
  using value_scalar [OF assms] by (metis takeWhile_dropWhile_id)

text \<open>What the three functions have read, from any fuel.\<close>

definition sound_value :: "nat \<Rightarrow> bool" where
  "sound_value n \<longleftrightarrow> (\<forall>s d r. parse_value n s = Some (d, r) \<longrightarrow> (\<exists>t. s = t @ r \<and> json_value True t d))"

definition sound_elements :: "nat \<Rightarrow> bool" where
  "sound_elements n \<longleftrightarrow> (\<forall>ds s d r. parse_elements n ds s = Some (d, r) \<longrightarrow>
     (\<exists>t es. s = t @ 0x5D # r \<and> json_elements True t es \<and> d = DArr (ds @ es)))"

definition sound_members :: "nat \<Rightarrow> bool" where
  "sound_members n \<longleftrightarrow> (\<forall>m s d r. parse_members n m s = Some (d, r) \<longrightarrow>
     (\<exists>t kvs. s = t @ 0x7D # r \<and> json_members True t kvs \<and> d = DObj (object_with m kvs)))"

lemma empty_split: "skip_white t = c # u \<Longrightarrow> \<exists>w. t = w @ c # u \<and> white w"
  using skip_split [of t] by metis

lemma sound_value_step:
  assumes "sound_elements n" and "sound_members n"
  shows "sound_value (Suc n)"
  unfolding sound_value_def
proof (intro allI impI)
  fix s d r
  assume p: "parse_value (Suc n) s = Some (d, r)"
  then obtain c t where s: "s = c # t"
    by (cases s) auto
  consider (string) "c = quote_char" | (array) "c \<noteq> quote_char" "c = 0x5B" | (object) "c \<noteq> quote_char" "c \<noteq> 0x5B" "c = 0x7B"
    | (scalar) "c \<noteq> quote_char" "c \<noteq> 0x5B" "c \<noteq> 0x7B"
    by blast
  then show "\<exists>t. s = t @ r \<and> json_value True t d"
  proof cases
    case string
    then obtain v where v: "d = DStr v" "parse_string t = Some (v, r)"
      using p s by auto
    then obtain u where "t = u @ quote_char # r" "string_text True u v"
      using parse_string_sound by blast
    then show ?thesis
      using s string v by (intro exI [of _ "quoted u"]) (simp add: quoted_def value_string [unfolded quoted_def])
  next
    case array
    then obtain b u where u: "skip_white t = b # u"
      using p s by (cases "skip_white t") auto
    show ?thesis
    proof (cases "b = 0x5D")
      case True
      obtain w where "t = w @ 0x5D # u" "white w"
        using empty_split [OF u] True by blast
      then show ?thesis
        using p s u True array value_empty_array by (intro exI [of _ "0x5B # w @ [0x5D]"]) simp
    next
      case False
      then have "parse_elements n [] t = Some (d, r)"
        using p s u array by simp
      then obtain v es where "t = v @ 0x5D # r" "json_elements True v es" "d = DArr es"
        using assms(1) unfolding sound_elements_def by (metis append_Nil)
      then show ?thesis
        using s array value_array by (intro exI [of _ "0x5B # v @ [0x5D]"]) simp
    qed
  next
    case object
    then obtain b u where u: "skip_white t = b # u"
      using p s by (cases "skip_white t") auto
    show ?thesis
    proof (cases "b = 0x7D")
      case True
      obtain w where "t = w @ 0x7D # u" "white w"
        using empty_split [OF u] True by blast
      then show ?thesis
        using p s u True object value_empty_object by (intro exI [of _ "0x7B # w @ [0x7D]"]) simp
    next
      case False
      then have "parse_members n [] t = Some (d, r)"
        using p s u object by simp
      then obtain v kvs where "t = v @ 0x7D # r" "json_members True v kvs" "d = DObj (object_with [] kvs)"
        using assms(2) unfolding sound_members_def by metis
      then show ?thesis
        using s object value_object by (intro exI [of _ "0x7B # v @ [0x7D]"]) simp
    qed
  next
    case scalar
    then obtain v where v: "scalar_value (takeWhile (\<lambda>c. \<not> is_delimiter c) s) = Some v" "d = doc_of v" "r = dropWhile (\<lambda>c. \<not> is_delimiter c) s"
      using p s by auto
    then show ?thesis
      using scalar_split by blast
  qed
qed

lemma sound_elements_step:
  assumes "sound_value n" and "sound_elements n"
  shows "sound_elements (Suc n)"
  unfolding sound_elements_def
proof (intro allI impI)
  fix ds s d r
  assume p: "parse_elements (Suc n) ds s = Some (d, r)"
  then obtain e t c u where e: "parse_value n (skip_white s) = Some (e, t)" "skip_white t = c # u"
    by (auto split: option.splits list.splits)
  obtain w1 where w1: "s = w1 @ skip_white s" "white w1"
    using skip_split by blast
  obtain v where v: "skip_white s = v @ t" "json_value True v e"
    using assms(1) e(1) unfolding sound_value_def by blast
  obtain w2 where w2: "t = w2 @ c # u" "white w2"
    using empty_split [OF e(2)] by blast
  have s: "s = w1 @ v @ w2 @ c # u"
    using w1(1) v(1) w2(1) by simp
  show "\<exists>t es. s = t @ 0x5D # r \<and> json_elements True t es \<and> d = DArr (ds @ es)"
  proof (cases "c = 0x2C")
    case True
    then have "parse_elements n (ds @ [e]) u = Some (d, r)"
      using p e by simp
    then obtain x es where "u = x @ 0x5D # r" "json_elements True x es" "d = DArr ((ds @ [e]) @ es)"
      using assms(2) unfolding sound_elements_def by blast
    then show ?thesis
      using s True more_elements [OF w1(2) v(2) w2(2)] by (intro exI [of _ "w1 @ v @ w2 @ 0x2C # x"] exI [of _ "e # es"]) simp
  next
    case False
    then have "c = 0x5D" "d = DArr (ds @ [e])" "r = u"
      using p e by (auto split: if_splits)
    then show ?thesis
      using s last_element [OF w1(2) v(2) w2(2)] by (intro exI [of _ "w1 @ v @ w2"] exI [of _ "[e]"]) simp
  qed
qed

lemma sound_members_step:
  assumes "sound_value n" and "sound_members n"
  shows "sound_members (Suc n)"
  unfolding sound_members_def
proof (intro allI impI)
  fix m s d r
  assume p: "parse_members (Suc n) m s = Some (d, r)"
  then obtain q a where q: "skip_white s = q # a" "q = quote_char"
    by (cases "skip_white s") (auto split: if_splits)
  obtain k b where k: "parse_string a = Some (k, b)"
    using p q by (cases "parse_string a") auto
  obtain q' x where q': "skip_white b = q' # x" "q' = 0x3A"
    using p q k by (cases "skip_white b") (auto split: if_splits)
  obtain e t where e: "parse_value n (skip_white x) = Some (e, t)"
    using p q k q' by (cases "parse_value n (skip_white x)") auto
  obtain c u where c: "skip_white t = c # u"
    using p q k q' e by (cases "skip_white t") auto
  obtain w1 where w1: "s = w1 @ quote_char # a" "white w1"
    using empty_split [OF q(1)] q(2) by blast
  obtain kt where kt: "a = kt @ quote_char # b" "string_text True kt k"
    using parse_string_sound [OF k] by blast
  obtain w2 where w2: "b = w2 @ 0x3A # x" "white w2"
    using empty_split [OF q'(1)] q'(2) by blast
  obtain w3 where w3: "x = w3 @ skip_white x" "white w3"
    using skip_split by blast
  obtain v where v: "skip_white x = v @ t" "json_value True v e"
    using assms(1) e unfolding sound_value_def by blast
  obtain w4 where w4: "t = w4 @ c # u" "white w4"
    using empty_split [OF c] by blast
  have "x = w3 @ v @ w4 @ c # u"
    using w3(1) v(1) w4(1) by simp
  then have s: "s = w1 @ quoted kt @ w2 @ 0x3A # w3 @ v @ w4 @ c # u"
    using w1(1) kt(1) w2(1) by (simp add: quoted_def)
  show "\<exists>t kvs. s = t @ 0x7D # r \<and> json_members True t kvs \<and> d = DObj (object_with m kvs)"
  proof (cases "c = 0x2C")
    case True
    then have "parse_members n (al_put k e m) u = Some (d, r)"
      using p q k q' e c by simp
    then obtain y kvs where "u = y @ 0x7D # r" "json_members True y kvs" "d = DObj (object_with (al_put k e m) kvs)"
      using assms(2) unfolding sound_members_def by blast
    then show ?thesis
      using s True more_members [OF w1(2) kt(2) w2(2) w3(2) v(2) w4(2)]
      by (intro exI [of _ "w1 @ quoted kt @ w2 @ 0x3A # w3 @ v @ w4 @ 0x2C # y"] exI [of _ "(k, e) # kvs"]) (simp add: object_with_def)
  next
    case False
    then have "c = 0x7D" "d = DObj (al_put k e m)" "r = u"
      using p q k q' e c by (auto split: if_splits)
    then show ?thesis
      using s last_member [OF w1(2) kt(2) w2(2) w3(2) v(2) w4(2)]
      by (intro exI [of _ "w1 @ quoted kt @ w2 @ 0x3A # w3 @ v @ w4"] exI [of _ "[(k, e)]"]) (simp add: object_with_def)
  qed
qed

lemma parse_sound: "sound_value n \<and> sound_elements n \<and> sound_members n"
proof (induction n)
  case 0
  show ?case
    by (simp add: sound_value_def sound_elements_def sound_members_def)
next
  case (Suc n)
  then show ?case
    using sound_value_step sound_elements_step sound_members_step by blast
qed

text \<open>White space around the value is part of a text.\<close>

definition json_text :: "jsstr \<Rightarrow> doc \<Rightarrow> bool" where
  "json_text s d \<longleftrightarrow> (\<exists>w1 t w2. s = w1 @ t @ w2 \<and> white w1 \<and> json_value True t d \<and> white w2)"

lemma json_parse_sound:
  assumes "json_parse s = Some d"
  shows "json_text s d"
proof -
  obtain r where r: "parse_value (2 * length s + 1) (skip_white s) = Some (d, r)" "skip_white r = []"
    using assms by (auto simp: json_parse_def split: option.splits if_splits)
  then obtain t where t: "skip_white s = t @ r" "json_value True t d"
    using parse_sound unfolding sound_value_def by blast
  obtain w where "s = w @ t @ r" "white w"
    using skip_split [of s] t(1) by metis
  moreover have "white r"
    using skip_split [of r] r(2) by auto
  ultimately show ?thesis
    using t(2) by (auto simp: json_text_def)
qed

section \<open>It reads every strict text\<close>

lemma skip_more [simp]: "white w \<Longrightarrow> skip_white (w @ s) = skip_white s"
  by (simp add: skip_white_def white_def list_all_iff dropWhile_append2)

lemma skip_stops [simp]: "skip_white [] = []" "\<not> is_white c \<Longrightarrow> skip_white (c # s) = c # s"
  by (simp_all add: skip_white_def)

lemma not_white [simp]: "\<not> is_white quote_char" "\<not> is_white 0x2C" "\<not> is_white 0x3A" "\<not> is_white 0x5B" "\<not> is_white 0x5D"
  "\<not> is_white 0x7B" "\<not> is_white 0x7D"
  by (simp_all add: is_white_def quote_char_def)

lemma parse_string_complete: "string_text True t v \<Longrightarrow> parse_string (t @ quote_char # r) = Some (v, r)"
proof (induction rule: string_text.induct)
  case (string_unit hex t v)
  moreover have "simple_escape char_u = None"
    by (simp add: simple_escape_def char_u_def quote_char_def backslash_def)
  ultimately show ?case
    by (simp add: backslash_def quote_char_def)
qed (simp_all add: backslash_def quote_char_def not_less)

lemma value_start:
  assumes "json_value b t d"
  shows "\<exists>c u. t = c # u \<and> \<not> is_white c \<and> c \<noteq> 0x5D"
proof -
  have sc: "\<exists>c u. t = c # u \<and> \<not> is_white c \<and> c \<noteq> 0x5D" if v: "scalar_value t = Some v" for v
  proof -
    obtain c u where "t = c # u" "\<not> is_delimiter c"
      using scalar_token [OF v] by (cases t) auto
    then show ?thesis
      by (auto simp: is_delimiter_def)
  qed
  show ?thesis
    using assms by cases (use sc in \<open>simp_all add: quoted_def, simp add: quote_char_def\<close>)
qed

lemma skip_value: "json_value b t d \<Longrightarrow> skip_white (t @ r) = t @ r"
  using value_start [of b t d] by auto

text \<open>With twice the length as fuel: a list and its first element start at the same character.\<close>

definition complete_value :: "jsstr \<Rightarrow> doc \<Rightarrow> bool" where
  "complete_value t d \<longleftrightarrow> (\<forall>n r. 2 * length t + 1 \<le> n \<longrightarrow> (r = [] \<or> is_delimiter (hd r)) \<longrightarrow> parse_value n (t @ r) = Some (d, r))"

definition complete_elements :: "jsstr \<Rightarrow> doc list \<Rightarrow> bool" where
  "complete_elements t es \<longleftrightarrow> (\<forall>n ds r. 2 * length t + 2 \<le> n \<longrightarrow> parse_elements n ds (t @ 0x5D # r) = Some (DArr (ds @ es), r))"

definition complete_members :: "jsstr \<Rightarrow> (jsstr \<times> doc) list \<Rightarrow> bool" where
  "complete_members t kvs \<longleftrightarrow>
     (\<forall>n m r. 2 * length t + 2 \<le> n \<longrightarrow> parse_members n m (t @ 0x7D # r) = Some (DObj (object_with m kvs), r))"

lemma complete_scalar:
  assumes "scalar_value t = Some v"
  shows "complete_value t (doc_of v)"
  unfolding complete_value_def
proof (intro allI impI)
  fix n :: nat and r :: jsstr
  assume n: "2 * length t + 1 \<le> n" and r: "r = [] \<or> is_delimiter (hd r)"
  have t: "t \<noteq> []" "\<forall>c \<in> set t. \<not> is_delimiter c"
    using scalar_token [OF assms] by (simp_all add: token_text_def list_all_iff)
  obtain c u where c: "t = c # u"
    using t(1) by (cases t) auto
  obtain k where k: "n = Suc k"
    using n by (cases n) auto
  have "takeWhile (\<lambda>c. \<not> is_delimiter c) (t @ r) = t" "dropWhile (\<lambda>c. \<not> is_delimiter c) (t @ r) = r"
    using t(2) r by (cases r; auto)+
  moreover have "c \<noteq> quote_char" "c \<noteq> 0x5B" "c \<noteq> 0x7B"
    using t(2) c delimiters(4,5,6) by auto
  ultimately show "parse_value n (t @ r) = Some (doc_of v, r)"
    using assms c k by simp
qed

lemma complete_element:
  assumes "white w1" and "json_value True t d" and "complete_value t d" and "white w2" and "2 * length t + 2 \<le> n" and "is_delimiter c" and "\<not> is_white c"
  shows "parse_elements n ds (w1 @ t @ w2 @ c # u) =
    (if c = 0x2C then parse_elements (n - 1) (ds @ [d]) u else if c = 0x5D then Some (DArr (ds @ [d]), u) else None)"
proof -
  obtain k where k: "n = Suc k"
    using assms(5) by (cases n) auto
  have "hd (w2 @ c # u) = c \<or> is_white (hd (w2 @ c # u))"
    using assms(4) by (cases w2) (auto simp: white_def)
  then have "parse_value k (t @ w2 @ c # u) = Some (d, w2 @ c # u)"
    using assms(3,5,6) k by (auto simp: complete_value_def is_delimiter_def)
  then show ?thesis
    using k assms(1,4,7) skip_value [OF assms(2)] by simp
qed

lemma complete_member:
  assumes "white w1" and "string_text True kt k" and "white w2" and "white w3" and "json_value True t d" and "complete_value t d"
    and "white w4" and "2 * length t + 2 \<le> n" and "is_delimiter c" and "\<not> is_white c"
  shows "parse_members n m (w1 @ quoted kt @ w2 @ 0x3A # w3 @ t @ w4 @ c # u) =
    (if c = 0x2C then parse_members (n - 1) (al_put k d m) u else if c = 0x7D then Some (DObj (al_put k d m), u) else None)"
proof -
  obtain j where j: "n = Suc j"
    using assms(8) by (cases n) auto
  have "hd (w4 @ c # u) = c \<or> is_white (hd (w4 @ c # u))"
    using assms(7) by (cases w4) (auto simp: white_def)
  then have "parse_value j (t @ w4 @ c # u) = Some (d, w4 @ c # u)"
    using assms(6,8,9) j by (auto simp: complete_value_def is_delimiter_def)
  then show ?thesis
    using j assms(1,3,4,7,10) skip_value [OF assms(5)] parse_string_complete [OF assms(2)] by (simp add: quoted_def)
qed

lemma elements_start:
  assumes "json_elements True t ds"
  shows "\<exists>c u. skip_white (t @ x) = c # u \<and> c \<noteq> 0x5D"
  using assms
proof cases
  case (last_element w1 t d w2)
  then show ?thesis
    using value_start [OF last_element(4)] skip_value [OF last_element(4), of "w2 @ x"] by auto
next
  case (more_elements w1 t d w2 u ds)
  then show ?thesis
    using value_start [OF more_elements(4)] skip_value [OF more_elements(4), of "w2 @ 0x2C # u @ x"] by auto
qed

lemma complete_array:
  assumes "complete_elements t ds" and "json_elements True t ds"
  shows "complete_value (0x5B # t @ [0x5D]) (DArr ds)"
  unfolding complete_value_def
proof (intro allI impI)
  fix n :: nat and r :: jsstr
  assume n: "2 * length (0x5B # t @ [0x5D]) + 1 \<le> n"
  obtain k where k: "n = Suc k"
    using n by (cases n) auto
  show "parse_value n ((0x5B # t @ [0x5D]) @ r) = Some (DArr ds, r)"
    using elements_start [OF assms(2), of "0x5D # r"] n k assms(1) by (auto simp: complete_elements_def quote_char_def)
qed

lemma members_start:
  assumes "json_members True t kvs"
  shows "\<exists>u. skip_white (t @ x) = quote_char # u"
  using assms by cases (simp_all add: quoted_def)

lemma complete_object:
  assumes "complete_members t kvs" and "json_members True t kvs"
  shows "complete_value (0x7B # t @ [0x7D]) (DObj (object_with [] kvs))"
  unfolding complete_value_def
proof (intro allI impI)
  fix n :: nat and r :: jsstr
  assume n: "2 * length (0x7B # t @ [0x7D]) + 1 \<le> n"
  obtain k where k: "n = Suc k"
    using n by (cases n) auto
  show "parse_value n ((0x7B # t @ [0x7D]) @ r) = Some (DObj (object_with [] kvs), r)"
    using members_start [OF assms(2), of "0x7D # r"] n k assms(1) by (auto simp: complete_members_def quote_char_def)
qed

lemma parse_complete:
  "json_value True t d \<Longrightarrow> json_value True t d \<and> complete_value t d"
  "json_elements True u ds \<Longrightarrow> json_elements True u ds \<and> complete_elements u ds"
  "json_members True w kvs \<Longrightarrow> json_members True w kvs \<and> complete_members w kvs"
proof (induction rule: json_value_json_elements_json_members.inducts)
  case (value_scalar t v)
  then show ?case
    using complete_scalar json_value_json_elements_json_members.value_scalar by blast
next
  case (value_string t v)
  have "parse_value n (quoted t @ r) = Some (DStr v, r)" if "2 * length (quoted t) + 1 \<le> n" for n r
    using that parse_string_complete [OF value_string, of r] by (cases n) (simp_all add: quoted_def)
  then show ?case
    using json_value_json_elements_json_members.value_string [OF value_string] by (simp add: complete_value_def)
next
  case (value_empty_array w)
  have "parse_value n ((0x5B # w @ [0x5D]) @ r) = Some (DArr [], r)" if "1 \<le> n" for n r
    using that value_empty_array by (cases n) (simp_all add: quote_char_def)
  then show ?case
    using json_value_json_elements_json_members.value_empty_array [OF value_empty_array] by (simp add: complete_value_def)
next
  case (value_empty_object w)
  have "parse_value n ((0x7B # w @ [0x7D]) @ r) = Some (DObj [], r)" if "1 \<le> n" for n r
    using that value_empty_object by (cases n) (simp_all add: quote_char_def)
  then show ?case
    using json_value_json_elements_json_members.value_empty_object [OF value_empty_object] by (simp add: complete_value_def)
next
  case (value_array t ds)
  then show ?case
    using complete_array json_value_json_elements_json_members.value_array by blast
next
  case (value_object t kvs)
  then show ?case
    using complete_object json_value_json_elements_json_members.value_object by blast
next
  case (last_element w1 t d w2)
  have "parse_elements n ds ((w1 @ t @ w2) @ 0x5D # r) = Some (DArr (ds @ [d]), r)" if "2 * length (w1 @ t @ w2) + 2 \<le> n" for n ds r
    using complete_element [of w1 t d w2 n "0x5D" ds r] last_element that by (simp add: delimiters)
  then show ?case
    using json_value_json_elements_json_members.last_element last_element by (simp add: complete_elements_def)
next
  case (more_elements w1 t d w2 u ds)
  have "parse_elements n es ((w1 @ t @ w2 @ 0x2C # u) @ 0x5D # r) = Some (DArr (es @ d # ds), r)" if "2 * length (w1 @ t @ w2 @ 0x2C # u) + 2 \<le> n" for n es r
    using complete_element [of w1 t d w2 n "0x2C" es "u @ 0x5D # r"] more_elements that by (simp add: delimiters complete_elements_def)
  then show ?case
    using json_value_json_elements_json_members.more_elements more_elements by (simp add: complete_elements_def)
next
  case (last_member w1 k k' w2 w3 t d w4)
  let ?t = "w1 @ quoted k @ w2 @ 0x3A # w3 @ t @ w4"
  have "parse_members n m (?t @ 0x7D # r) = Some (DObj (object_with m [(k', d)]), r)" if "2 * length ?t + 2 \<le> n" for n m r
    using complete_member [of w1 k k' w2 w3 t d w4 n "0x7D" m r] last_member that by (simp add: delimiters object_with_def)
  then show ?case
    using json_value_json_elements_json_members.last_member last_member by (simp add: complete_members_def)
next
  case (more_members w1 k k' w2 w3 t d w4 u kvs)
  let ?t = "w1 @ quoted k @ w2 @ 0x3A # w3 @ t @ w4 @ 0x2C # u"
  have "parse_members n m (?t @ 0x7D # r) = Some (DObj (object_with m ((k', d) # kvs)), r)" if "2 * length ?t + 2 \<le> n" for n m r
    using complete_member [of w1 k k' w2 w3 t d w4 n "0x2C" m "u @ 0x7D # r"] more_members that
    by (simp add: delimiters object_with_def complete_members_def)
  then show ?case
    using json_value_json_elements_json_members.more_members more_members by (simp add: complete_members_def)
qed

text \<open>\<open>JSON.parse\<close> accepts the strict texts, with their values.\<close>

lemma json_parse_iff: "json_parse s = Some d \<longleftrightarrow> json_text s d"
proof
  assume "json_text s d"
  then obtain w1 t w2 where t: "s = w1 @ t @ w2" "white w1" "json_value True t d" "white w2"
    by (auto simp: json_text_def)
  have w: "w2 = [] \<or> is_delimiter (hd w2)"
    using t(4) by (cases w2) (auto simp: white_def is_delimiter_def)
  have "parse_value (2 * length s + 1) (t @ w2) = Some (d, w2)"
    by (rule parse_complete(1) [OF t(3), THEN conjunct2, unfolded complete_value_def, rule_format]) (use w in \<open>simp_all add: t(1)\<close>)
  then show "json_parse s = Some d"
    using t skip_value [OF t(3)] skip_more [OF t(4), of "[]"] by (simp add: json_parse_def del: parse_value.simps)
qed (rule json_parse_sound)

end
