(* ===== verification/JsonRepair.thy ===== *)
theory JsonRepair
  imports JsonParse
begin

text \<open>
  \<open>repairJson\<close> and \<open>parseToolCallArguments\<close> of \<open>packages/ai/src/utils/json-parse.ts\<close>. The repair escapes
  what strict JSON does not have in strings; the streaming reader takes the same texts as they are, and
  reads from them what it reads from the repaired ones.
\<close>

section \<open>The repair\<close>

definition is_control :: "16 word \<Rightarrow> bool" where
  "is_control c \<longleftrightarrow> c \<le> 0x1F"

text \<open>\<open>VALID_JSON_ESCAPES\<close>: \<open>" \ / b f n r t\<close>.\<close>

definition valid_escape :: "16 word \<Rightarrow> bool" where
  "valid_escape c \<longleftrightarrow> c \<in> {quote_char, backslash, 0x2F, 0x62, 0x66, 0x6E, 0x72, 0x74}"

definition hex_char :: "16 word \<Rightarrow> 16 word" where
  "hex_char n = (if n < 10 then 0x30 + n else 0x57 + n)"

text \<open>The default case is \<open>toString(16)\<close>, padded to four digits; a control character has at most two.\<close>

definition escape_control :: "16 word \<Rightarrow> jsstr" where
  "escape_control c =
     (if c = 8 then [backslash, 0x62] else if c = 12 then [backslash, 0x66] else if c = 10 then [backslash, 0x6E]
      else if c = 13 then [backslash, 0x72] else if c = 9 then [backslash, 0x74]
      else [backslash, char_u, 0x30, 0x30, hex_char (c div 16), hex_char (c mod 16)])"

text \<open>The loop of \<open>repairJson\<close>, inside a string or outside, with what it adds to the result.\<close>

fun repair_from :: "bool \<Rightarrow> jsstr \<Rightarrow> jsstr" where
  "repair_from in_string [] = []"
| "repair_from False (c # s) = c # repair_from (c = quote_char) s"
| "repair_from True (c # s) =
     (if c = quote_char then c # repair_from False s
      else if c = backslash then
        (case s of
           [] \<Rightarrow> [backslash, backslash]
         | d # t \<Rightarrow>
             if d = char_u \<and> 4 \<le> length t \<and> list_all is_hex_digit (take 4 t)
             then backslash # char_u # take 4 t @ repair_from True (drop 4 t)
             else if valid_escape d then backslash # d # repair_from True t
             else backslash # backslash # repair_from True s)
      else (if is_control c then escape_control c else [c]) @ repair_from True s)"

definition repair_json :: "jsstr \<Rightarrow> jsstr" where
  "repair_json s = repair_from False s"

definition parse_with_repair :: "jsstr \<Rightarrow> doc option" where
  "parse_with_repair s =
     (case json_parse s of
        Some d \<Rightarrow> Some d
      | None \<Rightarrow> if repair_json s \<noteq> s then json_parse (repair_json s) else None)"

section \<open>The final arguments\<close>

text \<open>White space and line ends of the language, which \<open>trim\<close> removes.\<close>

definition is_js_white :: "16 word \<Rightarrow> bool" where
  "is_js_white c \<longleftrightarrow> 9 \<le> c \<and> c \<le> 13 \<or> 0x2000 \<le> c \<and> c \<le> 0x200A \<or>
     c \<in> {0x20, 0xA0, 0x1680, 0x2028, 0x2029, 0x202F, 0x205F, 0x3000, 0xFEFF}"

definition is_blank :: "jsstr \<Rightarrow> bool" where
  "is_blank s \<longleftrightarrow> list_all is_js_white s"

text \<open>What \<open>argumentsError\<close> reports, with the text received.\<close>

datatype arguments_error =
    Malformed jsstr
  | NoObject jsstr

definition parse_tool_call_arguments :: "jsstr option \<Rightarrow> doc \<times> arguments_error option" where
  "parse_tool_call_arguments json =
     (case json of
        None \<Rightarrow> (DObj [], None)
      | Some s \<Rightarrow>
          if is_blank s then (DObj [], None)
          else case parse_with_repair s of
            Some (DObj kvs) \<Rightarrow> (DObj kvs, None)
          | Some _ \<Rightarrow> (DObj [], Some (NoObject s))
          | None \<Rightarrow> (DObj [], Some (Malformed s)))"

text \<open>
  \<open>parseStreamingJson\<close>. The tolerant parser is a library: a parameter that gives \<open>None\<close> where it throws, and
  otherwise a value or \<open>undefined\<close>.
\<close>

definition parse_streaming_json :: "(jsstr \<Rightarrow> doc option option) \<Rightarrow> jsstr option \<Rightarrow> doc" where
  "parse_streaming_json partial_parse json =
     (case json of
        None \<Rightarrow> DObj []
      | Some s \<Rightarrow>
          if is_blank s then DObj []
          else case parse_with_repair s of
            Some d \<Rightarrow> d
          | None \<Rightarrow>
              (case partial_parse s of
                 Some (Some d) \<Rightarrow> if d = DNull then DObj [] else d
               | Some None \<Rightarrow> DObj []
               | None \<Rightarrow>
                   (case partial_parse (repair_json s) of
                      Some (Some d) \<Rightarrow> if d = DNull then DObj [] else d
                    | _ \<Rightarrow> DObj [])))"

lemma streaming_returns_null: "parse_streaming_json p (Some (js ''null'')) = DNull"
  by code_simp

section \<open>Repaired texts\<close>

lemma valid_escape_simple: "valid_escape c \<longleftrightarrow> simple_escape c \<noteq> None"
  by (auto simp: valid_escape_def simple_escape_def)

lemma not_valid [simp]: "\<not> valid_escape char_u"
  by (simp add: valid_escape_def char_u_def quote_char_def backslash_def)

lemma chars_differ [simp]: "quote_char \<noteq> backslash" "backslash \<noteq> quote_char" "char_u \<noteq> quote_char" "char_u \<noteq> backslash"
  "quote_char \<noteq> char_u" "backslash \<noteq> char_u"
  by (simp_all add: quote_char_def backslash_def char_u_def)

lemma controls:
  assumes "is_control c"
  shows "\<exists>n < 32. c = word_of_nat n"
  using assms by (intro exI [of _ "unat c"]) (simp add: is_control_def word_le_nat_alt)

lemma escape_control_cases:
  assumes "is_control c"
  shows "(\<exists>d. escape_control c = [backslash, d] \<and> simple_escape d = Some c) \<or>
    (\<exists>hex. escape_control c = backslash # char_u # hex \<and> length hex = 4 \<and> list_all is_hex_digit hex \<and> code_unit_of hex = c)"
proof -
  obtain n where "n < 32" "c = word_of_nat n"
    using controls [OF assms] by blast
  moreover have "\<forall>n \<in> set [0..<32]. let c = word_of_nat n; e = escape_control c in
      length e = 2 \<and> hd e = backslash \<and> simple_escape (e ! 1) = Some c \<or>
      length e = 6 \<and> take 2 e = [backslash, char_u] \<and> list_all is_hex_digit (drop 2 e) \<and> code_unit_of (drop 2 e) = c"
    by code_simp
  ultimately have "length (escape_control c) = 2 \<and> hd (escape_control c) = backslash \<and> simple_escape (escape_control c ! 1) = Some c \<or>
      length (escape_control c) = 6 \<and> take 2 (escape_control c) = [backslash, char_u] \<and> list_all is_hex_digit (drop 2 (escape_control c)) \<and>
      code_unit_of (drop 2 (escape_control c)) = c"
    by (auto simp: Let_def)
  then show ?thesis
  proof (elim disjE conjE, goal_cases)
    case 1
    then obtain a d where "escape_control c = [a, d]"
      by (auto simp: numeral_eq_Suc length_Suc_conv)
    then show ?case
      using 1 by auto
  next
    case 2
    then have "escape_control c = backslash # char_u # drop 2 (escape_control c)"
      by (metis append_Cons append_Nil append_take_drop_id)
    then show ?case
      using 2 by (intro disjI2 exI [of _ "drop 2 (escape_control c)"]) simp
  qed
qed

lemma repair_hex:
  assumes "length hex = 4" and "list_all is_hex_digit hex"
  shows "repair_from True (backslash # char_u # hex @ s) = backslash # char_u # hex @ repair_from True s"
  using assms by simp

lemma repair_escape: "simple_escape c = Some d \<Longrightarrow> repair_from True (backslash # c # s) = backslash # c # repair_from True s"
  using valid_escape_simple [of c] by auto

text \<open>One repair is enough.\<close>

lemma repair_twice: "repair_from b (repair_from b s) = repair_from b s"
proof (induction b s rule: repair_from.induct)
  case (3 c s)
  consider (quote) "c = quote_char" | (last) "c = backslash" "s = []" | (escape) d t where "c = backslash" "s = d # t"
    | (control) "c \<noteq> quote_char" "c \<noteq> backslash" "is_control c" | (plain) "c \<noteq> quote_char" "c \<noteq> backslash" "\<not> is_control c"
    by (cases s) auto
  then show ?case
  proof cases
    case last
    then show ?thesis
      by (simp add: valid_escape_def)
  next
    case escape
    consider (hex) "d = char_u" "4 \<le> length t" "list_all is_hex_digit (take 4 t)" | (valid) "valid_escape d" "\<not> (d = char_u \<and> 4 \<le> length t \<and> list_all is_hex_digit (take 4 t))"
      | (other) "\<not> valid_escape d" "\<not> (d = char_u \<and> 4 \<le> length t \<and> list_all is_hex_digit (take 4 t))"
      by blast
    then show ?thesis
    proof cases
      case hex
      then show ?thesis
        using 3(2) [of d t] escape repair_hex [of "take 4 t" "repair_from True (drop 4 t)"] by simp
    next
      case valid
      then have "d \<noteq> char_u"
        by auto
      then show ?thesis
        using 3(3) [of d t] escape valid by simp
    next
      case other
      have a: "repair_from True (c # s) = backslash # backslash # repair_from True s"
        using escape other by auto
      have b: "repair_from True (backslash # backslash # x) = backslash # backslash # repair_from True x" for x
        by (simp add: valid_escape_def)
      have "repair_from True (repair_from True s) = repair_from True s"
        by (rule 3(4) [of d t]) (use escape other in simp_all)
      then show ?thesis
        by (simp only: a b)
    qed
  next
    case control
    then have "repair_from True (c # s) = escape_control c @ repair_from True s"
      by simp
    then show ?thesis
      using escape_control_cases [OF control(3)] 3(5) control repair_hex repair_escape by auto
  qed (use 3 in simp_all)
qed simp_all

text \<open>Strict texts stay as they are.\<close>

definition stays :: "jsstr \<Rightarrow> bool" where
  "stays t \<longleftrightarrow> (\<forall>r. repair_from False (t @ r) = t @ repair_from False r)"

lemma stays_Nil: "stays []"
  by (simp add: stays_def)

lemma stays_append: "stays s \<Longrightarrow> stays t \<Longrightarrow> stays (s @ t)"
  by (simp add: stays_def)

lemma stays_Cons: "c \<noteq> quote_char \<Longrightarrow> stays t \<Longrightarrow> stays (c # t)"
  by (simp add: stays_def)

lemma stays_token: "list_all (\<lambda>c. c \<noteq> quote_char) t \<Longrightarrow> stays t"
  by (induction t) (simp_all add: stays_def)

lemma stays_white: "white w \<Longrightarrow> stays w"
  by (rule stays_token) (auto simp: white_def list_all_iff)

lemma stays_string:
  assumes "string_text True t v"
  shows "stays (quoted t)"
proof -
  have "repair_from True (t @ quote_char # r) = t @ quote_char # repair_from False r" for r
    using assms
  proof (induction rule: string_text.induct)
    case (string_plain c t v)
    then have "\<not> is_control c"
      by (simp add: is_control_def word_le_nat_alt)
    then show ?case
      using string_plain by simp
  next
    case (string_escape c d t v)
    then show ?case
      using repair_escape [of c d "t @ quote_char # r"] by (simp del: repair_from.simps)
  next
    case (string_unit hex t v)
    then show ?case
      using repair_hex [of hex "t @ quote_char # r"] by (simp del: repair_from.simps)
  qed simp
  then show ?thesis
    by (simp add: stays_def quoted_def)
qed

lemma strict_stays:
  "json_value True t d \<Longrightarrow> stays t"
  "json_elements True u ds \<Longrightarrow> stays u"
  "json_members True w kvs \<Longrightarrow> stays w"
proof (induction rule: json_value_json_elements_json_members.inducts)
  case (value_scalar t v)
  then show ?case
    using scalar_token delimiters(6) by (intro stays_token) (auto simp: token_text_def list_all_iff)
qed (simp_all add: stays_string stays_append stays_Cons stays_Nil stays_white quote_char_def)

lemma repair_strict: "json_text s d \<Longrightarrow> repair_json s = s"
proof -
  assume "json_text s d"
  then obtain w1 t w2 where "s = w1 @ t @ w2" "white w1" "json_value True t d" "white w2"
    by (auto simp: json_text_def)
  then have "stays s"
    by (simp add: stays_append stays_white strict_stays(1))
  from this [unfolded stays_def, rule_format, of "[]"] show ?thesis
    by (simp add: repair_json_def)
qed

end
