(* ===== verification/StreamRefine.thy ===== *)
theory StreamRefine
  imports StreamFollow
begin

text \<open>
  The parser implements the reader. Every address of an open container is held by its frame and by the
  slot of its parent only; everything else a container refers to is closed, and what it denotes does not
  depend on the open containers.
\<close>

section \<open>What a value denotes\<close>

text \<open>The document of a value that refers to none of the containers \<open>P\<close>.\<close>

inductive denotes :: "nat set \<Rightarrow> store \<Rightarrow> jval \<Rightarrow> doc \<Rightarrow> bool" for P h where
  plain: "\<forall>a. v \<noteq> VRef a \<Longrightarrow> denotes P h v (doc_of v)"
| array: "a \<notin> P \<Longrightarrow> a < length h \<Longrightarrow> h ! a = CArr vs \<Longrightarrow> list_all2 (denotes P h) vs ds \<Longrightarrow> denotes P h (VRef a) (DArr ds)"
| object: "a \<notin> P \<Longrightarrow> a < length h \<Longrightarrow> h ! a = CObj kvs \<Longrightarrow> map fst kvs = map fst ms \<Longrightarrow>
    list_all2 (denotes P h) (map snd kvs) (map snd ms) \<Longrightarrow> denotes P h (VRef a) (DObj ms)"

fun cell_rel :: "nat set \<Rightarrow> store \<Rightarrow> container \<Rightarrow> doc \<Rightarrow> bool" where
  "cell_rel P h (CArr vs) (DArr ds) = list_all2 (denotes P h) vs ds"
| "cell_rel P h (CObj kvs) (DObj ms) = (map fst kvs = map fst ms \<and> list_all2 (denotes P h) (map snd kvs) (map snd ms))"
| "cell_rel P h _ _ = False"

lemma denotes_ref: "denotes P h (VRef a) d \<longleftrightarrow> a \<notin> P \<and> a < length h \<and> cell_rel P h (h ! a) d"
proof
  assume "denotes P h (VRef a) d"
  then show "a \<notin> P \<and> a < length h \<and> cell_rel P h (h ! a) d"
    by cases auto
next
  assume "a \<notin> P \<and> a < length h \<and> cell_rel P h (h ! a) d"
  then show "denotes P h (VRef a) d"
    by (cases "h ! a"; cases d) (auto intro: denotes.intros)
qed

text \<open>It depends only on the other containers, which stay as they are.\<close>

lemma denotes_mono:
  assumes "denotes P h v d" and "\<And>a. a < length h \<Longrightarrow> a \<notin> P \<Longrightarrow> a \<notin> Q \<and> a < length h' \<and> h' ! a = h ! a"
  shows "denotes Q h' v d"
  using assms(1)
proof induction
  case (plain v)
  then show ?case
    by (rule denotes.plain)
next
  case (array a vs ds)
  then show ?case
    using assms(2) [of a] by (intro denotes.array) (auto elim: list_all2_mono)
next
  case (object a kvs ms)
  then show ?case
    using assms(2) [of a] by (intro denotes.object) (auto elim: list_all2_mono)
qed

lemma cell_rel_mono:
  assumes "cell_rel P h c d" and "\<And>a. a < length h \<Longrightarrow> a \<notin> P \<Longrightarrow> a \<notin> Q \<and> a < length h' \<and> h' ! a = h ! a"
  shows "cell_rel Q h' c d"
proof -
  have "list_all2 (denotes P h) vs ds \<Longrightarrow> list_all2 (denotes Q h') vs ds" for vs ds
    by (erule list_all2_mono) (rule denotes_mono [OF _ assms(2)])
  then show ?thesis
    using assms(1) by (cases c; cases d) auto
qed

lemma cell_rel_arr: "cell_rel P h c d \<Longrightarrow> is_arr c \<longleftrightarrow> is_doc_arr d"
  by (cases c; cases d) auto

lemma al_put_rel:
  "map fst kvs = map fst ms \<Longrightarrow> list_all2 R (map snd kvs) (map snd ms) \<Longrightarrow> R v e \<Longrightarrow>
     map fst (al_put k v kvs) = map fst (al_put k e ms) \<and> list_all2 R (map snd (al_put k v kvs)) (map snd (al_put k e ms))"
proof (induction kvs arbitrary: ms)
  case (Cons kv kvs)
  then show ?case
    by (cases kv; cases ms) auto
qed auto

lemma put_rel:
  assumes "cell_rel P h c d" and "denotes P h v e"
  shows "cell_rel P h (put s v c) (dput s e d)"
proof (cases s)
  case (SMember k)
  then show ?thesis
    using assms al_put_rel [of _ _ "denotes P h" v e k] by (cases c; cases d) auto
next
  case (SElement i)
  then show ?thesis
    using assms by (cases c; cases d) (auto simp: list_all2_lengthD list_all2_appendI list_all2_update_cong)
qed (use assms in simp)

lemma dput_dput:
  "cell_rel P h c d \<Longrightarrow> is_new s c \<or> has_slot s c \<Longrightarrow> dput s x (dput s y d) = dput s x d"
  by (cases s; cases c; cases d) (auto simp: list_update_append dest: list_all2_lengthD)

section \<open>Open containers\<close>

definition addresses :: "frame list \<Rightarrow> nat set" where
  "addresses fs = fr_container ` set fs"

text \<open>The content of a frame, but for the slot that holds its open child.\<close>

definition hole_rel :: "nat set \<Rightarrow> store \<Rightarrow> (nat \<times> slot option) option \<Rightarrow> container \<Rightarrow> doc \<Rightarrow> bool" where
  "hole_rel P h child c d =
     (case child of
        Some (a, Some s) \<Rightarrow>
          (\<exists>c0 d0 e. cell_rel P h c0 d0 \<and> (is_new s c0 \<or> has_slot s c0) \<and> c = put s (VRef a) c0 \<and> d = dput s e d0)
      | _ \<Rightarrow> cell_rel P h c d)"

fun stack_rel :: "nat set \<Rightarrow> store \<Rightarrow> (nat \<times> slot option) option \<Rightarrow> frame list \<Rightarrow> doc_frame list \<Rightarrow>
    jval option \<Rightarrow> doc option \<Rightarrow> bool" where
  "stack_rel P h child [] [] root droot =
     (case child of Some (a, Some SRoot) \<Rightarrow> root = Some (VRef a) \<and> droot \<noteq> None | _ \<Rightarrow> rel_option (denotes P h) root droot)"
| "stack_rel P h child (f # fs) (g # gs) root droot =
     (fr_container f < length h \<and> fr_container f \<notin> addresses fs \<and>
      fr_slot f = df_slot g \<and> fr_key f = df_key g \<and> fr_phase f = df_phase g \<and>
      hole_rel P h child (h ! fr_container f) (df_content g) \<and>
      stack_rel P h (Some (fr_container f, fr_slot f)) fs gs root droot)"
| "stack_rel P h child _ _ root droot = False"

lemma hole_rel_mono:
  assumes "hole_rel P h child c d" and "\<And>a. a < length h \<Longrightarrow> a \<notin> P \<Longrightarrow> a \<notin> Q \<and> a < length h' \<and> h' ! a = h ! a"
  shows "hole_rel Q h' child c d"
  using assms(1) cell_rel_mono [OF _ assms(2)] unfolding hole_rel_def by (auto split: option.splits) blast+

lemma stack_rel_mono:
  assumes "stack_rel P h child fs gs root droot"
    and "\<And>a. a < length h \<Longrightarrow> a \<notin> P \<Longrightarrow> a \<notin> Q \<and> a < length h' \<and> h' ! a = h ! a"
    and "\<And>a. a \<in> addresses fs \<Longrightarrow> a < length h \<Longrightarrow> a < length h' \<and> h' ! a = h ! a"
  shows "stack_rel Q h' child fs gs root droot"
  using assms(1,3)
proof (induction fs arbitrary: child gs)
  case Nil
  have r: "rel_option (denotes P h) root droot \<Longrightarrow> rel_option (denotes Q h') root droot"
    by (erule option.rel_mono_strong) (blast intro: denotes_mono [OF _ assms(2)])
  show ?case
    using Nil.prems(1) by (cases gs) (auto intro: r split: option.splits slot.splits)
next
  case (Cons f fs)
  have "a \<in> addresses fs \<Longrightarrow> a < length h \<Longrightarrow> a < length h' \<and> h' ! a = h ! a" for a
    using Cons.prems(2) by (simp add: addresses_def)
  moreover have "fr_container f < length h \<Longrightarrow> fr_container f < length h' \<and> h' ! fr_container f = h ! fr_container f"
    using Cons.prems(2) by (simp add: addresses_def)
  ultimately show ?case
    using Cons.prems(1) Cons.IH by (cases gs) (auto intro: hole_rel_mono [OF _ assms(2)])
qed

section \<open>The parser and the reader\<close>

definition string_rel :: "open_string \<Rightarrow> doc_string \<Rightarrow> bool" where
  "string_rel os ds \<longleftrightarrow> os_is_key os = ds_is_key ds \<and> os_slot os = ds_slot ds \<and> os_text os = ds_text ds \<and> os_escape os = ds_escape ds"

definition reads :: "parser \<Rightarrow> reader \<Rightarrow> bool" where
  "reads p r \<longleftrightarrow>
     string_ok p \<and>
     stack_rel (addresses (sp_stack p)) (sp_store p) None (sp_stack p) (rd_stack r) (sp_root p) (rd_root r) \<and>
     sp_done p = rd_done r \<and> rel_option string_rel (sp_string p) (rd_string r) \<and>
     sp_scalar p = rd_scalar r \<and> sp_scalar_slot p = rd_scalar_slot r \<and>
     (sp_scalar_slot p = Some SRoot \<longrightarrow> sp_stack p = [])"

lemma reads_irrelevant [simp]:
  "reads (p\<lparr>sp_changes := cs\<rparr>) r = reads p r"
  "reads (p\<lparr>sp_credit := n\<rparr>) r = reads p r"
  "reads (p\<lparr>sp_path_cost := n\<rparr>) r = reads p r"
  "reads (p\<lparr>sp_dirty := b\<rparr>) r = reads p r"
  "reads (p\<lparr>sp_snapshot := v\<rparr>) r = reads p r"
  by (simp_all add: reads_def string_ok_def cell_of_def)

lemma reads_report [simp]: "reads (report ch p) r = reads p r" "reads (report_set q v p) r = reads p r"
  by (simp_all add: report_def report_set_def split: option.split)

lemma reads_mark_dirty [simp]: "reads (mark_dirty p) r = reads p r"
  by (simp add: mark_dirty_def)

lemma new_reads: "reads (new_parser h) new_reader"
  by (simp add: reads_def new_parser_def new_reader_def string_ok_def)

lemma addresses_Cons [simp]: "addresses (f # fs) = insert (fr_container f) (addresses fs)"
  by (simp add: addresses_def)

lemma addresses_Nil [simp]: "addresses [] = {}"
  by (simp add: addresses_def)

lemma has_slot_put_other: "has_slot s c \<Longrightarrow> has_slot s (put t v c)"
  by (cases s; cases c; cases t) (auto simp: al_put_keys)

lemma string_ok_place: "string_ok p \<Longrightarrow> string_ok (place slot v p)"
  by (auto simp: string_ok_def place_def cell_of_def Let_def has_slot_put_other split: option.split slot.split list.split)

lemma stack_rel_place:
  assumes "stack_rel (addresses (f # fs)) h None (f # fs) (g # gs) root droot"
    and "denotes (addresses (f # fs)) h v d"
  shows "stack_rel (addresses (f # fs)) (h[fr_container f := put s v (h ! fr_container f)]) None
    (f\<lparr>fr_size := n\<rparr> # fs) (g\<lparr>df_content := dput s d (df_content g)\<rparr> # gs) root droot"
proof -
  let ?P = "addresses (f # fs)" and ?h = "h[fr_container f := put s v (h ! fr_container f)]"
  have m: "a < length h \<Longrightarrow> a \<notin> ?P \<Longrightarrow> a \<notin> ?P \<and> a < length ?h \<and> ?h ! a = h ! a" for a
    by auto
  have "cell_rel ?P h (h ! fr_container f) (df_content g)"
    using assms(1) by (simp add: hole_rel_def)
  then have "cell_rel ?P ?h (put s v (h ! fr_container f)) (dput s d (df_content g))"
    using put_rel assms(2) by (blast intro: cell_rel_mono [OF _ m])
  moreover have "stack_rel ?P ?h (Some (fr_container f, fr_slot f)) fs gs root droot"
  proof (rule stack_rel_mono [OF _ m])
    show "stack_rel ?P h (Some (fr_container f, fr_slot f)) fs gs root droot"
      using assms(1) by auto
    show "a < length ?h \<and> ?h ! a = h ! a" if "a \<in> addresses fs" "a < length h" for a
    proof -
      have "a \<noteq> fr_container f"
        using that assms(1) by auto
      then show ?thesis
        using that(2) by simp
    qed
  qed
  ultimately show ?thesis
    using assms(1) by (simp add: hole_rel_def)
qed

lemma reads_stack: "reads p r \<Longrightarrow> (sp_stack p = [] \<longleftrightarrow> rd_stack r = [])"
  by (cases "sp_stack p"; cases "rd_stack r") (auto simp: reads_def)

lemma reads_root: "reads p r \<Longrightarrow> sp_stack p = [] \<Longrightarrow> (sp_root p = None \<longleftrightarrow> rd_root r = None)"
  by (cases "rd_stack r") (auto simp: reads_def)

lemma reads_top:
  assumes "reads p r" and "sp_stack p = f # fs"
  obtains g gs where "rd_stack r = g # gs" and "fr_slot f = df_slot g" and "fr_key f = df_key g" and "fr_phase f = df_phase g"
    and "cell_rel (addresses (f # fs)) (sp_store p) (cell_of p f) (df_content g)" and "fr_container f < length (sp_store p)"
  using assms by (cases "rd_stack r") (auto simp: reads_def hole_rel_def cell_of_def)

lemma reads_place:
  assumes "reads p r" and "denotes (addresses (sp_stack p)) (sp_store p) v d" and "slot = Some SRoot \<Longrightarrow> sp_stack p = []"
  shows "reads (place slot v p) (rplace slot d r)"
proof (cases slot)
  case None
  then show ?thesis
    using assms(1) by (simp add: place_def rplace_def)
next
  case slot: (Some s)
  have ok: "string_ok (place slot v p)"
    using assms(1) string_ok_place by (simp add: reads_def)
  show ?thesis
  proof (cases "s = SRoot")
    case True
    then have "sp_stack p = []" "rd_stack r = []"
      using assms slot reads_stack by auto
    moreover have "place slot v p = p\<lparr>sp_dirty := True, sp_root := Some v\<rparr>" "rplace slot d r = r\<lparr>rd_root := Some d\<rparr>"
      using slot True by (simp_all add: place_def rplace_def)
    ultimately show ?thesis
      using assms(1,2) ok by (simp add: reads_def)
  next
    case False
    then have p: "place slot v p = (case sp_stack p of [] \<Rightarrow> p
        | f # fs \<Rightarrow> let n = (if is_new s (cell_of p f) then 1 else 0)
             in p\<lparr>sp_dirty := True, sp_stack := f\<lparr>fr_size := fr_size f + n\<rparr> # fs, sp_path_cost := sp_path_cost p + n,
                    sp_store := (sp_store p)[fr_container f := put s v (cell_of p f)]\<rparr>)"
      "rplace slot d r = (case rd_stack r of [] \<Rightarrow> r
        | f # fs \<Rightarrow> r\<lparr>rd_stack := f\<lparr>df_content := dput s d (df_content f)\<rparr> # fs\<rparr>)"
      using slot by (auto simp only: place_def rplace_def option.case split: slot.split)
    show ?thesis
    proof (cases "sp_stack p")
      case Nil
      then show ?thesis
        using assms(1) p reads_stack [OF assms(1)] by simp
    next
      case (Cons f fs)
      then obtain g gs where g: "rd_stack r = g # gs" "df_slot g = fr_slot f" "fr_container f < length (sp_store p)"
        by (metis assms(1) Cons reads_top)
      have "stack_rel (addresses (f # fs)) (sp_store p) None (f # fs) (g # gs) (sp_root p) (rd_root r)"
        using assms(1) Cons g by (auto simp: reads_def)
      note placed = stack_rel_place [OF this, of v d s]
      have "sp_done p = rd_done r" "rel_option string_rel (sp_string p) (rd_string r)" "sp_scalar p = rd_scalar r"
        "sp_scalar_slot p = rd_scalar_slot r" "sp_scalar_slot p \<noteq> Some SRoot"
        using assms(1) Cons by (auto simp: reads_def)
      then show ?thesis
        using placed assms(2) Cons g ok p by (simp add: reads_def Let_def cell_of_def)
    qed
  qed
qed

lemma reads_value_slot: "reads p r \<Longrightarrow> rvalue_slot r = value_slot p"
proof (cases "sp_stack p")
  case Nil
  then show "reads p r \<Longrightarrow> ?thesis"
    using reads_stack [of p r] reads_root [of p r] by (simp add: value_slot_def rvalue_slot_def)
next
  case (Cons f fs)
  assume "reads p r"
  then obtain g gs where "rd_stack r = g # gs" "fr_key f = df_key g" "fr_phase f = df_phase g"
      "cell_rel (addresses (f # fs)) (sp_store p) (cell_of p f) (df_content g)"
    using Cons by (rule reads_top)
  then show ?thesis
    using Cons by (cases "cell_of p f"; cases "df_content g") (auto simp: value_slot_def rvalue_slot_def list_all2_lengthD)
qed

lemma value_slot_root: "value_slot p = Some SRoot \<Longrightarrow> sp_stack p = []"
  by (auto simp: value_slot_def split: list.splits container.splits if_splits)

lemma reads_set_phase: "reads p r \<Longrightarrow> reads (set_phase ph p) (rset_phase ph r)"
proof (cases "sp_stack p")
  case Nil
  assume r: "reads p r"
  with Nil show ?thesis
    using reads_stack [OF r] by (simp add: set_phase_def rset_phase_def)
next
  case (Cons f fs)
  assume r: "reads p r"
  then obtain g gs where "rd_stack r = g # gs"
    using Cons by (rule reads_top)
  then show ?thesis
    using r Cons by (auto simp: reads_def set_phase_def rset_phase_def hole_rel_def string_ok_def cell_of_def)
qed

lemma reads_value_ended:
  assumes "reads p r" and "sp_string p = None"
  shows "reads (value_ended p) (rvalue_ended r)"
proof (cases "sp_stack p")
  case Nil
  then show ?thesis
    using assms reads_stack [OF assms(1)] reads_root [OF assms(1)]
    by (simp add: value_ended_def rvalue_ended_def) (simp add: reads_def string_ok_def)
next
  case (Cons f fs)
  then show ?thesis
    using reads_set_phase [OF assms(1)] reads_stack [OF assms(1)]
    by (cases "rd_stack r") (simp_all add: value_ended_def rvalue_ended_def)
qed

section \<open>Strings and scalars\<close>

lemma denotes_str [simp]: "denotes P h (VStr s) (DStr s)"
  using denotes.plain [of "VStr s"] by simp

lemma scalar_denotes: "scalar_value t = Some v \<Longrightarrow> denotes P h v (doc_of v)"
  by (rule denotes.plain) (auto simp: scalar_value_def literals_def split: option.splits if_splits)

lemma reads_no_string: "reads p r \<Longrightarrow> reads (p\<lparr>sp_string := None\<rparr>) (r\<lparr>rd_string := None\<rparr>)"
  by (simp add: reads_def string_ok_def)

lemma has_slot_after_put: "is_new s c \<or> has_slot s c \<Longrightarrow> has_slot s (put s v c)"
  by (cases s; cases c) (auto simp: al_put_keys)

lemma value_slot_fits:
  "value_slot p = Some s \<Longrightarrow> sp_stack p = f # fs \<Longrightarrow> is_new s (cell_of p f) \<or> has_slot s (cell_of p f)"
  by (auto simp: value_slot_def split: container.splits if_splits)

lemma place_stack: "slot = None \<or> slot = Some SRoot \<Longrightarrow> sp_stack (place slot v p) = sp_stack p"
  by (auto simp: place_def)

lemma place_in:
  "s \<noteq> SRoot \<Longrightarrow> sp_stack p = f # fs \<Longrightarrow> place (Some s) v p = (let n = (if is_new s (cell_of p f) then 1 else 0)
      in p\<lparr>sp_dirty := True, sp_stack := f\<lparr>fr_size := fr_size f + n\<rparr> # fs, sp_path_cost := sp_path_cost p + n,
           sp_store := (sp_store p)[fr_container f := put s v (cell_of p f)]\<rparr>)"
  by (auto simp: place_def split: slot.split)

lemma place_slot:
  assumes "sp_stack p = f # fs" and "is_new s (cell_of p f) \<or> has_slot s (cell_of p f)" and "fr_container f < length (sp_store p)"
  shows "\<exists>f' fs'. sp_stack (place (Some s) v p) = f' # fs' \<and> has_slot s (cell_of (place (Some s) v p) f') \<and>
    fr_container f' < length (sp_store (place (Some s) v p))"
proof -
  have "s \<noteq> SRoot"
    using assms(2) by auto
  then show ?thesis
    using place_in [OF _ assms(1)] assms has_slot_after_put [OF assms(2)] by (simp add: Let_def cell_of_def)
qed

lemma place_done [simp]: "sp_done (place slot v p) = sp_done p" "sp_scalar_slot (place slot v p) = sp_scalar_slot p"
  by (simp_all add: place_def Let_def split: option.split slot.split list.split)

lemma rplace_kept [simp]:
  "rd_done (rplace slot v r) = rd_done r" "rd_string (rplace slot v r) = rd_string r"
  "rd_scalar (rplace slot v r) = rd_scalar r" "rd_scalar_slot (rplace slot v r) = rd_scalar_slot r"
  by (simp_all add: rplace_def split: option.split slot.split list.split)

lemma reads_with_string:
  assumes "reads p r" and "string_rel os ds" and "string_ok (p\<lparr>sp_string := Some os\<rparr>)"
  shows "reads (p\<lparr>sp_string := Some os\<rparr>) (r\<lparr>rd_string := Some ds\<rparr>)"
  using assms by (simp add: reads_def)

text \<open>Whether the next string is a key.\<close>

definition key_next :: "parser \<Rightarrow> bool" where
  "key_next p \<longleftrightarrow> (case sp_stack p of f # _ \<Rightarrow> \<not> is_arr (cell_of p f) \<and> (fr_phase f = AtKey \<or> fr_phase f = AtComma) | [] \<Rightarrow> False)"

lemma reads_key_next:
  assumes "reads p r"
  shows "(case rd_stack r of f # _ \<Rightarrow> \<not> is_doc_arr (df_content f) \<and> (df_phase f = AtKey \<or> df_phase f = AtComma) | [] \<Rightarrow> False) = key_next p"
proof (cases "sp_stack p")
  case (Cons f fs)
  then show ?thesis
    using assms by (auto simp: key_next_def dest!: cell_rel_arr elim: reads_top)
next
  case Nil
  then show ?thesis
    using reads_stack [OF assms] by (simp add: key_next_def)
qed

lemma start_string_eq: "start_string p =
    (if key_next p
     then p\<lparr>sp_string := Some \<lparr>os_is_key = True, os_slot = None, os_text = [], os_escape = [], os_path = None, os_change = None\<rparr>\<rparr>
     else report_set (reported_path (value_slot p) p) (VStr []) ((place (value_slot p) (VStr []) p)
       \<lparr>sp_string := Some \<lparr>os_is_key = False, os_slot = value_slot p, os_text = [], os_escape = [], os_path = reported_path (value_slot p) p,
          os_change = map_option (\<lambda>_. length (sp_changes p)) (reported_path (value_slot p) p)\<rparr>\<rparr>))"
proof -
  have "sp_changes (place slot v p) = sp_changes p" for slot v
    by (simp add: place_def Let_def split: option.split slot.split list.split)
  then show ?thesis
    unfolding start_string_def key_next_def [symmetric] by (simp add: report_set_def Let_def split: option.split)
qed

lemma reads_start_string:
  assumes "reads p r" and "\<not> sp_done p"
  shows "reads (start_string p) (rstart_string r)"
proof (cases "key_next p")
  case True
  then have "rstart_string r = r\<lparr>rd_string := Some \<lparr>ds_is_key = True, ds_slot = None, ds_text = [], ds_escape = []\<rparr>\<rparr>"
    using reads_key_next [OF assms(1)] by (simp add: rstart_string_def)
  then show ?thesis
    using True assms by (simp add: start_string_eq) (intro reads_with_string, auto simp: string_rel_def string_ok_def)
next
  case False
  let ?p = "place (value_slot p) (VStr []) p"
  let ?os = "\<lparr>os_is_key = False, os_slot = value_slot p, os_text = [], os_escape = [], os_path = reported_path (value_slot p) p,
          os_change = map_option (\<lambda>_. length (sp_changes p)) (reported_path (value_slot p) p)\<rparr>"
  have r: "reads ?p (rplace (rvalue_slot r) (DStr []) r)"
    using reads_place [OF assms(1) denotes_str] reads_value_slot [OF assms(1)] value_slot_root by metis
  have ok: "string_ok (?p\<lparr>sp_string := Some ?os\<rparr>)"
  proof (cases "sp_stack p")
    case Nil
    then have "value_slot p = None \<or> value_slot p = Some SRoot"
      by (simp add: value_slot_def)
    then show ?thesis
      using assms Nil place_stack by (auto simp: string_ok_def)
  next
    case (Cons f fs)
    have "fr_container f < length (sp_store p)"
      using assms(1) Cons by (rule reads_top)
    then show ?thesis
      using assms(2) place_slot [OF Cons value_slot_fits [OF _ Cons]]
      by (cases "value_slot p") (auto simp: string_ok_def cell_of_def)
  qed
  have "reads (?p\<lparr>sp_string := Some ?os\<rparr>) (rstart_string r)"
    using reads_with_string [OF r _ ok, of "\<lparr>ds_is_key = False, ds_slot = value_slot p, ds_text = [], ds_escape = []\<rparr>"]
      False reads_key_next [OF assms(1)] reads_value_slot [OF assms(1)]
    by (simp add: rstart_string_def string_rel_def)
  then show ?thesis
    using False by (simp add: start_string_eq)
qed

lemma reads_escape: "reads p r \<Longrightarrow> reads (set_escape e p) (rset_escape e r)"
  by (cases "sp_string p"; cases "rd_string r") (auto simp: reads_def set_escape_def rset_escape_def string_rel_def string_ok_def cell_of_def)

text \<open>Appending text places the longer string; the rest is reporting.\<close>

definition longer :: "jsstr \<Rightarrow> open_string \<Rightarrow> open_string" where
  "longer s os = os\<lparr>os_text := os_text os @ s\<rparr>"

definition extended :: "jsstr \<Rightarrow> open_string \<Rightarrow> parser \<Rightarrow> parser" where
  "extended s os p =
     (if os_is_key os then p\<lparr>sp_string := Some (longer s os)\<rparr>
      else place (os_slot os) (VStr (os_text os @ s)) (p\<lparr>sp_string := Some (longer s os)\<rparr>))"

lemma same_fields:
  "sp_string q = x \<Longrightarrow> q\<lparr>sp_string := x\<rparr> = q"
  "sp_changes q = cs \<Longrightarrow> q\<lparr>sp_changes := cs\<rparr> = q"
  "os_change os = k \<Longrightarrow> os\<lparr>os_change := k\<rparr> = os"
  by auto

lemma extended_kept: "sp_string (extended s os p) = Some (longer s os)" "sp_changes (extended s os p) = sp_changes p"
  by (simp_all add: extended_def place_def Let_def split: option.split slot.split list.split)

lemma append_string_extended:
  assumes "sp_string p = Some os"
  obtains cs k where "append_string s p = (extended s os p)\<lparr>sp_changes := cs, sp_string := Some (longer s os\<lparr>os_change := k\<rparr>)\<rparr>"
proof (cases "os_is_key os \<or> os_path os = None")
  case True
  then have "append_string s p = extended s os p"
    using assms by (auto simp: append_string_def extended_def longer_def Let_def)
  also have "\<dots> = (extended s os p)\<lparr>sp_changes := sp_changes p, sp_string := Some (longer s os\<lparr>os_change := os_change os\<rparr>)\<rparr>"
    by (simp add: same_fields extended_kept longer_def)
  finally show thesis
    by (rule that)
next
  case False
  then obtain q where q: "os_path os = Some q" "\<not> os_is_key os"
    by auto
  show thesis
  proof (cases "\<exists>k. os_change os = Some k \<and> k + 1 = length (sp_changes p)")
    case True
    then obtain k where k: "os_change os = Some k" "k + 1 = length (sp_changes p)"
      by auto
    have "append_string s p = (extended s os p)\<lparr>sp_changes := butlast (sp_changes p) @ [extend_change s (last (sp_changes p))],
        sp_string := Some (longer s os\<lparr>os_change := Some k\<rparr>)\<rparr>"
      using assms q k extended_kept [of s os p]
      by (simp add: append_string_def extended_def Let_def same_fields longer_def)
    then show thesis
      by (rule that)
  next
    case F: False
    then have "append_string s p = (extended s os p)\<lparr>sp_changes := sp_changes p @ [ChAppend q s],
        sp_string := Some (longer s os\<lparr>os_change := Some (length (sp_changes p))\<rparr>)\<rparr>"
      using assms q extended_kept(2) [of s os p]
      by (cases "os_change os") (simp_all add: append_string_def extended_def Let_def report_def longer_def)
    then show thesis
      by (rule that)
  qed
qed

lemma reads_change [simp]:
  "reads (p\<lparr>sp_string := Some (os\<lparr>os_change := k\<rparr>)\<rparr>) r = reads (p\<lparr>sp_string := Some os\<rparr>) r"
proof -
  have "rel_option string_rel (Some (os\<lparr>os_change := k\<rparr>)) x = rel_option string_rel (Some os) x" for x
    by (cases x) (simp_all add: string_rel_def)
  then show ?thesis
    by (simp add: reads_def string_ok_def cell_of_def)
qed

lemma reads_extended:
  assumes "reads p r" and "sp_string p = Some os"
  shows "reads (extended s os p) (rappend s r)"
proof -
  obtain ds where ds: "rd_string r = Some ds" "string_rel os ds"
    using assms by (auto simp: reads_def option_rel_Some1)
  let ?p = "p\<lparr>sp_string := Some (longer s os)\<rparr>" and ?r = "r\<lparr>rd_string := Some (ds\<lparr>ds_text := ds_text ds @ s\<rparr>)\<rparr>"
  have "reads ?p ?r"
    using assms ds by (auto simp: reads_def string_ok_def cell_of_def longer_def string_rel_def)
  moreover have "reads (place (os_slot os) (VStr (os_text os @ s)) ?p) (rplace (os_slot os) (DStr (os_text os @ s)) ?r)"
    if "\<not> os_is_key os"
    using that assms by (intro reads_place [OF calculation]) (auto simp: reads_def string_ok_def)
  ultimately show ?thesis
    using ds by (auto simp: extended_def rappend_def Let_def string_rel_def)
qed

lemma reads_append:
  assumes "reads p r" and "sp_string p \<noteq> None"
  shows "reads (append_string s p) (rappend s r)"
proof -
  obtain os where os: "sp_string p = Some os"
    using assms(2) by auto
  obtain cs k where a: "append_string s p = (extended s os p)\<lparr>sp_changes := cs, sp_string := Some (longer s os\<lparr>os_change := k\<rparr>)\<rparr>"
    using os by (rule append_string_extended)
  have "(extended s os p)\<lparr>sp_changes := cs, sp_string := Some (longer s os)\<rparr> = (extended s os p)\<lparr>sp_changes := cs\<rparr>"
    by (rule same_fields) (simp add: extended_kept)
  then show ?thesis
    using reads_extended [OF assms(1) os] by (simp add: a)
qed

lemma reads_end_string:
  assumes "reads p r" and "sp_string p \<noteq> None"
  shows "reads (end_string p) (rend_string r)"
proof -
  obtain os ds where os: "sp_string p = Some os" "rd_string r = Some ds" "string_rel os ds"
    using assms by (auto simp: reads_def option_rel_Some1)
  note n = reads_no_string [OF assms(1)]
  show ?thesis
  proof (cases "os_is_key os")
    case False
    then show ?thesis
      using os reads_value_ended [OF n] by (simp add: end_string_def rend_string_def string_rel_def)
  next
    case True
    show ?thesis
    proof (cases "sp_stack p")
      case Nil
      then show ?thesis
        using os True n reads_stack [OF assms(1)] by (simp add: end_string_def rend_string_def string_rel_def)
    next
      case (Cons f fs)
      then obtain g gs where g: "rd_stack r = g # gs"
        by (metis assms(1) reads_top)
      have "reads (p\<lparr>sp_string := None, sp_stack := f\<lparr>fr_key := Some (os_text os), fr_phase := AtColon\<rparr> # fs\<rparr>)
          (r\<lparr>rd_string := None, rd_stack := g\<lparr>df_key := Some (os_text os), df_phase := AtColon\<rparr> # gs\<rparr>)"
        using n Cons g by (auto simp: reads_def hole_rel_def string_ok_def)
      then show ?thesis
        using os True Cons g by (simp add: end_string_def rend_string_def string_rel_def)
    qed
  qed
qed

lemma reads_scalar_slot: "reads p r \<Longrightarrow> sp_scalar_slot p = Some SRoot \<Longrightarrow> sp_stack p = []"
  by (simp add: reads_def)

lemma reads_extend_scalar:
  "reads p r \<Longrightarrow> reads (p\<lparr>sp_scalar := sp_scalar p @ s\<rparr>) (r\<lparr>rd_scalar := rd_scalar r @ s\<rparr>)"
  by (auto simp: reads_def string_ok_def cell_of_def)

lemma reads_end_scalar:
  assumes "reads p r" and "sp_string p = None"
  shows "reads (end_scalar p) (rend_scalar r)"
proof -
  have sc: "sp_scalar p = rd_scalar r" "sp_scalar_slot p = rd_scalar_slot r"
    using assms(1) by (simp_all add: reads_def)
  have c: "reads (p\<lparr>sp_scalar := [], sp_scalar_slot := None\<rparr>) (r\<lparr>rd_scalar := [], rd_scalar_slot := None\<rparr>)"
    using assms by (simp add: reads_def string_ok_def)
  show ?thesis
  proof (cases "scalar_value (sp_scalar p)")
    case None
    then show ?thesis
      using reads_value_ended [OF c] sc assms(2) by (simp add: end_scalar_def rend_scalar_def)
  next
    case (Some v)
    have pl: "reads (place (sp_scalar_slot p) v (p\<lparr>sp_scalar := [], sp_scalar_slot := None\<rparr>))
        (rplace (rd_scalar_slot r) (doc_of v) (r\<lparr>rd_scalar := [], rd_scalar_slot := None\<rparr>))"
      using reads_place [OF c scalar_denotes [OF Some]] sc reads_scalar_slot [OF assms(1)] by simp
    have "reads (value_ended (report_set q w (place (sp_scalar_slot p) v (p\<lparr>sp_scalar := [], sp_scalar_slot := None\<rparr>))))
        (rvalue_ended (rplace (rd_scalar_slot r) (doc_of v) (r\<lparr>rd_scalar := [], rd_scalar_slot := None\<rparr>)))" for q w
      using pl assms(2) by (intro reads_value_ended) (simp_all add: report_set_def report_def split: option.split)
    then show ?thesis
      using Some sc by (simp add: end_scalar_def rend_scalar_def Let_def)
  qed
qed

lemma reads_start_scalar:
  assumes "reads p r" and "sp_string p = None"
  shows "reads (p\<lparr>sp_scalar := [c], sp_scalar_slot := value_slot p\<rparr>) (r\<lparr>rd_scalar := [c], rd_scalar_slot := rvalue_slot r\<rparr>)"
  using assms reads_value_slot [OF assms(1)] value_slot_root [of p] by (simp add: reads_def string_ok_def)

section \<open>Opening and closing\<close>

lemma stack_addresses: "stack_rel P h child fs gs root droot \<Longrightarrow> a \<in> addresses fs \<Longrightarrow> a < length h"
proof (induction fs arbitrary: child gs)
  case (Cons f fs)
  then show ?case
    by (cases gs) auto
qed simp

lemma string_ok_alloc:
  assumes "string_ok p"
  shows "string_ok (p\<lparr>sp_store := sp_store p @ cs\<rparr>)"
proof -
  have "fr_container f < length (sp_store p) \<Longrightarrow> has_slot s (cell_of p f) \<Longrightarrow>
      has_slot s (cell_of (p\<lparr>sp_store := sp_store p @ cs\<rparr>) f) \<and> fr_container f < length (sp_store p @ cs)" for f s
    by (simp add: cell_of_def nth_append)
  then show ?thesis
    using assms by (cases "sp_string p"; cases "sp_stack p"; cases "os_slot (the (sp_string p))") (auto simp: string_ok_def)
qed

lemma reads_alloc:
  assumes "reads p r"
  shows "reads (p\<lparr>sp_store := sp_store p @ cs\<rparr>) r"
proof -
  have st: "stack_rel (addresses (sp_stack p)) (sp_store p) None (sp_stack p) (rd_stack r) (sp_root p) (rd_root r)"
    using assms by (simp add: reads_def)
  have "stack_rel (addresses (sp_stack p)) (sp_store p @ cs) None (sp_stack p) (rd_stack r) (sp_root p) (rd_root r)"
    by (rule stack_rel_mono [OF st]) (auto simp: nth_append)
  then show ?thesis
    using assms string_ok_alloc by (simp add: reads_def)
qed

lemma reads_open_frame:
  assumes r: "reads p r" and s: "sp_string p = None" and slot: "slot = value_slot p"
    and c: "c = CArr [] \<and> d = DArr [] \<or> c = CObj [] \<and> d = DObj []" and a: "a = length (sp_store p)"
    and f: "fr_container f = a" "fr_slot f = slot" "fr_key f = df_key g" "fr_phase f = df_phase g" "df_slot g = slot" "df_content g = d"
    and none: "sp_scalar_slot p \<noteq> Some SRoot"
  shows "reads ((place slot (VRef a) (p\<lparr>sp_store := sp_store p @ [c]\<rparr>))\<lparr>sp_stack := f # sp_stack (place slot (VRef a) (p\<lparr>sp_store := sp_store p @ [c]\<rparr>))\<rparr>)
    ((rplace slot d r)\<lparr>rd_stack := g # rd_stack (rplace slot d r)\<rparr>)"
proof -
  let ?P = "addresses (sp_stack p)" and ?h = "sp_store p @ [c]"
  have st: "stack_rel ?P (sp_store p) None (sp_stack p) (rd_stack r) (sp_root p) (rd_root r)"
    using r by (simp add: reads_def)
  have fresh: "a \<notin> ?P"
    using stack_addresses [OF st] a by auto
  have m: "b < length (sp_store p) \<Longrightarrow> b \<notin> ?P \<Longrightarrow> b \<notin> insert a ?P \<and> b < length ?h \<and> ?h ! b = sp_store p ! b" for b
    using a by (simp add: nth_append)
  have empty: "hole_rel Q h None c d" for Q h
    using c by (auto simp: hole_rel_def)
  have fields: "sp_done p = rd_done r" "rel_option string_rel (sp_string p) (rd_string r)" "sp_scalar p = rd_scalar r"
    "sp_scalar_slot p = rd_scalar_slot r"
    using r by (simp_all add: reads_def)
  show ?thesis
  proof (cases "sp_stack p")
    case Nil
    then have g: "rd_stack r = []"
      using reads_stack [OF r] by simp
    have "slot = None \<or> slot = Some SRoot"
      using slot Nil by (simp add: value_slot_def)
    moreover have "rel_option (denotes {} (sp_store p)) (sp_root p) (rd_root r)"
      using st Nil g by simp
    then have "rel_option (denotes {a} ?h) (sp_root p) (rd_root r)"
      by (rule option.rel_mono_strong) (rule denotes_mono, assumption, use a in \<open>simp add: nth_append\<close>)
    ultimately show ?thesis
      using Nil g f a empty fields none s by (auto simp: reads_def place_def rplace_def string_ok_def nth_append)
  next
    case (Cons f1 fs)
    obtain g1 gs where g1: "rd_stack r = g1 # gs" "fr_slot f1 = df_slot g1" "fr_key f1 = df_key g1" "fr_phase f1 = df_phase g1"
        "cell_rel ?P (sp_store p) (cell_of p f1) (df_content g1)" "fr_container f1 < length (sp_store p)"
      using reads_top [OF r Cons] Cons by metis
    have st': "fr_container f1 \<notin> addresses fs" "stack_rel ?P (sp_store p) (Some (fr_container f1, fr_slot f1)) fs gs (sp_root p) (rd_root r)"
      using st Cons g1(1) by auto
    show ?thesis
    proof (cases slot)
      case None
      have "stack_rel (insert a ?P) ?h None (sp_stack p) (rd_stack r) (sp_root p) (rd_root r)"
        by (rule stack_rel_mono [OF st m]) (auto simp: nth_append)
      then have "stack_rel (insert a ?P) ?h (Some (a, None)) (sp_stack p) (rd_stack r) (sp_root p) (rd_root r)"
        using Cons g1(1) by (auto simp: hole_rel_def)
      then show ?thesis
        using f a empty fields none s fresh None by (simp add: reads_def place_def rplace_def string_ok_def nth_append)
    next
      case (Some sl)
      have fits: "is_new sl (cell_of p f1) \<or> has_slot sl (cell_of p f1)"
        using value_slot_fits [OF _ Cons] slot Some by simp
      then have nr: "sl \<noteq> SRoot"
        by auto
      let ?h2 = "?h[fr_container f1 := put sl (VRef a) (cell_of p f1)]"
      have m2: "b < length (sp_store p) \<Longrightarrow> b \<notin> ?P \<Longrightarrow> b \<notin> insert a ?P \<and> b < length ?h2 \<and> ?h2 ! b = sp_store p ! b" for b
        using a Cons by (simp add: nth_append)
      have neq: "b \<noteq> fr_container f1" if "b \<in> addresses fs" for b
        using that st'(1) by auto
      have "cell_rel (insert a ?P) ?h2 (cell_of p f1) (df_content g1)"
        by (rule cell_rel_mono [OF g1(5) m2])
      then have hole: "hole_rel (insert a ?P) ?h2 (Some (a, Some sl)) (put sl (VRef a) (cell_of p f1)) (dput sl d (df_content g1))"
        using fits by (auto simp: hole_rel_def)
      have rest: "stack_rel (insert a ?P) ?h2 (Some (fr_container f1, fr_slot f1)) fs gs (sp_root p) (rd_root r)"
        by (rule stack_rel_mono [OF st'(2) m2]) (auto simp: nth_append dest: neq)
      have q: "cell_of (p\<lparr>sp_store := ?h\<rparr>) f1 = cell_of p f1"
        using g1(6) by (simp add: cell_of_def nth_append)
      obtain n where pl: "place slot (VRef a) (p\<lparr>sp_store := ?h\<rparr>) =
          p\<lparr>sp_dirty := True, sp_stack := f1\<lparr>fr_size := fr_size f1 + n\<rparr> # fs, sp_path_cost := sp_path_cost p + n, sp_store := ?h2\<rparr>"
        using place_in [OF nr, of "p\<lparr>sp_store := ?h\<rparr>" f1 fs "VRef a"] Some Cons q by (auto simp: Let_def)
      have rp: "rplace slot d r = r\<lparr>rd_stack := g1\<lparr>df_content := dput sl d (df_content g1)\<rparr> # gs\<rparr>"
        using Some nr g1(1) by (auto simp: rplace_def split: slot.split)
      have "?h2 ! a = c" "a \<noteq> fr_container f1"
        using a g1(6) by (simp_all add: nth_append)
      then show ?thesis
        using f a empty fields none s fresh Some hole rest g1 st'(1) Cons
        unfolding pl rp by (simp add: reads_def string_ok_def)
    qed
  qed
qed

lemma value_slot_alloc:
  assumes "reads p r"
  shows "value_slot (p\<lparr>sp_store := sp_store p @ cs\<rparr>) = value_slot p"
proof (cases "sp_stack p")
  case (Cons f fs)
  then have "fr_container f < length (sp_store p)"
    using assms by (metis reads_top)
  then show ?thesis
    using Cons by (simp add: value_slot_def cell_of_def nth_append)
qed (simp add: value_slot_def)

lemma reads_open:
  assumes r: "reads p r" and s: "sp_string p = None" and none: "sp_scalar_slot p = None"
    and c: "c = CArr [] \<and> d = DArr [] \<or> c = CObj [] \<and> d = DObj []"
  shows "reads (open_container c p) (ropen d r)"
proof -
  let ?q = "p\<lparr>sp_store := sp_store p @ [c]\<rparr>"
  let ?path = "reported_path (value_slot p) ?q"
  let ?f = "\<lparr>fr_container = length (sp_store p), fr_slot = value_slot p, fr_path = ?path,
      fr_reports = (case ?path of None \<Rightarrow> False | Some q \<Rightarrow> length q < max_reported_depth),
      fr_size = 0, fr_key = None, fr_phase = (if is_arr c then AtValue else AtKey)\<rparr>"
  let ?g = "\<lparr>df_content = d, df_slot = value_slot p, df_key = None, df_phase = (if is_doc_arr d then AtValue else AtKey)\<rparr>"
  let ?u = "place (value_slot p) (VRef (length (sp_store p))) ?q"
  have arr: "is_arr c = is_doc_arr d"
    using c by auto
  have "reads (?u\<lparr>sp_stack := ?f # sp_stack ?u\<rparr>)
      ((rplace (value_slot p) d r)\<lparr>rd_stack := ?g # rd_stack (rplace (value_slot p) d r)\<rparr>)"
    using none by (intro reads_open_frame [OF r s refl c refl]) (simp_all add: arr)
  then have u: "reads (?u\<lparr>sp_stack := ?f # sp_stack ?u, sp_path_cost := n, sp_dirty := True\<rparr>) (ropen d r)" for n
    using reads_value_slot [OF r] by (simp add: ropen_def Let_def)
  have o: "open_container c p = (case ?path of
      None \<Rightarrow> ?u\<lparr>sp_stack := ?f # sp_stack ?u, sp_path_cost := sp_path_cost ?u + 1, sp_dirty := True\<rparr>
    | Some q \<Rightarrow> let v = ?u\<lparr>sp_stack := ?f # sp_stack ?u, sp_path_cost := sp_path_cost ?u + 1, sp_dirty := True\<rparr>
        in report (ChSet q (VRef (length (sp_store v)))) (v\<lparr>sp_store := sp_store v @ [empty_like c]\<rparr>))"
    unfolding open_container_def Let_def value_slot_alloc [OF r] by simp
  show ?thesis
  proof (cases ?path)
    case None
    then show ?thesis
      using u by (simp add: o)
  next
    case (Some q)
    then show ?thesis
      unfolding o Some option.case Let_def reads_report by (intro reads_alloc) (use u Some in simp)
  qed
qed

lemma reads_close_frame:
  assumes r: "reads p r" and s: "sp_string p = None" "sp_scalar_slot p = None" and st: "sp_stack p = f # fs" "rd_stack r = g # gs"
  shows "reads (p\<lparr>sp_stack := fs\<rparr>) (rplace (df_slot g) (df_content g) (r\<lparr>rd_stack := gs\<rparr>))"
proof -
  let ?a = "fr_container f" and ?P = "addresses (f # fs)" and ?h = "sp_store p"
  have rel: "?a < length ?h" "?a \<notin> addresses fs" "fr_slot f = df_slot g" "cell_rel ?P ?h (?h ! ?a) (df_content g)"
    "stack_rel ?P ?h (Some (?a, df_slot g)) fs gs (sp_root p) (rd_root r)"
    using r st by (auto simp: reads_def hole_rel_def)
  have m: "b < length ?h \<Longrightarrow> b \<notin> ?P \<Longrightarrow> b \<notin> addresses fs \<and> b < length ?h \<and> ?h ! b = ?h ! b" for b
    by simp
  have child: "denotes (addresses fs) ?h (VRef ?a) (df_content g)"
    using rel cell_rel_mono [OF rel(4) m] by (simp add: denotes_ref)
  have fields: "sp_done p = rd_done r" "rd_string r = None" "sp_scalar p = rd_scalar r" "rd_scalar_slot r = None"
    using r s by (auto simp: reads_def)
  show ?thesis
  proof (cases fs)
    case Nil
    then have gs: "gs = []"
      using rel(5) by (cases gs) auto
    have mono: "rel_option (denotes ?P ?h) (sp_root p) (rd_root r) \<Longrightarrow> rel_option (denotes (addresses fs) ?h) (sp_root p) (rd_root r)"
      by (erule option.rel_mono_strong) (blast intro: denotes_mono [OF _ m])
    show ?thesis
    proof (cases "df_slot g = Some SRoot")
      case True
      then show ?thesis
        using rel(5) Nil gs child fields s by (simp add: reads_def rplace_def string_ok_def)
    next
      case False
      then have "rel_option (denotes ?P ?h) (sp_root p) (rd_root r)"
        using rel(5) Nil gs by (auto split: option.splits slot.splits)
      moreover have "rplace (df_slot g) (df_content g) (r\<lparr>rd_stack := gs\<rparr>) = r\<lparr>rd_stack := []\<rparr>"
        using False gs by (auto simp: rplace_def split: option.split slot.split)
      ultimately show ?thesis
        using mono Nil fields s by (simp add: reads_def string_ok_def)
    qed
  next
    case (Cons f1 fs1)
    then obtain g1 gs1 where g1: "gs = g1 # gs1"
      using rel(5) by (cases gs) auto
    have rel1: "fr_container f1 < length ?h" "fr_container f1 \<notin> addresses fs1" "fr_slot f1 = df_slot g1" "fr_key f1 = df_key g1"
      "fr_phase f1 = df_phase g1" "hole_rel ?P ?h (Some (?a, df_slot g)) (?h ! fr_container f1) (df_content g1)"
      "stack_rel ?P ?h (Some (fr_container f1, df_slot g1)) fs1 gs1 (sp_root p) (rd_root r)"
      using rel(5) Cons g1 by auto
    have rest: "stack_rel (addresses fs) ?h (Some (fr_container f1, df_slot g1)) fs1 gs1 (sp_root p) (rd_root r)"
      by (rule stack_rel_mono [OF rel1(7) m]) auto
    have "\<exists>d'. rplace (df_slot g) (df_content g) (r\<lparr>rd_stack := gs\<rparr>) = r\<lparr>rd_stack := g1\<lparr>df_content := d'\<rparr> # gs1\<rparr> \<and>
        cell_rel (addresses fs) ?h (?h ! fr_container f1) d'"
    proof (cases "df_slot g")
      case None
      then have "cell_rel ?P ?h (?h ! fr_container f1) (df_content g1)"
        using rel1(6) by (simp add: hole_rel_def)
      then have "cell_rel (addresses fs) ?h (?h ! fr_container f1) (df_content g1)"
        by (rule cell_rel_mono [OF _ m])
      then show ?thesis
        using None g1 by (intro exI [of _ "df_content g1"]) (simp add: rplace_def)
    next
      case (Some sl)
      then obtain c0 d0 e where hole: "cell_rel ?P ?h c0 d0" "is_new sl c0 \<or> has_slot sl c0"
          "?h ! fr_container f1 = put sl (VRef ?a) c0" "df_content g1 = dput sl e d0"
        using rel1(6) by (auto simp: hole_rel_def)
      then have nr: "sl \<noteq> SRoot"
        by auto
      have "cell_rel (addresses fs) ?h (put sl (VRef ?a) c0) (dput sl (df_content g) d0)"
        by (rule put_rel [OF cell_rel_mono [OF hole(1) m] child])
      moreover have "dput sl (df_content g) (df_content g1) = dput sl (df_content g) d0"
        using dput_dput [OF hole(1,2)] hole(4) by simp
      ultimately show ?thesis
        using Some nr g1 hole(3) by (intro exI [of _ "dput sl (df_content g) (df_content g1)"]) (auto simp: rplace_def split: slot.split)
    qed
    then obtain d' where d': "rplace (df_slot g) (df_content g) (r\<lparr>rd_stack := gs\<rparr>) = r\<lparr>rd_stack := g1\<lparr>df_content := d'\<rparr> # gs1\<rparr>"
        "cell_rel (addresses fs) ?h (?h ! fr_container f1) d'"
      by blast
    show ?thesis
      unfolding d'(1) using d'(2) rest rel1 fields s Cons by (simp add: reads_def string_ok_def hole_rel_def)
  qed
qed

lemma reads_close:
  assumes r: "reads p r" and s: "sp_string p = None" "sp_scalar_slot p = None"
  shows "reads (close_container p) (rclose r)"
proof (cases "sp_stack p")
  case Nil
  then show ?thesis
    using r reads_stack [OF r] by (simp add: close_container_def rclose_def)
next
  case (Cons f fs)
  then obtain g gs where g: "rd_stack r = g # gs"
    using r by (metis reads_top)
  have c: "reads (p\<lparr>sp_stack := fs, sp_path_cost := n, sp_dirty := True\<rparr>) (rplace (df_slot g) (df_content g) (r\<lparr>rd_stack := gs\<rparr>))" for n
    using reads_close_frame [OF r s Cons g] by simp
  have "reads (value_ended (if b then report ch (p\<lparr>sp_stack := fs, sp_path_cost := n, sp_dirty := True\<rparr>)
      else p\<lparr>sp_stack := fs, sp_path_cost := n, sp_dirty := True\<rparr>))
      (rvalue_ended (rplace (df_slot g) (df_content g) (r\<lparr>rd_stack := gs\<rparr>)))" for b ch n
    using c s by (intro reads_value_ended) (simp_all add: report_def)
  then show ?thesis
    using Cons g by (simp add: close_container_def rclose_def Let_def)
qed

text \<open>No value has started where the next character is a structural one.\<close>

lemma reads_structural:
  assumes "reads p r" and "sp_string p = None" and "\<not> sp_done p" and "sp_scalar_slot p = None"
  shows "reads (structural c p) (rstructural c r)"
proof -
  have top: "(case sp_stack p of f # _ \<Rightarrow> if \<not> is_arr (cell_of p f) \<and> fr_phase f = AtColon then set_phase AtValue p else p | [] \<Rightarrow> p) =
      (if \<exists>f fs. sp_stack p = f # fs \<and> \<not> is_arr (cell_of p f) \<and> fr_phase f = AtColon then set_phase AtValue p else p)" for p
    by (auto split: list.split)
  show ?thesis
  proof (cases "sp_stack p")
    case Nil
    then show ?thesis
      using assms reads_stack [OF assms(1)] reads_start_string [OF assms(1)] reads_open [OF assms(1,2,4)] reads_close [OF assms(1,2,4)]
        reads_start_scalar [OF assms(1,2)]
      by (simp add: structural_def rstructural_def)
  next
    case (Cons f fs)
    then obtain g gs where g: "rd_stack r = g # gs" "fr_phase f = df_phase g"
        "cell_rel (addresses (f # fs)) (sp_store p) (cell_of p f) (df_content g)"
      using assms(1) by (metis reads_top)
    then show ?thesis
      using assms Cons reads_start_string [OF assms(1)] reads_open [OF assms(1,2,4)] reads_close [OF assms(1,2,4)]
        reads_start_scalar [OF assms(1,2)] reads_set_phase [OF assms(1)] cell_rel_arr [OF g(3)]
      by (simp add: structural_def rstructural_def)
  qed
qed

end
