(* ===== verification/StreamReads.thy ===== *)
theory StreamReads
  imports StreamRefine
begin

text \<open>
  A parser that has read some pieces, with snapshots taken in between, holds what the reader holds of the
  whole text; a snapshot it makes denotes what that text shows, and stays as it is while more is read.
\<close>

section \<open>Pieces\<close>

definition slot_ok :: "parser \<Rightarrow> bool" where
  "slot_ok p \<longleftrightarrow> (sp_scalar p = [] \<longrightarrow> sp_scalar_slot p = None)"

lemma scalar_fields [simp]:
  "sp_scalar (append_string s p) = sp_scalar p" "sp_scalar_slot (append_string s p) = sp_scalar_slot p"
  "sp_scalar (set_escape e p) = sp_scalar p" "sp_scalar_slot (set_escape e p) = sp_scalar_slot p"
  "sp_scalar (set_phase ph p) = sp_scalar p" "sp_scalar_slot (set_phase ph p) = sp_scalar_slot p"
  "sp_scalar_slot (value_ended p) = sp_scalar_slot p" "sp_scalar_slot (report_set q v p) = sp_scalar_slot p"
  "sp_scalar (end_string p) = sp_scalar p" "sp_scalar_slot (end_string p) = sp_scalar_slot p"
  "sp_scalar (start_string p) = sp_scalar p" "sp_scalar_slot (start_string p) = sp_scalar_slot p"
  "sp_scalar (open_container c p) = sp_scalar p" "sp_scalar_slot (open_container c p) = sp_scalar_slot p"
  "sp_scalar (close_container p) = sp_scalar p" "sp_scalar_slot (close_container p) = sp_scalar_slot p"
  by (simp_all add: append_string_def set_escape_def set_phase_def value_ended_def report_set_def report_def end_string_def
      start_string_def open_container_def close_container_def Let_def split: option.split list.split)

lemma end_scalar_slot [simp]: "sp_scalar_slot (end_scalar p) = None"
  by (simp add: end_scalar_def Let_def split: option.split)

interpretation reading: follower "\<lambda>p r. reads p r \<and> slot_ok p"
proof (unfold_locales, goal_cases)
  case (1 p r)
  then show ?case
    by (cases "sp_string p"; cases "rd_string r") (auto simp: reads_def escape_of_def rescape_def string_rel_def)
next
  case (2 p r s)
  then show ?case
    using reads_append by (simp add: slot_ok_def del: not_None_eq)
next
  case (3 p r e)
  then show ?case
    using reads_escape by (simp add: slot_ok_def)
next
  case (4 p r)
  then show ?case
    using reads_end_string by (simp add: slot_ok_def del: not_None_eq)
next
  case (5 p r s)
  then show ?case
    using reads_extend_scalar by (simp add: slot_ok_def mark_dirty_def)
next
  case (6 p r)
  then show ?case
    using reads_end_scalar by (simp add: slot_ok_def)
next
  case (7 p r c)
  then show ?case
    using reads_structural
    by (auto simp: slot_ok_def structural_def mark_dirty_def split: list.split)
qed

lemma reads_new_piece [simp]:
  "reads (p\<lparr>sp_string := map_option (\<lambda>os. os\<lparr>os_change := k\<rparr>) (sp_string p)\<rparr>) r = reads p r"
proof (cases "sp_string p")
  case (Some os)
  then have "p\<lparr>sp_string := Some os\<rparr> = p"
    by (rule same_fields)
  then show ?thesis
    using Some reads_change [where p = p and os = os and k = k and r = r] by (simp only: option.map)
next
  case None
  then have "p\<lparr>sp_string := None\<rparr> = p"
    by (rule same_fields)
  then show ?thesis
    using None by (simp only: option.map)
qed

lemma append_text_reads:
  assumes "reads p r" and "slot_ok p"
  shows "reads (append_text s p) (read_text s r) \<and> slot_ok (append_text s p)"
proof -
  have "p\<lparr>sp_credit := n, sp_changes := [], sp_string := x\<rparr> = p\<lparr>sp_string := x, sp_credit := n, sp_changes := []\<rparr>" for n x
    by simp
  then have "reads (p\<lparr>sp_credit := n, sp_changes := [], sp_string := map_option (\<lambda>os. os\<lparr>os_change := None\<rparr>) (sp_string p)\<rparr>) r" for n
    using assms(1) by (metis reads_irrelevant(1,2) reads_new_piece)
  then show ?thesis
    unfolding append_text_def using assms(2) by (intro reading.feeds) (simp add: slot_ok_def)
qed

section \<open>Snapshots\<close>

lemma put_same: "is_new s c \<or> has_slot s c \<Longrightarrow> put s v (put s w c) = put s v c"
  by (rule put_put)

lemma copy_rest:
  assumes "stack_rel P h (Some (a, s)) fs gs root droot" and "denotes P (h @ xs) v d" and "\<forall>b \<in> P. b < length h"
  shows "\<exists>ys w t d'. copy_frames (h @ xs) None (Some (v, s)) fs = (h @ ys, Some (w, t)) \<and> denotes P (h @ ys) w d' \<and>
    plug d s gs droot = (if t = Some SRoot then Some d' else droot) \<and> (t \<noteq> Some SRoot \<longrightarrow> rel_option (denotes P h) root droot)"
  using assms(1,2)
proof (induction fs arbitrary: a s gs xs v d)
  case Nil
  then show ?case
    by (cases gs) (auto split: option.splits slot.splits)
next
  case (Cons f fs)
  then obtain g gs1 where g: "gs = g # gs1"
    by (cases gs) auto
  have rel: "fr_container f < length h" "fr_slot f = df_slot g" "hole_rel P h (Some (a, s)) (h ! fr_container f) (df_content g)"
    "stack_rel P h (Some (fr_container f, fr_slot f)) fs gs1 root droot"
    using Cons.prems(1) g by auto
  have m: "b < length h \<Longrightarrow> b \<notin> P \<Longrightarrow> b \<notin> P \<and> b < length (h @ xs @ [c]) \<and> (h @ xs @ [c]) ! b = h ! b" for b c
    by (simp add: nth_append)
  have m': "b < length (h @ xs) \<Longrightarrow> b \<notin> P \<Longrightarrow> b \<notin> P \<and> b < length (h @ xs @ [c]) \<and> (h @ xs @ [c]) ! b = (h @ xs) ! b" for b c
    using nth_append [of "h @ xs" "[c]" b] by simp
  define c where "c = (case s of None \<Rightarrow> h ! fr_container f | Some s \<Rightarrow> put s v (h ! fr_container f))"
  define e where "e = (case s of None \<Rightarrow> df_content g | Some s \<Rightarrow> dput s d (df_content g))"
  have "cell_rel P (h @ xs @ [c]) c e"
  proof (cases s)
    case None
    then have "cell_rel P h c e"
      using rel(3) by (simp add: c_def e_def hole_rel_def)
    then show ?thesis
      by (rule cell_rel_mono [OF _ m])
  next
    case (Some sl)
    then obtain c0 d0 e0 where hole: "cell_rel P h c0 d0" "is_new sl c0 \<or> has_slot sl c0"
        "h ! fr_container f = put sl (VRef a) c0" "df_content g = dput sl e0 d0"
      using rel(3) by (auto simp: hole_rel_def)
    have "cell_rel P (h @ xs @ [c]) (put sl v c0) (dput sl d d0)"
      by (rule put_rel [OF cell_rel_mono [OF hole(1) m] denotes_mono [OF Cons.prems(2) m']])
    then show ?thesis
      using Some hole(3,4) put_same [OF hole(2)] dput_dput [OF hole(1,2)] by (simp add: c_def e_def)
  qed
  moreover have "length (h @ xs) \<notin> P"
    using assms(3) by fastforce
  ultimately have "denotes P (h @ xs @ [c]) (VRef (length (h @ xs))) e"
    by (simp add: denotes_ref nth_append)
  from Cons.IH [OF rel(4) this] obtain ys w t d' where
    "copy_frames (h @ xs @ [c]) None (Some (VRef (length (h @ xs)), fr_slot f)) fs = (h @ ys, Some (w, t))" "denotes P (h @ ys) w d'"
    "plug e (fr_slot f) gs1 droot = (if t = Some SRoot then Some d' else droot)" "t \<noteq> Some SRoot \<longrightarrow> rel_option (denotes P h) root droot"
    by blast
  moreover have "copy_frames (h @ xs) None (Some (v, s)) (f # fs) = copy_frames (h @ xs @ [c]) None (Some (VRef (length (h @ xs)), fr_slot f)) fs"
    using rel(1) by (cases s) (simp_all add: c_def nth_append Let_def)
  ultimately show ?case
    using g rel(2) by (intro exI [of _ ys] exI [of _ w] exI [of _ t] exI [of _ d']) (simp add: e_def split: option.split)
qed

lemma pending_rel:
  assumes "reads p r"
  shows "rel_option (\<lambda>x y. fst x = fst y \<and> denotes P h (snd x) (snd y)) (pending_scalar p) (rpending r)"
proof -
  have "denotes P h v (doc_of v)" if "pending_scalar_value t = Some v" for v t
    by (rule denotes.plain) (use that in \<open>auto simp: pending_scalar_value_def literals_def split: option.splits if_splits list.splits\<close>)
  then show ?thesis
    using assms by (cases "pending_scalar_value (rd_scalar r)") (auto simp: reads_def pending_scalar_def rpending_def split: option.split)
qed

lemma copy_open_path_shows:
  assumes r: "reads p r"
  shows "\<exists>xs v. copy_open_path p (pending_scalar p) = (sp_store p @ xs, v) \<and>
    rel_option (denotes (addresses (sp_stack p)) (sp_store p @ xs)) v (shown r)"
proof -
  let ?P = "addresses (sp_stack p)" and ?h = "sp_store p"
  have st: "stack_rel ?P ?h None (sp_stack p) (rd_stack r) (sp_root p) (rd_root r)"
    using r by (simp add: reads_def)
  have P: "\<forall>b \<in> ?P. b < length ?h"
    using stack_addresses [OF st] by blast
  note pend = pending_rel [OF r]
  show ?thesis
  proof (cases "sp_stack p")
    case Nil
    then have n: "rd_stack r = []"
      using reads_stack [OF r] by simp
    have root: "rel_option (denotes {} ?h) (sp_root p) (rd_root r)"
      using st Nil n by simp
    show ?thesis
    proof (cases "pending_scalar p")
      case None
      then have "rpending r = None"
        using pend [of "{}" ?h] by simp
      then show ?thesis
        using None Nil n root by (intro exI [of _ "[]"]) (simp add: copy_open_path_def shown_def view_def)
    next
      case (Some x)
      then obtain y where "rpending r = Some y" "fst x = fst y" "denotes {} ?h (snd x) (snd y)"
        using pend [of "{}" ?h] by (auto simp: option_rel_Some1)
      then show ?thesis
        using Some Nil n root by (intro exI [of _ "[]"]) (auto simp: copy_open_path_def shown_def split: prod.splits slot.splits)
    qed
  next
    case (Cons f fs)
    then obtain g gs where g: "rd_stack r = g # gs" "fr_slot f = df_slot g" "cell_rel ?P ?h (cell_of p f) (df_content g)"
      using r by (metis reads_top)
    have rest: "stack_rel ?P ?h (Some (fr_container f, fr_slot f)) fs gs (sp_root p) (rd_root r)"
      using st Cons g(1) by auto
    define c where "c = (case pending_scalar p of None \<Rightarrow> cell_of p f | Some (s, v) \<Rightarrow> put s v (cell_of p f))"
    define e where "e = (case rpending r of None \<Rightarrow> df_content g | Some (s, d) \<Rightarrow> dput s d (df_content g))"
    have m: "b < length ?h \<Longrightarrow> b \<notin> ?P \<Longrightarrow> b \<notin> ?P \<and> b < length (?h @ [c]) \<and> (?h @ [c]) ! b = ?h ! b" for b
      by (simp add: nth_append)
    have "cell_rel ?P ?h c e"
    proof (cases "pending_scalar p")
      case None
      then have "rpending r = None"
        using pend [of ?P ?h] by simp
      then show ?thesis
        using None g(3) by (simp add: c_def e_def)
    next
      case (Some x)
      then obtain y where "rpending r = Some y" "fst x = fst y" "denotes ?P ?h (snd x) (snd y)"
        using pend [of ?P ?h] by (auto simp: option_rel_Some1)
      then show ?thesis
        using Some put_rel [OF g(3)] by (simp add: c_def e_def case_prod_beta)
    qed
    then have "cell_rel ?P (?h @ [c]) c e"
      by (rule cell_rel_mono [OF _ m])
    moreover have "length ?h \<notin> ?P"
      using P by fastforce
    ultimately have "denotes ?P (?h @ [c]) (VRef (length ?h)) e"
      by (simp add: denotes_ref)
    from copy_rest [OF rest this P] obtain ys w t d' where
      cp: "copy_frames (?h @ [c]) None (Some (VRef (length ?h), fr_slot f)) fs = (?h @ ys, Some (w, t))" "denotes ?P (?h @ ys) w d'"
      "plug e (fr_slot f) gs (rd_root r) = (if t = Some SRoot then Some d' else rd_root r)"
      "t \<noteq> Some SRoot \<longrightarrow> rel_option (denotes ?P ?h) (sp_root p) (rd_root r)"
      by blast
    have "copy_frames ?h (pending_scalar p) None (sp_stack p) = (?h @ ys, Some (w, t))"
      using cp(1) Cons unfolding c_def cell_of_def by (simp add: Let_def)
    then have "copy_open_path p (pending_scalar p) = (?h @ ys, if t = Some SRoot then Some w else sp_root p)"
      using Cons by (simp add: copy_open_path_def split: option.split slot.split)
    moreover have "shown r = plug e (fr_slot f) gs (rd_root r)"
      using g(1,2) by (simp add: shown_def view_def e_def split: option.split)
    moreover have "rel_option (denotes ?P ?h) (sp_root p) (rd_root r) \<Longrightarrow> rel_option (denotes ?P (?h @ ys)) (sp_root p) (rd_root r)"
      by (erule option.rel_mono_strong) (rule denotes_mono, assumption, simp add: nth_append)
    ultimately show ?thesis
      using cp(2-) by (intro exI [of _ ys]) auto
  qed
qed

section \<open>Histories\<close>

text \<open>A caller appends pieces and takes snapshots in any order.\<close>

datatype act = Piece jsstr | Look

fun act_step :: "act \<Rightarrow> parser \<Rightarrow> parser" where
  "act_step (Piece s) p = append_text s p"
| "act_step Look p = snd (snapshot p)"

definition run_acts :: "act list \<Rightarrow> parser \<Rightarrow> parser" where
  "run_acts acts p = fold act_step acts p"

fun act_text :: "act \<Rightarrow> jsstr" where
  "act_text (Piece s) = s"
| "act_text Look = []"

definition acts_text :: "act list \<Rightarrow> jsstr" where
  "acts_text acts = concat (map act_text acts)"

lemma act_lists [simp]:
  "run_acts [] p = p" "run_acts (a # acts) p = run_acts acts (act_step a p)"
  "run_acts (acts @ acts') p = run_acts acts' (run_acts acts p)"
  "acts_text [] = []" "acts_text (a # acts) = act_text a @ acts_text acts"
  "acts_text (acts @ acts') = acts_text acts @ acts_text acts'"
  by (simp_all add: run_acts_def acts_text_def)

lemma snapshot_cases:
  assumes "reads p r"
  obtains "snapshot p = (sp_snapshot p, p)" and "\<not> sp_dirty p \<or> sp_credit p < sp_path_cost p + (if pending_scalar p = None then 0 else 1)"
  | xs v where "sp_dirty p" and "sp_path_cost p + (if pending_scalar p = None then 0 else 1) \<le> sp_credit p"
    and "snapshot p = (v, p\<lparr>sp_credit := sp_credit p - (sp_path_cost p + (if pending_scalar p = None then 0 else 1)),
      sp_dirty := False, sp_snapshot := v, sp_store := sp_store p @ xs\<rparr>)"
    and "rel_option (denotes (addresses (sp_stack p)) (sp_store p @ xs)) v (shown r)"
proof (cases "\<not> sp_dirty p \<or> sp_credit p < sp_path_cost p + (if pending_scalar p = None then 0 else 1)")
  case True
  then show thesis
    by (intro that(1)) (auto simp: snapshot_def Let_def)
next
  case False
  obtain xs v where c: "copy_open_path p (pending_scalar p) = (sp_store p @ xs, v)"
      "rel_option (denotes (addresses (sp_stack p)) (sp_store p @ xs)) v (shown r)"
    using copy_open_path_shows [OF assms] by blast
  have "snapshot p = (v, p\<lparr>sp_credit := sp_credit p - (sp_path_cost p + (if pending_scalar p = None then 0 else 1)),
      sp_dirty := False, sp_snapshot := v, sp_store := sp_store p @ xs\<rparr>)"
    using False c(1) by (simp add: snapshot_def Let_def)
  moreover have "sp_dirty p" "sp_path_cost p + (if pending_scalar p = None then 0 else 1) \<le> sp_credit p"
    using False by simp_all
  ultimately show thesis
    using that(2) c(2) by blast
qed

lemma snapshot_reads:
  assumes "reads p r"
  shows "reads (snd (snapshot p)) r"
proof (cases rule: snapshot_cases [OF assms])
  case 1
  then show ?thesis
    using assms by simp
next
  case (2 xs v)
  have "reads (p\<lparr>sp_credit := n, sp_dirty := False, sp_snapshot := v, sp_store := sp_store p @ xs\<rparr>) r" for n
    using reads_alloc [of "p\<lparr>sp_credit := n, sp_dirty := False, sp_snapshot := v\<rparr>" r xs] assms by simp
  then show ?thesis
    using 2(3) by simp
qed

lemma snapshot_slot_ok: "slot_ok (snd (snapshot p)) = slot_ok p"
  by (simp add: snapshot_def slot_ok_def Let_def split: prod.split)

lemma run_reads:
  "reads p r \<Longrightarrow> slot_ok p \<Longrightarrow> reads (run_acts acts p) (read_text (acts_text acts) r) \<and> slot_ok (run_acts acts p)"
proof (induction acts arbitrary: p r)
  case (Cons a acts)
  then show ?case
    using append_text_reads [OF Cons.prems] snapshot_reads [OF Cons.prems(1)] snapshot_slot_ok [of p] by (cases a) auto
qed simp

text \<open>The reader of everything read so far.\<close>

definition read_so_far :: "act list \<Rightarrow> reader" where
  "read_so_far acts = read_text (acts_text acts) new_reader"

lemma run_new: "reads (run_acts acts (new_parser h)) (read_so_far acts) \<and> slot_ok (run_acts acts (new_parser h))"
  unfolding read_so_far_def by (rule run_reads [OF new_reads]) (simp add: slot_ok_def new_parser_def)

section \<open>What stays as it is\<close>

text \<open>Everything but the open containers.\<close>

definition keeps :: "parser \<Rightarrow> parser \<Rightarrow> bool" where
  "keeps p q \<longleftrightarrow> length (sp_store p) \<le> length (sp_store q) \<and>
     (\<forall>a < length (sp_store p). a \<notin> addresses (sp_stack p) \<longrightarrow> a \<notin> addresses (sp_stack q) \<and> sp_store q ! a = sp_store p ! a)"

lemma keeps_refl: "keeps p p"
  by (simp add: keeps_def)

lemma keeps_trans: "keeps p q \<Longrightarrow> keeps q u \<Longrightarrow> keeps p u"
  unfolding keeps_def by (metis le_trans order_less_le_trans)

lemma keeps_denotes:
  assumes "keeps p q" and "denotes (addresses (sp_stack p)) (sp_store p) v d"
  shows "denotes (addresses (sp_stack q)) (sp_store q) v d"
  using assms(1) by (intro denotes_mono [OF assms(2)]) (auto simp: keeps_def)

lemma keeps_same: "addresses (sp_stack q) \<subseteq> addresses (sp_stack p) \<Longrightarrow> sp_store q = sp_store p \<Longrightarrow> keeps p q"
  by (auto simp: keeps_def)

lemma keeps_place: "keeps p (place slot v p)"
  by (auto simp: keeps_def place_def Let_def split: option.split slot.split list.split)

lemma keeps_set_phase: "keeps p (set_phase ph p)"
  by (rule keeps_same) (auto simp: set_phase_def split: list.split)

lemma keeps_value_ended: "keeps p (value_ended p)"
  using keeps_set_phase by (auto simp: value_ended_def keeps_refl split: list.split intro: keeps_same)

lemma keeps_append: "keeps p (append_string s p)"
proof (cases "sp_string p")
  case (Some os)
  then obtain cs k where a: "append_string s p = (extended s os p)\<lparr>sp_changes := cs, sp_string := Some (longer s os\<lparr>os_change := k\<rparr>)\<rparr>"
    by (rule append_string_extended)
  have "keeps p (extended s os p)"
    using keeps_place [of "p\<lparr>sp_string := Some (longer s os)\<rparr>"] by (auto simp: extended_def keeps_def)
  then show ?thesis
    by (simp add: a keeps_def)
qed (simp add: append_string_def keeps_refl)

lemma keeps_open: "keeps p (open_container c p)"
proof -
  let ?q = "p\<lparr>sp_store := sp_store p @ [c]\<rparr>"
  have k: "length (sp_store p) < length (sp_store (place slot v ?q)) \<and>
      (\<forall>a < length (sp_store p). a \<notin> addresses (sp_stack p) \<longrightarrow>
        a \<notin> addresses (sp_stack (place slot v ?q)) \<and> sp_store (place slot v ?q) ! a = sp_store p ! a)" for slot v
    using keeps_place [of ?q slot v] by (auto simp: keeps_def nth_append)
  show ?thesis
    using k [of "value_slot ?q" "VRef (length (sp_store p))"]
    by (auto simp: open_container_def Let_def report_def keeps_def nth_append split: option.split)
qed

lemma keeps_ops:
  "keeps p (set_escape e p)" "keeps p (end_string p)" "keeps p (start_string p)" "keeps p (close_container p)" "keeps p (end_scalar p)"
proof -
  show "keeps p (set_escape e p)"
    by (rule keeps_same) (simp_all add: set_escape_def)
  have v: "keeps p (value_ended q)" if "keeps p q" for q
    using keeps_trans [OF that keeps_value_ended] .
  show "keeps p (end_string p)"
    by (auto simp: end_string_def Let_def intro!: v intro: keeps_same split: option.split list.split)
  have "keeps p ((place slot w p)\<lparr>sp_string := x\<rparr>)" "keeps p (report_set y z ((place slot w p)\<lparr>sp_string := x\<rparr>))" for slot w x y z
    using keeps_place [of p slot w] by (auto simp: keeps_def report_set_def report_def split: option.split)
  then show "keeps p (start_string p)"
    by (auto simp: start_string_eq intro: keeps_same)
  show "keeps p (close_container p)"
    by (auto simp: close_container_def Let_def report_def intro!: v intro: keeps_same split: list.split)
  have "keeps p (report_set y z (place slot w (p\<lparr>sp_scalar := [], sp_scalar_slot := None\<rparr>)))" for slot w y z
    using keeps_place [of "p\<lparr>sp_scalar := [], sp_scalar_slot := None\<rparr>" slot w]
    by (auto simp: keeps_def report_set_def report_def split: option.split)
  then show "keeps p (end_scalar p)"
    by (auto simp: end_scalar_def Let_def intro!: v intro: keeps_same split: option.split)
qed

lemma keeps_structural: "keeps p (structural c p)"
  by (auto simp: structural_def mark_dirty_def keeps_refl keeps_open keeps_set_phase keeps_ops intro: keeps_same split: list.split)

interpretation keeping: follower "\<lambda>p r. reads p r \<and> slot_ok p \<and> keeps p0 p"
proof (unfold_locales, goal_cases)
  case (1 p r)
  then show ?case
    by (intro reading.same) simp
next
  case (2 p r s)
  then show ?case
    using reading.appends [of p r s] keeps_append keeps_trans by blast
next
  case (3 p r e)
  then show ?case
    using reading.escapes [of p r e] keeps_ops(1) keeps_trans by blast
next
  case (4 p r)
  then show ?case
    using reading.ends [of p r] keeps_ops(2) keeps_trans by blast
next
  case (5 p r s)
  moreover have "keeps p (mark_dirty (p\<lparr>sp_scalar := sp_scalar p @ s\<rparr>))"
    by (rule keeps_same) (simp_all add: mark_dirty_def)
  ultimately show ?case
    using reading.extends [of p r s] keeps_trans by blast
next
  case (6 p r)
  then show ?case
    using reading.ends_scalar [of p r] keeps_ops(5) keeps_trans by blast
next
  case (7 p r c)
  then show ?case
    using reading.steps [of p r c] keeps_structural keeps_trans by blast
qed

lemma append_text_keeps:
  assumes "reads p r" and "slot_ok p"
  shows "keeps p (append_text s p)"
proof -
  let ?q = "p\<lparr>sp_credit := sp_credit p + credit_per_append + credit_per_character * int (length s), sp_changes := [],
             sp_string := map_option (\<lambda>os. os\<lparr>os_change := None\<rparr>) (sp_string p)\<rparr>"
  have "?q = p\<lparr>sp_string := map_option (\<lambda>os. os\<lparr>os_change := None\<rparr>) (sp_string p),
      sp_credit := sp_credit p + credit_per_append + credit_per_character * int (length s), sp_changes := []\<rparr>"
    by simp
  then have "reads ?q r"
    using assms(1) by (metis reads_irrelevant(1,2) reads_new_piece)
  then have "keeps p (feed ?q s)"
    using keeping.feeds [of ?q r p s] assms(2) by (simp add: slot_ok_def keeps_def)
  then show ?thesis
    by (simp add: append_text_def)
qed

lemma run_keeps:
  "reads p r \<Longrightarrow> slot_ok p \<Longrightarrow> keeps p (run_acts acts p)"
proof (induction acts arbitrary: p r)
  case (Cons a acts)
  have look: "keeps p (snd (snapshot p))"
  proof (cases rule: snapshot_cases [OF Cons.prems(1)])
    case (2 xs v)
    then show ?thesis
      by (simp add: keeps_def nth_append)
  qed (simp add: keeps_refl)
  have "keeps p (act_step a p)"
    using append_text_keeps [OF Cons.prems] look by (cases a) auto
  moreover have "keeps (act_step a p) (run_acts acts (act_step a p))"
    using Cons.IH [of "act_step a p"] append_text_reads [OF Cons.prems] snapshot_reads [OF Cons.prems(1)] snapshot_slot_ok [of p] Cons.prems(2)
    by (cases a) auto
  ultimately show ?case
    using keeps_trans by simp
qed (simp add: keeps_refl)

end
