(* ===== verification/StreamCosts.thy ===== *)
theory StreamCosts
  imports StreamReads
begin

text \<open>
  What snapshots copy. The path cost the parser keeps is the number of containers on the open path plus
  their members and elements, and no history copies more than the pieces have earned.
\<close>

fun cell_size :: "container \<Rightarrow> nat" where
  "cell_size (CArr vs) = length vs"
| "cell_size (CObj kvs) = length kvs"

text \<open>The containers, members and elements a copy of the open path has.\<close>

definition path_size :: "parser \<Rightarrow> nat" where
  "path_size p = sum_list (map (\<lambda>f. cell_size (cell_of p f) + 1) (sp_stack p))"

definition slot_fits :: "parser \<Rightarrow> slot option \<Rightarrow> bool" where
  "slot_fits p slot \<longleftrightarrow>
     (\<forall>s f fs. slot = Some s \<longrightarrow> s \<noteq> SRoot \<longrightarrow> sp_stack p = f # fs \<longrightarrow> is_new s (cell_of p f) \<or> has_slot s (cell_of p f))"

definition costed :: "parser \<Rightarrow> bool" where
  "costed p \<longleftrightarrow>
     sp_path_cost p = sum_list (map (\<lambda>f. fr_size f + 1) (sp_stack p)) \<and>
     (\<forall>f \<in> set (sp_stack p). fr_size f = int (cell_size (cell_of p f))) \<and> slot_fits p (sp_scalar_slot p) \<and>
     (sp_string p \<noteq> None \<longrightarrow> sp_scalar_slot p = None)"

lemma int_sum_list: "int (sum_list (map g xs)) = sum_list (map (\<lambda>x. int (g x)) xs)"
  by (induction xs) simp_all

lemma costed_path_size: "costed p \<Longrightarrow> sp_path_cost p = int (path_size p)"
proof -
  assume c: "costed p"
  then have "sum_list (map (\<lambda>f. fr_size f + 1) (sp_stack p)) = sum_list (map (\<lambda>f. int (cell_size (cell_of p f) + 1)) (sp_stack p))"
    by (intro arg_cong [where f = sum_list] map_cong) (simp_all add: costed_def)
  also have "\<dots> = int (path_size p)"
    by (simp only: path_size_def int_sum_list)
  finally show ?thesis
    using c by (simp add: costed_def)
qed

lemma costed_fields:
  assumes "costed p" and "sp_stack q = sp_stack p" and "sp_store q = sp_store p" and "sp_path_cost q = sp_path_cost p"
    and "sp_scalar_slot q = None \<or> sp_scalar_slot q = sp_scalar_slot p \<and> (sp_string q = None \<or> sp_string p \<noteq> None)"
  shows "costed q"
proof -
  have c: "cell_of q f = cell_of p f" for f
    using assms(3) by (simp add: cell_of_def)
  have "slot_fits q (sp_scalar_slot p)"
    using assms(1,2) by (simp add: costed_def slot_fits_def c)
  then have "slot_fits q (sp_scalar_slot q)"
    using assms(5) by (elim disjE) (auto simp: slot_fits_def)
  then show ?thesis
    using assms by (auto simp: costed_def c)
qed

lemma al_put_length: "length (al_put k v kvs) = length kvs + (if k \<in> fst ` set kvs then 0 else 1)"
  by (induction k v kvs rule: al_put.induct) auto

lemma put_size: "is_new s c \<or> has_slot s c \<Longrightarrow> int (cell_size (put s v c)) = int (cell_size c) + (if is_new s c then 1 else 0)"
  by (cases s; cases c) (auto simp: al_put_length)

lemma fits_after_put: "is_new s c \<or> has_slot s c \<Longrightarrow> is_new t c \<or> has_slot t c \<Longrightarrow> is_new t (put s v c) \<or> has_slot t (put s v c) \<or> s \<noteq> t"
  by (cases "s = t") (auto intro: has_slot_after_put)

lemma reads_distinct:
  assumes "reads p r" and "sp_stack p = f # fs" and "f' \<in> set fs"
  shows "fr_container f \<noteq> fr_container f'"
proof -
  have "fr_container f \<notin> addresses fs"
    using assms(1,2) by (cases "rd_stack r") (auto simp: reads_def)
  then show ?thesis
    using assms(3) by (auto simp: addresses_def)
qed

lemma costed_place:
  assumes "reads p r" and "costed p" and "slot_fits p slot" and "sp_scalar_slot p = None"
  shows "costed (place slot v p)"
proof (cases "\<exists>s f fs. slot = Some s \<and> s \<noteq> SRoot \<and> sp_stack p = f # fs")
  case True
  then obtain s f fs where s: "slot = Some s" "s \<noteq> SRoot" "sp_stack p = f # fs"
    by blast
  then have fits: "is_new s (cell_of p f) \<or> has_slot s (cell_of p f)"
    using assms(3) by (auto simp: slot_fits_def)
  have len: "fr_container f < length (sp_store p)"
    using reads_top [OF assms(1) s(3)] by blast
  show ?thesis
    using assms(2,4) s reads_distinct [OF assms(1) s(3)] put_size [OF fits, of v] len
    by (auto simp: costed_def slot_fits_def place_in [OF s(2,3)] Let_def cell_of_def)
next
  case False
  then have "sp_stack (place slot v p) = sp_stack p \<and> sp_store (place slot v p) = sp_store p \<and> sp_path_cost (place slot v p) = sp_path_cost p"
    by (auto simp: place_def split: option.split slot.split list.split)
  then show ?thesis
    using assms(4) by (intro costed_fields [OF assms(2)]) simp_all
qed

lemma fits_value_slot: "slot_fits p (value_slot p)"
  by (auto simp: slot_fits_def dest: value_slot_fits)

lemma costed_set_phase:
  assumes "costed p"
  shows "costed (set_phase ph p)"
  using assms by (auto simp: costed_def set_phase_def slot_fits_def cell_of_def split: list.split)

lemma costed_value_ended: "costed p \<Longrightarrow> costed (value_ended p)"
  using costed_set_phase by (auto simp: value_ended_def intro: costed_fields split: list.split)

lemma costed_append:
  assumes "reads p r" and "costed p"
  shows "costed (append_string s p)"
proof (cases "sp_string p")
  case None
  then show ?thesis
    using assms(2) by (simp add: append_string_def)
next
  case (Some os)
  then have none: "sp_scalar_slot p = None"
    using assms(2) by (simp add: costed_def)
  obtain cs k where a: "append_string s p = (extended s os p)\<lparr>sp_changes := cs, sp_string := Some (longer s os\<lparr>os_change := k\<rparr>)\<rparr>"
    using Some by (rule append_string_extended)
  let ?q = "p\<lparr>sp_string := Some (longer s os)\<rparr>"
  have q: "costed ?q"
    using assms(2) by (rule costed_fields) (simp_all add: none)
  have "costed (extended s os p)"
  proof (cases "os_is_key os")
    case False
    have ok: "string_ok p"
      using assms(1) by (simp add: reads_def)
    obtain ds where "rd_string r = Some ds" "string_rel os ds"
      using assms(1) Some by (auto simp: reads_def option_rel_Some1)
    then have "reads ?q (r\<lparr>rd_string := Some (ds\<lparr>ds_text := ds_text ds @ s\<rparr>)\<rparr>)"
      using assms(1) Some by (auto simp: reads_def string_ok_def cell_of_def longer_def string_rel_def)
    moreover have "slot_fits ?q (os_slot os)"
      using ok Some False by (auto simp: string_ok_def slot_fits_def cell_of_def)
    ultimately show ?thesis
      using False none q costed_place [of ?q] by (simp add: extended_def)
  qed (simp add: extended_def q)
  then show ?thesis
    unfolding a by (rule costed_fields) (simp_all add: extended_kept)
qed

lemma costed_open:
  assumes "reads p r" and "costed p" and "sp_scalar_slot p = None" and "cell_size c = 0"
  shows "costed (open_container c p)"
proof -
  let ?q = "p\<lparr>sp_store := sp_store p @ [c]\<rparr>"
  have q: "reads ?q r"
    using assms(1) by (rule reads_alloc)
  have len: "fr_container f < length (sp_store p)" if "f \<in> set (sp_stack p)" for f
    using that stack_addresses [of _ "sp_store p" _ "sp_stack p"] assms(1) by (auto simp: reads_def addresses_def)
  then have "costed ?q"
    using assms(2,3) by (auto simp: costed_def slot_fits_def cell_of_def nth_append)
  then have u: "costed (place (value_slot ?q) v ?q)" for v
    using costed_place [OF q _ fits_value_slot] assms(3) by simp
  have a: "sp_stack (place (value_slot ?q) v ?q) = sp_stack p \<or>
      (\<exists>f fs n. sp_stack p = f # fs \<and> sp_stack (place (value_slot ?q) v ?q) = f\<lparr>fr_size := n\<rparr> # fs)" for v
    by (auto simp: place_def Let_def split: option.split slot.split list.split)
  have l: "length (sp_store (place (value_slot ?q) v ?q)) = Suc (length (sp_store p))" for v
    by (simp add: place_def Let_def split: option.split slot.split list.split)
  have in_len: "fr_container f < length (sp_store p)" if "f \<in> set (sp_stack (place (value_slot ?q) v ?q))" for f v
    using a [of v] that len by auto
  have last: "sp_store (place (value_slot ?q) v ?q) ! length (sp_store p) = c" for v
  proof -
    have "\<forall>f \<in> set (sp_stack p). fr_container f \<noteq> length (sp_store p)"
      using len by fastforce
    then show ?thesis
      by (auto simp: place_def Let_def nth_append split: option.split slot.split list.split)
  qed
  define w where "w = place (value_slot ?q) (VRef (length (sp_store p))) ?q"
  have w: "costed w" "\<forall>f \<in> set (sp_stack w). fr_container f < length (sp_store p)" "sp_store w ! length (sp_store p) = c"
    "length (sp_store w) = Suc (length (sp_store p))" "sp_scalar_slot w = None"
    using u in_len last l assms(3) by (simp_all add: w_def)
  have "costed (w\<lparr>sp_stack := f # sp_stack w, sp_path_cost := sp_path_cost w + 1, sp_dirty := True, sp_store := sp_store w @ cs\<rparr>)"
    if "fr_container f = length (sp_store p)" "fr_size f = 0" for f cs
  proof -
    have "cell_size ((sp_store w @ cs) ! fr_container f') = cell_size (sp_store w ! fr_container f')" if "f' \<in> set (sp_stack w)" for f'
      using w(2,4) that by (simp add: nth_append less_SucI)
    then show ?thesis
      using w assms(4) that by (simp add: costed_def slot_fits_def cell_of_def nth_append)
  qed
  note opened = this
  show ?thesis
  proof (cases "reported_path (value_slot ?q) ?q")
    case None
    then show ?thesis
      using opened [where cs = "[]"] unfolding open_container_def Let_def w_def [symmetric] by simp
  next
    case (Some q)
    then show ?thesis
      unfolding open_container_def Let_def w_def [symmetric] Some option.case report_def
      by (rule_tac costed_fields [OF opened [where cs = "[empty_like c]"]]) (simp_all add: w(5))
  qed
qed

lemma costed_close:
  assumes "costed p" and "sp_scalar_slot p = None"
  shows "costed (close_container p)"
proof (cases "sp_stack p")
  case Nil
  then show ?thesis
    using assms by (simp add: close_container_def)
next
  case (Cons f fs)
  let ?q = "p\<lparr>sp_stack := fs, sp_path_cost := sp_path_cost p - (fr_size f + 1), sp_dirty := True\<rparr>"
  have q: "costed ?q"
    using assms Cons by (auto simp: costed_def slot_fits_def cell_of_def)
  then have "costed (report ch ?q)" for ch
    using assms(2) by (rule_tac costed_fields [OF q]) (simp_all add: report_def)
  then have "costed (value_ended (if b then report ch ?q else ?q))" for b ch
    using q by (simp add: costed_value_ended)
  then show ?thesis
    using Cons by (simp add: close_container_def Let_def)
qed

lemma costed_structural:
  assumes "reads p r" and "costed p" and "sp_scalar_slot p = None" and "sp_string p = None"
  shows "costed (structural c p)"
proof -
  have u: "costed (place (value_slot p) (VStr []) p)"
    using costed_place [OF assms(1,2) fits_value_slot assms(3)] .
  have "costed ((place (value_slot p) (VStr []) p)\<lparr>sp_string := x\<rparr>)"
    "costed ((place (value_slot p) (VStr []) p)\<lparr>sp_string := x, sp_changes := cs\<rparr>)" "costed (p\<lparr>sp_string := x\<rparr>)" for x cs
    using assms(3) by (intro costed_fields [OF u] costed_fields [OF assms(2)]; simp)+
  then have "costed (start_string p)"
    using assms(3) by (auto simp: start_string_eq report_set_def report_def intro: costed_fields split: option.split)
  moreover have "costed (mark_dirty (p\<lparr>sp_scalar := [c], sp_scalar_slot := value_slot p\<rparr>))"
    using assms(2,4) fits_value_slot [of p] by (auto simp: mark_dirty_def costed_def slot_fits_def cell_of_def)
  ultimately show ?thesis
    using assms costed_set_phase costed_open [OF assms(1,2,3)] costed_close [OF assms(2,3)]
    by (auto simp: structural_def split: list.split)
qed

lemma costed_end_scalar:
  assumes "reads p r" and "costed p" and "sp_string p = None"
  shows "costed (end_scalar p)"
proof -
  let ?q = "p\<lparr>sp_scalar := [], sp_scalar_slot := None\<rparr>"
  have q: "costed ?q"
    using assms(2) by (rule costed_fields) simp_all
  have "reads ?q (r\<lparr>rd_scalar := [], rd_scalar_slot := None\<rparr>)"
    using assms(1,3) by (simp add: reads_def string_ok_def)
  moreover have "slot_fits ?q (sp_scalar_slot p)"
    using assms(2) by (simp add: costed_def slot_fits_def cell_of_def)
  ultimately have pl: "costed (place (sp_scalar_slot p) v ?q)" for v
    using q by (intro costed_place) simp_all
  have "costed (report_set x y (place (sp_scalar_slot p) v ?q))" for x y v
    by (rule costed_fields [OF pl [of v]]) (simp_all add: report_set_def report_def split: option.split)
  then show ?thesis
    using q by (auto simp: end_scalar_def Let_def intro!: costed_value_ended split: option.split)
qed

interpretation paying: follower "\<lambda>p r. reads p r \<and> slot_ok p \<and> costed p \<and> sp_credit p = n"
proof (unfold_locales, goal_cases)
  case (1 p r)
  then show ?case
    by (intro reading.same) simp
next
  case (2 p r s)
  have "sp_credit (append_string s p) = sp_credit p"
    by (simp add: append_string_def place_def report_def Let_def split: option.split slot.split list.split)
  then show ?case
    using 2 reading.appends [of p r s] costed_append by blast
next
  case (3 p r e)
  have "costed (set_escape e p)"
    by (rule costed_fields [where p = p]) (use 3 in \<open>simp_all add: set_escape_def\<close>)
  moreover have "sp_credit (set_escape e p) = sp_credit p"
    by (simp add: set_escape_def)
  ultimately show ?case
    using 3 reading.escapes [of p r e] by blast
next
  case (4 p r)
  then have c: "costed p"
    by blast
  then have none: "sp_scalar_slot p = None"
    using 4 by (simp add: costed_def)
  have q: "costed (p\<lparr>sp_string := None\<rparr>)"
    by (rule costed_fields [OF c]) (simp_all add: none)
  have "costed (p\<lparr>sp_string := None, sp_stack := f\<lparr>fr_key := k, fr_phase := AtColon\<rparr> # fs\<rparr>)" if "sp_stack p = f # fs" for f fs k
    using c none that by (simp add: costed_def slot_fits_def cell_of_def)
  then have "costed (end_string p)"
    using c q costed_value_ended [OF q] by (simp add: end_string_def Let_def split: option.split list.split)
  moreover have "sp_credit (end_string p) = sp_credit p"
    by (simp add: end_string_def value_ended_def set_phase_def Let_def split: option.split list.split)
  ultimately show ?case
    using 4 reading.ends [of p r] by blast
next
  case (5 p r s)
  have "costed (mark_dirty (p\<lparr>sp_scalar := sp_scalar p @ s\<rparr>))"
    by (rule costed_fields [where p = p]) (use 5 in \<open>simp_all add: mark_dirty_def\<close>)
  moreover have "sp_credit (mark_dirty (p\<lparr>sp_scalar := sp_scalar p @ s\<rparr>)) = sp_credit p"
    by (simp add: mark_dirty_def)
  ultimately show ?case
    using 5 reading.extends [of p r s] by blast
next
  case (6 p r)
  have "sp_credit (end_scalar p) = sp_credit p"
    by (simp add: end_scalar_def value_ended_def set_phase_def place_def report_set_def report_def Let_def
        split: option.split slot.split list.split)
  then show ?case
    using 6 reading.ends_scalar [of p r] costed_end_scalar by blast
next
  case (7 p r c)
  have o: "sp_credit (open_container d p) = sp_credit p" for d
    by (simp add: open_container_def place_def report_def Let_def split: option.split slot.split list.split)
  have "sp_credit (start_string p) = sp_credit p" "sp_credit (close_container p) = sp_credit p"
    by (simp_all add: start_string_def close_container_def value_ended_def set_phase_def place_def report_def Let_def
        split: option.split slot.split list.split)
  then have "sp_credit (structural c p) = sp_credit p"
    by (simp add: structural_def o set_phase_def mark_dirty_def split: list.split)
  then show ?case
    using 7 reading.steps [of p r c] costed_structural [of p r c] by (auto simp: slot_ok_def)
qed

section \<open>The account\<close>

text \<open>What a snapshot copies, when it makes a copy.\<close>

definition copied_now :: "parser \<Rightarrow> nat" where
  "copied_now p =
     (if sp_dirty p \<and> sp_path_cost p + (if pending_scalar p = None then 0 else 1) \<le> sp_credit p
      then path_size p + (if pending_scalar p = None then 0 else 1) else 0)"

fun copied :: "act list \<Rightarrow> parser \<Rightarrow> nat" where
  "copied [] p = 0"
| "copied (Piece s # acts) p = copied acts (append_text s p)"
| "copied (Look # acts) p = copied_now p + copied acts (snd (snapshot p))"

fun earned :: "act list \<Rightarrow> int" where
  "earned [] = 0"
| "earned (Piece s # acts) = credit_per_append + credit_per_character * int (length s) + earned acts"
| "earned (Look # acts) = earned acts"

lemma append_text_pays:
  assumes "reads p r" and "slot_ok p" and "costed p"
  shows "costed (append_text s p) \<and> sp_credit (append_text s p) = sp_credit p + credit_per_append + credit_per_character * int (length s)"
proof -
  let ?n = "sp_credit p + credit_per_append + credit_per_character * int (length s)"
  let ?q = "p\<lparr>sp_credit := ?n, sp_changes := [], sp_string := map_option (\<lambda>os. os\<lparr>os_change := None\<rparr>) (sp_string p)\<rparr>"
  have "?q = p\<lparr>sp_string := map_option (\<lambda>os. os\<lparr>os_change := None\<rparr>) (sp_string p), sp_credit := ?n, sp_changes := []\<rparr>"
    by simp
  then have "reads ?q r"
    using assms(1) by (metis reads_irrelevant(1,2) reads_new_piece)
  moreover have "costed ?q"
    using assms(3) by (rule costed_fields) auto
  ultimately show ?thesis
    using paying.feeds [of ?q r ?n s] assms(2) by (simp add: append_text_def slot_ok_def)
qed

lemma snapshot_pays:
  assumes "reads p r" and "costed p"
  shows "costed (snd (snapshot p)) \<and> sp_credit (snd (snapshot p)) = sp_credit p - int (copied_now p) \<and>
    int (copied_now p) \<le> max 0 (sp_credit p)"
proof (cases rule: snapshot_cases [OF assms(1)])
  case 1
  then show ?thesis
    using assms(2) by (auto simp: copied_now_def)
next
  case (2 xs v)
  have len: "fr_container f < length (sp_store p)" if "f \<in> set (sp_stack p)" for f
    using that stack_addresses [of _ "sp_store p" _ "sp_stack p"] assms(1) by (auto simp: reads_def addresses_def)
  have "costed (snd (snapshot p))"
    using assms(2) len 2(3) by (auto simp: costed_def slot_fits_def cell_of_def nth_append)
  then show ?thesis
    using 2 costed_path_size [OF assms(2)] by (cases "pending_scalar p = None") (simp_all add: copied_now_def)
qed

lemma copied_earned:
  "reads p r \<Longrightarrow> slot_ok p \<Longrightarrow> costed p \<Longrightarrow> 0 \<le> sp_credit p \<Longrightarrow> int (copied acts p) \<le> sp_credit p + earned acts"
proof (induction acts p arbitrary: r rule: copied.induct)
  case (2 s acts p)
  then show ?case
    using append_text_reads [of p r s] append_text_pays [of p r s]
    by (force simp: credit_per_append_def credit_per_character_def)
next
  case (3 acts p)
  then show ?case
    using snapshot_reads [of p r] snapshot_pays [of p r] by (force simp: snapshot_slot_ok)
qed simp

text \<open>
  C25: All snapshots together copy at most 256 containers, members and elements per piece and 8 per
  character.\<close>

theorem snapshots_paid: "int (copied acts (new_parser h)) \<le> earned acts"
proof -
  have "costed (new_parser h)"
    by (simp add: costed_def new_parser_def slot_fits_def)
  then show ?thesis
    using copied_earned [OF new_reads, of h acts] by (simp add: slot_ok_def new_parser_def)
qed

end
