(* ===== verification/StreamCalls.thy ===== *)
theory StreamCalls
  imports StreamCosts
begin

text \<open>
  The snapshots a caller gets and the arguments object of \<open>ToolCallArgumentsStream\<close>: each denotes what a
  beginning of the text shows, and goes on denoting it.
\<close>

section \<open>The snapshots of a history\<close>

lemma snapshot_kept [simp]:
  "sp_snapshot (place slot v p) = sp_snapshot p"
  "sp_snapshot (set_phase ph p) = sp_snapshot p"
  "sp_snapshot (report_set q v p) = sp_snapshot p"
  "sp_snapshot (report ch p) = sp_snapshot p"
  "sp_snapshot (mark_dirty p) = sp_snapshot p"
  "sp_snapshot (set_escape e p) = sp_snapshot p"
  by (simp_all add: place_def set_phase_def report_set_def report_def mark_dirty_def set_escape_def Let_def
      split: option.split slot.split list.split)

lemma snapshot_kept_ops [simp]:
  "sp_snapshot (value_ended p) = sp_snapshot p"
  "sp_snapshot (append_string s p) = sp_snapshot p"
  "sp_snapshot (flush s p) = sp_snapshot p"
  "sp_snapshot (end_string p) = sp_snapshot p"
  "sp_snapshot (start_string p) = sp_snapshot p"
  "sp_snapshot (end_scalar p) = sp_snapshot p"
  "sp_snapshot (open_container c p) = sp_snapshot p"
  "sp_snapshot (close_container p) = sp_snapshot p"
proof -
  show v: "sp_snapshot (value_ended p) = sp_snapshot p" for p
    by (simp add: value_ended_def split: list.split)
  show a: "sp_snapshot (append_string s p) = sp_snapshot p"
    by (simp add: append_string_def Let_def split: option.split)
  show "sp_snapshot (flush s p) = sp_snapshot p"
    by (simp add: flush_def a)
  show "sp_snapshot (end_string p) = sp_snapshot p"
    by (simp add: end_string_def Let_def v split: option.split list.split)
  show "sp_snapshot (start_string p) = sp_snapshot p"
    by (simp add: start_string_def Let_def split: option.split)
  show "sp_snapshot (end_scalar p) = sp_snapshot p"
    by (simp add: end_scalar_def Let_def v split: option.split)
  show "sp_snapshot (open_container c p) = sp_snapshot p"
    by (simp add: open_container_def Let_def split: option.split)
  show "sp_snapshot (close_container p) = sp_snapshot p"
    by (simp add: close_container_def Let_def v split: list.split)
qed

lemma snapshot_kept_structural [simp]: "sp_snapshot (structural c p) = sp_snapshot p"
  by (simp add: structural_def split: list.split)

lemma snapshot_kept_escape [simp]: "sp_snapshot (snd (continue_escape c p)) = sp_snapshot p"
  by (simp add: continue_escape_def Let_def split: option.split)

lemma snapshot_kept_string: "sp_snapshot (fst (read_string p run s)) = sp_snapshot p"
  by (induction s arbitrary: p run) (auto simp: Let_def)

lemma snapshot_kept_feed: "sp_snapshot (feed p s) = sp_snapshot p"
proof (induction p s rule: feed.induct)
  case (2 p c s)
  have m: "sp_snapshot (fst (read_scalar p (c # s))) = sp_snapshot p"
    by (simp add: read_scalar_def Let_def)
  show ?case
    using 2 m snapshot_kept_string [of p "[]" "c # s"]
    by (subst feed.simps) (auto simp del: read_string.simps split: prod.split)
qed (simp add: feed.simps)

text \<open>The document, if any, that a beginning of the text shows.\<close>

definition shows_part :: "nat set \<Rightarrow> store \<Rightarrow> jval option \<Rightarrow> jsstr \<Rightarrow> bool" where
  "shows_part P h v t \<longleftrightarrow> (\<exists>u w. t = u @ w \<and> rel_option (denotes P h) v (shown (read_text u new_reader)))"

lemma shows_part_longer: "shows_part P h v t \<Longrightarrow> shows_part P h v (t @ s)"
  unfolding shows_part_def by (metis append.assoc)

lemma shows_part_keeps:
  assumes "keeps p q" and "shows_part (addresses (sp_stack p)) (sp_store p) v t"
  shows "shows_part (addresses (sp_stack q)) (sp_store q) v t"
  using assms(2) unfolding shows_part_def
  by (elim exE conjE) (auto elim!: option.rel_mono_strong intro: keeps_denotes [OF assms(1)])

definition snaps :: "parser \<Rightarrow> jsstr \<Rightarrow> bool" where
  "snaps p t \<longleftrightarrow> reads p (read_text t new_reader) \<and> slot_ok p \<and> shows_part (addresses (sp_stack p)) (sp_store p) (sp_snapshot p) t"

lemma snaps_new: "snaps (new_parser h) []"
proof -
  have "shown new_reader = None"
    by (simp add: shown_def rpending_def new_reader_def view_def)
  then show ?thesis
    using new_reads [of h] by (simp add: snaps_def shows_part_def slot_ok_def) (simp add: new_parser_def)
qed

lemma snaps_append:
  assumes "snaps p t"
  shows "snaps (append_text s p) (t @ s)"
proof -
  have p: "reads p (read_text t new_reader)" "slot_ok p"
    using assms by (simp_all add: snaps_def)
  have "sp_snapshot (append_text s p) = sp_snapshot p"
    by (simp add: append_text_def snapshot_kept_feed)
  then have "shows_part (addresses (sp_stack (append_text s p))) (sp_store (append_text s p)) (sp_snapshot (append_text s p)) t"
    using assms shows_part_keeps [OF append_text_keeps [OF p]] by (simp add: snaps_def)
  then show ?thesis
    using append_text_reads [OF p] shows_part_longer by (simp add: snaps_def)
qed

lemma snapshot_keeps: "reads p r \<Longrightarrow> slot_ok p \<Longrightarrow> keeps p (snd (snapshot p))"
  using run_keeps [of p r "[Look]"] by simp

lemma snaps_look:
  assumes "snaps p t"
  shows "snaps (snd (snapshot p)) t \<and> fst (snapshot p) = sp_snapshot (snd (snapshot p))"
proof -
  have p: "reads p (read_text t new_reader)" "slot_ok p"
    using assms by (simp_all add: snaps_def)
  show ?thesis
  proof (cases rule: snapshot_cases [OF p(1)])
    case 1
    then show ?thesis
      using assms by simp
  next
    case (2 xs v)
    have "shows_part (addresses (sp_stack p)) (sp_store p @ xs) v t"
      unfolding shows_part_def by (rule exI [of _ t], rule exI [of _ "[]"]) (simp add: 2(4))
    then have "shows_part (addresses (sp_stack (snd (snapshot p)))) (sp_store (snd (snapshot p))) (sp_snapshot (snd (snapshot p))) t"
      using 2(3) by simp
    then show ?thesis
      using snapshot_reads [OF p(1)] snapshot_slot_ok [of p] p(2) 2(3) by (simp add: snaps_def)
  qed
qed

lemma run_snaps: "snaps p t \<Longrightarrow> snaps (run_acts acts p) (t @ acts_text acts)"
proof (induction acts arbitrary: p t)
  case (Cons a acts)
  have "snaps (act_step a p) (t @ act_text a)"
    using Cons.prems snaps_append snaps_look by (cases a) auto
  then show ?case
    using Cons.IH by force
qed simp

text \<open>
  C21: A snapshot handed out after any history of pieces and snapshots denotes what a beginning of the text
  read so far shows, and still denotes it after any more of them.
\<close>

theorem snapshot_stays:
  "\<exists>u w. acts_text acts = u @ w \<and>
     (\<forall>more. rel_option (denotes {} (sp_store (run_acts more (snd (snapshot (run_acts acts (new_parser h)))))))
        (fst (snapshot (run_acts acts (new_parser h)))) (shown (read_text u new_reader)))"
proof -
  let ?p = "run_acts acts (new_parser h)"
  let ?q = "snd (snapshot ?p)"
  have "snaps ?p (acts_text acts)"
    using run_snaps [OF snaps_new, of acts h] by simp
  then have q: "snaps ?q (acts_text acts)" "fst (snapshot ?p) = sp_snapshot ?q"
    using snaps_look by blast+
  then obtain u w where u: "acts_text acts = u @ w"
      "rel_option (denotes (addresses (sp_stack ?q)) (sp_store ?q)) (sp_snapshot ?q) (shown (read_text u new_reader))"
    by (auto simp: snaps_def shows_part_def)
  have "denotes {} (sp_store (run_acts more ?q)) v d" if "denotes (addresses (sp_stack ?q)) (sp_store ?q) v d" for more v d
  proof -
    have "keeps ?q (run_acts more ?q)"
      using q(1) by (auto simp: snaps_def intro: run_keeps)
    from keeps_denotes [OF this that] show ?thesis
      by (rule denotes_mono) simp
  qed
  then have "rel_option (denotes {} (sp_store (run_acts more ?q))) (fst (snapshot ?p)) (shown (read_text u new_reader))" for more
    using u(2) by (auto simp: q(2) elim: option.rel_mono_strong)
  then show ?thesis
    using u(1) by blast
qed

text \<open>
  A snapshot that is made, not repeated, denotes what the whole text read so far shows: the value
  changed since the last one and the copy is paid for.
\<close>

theorem fresh_snapshot_shows:
  assumes "sp_dirty (run_acts acts (new_parser h))"
    and "sp_path_cost (run_acts acts (new_parser h)) + (if pending_scalar (run_acts acts (new_parser h)) = None then 0 else 1)
      \<le> sp_credit (run_acts acts (new_parser h))"
  shows "rel_option (denotes {} (sp_store (snd (snapshot (run_acts acts (new_parser h))))))
    (fst (snapshot (run_acts acts (new_parser h)))) (shown (read_text (acts_text acts) new_reader))"
proof -
  let ?p = "run_acts acts (new_parser h)"
  have "reads ?p (read_text (acts_text acts) new_reader)"
    using run_new [of acts h] by (simp add: read_so_far_def)
  then show ?thesis
  proof (cases rule: snapshot_cases)
    case 1
    then show ?thesis
      using assms by auto
  next
    case (2 xs v)
    have "denotes {} (sp_store ?p @ xs) v d" if "denotes (addresses (sp_stack ?p)) (sp_store ?p @ xs) v d" for v d
      using that by (rule denotes_mono) simp
    then show ?thesis
      using 2(3,4) by (auto elim: option.rel_mono_strong)
  qed
qed

lemma fresh_snapshot_shows_witness:
  "rel_option (denotes {} (sp_store (snd (snapshot (run_acts [Piece (js ''[tr'')] (new_parser []))))))
    (fst (snapshot (run_acts [Piece (js ''[tr'')] (new_parser [])))) (Some (DArr [DBool True]))"
proof -
  have "sp_dirty (run_acts [Piece (js ''[tr'')] (new_parser []))"
    by code_simp
  moreover have "sp_path_cost (run_acts [Piece (js ''[tr'')] (new_parser [])) + (if pending_scalar (run_acts [Piece (js ''[tr'')] (new_parser [])) = None then 0 else 1)
      \<le> sp_credit (run_acts [Piece (js ''[tr'')] (new_parser []))"
    by code_simp
  moreover have "shown (read_text (acts_text [Piece (js ''[tr'')]) new_reader) = Some (DArr [DBool True])"
    by code_simp
  ultimately show ?thesis
    using fresh_snapshot_shows [of "[Piece (js ''[tr'')]" "[]"] by simp
qed

text \<open>
  A snapshot may be stale: a number or literal that showed and is dropped when it ends changes the value,
  but does not mark it as changed.
\<close>

lemma stale_snapshot:
  "(case snapshot (run_acts [Piece (js ''[tr''), Look, Piece (js '','')] (new_parser [])) of
      (Some (VRef a), p) \<Rightarrow> sp_store p ! a = CArr [VBool True] | _ \<Rightarrow> False)"
  "shown (read_text (js ''[tr,'') new_reader) = Some (DArr [])"
  by code_simp+

section \<open>The arguments of a call\<close>

text \<open>Arguments that are no object, or not there yet, are \<open>{}\<close>.\<close>

fun object_of :: "doc option \<Rightarrow> doc" where
  "object_of (Some (DObj kvs)) = DObj kvs"
| "object_of _ = DObj []"

datatype call_op = Append jsstr | Replace jsstr

fun call_step :: "call_op \<Rightarrow> call_stream \<Rightarrow> call_stream" where
  "call_step (Append s) c = append_arguments s c"
| "call_step (Replace s) c = snd (replace_arguments s c)"

fun op_text :: "call_op \<Rightarrow> jsstr \<Rightarrow> jsstr" where
  "op_text (Append s) t = t @ s"
| "op_text (Replace s) t = s"

text \<open>The documents \<open>v\<close> and the arguments object denote, at the time.\<close>

definition holds :: "parser \<Rightarrow> jval option \<Rightarrow> nat \<Rightarrow> doc option \<Rightarrow> bool" where
  "holds p v a od \<longleftrightarrow>
     rel_option (denotes (addresses (sp_stack p)) (sp_store p)) v od \<and>
     denotes (addresses (sp_stack p)) (sp_store p) (VRef a) (object_of od)"

lemma holds_keeps: "keeps p q \<Longrightarrow> holds p v a od \<Longrightarrow> holds q v a od"
  unfolding holds_def by (auto elim!: option.rel_mono_strong intro: keeps_denotes)

lemma all2_same:
  "list_all2 (\<lambda>v d. denotes P h v d \<and> (\<forall>e. denotes P h v e \<longrightarrow> d = e)) vs ds \<Longrightarrow> list_all2 (denotes P h) vs es \<Longrightarrow> ds = es"
  by (auto simp: list_all2_conv_all_nth intro: nth_equalityI)

lemma denotes_same:
  "denotes P h v d \<Longrightarrow> denotes P h v e \<Longrightarrow> d = e"
proof (induction arbitrary: e rule: denotes.induct)
  case (plain v)
  from plain(2) show ?case
    by cases (use plain(1) in auto)
next
  case (array a vs ds)
  from array(5) obtain es where e: "e = DArr es" "list_all2 (denotes P h) vs es"
    by cases (use array(3) in auto)
  then have "ds = es"
    using all2_same [OF array(4)] by blast
  then show ?case
    using e by simp
next
  case (object a kvs ms)
  from object(6) obtain es where e: "e = DObj es" "map fst kvs = map fst es" "list_all2 (denotes P h) (map snd kvs) (map snd es)"
    by cases (use object(3) in auto)
  have "map snd ms = map snd es"
    using all2_same [OF object(5)] e(3) by blast
  then have "ms = es"
    using object(4) e(2) by (metis zip_map_fst_snd)
  then show ?case
    using e by simp
qed

lemma holds_same:
  assumes "same_snapshot v w" and "rel_option (denotes (addresses (sp_stack p)) (sp_store p)) v od" and "holds p w a oe"
  shows "holds p v a od"
proof -
  have "object_of od = object_of oe"
  proof (cases "v = w")
    case True
    then have "od = oe"
      using assms(2,3) denotes_same by (cases v; cases od; cases oe) (auto simp: holds_def)
    then show ?thesis
      by simp
  next
    case False
    then obtain m n where "v = Some (VNum m)" "w = Some (VNum n)"
      using assms(1) False by (cases v; cases w; cases "the v"; cases "the w") (auto simp: same_snapshot_def)
    then have "od = Some (DNum m)" "oe = Some (DNum n)"
      using assms(2,3) by (auto simp: holds_def option_rel_Some1 elim: denotes.cases)
    then show ?thesis
      by simp
  qed
  then show ?thesis
    using assms(2,3) by (simp add: holds_def)
qed

text \<open>The parser of a call has read its text.\<close>

definition call_ok :: "call_stream \<Rightarrow> bool" where
  "call_ok c \<longleftrightarrow> snaps (cs_parser c) (cs_text c) \<and> (\<exists>od. holds (cs_parser c) (cs_snapshot c) (cs_arguments c) od)"

definition shows_arguments :: "call_stream \<Rightarrow> bool" where
  "shows_arguments c \<longleftrightarrow> (\<exists>u w. cs_text c = u @ w \<and>
     denotes {} (sp_store (cs_parser c)) (VRef (cs_arguments c)) (object_of (shown (read_text u new_reader))))"

lemma holds_new:
  assumes "reads p r" and "rel_option (denotes (addresses (sp_stack p)) (sp_store p)) v od" and "object_of od = DObj []"
  shows "holds (p\<lparr>sp_store := sp_store p @ [CObj []]\<rparr>) v (length (sp_store p)) od"
proof -
  have "a < length (sp_store p)" if "a \<in> addresses (sp_stack p)" for a
    using that assms(1) stack_addresses unfolding reads_def by blast
  then have "length (sp_store p) \<notin> addresses (sp_stack p)"
    by blast
  moreover have "rel_option (denotes (addresses (sp_stack p)) (sp_store p @ [CObj []])) v od"
    using assms(2) by (auto elim!: option.rel_mono_strong denotes_mono simp: nth_append)
  ultimately show ?thesis
    using assms(3) by (simp add: holds_def denotes_ref)
qed

lemma plain_no_object:
  assumes "denotes P h v d" and "\<forall>a. v \<noteq> VRef a"
  shows "d \<noteq> DObj kvs"
  using assms by cases (cases v; auto)+

lemma partial_ok:
  assumes "call_ok c"
  shows "call_ok (partial_arguments c) \<and> shows_arguments (partial_arguments c) \<and> cs_text (partial_arguments c) = cs_text c \<and>
    (\<exists>od. holds (cs_parser (partial_arguments c)) (fst (snapshot (cs_parser c))) (cs_arguments (partial_arguments c)) od)"
proof -
  obtain v p where vp: "snapshot (cs_parser c) = (v, p)"
    by fastforce
  have c: "snaps (cs_parser c) (cs_text c)" and r0: "reads (cs_parser c) (read_text (cs_text c) new_reader)" "slot_ok (cs_parser c)"
    using assms by (simp_all add: call_ok_def snaps_def)
  have p: "snaps p (cs_text c)" "v = sp_snapshot p"
    using snaps_look [OF c] vp by simp_all
  have k: "keeps (cs_parser c) p"
    using snapshot_keeps [OF r0] vp by simp
  obtain u w where u: "cs_text c = u @ w"
      "rel_option (denotes (addresses (sp_stack p)) (sp_store p)) v (shown (read_text u new_reader))"
    using p by (auto simp: snaps_def shows_part_def)
  have r: "reads p (read_text (cs_text c) new_reader)"
    using p(1) by (simp add: snaps_def)
  let ?q = "p\<lparr>sp_store := sp_store p @ [CObj []]\<rparr>"
  have kq: "keeps p ?q"
    by (simp add: keeps_def nth_append)
  have q: "snaps ?q (cs_text c)"
    using p(1) reads_alloc [OF r] shows_part_keeps [OF kq, of "sp_snapshot p" "cs_text c"]
    by (simp add: snaps_def slot_ok_def)
  let ?od = "shown (read_text u new_reader)"
  have done_if: "call_ok d \<and> shows_arguments d \<and> cs_text d = cs_text c \<and>
      (\<exists>od. holds (cs_parser d) (fst (snapshot (cs_parser c))) (cs_arguments d) od)"
    if d: "snaps (cs_parser d) (cs_text c)" "cs_text d = cs_text c" "holds (cs_parser d) v (cs_arguments d) ?od"
      "holds (cs_parser d) (cs_snapshot d) (cs_arguments d) oe" for d oe
  proof -
    have "denotes {} (sp_store (cs_parser d)) (VRef (cs_arguments d)) (object_of ?od)"
      using d(3) unfolding holds_def by (auto elim: denotes_mono)
    then show ?thesis
      using d u(1) vp by (auto simp: call_ok_def shows_arguments_def)
  qed
  consider (same) "same_snapshot v (cs_snapshot c)"
    | (object) a where "\<not> same_snapshot v (cs_snapshot c)" "v = Some (VRef a)" "\<not> is_arr (sp_store p ! a)"
    | (other) "\<not> same_snapshot v (cs_snapshot c)" "\<And>a. v = Some (VRef a) \<Longrightarrow> is_arr (sp_store p ! a)"
    by blast
  then show ?thesis
  proof cases
    case same
    obtain oe where "holds (cs_parser c) (cs_snapshot c) (cs_arguments c) oe"
      using assms by (auto simp: call_ok_def)
    then have oe: "holds p (cs_snapshot c) (cs_arguments c) oe"
      by (rule holds_keeps [OF k])
    have "partial_arguments c = c\<lparr>cs_parser := p\<rparr>"
      using same vp by (simp add: partial_arguments_def)
    then show ?thesis
      using done_if [of "c\<lparr>cs_parser := p\<rparr>" oe] p(1) oe holds_same [OF same u(2) oe] by simp
  next
    case object
    obtain d where d: "?od = Some d" "denotes (addresses (sp_stack p)) (sp_store p) (VRef a) d"
      using u(2) object(2) by (auto simp: option_rel_Some1)
    then obtain kvs where "d = DObj kvs"
      using object(3) by (cases d; cases "sp_store p ! a") (auto simp: denotes_ref)
    then have h: "holds p v a ?od"
      using u(2) d by (simp add: holds_def)
    let ?d = "c\<lparr>cs_parser := p, cs_snapshot := v, cs_arguments := a\<rparr>"
    have "partial_arguments c = ?d"
      using object vp by (simp add: partial_arguments_def)
    then show ?thesis
      using done_if [of ?d ?od] p(1) h by simp
  next
    case other
    have "object_of ?od = DObj []"
    proof (cases "\<exists>a. v = Some (VRef a)")
      case True
      then obtain a d where "v = Some (VRef a)" "is_arr (sp_store p ! a)" "?od = Some d" "cell_rel (addresses (sp_stack p)) (sp_store p) (sp_store p ! a) d"
        using u(2) other(2) by (auto simp: option_rel_Some1 denotes_ref)
      then show ?thesis
        by (cases d) (auto dest: cell_rel_arr)
    next
      case False
      then have "\<nexists>kvs. ?od = Some (DObj kvs)"
        using u(2) plain_no_object by (fastforce simp: option_rel_Some2)
      then show ?thesis
        by (cases ?od rule: object_of.cases) auto
    qed
    then have h: "holds ?q v (length (sp_store p)) ?od"
      using holds_new [OF r u(2)] by simp
    let ?d = "c\<lparr>cs_parser := ?q, cs_snapshot := v, cs_arguments := length (sp_store p)\<rparr>"
    have "partial_arguments c = ?d"
      using other vp by (auto simp: partial_arguments_def split: option.split jval.split)
    then show ?thesis
      using done_if [of ?d ?od] q h by simp
  qed
qed

lemma call_new: "call_ok (new_stream h)"
proof -
  have "denotes {} (h @ [CObj []]) (VRef (length h)) (DObj [])"
    by (simp add: denotes_ref)
  then have "holds (new_parser (h @ [CObj []])) None (length h) None"
    by (simp add: holds_def new_parser_def)
  then show ?thesis
    using snaps_new by (auto simp: call_ok_def new_stream_def)
qed

lemma append_ok:
  assumes "call_ok c"
  shows "call_ok (c\<lparr>cs_text := cs_text c @ s, cs_parser := append_text s (cs_parser c)\<rparr>)"
proof -
  have r: "reads (cs_parser c) (read_text (cs_text c) new_reader)" "slot_ok (cs_parser c)"
    using assms by (simp_all add: call_ok_def snaps_def)
  obtain od where "holds (cs_parser c) (cs_snapshot c) (cs_arguments c) od"
    using assms by (auto simp: call_ok_def)
  then have "holds (append_text s (cs_parser c)) (cs_snapshot c) (cs_arguments c) od"
    by (rule holds_keeps [OF append_text_keeps [OF r]])
  then show ?thesis
    using assms snaps_append by (auto simp: call_ok_def)
qed

text \<open>The new parser of other arguments knows none of the containers, and leaves them as they are.\<close>

lemma restart_ok:
  assumes "call_ok c"
  shows "call_ok (c\<lparr>cs_text := [], cs_parser := new_parser (sp_store (cs_parser c))\<rparr>)"
proof -
  have k: "denotes (addresses (sp_stack p)) (sp_store p) v d \<Longrightarrow>
      denotes (addresses (sp_stack (new_parser (sp_store p)))) (sp_store (new_parser (sp_store p))) v d" for p v d
    by (erule denotes_mono) (simp add: new_parser_def)
  obtain od where "holds (cs_parser c) (cs_snapshot c) (cs_arguments c) od"
    using assms by (auto simp: call_ok_def)
  then have "holds (new_parser (sp_store (cs_parser c))) (cs_snapshot c) (cs_arguments c) od"
    unfolding holds_def by (auto elim!: option.rel_mono_strong intro: k)
  then show ?thesis
    using snaps_new by (auto simp: call_ok_def)
qed

lemma call_step_ok:
  assumes "call_ok c"
  shows "call_ok (call_step op c) \<and> shows_arguments (call_step op c) \<and> cs_text (call_step op c) = op_text op (cs_text c)"
proof -
  have a: "call_ok (append_arguments s d) \<and> shows_arguments (append_arguments s d) \<and> cs_text (append_arguments s d) = cs_text d @ s"
    if "call_ok d" for s d
    using partial_ok [OF append_ok [OF that]] by (simp add: append_arguments_def)
  show ?thesis
  proof (cases op)
    case (Replace s)
    show ?thesis
    proof (cases "take (length (cs_text c)) s = cs_text c")
      case True
      define t where "t = drop (length (cs_text c)) s"
      have s: "cs_text c @ t = s"
        using True by (metis append_take_drop_id t_def)
      have "call_step op c = (if t = [] then partial_arguments c else append_arguments t c)"
        using True by (simp add: Replace replace_arguments_def t_def [symmetric])
      then show ?thesis
        using a [OF assms, of t] partial_ok [OF assms] s by (cases "t = []") (simp_all add: Replace)
    next
      case False
      then show ?thesis
        using Replace a [OF restart_ok [OF assms], of s] by (simp add: replace_arguments_def)
    qed
  qed (simp add: a assms)
qed

text \<open>
  C23: Whatever pieces are appended and whatever arguments are replaced, the text of a call is the text
  they leave, and its arguments object denotes the object that a beginning of that text shows, or \<open>{}\<close>
  where that is no object.
\<close>

theorem arguments_shown:
  "cs_text (fold call_step ops (new_stream h)) = fold op_text ops [] \<and>
   (\<exists>u w. fold op_text ops [] = u @ w \<and>
      denotes {} (sp_store (cs_parser (fold call_step ops (new_stream h))))
        (VRef (cs_arguments (fold call_step ops (new_stream h)))) (object_of (shown (read_text u new_reader))))"
proof -
  have run: "shows_arguments (fold call_step ops c) \<and> cs_text (fold call_step ops c) = fold op_text ops (cs_text c)"
    if "call_ok c" "shows_arguments c" for c
    using that call_step_ok by (induction ops arbitrary: c) fastforce+
  have "shows_arguments (new_stream h)" "cs_text (new_stream h) = []"
    by (simp_all add: shows_arguments_def new_stream_def new_parser_def denotes_ref shown_def rpending_def new_reader_def view_def)
  then show ?thesis
    using run [OF call_new] unfolding shows_arguments_def by metis
qed

end
