(* ===== verification/StreamTexts.thy ===== *)
theory StreamTexts
  imports StreamCalls StreamGrammar
begin

text \<open>
  Whole texts: however JSON text is cut into pieces, and whatever snapshots are taken in between, the
  snapshot after it denotes its value. A parser whose root is closed either makes that snapshot, at no
  cost, or repeats the one it has made of the closed root.
\<close>

section \<open>The root\<close>

definition rooted :: "parser \<Rightarrow> bool" where
  "rooted p \<longleftrightarrow>
     (sp_stack p = [] \<and> sp_root p \<noteq> None \<and> \<not> sp_dirty p \<longrightarrow> sp_snapshot p = sp_root p) \<and>
     (sp_scalar_slot p = Some SRoot \<longrightarrow> sp_root p = None) \<and> (sp_string p \<noteq> None \<longrightarrow> sp_scalar_slot p = None)"

text \<open>A change of the root or of the open containers that leaves the rest alone, or marks it.\<close>

lemma rooted_step:
  assumes "rooted p" and "sp_snapshot q = sp_snapshot p"
    and "sp_dirty q \<or> sp_stack q \<noteq> [] \<or> sp_root q = sp_root p \<and> sp_dirty q = sp_dirty p \<and> (sp_stack q = [] \<longleftrightarrow> sp_stack p = [])"
    and "sp_scalar_slot q = None \<or> sp_scalar_slot q = sp_scalar_slot p \<and> sp_root q = sp_root p \<and> (sp_string q = None \<or> sp_string p \<noteq> None)"
  shows "rooted q"
  using assms by (cases "sp_root p") (auto simp: rooted_def)

lemma place_marks:
  "sp_dirty (place s v p) \<or> sp_root (place s v p) = sp_root p \<and> sp_dirty (place s v p) = sp_dirty p \<and> (sp_stack (place s v p) = [] \<longleftrightarrow> sp_stack p = [])"
  by (simp add: place_def Let_def split: option.split slot.split list.split)

lemma report_marks [simp]:
  "sp_dirty (report_set q v p) = sp_dirty p" "sp_stack (report_set q v p) = sp_stack p" "sp_root (report_set q v p) = sp_root p"
  "sp_string (report_set q v p) = sp_string p"
  "sp_dirty (value_ended p) = sp_dirty p" "sp_root (value_ended p) = sp_root p" "sp_stack (value_ended p) = [] \<longleftrightarrow> sp_stack p = []"
  "sp_string (value_ended p) = sp_string p"
  by (simp_all add: report_set_def report_def value_ended_def set_phase_def split: option.split list.split)

lemma append_marks:
  "sp_dirty (append_string s p) \<or> sp_root (append_string s p) = sp_root p \<and> sp_dirty (append_string s p) = sp_dirty p \<and>
     (sp_stack (append_string s p) = [] \<longleftrightarrow> sp_stack p = [])"
proof (cases "sp_string p")
  case (Some os)
  then obtain cs k where a: "append_string s p = (extended s os p)\<lparr>sp_changes := cs, sp_string := Some (longer s os\<lparr>os_change := k\<rparr>)\<rparr>"
    by (rule append_string_extended)
  show ?thesis
    using place_marks [of "os_slot os" _ "p\<lparr>sp_string := Some (longer s os)\<rparr>"] by (simp add: a extended_def)
qed (simp add: append_string_def)

lemma rooted_structural:
  assumes "rooted p" and "sp_scalar_slot p = None" and "sp_string p = None"
  shows "rooted (structural c p)"
proof -
  note step = rooted_step [OF assms(1)]
  have "rooted (start_string p)"
    by (rule step) (use assms(2) place_marks [of "value_slot p" "VStr []" p] in \<open>auto simp: start_string_eq\<close>)
  moreover have "rooted (open_container d p)" for d
    by (rule step) (simp_all add: assms(2), simp add: open_container_def report_def Let_def split: option.split)
  moreover have "rooted (close_container p)"
    by (rule step) (simp_all add: assms(2), simp add: close_container_def report_def Let_def split: list.split)
  moreover have "rooted (set_phase ph p)" for ph
    by (rule step) (simp_all add: assms(2), simp add: set_phase_def split: list.split)
  moreover have "rooted (mark_dirty (p\<lparr>sp_scalar := [c], sp_scalar_slot := value_slot p\<rparr>))"
    using assms by (auto simp: rooted_def mark_dirty_def value_slot_def split: list.splits container.splits if_splits)
  ultimately show ?thesis
    using assms(1) by (simp add: structural_def split: list.split)
qed

lemma rooted_end_scalar:
  assumes "rooted p"
  shows "rooted (end_scalar p)"
proof (rule rooted_step [OF assms])
  show "sp_dirty (end_scalar p) \<or> sp_stack (end_scalar p) \<noteq> [] \<or> sp_root (end_scalar p) = sp_root p \<and> sp_dirty (end_scalar p) = sp_dirty p \<and>
      (sp_stack (end_scalar p) = [] \<longleftrightarrow> sp_stack p = [])"
    using place_marks [of "sp_scalar_slot p" "the (scalar_value (sp_scalar p))" "p\<lparr>sp_scalar := [], sp_scalar_slot := None\<rparr>"]
    by (cases "scalar_value (sp_scalar p)") (auto simp: end_scalar_def Let_def)
qed simp_all

interpretation rooting: follower "\<lambda>p r. reads p r \<and> slot_ok p \<and> rooted p"
proof (unfold_locales, goal_cases)
  case (1 p r)
  then show ?case
    by (intro reading.same) simp
next
  case (2 p r s)
  then have "rooted p" "sp_scalar_slot p = None"
    by (simp_all add: rooted_def)
  then have "rooted (append_string s p)"
    using append_marks [of s p] by (rule_tac rooted_step [of p]) auto
  then show ?case
    using 2 reading.appends [of p r s] by blast
next
  case (3 p r e)
  then have "rooted (set_escape e p)"
    by (rule_tac rooted_step [of p]) (simp_all add: set_escape_def)
  then show ?case
    using 3 reading.escapes [of p r e] by blast
next
  case (4 p r)
  then have r: "rooted p" "sp_scalar_slot p = None"
    by (simp_all add: rooted_def)
  have "sp_root (end_string p) = sp_root p \<and> sp_dirty (end_string p) = sp_dirty p \<and> (sp_stack (end_string p) = [] \<longleftrightarrow> sp_stack p = [])"
    by (simp add: end_string_def Let_def split: option.split list.split)
  then have "rooted (end_string p)"
    using r by (rule_tac rooted_step [of p]) simp_all
  then show ?case
    using 4 reading.ends [of p r] by blast
next
  case (5 p r s)
  then have "rooted (mark_dirty (p\<lparr>sp_scalar := sp_scalar p @ s\<rparr>))"
    by (rule_tac rooted_step [of p]) (simp_all add: mark_dirty_def)
  then show ?case
    using 5 reading.extends [of p r s] by blast
next
  case (6 p r)
  then show ?case
    using reading.ends_scalar [of p r] rooted_end_scalar by blast
next
  case (7 p r c)
  then show ?case
    using reading.steps [of p r c] rooted_structural by (simp add: slot_ok_def)
qed

lemma snapshot_rooted:
  assumes "rooted p"
  shows "rooted (snd (snapshot p))"
proof -
  have "snd (copy_open_path p (pending_scalar p)) = sp_root p" if "sp_stack p = []" "sp_root p \<noteq> None"
    using assms that by (auto simp: copy_open_path_def pending_scalar_def rooted_def split: option.splits slot.splits)
  then show ?thesis
    using assms by (auto simp: snapshot_def rooted_def Let_def split: prod.split)
qed

text \<open>Together with what the pieces pay for.\<close>

definition sound :: "parser \<Rightarrow> reader \<Rightarrow> bool" where
  "sound p r \<longleftrightarrow> reads p r \<and> slot_ok p \<and> costed p \<and> rooted p \<and> 0 \<le> sp_credit p"

lemma sound_append:
  assumes "sound p r"
  shows "sound (append_text s p) (read_text s r)"
proof -
  have p: "reads p r" "slot_ok p" "costed p"
    using assms by (simp_all add: sound_def)
  let ?n = "sp_credit p + credit_per_append + credit_per_character * int (length s)"
  let ?q = "p\<lparr>sp_credit := ?n, sp_changes := [], sp_string := map_option (\<lambda>os. os\<lparr>os_change := None\<rparr>) (sp_string p)\<rparr>"
  have "?q = p\<lparr>sp_string := map_option (\<lambda>os. os\<lparr>os_change := None\<rparr>) (sp_string p), sp_credit := ?n, sp_changes := []\<rparr>"
    by simp
  then have "reads ?q r"
    using p(1) by (metis reads_irrelevant(1,2) reads_new_piece)
  moreover have "rooted ?q"
    using assms by (auto simp: sound_def rooted_def)
  ultimately have "rooted (append_text s p)"
    using rooting.feeds [of ?q r s] p(2) by (simp add: append_text_def slot_ok_def)
  then show ?thesis
    using append_text_reads [OF p(1,2), of s] append_text_pays [OF p, of s] assms
    by (simp add: sound_def credit_per_append_def credit_per_character_def)
qed

lemma sound_look:
  assumes "sound p r"
  shows "sound (snd (snapshot p)) r"
  using assms snapshot_reads [of p r] snapshot_pays [of p r] snapshot_rooted [of p] snapshot_slot_ok [of p]
  by (auto simp: sound_def)


lemma sound_new: "sound (new_parser h) new_reader"
  using new_reads by (simp add: sound_def slot_ok_def costed_def slot_fits_def rooted_def) (simp add: new_parser_def)

lemma closed_snapshot:
  assumes "sound p r" and "rd_stack r = []" and "rd_root r = Some d" and "rd_scalar_slot r = None"
  shows "\<exists>v. fst (snapshot p) = Some v \<and> denotes {} (sp_store (snd (snapshot p))) v d"
proof -
  have s: "sp_stack p = []" "sp_scalar_slot p = None"
    using assms reads_stack [of p r] by (auto simp: sound_def reads_def)
  then obtain v where v: "sp_root p = Some v" "denotes {} (sp_store p) v d"
    using assms(1,2,3) by (auto simp: sound_def reads_def option_rel_Some2)
  have "sp_path_cost p = 0" "pending_scalar p = None"
    using assms(1) s by (simp_all add: sound_def costed_def pending_scalar_def)
  then show ?thesis
    using assms(1) s v by (auto simp: sound_def rooted_def snapshot_def copy_open_path_def)
qed


lemma json_example: "json_value True (js ''{\"a\":[]}'') (DObj [(js ''a'', DArr [])])"
proof -
  have "json_value True (0x5B # [] @ [0x5D]) (DArr [])"
    by (rule value_empty_array) (simp add: white_def)
  then have "json_members True ([] @ quoted (js ''a'') @ [] @ 0x3A # [] @ (0x5B # [] @ [0x5D]) @ []) [(js ''a'', DArr [])]"
    by (intro last_member) (simp_all add: white_def js_def string_text.intros quote_char_def backslash_def)
  from value_object [OF this] show ?thesis
    by (simp add: js_def quoted_def quote_char_def object_with_def)
qed


section \<open>The arguments of a call\<close>

lemma sound_alloc:
  assumes "sound p r"
  shows "sound (p\<lparr>sp_store := sp_store p @ [c]\<rparr>) r"
proof -
  have "reads p r"
    using assms by (simp add: sound_def)
  then have len: "fr_container f < length (sp_store p)" if "f \<in> set (sp_stack p)" for f
    using that stack_addresses [of _ "sp_store p" _ "sp_stack p"] by (auto simp: reads_def addresses_def)
  have "costed (p\<lparr>sp_store := sp_store p @ [c]\<rparr>)"
    using assms len by (auto simp: sound_def costed_def slot_fits_def cell_of_def nth_append)
  then show ?thesis
    using assms reads_alloc [OF \<open>reads p r\<close>] by (simp add: sound_def slot_ok_def rooted_def)
qed

lemma partial_parser:
  "cs_parser (partial_arguments c) = snd (snapshot (cs_parser c)) \<or>
   cs_parser (partial_arguments c) = (snd (snapshot (cs_parser c)))\<lparr>sp_store := sp_store (snd (snapshot (cs_parser c))) @ [CObj []]\<rparr>"
proof (cases "snapshot (cs_parser c)")
  case (Pair v p)
  show ?thesis
    by (cases "the v"; cases v) (simp_all add: partial_arguments_def Pair)
qed

definition call_sound :: "call_stream \<Rightarrow> bool" where
  "call_sound c \<longleftrightarrow> call_ok c \<and> sound (cs_parser c) (read_text (cs_text c) new_reader)"

text \<open>The arguments object is that of the value the reader has closed.\<close>

definition closed_arguments :: "call_stream \<Rightarrow> bool" where
  "closed_arguments c \<longleftrightarrow>
     (\<forall>d. read_text (cs_text c) new_reader = new_reader\<lparr>rd_root := Some d, rd_done := True\<rparr> \<longrightarrow>
        denotes {} (sp_store (cs_parser c)) (VRef (cs_arguments c)) (object_of (Some d)))"

lemma partial_sound:
  assumes "call_sound c"
  shows "call_sound (partial_arguments c) \<and> closed_arguments (partial_arguments c)"
proof -
  let ?q = "cs_parser (partial_arguments c)" and ?v = "fst (snapshot (cs_parser c))"
  have c: "call_ok c" "sound (cs_parser c) (read_text (cs_text c) new_reader)"
    using assms by (simp_all add: call_sound_def)
  obtain od where t: "call_ok (partial_arguments c)" "cs_text (partial_arguments c) = cs_text c" "holds ?q ?v (cs_arguments (partial_arguments c)) od"
    using partial_ok [OF c(1)] by blast
  have s: "sound ?q (read_text (cs_text c) new_reader)"
    using partial_parser [of c] sound_look [OF c(2)] sound_alloc by auto
  have "denotes {} (sp_store ?q) (VRef (cs_arguments (partial_arguments c))) (object_of (Some d))"
    if d: "read_text (cs_text c) new_reader = new_reader\<lparr>rd_root := Some d, rd_done := True\<rparr>" for d
  proof -
    obtain v where v: "?v = Some v" "denotes {} (sp_store (snd (snapshot (cs_parser c)))) v d"
      using closed_snapshot [OF c(2)] d by (auto simp: new_reader_def)
    have "denotes {} (sp_store ?q) v d"
      using partial_parser [of c] by (rule disjE) (use v(2) in \<open>auto elim: denotes_mono simp: nth_append\<close>)
    moreover obtain e where "od = Some e" "denotes (addresses (sp_stack ?q)) (sp_store ?q) v e"
      using t(3) v(1) by (auto simp: holds_def option_rel_Some1)
    moreover have "denotes P h w x \<Longrightarrow> denotes {} h w x" for P h w x
      by (erule denotes_mono) simp
    ultimately show ?thesis
      using t(3) denotes_same unfolding holds_def by blast
  qed
  then show ?thesis
    using s t by (simp add: call_sound_def closed_arguments_def)
qed

lemma call_step_sound:
  assumes "call_sound c"
  shows "call_sound (call_step op c) \<and> closed_arguments (call_step op c)"
proof -
  have a: "call_sound (append_arguments s d) \<and> closed_arguments (append_arguments s d)" if "call_sound d" for s d
    using that append_ok [of d s] sound_append partial_sound by (simp add: append_arguments_def call_sound_def)
  have "call_sound (c\<lparr>cs_text := [], cs_parser := new_parser (sp_store (cs_parser c))\<rparr>)"
    using assms restart_ok sound_new by (simp add: call_sound_def)
  then show ?thesis
    using a assms partial_sound [OF assms] by (cases op) (simp_all add: replace_arguments_def Let_def)
qed

lemma json_value_not_empty: "json_value strict t d \<Longrightarrow> t \<noteq> []"
  using scalar_token by (auto simp: quoted_def elim!: json_value.cases)

lemma run_call_sound:
  "call_sound (fold call_step ops (new_stream h)) \<and> (ops \<noteq> [] \<longrightarrow> closed_arguments (fold call_step ops (new_stream h)))"
proof (induction ops rule: rev_induct)
  case Nil
  show ?case
    using call_new sound_new by (simp add: call_sound_def) (simp add: new_stream_def)
next
  case (snoc op ops)
  then show ?case
    using call_step_sound by simp
qed

lemma run_call_text: "cs_text (fold call_step ops (new_stream h)) = fold op_text ops []"
proof (induction ops rule: rev_induct)
  case (snoc op ops)
  then show ?case
    using run_call_sound [of ops h] call_step_ok by (simp add: call_sound_def)
qed (simp add: new_stream_def)

text \<open>
  However the arguments of a call arrive, appended in pieces or replaced: once their text is JSON text of
  an object, the arguments object denotes that object.
\<close>

theorem arguments_complete:
  assumes "white w1" and "json_value strict t (DObj kvs)" and "is_delimiter (hd t)" and "white w2"
    and "fold op_text ops [] = w1 @ t @ w2"
  shows "denotes {} (sp_store (cs_parser (fold call_step ops (new_stream h)))) (VRef (cs_arguments (fold call_step ops (new_stream h)))) (DObj kvs)"
proof -
  have "ops \<noteq> []"
    using assms(2,5) json_value_not_empty by (cases ops) auto
  then have "closed_arguments (fold call_step ops (new_stream h))"
    using run_call_sound by blast
  then show ?thesis
    using json_text_read [OF assms(1-4)] unfolding closed_arguments_def run_call_text assms(5) by fastforce
qed

lemma arguments_complete_witness:
  "denotes {} (sp_store (cs_parser (fold call_step [Append (js ''{\"''), Replace (js ''{\"a\":[]}'')] (new_stream []))))
    (VRef (cs_arguments (fold call_step [Append (js ''{\"''), Replace (js ''{\"a\":[]}'')] (new_stream [])))) (DObj [(js ''a'', DArr [])])"
proof -
  have "fold op_text [Append (js ''{\"''), Replace (js ''{\"a\":[]}'')] [] = [] @ js ''{\"a\":[]}'' @ []"
    by simp
  moreover have "is_delimiter (hd (js ''{\"a\":[]}''))" "white []"
    by (simp_all add: js_def delimiters white_def)
  ultimately show ?thesis
    using arguments_complete [OF _ json_example, of "[]" "[]"] by blast
qed

end
