(* ===== verification/JsonAgree.thy ===== *)
theory JsonAgree
  imports JsonRepair StreamTexts
begin

text \<open>
  The final arguments of a call and the partial ones: where the repair makes a text strict JSON, the
  reader reads from the text what it reads from the repaired one, so the arguments that the last pieces
  show are the ones the final parse gives.
\<close>

section \<open>Inside a string\<close>

text \<open>The reader stands inside a string, behind no escape; the characters it appends add up.\<close>

definition in_string :: "reader \<Rightarrow> bool" where
  "in_string r \<longleftrightarrow> \<not> rd_done r \<and> (\<exists>os. rd_string r = Some os \<and> ds_escape os = []) \<and>
     (\<forall>s t. rappend t (rappend s r) = rappend (s @ t) r) \<and> rappend [] r = r"

lemma in_string_appends: "in_string r \<Longrightarrow> rappend t (rappend s r) = rappend (s @ t) r"
  by (simp add: in_string_def)

lemma rappend_fields: "rd_done (rappend s r) = rd_done r"
  "rd_string (rappend s r) = map_option (\<lambda>os. os\<lparr>ds_text := ds_text os @ s\<rparr>) (rd_string r)"
  by (simp_all add: rappend_def Let_def split: option.split)

lemma in_string_append:
  assumes "in_string r"
  shows "in_string (rappend s r)"
proof -
  have "\<not> rd_done (rappend s r)" "\<exists>os. rd_string (rappend s r) = Some os \<and> ds_escape os = []"
    using assms by (auto simp: in_string_def rappend_fields)
  then show ?thesis
    by (simp add: in_string_def [of "rappend s r"] in_string_appends [OF assms])
qed

lemma in_string_text:
  assumes "in_string r" and "string_text strict t u"
  shows "read_text t r = rappend u r"
proof -
  have "read_text t (rappend [] r) = rappend ([] @ u) r"
    by (rule read_string_text [OF assms(2)])
      (use assms(1) in_string_append [OF assms(1)] in \<open>auto simp: in_string_appends in_string_def [of "rappend _ r"]\<close>)
  then show ?thesis
    using assms(1) by (simp add: in_string_def)
qed

lemma in_string_start:
  assumes "\<not> rd_done r" and "rd_string r = None"
  shows "in_string (rstart_string r)"
proof (cases "case rd_stack r of f # _ \<Rightarrow> \<not> is_doc_arr (df_content f) \<and> (df_phase f = AtKey \<or> df_phase f = AtComma) | [] \<Rightarrow> False")
  case True
  then show ?thesis
    using assms by (simp add: rstart_string_def in_string_def rappend_def)
next
  case False
  have "rplace (rvalue_slot r) x (rplace (rvalue_slot r) y r) = rplace (rvalue_slot r) x r" for x y
    using slot_again by (cases "rvalue_slot r") (simp_all add: rplace_def)
  then show ?thesis
    using assms False by (simp add: rstart_string_def in_string_def rappend_def rplace_string)
qed

lemma in_string_read:
  assumes "in_string r"
  shows "read_char c (rset_escape e r) = rstring_char c (rset_escape e r)" "rescape (rset_escape e r) = e" "rset_escape [] r = r"
    "read_char c r = rplain c r" "rset_escape [] (rset_escape e r) = r" "rset_escape e' (rset_escape e r) = rset_escape e' r"
proof -
  obtain os where os: "rd_string r = Some os" "ds_escape os = []"
    using assms by (auto simp: in_string_def)
  have n: "os\<lparr>ds_escape := []\<rparr> = os"
    using os(2) by (cases os) simp
  have nr: "r\<lparr>rd_string := Some os\<rparr> = r"
    using os(1) by (cases r) simp
  show e: "rset_escape [] r = r" "rset_escape [] (rset_escape e r) = r" "rset_escape e' (rset_escape e r) = rset_escape e' r"
    using os n nr by (simp_all add: rset_escape_def)
  show c: "read_char c (rset_escape e r) = rstring_char c (rset_escape e r)" for e
    using assms os by (simp add: read_char_def in_string_def rset_escape_def)
  show "rescape (rset_escape e r) = e"
    using os by (simp add: rescape_def rset_escape_def)
  show "read_char c r = rplain c r"
    using c [of "[]"] os by (simp add: e rstring_char_def rescape_def)
qed

lemma in_string_quote:
  assumes "in_string r"
  shows "rd_string (read_char quote_char r) = None"
  using assms in_string_read(4) [OF assms, of quote_char]
  by (auto simp: in_string_def rplain_def rend_string_def rvalue_ended_def rset_phase_def Let_def split: list.split)

lemma read_backslash: "in_string r \<Longrightarrow> read_char backslash r = rset_escape [backslash] r"
  by (simp add: in_string_read rplain_def)

lemma hex_plain: "is_hex_digit c \<Longrightarrow> c \<noteq> quote_char \<and> c \<noteq> backslash"
  by (auto simp: is_hex_digit_def is_digit_def quote_char_def backslash_def)

lemma read_plain: "in_string r \<Longrightarrow> list_all (\<lambda>c. c \<noteq> quote_char \<and> c \<noteq> backslash) s \<Longrightarrow> read_text s r = rappend s r"
proof (induction s arbitrary: r)
  case Nil
  then show ?case
    by (simp add: in_string_def)
next
  case (Cons c s)
  then show ?case
    using in_string_append [OF Cons.prems(1), of "[c]"] by (simp add: in_string_read(4) rplain_def in_string_appends)
qed

text \<open>An escape that is none is text.\<close>

lemma read_digits:
  assumes "in_string r"
  shows "length e + length hs < 6 \<Longrightarrow> e \<noteq> [backslash] \<Longrightarrow> e \<noteq> [] \<Longrightarrow> list_all is_hex_digit hs \<Longrightarrow>
    read_text hs (rset_escape e r) = rset_escape (e @ hs) r"
proof (induction hs arbitrary: e)
  case (Cons c hs)
  have "read_char c (rset_escape e r) = rset_escape (e @ [c]) r"
    using Cons.prems by (simp add: in_string_read [OF assms] rstring_char_def rcontinue_escape_def Let_def)
  then show ?case
    using Cons.IH [of "e @ [c]"] Cons.prems by simp
qed simp

lemma read_no_escape:
  assumes "in_string r" and "\<not> valid_escape d" and "\<not> (d = char_u \<and> 4 \<le> length t \<and> list_all is_hex_digit (take 4 t))"
  shows "read_text (backslash # d # t) r = read_text (d # t) (rappend [backslash] r) \<or> d = char_u \<and> list_all is_hex_digit t"
proof (cases "d = char_u")
  case False
  have "read_char d (rset_escape [backslash] r) = read_char d (rappend [backslash] r)"
    using assms(2) False
    by (simp add: in_string_read [OF assms(1)] in_string_read(4) [OF in_string_append [OF assms(1)]] rstring_char_def rcontinue_escape_def valid_escape_simple)
  then show ?thesis
    by (simp add: read_backslash [OF assms(1)])
next
  case True
  define hs where "hs = takeWhile is_hex_digit t"
  have hs: "list_all is_hex_digit hs" "t = hs @ dropWhile is_hex_digit t"
    by (auto simp: hs_def list_all_iff dest: set_takeWhileD)
  show ?thesis
  proof (cases "dropWhile is_hex_digit t")
    case Nil
    then show ?thesis
      using True by (simp add: dropWhile_eq_Nil_conv list_all_iff)
  next
    case (Cons x u)
    have "\<not> is_hex_digit (hd (dropWhile is_hex_digit t))"
      by (rule hd_dropWhile) (simp add: Cons)
    then have x: "\<not> is_hex_digit x" "t = hs @ x # u"
      using hs(2) Cons by simp_all
    have len: "length hs < 4"
    proof (rule ccontr)
      assume "\<not> length hs < 4"
      then have "take 4 t = take 4 hs" "4 \<le> length t"
        using x(2) by simp_all
      moreover have "list_all is_hex_digit (take 4 hs)"
        using hs(1) by (auto simp: list_all_iff dest: in_set_takeD)
      ultimately show False
        using assms(3) True by simp
    qed
    let ?e = "backslash # char_u # hs"
    have "read_char char_u (rset_escape [backslash] r) = rset_escape [backslash, char_u] r"
      by (simp add: in_string_read [OF assms(1)] rstring_char_def rcontinue_escape_def simple_escape_def char_u_def quote_char_def backslash_def)
    then have "read_text (backslash # char_u # hs) r = rset_escape ?e r"
      using read_digits [OF assms(1), of "[backslash, char_u]" hs] len hs(1) by (simp add: read_backslash [OF assms(1)])
    moreover have "read_char x (rset_escape ?e r) = read_char x (rappend ?e r)"
      using x(1)
      by (simp add: in_string_read [OF assms(1)] in_string_read(4) [OF in_string_append [OF assms(1)]] rstring_char_def rcontinue_escape_def)
    moreover have "list_all (\<lambda>c. c \<noteq> quote_char \<and> c \<noteq> backslash) (char_u # hs)"
      using hs(1) hex_plain by (auto simp: list_all_iff)
    then have "read_text (char_u # hs) (rappend [backslash] r) = rappend ?e r"
      using read_plain [OF in_string_append [OF assms(1)]] by (simp add: in_string_appends [OF assms(1)] del: read_text_simps)
    ultimately show ?thesis
      using True x(2) by simp
  qed
qed

section \<open>Outside of strings\<close>

lemma rend_scalar_string: "rd_string (rend_scalar r) = rd_string r"
  by (simp add: rend_scalar_def rvalue_ended_def rset_phase_def rplace_def Let_def split: option.split slot.split list.split)

lemma outside_structural:
  assumes "rd_string r = None" and "c \<noteq> quote_char"
  shows "rd_string (rstructural c r) = None"
  using assms
  by (simp add: rstructural_def ropen_def rclose_def rset_phase_def rvalue_ended_def rplace_def Let_def
      split: list.split option.split slot.split)

lemma outside_char:
  assumes "\<not> rd_done r" and "rd_string r = None"
  shows "if c = quote_char then in_string (read_char c r) \<or> rd_done (read_char c r) else rd_string (read_char c r) = None"
proof -
  have q: "rstructural quote_char q = rstart_string q" for q
    by (simp add: rstructural_def is_white_def quote_char_def)
  show ?thesis
    using assms outside_structural [of "rend_scalar r" c] outside_structural [of r c] in_string_start [of r] in_string_start [of "rend_scalar r"]
      delimiters(6)
    by (auto simp: read_char_def q rend_scalar_string Let_def)
qed

section \<open>Agreement\<close>

definition closed :: "reader \<Rightarrow> bool" where
  "closed r \<longleftrightarrow> rd_done r \<or> rd_string r = None"

lemma in_string_open: "in_string r \<Longrightarrow> \<not> closed r"
  by (auto simp: in_string_def closed_def)

lemma string_pieces:
  "simple_escape c = Some d \<Longrightarrow> string_text False [backslash, c] [d]"
  "length hex = 4 \<Longrightarrow> list_all is_hex_digit hex \<Longrightarrow> string_text False (backslash # char_u # hex) [code_unit_of hex]"
  using string_escape [of c d False "[]" "[]"] string_unit [of hex False "[]" "[]"] by (simp_all add: string_end)

lemma read_control:
  assumes "in_string r" and "is_control c"
  shows "read_text (escape_control c) r = rappend [c] r"
  using escape_control_cases [OF assms(2)] string_pieces by (auto simp del: read_text_simps intro!: in_string_text [OF assms(1)])

definition stands :: "bool \<Rightarrow> reader \<Rightarrow> bool" where
  "stands b r \<longleftrightarrow> rd_done r \<or> (if b then in_string r else rd_string r = None)"

theorem repair_agrees:
  "stands b r \<Longrightarrow> closed (read_text (repair_from b s) r) \<Longrightarrow> read_text (repair_from b s) r = read_text s r"
proof (induction b s arbitrary: r rule: repair_from.induct)
  case (1 b)
  then show ?case
    by simp
next
  case (2 c s)
  show ?case
  proof (cases "rd_done r")
    case False
    then have "stands (c = quote_char) (read_char c r)"
      using outside_char [of r c] 2(2) by (auto simp: stands_def split: if_splits)
    then show ?thesis
      using 2 by simp
  qed (simp add: read_text_done del: read_text_simps)
next
  case (3 c s)
  show ?case
  proof (cases "rd_done r")
    case False
    then have r: "in_string r"
      using 3(6) by (simp add: stands_def)
    have st: "stands True (rappend u r)" for u
      using in_string_append [OF r] by (simp add: stands_def)
    consider (quote) "c = quote_char" | (last) "c = backslash" "s = []" | (escape) d t where "c = backslash" "s = d # t"
      | (plain) "c \<noteq> quote_char" "c \<noteq> backslash"
      by (cases s) auto
    then show ?thesis
    proof cases
      case quote
      then have "stands False (read_char c r)"
        using in_string_quote [OF r] by (simp add: stands_def)
      then show ?thesis
        using 3(1) [OF quote] 3(7) quote by simp
    next
      case last
      have "read_text [backslash, backslash] r = rappend [backslash] r"
        by (rule in_string_text [OF r string_pieces(1)]) (simp add: simple_escape_def)
      then show ?thesis
        using 3(7) last in_string_open [OF in_string_append [OF r]] by (simp del: read_text_simps)
    next
      case escape
      have c: "c \<noteq> quote_char"
        using escape by simp
      consider (hex) "d = char_u \<and> 4 \<le> length t \<and> list_all is_hex_digit (take 4 t)"
        | (valid) "valid_escape d" "\<not> (d = char_u \<and> 4 \<le> length t \<and> list_all is_hex_digit (take 4 t))"
        | (other) "\<not> valid_escape d" "\<not> (d = char_u \<and> 4 \<le> length t \<and> list_all is_hex_digit (take 4 t))"
        by blast
      then show ?thesis
      proof cases
        case hex
        have h: "read_text (backslash # char_u # take 4 t) r = rappend [code_unit_of (take 4 t)] r"
          by (rule in_string_text [OF r string_pieces(2)]) (use hex in simp_all)
        have f: "repair_from True (c # s) = (backslash # char_u # take 4 t) @ repair_from True (drop 4 t)"
          using escape hex by simp
        have g: "c # s = (backslash # char_u # take 4 t) @ drop 4 t"
          using escape hex by simp
        show ?thesis
          using 3(2) [OF c escape(1,2) hex st] 3(7) unfolding f read_text_simps(3) h unfolding g read_text_simps(3) h by blast
      next
        case valid
        then obtain e where e: "simple_escape d = Some e"
          by (auto simp: valid_escape_simple)
        have h: "read_text [backslash, d] r = rappend [e] r"
          by (rule in_string_text [OF r string_pieces(1) [OF e]])
        have f: "repair_from True (c # s) = [backslash, d] @ repair_from True t"
          using escape valid by auto
        have g: "c # s = [backslash, d] @ t"
          using escape by simp
        show ?thesis
          using 3(3) [OF c escape(1,2) valid(2,1) st] 3(7) unfolding f read_text_simps(3) h unfolding g read_text_simps(3) h by blast
      next
        case other
        have h: "read_text [backslash, backslash] r = rappend [backslash] r"
          by (rule in_string_text [OF r string_pieces(1)]) (simp add: simple_escape_def)
        have f: "repair_from True (c # s) = [backslash, backslash] @ repair_from True s"
          using escape other by auto
        have ih: "read_text (repair_from True (c # s)) r = read_text s (rappend [backslash] r)"
          using 3(4) [OF c escape(1,2) other(2,1) st] 3(7) unfolding f read_text_simps(3) h by blast
        from read_no_escape [OF r other] show ?thesis
        proof
          assume "read_text (backslash # d # t) r = read_text (d # t) (rappend [backslash] r)"
          then show ?thesis
            unfolding ih unfolding escape by (rule sym)
        next
          assume u: "d = char_u \<and> list_all is_hex_digit t"
          then have "list_all (\<lambda>c. c \<noteq> quote_char \<and> c \<noteq> backslash) s"
            using escape hex_plain by (auto simp: list_all_iff)
          then have "in_string (read_text s (rappend [backslash] r))"
            using read_plain [OF in_string_append [OF r]] in_string_append [OF in_string_append [OF r]] by simp
          then show ?thesis
            using 3(7) in_string_open unfolding ih by blast
        qed
      qed
    next
      case plain
      have c: "read_text [c] r = rappend [c] r"
        by (rule read_plain [OF r]) (use plain in simp)
      have h: "read_text (if is_control c then escape_control c else [c]) r = rappend [c] r"
        using read_control [OF r, of c] c by (simp del: read_text_simps)
      have f: "repair_from True (c # s) = (if is_control c then escape_control c else [c]) @ repair_from True s"
        using plain by simp
      have g: "c # s = [c] @ s"
        by simp
      show ?thesis
        using 3(5) [OF plain st] 3(7) unfolding f read_text_simps(3) h unfolding g read_text_simps(3) c by blast
    qed
  qed (simp add: read_text_done del: read_text_simps repair_from.simps)
qed

lemma repaired_read:
  assumes "closed (read_text (repair_json s) new_reader)"
  shows "read_text (repair_json s) new_reader = read_text s new_reader"
  using assms repair_agrees [of False new_reader s] by (simp add: repair_json_def stands_def) (simp add: new_reader_def)

section \<open>Final arguments\<close>

lemma json_object_delimited: "json_value strict t (DObj kvs) \<Longrightarrow> is_delimiter (hd t)"
proof (erule json_value.cases)
  fix u v
  assume "scalar_value u = Some v" "DObj kvs = doc_of v"
  then show "is_delimiter (hd t)"
    by (cases v) auto
qed (auto simp: quoted_def delimiters)

lemma object_text_read:
  assumes "json_text s (DObj kvs)"
  shows "read_text s new_reader = new_reader\<lparr>rd_root := Some (DObj kvs), rd_done := True\<rparr>"
proof -
  obtain w1 t w2 where "s = w1 @ t @ w2" "white w1" "json_value True t (DObj kvs)" "white w2"
    using assms by (auto simp: json_text_def)
  then show ?thesis
    using json_text_read json_object_delimited by blast
qed

lemma parsed_object_read:
  assumes "parse_with_repair s = Some (DObj kvs)"
  shows "read_text s new_reader = new_reader\<lparr>rd_root := Some (DObj kvs), rd_done := True\<rparr>"
proof (cases "json_parse s")
  case (Some d)
  then have "json_text s (DObj kvs)"
    using assms json_parse_iff [of s "DObj kvs"] by (simp add: parse_with_repair_def)
  then show ?thesis
    by (rule object_text_read)
next
  case None
  then have "json_text (repair_json s) (DObj kvs)"
    using assms json_parse_iff by (auto simp: parse_with_repair_def split: if_splits)
  then have r: "read_text (repair_json s) new_reader = new_reader\<lparr>rd_root := Some (DObj kvs), rd_done := True\<rparr>"
    by (rule object_text_read)
  then have "closed (read_text (repair_json s) new_reader)"
    by (simp add: closed_def)
  then show ?thesis
    using repaired_read r by simp
qed

text \<open>\<open>finish\<close>.\<close>

definition finish_arguments :: "call_stream \<Rightarrow> doc \<times> arguments_error option" where
  "finish_arguments c = parse_tool_call_arguments (Some (cs_text c))"

text \<open>
  C20: Where the final parse of the arguments of a call reports no error, the arguments object that the last
  piece left denotes the same object.
\<close>

theorem final_arguments_agree:
  assumes "finish_arguments (fold call_step ops (new_stream h)) = (d, None)"
    and "\<not> is_blank (cs_text (fold call_step ops (new_stream h)))"
  shows "denotes {} (sp_store (cs_parser (fold call_step ops (new_stream h)))) (VRef (cs_arguments (fold call_step ops (new_stream h)))) d"
proof -
  let ?c = "fold call_step ops (new_stream h)"
  obtain kvs where d: "parse_with_repair (cs_text ?c) = Some (DObj kvs)" "d = DObj kvs"
    using assms by (auto simp: finish_arguments_def parse_tool_call_arguments_def split: option.splits doc.splits)
  have "ops \<noteq> []"
    using assms(2) by (auto simp: new_stream_def is_blank_def)
  then have "closed_arguments ?c"
    using run_call_sound [of ops h] by blast
  then show ?thesis
    using parsed_object_read [OF d(1)] d(2) unfolding closed_arguments_def by fastforce
qed

lemma final_arguments_agree_witness:
  "denotes {} (sp_store (cs_parser (fold call_step [Append (js ''{\"'' @ [backslash]), Append (js ''d\":[]}'')] (new_stream []))))
    (VRef (cs_arguments (fold call_step [Append (js ''{\"'' @ [backslash]), Append (js ''d\":[]}'')] (new_stream [])))) (DObj [([backslash] @ js ''d'', DArr [])])"
proof -
  let ?ops = "[Append (js ''{\"'' @ [backslash]), Append (js ''d\":[]}'')]"
  have "parse_tool_call_arguments (Some (fold op_text ?ops [])) = (DObj [([backslash] @ js ''d'', DArr [])], None)"
    by code_simp
  moreover have "\<not> is_blank (fold op_text ?ops [])"
    by code_simp
  ultimately show ?thesis
    using final_arguments_agree [of ?ops "[]"] unfolding finish_arguments_def run_call_text by blast
qed

text \<open>
  C26: The final parse takes an object exactly from a text that is strict JSON, or that one repair of its
  strings makes strict JSON.
\<close>

theorem final_arguments_iff:
  "parse_tool_call_arguments (Some s) = (DObj kvs, None) \<longleftrightarrow>
     (if is_blank s then kvs = [] else json_text (repair_json s) (DObj kvs))"
proof -
  have "parse_with_repair s = Some (DObj kvs) \<longleftrightarrow> json_text (repair_json s) (DObj kvs)"
  proof (cases "\<exists>d. json_text s d")
    case True
    then obtain d where d: "json_parse s = Some d" "json_text s d"
      using json_parse_iff by blast
    then show ?thesis
      using json_parse_iff [of s "DObj kvs"] repair_strict [OF d(2)] by (simp add: parse_with_repair_def)
  next
    case False
    then have "json_parse s = None"
      using json_parse_iff [of s] by fastforce
    then show ?thesis
      using json_parse_iff [of "repair_json s"] json_parse_iff [of s] by (simp add: parse_with_repair_def)
  qed
  then show ?thesis
    by (auto simp: parse_tool_call_arguments_def split: option.split doc.split)
qed

text \<open>A repaired text needs no other repair.\<close>

theorem repair_idempotent: "repair_json (repair_json s) = repair_json s"
  by (simp add: repair_json_def repair_twice)

end
