(* ===== verification/StreamChanges.thy ===== *)
theory StreamChanges
  imports StreamCalls StreamGrammar
begin

text \<open>
  The changes \<open>append\<close> reports. A consumer that applies them, piece by piece, to its own copy of the value
  holds after every piece what the text read so far reports: all of it while at most 32 containers are
  open, and of more only the outer 32.
\<close>

section \<open>Paths\<close>

fun dget :: "slot \<Rightarrow> doc \<Rightarrow> doc option" where
  "dget (SElement i) (DArr ds) = (if i < length ds then Some (ds ! i) else None)"
| "dget (SMember k) (DObj kvs) = map_of kvs k"
| "dget _ _ = None"

text \<open>A path that leads nowhere gives no value.\<close>

fun get_at :: "json_path \<Rightarrow> doc option \<Rightarrow> doc option" where
  "get_at [] r = r"
| "get_at (s # q) r = (case r of None \<Rightarrow> None | Some c \<Rightarrow> get_at q (dget s c))"

fun set_at :: "json_path \<Rightarrow> doc \<Rightarrow> doc option \<Rightarrow> doc option" where
  "set_at [] d m = Some d"
| "set_at (s # q) d r = (case r of None \<Rightarrow> None | Some c \<Rightarrow> map_option (\<lambda>e. dput s e c) (set_at q d (dget s c)))"

fun append_at :: "json_path \<Rightarrow> jsstr \<Rightarrow> doc option \<Rightarrow> doc option" where
  "append_at [] t r = (case r of Some (DStr u) \<Rightarrow> Some (DStr (u @ t)) | _ \<Rightarrow> None)"
| "append_at (s # q) t r = (case r of None \<Rightarrow> None | Some c \<Rightarrow> map_option (\<lambda>e. dput s e c) (append_at q t (dget s c)))"

lemma dput_again: "dget s (dput s e c) \<noteq> None \<Longrightarrow> dput s d (dput s e c) = dput s d c"
  by (cases s; cases c) (auto simp: list_update_append split: if_splits)

lemma dget_put: "dget s (dput s e c) \<noteq> None \<Longrightarrow> dget s (dput s e c) = Some e"
  by (cases s; cases c) (auto simp: map_of_al_put nth_append split: if_splits)

lemma held_put: "dget s c \<noteq> None \<Longrightarrow> dget s (dput s e c) \<noteq> None"
  by (cases s; cases c) (auto simp: map_of_al_put split: if_splits)

lemma held_put_other: "dget s c \<noteq> None \<Longrightarrow> dget s (dput t e c) \<noteq> None"
  by (cases s; cases t; cases c) (auto simp: map_of_al_put split: if_splits)

lemma get_at_snoc: "get_at (q @ [s]) r = (case get_at q r of None \<Rightarrow> None | Some c \<Rightarrow> dget s c)"
  by (induction q r rule: get_at.induct) (auto split: option.split)

lemma set_at_snoc: "get_at q r = Some c \<Longrightarrow> set_at (q @ [s]) d r = set_at q (dput s d c) r"
  by (induction q r rule: get_at.induct) (auto split: option.splits)

lemma append_at_string: "get_at q r = Some (DStr u) \<Longrightarrow> append_at q t r = set_at q (DStr (u @ t)) r"
  by (induction q r rule: get_at.induct) (auto split: option.splits)

text \<open>A string set, or extended, and extended again.\<close>

lemma append_to_set:
  "set_at q (DStr u) m = Some r \<Longrightarrow> append_at q t (Some r) \<noteq> None \<Longrightarrow> append_at q t (Some r) = set_at q (DStr (u @ t)) m"
proof (induction q arbitrary: m r)
  case (Cons s q)
  then obtain c e where c: "m = Some c" "set_at q (DStr u) (dget s c) = Some e" "r = dput s e c"
    by (cases m) auto
  have g: "dget s (dput s e c) \<noteq> None"
    using Cons.prems(2) c(3) by (cases "dget s r"; cases q) auto
  then have "dget s r = Some e"
    unfolding c(3) by (rule dget_put)
  then show ?case
    using Cons.IH [OF c(2)] Cons.prems(2) c dput_again [OF g] by (cases "append_at q t (Some e)") (auto simp: comp_def)
qed simp

lemma append_twice:
  "append_at q u m = Some r \<Longrightarrow> append_at q t (Some r) \<noteq> None \<Longrightarrow> append_at q t (Some r) = append_at q (u @ t) m"
proof (induction q arbitrary: m r)
  case Nil
  then show ?case
    by (auto split: option.splits doc.splits)
next
  case (Cons s q)
  then obtain c e where c: "m = Some c" "append_at q u (dget s c) = Some e" "r = dput s e c"
    by (cases m) auto
  have g: "dget s (dput s e c) \<noteq> None"
    using Cons.prems(2) c(3) by (cases "dget s r"; cases q) auto
  then have "dget s r = Some e"
    unfolding c(3) by (rule dget_put)
  then show ?case
    using Cons.IH [OF c(2)] Cons.prems(2) c dput_again [OF g] by (cases "append_at q t (Some e)") (auto simp: comp_def)
qed

section \<open>The path of an open container\<close>

text \<open>The slots innermost first; a container in no place, or inside one, has no path.\<close>

fun slot_path :: "slot option list \<Rightarrow> json_path option" where
  "slot_path [] = None"
| "slot_path (s # ss) =
     (case s of None \<Rightarrow> None | Some SRoot \<Rightarrow> (if ss = [] then Some [] else None) | Some x \<Rightarrow> map_option (\<lambda>q. q @ [x]) (slot_path ss))"

lemma slot_path_length: "slot_path ss = Some q \<Longrightarrow> length ss = Suc (length q)"
  by (induction ss arbitrary: q) (auto split: option.splits slot.splits if_splits)

lemma slot_path_slot: "x \<noteq> SRoot \<Longrightarrow> slot_path (Some x # ss) = map_option (\<lambda>q. q @ [x]) (slot_path ss)"
  by (cases x) simp_all

definition held :: "slot option \<Rightarrow> doc_frame list \<Rightarrow> bool" where
  "held s gs \<longleftrightarrow> (\<exists>x g fs. s = Some x \<and> gs = g # fs \<and> dget x (df_content g) \<noteq> None)"

fun chained :: "doc_frame list \<Rightarrow> bool" where
  "chained [] = True"
| "chained (g # gs) = ((slot_path (map df_slot (g # gs)) \<noteq> None \<longrightarrow> gs = [] \<or> held (df_slot g) gs) \<and> chained gs)"

text \<open>What stands at the path, and what setting it gives, in the document with the open containers in their places.\<close>

lemma plug_at:
  "slot_path (s # map df_slot gs) = Some q \<Longrightarrow> gs = [] \<or> held s gs \<Longrightarrow> chained gs \<Longrightarrow>
     get_at q (plug e s gs root) = Some e \<and> set_at q d (plug e s gs root) = plug d s gs root \<and> plug d s gs root \<noteq> None"
proof (induction gs arbitrary: s q e d)
  case Nil
  then show ?case
    by (auto split: option.splits slot.splits)
next
  case (Cons g gs)
  then obtain x where x: "s = Some x" "x \<noteq> SRoot" "dget x (df_content g) \<noteq> None"
    by (auto simp: held_def split: option.splits slot.splits)
  then obtain q' where q: "slot_path (df_slot g # map df_slot gs) = Some q'" "q = q' @ [x]"
    using Cons.prems(1) slot_path_slot [OF x(2)] by auto
  have IH: "get_at q' (plug e' (df_slot g) gs root) = Some e' \<and> set_at q' d' (plug e' (df_slot g) gs root) = plug d' (df_slot g) gs root \<and>
      plug d' (df_slot g) gs root \<noteq> None" for e' d'
    by (rule Cons.IH [OF q(1)]) (use Cons.prems(3) q(1) in auto)
  have h: "dget x (dput x e (df_content g)) \<noteq> None" for e
    using x(3) by (rule held_put)
  have "get_at q (plug e s (g # gs) root) = Some e"
    using IH [of "dput x e (df_content g)"] dget_put [OF h] x(1) q(2) by (simp add: get_at_snoc)
  moreover have "set_at q d (plug e s (g # gs) root) = plug d s (g # gs) root"
    using IH [of "dput x e (df_content g)" "dput x d (df_content g)"] dput_again [OF h] x(1) q(2) set_at_snoc [of q' _ "dput x e (df_content g)" x d] by simp
  ultimately show ?case
    using IH x(1) by simp
qed

lemma plug_unseen:
  "slot_path (s # map df_slot gs) = None \<Longrightarrow> plug d s gs root = plug e s gs root"
proof (induction gs arbitrary: s d e)
  case Nil
  then show ?case
    by (auto split: option.splits slot.splits)
next
  case (Cons g gs)
  show ?case
  proof (cases "s = None \<or> s = Some SRoot")
    case True
    then show ?thesis
      by auto
  next
    case False
    then obtain x where x: "s = Some x" "x \<noteq> SRoot"
      by auto
    then have "slot_path (df_slot g # map df_slot gs) = None"
      using Cons.prems slot_path_slot [OF x(2)] by simp
    then show ?thesis
      using Cons.IH [of "df_slot g"] x(1) by simp
  qed
qed

section \<open>What a placed value changes\<close>

definition value_path :: "slot option \<Rightarrow> doc_frame list \<Rightarrow> json_path option" where
  "value_path s gs = (if length gs \<le> max_reported_depth then slot_path (s # map df_slot gs) else None)"

text \<open>The slot holds the text.\<close>

definition text_at :: "slot option \<Rightarrow> jsstr \<Rightarrow> reader \<Rightarrow> bool" where
  "text_at s u r \<longleftrightarrow>
     (case s of None \<Rightarrow> True | Some SRoot \<Rightarrow> rd_stack r = [] \<and> rd_root r = Some (DStr u)
      | Some x \<Rightarrow> rd_stack r = [] \<or> (\<exists>g gs. rd_stack r = g # gs \<and> dget x (df_content g) = Some (DStr u)))"

lemma reported_shallow:
  "length (g # gs) \<le> max_reported_depth \<Longrightarrow> rd_stack r = g # gs \<Longrightarrow> reported r = plug (df_content g) (df_slot g) gs (rd_root r)"
  by (simp add: reported_def view_def)

lemma reported_deep:
  "max_reported_depth < length (g # gs) \<Longrightarrow> rd_stack r = g # gs \<Longrightarrow>
     reported r = view (drop (length gs - max_reported_depth) gs) (rd_root r)"
  by (simp add: reported_def Suc_diff_le)

lemma rplace_in: "x \<noteq> SRoot \<Longrightarrow> rd_stack r = g # gs \<Longrightarrow>
    rplace (Some x) d r = r\<lparr>rd_stack := g\<lparr>df_content := dput x d (df_content g)\<rparr> # gs\<rparr>"
  by (cases x) (simp_all add: rplace_def)

lemma path_in_top:
  assumes "value_path (Some x) (g # gs) = Some q" and "x \<noteq> SRoot"
  obtains q' where "slot_path (df_slot g # map df_slot gs) = Some q'" and "q = q' @ [x]" and "length (g # gs) \<le> max_reported_depth"
  using assms slot_path_slot [OF assms(2), of "df_slot g # map df_slot gs"] by (auto simp: value_path_def split: if_splits)

lemma reported_set:
  assumes "chained (rd_stack r)" and "value_path s (rd_stack r) = Some q"
  shows "set_at q d (reported r) = reported (rplace s d r) \<and> reported (rplace s d r) \<noteq> None"
proof (cases "rd_stack r")
  case Nil
  then have "s = Some SRoot" "q = []"
    using assms(2) by (auto simp: value_path_def split: option.splits slot.splits)
  then show ?thesis
    using Nil by (simp add: reported_def rplace_def view_def)
next
  case (Cons g gs)
  then obtain x where x: "s = Some x" "x \<noteq> SRoot"
    using assms(2) by (auto simp: value_path_def split: option.splits slot.splits if_splits)
  obtain q' where q: "slot_path (df_slot g # map df_slot gs) = Some q'" "q = q' @ [x]" "length (g # gs) \<le> max_reported_depth"
    using path_in_top assms(2) x Cons by metis
  have p: "get_at q' (plug e (df_slot g) gs (rd_root r)) = Some e \<and> set_at q' d' (plug e (df_slot g) gs (rd_root r)) = plug d' (df_slot g) gs (rd_root r) \<and>
      plug d' (df_slot g) gs (rd_root r) \<noteq> None" for e d'
    by (rule plug_at [OF q(1)]) (use assms(1) Cons q(1) in auto)
  have "reported (rplace s d r) = plug (dput x d (df_content g)) (df_slot g) gs (rd_root r)"
    using rplace_in [OF x(2) Cons, of d] x(1) q(3) by (simp add: reported_def view_def)
  moreover have "set_at q d (reported r) = set_at q' (dput x d (df_content g)) (reported r)"
    unfolding q(2) reported_shallow [OF q(3) Cons] by (rule set_at_snoc) (use p in blast)
  ultimately show ?thesis
    using p reported_shallow [OF q(3) Cons] by simp
qed

lemma reported_same:
  assumes "value_path s (rd_stack r) = None" and "s = Some SRoot \<Longrightarrow> rd_stack r = []"
  shows "reported (rplace s d r) = reported r"
proof (cases "s = None \<or> rd_stack r = []")
  case True
  then show ?thesis
    using assms(1) by (auto simp: rplace_def value_path_def split: option.splits slot.splits)
next
  case False
  then obtain x g gs where x: "s = Some x" "rd_stack r = g # gs" "x \<noteq> SRoot"
    using assms(2) by (cases "rd_stack r") auto
  show ?thesis
  proof (cases "length (g # gs) \<le> max_reported_depth")
    case True
    then have "slot_path (df_slot g # map df_slot gs) = None"
      using assms(1) x slot_path_slot [OF x(3)] by (simp add: value_path_def)
    then have "plug (dput x d (df_content g)) (df_slot g) gs (rd_root r) = plug (df_content g) (df_slot g) gs (rd_root r)"
      by (rule plug_unseen)
    then show ?thesis
      using rplace_in [OF x(3,2), of d] x(1) True reported_shallow [OF True x(2)] by (simp add: reported_def view_def)
  next
    case deep: False
    then show ?thesis
      using rplace_in [OF x(3,2), of d] x(1) reported_deep [of g gs r] x(2) by (simp add: reported_def Suc_diff_le)
  qed
qed

lemma reported_text:
  assumes "chained (rd_stack r)" and "value_path s (rd_stack r) = Some q" and "text_at s u r"
  shows "append_at q t (reported r) = reported (rplace s (DStr (u @ t)) r)"
proof -
  have "get_at q (reported r) = Some (DStr u)"
  proof (cases "rd_stack r")
    case Nil
    then have "s = Some SRoot" "q = []"
      using assms(2) by (auto simp: value_path_def split: option.splits slot.splits)
    then show ?thesis
      using Nil assms(3) by (simp add: reported_def text_at_def view_def)
  next
    case (Cons g gs)
    then obtain x where x: "s = Some x" "x \<noteq> SRoot"
      using assms(2) by (auto simp: value_path_def split: option.splits slot.splits if_splits)
    obtain q' where q: "slot_path (df_slot g # map df_slot gs) = Some q'" "q = q' @ [x]" "length (g # gs) \<le> max_reported_depth"
      using path_in_top assms(2) x Cons by metis
    have "get_at q' (reported r) = Some (df_content g)"
      unfolding reported_shallow [OF q(3) Cons]
      by (rule plug_at [OF q(1), THEN conjunct1]) (use assms(1) Cons q(1) in auto)
    moreover have "dget x (df_content g) = Some (DStr u)"
      using assms(3) x Cons by (cases x) (auto simp: text_at_def)
    ultimately show ?thesis
      using q(2) by (simp add: get_at_snoc)
  qed
  then show ?thesis
    using append_at_string reported_set [OF assms(1,2)] by metis
qed

section \<open>The paths the parser keeps\<close>

fun frames_ok :: "frame list \<Rightarrow> bool" where
  "frames_ok [] = True"
| "frames_ok (f # fs) =
     (fr_path f = (if length fs \<le> max_reported_depth then slot_path (map fr_slot (f # fs)) else None) \<and>
      fr_reports f = (fr_path f \<noteq> None \<and> length fs < max_reported_depth) \<and> frames_ok fs)"

lemma hole_held: "hole_rel P h (Some (a, Some s)) c d \<Longrightarrow> s \<noteq> SRoot \<and> dget s d \<noteq> None"
proof -
  assume "hole_rel P h (Some (a, Some s)) c d"
  then obtain c0 d0 e where c: "cell_rel P h c0 d0" "is_new s c0 \<or> has_slot s c0" "d = dput s e d0"
    by (auto simp: hole_rel_def)
  then show ?thesis
    by (cases s; cases c0; cases d0) (auto simp: map_of_al_put nth_append list_all2_lengthD)
qed

lemma stack_chained:
  "stack_rel P h child fs gs root droot \<Longrightarrow>
     map fr_slot fs = map df_slot gs \<and> chained gs \<and> (\<forall>a s. child = Some (a, Some s) \<longrightarrow> gs = [] \<or> s \<noteq> SRoot \<and> held (Some s) gs)"
proof (induction P h child fs gs root droot rule: stack_rel.induct)
  case (2 P h child f fs g gs root droot)
  then have "hole_rel P h child (h ! fr_container f) (df_content g)" "fr_slot f = df_slot g"
    by auto
  moreover have "df_slot g = None \<Longrightarrow> slot_path (map df_slot (g # gs)) = None"
    by simp
  ultimately show ?case
    using 2 hole_held [of P h _ _ "h ! fr_container f" "df_content g"] by (cases "df_slot g") (auto simp: held_def)
qed auto

lemma reads_chained:
  assumes "reads p r"
  shows "map fr_slot (sp_stack p) = map df_slot (rd_stack r)" "chained (rd_stack r)" "length (sp_stack p) = length (rd_stack r)"
proof -
  show m: "map fr_slot (sp_stack p) = map df_slot (rd_stack r)" "chained (rd_stack r)"
    using assms stack_chained unfolding reads_def by blast+
  show "length (sp_stack p) = length (rd_stack r)"
    using map_eq_imp_length_eq [OF m(1)] .
qed

lemma reported_value_path:
  assumes "reads p r" and "frames_ok (sp_stack p)" and "s = Some SRoot \<Longrightarrow> sp_stack p = []"
  shows "reported_path s p = value_path s (rd_stack r)"
proof (cases "s = None \<or> s = Some SRoot \<or> sp_stack p = []")
  case True
  then show ?thesis
    using assms reads_stack [OF assms(1)] by (auto simp: reported_path_def value_path_def split: option.split slot.split)
next
  case False
  then obtain x f fs where x: "s = Some x" "x \<noteq> SRoot" "sp_stack p = f # fs"
    by (cases "sp_stack p") auto
  have "slot_path (s # map df_slot (rd_stack r)) = map_option (\<lambda>q. q @ [x]) (slot_path (map fr_slot (f # fs)))"
    using reads_chained(1) [OF assms(1)] x slot_path_slot [OF x(2)] by simp
  then show ?thesis
    using x assms(2) reads_chained(3) [OF assms(1)]
    by (cases x) (auto simp: reported_path_def value_path_def)
qed

lemma frames_ok_same: "map (\<lambda>f. (fr_slot f, fr_path f, fr_reports f)) fs = map (\<lambda>f. (fr_slot f, fr_path f, fr_reports f)) gs \<Longrightarrow> frames_ok fs = frames_ok gs"
proof (induction fs arbitrary: gs)
  case (Cons f fs)
  then obtain g gs' where g: "gs = g # gs'" "fr_slot f = fr_slot g" "fr_path f = fr_path g" "fr_reports f = fr_reports g"
      "map (\<lambda>f. (fr_slot f, fr_path f, fr_reports f)) fs = map (\<lambda>f. (fr_slot f, fr_path f, fr_reports f)) gs'"
    by (cases gs) auto
  have "map fr_slot fs = map fr_slot gs'"
    using arg_cong [OF g(5), of "map fst"] by (simp add: comp_def)
  then show ?case
    using g Cons.IH [OF g(5)] map_eq_imp_length_eq [OF g(5)] by simp
qed simp

lemma reported_path_stack: "sp_stack p = sp_stack q \<Longrightarrow> reported_path s p = reported_path s q"
  by (simp only: reported_path_def)

lemma frames_ok_place [simp]: "frames_ok (sp_stack (place s v p)) = frames_ok (sp_stack p)"
  by (rule frames_ok_same) (simp add: place_def Let_def split: option.split slot.split list.split)

lemma reported_path_place [simp]: "reported_path s (place t v p) = reported_path s p"
  by (simp add: reported_path_def place_def Let_def split: option.split slot.split list.split)

section \<open>Replaying\<close>

definition applies :: "nat set \<Rightarrow> store \<Rightarrow> change \<Rightarrow> doc option \<Rightarrow> doc option \<Rightarrow> bool" where
  "applies P h ch m r \<longleftrightarrow> r \<noteq> None \<and>
     (case ch of ChSet q v \<Rightarrow> \<exists>d. denotes P h v d \<and> r = set_at q d m | ChAppend q t \<Rightarrow> r = append_at q t m)"

fun replays :: "nat set \<Rightarrow> store \<Rightarrow> change list \<Rightarrow> doc option \<Rightarrow> doc option \<Rightarrow> bool" where
  "replays P h [] m r = (m = r)"
| "replays P h (ch # cs) m r = (\<exists>m'. applies P h ch m m' \<and> replays P h cs m' r)"

lemma replays_append: "replays P h (cs @ cs') m r \<longleftrightarrow> (\<exists>m'. replays P h cs m m' \<and> replays P h cs' m' r)"
  by (induction cs arbitrary: m) auto

definition replaying :: "parser \<Rightarrow> doc option \<Rightarrow> doc option \<Rightarrow> bool" where
  "replaying p m r \<longleftrightarrow> replays (addresses (sp_stack p)) (sp_store p) (sp_changes p) m r"

lemma applies_keeps:
  assumes "keeps p q" and "applies (addresses (sp_stack p)) (sp_store p) ch m r"
  shows "applies (addresses (sp_stack q)) (sp_store q) ch m r"
proof (cases ch)
  case (ChSet x v)
  then show ?thesis
    using assms(2) keeps_denotes [OF assms(1), of v] by (simp add: applies_def) blast
next
  case (ChAppend x t)
  then show ?thesis
    using assms(2) by (auto simp: applies_def)
qed

lemma replays_keeps:
  assumes "keeps p q"
  shows "replays (addresses (sp_stack p)) (sp_store p) cs m r \<Longrightarrow> replays (addresses (sp_stack q)) (sp_store q) cs m r"
proof (induction cs arbitrary: m)
  case (Cons ch cs)
  then show ?case
    using applies_keeps [OF assms] by (simp only: replays.simps) blast
qed simp

lemma replaying_keeps: "keeps p q \<Longrightarrow> sp_changes q = sp_changes p \<Longrightarrow> replaying p m r \<Longrightarrow> replaying q m r"
  unfolding replaying_def using replays_keeps by metis

lemma place_changes [simp]: "sp_changes (place s v p) = sp_changes p"
  by (simp add: place_def Let_def split: option.split slot.split list.split)

text \<open>A value placed, and reported where its slot has a path.\<close>

lemma replaying_set:
  assumes "reads p r" and "frames_ok (sp_stack p)" and "s = Some SRoot \<Longrightarrow> sp_stack p = []"
    and "denotes (addresses (sp_stack p)) (sp_store p) v d" and "replaying p m (reported r)"
  shows "replaying (report_set (reported_path s p) v (place s v p)) m (reported (rplace s d r))"
proof -
  have path: "reported_path s p = value_path s (rd_stack r)"
    using reported_value_path assms(1,2,3) .
  have k: "replaying (place s v p) m (reported r)"
    using replaying_keeps [OF keeps_place _ assms(5)] by simp
  show ?thesis
  proof (cases "value_path s (rd_stack r)")
    case None
    then show ?thesis
      using k path reported_same [OF None, of d] assms(3) reads_stack [OF assms(1)] by (simp add: report_set_def)
  next
    case (Some q)
    have "applies (addresses (sp_stack (place s v p))) (sp_store (place s v p)) (ChSet q v) (reported r) (reported (rplace s d r))"
      using reported_set [OF reads_chained(2) [OF assms(1)] Some, of d] keeps_denotes [OF keeps_place assms(4)]
      unfolding applies_def change.case by metis
    then show ?thesis
      using k path Some by (auto simp: report_set_def report_def replaying_def replays_append)
  qed
qed

section \<open>Following the reader\<close>

definition string_reported :: "parser \<Rightarrow> reader \<Rightarrow> bool" where
  "string_reported p r \<longleftrightarrow>
     (\<forall>os. sp_string p = Some os \<longrightarrow> \<not> os_is_key os \<longrightarrow>
        (os_slot os = Some SRoot \<longrightarrow> sp_stack p = []) \<and> os_path os = reported_path (os_slot os) p \<and> text_at (os_slot os) (os_text os) r \<and>
        (\<forall>k. os_change os = Some k \<longrightarrow> k + 1 = length (sp_changes p) \<longrightarrow>
           (\<exists>t. last (sp_changes p) = ChSet (the (os_path os)) (VStr t) \<or> last (sp_changes p) = ChAppend (the (os_path os)) t)))"

definition follows :: "doc option \<Rightarrow> parser \<Rightarrow> reader \<Rightarrow> bool" where
  "follows m p r \<longleftrightarrow>
     reads p r \<and> slot_ok p \<and> frames_ok (sp_stack p) \<and> string_reported p r \<and> replaying p m (reported r)"

lemma plug_frames:
  "map (\<lambda>g. (df_content g, df_slot g)) gs = map (\<lambda>g. (df_content g, df_slot g)) fs \<Longrightarrow> plug d s gs root = plug d s fs root"
proof (induction gs arbitrary: fs d s)
  case (Cons g gs)
  then obtain f fs' where f: "fs = f # fs'" "df_content g = df_content f" "df_slot g = df_slot f"
      "map (\<lambda>g. (df_content g, df_slot g)) gs = map (\<lambda>g. (df_content g, df_slot g)) fs'"
    by (cases fs) auto
  show ?case
    unfolding f(1) plug.simps f(2,3) by (rule Cons.IH [OF f(4)])
qed simp

lemma reported_frames:
  assumes "map (\<lambda>g. (df_content g, df_slot g)) (rd_stack r) = map (\<lambda>g. (df_content g, df_slot g)) (rd_stack q)" and "rd_root r = rd_root q"
  shows "reported r = reported q"
proof -
  have v: "view gs root = view fs root"
    if m: "map (\<lambda>g. (df_content g, df_slot g)) gs = map (\<lambda>g. (df_content g, df_slot g)) fs" for gs fs root
  proof (cases gs)
    case (Cons g gs')
    then obtain f fs' where f: "fs = f # fs'" "df_content g = df_content f" "df_slot g = df_slot f"
        "map (\<lambda>g. (df_content g, df_slot g)) gs' = map (\<lambda>g. (df_content g, df_slot g)) fs'"
      using m by (cases fs) auto
    show ?thesis
      unfolding Cons f(1) view_def list.case f(2,3) by (rule plug_frames [OF f(4)])
  qed (use m in simp)
  have "length (rd_stack r) = length (rd_stack q)"
    using map_eq_imp_length_eq [OF assms(1)] .
  then show ?thesis
    unfolding reported_def assms(2) by (intro v) (simp only: drop_map [symmetric] assms(1))
qed

lemma reported_fields [simp]:
  "reported (r\<lparr>rd_string := x\<rparr>) = reported r" "reported (r\<lparr>rd_scalar := t\<rparr>) = reported r" "reported (r\<lparr>rd_scalar_slot := s\<rparr>) = reported r"
  "reported (r\<lparr>rd_done := b\<rparr>) = reported r"
  by (simp_all add: reported_def)

lemma reported_phase [simp]: "reported (rset_phase ph r) = reported r" "reported (rvalue_ended r) = reported r" "reported (rset_escape e r) = reported r"
proof -
  show p: "reported (rset_phase ph r) = reported r" for ph
    by (rule reported_frames) (simp_all add: rset_phase_def split: list.split)
  show "reported (rvalue_ended r) = reported r"
    using p by (simp add: rvalue_ended_def split: list.split)
  show "reported (rset_escape e r) = reported r"
    by (simp add: rset_escape_def)
qed

lemma replaying_fields [simp]:
  "replaying (p\<lparr>sp_string := x\<rparr>) m r = replaying p m r" "replaying (p\<lparr>sp_scalar := t\<rparr>) m r = replaying p m r"
  "replaying (p\<lparr>sp_scalar_slot := s\<rparr>) m r = replaying p m r" "replaying (p\<lparr>sp_done := b\<rparr>) m r = replaying p m r"
  "replaying (p\<lparr>sp_dirty := b\<rparr>) m r = replaying p m r" "replaying (p\<lparr>sp_path_cost := n\<rparr>) m r = replaying p m r"
  "replaying (p\<lparr>sp_credit := n\<rparr>) m r = replaying p m r"
  by (simp_all add: replaying_def)

lemma replaying_phase [simp]: "replaying (set_phase ph p) m r = replaying p m r" "replaying (value_ended p) m r = replaying p m r"
  by (simp_all add: value_ended_def set_phase_def replaying_def split: list.split)

lemma frames_ok_phase [simp]: "frames_ok (sp_stack (set_phase ph p)) = frames_ok (sp_stack p)" "frames_ok (sp_stack (value_ended p)) = frames_ok (sp_stack p)"
proof -
  show p: "frames_ok (sp_stack (set_phase ph p)) = frames_ok (sp_stack p)" for ph
    by (rule frames_ok_same) (simp add: set_phase_def split: list.split)
  show "frames_ok (sp_stack (value_ended p)) = frames_ok (sp_stack p)"
    using p by (simp add: value_ended_def split: list.split)
qed

lemma no_string_reported: "sp_string p = None \<Longrightarrow> string_reported p r"
  by (simp add: string_reported_def)

lemma kept_strings [simp]: "sp_string (set_phase ph p) = sp_string p" "sp_string (value_ended p) = sp_string p"
  "sp_string (report_set q v p) = sp_string p"
  by (simp_all add: value_ended_def set_phase_def report_set_def report_def split: list.split option.split)

lemma report_set_fields [simp]: "sp_stack (report_set q v p) = sp_stack p" "reported_path s (report_set q v p) = reported_path s p"
  by (simp_all add: report_set_def report_def reported_path_def split: option.split slot.split)

subsection \<open>Strings\<close>

lemma text_at_start:
  assumes "reads p r"
  shows "text_at (value_slot p) u (rplace (value_slot p) (DStr u) r)"
proof (cases "sp_stack p")
  case Nil
  then show ?thesis
    using reads_stack [OF assms] by (auto simp: text_at_def value_slot_def rplace_def)
next
  case (Cons f fs)
  then obtain g gs where g: "rd_stack r = g # gs" "cell_rel (addresses (f # fs)) (sp_store p) (cell_of p f) (df_content g)"
    using assms by (metis reads_top)
  then show ?thesis
    using Cons by (cases "cell_of p f"; cases "df_content g")
      (auto simp: text_at_def value_slot_def rplace_def map_of_al_put list_all2_lengthD split: if_splits option.split)
qed

lemma text_at_more:
  assumes "text_at s u r"
  shows "text_at s w (rplace s (DStr w) r)"
proof (cases "s = None \<or> s = Some SRoot \<or> rd_stack r = []")
  case True
  then show ?thesis
    using assms by (auto simp: text_at_def rplace_def split: option.split slot.split)
next
  case False
  then obtain x g gs where x: "s = Some x" "x \<noteq> SRoot" "rd_stack r = g # gs"
    by (cases "rd_stack r") auto
  then have "dget x (df_content g) \<noteq> None"
    using assms by (cases x) (auto simp: text_at_def)
  then have "dget x (dput x (DStr w) (df_content g)) = Some (DStr w)"
    using held_put dget_put by blast
  then show ?thesis
    using x rplace_in [OF x(2,3), of "DStr w"] by (cases x) (simp_all add: text_at_def)
qed

lemma text_at_string [simp]: "text_at s u (r\<lparr>rd_string := x\<rparr>) = text_at s u r"
  by (simp add: text_at_def split: option.split slot.split)

lemma follows_start_string:
  assumes "follows m p r" and "\<not> sp_done p" and "sp_string p = None"
  shows "follows m (start_string p) (rstart_string r)"
proof -
  have p: "reads p r" "slot_ok p" "frames_ok (sp_stack p)" "replaying p m (reported r)"
    using assms(1) by (simp_all add: follows_def)
  have r: "reads (start_string p) (rstart_string r)"
    by (rule reads_start_string [OF p(1) assms(2)])
  show ?thesis
  proof (cases "key_next p")
    case True
    then show ?thesis
      using r p reads_key_next [OF p(1)]
      by (simp add: follows_def slot_ok_def start_string_eq rstart_string_def string_reported_def)
  next
    case False
    let ?s = "value_slot p" and ?q = "place (value_slot p) (VStr []) p"
    have rs: "rstart_string r = (rplace ?s (DStr []) r)\<lparr>rd_string := Some \<lparr>ds_is_key = False, ds_slot = ?s, ds_text = [], ds_escape = []\<rparr>\<rparr>"
      using False reads_key_next [OF p(1)] reads_value_slot [OF p(1)] by (simp add: rstart_string_def)
    have rep: "replaying (report_set (reported_path ?s p) (VStr []) ?q) m (reported (rplace ?s (DStr []) r))"
      by (rule replaying_set [OF p(1,3) value_slot_root denotes_str p(4)])
    have set: "report_set a b (c\<lparr>sp_string := x\<rparr>) = (report_set a b c)\<lparr>sp_string := x\<rparr>" for a b c x
      by (simp add: report_set_def report_def split: option.split)
    have st: "sp_stack ?q = []" if "?s = Some SRoot"
      using value_slot_root [OF that] that by (simp add: place_def)
    have rp: "reported_path s (q\<lparr>sp_string := x\<rparr>) = reported_path s q" for s q x
      by (rule reported_path_stack) simp
    have ch: "sp_changes (report_set (reported_path ?s p) (VStr []) ?q) = sp_changes p @ (case reported_path ?s p of None \<Rightarrow> [] | Some q \<Rightarrow> [ChSet q (VStr [])])"
      by (simp add: report_set_def report_def split: option.split)
    have "string_reported (start_string p) (rstart_string r)"
      using False st text_at_start [OF p(1), of "[]"] ch
      by (auto simp: string_reported_def start_string_eq rs set rp)
    then show ?thesis
      using r p False rep by (simp add: follows_def slot_ok_def start_string_eq rs set)
  qed
qed

lemma applies_longer:
  assumes "applies P h ch m r" and "ch = ChSet q (VStr t) \<or> ch = ChAppend q t" and "append_at q u r = r'" and "r' \<noteq> None"
  shows "applies P h (extend_change u ch) m r'"
  using assms(2)
proof
  assume ch: "ch = ChSet q (VStr t)"
  obtain d where d: "denotes P h (VStr t) d" "r = set_at q d m"
    using assms(1) ch by (auto simp: applies_def)
  then have "d = DStr t"
    by (auto elim: denotes.cases)
  then have "set_at q (DStr (t @ u)) m = r'"
    using append_to_set [of q t m _ u] assms d(2) by (cases r) (auto simp: applies_def)
  then show ?thesis
    using ch assms(4) by (auto simp: applies_def intro!: exI [of _ "DStr (t @ u)"])
next
  assume ch: "ch = ChAppend q t"
  then obtain a where a: "append_at q t m = Some a" "r = Some a"
    using assms(1) by (auto simp: applies_def)
  then have "append_at q (t @ u) m = r'"
    using append_twice [OF a(1), of u] assms(3,4) by simp
  then show ?thesis
    using ch assms(4) by (auto simp: applies_def)
qed

text \<open>What the changes are after more of a string.\<close>

lemma append_string_value:
  assumes "sp_string p = Some os" and "\<not> os_is_key os"
  shows "append_string s p =
    (case os_path os of
       None \<Rightarrow> place (os_slot os) (VStr (os_text os @ s)) (p\<lparr>sp_string := Some (longer s os)\<rparr>)
     | Some q \<Rightarrow>
         if \<exists>k. os_change os = Some k \<and> k + 1 = length (sp_changes p)
         then (place (os_slot os) (VStr (os_text os @ s)) (p\<lparr>sp_string := Some (longer s os)\<rparr>))
           \<lparr>sp_changes := butlast (sp_changes p) @ [extend_change s (last (sp_changes p))]\<rparr>
         else (place (os_slot os) (VStr (os_text os @ s)) (p\<lparr>sp_string := Some (longer s os)\<rparr>))
           \<lparr>sp_string := Some ((longer s os)\<lparr>os_change := Some (length (sp_changes p))\<rparr>), sp_changes := sp_changes p @ [ChAppend q s]\<rparr>)"
  using assms by (cases "os_change os"; cases "os_path os") (simp_all add: append_string_def longer_def Let_def report_def)

lemma follows_append:
  assumes "follows m p r" and "sp_string p \<noteq> None"
  shows "follows m (append_string s p) (rappend s r)"
proof -
  have p: "reads p r" "slot_ok p" "frames_ok (sp_stack p)" "string_reported p r" "replaying p m (reported r)"
    using assms(1) by (simp_all add: follows_def)
  obtain os where os: "sp_string p = Some os"
    using assms(2) by blast
  obtain ds where ds: "rd_string r = Some ds" "string_rel os ds"
    using p(1) os by (auto simp: reads_def option_rel_Some1)
  have rd: "reads (append_string s p) (rappend s r)" "slot_ok (append_string s p)"
    using reading.appends [of p r s] p(1,2) assms(2) by blast+
  show ?thesis
  proof (cases "os_is_key os")
    case True
    then have "append_string s p = p\<lparr>sp_string := Some (longer s os)\<rparr>" "rappend s r = r\<lparr>rd_string := Some (ds\<lparr>ds_text := ds_text ds @ s\<rparr>)\<rparr>"
      using os ds by (simp_all add: append_string_def rappend_def longer_def string_rel_def)
    then show ?thesis
      using rd p True by (simp add: follows_def string_reported_def longer_def)
  next
    case False
    let ?s = "os_slot os" and ?t = "os_text os"
    let ?u = "place ?s (VStr (?t @ s)) (p\<lparr>sp_string := Some (longer s os)\<rparr>)"
    have w: "?s = Some SRoot \<longrightarrow> sp_stack p = []" "os_path os = reported_path ?s p" "text_at ?s ?t r"
      "\<And>k. os_change os = Some k \<Longrightarrow> k + 1 = length (sp_changes p) \<Longrightarrow>
         \<exists>t. last (sp_changes p) = ChSet (the (os_path os)) (VStr t) \<or> last (sp_changes p) = ChAppend (the (os_path os)) t"
      using p(4) os False by (auto simp: string_reported_def)
    have path: "os_path os = value_path ?s (rd_stack r)"
      using w(1,2) reported_value_path [OF p(1,3)] by simp
    have ra: "rappend s r = rplace ?s (DStr (?t @ s)) (r\<lparr>rd_string := Some (ds\<lparr>ds_text := ds_text ds @ s\<rparr>)\<rparr>)"
      using ds False by (simp add: rappend_def string_rel_def)
    have rra: "reported (rappend s r) = reported (rplace ?s (DStr (?t @ s)) r)"
      unfolding ra rplace_string by simp
    have ta: "text_at ?s (?t @ s) (rappend s r)"
      unfolding ra rplace_string using text_at_more [OF w(3)] by simp
    have k: "keeps p ?u"
      using keeps_place [of "p\<lparr>sp_string := Some (longer s os)\<rparr>"] by (simp add: keeps_def)
    have st: "sp_stack ?u = []" if "?s = Some SRoot"
      using that w(1) by (simp add: place_def)
    have fo: "frames_ok (sp_stack ?u)"
      using p(3) by simp
    have rp: "reported_path ?s ?u = os_path os"
      using w(2) reported_path_stack [of "p\<lparr>sp_string := Some (longer s os)\<rparr>" p] by simp
    have rep: "replays (addresses (sp_stack ?u)) (sp_store ?u) (sp_changes p) m (reported r)"
      using replays_keeps [OF k] p(5) by (simp add: replaying_def)
    show ?thesis
    proof (cases "os_path os")
      case None
      then have a: "append_string s p = ?u"
        using append_string_value [OF os False] by simp
      have "reported (rappend s r) = reported r"
        unfolding rra using reported_same [of ?s r] path None w(1) reads_stack [OF p(1)] by simp
      moreover have "string_reported ?u (rappend s r)"
        using st rp ta None False w(4) by (auto simp: string_reported_def longer_def)
      ultimately show ?thesis
        using rd fo rep unfolding a by (simp add: follows_def replaying_def)
    next
      case (Some q)
      have vp: "value_path ?s (rd_stack r) = Some q"
        using path Some by simp
      have ap: "append_at q s (reported r) = reported (rappend s r)" "reported (rappend s r) \<noteq> None"
        unfolding rra using reported_text [OF reads_chained(2) [OF p(1)] vp w(3)] reported_set [OF reads_chained(2) [OF p(1)] vp] by blast+
      show ?thesis
      proof (cases "\<exists>k. os_change os = Some k \<and> k + 1 = length (sp_changes p)")
        case True
        let ?ch = "last (sp_changes p)"
        have ne: "sp_changes p \<noteq> []"
          using True by auto
        then have snoc: "sp_changes p = butlast (sp_changes p) @ [?ch]"
          by simp
        obtain m' where m': "replays (addresses (sp_stack ?u)) (sp_store ?u) (butlast (sp_changes p)) m m'"
            "applies (addresses (sp_stack ?u)) (sp_store ?u) ?ch m' (reported r)"
          using rep snoc replays_append [of _ _ "butlast (sp_changes p)" "[?ch]"] by auto
        obtain t where t: "?ch = ChSet q (VStr t) \<or> ?ch = ChAppend q t"
          using w(4) True Some by fastforce
        have "applies (addresses (sp_stack ?u)) (sp_store ?u) (extend_change s ?ch) m' (reported (rappend s r))"
          by (rule applies_longer [OF m'(2) t ap])
        then have new: "replays (addresses (sp_stack ?u)) (sp_store ?u) (butlast (sp_changes p) @ [extend_change s ?ch]) m (reported (rappend s r))"
          using m'(1) by (auto simp: replays_append)
        have a: "append_string s p = ?u\<lparr>sp_changes := butlast (sp_changes p) @ [extend_change s ?ch]\<rparr>"
          using append_string_value [OF os False] Some True by simp
        have "\<exists>t. extend_change s ?ch = ChSet q (VStr t) \<or> extend_change s ?ch = ChAppend q t"
          using t by auto
        then have "string_reported (?u\<lparr>sp_changes := butlast (sp_changes p) @ [extend_change s ?ch]\<rparr>) (rappend s r)"
          using st rp ta Some False reported_path_stack [of "?u\<lparr>sp_changes := butlast (sp_changes p) @ [extend_change s ?ch]\<rparr>" ?u]
          by (auto simp: string_reported_def longer_def)
        then show ?thesis
          using rd fo new unfolding a by (simp add: follows_def replaying_def)
      next
        case other: False
        let ?v = "?u\<lparr>sp_string := Some ((longer s os)\<lparr>os_change := Some (length (sp_changes p))\<rparr>), sp_changes := sp_changes p @ [ChAppend q s]\<rparr>"
        have a: "append_string s p = ?v"
          using append_string_value [OF os False, of s] unfolding Some option.case if_not_P [OF other] .
        have new: "replays (addresses (sp_stack ?u)) (sp_store ?u) (sp_changes p @ [ChAppend q s]) m (reported (rappend s r))"
          using rep ap by (auto simp: replays_append applies_def)
        have "string_reported ?v (rappend s r)"
          using st rp ta Some False reported_path_stack [of ?v ?u] by (auto simp: string_reported_def longer_def)
        then show ?thesis
          using rd fo new unfolding a by (simp add: follows_def replaying_def)
      qed
    qed
  qed
qed

lemma follows_escape:
  assumes "follows m p r" and "sp_string p \<noteq> None"
  shows "follows m (set_escape e p) (rset_escape e r)"
proof -
  have "reads (set_escape e p) (rset_escape e r)" "slot_ok (set_escape e p)"
    using reading.escapes [of p r e] assms by (auto simp: follows_def)
  moreover have "text_at s u (rset_escape e r) = text_at s u r" for s u
    by (simp add: rset_escape_def)
  moreover have "reported_path s (set_escape e p) = reported_path s p" for s
    by (rule reported_path_stack) (simp add: set_escape_def)
  ultimately show ?thesis
    using assms(1) by (auto simp: follows_def string_reported_def set_escape_def)
qed

lemma follows_end_string:
  assumes "follows m p r" and "sp_string p \<noteq> None"
  shows "follows m (end_string p) (rend_string r)"
proof -
  have p: "reads p r" "frames_ok (sp_stack p)" "replaying p m (reported r)"
    using assms(1) by (simp_all add: follows_def)
  have "reads (end_string p) (rend_string r)" "slot_ok (end_string p)"
    using reading.ends [of p r] assms by (auto simp: follows_def)
  moreover have "frames_ok (sp_stack (end_string p))"
  proof -
    have "frames_ok (f\<lparr>fr_key := k, fr_phase := ph\<rparr> # fs) = frames_ok (f # fs)" for f fs k ph
      by (rule frames_ok_same) simp
    then show ?thesis
      using p(2) by (auto simp: end_string_def Let_def simp del: frames_ok.simps split: option.split list.split)
  qed
  moreover have "sp_string (end_string p) = None"
    using assms(2) by (auto simp: end_string_def Let_def split: list.split)
  then have "string_reported (end_string p) (rend_string r)"
    by (rule no_string_reported)
  moreover have "reported (rend_string r) = reported r"
  proof -
    have "reported (r\<lparr>rd_string := None, rd_stack := f\<lparr>df_key := k, df_phase := ph\<rparr> # fs\<rparr>) = reported r" if "rd_stack r = f # fs" for f fs k ph
      by (rule reported_frames) (simp_all add: that)
    then show ?thesis
      by (auto simp: rend_string_def Let_def split: option.split list.split)
  qed
  moreover have "replaying (end_string p) m (reported r)"
    using p(3) by (auto simp: end_string_def Let_def replaying_def value_ended_def set_phase_def split: option.split list.split)
  ultimately show ?thesis
    by (simp add: follows_def)
qed

subsection \<open>Scalars\<close>

lemma follows_extend:
  assumes "follows m p r" and "\<not> sp_done p" and "sp_string p = None" and "sp_scalar p \<noteq> []"
  shows "follows m (mark_dirty (p\<lparr>sp_scalar := sp_scalar p @ s\<rparr>)) (r\<lparr>rd_scalar := rd_scalar r @ s\<rparr>)"
  using assms reading.extends [of p r s] by (simp add: follows_def mark_dirty_def string_reported_def)

lemma follows_end_scalar:
  assumes "follows m p r" and "\<not> sp_done p" and "sp_string p = None" and "sp_scalar p \<noteq> []"
  shows "follows m (end_scalar p) (rend_scalar r)"
proof -
  have p: "reads p r" "slot_ok p" "frames_ok (sp_stack p)" "replaying p m (reported r)"
    using assms(1) by (simp_all add: follows_def)
  let ?s = "sp_scalar_slot p" and ?q = "p\<lparr>sp_scalar := [], sp_scalar_slot := None\<rparr>" and ?t = "r\<lparr>rd_scalar := [], rd_scalar_slot := None\<rparr>"
  have rd: "reads (end_scalar p) (rend_scalar r)" "slot_ok (end_scalar p)"
    using reading.ends_scalar [of p r] p assms(2-4) by blast+
  have q: "reads ?q ?t" "frames_ok (sp_stack ?q)" "replaying ?q m (reported ?t)" "?s = Some SRoot \<Longrightarrow> sp_stack ?q = []"
    using p assms(3) by (simp_all add: reads_def string_ok_def)
  have e: "rd_scalar r = sp_scalar p" "rd_scalar_slot r = ?s"
    using p(1) by (simp_all add: reads_def)
  have rep: "replaying (report_set (reported_path ?s (place ?s v ?q)) v (place ?s v ?q)) m (reported (rplace ?s (doc_of v) ?t))"
    if "scalar_value (sp_scalar p) = Some v" for v
    using replaying_set [OF q(1,2,4) scalar_denotes [OF that] q(3)] by simp
  have "frames_ok (sp_stack (end_scalar p))" "replaying (end_scalar p) m (reported (rend_scalar r))"
    using p(3) q(3) rep by (simp_all add: end_scalar_def rend_scalar_def e Let_def split: option.split)
  moreover have "sp_string (end_scalar p) = None"
    using assms(3) by (simp add: end_scalar_def Let_def split: option.split)
  ultimately show ?thesis
    using rd no_string_reported by (simp add: follows_def)
qed

subsection \<open>Containers\<close>

text \<open>A new container, empty, shows as the empty one placed in its slot.\<close>

lemma reported_push:
  assumes "rvalue_slot r = s"
  shows "reported ((rplace s d r)\<lparr>rd_stack := \<lparr>df_content = d, df_slot = s, df_key = k, df_phase = ph\<rparr> # rd_stack (rplace s d r)\<rparr>) =
    reported (rplace s d r)"
proof (cases "rd_stack r")
  case Nil
  then have "s = Some SRoot \<or> s = None"
    using assms by (auto simp: rvalue_slot_def split: if_splits)
  then show ?thesis
    using Nil by (auto simp: reported_def rplace_def view_def max_reported_depth_def)
next
  case (Cons g gs)
  show ?thesis
  proof (cases s)
    case None
    then show ?thesis
      using Cons by (cases "length (g # gs) < max_reported_depth") (auto simp: reported_def rplace_def view_def Suc_diff_le not_less)
  next
    case (Some x)
    then have x: "x \<noteq> SRoot"
      using assms Cons by (auto simp: rvalue_slot_def split: doc.splits if_splits)
    let ?g = "g\<lparr>df_content := dput x d (df_content g)\<rparr>"
    have u: "rplace s d r = r\<lparr>rd_stack := ?g # gs\<rparr>"
      using rplace_in [OF x Cons] Some by simp
    have "rplace s d (rplace s d r) = rplace s d r"
      using slot_again [of r x d d] assms Some by simp
    then have "rplace (Some x) d (r\<lparr>rd_stack := ?g # gs\<rparr>) = r\<lparr>rd_stack := ?g # gs\<rparr>"
      using u Some by simp
    then have "r\<lparr>rd_stack := ?g\<lparr>df_content := dput x d (dput x d (df_content g))\<rparr> # gs\<rparr> = r\<lparr>rd_stack := ?g # gs\<rparr>"
      using rplace_in [OF x, of "r\<lparr>rd_stack := ?g # gs\<rparr>" ?g gs d] by simp
    from arg_cong [OF this, of "\<lambda>r. df_content (hd (rd_stack r))"]
    have again: "dput x d (dput x d (df_content g)) = dput x d (df_content g)"
      by simp
    show ?thesis
    proof (cases "length (g # gs) < max_reported_depth")
      case True
      then show ?thesis
        unfolding u using Some again by (simp add: reported_def view_def)
    next
      case False
      then show ?thesis
        unfolding u by (simp add: reported_def Suc_diff_le not_less)
    qed
  qed
qed

lemma frames_ok_push:
  assumes "frames_ok fs" and path: "path = (if length fs \<le> max_reported_depth then slot_path (s # map fr_slot fs) else None)"
    and "fr_slot f = s" and "fr_path f = path" and "fr_reports f = (case path of None \<Rightarrow> False | Some q \<Rightarrow> length q < max_reported_depth)"
  shows "frames_ok (f # fs)"
proof (cases path)
  case (Some q)
  then have a: "slot_path (s # map fr_slot fs) = Some q" "length fs \<le> max_reported_depth"
    using path by (simp_all del: slot_path.simps split: if_splits)
  then have "length q = length fs"
    using slot_path_length by fastforce
  then show ?thesis
    unfolding frames_ok.simps list.map assms(3) by (simp add: a assms(1,4,5) Some del: slot_path.simps)
qed (use assms in \<open>auto simp del: slot_path.simps split: if_splits\<close>)

lemma follows_open:
  assumes "follows m p r" and "sp_string p = None" and "sp_scalar_slot p = None"
    and c: "c = CArr [] \<and> d = DArr [] \<or> c = CObj [] \<and> d = DObj []"
  shows "follows m (open_container c p) (ropen d r)"
proof -
  have p: "reads p r" "slot_ok p" "frames_ok (sp_stack p)" "replaying p m (reported r)"
    using assms(1) by (simp_all add: follows_def)
  let ?s = "value_slot p" and ?q = "p\<lparr>sp_store := sp_store p @ [c]\<rparr>"
  let ?path = "reported_path ?s p"
  let ?u = "place ?s (VRef (length (sp_store p))) ?q"
  let ?f = "\<lparr>fr_container = length (sp_store p), fr_slot = ?s, fr_path = ?path,
      fr_reports = (case ?path of None \<Rightarrow> False | Some q \<Rightarrow> length q < max_reported_depth),
      fr_size = 0, fr_key = None, fr_phase = (if is_arr c then AtValue else AtKey)\<rparr>"
  let ?v = "?u\<lparr>sp_stack := ?f # sp_stack ?u, sp_path_cost := sp_path_cost ?u + 1, sp_dirty := True\<rparr>"
  have rpq: "reported_path ?s ?q = ?path"
    by (rule reported_path_stack) simp
  have o: "open_container c p = (case ?path of None \<Rightarrow> ?v
      | Some q \<Rightarrow> report (ChSet q (VRef (length (sp_store ?v)))) (?v\<lparr>sp_store := sp_store ?v @ [empty_like c]\<rparr>))"
    unfolding open_container_def Let_def value_slot_alloc [OF p(1)] rpq by simp
  have rd: "reads (open_container c p) (ropen d r)"
    by (rule reads_open [OF p(1) assms(2,3) c])
  have slot: "slot_ok (open_container c p)"
    using p(2) by (simp add: slot_ok_def)
  have vs: "rvalue_slot r = ?s"
    by (rule reads_value_slot [OF p(1)])
  have rep: "reported (ropen d r) = reported (rplace ?s d r)"
    using reported_push [OF vs] vs by (simp add: ropen_def Let_def)
  have path: "?path = value_path ?s (rd_stack r)"
    using reported_value_path [OF p(1,3) value_slot_root] .
  have len: "length (sp_store ?u) = Suc (length (sp_store p))"
    by (simp add: place_def Let_def split: option.split slot.split list.split)
  have stu: "map (\<lambda>f. (fr_slot f, fr_path f, fr_reports f)) (sp_stack ?u) = map (\<lambda>f. (fr_slot f, fr_path f, fr_reports f)) (sp_stack p)"
    by (simp add: place_def Let_def split: option.split slot.split list.split)
  have slots: "map fr_slot (sp_stack ?u) = map fr_slot (sp_stack p)" "length (sp_stack ?u) = length (sp_stack p)"
    by (simp_all add: place_def Let_def split: option.split slot.split list.split)
  have "?path = (if length (sp_stack p) \<le> max_reported_depth then slot_path (?s # map fr_slot (sp_stack p)) else None)"
    using path reads_chained [OF p(1)] by (simp add: value_path_def)
  then have fok: "frames_ok (?f # sp_stack ?u)"
    using slots frames_ok_same [OF stu] p(3) by (intro frames_ok_push) (simp_all del: slot_path.simps)
  have none: "sp_string (open_container c p) = None"
    using assms(2) unfolding o by (simp add: report_def split: option.split)
  have k: "keeps p (open_container c p)"
    by (rule keeps_open)
  show ?thesis
  proof (cases ?path)
    case None
    then have "sp_changes (open_container c p) = sp_changes p" and stack: "sp_stack (open_container c p) = ?f # sp_stack ?u"
      unfolding o by simp_all
    moreover have "reported (ropen d r) = reported r"
      unfolding rep using reported_same [of ?s r d] path None value_slot_root [of p] reads_stack [OF p(1)] by simp
    ultimately have "replaying (open_container c p) m (reported (ropen d r))"
      using replaying_keeps [OF k _ p(4)] by simp
    moreover have "frames_ok (sp_stack (open_container c p))"
      unfolding stack by (rule fok)
    ultimately show ?thesis
      using rd slot no_string_reported [OF none] unfolding follows_def by blast
  next
    case (Some q)
    let ?a = "length (sp_store ?v)" and ?w = "?v\<lparr>sp_store := sp_store ?v @ [empty_like c]\<rparr>"
    have w: "open_container c p = report (ChSet q (VRef ?a)) ?w"
      unfolding o Some by simp
    have "reads ?w (ropen d r)"
      using rd unfolding w by simp
    then have "\<forall>b \<in> addresses (sp_stack p). b < length (sp_store p)"
      using p(1) stack_addresses unfolding reads_def by blast
    moreover have "addresses (sp_stack ?u) = addresses (sp_stack p)"
      by (simp add: place_def Let_def split: option.split slot.split list.split)
    ultimately have "?a \<notin> addresses (?f # sp_stack ?u)"
      using len by fastforce
    then have den: "denotes (addresses (sp_stack ?w)) (sp_store ?w) (VRef ?a) d"
      using c by (auto simp: denotes_ref empty_like_def nth_append)
    have "replays (addresses (sp_stack ?w)) (sp_store ?w) (sp_changes p) m (reported r)"
      using replays_keeps [OF k] p(4) unfolding w replaying_def report_def by simp
    moreover have "applies (addresses (sp_stack ?w)) (sp_store ?w) (ChSet q (VRef ?a)) (reported r) (reported (ropen d r))"
      using reported_set [OF reads_chained(2) [OF p(1)], of ?s q d] path Some den unfolding rep applies_def change.case by metis
    ultimately have "replaying (open_container c p) m (reported (ropen d r))"
      unfolding w by (auto simp: replaying_def report_def replays_append)
    moreover have stack: "sp_stack (open_container c p) = ?f # sp_stack ?u"
      unfolding w by (simp add: report_def)
    moreover have "frames_ok (sp_stack (open_container c p))"
      unfolding stack by (rule fok)
    ultimately show ?thesis
      using rd slot no_string_reported [OF none] unfolding follows_def by blast
  qed
qed

text \<open>Taking a closed container from its frame to its slot.\<close>

lemma reported_pop:
  assumes "rd_stack r = g # gs" and "df_slot g = Some SRoot \<Longrightarrow> gs = []"
  shows "length gs < max_reported_depth \<Longrightarrow> reported (rplace (df_slot g) (df_content g) (r\<lparr>rd_stack := gs\<rparr>)) = reported r"
    and "max_reported_depth \<le> length gs \<Longrightarrow> reported (r\<lparr>rd_stack := gs\<rparr>) = reported r"
proof -
  show "reported (r\<lparr>rd_stack := gs\<rparr>) = reported r" if "max_reported_depth \<le> length gs"
    using that assms(1) by (simp add: reported_def Suc_diff_le)
  assume l: "length gs < max_reported_depth"
  then have v: "reported r = plug (df_content g) (df_slot g) gs (rd_root r)"
    using assms(1) by (simp add: reported_def view_def)
  show "reported (rplace (df_slot g) (df_content g) (r\<lparr>rd_stack := gs\<rparr>)) = reported r"
  proof (cases gs)
    case Nil
    then show ?thesis
      unfolding v by (auto simp: reported_def rplace_def view_def split: option.split slot.split)
  next
    case (Cons h hs)
    then have l': "length (h # hs) \<le> max_reported_depth"
      using l by simp
    show ?thesis
    proof (cases "df_slot g")
      case None
      then show ?thesis
        unfolding v using Cons l' by (simp add: reported_def rplace_def view_def)
    next
      case (Some x)
      then have "x \<noteq> SRoot"
        using assms(2) Cons by auto
      then show ?thesis
        unfolding v using Cons l' Some by (simp add: rplace_in reported_def view_def)
    qed
  qed
qed

lemma follows_close:
  assumes "follows m p r" and "sp_string p = None" and "sp_scalar_slot p = None"
  shows "follows m (close_container p) (rclose r)"
proof (cases "sp_stack p")
  case Nil
  then show ?thesis
    using assms(1) reads_stack [of p r] by (simp add: close_container_def rclose_def follows_def)
next
  case (Cons f fs)
  have p: "reads p r" "slot_ok p" "frames_ok (sp_stack p)" "replaying p m (reported r)"
    using assms(1) by (simp_all add: follows_def)
  obtain g gs where g: "rd_stack r = g # gs" "fr_slot f = df_slot g"
    using p(1) Cons by (metis reads_top)
  let ?q = "p\<lparr>sp_stack := fs\<rparr>" and ?t = "r\<lparr>rd_stack := gs\<rparr>"
  let ?r = "rplace (df_slot g) (df_content g) ?t"
  have rd: "reads (close_container p) (rclose r)" "slot_ok (close_container p)"
    using reads_close [OF p(1) assms(2,3)] p(2) by (simp_all add: slot_ok_def)
  have rel: "stack_rel (addresses (f # fs)) (sp_store p) (Some (fr_container f, df_slot g)) fs gs (sp_root p) (rd_root r)"
    "fr_container f < length (sp_store p)" "fr_container f \<notin> addresses fs"
    "cell_rel (addresses (f # fs)) (sp_store p) (sp_store p ! fr_container f) (df_content g)"
    using p(1) Cons g by (auto simp: reads_def hole_rel_def)
  have ch: "chained gs" "df_slot g = Some SRoot \<Longrightarrow> gs = []" "length fs = length gs" "map fr_slot fs = map df_slot gs"
    using stack_chained [OF rel(1)] reads_chained [OF p(1)] Cons g(1) by (auto dest: map_eq_imp_length_eq)
  have den: "denotes (addresses fs) (sp_store p) (VRef (fr_container f)) (df_content g)"
    using rel(2,3) cell_rel_mono [OF rel(4), of "addresses fs" "sp_store p"] by (simp add: denotes_ref)
  have path: "fr_path f = value_path (df_slot g) gs" "fr_reports f = (fr_path f \<noteq> None \<and> length gs < max_reported_depth)"
    using p(3) Cons g(2) ch(3,4) by (simp_all add: value_path_def)
  have k: "keeps p ?q"
    using Cons by (intro keeps_same) auto
  have rep: "replays (addresses fs) (sp_store p) (sp_changes p) m (reported r)"
    using replays_keeps [OF k] p(4) by (simp add: replaying_def)
  let ?b = "fr_path f \<noteq> None \<and> \<not> fr_reports f"
  have same: "reported ?r = reported r" if "\<not> ?b"
  proof (cases "length gs < max_reported_depth")
    case True
    then show ?thesis
      using reported_pop(1) [OF g(1) ch(2)] by simp
  next
    case False
    then have "value_path (df_slot g) gs = None"
      using that path by auto
    then show ?thesis
      using reported_same [of "df_slot g" ?t] reported_pop(2) [OF g(1) ch(2)] False ch(2) by simp
  qed
  have new: "applies (addresses fs) (sp_store p) (ChSet (the (fr_path f)) (VRef (fr_container f))) (reported r) (reported ?r)" if b: "?b"
  proof -
    obtain q where q: "value_path (df_slot g) gs = Some q" "fr_path f = Some q"
      using b path(1) by auto
    have "reported ?t = reported r"
      using reported_pop(2) [OF g(1) ch(2)] b path(2) by auto
    then show ?thesis
      using reported_set [of ?t "df_slot g" q "df_content g"] ch(1) q den unfolding applies_def change.case by fastforce
  qed
  have "replays (addresses fs) (sp_store p) (sp_changes p @ (if ?b then [ChSet (the (fr_path f)) (VRef (fr_container f))] else [])) m (reported ?r)"
    using rep same new by (auto simp: replays_append)
  then have "replaying (close_container p) m (reported (rclose r))"
    using Cons g(1) by (simp add: close_container_def rclose_def Let_def report_def) (auto simp: replaying_def split: if_splits)
  moreover have "frames_ok (sp_stack (close_container p))"
    using p(3) Cons by (simp add: close_container_def Let_def report_def)
  moreover have "sp_string (close_container p) = None"
    using Cons assms(2) by (simp add: close_container_def Let_def report_def)
  ultimately show ?thesis
    using rd no_string_reported by (simp add: follows_def)
qed

lemma follows_phase:
  assumes "follows m p r" and "sp_string p = None"
  shows "follows m (set_phase ph p) (rset_phase ph r)"
  using assms reads_set_phase [of p r ph] no_string_reported [of "set_phase ph p"] by (simp add: follows_def slot_ok_def)

lemma follows_structural:
  assumes "follows m p r" and "\<not> sp_done p" and "sp_string p = None" and "sp_scalar p = []"
  shows "follows m (structural c p) (rstructural c r)"
proof -
  have p: "reads p r" "slot_ok p"
    using assms(1) by (simp_all add: follows_def)
  then have none: "sp_scalar_slot p = None"
    using assms(4) by (simp add: slot_ok_def)
  have vs: "rvalue_slot r = value_slot p"
    by (rule reads_value_slot [OF p(1)])
  have "reads (mark_dirty (p\<lparr>sp_scalar := [c], sp_scalar_slot := value_slot p\<rparr>)) (r\<lparr>rd_scalar := [c], rd_scalar_slot := value_slot p\<rparr>)"
    using reads_start_scalar [OF p(1) assms(3)] by (simp add: vs)
  then have scalar: "follows m (mark_dirty (p\<lparr>sp_scalar := [c], sp_scalar_slot := value_slot p\<rparr>)) (r\<lparr>rd_scalar := [c], rd_scalar_slot := value_slot p\<rparr>)"
    using assms(1,3) by (simp add: follows_def mark_dirty_def slot_ok_def string_reported_def)
  note ops = follows_start_string [OF assms(1-3)] follows_open [OF assms(1,3) none] follows_close [OF assms(1,3) none]
    follows_phase [OF assms(1,3)] scalar
  show ?thesis
  proof (cases "sp_stack p")
    case Nil
    then show ?thesis
      using ops assms(1) reads_stack [OF p(1)] by (simp add: structural_def rstructural_def vs)
  next
    case (Cons f fs)
    then obtain g gs where g: "rd_stack r = g # gs" "fr_phase f = df_phase g"
        "cell_rel (addresses (f # fs)) (sp_store p) (cell_of p f) (df_content g)"
      using p(1) by (metis reads_top)
    then show ?thesis
      using ops assms(1) Cons cell_rel_arr [OF g(3)] by (simp add: structural_def rstructural_def vs)
  qed
qed

interpretation following: follower "follows m"
proof (unfold_locales, goal_cases)
  case (1 p r)
  then show ?case
    using reading.same [of p r] by (simp add: follows_def)
qed (blast intro: follows_append follows_escape follows_end_string follows_extend follows_end_scalar follows_structural)+

section \<open>The changes of a history\<close>

text \<open>What holds between pieces.\<close>

definition settled_paths :: "parser \<Rightarrow> reader \<Rightarrow> bool" where
  "settled_paths p r \<longleftrightarrow> reads p r \<and> slot_ok p \<and> frames_ok (sp_stack p) \<and> string_reported p r"

lemma append_text_follows:
  assumes "settled_paths p r"
  shows "settled_paths (append_text s p) (read_text s r) \<and>
    replays (addresses (sp_stack (append_text s p))) (sp_store (append_text s p)) (sp_changes (append_text s p)) (reported r) (reported (read_text s r))"
proof -
  let ?n = "sp_credit p + credit_per_append + credit_per_character * int (length s)"
  let ?q = "p\<lparr>sp_credit := ?n, sp_changes := [], sp_string := map_option (\<lambda>os. os\<lparr>os_change := None\<rparr>) (sp_string p)\<rparr>"
  have "?q = p\<lparr>sp_string := map_option (\<lambda>os. os\<lparr>os_change := None\<rparr>) (sp_string p), sp_credit := ?n, sp_changes := []\<rparr>"
    by simp
  then have "reads ?q r"
    using assms unfolding settled_paths_def by (metis reads_irrelevant(1,2) reads_new_piece)
  moreover have "reported_path u ?q = reported_path u p" for u
    by (rule reported_path_stack) simp
  then have "string_reported ?q r"
    using assms by (auto simp: settled_paths_def string_reported_def)
  ultimately have "follows (reported r) ?q r"
    using assms by (simp add: follows_def settled_paths_def slot_ok_def replaying_def)
  then have "follows (reported r) (append_text s p) (read_text s r)"
    unfolding append_text_def by (rule following.feeds)
  then show ?thesis
    by (simp add: follows_def settled_paths_def replaying_def)
qed

lemma snapshot_settled:
  assumes "settled_paths p r"
  shows "settled_paths (snd (snapshot p)) r"
proof -
  have r: "reads p r"
    using assms by (simp add: settled_paths_def)
  have "sp_stack (snd (snapshot p)) = sp_stack p" "sp_string (snd (snapshot p)) = sp_string p" "sp_changes (snd (snapshot p)) = sp_changes p"
    by (simp_all add: snapshot_def Let_def split: prod.split)
  moreover have "reported_path u (snd (snapshot p)) = reported_path u p" for u
    by (rule reported_path_stack) (simp add: snapshot_def Let_def split: prod.split)
  ultimately show ?thesis
    using assms snapshot_reads [OF r] snapshot_slot_ok [of p] by (auto simp: settled_paths_def string_reported_def)
qed

text \<open>Everything the pieces of a history report.\<close>

fun all_changes :: "act list \<Rightarrow> parser \<Rightarrow> change list" where
  "all_changes [] p = []"
| "all_changes (Piece s # acts) p = sp_changes (append_text s p) @ all_changes acts (append_text s p)"
| "all_changes (Look # acts) p = all_changes acts (snd (snapshot p))"

lemma all_changes_replay:
  "settled_paths p r \<Longrightarrow>
     replays (addresses (sp_stack (run_acts acts p))) (sp_store (run_acts acts p)) (all_changes acts p) (reported r)
       (reported (read_text (acts_text acts) r))"
proof (induction acts p arbitrary: r rule: all_changes.induct)
  case (2 s acts p)
  let ?q = "append_text s p"
  have q: "settled_paths ?q (read_text s r)" and now: "replays (addresses (sp_stack ?q)) (sp_store ?q) (sp_changes ?q) (reported r) (reported (read_text s r))"
    using append_text_follows [OF 2(2)] by blast+
  have "keeps ?q (run_acts acts ?q)"
    using q run_keeps unfolding settled_paths_def by blast
  from replays_keeps [OF this now] show ?case
    using 2(1) [OF q] by (auto simp: replays_append)
next
  case (3 acts p)
  then show ?case
    using snapshot_settled by simp
qed simp

lemma replays_all: "replays P h cs m r \<Longrightarrow> replays {} h cs m r"
proof (induction cs arbitrary: m)
  case (Cons ch cs)
  have "applies {} h ch m m'" if "applies P h ch m m'" for m'
    using that denotes_mono [of P h _ _ "{}" h] by (cases ch) (auto simp: applies_def)
  then show ?case
    using Cons by auto
qed simp

text \<open>
  C24: A consumer that applies all changes the pieces report, in their order, to nothing, never fails and
  ends with what the text read so far reports.
\<close>

theorem changes_replayed:
  "replays {} (sp_store (run_acts acts (new_parser h))) (all_changes acts (new_parser h)) None (reported (read_text (acts_text acts) new_reader))"
proof -
  have "settled_paths (new_parser h) new_reader"
    using new_reads by (simp add: settled_paths_def slot_ok_def string_reported_def) (simp add: new_parser_def)
  moreover have "reported new_reader = None"
    by (simp add: reported_def view_def new_reader_def)
  ultimately show ?thesis
    using all_changes_replay [of "new_parser h" new_reader acts] replays_all by metis
qed

text \<open>That is all of the value but a number or literal not ended, while at most 32 containers are open.\<close>

lemma reported_settled: "length (rd_stack r) \<le> max_reported_depth \<Longrightarrow> reported r = settled r"
  by (simp add: reported_def settled_def)

end
