(* ===== verification/Transcript.thy ===== *)
theory Transcript
  imports Js
begin

text \<open>
  Transcripts of a conversation (\<open>packages/ai/src/utils/transcript.ts\<close>, \<open>text.ts\<close>): system messages at any
  place of a transcript carry instructions, named sections of the prompt and changes of the tool set,
  and are replayed to the current prompt and tools. What the functions never look into (the fields of
  messages, tools and blocks not listed here) has the type \<open>'o\<close>. The sections of a message are the
  properties of its object in their order; that JavaScript lists integer-like names first is left out.
\<close>

section \<open>Messages\<close>

datatype 'o block =
    TextBlock jsstr "'o option"   \<comment> \<open>\<open>type: "text"\<close>, its text and what else it has\<close>
  | OtherBlock 'o

datatype 'o message_content = CText jsstr | CBlocks "'o block list"

record 'o tool =
  tool_name :: jsstr
  tool_description :: jsstr
  tool_parameters :: 'o
  tool_sampling :: "'o option"
  tool_rest :: "'o option"      \<comment> \<open>executable and display-only fields\<close>

record ('c, 'o) system_message =
  sys_content :: 'c
  sys_sections :: "(jsstr \<times> jsstr option) list option"
  sys_added :: "'o tool list option"
  sys_removed :: "jsstr list option"   \<comment> \<open>the names of the references\<close>
  sys_timestamp :: int

text \<open>The content of a message in a session file may be missing, hence the parameter \<open>'c\<close>.\<close>

datatype ('c, 'o) chat_message =
    MSystem "('c, 'o) system_message"
  | MUser 'c 'o
  | MAssistant 'c jsstr jsstr 'o      \<comment> \<open>content, provider, model\<close>
  | MToolResult 'c 'o
  | MCustom jsstr "'o message_content option" 'o int   \<comment> \<open>type, content, other fields, timestamp\<close>
  | MBash 'o
  | MBranchSummary jsstr jsstr int         \<comment> \<open>summary, source, timestamp\<close>
  | MCompactionSummary jsstr int int       \<comment> \<open>summary, tokens before, timestamp\<close>

type_synonym 'o sys = "('o message_content, 'o) system_message"
type_synonym 'o agent_message = "('o message_content, 'o) chat_message"

fun is_system :: "('c, 'o) chat_message \<Rightarrow> bool" where
  "is_system (MSystem _) = True"
| "is_system _ = False"

fun system_messages :: "('c, 'o) chat_message list \<Rightarrow> ('c, 'o) system_message list" where
  "system_messages [] = []"
| "system_messages (MSystem m # ms) = m # system_messages ms"
| "system_messages (_ # ms) = system_messages ms"

text \<open>\<open>x ?? []\<close> of an optional list.\<close>

definition items :: "'a list option \<Rightarrow> 'a list" where
  "items xs = (case xs of None \<Rightarrow> [] | Some xs \<Rightarrow> xs)"

section \<open>Texts\<close>

fun join :: "jsstr \<Rightarrow> jsstr list \<Rightarrow> jsstr" where
  "join sep [] = []"
| "join sep [x] = x"
| "join sep (x # y # ys) = x @ sep @ join sep (y # ys)"

fun block_texts :: "'o block list \<Rightarrow> jsstr list" where
  "block_texts [] = []"
| "block_texts (TextBlock t _ # bs) = t # block_texts bs"
| "block_texts (OtherBlock _ # bs) = block_texts bs"

fun content_text :: "'o message_content \<Rightarrow> jsstr" where
  "content_text (CText s) = s"
| "content_text (CBlocks bs) = join [10] (block_texts bs)"

definition blank_line :: jsstr where
  "blank_line = [10, 10]"

definition system_message_text :: "'o sys \<Rightarrow> jsstr" where
  "system_message_text m =
     join blank_line (filter (\<lambda>p. p \<noteq> [])
       (content_text (sys_content m) # concat (map (\<lambda>(_, v). case v of None \<Rightarrow> [] | Some t \<Rightarrow> [t]) (items (sys_sections m)))))"

section \<open>The leading system message\<close>

definition initial_system_message_of :: "jsstr option \<Rightarrow> 'o tool list option \<Rightarrow> 'o sys option" where
  "initial_system_message_of prompt tools =
     (let has_prompt = (prompt \<noteq> None \<and> prompt \<noteq> Some []); has_tools = (items tools \<noteq> [])
      in if \<not> has_prompt \<and> \<not> has_tools then None
         else Some \<lparr>sys_content = CText (case prompt of None \<Rightarrow> [] | Some p \<Rightarrow> p), sys_sections = None,
                   sys_added = (if has_tools then tools else None), sys_removed = None, sys_timestamp = 0\<rparr>)"

definition normalize_context ::
    "jsstr option \<Rightarrow> 'o tool list option \<Rightarrow> 'o agent_message list \<Rightarrow> 'o agent_message list" where
  "normalize_context prompt tools ms =
     (case initial_system_message_of prompt tools of None \<Rightarrow> ms | Some m \<Rightarrow> MSystem m # ms)"

fun initial_system_message :: "('c, 'o) chat_message list \<Rightarrow> ('c, 'o) system_message option" where
  "initial_system_message (MSystem m # _) = Some m"
| "initial_system_message _ = None"

definition without_initial_system_message :: "('c, 'o) chat_message list \<Rightarrow> ('c, 'o) chat_message list" where
  "without_initial_system_message ms = (if initial_system_message ms \<noteq> None then tl ms else ms)"

section \<open>Replay\<close>

text \<open>A \<open>Map\<close> keeps its keys in the order of their first insertion.\<close>

definition replay_tools :: "('c, 'o) system_message \<Rightarrow> (jsstr \<times> 'o tool) list \<Rightarrow> (jsstr \<times> 'o tool) list" where
  "replay_tools m tools =
     fold (\<lambda>t. al_put (tool_name t) t) (items (sys_added m)) (fold al_del (items (sys_removed m)) tools)"

definition current_tools :: "('c, 'o) chat_message list \<Rightarrow> 'o tool list" where
  "current_tools ms = map snd (fold replay_tools (system_messages ms) [])"

fun patch_section :: "jsstr \<times> jsstr option \<Rightarrow> (jsstr \<times> jsstr) list \<Rightarrow> (jsstr \<times> jsstr) list" where
  "patch_section (name, None) secs = al_del name secs"
| "patch_section (name, Some v) secs = al_put name v secs"

definition replay_text ::
    "'o sys \<Rightarrow> jsstr list \<times> (jsstr \<times> jsstr) list \<times> int option \<Rightarrow> jsstr list \<times> (jsstr \<times> jsstr) list \<times> int option" where
  "replay_text m s =
     (case s of (texts, secs, ts) \<Rightarrow>
       let text = content_text (sys_content m)
       in (if text \<noteq> [] then texts @ [text] else texts,
           fold patch_section (items (sys_sections m)) secs,
           if ts = None then Some (sys_timestamp m) else ts))"

definition current_system_message :: "'o agent_message list \<Rightarrow> 'o sys option" where
  "current_system_message ms =
     (case fold replay_text (system_messages ms) ([], [], None) of (texts, secs, ts) \<Rightarrow>
       let tools = current_tools ms
       in if ts = None \<and> tools = [] then None
          else Some \<lparr>sys_content = CText (join blank_line texts),
                     sys_sections = (if secs \<noteq> [] then Some (map (\<lambda>(k, v). (k, Some v)) secs) else None),
                     sys_added = (if tools \<noteq> [] then Some tools else None), sys_removed = None,
                     sys_timestamp = (case ts of None \<Rightarrow> 0 | Some t \<Rightarrow> t)\<rparr>)"

definition current_system_prompt :: "'o agent_message list \<Rightarrow> jsstr" where
  "current_system_prompt ms = (case current_system_message ms of None \<Rightarrow> [] | Some m \<Rightarrow> system_message_text m)"

definition collapse_system_messages :: "'o agent_message list \<Rightarrow> 'o agent_message list" where
  "collapse_system_messages ms =
     (let rest = filter (\<lambda>m. \<not> is_system m) ms
      in case current_system_message ms of None \<Rightarrow> rest | Some head \<Rightarrow> MSystem head # rest)"

definition resolve_transcript :: "'o agent_message list \<Rightarrow> bool option \<Rightarrow> 'o agent_message list" where
  "resolve_transcript ms supported = (if supported = Some True then ms else collapse_system_messages ms)"

section \<open>Tool declarations\<close>

text \<open>
  \<open>JSON.stringify\<close> and \<open>JSON.parse\<close> on parameters and sampling options are parameters; the code relies on
  a parsed value having the text it was parsed from. Two declarations have the same JSON text exactly if
  their fields have.
\<close>

definition to_tool_declaration :: "('o \<Rightarrow> jsstr) \<Rightarrow> (jsstr \<Rightarrow> 'o) \<Rightarrow> 'o tool \<Rightarrow> 'o tool" where
  "to_tool_declaration stringify parse t =
     \<lparr>tool_name = tool_name t, tool_description = tool_description t,
      tool_parameters = parse (stringify (tool_parameters t)), tool_sampling = tool_sampling t, tool_rest = None\<rparr>"

definition declaration_text :: "('o \<Rightarrow> jsstr) \<Rightarrow> 'o tool \<Rightarrow> jsstr \<times> jsstr \<times> jsstr \<times> jsstr option" where
  "declaration_text stringify t =
     (tool_name t, tool_description t, stringify (tool_parameters t), map_option stringify (tool_sampling t))"

definition declarations_equal :: "('o \<Rightarrow> jsstr) \<Rightarrow> (jsstr \<Rightarrow> 'o) \<Rightarrow> 'o tool \<Rightarrow> 'o tool \<Rightarrow> bool" where
  "declarations_equal stringify parse t u \<longleftrightarrow>
     declaration_text stringify (to_tool_declaration stringify parse t) =
     declaration_text stringify (to_tool_declaration stringify parse u)"

text \<open>\<open>new Map(tools.map((tool) => [tool.name, tool]))\<close>: a later tool of the same name replaces an earlier one.\<close>

definition tools_by_name :: "'o tool list \<Rightarrow> (jsstr \<times> 'o tool) list" where
  "tools_by_name ts = fold (\<lambda>t. al_put (tool_name t) t) ts []"

definition differs :: "('o \<Rightarrow> jsstr) \<Rightarrow> (jsstr \<Rightarrow> 'o) \<Rightarrow> (jsstr \<times> 'o tool) list \<Rightarrow> 'o tool \<Rightarrow> bool" where
  "differs stringify parse others t \<longleftrightarrow>
     (case map_of others (tool_name t) of None \<Rightarrow> True | Some u \<Rightarrow> \<not> declarations_equal stringify parse u t)"

text \<open>The tools added and the names removed.\<close>

definition tool_state_changes ::
    "('o \<Rightarrow> jsstr) \<Rightarrow> (jsstr \<Rightarrow> 'o) \<Rightarrow> 'o tool list \<Rightarrow> 'o tool list \<Rightarrow> 'o tool list \<times> jsstr list" where
  "tool_state_changes stringify parse previous current =
     (map (to_tool_declaration stringify parse)
        (filter (differs stringify parse (tools_by_name previous)) current),
      map tool_name (filter (differs stringify parse (tools_by_name current)) previous))"

definition declared_tools :: "('c, 'o) chat_message list \<Rightarrow> 'o tool list" where
  "declared_tools ms =
     map snd (fold (\<lambda>m. fold (\<lambda>t. al_put (tool_name t) t) (items (sys_added m))) (system_messages ms) [])"

fun redefined :: "('o \<Rightarrow> jsstr) \<Rightarrow> (jsstr \<Rightarrow> 'o) \<Rightarrow> (jsstr \<times> 'o tool) list \<Rightarrow> 'o tool list \<Rightarrow> bool" where
  "redefined stringify parse declared [] = False"
| "redefined stringify parse declared (t # ts) =
     ((case map_of declared (tool_name t) of None \<Rightarrow> False | Some p \<Rightarrow> \<not> declarations_equal stringify parse p t) \<or>
      redefined stringify parse (al_put (tool_name t) t declared) ts)"

definition has_tool_redefinitions :: "('o \<Rightarrow> jsstr) \<Rightarrow> (jsstr \<Rightarrow> 'o) \<Rightarrow> ('c, 'o) chat_message list \<Rightarrow> bool" where
  "has_tool_redefinitions stringify parse ms =
     redefined stringify parse [] (concat (map (\<lambda>m. items (sys_added m)) (system_messages ms)))"

section \<open>Tools of a request\<close>

text \<open>The index of the last system message with a removal or a name declared before, or -1.\<close>

fun declare_all :: "jsstr set \<Rightarrow> 'o tool list \<Rightarrow> bool \<times> jsstr set" where
  "declare_all declared [] = (False, declared)"
| "declare_all declared (t # ts) =
     (case declare_all (insert (tool_name t) declared) ts of
        (again, declared') \<Rightarrow> (tool_name t \<in> declared \<or> again, declared'))"

fun last_change_loop :: "int \<Rightarrow> int \<Rightarrow> jsstr set \<Rightarrow> ('c, 'o) system_message list \<Rightarrow> int" where
  "last_change_loop index latest declared [] = latest"
| "last_change_loop index latest declared (m # ms) =
     (case declare_all declared (items (sys_added m)) of (again, declared') \<Rightarrow>
        last_change_loop (index + 1)
          (if items (sys_removed m) \<noteq> [] \<or> again then index else latest) declared' ms)"

definition find_last_non_additive_tool_change :: "('c, 'o) system_message list \<Rightarrow> int" where
  "find_last_non_additive_tool_change ms = last_change_loop 0 (- 1) {} ms"

definition has_non_additive_tool_changes :: "('c, 'o) chat_message list \<Rightarrow> bool" where
  "has_non_additive_tool_changes ms \<longleftrightarrow> 0 \<le> find_last_non_additive_tool_change (system_messages ms)"

datatype tool_support = NoChanges | Additions | AllChanges

text \<open>The tools of the top-level request field and the number of system messages folded into it.\<close>

definition resolve_transcript_tools :: "('c, 'o) chat_message list \<Rightarrow> tool_support \<Rightarrow> 'o tool list \<times> nat" where
  "resolve_transcript_tools ms support =
     (let systems = system_messages ms
      in case support of
           NoChanges \<Rightarrow> (current_tools (map MSystem systems :: ('c, 'o) chat_message list), length systems)
         | AllChanges \<Rightarrow> ([], 0)
         | Additions \<Rightarrow>
             let folded = nat (max (if initial_system_message ms \<noteq> None then 1 else 0) (find_last_non_additive_tool_change systems + 1))
             in (current_tools (map MSystem (take folded systems) :: ('c, 'o) chat_message list), folded))"

end
