(* ===== verification/TranscriptReplay.thy ===== *)
theory TranscriptReplay
  imports Transcript
begin

text \<open>
  What replaying a transcript gives: a collapsed transcript can go on like the whole one, the tools of
  a request with the additions sent in place are the current tools, and the changes between two tool sets
  lead from one to the other.
\<close>

section \<open>Maps in insertion order\<close>

definition named :: "(jsstr \<times> 'o tool) list \<Rightarrow> bool" where
  "named tools \<longleftrightarrow> distinct (map fst tools) \<and> (\<forall>(n, t) \<in> set tools. n = tool_name t)"

lemma named_Nil [simp]: "named []"
  by (simp add: named_def)

lemma named_del: "named tools \<Longrightarrow> named (al_del n tools)"
  using set_al_del [of n tools] by (auto simp: named_def distinct_al_del)

lemma named_put: "named tools \<Longrightarrow> named (al_put (tool_name t) t tools)"
  using set_al_put [of "tool_name t" t tools] by (auto simp: named_def distinct_al_put)

lemma named_dels: "named tools \<Longrightarrow> named (fold al_del ns tools)"
  by (induction ns arbitrary: tools) (auto simp: named_del)

lemma named_puts: "named tools \<Longrightarrow> named (fold (\<lambda>t. al_put (tool_name t) t) ts tools)"
  by (induction ts arbitrary: tools) (auto simp: named_put)

lemma named_replay: "named tools \<Longrightarrow> named (replay_tools m tools)"
  by (simp add: replay_tools_def named_dels named_puts)

lemma named_replays: "named tools \<Longrightarrow> named (fold replay_tools ms tools)"
  by (induction ms arbitrary: tools) (auto simp: named_replay)

lemma al_put_new: "k \<notin> fst ` set kvs \<Longrightarrow> al_put k v kvs = kvs @ [(k, v)]"
  by (induction kvs) auto

lemma puts_new:
  assumes "distinct (map fst (kvs @ xs))"
  shows "fold (\<lambda>(k, v). al_put k v) xs kvs = kvs @ xs"
  using assms
proof (induction xs arbitrary: kvs)
  case (Cons x xs)
  obtain k v where x: "x = (k, v)" by force
  have "al_put k v kvs = kvs @ [x]" using Cons(2) x by (auto intro: al_put_new)
  with Cons x show ?case by simp
qed simp

lemma tool_puts_new:
  assumes "distinct (map fst kvs @ map tool_name ts)"
  shows "fold (\<lambda>t. al_put (tool_name t) t) ts kvs = kvs @ map (\<lambda>t. (tool_name t, t)) ts"
proof -
  have "fold (\<lambda>t. al_put (tool_name t) t) ts kvs
      = fold (\<lambda>(k, v). al_put k v) (map (\<lambda>t. (tool_name t, t)) ts) kvs"
    by (simp add: fold_map comp_def)
  also have "\<dots> = kvs @ map (\<lambda>t. (tool_name t, t)) ts"
    using assms by (intro puts_new) (simp add: comp_def)
  finally show ?thesis .
qed

lemma named_names: "named tools \<Longrightarrow> map (\<lambda>t. (tool_name t, t)) (map snd tools) = tools"
  by (auto simp: named_def intro!: map_idI)

lemma named_fst: "named tools \<Longrightarrow> map fst tools = map tool_name (map snd tools)"
  by (auto simp: named_def)

text \<open>Replaying a message that adds the values of a map to nothing gives the map.\<close>

lemma replay_tools_added:
  assumes "named tools" "items (sys_added m) = map snd tools" "items (sys_removed m) = []"
  shows "replay_tools m [] = tools"
proof -
  have "distinct (map fst ([] :: (jsstr \<times> 'a tool) list) @ map tool_name (map snd tools))"
    using assms(1) named_fst [OF assms(1)] by (simp add: named_def)
  then have "fold (\<lambda>t. al_put (tool_name t) t) (map snd tools) [] = tools"
    by (subst tool_puts_new) (simp_all only: append_Nil named_names [OF assms(1)])
  then show ?thesis using assms(2,3) by (simp add: replay_tools_def)
qed

section \<open>Collapsed transcripts\<close>

lemma system_messages_append [simp]: "system_messages (ms @ ns) = system_messages ms @ system_messages ns"
  by (induction ms rule: system_messages.induct) auto

lemma system_messages_others [simp]: "system_messages (filter (\<lambda>m. \<not> is_system m) ms) = []"
  by (induction ms rule: system_messages.induct) auto

lemma system_messages_map [simp]: "system_messages (map MSystem ms) = ms"
  by (induction ms) auto

lemma system_messages_filter: "map MSystem (system_messages ms) = filter is_system ms"
  by (induction ms rule: system_messages.induct) auto

lemma join_append: "xs \<noteq> [] \<Longrightarrow> ys \<noteq> [] \<Longrightarrow> join s (xs @ ys) = join s xs @ s @ join s ys"
proof (induction s xs rule: join.induct)
  case (2 s x)
  then show ?case by (cases ys) auto
qed auto

lemma join_nonempty: "xs \<noteq> [] \<Longrightarrow> [] \<notin> set xs \<Longrightarrow> join s xs \<noteq> []"
  by (induction s xs rule: join.induct) auto

text \<open>The same texts, as far as joining them and more goes.\<close>

definition same_texts :: "jsstr list \<Rightarrow> jsstr list \<Rightarrow> bool" where
  "same_texts xs ys \<longleftrightarrow> (xs = [] \<longleftrightarrow> ys = []) \<and> join blank_line xs = join blank_line ys"

lemma same_texts_append: "same_texts xs ys \<Longrightarrow> same_texts (xs @ zs) (ys @ zs)"
  by (cases "xs = []"; cases "zs = []") (auto simp: same_texts_def join_append)

definition own_text :: "'o sys \<Rightarrow> jsstr list" where
  "own_text m = (if content_text (sys_content m) = [] then [] else [content_text (sys_content m)])"

lemma replay_text_step:
  "fold replay_text (m # ms) (xs, secs, ts) =
   fold replay_text ms (xs @ own_text m, fold patch_section (items (sys_sections m)) secs,
     if ts = None then Some (sys_timestamp m) else ts)"
  by (simp add: replay_text_def own_text_def)

lemma same_replay:
  assumes "same_texts xs ys"
  shows "\<exists>xs' ys' secs' ts'. fold replay_text ms (xs, secs, ts) = (xs', secs', ts') \<and>
    fold replay_text ms (ys, secs, ts) = (ys', secs', ts') \<and> same_texts xs' ys'"
  using assms
proof (induction ms arbitrary: xs ys secs ts)
  case (Cons m ms)
  show ?case unfolding replay_text_step by (intro Cons(1) same_texts_append Cons(2))
qed auto

lemma distinct_patches: "distinct (map fst s) \<Longrightarrow> distinct (map fst (fold patch_section ps s))"
proof (induction ps arbitrary: s)
  case (Cons p ps)
  then show ?case by (cases "(p, s)" rule: patch_section.cases) (auto simp: distinct_al_put distinct_al_del)
qed simp

lemma replay_text_inv:
  assumes "fold replay_text ms (xs, secs, ts) = (xs', secs', ts')" "[] \<notin> set xs" "distinct (map fst secs)"
  shows "[] \<notin> set xs' \<and> distinct (map fst secs') \<and> (ts' = None \<longleftrightarrow> ts = None \<and> ms = [])"
  using assms
proof (induction ms arbitrary: xs secs ts)
  case (Cons m ms)
  have "[] \<notin> set (xs @ own_text m)" using Cons(3) by (auto simp: own_text_def)
  from Cons(1) [OF Cons(2) [unfolded replay_text_step] this distinct_patches [OF Cons(4)]] show ?case by auto
qed auto

lemma patch_sections:
  assumes "distinct (map fst secs)"
  shows "fold patch_section (map (\<lambda>(k, v). (k, Some v)) secs) [] = secs"
proof -
  have "fold patch_section (map (\<lambda>(k, v). (k, Some v)) secs) [] = fold (\<lambda>(k, v). al_put k v) secs []"
    by (auto simp: fold_map comp_def intro!: fold_cong)
  with puts_new [of "[]" secs] assms show ?thesis by simp
qed

text \<open>What the replay of a head message starts from.\<close>

lemma replay_head:
  assumes "fold replay_text (system_messages ms) ([], [], None) = (texts, secs, ts)"
    and "current_system_message ms = Some head"
  shows "\<exists>texts'. replay_text head ([], [], None) = (texts', secs, ts) \<and> same_texts texts texts' \<and>
    replay_tools head [] = fold replay_tools (system_messages ms) []"
proof -
  let ?tools = "fold replay_tools (system_messages ms) []"
  have inv: "[] \<notin> set texts" "distinct (map fst secs)" "ts = None \<longleftrightarrow> system_messages ms = []"
    using replay_text_inv [OF assms(1)] by simp_all
  have tools: "named ?tools" by (simp add: named_replays)
  have "ts \<noteq> None"
    using assms inv(3) by (auto simp: current_system_message_def current_tools_def)
  then have head: "sys_content head = CText (join blank_line texts)" "sys_timestamp head = the ts"
      "items (sys_sections head) = map (\<lambda>(k, v). (k, Some v)) secs"
      "items (sys_added head) = map snd ?tools" "items (sys_removed head) = []"
    using assms by (auto simp: current_system_message_def current_tools_def items_def Let_def split: if_splits)
  have "same_texts texts (if join blank_line texts \<noteq> [] then [join blank_line texts] else [])"
    using join_nonempty [OF _ inv(1)] by (auto simp: same_texts_def)
  with \<open>ts \<noteq> None\<close> show ?thesis
    using replay_tools_added [OF tools head(4,5)] by (auto simp: replay_text_def head patch_sections [OF inv(2)] Let_def)
qed

lemma current_system_message_cong:
  assumes "\<exists>xs ys secs ts. fold replay_text (system_messages ms) ([], [], None) = (xs, secs, ts) \<and>
      fold replay_text (system_messages ns) ([], [], None) = (ys, secs, ts) \<and> same_texts xs ys"
    and "current_tools ms = current_tools ns"
  shows "current_system_message ms = current_system_message ns"
  using assms by (auto simp: current_system_message_def same_texts_def Let_def)

lemma no_head: "current_system_message ms = None \<longleftrightarrow> system_messages ms = []"
proof -
  obtain texts secs ts where eq: "fold replay_text (system_messages ms) ([], [], None) = (texts, secs, ts)"
    by (metis prod_cases3)
  with replay_text_inv [OF eq] show ?thesis
    by (auto simp: current_system_message_def current_tools_def Let_def)
qed

lemma collapse_tools: "current_tools (collapse_system_messages ms @ later) = current_tools (ms @ later)"
proof (cases "current_system_message ms")
  case None
  with no_head [of ms] show ?thesis by (simp add: current_tools_def collapse_system_messages_def)
next
  case (Some head)
  obtain texts secs ts where eq: "fold replay_text (system_messages ms) ([], [], None) = (texts, secs, ts)"
    by (metis prod_cases3)
  from replay_head [OF eq Some] show ?thesis
    by (auto simp: current_tools_def collapse_system_messages_def Some)
qed

lemma collapse_message:
  "current_system_message (collapse_system_messages ms @ later) = current_system_message (ms @ later)"
proof (cases "current_system_message ms")
  case None
  with no_head [of ms] have "system_messages (collapse_system_messages ms) = system_messages ms"
    by (simp add: collapse_system_messages_def)
  then show ?thesis by (simp add: current_system_message_def current_tools_def)
next
  case (Some head)
  obtain texts secs ts where eq: "fold replay_text (system_messages ms) ([], [], None) = (texts, secs, ts)"
    by (metis prod_cases3)
  from replay_head [OF eq Some] obtain texts' where
    "replay_text head ([], [], None) = (texts', secs, ts)" "same_texts texts texts'" by blast
  then have "same_texts texts' texts" "system_messages (collapse_system_messages ms) = [head]"
    by (auto simp: same_texts_def collapse_system_messages_def Some)
  with same_replay [of texts' texts "system_messages later" secs ts] show ?thesis
    using \<open>replay_text head ([], [], None) = (texts', secs, ts)\<close> eq
    by (intro current_system_message_cong collapse_tools) simp
qed

text \<open>
  C27: A transcript with its system messages collapsed into one leading message can go on like the whole
  one: whatever messages follow, replaying gives the same current system message, prompt and tools.
\<close>

theorem collapse_continues:
  "current_system_message (collapse_system_messages ms @ later) = current_system_message (ms @ later) \<and>
   current_system_prompt (collapse_system_messages ms @ later) = current_system_prompt (ms @ later) \<and>
   current_tools (collapse_system_messages ms @ later) = current_tools (ms @ later)"
  by (simp add: collapse_message collapse_tools current_system_prompt_def)

section \<open>Tools declared in place\<close>













lemma current_tools_distinct: "distinct (map tool_name (current_tools ms))"
  using named_replays [OF named_Nil, of "system_messages ms"] named_fst
  by (metis current_tools_def named_def)




definition read_tool :: "jsstr tool" where
  "read_tool = \<lparr>tool_name = js ''read'', tool_description = [], tool_parameters = js ''{}'', tool_sampling = None, tool_rest = None\<rparr>"

definition tools_message :: "'o tool list \<Rightarrow> jsstr list \<Rightarrow> 'o sys" where
  "tools_message added removed =
     \<lparr>sys_content = CText [], sys_sections = None, sys_added = Some added, sys_removed = Some removed, sys_timestamp = 0\<rparr>"


section \<open>Changes between two tool sets\<close>

lemma tools_by_name_names: "distinct (map tool_name ts) \<Longrightarrow> tools_by_name ts = map (\<lambda>t. (tool_name t, t)) ts"
  unfolding tools_by_name_def by (subst tool_puts_new) auto

lemma map_of_names: "distinct (map tool_name ts) \<Longrightarrow>
  map_of (map (\<lambda>t. (tool_name t, t)) ts) n = Some t \<longleftrightarrow> t \<in> set ts \<and> tool_name t = n"
  by (induction ts) (auto simp: image_iff)

lemma map_of_names_None: "map_of (map (\<lambda>t. (tool_name t, t)) ts) n = None \<longleftrightarrow> n \<notin> tool_name ` set ts"
  by (induction ts) auto

lemma differs_iff:
  assumes "distinct (map tool_name ts)" "\<And>x. stringify (parse (stringify x)) = stringify x"
  shows "differs stringify parse (tools_by_name ts) t \<longleftrightarrow> declaration_text stringify t \<notin> declaration_text stringify ` set ts"
proof -
  have decl: "declaration_text stringify (to_tool_declaration stringify parse u) = declaration_text stringify u" for u
    by (simp add: declaration_text_def to_tool_declaration_def assms(2))
  show ?thesis
  proof (cases "map_of (tools_by_name ts) (tool_name t)")
    case None
    then have "tool_name t \<notin> tool_name ` set ts"
      by (simp add: tools_by_name_names [OF assms(1)] map_of_names_None)
    then show ?thesis using None by (auto simp: differs_def declaration_text_def)
  next
    case (Some u)
    then have u: "u \<in> set ts" "tool_name u = tool_name t"
      by (simp_all add: tools_by_name_names [OF assms(1)] map_of_names [OF assms(1)])
    have uniq: "v = u" if "v \<in> set ts" "declaration_text stringify v = declaration_text stringify t" for v
      using that u assms(1) by (auto simp: declaration_text_def distinct_map inj_on_def)
    have "declaration_text stringify t \<in> declaration_text stringify ` set ts \<longleftrightarrow>
        declaration_text stringify u = declaration_text stringify t"
      by (auto dest: uniq [OF _ sym] intro: rev_image_eqI [OF u(1)])
    then show ?thesis by (simp add: differs_def Some declarations_equal_def decl)
  qed
qed

lemma tool_state_changes_eq:
  assumes "\<And>x. stringify (parse (stringify x)) = stringify x"
    and "distinct (map tool_name previous)" "distinct (map tool_name current)"
    and "tool_state_changes stringify parse previous current = (added, removed)"
  shows "added = map (to_tool_declaration stringify parse)
      (filter (\<lambda>t. declaration_text stringify t \<notin> declaration_text stringify ` set previous) current)"
    and "removed = map tool_name (filter (\<lambda>t. declaration_text stringify t \<notin> declaration_text stringify ` set current) previous)"
proof -
  have "differs stringify parse (tools_by_name ts) = (\<lambda>t. declaration_text stringify t \<notin> declaration_text stringify ` set ts)"
    if "distinct (map tool_name ts)" for ts
    by (rule ext) (rule differs_iff [OF that assms(1)])
  with assms(2-4) show "added = map (to_tool_declaration stringify parse)
      (filter (\<lambda>t. declaration_text stringify t \<notin> declaration_text stringify ` set previous) current)"
    "removed = map tool_name (filter (\<lambda>t. declaration_text stringify t \<notin> declaration_text stringify ` set current) previous)"
    by (simp_all add: tool_state_changes_def)
qed

lemma image_filter_in: "f ` set (filter (\<lambda>x. f x \<in> A) xs) = f ` set xs \<inter> A"
  by auto

lemma image_filter_out: "f ` set (filter (\<lambda>x. f x \<notin> A) xs) = f ` set xs - A"
  by auto

lemma split_by_set: "X = P \<inter> C \<Longrightarrow> Y = C - P \<Longrightarrow> X \<union> Y = C"
  by blast

lemma dels_filter: "fold al_del ns tools = filter (\<lambda>(n, _). n \<notin> set ns) tools"
  by (induction ns arbitrary: tools) (auto simp: al_del_def intro!: filter_cong)

lemma map_snd_names: "named tools \<Longrightarrow> map snd (filter (\<lambda>(n, _). P n) tools) = filter (\<lambda>t. P (tool_name t)) (map snd tools)"
  by (induction tools) (auto simp: named_def)

lemma changes_applied:
  fixes ms :: "('c, 'o) chat_message list"
  assumes law: "\<And>x. stringify (parse (stringify x)) = stringify x" and "distinct (map tool_name current)"
    and changes: "tool_state_changes stringify parse (current_tools ms) current = (items (sys_added m), items (sys_removed m))"
  shows "current_tools (ms @ [MSystem m]) =
    filter (\<lambda>t. declaration_text stringify t \<in> declaration_text stringify ` set current) (current_tools ms) @
    items (sys_added m)"
proof -
  let ?tools = "fold replay_tools (system_messages ms) []" and ?d = "declaration_text stringify"
  let ?prev = "current_tools ms" and ?keep = "filter (\<lambda>(n, _). n \<notin> set (items (sys_removed m))) (fold replay_tools (system_messages ms) [])"
  have prev: "?prev = map snd ?tools" "named ?tools" by (simp_all add: current_tools_def named_replays)
  note dist = current_tools_distinct [of ms]
  have name: "?d t = ?d u \<Longrightarrow> tool_name t = tool_name u" for t u by (simp add: declaration_text_def)
  have same: "t = u" if "t \<in> set ts" "u \<in> set ts" "tool_name t = tool_name u" "distinct (map tool_name ts)" for t u ts
    using that by (auto simp: distinct_map inj_on_def)
  note added = tool_state_changes_eq(1) [OF law dist assms(2) changes]
    and removed = tool_state_changes_eq(2) [OF law dist assms(2) changes]
  have "named ?keep" using prev(2) by (auto simp: named_def distinct_map_filter)
  have keep: "map snd ?keep = filter (\<lambda>t. ?d t \<in> ?d ` set current) ?prev"
    unfolding map_snd_names [OF prev(2)] prev(1) [symmetric] removed
    by (rule filter_cong) (use same [OF _ _ _ dist] in auto)
  have "distinct (map fst ?keep @ map tool_name (items (sys_added m)))"
  proof -
    have "tool_name ` set (map snd ?keep) \<inter> tool_name ` set (items (sys_added m)) = {}"
    proof (rule ccontr)
      assume "tool_name ` set (map snd ?keep) \<inter> tool_name ` set (items (sys_added m)) \<noteq> {}"
      then obtain t a where t: "t \<in> set ?prev" "?d t \<in> ?d ` set current" and a: "a \<in> set current" "?d a \<notin> ?d ` set ?prev"
        and eq: "tool_name t = tool_name a"
        unfolding keep added by (auto simp: to_tool_declaration_def simp del: image_iff) (metis imageI)
      from t(2) obtain c where c: "c \<in> set current" "?d t = ?d c" by (elim imageE)
      from same [OF c(1) a(1) _ assms(2)] name [OF c(2)] eq have "c = a" by simp
      with c t a show False by (metis imageI)
    qed
    moreover have "distinct (map tool_name (items (sys_added m)))"
      unfolding added using assms(2) by (simp add: comp_def to_tool_declaration_def distinct_map_filter)
    moreover have "distinct (map fst ?keep)" using \<open>named ?keep\<close> unfolding named_def by (rule conjunct1)
    moreover have "set (map fst ?keep) = tool_name ` set (map snd ?keep)"
      by (subst named_fst [OF \<open>named ?keep\<close>]) (rule set_map)
    ultimately show ?thesis unfolding distinct_append set_map by (simp only: simp_thms)
  qed
  from tool_puts_new [OF this] have "replay_tools m ?tools = ?keep @ map (\<lambda>t. (tool_name t, t)) (items (sys_added m))"
    by (simp add: replay_tools_def dels_filter)
  then show ?thesis using keep by (simp add: current_tools_def comp_def)
qed

text \<open>
  C29: A system message with the changes between the current tools and others, which are named once each,
  makes exactly those others the current tools, as the model sees them; and there are no changes to send
  exactly if the two declare the same.
\<close>

theorem tool_changes_applied:
  fixes ms :: "('c, 'o) chat_message list"
  assumes "\<And>x. stringify (parse (stringify x)) = stringify x" and "distinct (map tool_name current)"
    and "tool_state_changes stringify parse (current_tools ms) current = (items (sys_added m), items (sys_removed m))"
  shows "declaration_text stringify ` set (current_tools (ms @ [MSystem m])) = declaration_text stringify ` set current \<and>
    (items (sys_added m) = [] \<and> items (sys_removed m) = [] \<longleftrightarrow>
      declaration_text stringify ` set (current_tools ms) = declaration_text stringify ` set current)"
proof
  let ?d = "declaration_text stringify" and ?prev = "current_tools ms"
  have decl: "?d (to_tool_declaration stringify parse t) = ?d t" for t
    by (simp add: declaration_text_def to_tool_declaration_def assms(1))
  note sets = tool_state_changes_eq [OF assms(1) current_tools_distinct assms(2,3)]
  have "?d ` set (filter (\<lambda>t. ?d t \<in> ?d ` set current) ?prev) = ?d ` set ?prev \<inter> ?d ` set current"
    by (rule image_filter_in)
  moreover have "?d ` set (items (sys_added m)) = ?d ` set current - ?d ` set ?prev"
    unfolding sets set_map image_image decl by (rule image_filter_out)
  ultimately show "?d ` set (current_tools (ms @ [MSystem m])) = ?d ` set current"
    unfolding changes_applied [OF assms] set_append image_Un by (rule split_by_set)
  show "items (sys_added m) = [] \<and> items (sys_removed m) = [] \<longleftrightarrow> ?d ` set ?prev = ?d ` set current"
    unfolding sets map_is_Nil_conv filter_empty_conv not_not set_eq_subset image_subset_iff by (rule conj_commute)
qed

theorem tool_changes_applied_witness:
  "declaration_text id ` set (current_tools [MSystem (tools_message [read_tool] [])]) = declaration_text id ` {read_tool}"
  using tool_changes_applied [of id id "[read_tool]" "[]" "tools_message [read_tool] []"]
  by (simp add: tool_state_changes_def tools_message_def items_def current_tools_def differs_def tools_by_name_def
      to_tool_declaration_def read_tool_def)

end
