(* ===== verification/Spec2Isabelle.thy ===== *)
theory Spec2Isabelle
  imports DeltaRevisions DeltaCodec Pending JsonCopy CborValid MessageCodec LinkDelivery DeltaSharing MemoryVisible EditResults JsonAgree StreamChanges TranscriptReplay
begin

text \<open>
  Verification of the core data structures and protocols of this repository.

  \<^bold>\<open>The program\<close> is a coding agent with terminal and web front ends. Its packages exchange values, and the
  parts modelled here are those in which values are compared, stored, changed, encoded and read back:

  \<^item> \<open>packages/chord\<close> keeps JSON values in step between a producer and its consumers. A differ turns two
    revisions of a value into operations, a queue folds the operations a slow consumer has not seen, a codec
    shortens their paths for the wire, and appliers change the consumer's copy. Links carry the batches,
    with other messages, as binary frames.
  \<^item> \<open>packages/protocol\<close> frames validated messages encoded as CBOR over byte streams.
  \<^item> \<open>packages/durable\<close> stores conversations, entries, tasks, submissions and documents; a stored document
    is a base value and the operations on it, so its reads run the applier of chord.
  \<^item> \<open>packages/ai\<close> reads the arguments of a tool call while they stream in, and again when they are complete,
    and replays the system messages of a transcript to the current prompt and tools.
  \<^item> \<open>packages/coding-agent\<close> edits files by replacing exact texts.

  \<^bold>\<open>Foundations.\<close> \<open>Prelude\<close> has the result type of code that throws (\<open>Inl\<close> the error), association
  lists as JavaScript objects, slices and splices; \<open>Js\<close> strings of UTF-16 code units and numbers;
  \<open>Json\<close> JSON values whose containers carry an address, so that \<open>===\<close> and sharing can be stated, and
  \<open>equalJson\<close>; \<open>Objects\<close> the values the code receives as \<open>unknown\<close>, in a heap with property descriptors,
  prototypes and cycles; \<open>Utf8\<close> and \<open>Bytes\<close> text encodings, big-endian numbers and growing buffers.
  The interfaces are locales: \<open>Places\<close> (positions in nested values, for values with and without addresses),
  \<open>Streams\<close> (codecs of a stream of items), \<open>StreamFollow\<close> (an implementation that follows a reader of
  characters) and those the component theories declare beside their interpretations.

  \<^bold>\<open>Delta\<close> (\<open>packages/chord/src/delta\<close>, \<open>json.ts\<close>). \<open>DeltaOps\<close> and \<open>DeltaApply\<close> model \<open>index.ts\<close>:
  operations, their validation, path safety and \<open>applyOps\<close>. \<open>DeltaSpec\<close> gives each operation a meaning on
  values without addresses and proves that the applier refines it. \<open>DeltaImmutable\<close> and \<open>DeltaSharing\<close>
  are \<open>applyImmutable\<close>: same value as in place, nothing of an earlier revision changed. \<open>DeltaMatch\<close>,
  \<open>DeltaDiff\<close>, \<open>DeltaTurns\<close> and \<open>DeltaRevisions\<close> are \<open>diff.ts\<close>: every search for matches, the bound of
  4096 operations and the fallback give a batch that turns the first revision into the second. \<open>Pending\<close> is
  \<open>pending.ts\<close>, on the fitting paths of \<open>Kinds\<close>; \<open>PathKey\<close> and \<open>DeltaCodec\<close> are \<open>pathKey\<close>, the encoder and
  the decoder. This theory composes them: a consumer that was away catches up with one delivery.
  \<open>JsonCopy\<close> is \<open>copyJson\<close> and \<open>isJsonValue\<close>.

  \<^bold>\<open>Wire protocols.\<close> \<open>CborEncode\<close>, \<open>CborDecode\<close>, \<open>CborBytes\<close>, \<open>CborRoundtrip\<close> and \<open>CborValid\<close> are
  \<open>packages/protocol/src/cbor\<close>; \<open>Framing\<close> and \<open>FrameStreams\<close> \<open>framing.ts\<close>; \<open>MessageCodec\<close> \<open>codec.ts\<close>
  over any schema. They show that values come back, that chunks do not matter, and what is accepted
  from arbitrary bytes. \<open>LinkMessages\<close>, \<open>LinkWriter\<close>, \<open>LinkBytes\<close>, \<open>LinkCodec\<close>, \<open>LinkRoundtrip\<close> and
  \<open>LinkDelivery\<close> are the messages of \<open>packages/chord/src/next/link\<close> and their binary codec.

  \<^bold>\<open>Storage\<close> (\<open>packages/durable/src/storage/memory.ts\<close>, \<open>scan.ts\<close>). \<open>MemoryState\<close> and \<open>MemoryCommit\<close> have
  the records, the indexes and the commit; \<open>MemoryReads\<close> lookups, paged scans and visible entries.
  \<open>MemoryIndex\<close>, \<open>MemoryRecords\<close>, \<open>MemoryDocuments\<close> and \<open>MemoryInvariant\<close> prove that every commit keeps
  the indexes in step with the records; \<open>MemoryHistory\<close>, \<open>MemoryScans\<close> and \<open>MemoryVisible\<close> what callers rely
  on in every reachable state.

  \<^bold>\<open>Edit tool\<close> (\<open>packages/coding-agent/src/core/tools/edit-diff.ts\<close>). \<open>EditTool\<close> is the code, \<open>EditMatch\<close> and
  \<open>EditApply\<close> what locating and applying give, \<open>EditResults\<close> the promises of the tool.

  \<^bold>\<open>Streamed arguments\<close> (\<open>packages/ai/src/utils\<close>). \<open>StreamJson\<close> is \<open>streaming-json.ts\<close> on a store of mutable
  containers. \<open>StreamDocs\<close> is a reader of single characters without store, pieces and costs; \<open>StreamFollow\<close>,
  \<open>StreamRefine\<close> and \<open>StreamReads\<close> prove that the parser implements it. \<open>StreamGrammar\<close> gives JSON a grammar
  and \<open>StreamTexts\<close>, \<open>StreamCalls\<close>, \<open>StreamChanges\<close> and \<open>StreamCosts\<close> say what snapshots, arguments objects
  and reported changes show and cost. \<open>JsonParse\<close> and \<open>JsonRepair\<close> are \<open>JSON.parse\<close> and \<open>json-parse.ts\<close>;
  \<open>JsonAgree\<close> relates the final arguments to the streamed ones.

  \<^bold>\<open>Transcripts.\<close> \<open>Transcript\<close> is \<open>transcript.ts\<close> and \<open>text.ts\<close> of the same directory; \<open>TranscriptReplay\<close> shows
  that a collapsed transcript goes on like the whole one, that every kind of tool support gives the model
  the current tools, and that the changes between two tool sets lead from one to the other.

  \<^bold>\<open>Bounds and fuel.\<close> Limits of the source (operations per batch, bytes of a frame, depth, sizes of parts)
  are the source's numbers or the options it takes. Loops are recursive functions with a termination
  proof, or partial functions to an option with a proof that they return in every reachable state
  (the frame decoder's push, the scans of all pages, the walks over forks). What recurses over a heap
  with cycles is measured by the objects not on the path to the value, which the check for cycles keeps
  off it. Only the descent of \<open>json_parse\<close> has fuel, twice the length of its text and one, shown enough
  by its completeness for the grammar.

  \<^bold>\<open>Not modelled.\<close> Texts of error messages; the order JavaScript gives integer-like keys of an object;
  the typebox schemas, the compressor, \<open>JSON.stringify\<close> of opaque values and the \<open>partial-json\<close> package,
  which are parameters; timers, file system, network and processes. Of chord the trackers and drafts
  over proxies, the hosts, remotes, cells and connections; of durable the scheduler, the sessions and
  the storages over SQLite, files and IndexedDB; of the edit tool the fuzzy search and the rendering of
  diffs; of the coding agent the agent session, compaction, extensions, modes and the other tools; the
  providers of ai; and the packages for the terminal, the web front ends, the gateway and the runtime.
  They are mostly effects at the boundary of the process, or large tables.
\<close>

section \<open>From revisions to a consumer\<close>






end
